(* ===== verification/Prelude.thy ===== *)
theory Prelude imports Main "HOL-Library.Word" begin

text \<open>
  Shared vocabulary of the development: machine integers, errors as values, byte memory with
  little-endian loads and stores, and the generic lemmas on lists and words that the component
  theories use.
\<close>

unbundle bit_operations_syntax

type_synonym u8 = "8 word"
type_synonym u16 = "16 word"
type_synonym u32 = "32 word"

section \<open>Errors as values\<close>

text \<open>
  The kernel stops in two ways that no caller can observe: by calling \<open>panic\<close> with a message
  (kernel/console.c), and by an access the C code leaves undefined (a null pointer, an index out of
  the array). Both are values of the model.
\<close>

datatype kerror = Panic string | Fault string

type_synonym 'a res = "kerror + 'a"

definition kbind :: "'a res \<Rightarrow> ('a \<Rightarrow> 'b res) \<Rightarrow> 'b res" where
  "kbind r f = (case r of Inl e \<Rightarrow> Inl e | Inr x \<Rightarrow> f x)"

lemma kbind_simps [simp]: "kbind (Inl e) f = Inl e" "kbind (Inr x) f = f x"
  by (simp_all add: kbind_def)

lemma kbind_Inr_iff: "kbind r f = Inr y \<longleftrightarrow> (\<exists>x. r = Inr x \<and> f x = Inr y)"
  by (cases r) simp_all

lemma kbind_Inl_iff:
  "kbind r f = Inl e \<longleftrightarrow> r = Inl e \<or> (\<exists>x. r = Inr x \<and> f x = Inl e)"
  by (cases r) auto

lemma kbind_InrE:
  assumes "kbind r f = Inr y"
  obtains x where "r = Inr x" "f x = Inr y"
  using assms by (auto simp: kbind_Inr_iff)

lemma kbind_assoc: "kbind (kbind r f) g = kbind r (\<lambda>x. kbind (f x) g)"
  by (cases r) simp_all

lemma kbind_cong [fundef_cong]:
  "r = r' \<Longrightarrow> (\<And>x. r' = Inr x \<Longrightarrow> f x = f' x) \<Longrightarrow> kbind r f = kbind r' f'"
  by (cases r') simp_all

section \<open>Named collections\<close>

named_theorems frame_simps \<open>fields an operation leaves unchanged\<close>

section \<open>Words\<close>

lemma unat_add_lt:
  fixes a b :: "'a::len word"
  assumes "unat a + unat b < 2 ^ LENGTH('a)"
  shows "unat (a + b) = unat a + unat b"
  using assms by (simp add: unat_word_ariths)

lemma unat_of_nat_lt:
  assumes "n < 2 ^ LENGTH('a)"
  shows "unat (of_nat n :: 'a::len word) = n"
  using assms by (simp add: unat_of_nat take_bit_nat_eq_self)

lemma word_eq_unatI: "unat a = unat b \<Longrightarrow> a = b"
  by (simp add: word_unat_eq_iff)

lemma unat_u32: "n < 2 ^ 32 \<Longrightarrow> unat (of_nat n :: u32) = n"
  by (rule unat_of_nat_lt) simp

lemma of_nat_u32_eq_iff: "a < 2 ^ 32 \<Longrightarrow> b < 2 ^ 32 \<Longrightarrow> (of_nat a :: u32) = of_nat b \<longleftrightarrow> a = b"
  using unat_u32 by metis

lemma unat_lt32: "unat (a :: u32) < 2 ^ 32"
  using unsigned_less [of a, where ?'a = nat] by simp

lemma sint_unat:
  fixes n :: u32
  assumes "unat n < 2 ^ 31"
  shows "sint n = int (unat n)"
proof -
  have "uint n = int (unat n)" by simp
  moreover have "int (unat n) < int (2 ^ 31)" using assms by (simp only: of_nat_less_iff)
  ultimately have "uint n < 2 ^ 31" by simp
  moreover have "- (2 ^ 31) \<le> uint n" by (rule order_trans [OF _ uint_ge_0]) simp
  ultimately have "signed_take_bit 31 (uint n) = uint n" by (intro signed_take_bit_int_eq_self)
  then show ?thesis by (simp add: sint_uint)
qed

section \<open>Byte-addressed memory\<close>

text \<open>
  A memory is a function from addresses to bytes. The address type is a word for physical memory
  and a natural number for the bytes of one disk block. The 16 and 32 bit accesses are the
  little-endian ones of the x86.
\<close>

definition ld16 :: "('a::comm_semiring_1 \<Rightarrow> u8) \<Rightarrow> 'a \<Rightarrow> u16" where
  "ld16 m a = ucast (m a) OR push_bit 8 (ucast (m (a + 1)))"

definition ld32 :: "('a::comm_semiring_1 \<Rightarrow> u8) \<Rightarrow> 'a \<Rightarrow> u32" where
  "ld32 m a = ucast (m a) OR push_bit 8 (ucast (m (a + 1)))
      OR push_bit 16 (ucast (m (a + 2))) OR push_bit 24 (ucast (m (a + 3)))"

definition st16 :: "('a::comm_semiring_1 \<Rightarrow> u8) \<Rightarrow> 'a \<Rightarrow> u16 \<Rightarrow> 'a \<Rightarrow> u8" where
  "st16 m a v = m(a := ucast v, a + 1 := ucast (drop_bit 8 v))"

definition st32 :: "('a::comm_semiring_1 \<Rightarrow> u8) \<Rightarrow> 'a \<Rightarrow> u32 \<Rightarrow> 'a \<Rightarrow> u8" where
  "st32 m a v = m(a := ucast v, a + 1 := ucast (drop_bit 8 v),
      a + 2 := ucast (drop_bit 16 v), a + 3 := ucast (drop_bit 24 v))"

lemma bytes_of_u32:
  "ucast (ucast v :: u8) OR push_bit 8 (ucast (ucast (drop_bit 8 v) :: u8))
     OR push_bit 16 (ucast (ucast (drop_bit 16 v) :: u8))
     OR push_bit 24 (ucast (ucast (drop_bit 24 v) :: u8)) = (v :: u32)"
proof (rule bit_word_eqI)
  fix n :: nat
  consider "n < 8" | "8 \<le> n" "n < 16" | "16 \<le> n" "n < 24" | "24 \<le> n" by linarith
  then show "bit (ucast (ucast v :: u8) OR push_bit 8 (ucast (ucast (drop_bit 8 v) :: u8))
     OR push_bit 16 (ucast (ucast (drop_bit 16 v) :: u8))
     OR push_bit 24 (ucast (ucast (drop_bit 24 v) :: u8)) :: u32) n = bit v n"
    if "n < LENGTH(32)"
    using that by cases (auto simp: bit_simps)
qed

lemma bytes_of_u16:
  "ucast (ucast v :: u8) OR push_bit 8 (ucast (ucast (drop_bit 8 v) :: u8)) = (v :: u16)"
  by (rule bit_word_eqI) (auto simp: bit_simps)

text \<open>A load sees the last store to the same cell, and no store to a disjoint cell.\<close>

lemma ld32_st32_nat [simp]:
  fixes a :: nat shows "ld32 (st32 m a v) a = v"
  using bytes_of_u32 [of v] by (simp add: ld32_def st32_def)

lemma ld16_st16_nat [simp]:
  fixes a :: nat shows "ld16 (st16 m a v) a = v"
  using bytes_of_u16 [of v] by (simp add: ld16_def st16_def)

lemma ld_st_other_nat:
  fixes a b :: nat
  shows "a + 4 \<le> b \<or> b + 4 \<le> a \<Longrightarrow> ld32 (st32 m a v) b = ld32 m b"
    and "a + 2 \<le> b \<or> b + 4 \<le> a \<Longrightarrow> ld32 (st16 m a w) b = ld32 m b"
    and "a + 4 \<le> b \<or> b + 2 \<le> a \<Longrightarrow> ld16 (st32 m a v) b = ld16 m b"
    and "a + 2 \<le> b \<or> b + 2 \<le> a \<Longrightarrow> ld16 (st16 m a w) b = ld16 m b"
  by (auto simp: ld32_def st32_def ld16_def st16_def)

lemma ld32_cong:
  "m a = m' a \<Longrightarrow> m (a + 1) = m' (a + 1) \<Longrightarrow> m (a + 2) = m' (a + 2) \<Longrightarrow>
   m (a + 3) = m' (a + 3) \<Longrightarrow> ld32 m a = ld32 m' a"
  by (simp add: ld32_def)

lemma ld32_zero [simp]: "ld32 (\<lambda>_. 0) a = 0"
  by (simp add: ld32_def)

lemma st_other_nat:
  fixes a b :: nat
  shows "b < a \<or> a + 4 \<le> b \<Longrightarrow> st32 m a v b = m b"
    and "b < a \<or> a + 2 \<le> b \<Longrightarrow> st16 m a w b = m b"
  by (auto simp: st32_def st16_def)

subsection \<open>Aligned accesses to physical memory\<close>

definition aligned :: "nat \<Rightarrow> u32 \<Rightarrow> bool" where
  "aligned n a \<longleftrightarrow> unat a mod n = 0"

lemma unat_aligned_add:
  assumes "aligned n a" "n dvd 2 ^ 32" "unat (i :: u32) < n"
  shows "unat (a + i) = unat a + unat i"
proof -
  obtain k where k: "unat a = n * k" using assms(1) by (auto simp: aligned_def elim: dvdE)
  obtain j where j: "(2 :: nat) ^ 32 = n * j" using assms(2) unfolding dvd_def by blast
  have "unat a < 2 ^ 32" using unsigned_less [where ?w = a, where ?'a = nat] by simp
  then have "n * k < n * j" using k j by simp
  then have "Suc k \<le> j" by simp
  then have "n * Suc k \<le> n * j" by (rule mult_le_mono2)
  then have "unat a + unat i < 2 ^ 32" using k j assms(3) by simp
  then show ?thesis by (intro unat_add_lt) simp
qed

lemma aligned_add_inj:
  assumes "aligned n a" "aligned n b" "n dvd 2 ^ 32" "unat i < n" "unat j < n" "a + i = b + j"
  shows "a = b \<and> i = j"
proof -
  have e: "unat a + unat i = unat b + unat j"
    using assms unat_aligned_add by metis
  have "unat a div n = unat b div n \<and> unat i = unat j"
  proof -
    have "(unat a + unat i) div n = unat a div n" "(unat a + unat i) mod n = unat i"
      "(unat b + unat j) div n = unat b div n" "(unat b + unat j) mod n = unat j"
      using assms by (auto simp: aligned_def elim!: dvdE)
    with e show ?thesis by metis
  qed
  moreover have "unat a = n * (unat a div n)" "unat b = n * (unat b div n)"
    using assms(1,2) by (auto simp: aligned_def)
  ultimately show ?thesis by (metis word_eq_unatI)
qed

lemma ld32_st32 [simp]:
  fixes a :: u32 shows "ld32 (st32 m a v) a = v"
  using bytes_of_u32 [of v] by (simp add: ld32_def st32_def)

lemma ld32_st32_other:
  assumes "aligned 4 a" "aligned 4 b" "a \<noteq> b"
  shows "ld32 (st32 m a v) b = ld32 m b"
proof -
  have "a + i \<noteq> b + j" if "i \<in> {0, 1, 2, 3}" "j \<in> {0, 1, 2, 3}" for i j :: u32
    using aligned_add_inj [OF assms(1,2), of i j] that assms(3) by auto
  from this [of 0 0] this [of 0 1] this [of 0 2] this [of 0 3]
    this [of 1 0] this [of 1 1] this [of 1 2] this [of 1 3]
    this [of 2 0] this [of 2 1] this [of 2 2] this [of 2 3]
    this [of 3 0] this [of 3 1] this [of 3 2] this [of 3 3]
  show ?thesis by (simp add: ld32_def st32_def)
qed

end
