(* ===== verification/Ide.thy ===== *)
theory Ide imports Prelude begin

text \<open>
  kernel/buf.h and kernel/ide.c: buffers and the queue of disk requests. The three bits of
  \<open>flags\<close> are three fields, the list linked through \<open>qnext\<close> from \<open>idequeue\<close> is a list of buffer numbers,
  and the ports of the controller are its effect: a command names a drive and a 28-bit sector; a
  write stores the sector when the command and its data are out, a read delivers it when the
  interrupt comes. Buffers are numbered; \<open>prev\<close> and \<open>next\<close> belong to the cache (theory Bio).
\<close>

type_synonym block = "nat \<Rightarrow> u8"

record buf =
  busy :: bool
  valid :: bool
  dirty :: bool
  bdev :: u32
  sector :: u32
  bprev :: nat
  bnext :: nat
  bdata :: block

record dstate =
  buf :: "nat \<Rightarrow> buf"
  idequeue :: "nat list"
  disk :: "u32 \<Rightarrow> u32 \<Rightarrow> block"
  havedisk1 :: bool

abbreviation upd_buf :: "nat \<Rightarrow> (buf \<Rightarrow> buf) \<Rightarrow> dstate \<Rightarrow> dstate" where
  "upd_buf b f s \<equiv> s\<lparr>buf := (buf s)(b := f (buf s b))\<rparr>"

text \<open>The drive and the sector that the registers written by \<open>idestart\<close> select.\<close>

definition ide_drive :: "buf \<Rightarrow> u32" where
  "ide_drive b = bdev b AND 1"

definition ide_lba :: "buf \<Rightarrow> u32" where
  "ide_lba b =
     (let r3 = sector b AND 0xff; r4 = drop_bit 8 (sector b) AND 0xff; r5 = drop_bit 16 (sector b) AND 0xff;
          r6 = drop_bit 24 (sector b) AND 0x0f
      in r3 OR push_bit 8 r4 OR push_bit 16 r5 OR push_bit 24 r6)"

definition idestart :: "nat \<Rightarrow> dstate \<Rightarrow> dstate" where
  "idestart b s =
     (let k = buf s b in
      if dirty k
      then s\<lparr>disk := (disk s)(ide_drive k := (disk s (ide_drive k))(ide_lba k := bdata k))\<rparr>
      else s)"

text \<open>The interrupt handler, with the buffer it wakes; \<open>ok\<close> is the answer of \<open>idewait(1)\<close>.\<close>

definition ideintr :: "bool \<Rightarrow> dstate \<Rightarrow> nat list \<times> dstate" where
  "ideintr ok s = (case idequeue s of
     [] \<Rightarrow> ([], s)
   | b # q \<Rightarrow>
       let s = s\<lparr>idequeue := q\<rparr>;
           s = (if \<not> dirty (buf s b) \<and> ok
                then upd_buf b (\<lambda>k. k\<lparr>bdata := disk s (ide_drive k) (ide_lba k)\<rparr>) s else s);
           s = upd_buf b (\<lambda>k. k\<lparr>valid := True, dirty := False\<rparr>) s;
           s = (case idequeue s of [] \<Rightarrow> s | c # _ \<Rightarrow> idestart c s)
       in ([b], s))"

text \<open>\<open>iderw\<close> up to its loop, which sleeps on \<open>b\<close> until \<open>ide_done s b\<close>.\<close>

definition iderw :: "nat \<Rightarrow> dstate \<Rightarrow> dstate res" where
  "iderw b s =
     (if \<not> busy (buf s b) then Inl (Panic ''iderw: buf not busy'')
      else if valid (buf s b) \<and> \<not> dirty (buf s b) then Inl (Panic ''iderw: nothing to do'')
      else if bdev (buf s b) \<noteq> 0 \<and> \<not> havedisk1 s then Inl (Panic ''iderw: ide disk 1 not present'')
      else let s = s\<lparr>idequeue := idequeue s @ [b]\<rparr>
        in Inr (if hd (idequeue s) = b then idestart b s else s))"

definition ide_done :: "dstate \<Rightarrow> nat \<Rightarrow> bool" where
  "ide_done s b \<longleftrightarrow> valid (buf s b) \<and> \<not> dirty (buf s b)"

section \<open>Addresses\<close>

text \<open>The four address registers carry the low 28 bits of the sector number.\<close>

lemma ide_lba_eq: "ide_lba b = take_bit 28 (sector b)"
proof -
  have m: "(0xff :: u32) = mask 8" "(0x0f :: u32) = mask 4" by (simp_all add: mask_eq_exp_minus_1)
  show ?thesis
  proof (rule bit_word_eqI)
    fix n assume "n < LENGTH(32)"
    consider "n < 8" | "8 \<le> n" "n < 16" | "16 \<le> n" "n < 24" | "24 \<le> n" by linarith
    then show "bit (ide_lba b) n \<longleftrightarrow> bit (take_bit 28 (sector b)) n"
      by cases (auto simp: ide_lba_def Let_def m bit_simps)
  qed
qed

section \<open>The queue serves requests in order\<close>

text \<open>What one request does, all at once.\<close>

definition perform :: "nat \<Rightarrow> dstate \<Rightarrow> dstate" where
  "perform b s =
     upd_buf b (\<lambda>k. k\<lparr>bdata := disk (idestart b s) (ide_drive k) (ide_lba k), valid := True, dirty := False\<rparr>)
       (idestart b s)"

text \<open>The command for the first buffer of the queue has been started.\<close>

definition started :: "dstate \<Rightarrow> bool" where
  "started s \<longleftrightarrow> (case idequeue s of [] \<Rightarrow> True | b # _ \<Rightarrow> idestart b s = s)"

lemma idestart_idem [simp]: "idestart b (idestart b s) = idestart b s"
  by (simp add: idestart_def Let_def)

lemma idestart_fields [simp]:
  "buf (idestart b s) = buf s" "idequeue (idestart b s) = idequeue s" "havedisk1 (idestart b s) = havedisk1 s"
  by (simp_all add: idestart_def Let_def)


lemma perform_start [simp]: "perform b (idestart b s) = perform b s"
  by (simp add: perform_def)

lemma idestart_queue: "idestart b (s\<lparr>idequeue := q\<rparr>) = (idestart b s)\<lparr>idequeue := q\<rparr>"
  by (simp add: idestart_def Let_def)

lemma perform_queue: "perform b (s\<lparr>idequeue := q\<rparr>) = (perform b s)\<lparr>idequeue := q\<rparr>"
  by (simp add: perform_def idestart_queue)

lemma idestart_dirty:
  assumes "dirty (buf s b)" "idestart b s = s"
  shows "disk s (ide_drive (buf s b)) (ide_lba (buf s b)) = bdata (buf s b)"
proof -
  have "disk (idestart b s) (ide_drive (buf s b)) (ide_lba (buf s b)) = bdata (buf s b)"
    using assms(1) by (simp add: idestart_def Let_def)
  then show ?thesis by (simp only: assms(2))
qed

lemma buf_idequeue: "s\<lparr>idequeue := q, buf := f\<rparr> = s\<lparr>buf := f, idequeue := q\<rparr>"
  by simp

lemma ideintr_perform:
  assumes "idequeue s = b # q" "started s"
  shows "ideintr True s = ([b], (case q of [] \<Rightarrow> \<lambda>s. s | c # _ \<Rightarrow> idestart c) ((perform b s)\<lparr>idequeue := q\<rparr>))"
proof -
  have st: "idestart b s = s" using assms by (simp add: started_def)
  show ?thesis
  proof (cases "dirty (buf s b)")
    case True
    have "(buf s b)\<lparr>bdata := disk s (ide_drive (buf s b)) (ide_lba (buf s b)), valid := True, dirty := False\<rparr>
        = (buf s b)\<lparr>valid := True, dirty := False\<rparr>" using idestart_dirty [OF True st] by simp
    with True st assms(1) show ?thesis
      by (cases q) (simp_all add: ideintr_def perform_def Let_def buf_idequeue)
  next
    case False
    with st assms(1) show ?thesis
      by (cases q) (simp_all add: ideintr_def perform_def Let_def buf_idequeue)
  qed
qed

fun drain :: "nat \<Rightarrow> dstate \<Rightarrow> dstate" where
  "drain 0 s = s"
| "drain (Suc n) s = drain n (snd (ideintr True s))"

lemma drain_perform:
  "idequeue s = q \<Longrightarrow> started s \<Longrightarrow> drain (length q) s = (fold perform q s)\<lparr>idequeue := []\<rparr>"
proof (induction q arbitrary: s)
  case (Cons b q)
  let ?s = "snd (ideintr True s)"
  have e: "?s = (case q of [] \<Rightarrow> \<lambda>s. s | c # _ \<Rightarrow> idestart c) ((perform b s)\<lparr>idequeue := q\<rparr>)"
    using ideintr_perform [OF Cons.prems] by simp
  then have "idequeue ?s = q" "started ?s" by (simp_all add: started_def split: list.split)
  with Cons.IH have "drain (length q) ?s = (fold perform q ?s)\<lparr>idequeue := []\<rparr>" by blast
  also have "fold perform q ?s = fold perform q ((perform b s)\<lparr>idequeue := q\<rparr>)"
    unfolding e by (cases q) simp_all
  also have "\<dots> = (fold perform q (perform b s))\<lparr>idequeue := q\<rparr>" for q'
  proof -
    have "fold perform xs (t\<lparr>idequeue := q\<rparr>) = (fold perform xs t)\<lparr>idequeue := q\<rparr>" for xs t
      by (induction xs arbitrary: t) (simp_all add: perform_queue)
    then show ?thesis .
  qed
  finally show ?case by simp
qed simp

lemma iderw_queue:
  assumes "iderw b s = Inr s'" "started s" "b \<notin> set (idequeue s)"
  shows "idequeue s' = idequeue s @ [b] \<and> started s' \<and> buf s' = buf s"
  using assms
  by (cases "idequeue s") (auto simp: iderw_def Let_def started_def idestart_queue split: if_splits)

text \<open>
  Submitting a list of buffers that are locked and have something to do, to an idle disk: the state
  before the first interrupt.
\<close>

fun iderw_all :: "nat list \<Rightarrow> dstate \<Rightarrow> dstate res" where
  "iderw_all [] s = Inr s"
| "iderw_all (b # bs) s = kbind (iderw b s) (iderw_all bs)"

lemma iderw_all_ok:
  assumes "started s" "distinct (idequeue s @ bs)"
    and "\<And>b. b \<in> set bs \<Longrightarrow> busy (buf s b) \<and> \<not> ide_done s b \<and> (bdev (buf s b) = 0 \<or> havedisk1 s)"
  shows "\<exists>s'. iderw_all bs s = Inr s' \<and> idequeue s' = idequeue s @ bs \<and> started s' \<and>
    s' = (case idequeue s @ bs of [] \<Rightarrow> s | c # _ \<Rightarrow> idestart c s)\<lparr>idequeue := idequeue s @ bs\<rparr>"
  using assms
proof (induction bs arbitrary: s)
  case Nil
  then show ?case by (auto simp: started_def split: list.split)
next
  case (Cons b bs)
  have b: "b \<notin> set (idequeue s)" "busy (buf s b)" "\<not> ide_done s b" "bdev (buf s b) = 0 \<or> havedisk1 s"
    using Cons.prems by auto
  define s1 where "s1 = (case idequeue s of [] \<Rightarrow> idestart b s | _ \<Rightarrow> s)\<lparr>idequeue := idequeue s @ [b]\<rparr>"
  have i: "iderw b s = Inr s1"
    using b by (cases "idequeue s") (auto simp: iderw_def s1_def ide_done_def Let_def idestart_queue)
  have f: "buf s1 = buf s" "havedisk1 s1 = havedisk1 s" "idequeue s1 = idequeue s @ [b]"
    by (simp_all add: s1_def split: list.split)
  have "started s1" using Cons.prems(1) by (auto simp: started_def s1_def idestart_queue split: list.splits)
  then have "\<exists>s'. iderw_all bs s1 = Inr s' \<and> idequeue s' = idequeue s1 @ bs \<and> started s' \<and>
      s' = (case idequeue s1 @ bs of [] \<Rightarrow> s1 | c # _ \<Rightarrow> idestart c s1)\<lparr>idequeue := idequeue s1 @ bs\<rparr>"
    using Cons.prems f by (intro Cons.IH) (auto simp: ide_done_def)
  moreover have "(case idequeue s1 @ bs of [] \<Rightarrow> s1 | c # _ \<Rightarrow> idestart c s1)\<lparr>idequeue := idequeue s1 @ bs\<rparr> =
      (case idequeue s @ b # bs of [] \<Rightarrow> s | c # _ \<Rightarrow> idestart c s)\<lparr>idequeue := idequeue s @ b # bs\<rparr>"
    by (cases "idequeue s") (simp_all add: s1_def idestart_queue)
  ultimately show ?case using i f(3) by auto
qed


lemma perform_buf:
  "buf (perform b s) c = (if c = b then (buf s b)\<lparr>bdata := disk (perform b s) (ide_drive (buf s b)) (ide_lba (buf s b)),
     valid := True, dirty := False\<rparr> else buf s c)"
  by (simp add: perform_def)

lemma perform_fields [simp]:
  "idequeue (perform b s) = idequeue s" "havedisk1 (perform b s) = havedisk1 s"
  by (simp_all add: perform_def)

lemma fold_perform_done: "b \<in> set bs \<or> ide_done s b \<Longrightarrow> ide_done (fold perform bs s) b"
  by (induction bs arbitrary: s) (auto simp: ide_done_def perform_buf)

lemma iderw_all_drain:
  assumes "idequeue s = []" "distinct bs"
    and "\<And>b. b \<in> set bs \<Longrightarrow> busy (buf s b) \<and> \<not> ide_done s b \<and> (bdev (buf s b) = 0 \<or> havedisk1 s)"
  shows "\<exists>s'. iderw_all bs s = Inr s' \<and> drain (length bs) s' = fold perform bs s"
proof -
  have q: "s\<lparr>idequeue := []\<rparr> = s" using assms(1) by simp
  have f: "fold perform xs (t\<lparr>idequeue := y\<rparr>) = (fold perform xs t)\<lparr>idequeue := y\<rparr>" for xs t y
    by (induction xs arbitrary: t) (simp_all add: perform_queue)
  have fq: "idequeue (fold perform xs t) = idequeue t" for xs t
    by (induction xs arbitrary: t) simp_all
  obtain s' where s': "iderw_all bs s = Inr s'" "idequeue s' = bs" "started s'"
    "s' = (case bs of [] \<Rightarrow> s | c # _ \<Rightarrow> idestart c s)\<lparr>idequeue := bs\<rparr>"
    using iderw_all_ok [of s bs] assms by (auto simp: started_def)
  have "drain (length bs) s' = (fold perform bs s')\<lparr>idequeue := []\<rparr>"
    using drain_perform [OF s'(2,3)] .
  also have "fold perform bs s' = (fold perform bs s)\<lparr>idequeue := bs\<rparr>"
    unfolding s'(4) f by (cases bs) simp_all
  finally show ?thesis using s'(1) fq [of bs s] assms(1) by simp
qed

text \<open>A whole call of \<open>iderw\<close>: it submits \<open>b\<close>, then interrupts come until the disk is idle.\<close>

definition iderw_wait :: "nat \<Rightarrow> dstate \<Rightarrow> dstate res" where
  "iderw_wait b s = kbind (iderw b s) (\<lambda>s. Inr (drain (length (idequeue s)) s))"

lemma iderw_wait_idle:
  assumes "idequeue s = []"
  shows "iderw_wait b s =
    (if \<not> busy (buf s b) then Inl (Panic ''iderw: buf not busy'')
     else if ide_done s b then Inl (Panic ''iderw: nothing to do'')
     else if bdev (buf s b) \<noteq> 0 \<and> \<not> havedisk1 s then Inl (Panic ''iderw: ide disk 1 not present'')
     else Inr (perform b s))"
proof (cases "busy (buf s b) \<and> \<not> ide_done s b \<and> (bdev (buf s b) = 0 \<or> havedisk1 s)")
  case True
  then obtain s' where "iderw_all [b] s = Inr s'" "drain 1 s' = perform b s"
    using iderw_all_drain [of s "[b]"] assms by auto
  then have s': "iderw b s = Inr s'" "drain 1 s' = perform b s" by (auto simp: kbind_def split: sum.splits)
  have "idequeue s' = [b]" using iderw_queue [OF s'(1)] assms by (simp add: started_def)
  then show ?thesis using s' True by (simp add: iderw_wait_def)
next
  case False
  then show ?thesis by (auto simp: iderw_wait_def iderw_def ide_done_def)
qed

section \<open>Properties\<close>

text \<open>
  C12. The disk queue serves requests completely and in order: when locked buffers with something to
  do are submitted to an idle disk, then after one interrupt for each the result is what doing the
  requests one after another would give, and every buffer is valid and clean.
\<close>

theorem ide_serves_in_order:
  assumes "idequeue s = []" "distinct bs"
    and "\<And>b. b \<in> set bs \<Longrightarrow> busy (buf s b) \<and> \<not> ide_done s b \<and> (bdev (buf s b) = 0 \<or> havedisk1 s)"
  shows "\<exists>s'. iderw_all bs s = Inr s' \<and> drain (length bs) s' = fold perform bs s \<and>
    (\<forall>b \<in> set bs. ide_done (drain (length bs) s') b)"
proof -
  obtain s' where "iderw_all bs s = Inr s'" "drain (length bs) s' = fold perform bs s"
    using iderw_all_drain [OF assms] by blast
  then show ?thesis by (auto intro: fold_perform_done)
qed

definition ide_demo :: dstate where
  "ide_demo = \<lparr>buf = (\<lambda>i. \<lparr>busy = True, valid = False, dirty = i = 0, bdev = 1, sector = 5, bprev = 0, bnext = 0,
      bdata = \<lambda>_. of_nat i + 40\<rparr>), idequeue = [], disk = \<lambda>_ _ _. 0, havedisk1 = True\<rparr>"

lemma ide_serves_in_order_witness:
  "\<exists>s'. iderw_all [0, 1] ide_demo = Inr s' \<and> ide_done (drain 2 s') 1 \<and> bdata (buf (drain 2 s') 1) 9 = 40"
proof -
  have "\<exists>s'. iderw_all [0, 1] ide_demo = Inr s' \<and> drain (length [0, 1::nat]) s' = fold perform [0, 1] ide_demo \<and>
    (\<forall>b \<in> set [0, 1::nat]. ide_done (drain (length [0, 1::nat]) s') b)"
    by (rule ide_serves_in_order) (auto simp: ide_demo_def ide_done_def)
  moreover have "bdata (buf (fold perform [0, 1] ide_demo) 1) 9 = 40"
    by (simp add: perform_def idestart_def ide_demo_def Let_def ide_drive_def ide_lba_def)
  ultimately show ?thesis by (auto simp: numeral_2_eq_2)
qed

end
