(* ===== verification/Bio.thy ===== *)
theory Bio imports Ide begin

text \<open>
  kernel/bio.c: the buffer cache. Buffers 0 to \<open>NBUF - 1\<close> are \<open>bcache.buf\<close>, number \<open>NBUF\<close> is
  \<open>bcache.head\<close>; \<open>bprev\<close> and \<open>bnext\<close> hold buffer numbers, and every assignment of the code to a link is
  one assignment of the model. A loop over the list gets as fuel one round more than there are
  buffers; the invariant \<open>lru\<close> shows that it ends before.
\<close>

abbreviation NBUF :: nat where "NBUF \<equiv> 10"

section \<open>The routines\<close>

text \<open>\<open>b->next\<close> and \<open>b->prev\<close>, and assignments to them.\<close>

definition nxt :: "dstate \<Rightarrow> nat \<Rightarrow> nat" where "nxt s b = bnext (buf s b)"
definition prv :: "dstate \<Rightarrow> nat \<Rightarrow> nat" where "prv s b = bprev (buf s b)"

definition set_next :: "nat \<Rightarrow> nat \<Rightarrow> dstate \<Rightarrow> dstate" where
  "set_next b v = upd_buf b (\<lambda>k. k\<lparr>bnext := v\<rparr>)"

definition set_prev :: "nat \<Rightarrow> nat \<Rightarrow> dstate \<Rightarrow> dstate" where
  "set_prev b v = upd_buf b (\<lambda>k. k\<lparr>bprev := v\<rparr>)"

definition binit_one :: "nat \<Rightarrow> dstate \<Rightarrow> dstate" where
  "binit_one b s =
     (let s = set_next b (nxt s NBUF) s;
          s = set_prev b NBUF s;
          s = upd_buf b (\<lambda>k. k\<lparr>bdev := -1\<rparr>) s;
          s = set_prev (nxt s NBUF) b s
      in set_next NBUF b s)"

definition binit :: "dstate \<Rightarrow> dstate" where
  "binit s = fold binit_one [0..<NBUF] (set_next NBUF NBUF (set_prev NBUF NBUF s))"

text \<open>The two searches of \<open>bget\<close>, from buffer \<open>b\<close> on.\<close>

fun find_cached :: "nat \<Rightarrow> u32 \<Rightarrow> u32 \<Rightarrow> dstate \<Rightarrow> nat \<Rightarrow> nat option" where
  "find_cached 0 dev sec s b = None"
| "find_cached (Suc fuel) dev sec s b =
     (if b = NBUF then None
      else if bdev (buf s b) = dev \<and> sector (buf s b) = sec then Some b
      else find_cached fuel dev sec s (nxt s b))"

fun find_free :: "nat \<Rightarrow> dstate \<Rightarrow> nat \<Rightarrow> nat option" where
  "find_free 0 s b = None"
| "find_free (Suc fuel) s b =
     (if b = NBUF then None
      else if \<not> busy (buf s b) then Some b
      else find_free fuel s (prv s b))"

datatype got = Locked nat | SleepOn nat

definition bget :: "u32 \<Rightarrow> u32 \<Rightarrow> dstate \<Rightarrow> (got \<times> dstate) res" where
  "bget dev sec s = (case find_cached (Suc NBUF) dev sec s (nxt s NBUF) of
     Some b \<Rightarrow>
       if \<not> busy (buf s b) then Inr (Locked b, upd_buf b (\<lambda>k. k\<lparr>busy := True\<rparr>) s)
       else Inr (SleepOn b, s)
   | None \<Rightarrow> (case find_free (Suc NBUF) s (prv s NBUF) of
       Some b \<Rightarrow> Inr (Locked b,
         upd_buf b (\<lambda>k. k\<lparr>bdev := dev, sector := sec, busy := True, valid := False, dirty := False\<rparr>) s)
     | None \<Rightarrow> Inl (Panic ''bget: no buffers'')))"

definition bread :: "u32 \<Rightarrow> u32 \<Rightarrow> dstate \<Rightarrow> (got \<times> dstate) res" where
  "bread dev sec s = kbind (bget dev sec s) (\<lambda>(g, s). case g of
     SleepOn b \<Rightarrow> Inr (SleepOn b, s)
   | Locked b \<Rightarrow>
       if \<not> valid (buf s b) then kbind (iderw_wait b s) (\<lambda>s. Inr (Locked b, s))
       else Inr (Locked b, s))"

definition bwrite :: "nat \<Rightarrow> dstate \<Rightarrow> dstate res" where
  "bwrite b s =
     (if \<not> busy (buf s b) then Inl (Panic ''bwrite'')
      else iderw_wait b (upd_buf b (\<lambda>k. k\<lparr>dirty := True\<rparr>) s))"

text \<open>\<open>brelse\<close>; the processes sleeping on \<open>b\<close> wake up.\<close>

definition brelse :: "nat \<Rightarrow> dstate \<Rightarrow> dstate res" where
  "brelse b s =
     (if \<not> busy (buf s b) then Inl (Panic ''brelse'')
      else let
        s = set_prev (nxt s b) (prv s b) s;
        s = set_next (prv s b) (nxt s b) s;
        s = set_next b (nxt s NBUF) s;
        s = set_prev b NBUF s;
        s = set_prev (nxt s NBUF) b s;
        s = set_next NBUF b s
      in Inr (upd_buf b (\<lambda>k. k\<lparr>busy := False\<rparr>) s))"

lemma set_link_simps [simp]:
  "nxt (set_next b v s) = (nxt s)(b := v)" "prv (set_next b v s) = prv s"
  "nxt (set_prev b v s) = nxt s" "prv (set_prev b v s) = (prv s)(b := v)"
  by (auto simp: nxt_def prv_def set_next_def set_prev_def)

lemma set_link_frame [simp]:
  "busy (buf (set_next b v s) c) = busy (buf s c)" "busy (buf (set_prev b v s) c) = busy (buf s c)"
  "valid (buf (set_next b v s) c) = valid (buf s c)" "valid (buf (set_prev b v s) c) = valid (buf s c)"
  "dirty (buf (set_next b v s) c) = dirty (buf s c)" "dirty (buf (set_prev b v s) c) = dirty (buf s c)"
  "bdev (buf (set_next b v s) c) = bdev (buf s c)" "bdev (buf (set_prev b v s) c) = bdev (buf s c)"
  "sector (buf (set_next b v s) c) = sector (buf s c)" "sector (buf (set_prev b v s) c) = sector (buf s c)"
  "bdata (buf (set_next b v s) c) = bdata (buf s c)" "bdata (buf (set_prev b v s) c) = bdata (buf s c)"
  "idequeue (set_next b v s) = idequeue s" "idequeue (set_prev b v s) = idequeue s"
  "disk (set_next b v s) = disk s" "disk (set_prev b v s) = disk s"
  "havedisk1 (set_next b v s) = havedisk1 s" "havedisk1 (set_prev b v s) = havedisk1 s"
  by (simp_all add: set_next_def set_prev_def)

lemma links_upd [simp]:
  "(\<And>k. bnext (f k) = bnext k) \<Longrightarrow> nxt (upd_buf b f s) = nxt s"
  "(\<And>k. bprev (f k) = bprev k) \<Longrightarrow> prv (upd_buf b f s) = prv s"
  by (auto simp: nxt_def prv_def)

section \<open>The list of buffers\<close>

text \<open>Following the links \<open>f\<close> from \<open>a\<close> visits \<open>xs\<close> and then comes to \<open>z\<close>.\<close>

fun seg :: "(nat \<Rightarrow> nat) \<Rightarrow> nat \<Rightarrow> nat list \<Rightarrow> nat \<Rightarrow> bool" where
  "seg f a [] z \<longleftrightarrow> f a = z"
| "seg f a (x # xs) z \<longleftrightarrow> f a = x \<and> seg f x xs z"

definition lru :: "dstate \<Rightarrow> nat list \<Rightarrow> bool" where
  "lru s bs \<longleftrightarrow> distinct bs \<and> set bs = {0..<NBUF} \<and> seg (nxt s) NBUF bs NBUF \<and> seg (prv s) NBUF (rev bs) NBUF"

lemma seg_append: "seg f a (xs @ y # ys) z \<longleftrightarrow> seg f a xs y \<and> seg f y ys z"
  by (induction xs arbitrary: a) auto

lemma seg_start: "seg f a xs z \<Longrightarrow> g b = f a \<Longrightarrow> (\<And>x. x \<in> set xs \<Longrightarrow> g x = f x) \<Longrightarrow> seg g b xs z"
  by (induction xs arbitrary: a b) auto

lemma seg_hd: "seg f a xs z \<Longrightarrow> f a = hd (xs @ [z])"
  by (cases xs) auto

lemma seg_relink:
  "seg f a xs y \<Longrightarrow> distinct (a # xs) \<Longrightarrow> seg (f(last (a # xs) := z)) a xs z"
proof (induction xs arbitrary: a)
  case (Cons x xs)
  have "last (x # xs) \<noteq> a" using Cons.prems(2) last_in_set [of "x # xs"] by (auto simp del: last.simps)
  moreover have "seg (f(last (x # xs) := z)) x xs z" using Cons.prems by (intro Cons.IH) auto
  moreover have "last (a # x # xs) = last (x # xs)" by simp
  ultimately show ?case
    using Cons.prems(1) by (simp del: fun_upd_apply last.simps add: fun_upd_other [symmetric])
      (simp add: fun_upd_other)
qed simp

text \<open>Taking \<open>b\<close> out of a ring, and putting it back right after, or right before, the head.\<close>

lemma seg_remove:
  assumes "seg f a (xs @ b # ys) a" "distinct (a # xs @ b # ys)"
  shows "seg (f(last (a # xs) := f b)) a (xs @ ys) a"
proof -
  let ?g = "f(last (a # xs) := f b)"
  have s: "seg f a xs b" "seg f b ys a" using assms(1) by (simp_all add: seg_append)
  have x: "seg ?g a xs (f b)" using seg_relink [OF s(1)] assms(2) by simp
  show ?thesis
  proof (cases ys)
    case Nil
    then show ?thesis using x s(2) by simp
  next
    case (Cons y ys')
    have "last (a # xs) \<in> set (a # xs)" by (rule last_in_set) simp
    then have "last (a # xs) \<notin> set ys" using assms(2) by auto
    then have "seg ?g y ys' a" using s(2) Cons by (auto intro: seg_start [of f y])
    moreover have "f b = y" using s(2) Cons by simp
    ultimately show ?thesis using x Cons by (simp add: seg_append)
  qed
qed

lemma seg_insert_front:
  assumes "seg f a xs a" "distinct (a # b # xs)"
  shows "seg (f(b := f a, a := b)) a (b # xs) a"
  using assms by (auto intro: seg_start)

lemma seg_insert_back:
  assumes "seg f a xs a" "distinct (a # b # xs)"
  shows "seg (f(b := a, last (a # xs) := b)) a (xs @ [b]) a"
proof -
  have "last (a # xs) \<in> set (a # xs)" by (rule last_in_set) simp
  then have ne: "b \<noteq> last (a # xs)" using assms(2) by auto
  have "seg (f(b := a)) a xs a" using assms by (auto intro: seg_start)
  then have "seg (f(b := a, last (a # xs) := b)) a xs b" using assms(2) by (intro seg_relink) auto
  then show ?thesis using ne by (simp add: seg_append)
qed

text \<open>\<open>brelse\<close> moves its buffer to the front of the list and unlocks it, and changes nothing else.\<close>

lemma brelse_ok:
  assumes "lru s bs" "b \<in> set bs" "busy (buf s b)"
  shows "\<exists>s'. brelse b s = Inr s' \<and> lru s' (b # remove1 b bs) \<and>
    (\<forall>c. busy (buf s' c) = (busy (buf s c) \<and> c \<noteq> b) \<and> valid (buf s' c) = valid (buf s c) \<and>
      dirty (buf s' c) = dirty (buf s c) \<and> bdev (buf s' c) = bdev (buf s c) \<and>
      sector (buf s' c) = sector (buf s c) \<and> bdata (buf s' c) = bdata (buf s c)) \<and>
    idequeue s' = idequeue s \<and> disk s' = disk s \<and> havedisk1 s' = havedisk1 s"
proof -
  obtain xs ys where bs: "bs = xs @ b # ys" "b \<notin> set xs"
    using split_list_first [OF assms(2)] by blast
  let ?h = "NBUF"
  have d: "distinct (?h # xs @ b # ys)" "distinct (?h # rev ys @ b # rev xs)" and sn: "seg (nxt s) ?h (xs @ b # ys) ?h"
    and sp: "seg (prv s) ?h (rev ys @ b # rev xs) ?h" using assms(1) bs by (auto simp: lru_def)
  have nb: "b \<noteq> ?h" using d by auto
  define n where "n = nxt s b"
  define p where "p = prv s b"
  have p: "p = last (?h # xs)"
    using seg_hd [of "prv s" b "rev xs" ?h] sp unfolding p_def seg_append by (cases xs rule: rev_cases) auto
  have n: "n = last (?h # rev ys)"
    using seg_hd [of "nxt s" b ys ?h] sn unfolding n_def seg_append by (cases ys) auto
  define f1 where "f1 = (nxt s)(p := n)"
  define g1 where "g1 = (prv s)(n := p)"
  have f1: "seg f1 ?h (xs @ ys) ?h" unfolding f1_def p n_def using seg_remove [OF sn d(1)] .
  have g1: "seg g1 ?h (rev ys @ rev xs) ?h" unfolding g1_def n p_def using seg_remove [OF sp d(2)] .
  have h: "f1 ?h = last (?h # rev ys @ rev xs)"
    using seg_hd [OF f1] by (cases xs; cases ys) auto
  have pb: "p \<noteq> b" "n \<noteq> b"
    using d last_in_set [of "?h # xs"] last_in_set [of "?h # rev ys"] unfolding p n by (auto simp del: last.simps)
  define s1 where "s1 = set_next p n (set_prev n p s)"
  define s2 where "s2 = set_prev b ?h (set_next b (f1 ?h) s1)"
  have s1: "nxt s1 = f1" "prv s1 = g1" by (simp_all add: s1_def f1_def g1_def)
  have l: "nxt (set_prev n p s) b = n" "prv (set_prev n p s) b = p" "nxt s1 ?h = f1 ?h" "nxt s2 ?h = f1 ?h"
    using pb nb s1 by (simp_all add: n_def p_def s2_def)
  have e: "brelse b s = Inr (upd_buf b (\<lambda>k. k\<lparr>busy := False\<rparr>) (set_next ?h b (set_prev (f1 ?h) b s2)))"
    by (simp only: brelse_def Let_def n_def [symmetric] p_def [symmetric] l s1_def [symmetric] s2_def [symmetric]
      assms(3) not_True_eq_False if_False)
  define s' where "s' = upd_buf b (\<lambda>k. k\<lparr>busy := False\<rparr>) (set_next ?h b (set_prev (f1 ?h) b s2))"
  have s': "brelse b s = Inr s'" "nxt s' = f1(b := f1 ?h, ?h := b)" "prv s' = g1(b := ?h, f1 ?h := b)"
    unfolding e s'_def by (simp_all add: s2_def s1)
  have fr: "\<forall>c. busy (buf s' c) = (busy (buf s c) \<and> c \<noteq> b) \<and> valid (buf s' c) = valid (buf s c) \<and>
      dirty (buf s' c) = dirty (buf s c) \<and> bdev (buf s' c) = bdev (buf s c) \<and>
      sector (buf s' c) = sector (buf s c) \<and> bdata (buf s' c) = bdata (buf s c)"
    "idequeue s' = idequeue s \<and> disk s' = disk s \<and> havedisk1 s' = havedisk1 s"
    by (simp_all add: s'_def s2_def s1_def)
  have "seg (nxt s') ?h (b # xs @ ys) ?h"
    unfolding s'(2) using d by (intro seg_insert_front [OF f1]) auto
  moreover have "seg (prv s') ?h ((rev ys @ rev xs) @ [b]) ?h"
    unfolding s'(3) h using d by (intro seg_insert_back [OF g1]) auto
  moreover have "remove1 b bs = xs @ ys" using bs by (simp add: remove1_append)
  moreover have "set (b # xs @ ys) = {0..<NBUF}" "distinct (b # xs @ ys)" using assms(1) bs by (auto simp: lru_def)
  ultimately have "lru s' (b # remove1 b bs)" by (simp add: lru_def)
  then show ?thesis using s'(1) fr by blast
qed

lemma find_cached_list:
  "seg (nxt s) a xs NBUF \<Longrightarrow> NBUF \<notin> set xs \<Longrightarrow> length xs < fuel \<Longrightarrow>
    find_cached fuel dev sec s (nxt s a) = find (\<lambda>b. bdev (buf s b) = dev \<and> sector (buf s b) = sec) xs"
proof (induction xs arbitrary: a fuel)
  case Nil
  then show ?case by (cases fuel) auto
next
  case (Cons x xs)
  then obtain f where "fuel = Suc f" by (cases fuel) auto
  with Cons show ?case by auto
qed

lemma find_free_list:
  "seg (prv s) a xs NBUF \<Longrightarrow> NBUF \<notin> set xs \<Longrightarrow> length xs < fuel \<Longrightarrow>
    find_free fuel s (prv s a) = find (\<lambda>b. \<not> busy (buf s b)) xs"
proof (induction xs arbitrary: a fuel)
  case Nil
  then show ?case by (cases fuel) auto
next
  case (Cons x xs)
  then obtain f where "fuel = Suc f" by (cases fuel) auto
  with Cons show ?case by auto
qed

lemma lru_length: "lru s bs \<Longrightarrow> length bs = NBUF \<and> NBUF \<notin> set bs"
  using distinct_card [of bs] by (auto simp: lru_def)

lemma bget_searches:
  assumes "lru s bs"
  shows "find_cached (Suc NBUF) dev sec s (nxt s NBUF) =
      find (\<lambda>b. bdev (buf s b) = dev \<and> sector (buf s b) = sec) bs"
    "find_free (Suc NBUF) s (prv s NBUF) = find (\<lambda>b. \<not> busy (buf s b)) (rev bs)"
  using assms lru_length [OF assms] by (auto intro!: find_cached_list find_free_list simp: lru_def)

section \<open>The cache is transparent\<close>

text \<open>The drives and sectors the controller can address, and what is on the disk there.\<close>

definition sector_ok :: "dstate \<Rightarrow> u32 \<Rightarrow> u32 \<Rightarrow> bool" where
  "sector_ok s dev sec \<longleftrightarrow> (dev = 0 \<or> dev = 1 \<and> havedisk1 s) \<and> take_bit 28 sec = sec"

abbreviation on_disk :: "dstate \<Rightarrow> nat \<Rightarrow> block" where
  "on_disk s b \<equiv> disk s (bdev (buf s b)) (sector (buf s b))"

text \<open>
  The cache: its list is in order, no request is pending, a sector is cached at most once, and an
  unlocked valid buffer is clean and equals its sector.
\<close>

definition cache_inv :: "dstate \<Rightarrow> bool" where
  "cache_inv s \<longleftrightarrow> (\<exists>bs. lru s bs) \<and> idequeue s = [] \<and>
     (\<forall>b < NBUF. \<forall>c < NBUF. bdev (buf s b) \<noteq> -1 \<longrightarrow> bdev (buf s b) = bdev (buf s c) \<longrightarrow>
        sector (buf s b) = sector (buf s c) \<longrightarrow> b = c) \<and>
     (\<forall>b < NBUF. valid (buf s b) \<or> busy (buf s b) \<longrightarrow> sector_ok s (bdev (buf s b)) (sector (buf s b))) \<and>
     (\<forall>b < NBUF. \<not> dirty (buf s b)) \<and>
     (\<forall>b < NBUF. valid (buf s b) \<and> \<not> busy (buf s b) \<longrightarrow> bdata (buf s b) = on_disk s b)"

lemma sector_ok_ide:
  "sector_ok s (bdev k) (sector k) \<Longrightarrow> ide_drive k = bdev k \<and> ide_lba k = sector k"
  by (auto simp: sector_ok_def ide_drive_def ide_lba_eq)

lemma cache_invD:
  assumes "cache_inv s" "b < NBUF"
  shows "idequeue s = []" "valid (buf s b) \<or> busy (buf s b) \<Longrightarrow> sector_ok s (bdev (buf s b)) (sector (buf s b))"
    "\<not> dirty (buf s b)" "valid (buf s b) \<Longrightarrow> \<not> busy (buf s b) \<Longrightarrow> bdata (buf s b) = on_disk s b"
    "c < NBUF \<Longrightarrow> bdev (buf s b) \<noteq> -1 \<Longrightarrow> bdev (buf s b) = bdev (buf s c) \<Longrightarrow> sector (buf s b) = sector (buf s c) \<Longrightarrow> b = c"
  using assms unfolding cache_inv_def by blast+

text \<open>Changing one locked buffer, keeping its links.\<close>

lemma lru_upd: "(\<And>k. bnext (f k) = bnext k \<and> bprev (f k) = bprev k) \<Longrightarrow> lru (upd_buf b f s) bs = lru s bs"
  by (simp add: lru_def)

lemma lru_cong: "nxt s' = nxt s \<Longrightarrow> prv s' = prv s \<Longrightarrow> lru s' bs = lru s bs"
  by (simp add: lru_def)

text \<open>One buffer changes, and on the disk at most its sector.\<close>

lemma cache_inv_upd:
  assumes "cache_inv s" "b < NBUF" "\<exists>bs. lru s' bs" "idequeue s' = []" "havedisk1 s' = havedisk1 s"
    and "\<And>c. c \<noteq> b \<Longrightarrow> c < NBUF \<Longrightarrow> busy (buf s' c) = busy (buf s c) \<and> valid (buf s' c) = valid (buf s c) \<and>
      dirty (buf s' c) = dirty (buf s c) \<and> bdev (buf s' c) = bdev (buf s c) \<and>
      sector (buf s' c) = sector (buf s c) \<and> bdata (buf s' c) = bdata (buf s c)"
    and "\<And>c. c \<noteq> b \<Longrightarrow> c < NBUF \<Longrightarrow> bdev (buf s c) \<noteq> -1 \<Longrightarrow>
      bdev (buf s c) = bdev (buf s' b) \<Longrightarrow> sector (buf s c) = sector (buf s' b) \<Longrightarrow> False"
    and "\<not> dirty (buf s' b)" "sector_ok s (bdev (buf s' b)) (sector (buf s' b))"
    and "valid (buf s' b) \<Longrightarrow> \<not> busy (buf s' b) \<Longrightarrow> bdata (buf s' b) = on_disk s' b"
    and "\<And>d k. d \<noteq> bdev (buf s' b) \<or> k \<noteq> sector (buf s' b) \<Longrightarrow> disk s' d k = disk s d k"
  shows "cache_inv s'"
proof -
  have so: "sector_ok s' = sector_ok s" using assms(5) by (auto simp: sector_ok_def fun_eq_iff)
  have nd: "bdev (buf s' b) \<noteq> -1" using assms(9) by (auto simp: sector_ok_def)
  note D = cache_invD [OF assms(1)]
  have uniq: "c = e" if "c < NBUF" "e < NBUF" "bdev (buf s' c) \<noteq> -1" "bdev (buf s' c) = bdev (buf s' e)"
    "sector (buf s' c) = sector (buf s' e)" for c e
  proof (cases "c = b"; cases "e = b")
    assume eq: "c = b" "e \<noteq> b"
    note f = assms(6) [OF eq(2) that(2)]
    have "bdev (buf s e) \<noteq> -1" using f that(4) nd eq(1) by metis
    then show ?thesis using assms(7) [OF eq(2) that(2)] f that(4,5) eq(1) by metis
  next
    assume eq: "c \<noteq> b" "e = b"
    note f = assms(6) [OF eq(1) that(1)]
    have "bdev (buf s c) \<noteq> -1" using f that(3) by metis
    then show ?thesis using assms(7) [OF eq(1) that(1)] f that(4,5) eq(2) by metis
  next
    assume eq: "c \<noteq> b" "e \<noteq> b"
    show ?thesis
    proof (rule D(5) [OF that(1,2)])
      note f = assms(6) [OF eq(1) that(1)] and g = assms(6) [OF eq(2) that(2)]
      show "bdev (buf s c) \<noteq> -1" using f that(3) by metis
      show "bdev (buf s c) = bdev (buf s e)" using f g that(4) by metis
      show "sector (buf s c) = sector (buf s e)" using f g that(5) by metis
    qed
  qed simp
  have sec: "sector_ok s' (bdev (buf s' c)) (sector (buf s' c))" if "c < NBUF" "valid (buf s' c) \<or> busy (buf s' c)" for c
    using assms(6) [OF _ that(1)] assms(9) D(2) [OF that(1)] that(2) unfolding so by metis
  have dt: "\<not> dirty (buf s' c)" if "c < NBUF" for c
    using assms(6) [OF _ that] assms(8) D(3) [OF that] by metis
  have "bdata (buf s' c) = on_disk s' c" if c: "c < NBUF" "valid (buf s' c)" "\<not> busy (buf s' c)" for c
  proof (cases "c = b")
    case True
    then show ?thesis using assms(10) c by simp
  next
    case False
    note e = assms(6) [OF False c(1)]
    have "bdev (buf s c) \<noteq> -1" using D(2) [OF c(1)] c e by (auto simp: sector_ok_def)
    then have "disk s' (bdev (buf s c)) (sector (buf s c)) = on_disk s c"
      using assms(7) [OF False c(1)] by (intro assms(11)) auto
    then show ?thesis using e D(4) [OF c(1)] c by simp
  qed
  then show ?thesis using assms(3,4) uniq sec dt unfolding cache_inv_def by blast
qed

lemma cache_inv_other:
  assumes "cache_inv s" "b < NBUF" "valid (buf s b) \<or> busy (buf s b)" "c \<noteq> b" "c < NBUF" "bdev (buf s c) \<noteq> -1"
    "bdev (buf s c) = bdev (buf s b)" "sector (buf s c) = sector (buf s b)"
  shows False
  using cache_invD(5) [OF assms(1,5,2,6)] assms by auto

text \<open>Reading the sector of a locked buffer.\<close>

lemma perform_frame: "nxt (perform b s) = nxt s" "prv (perform b s) = prv s"
  by (auto simp: nxt_def prv_def perform_buf)

lemma read_locked:
  assumes "cache_inv s" "b < NBUF" "busy (buf s b)" "\<not> valid (buf s b)"
  shows "iderw_wait b s = Inr (perform b s)" "cache_inv (perform b s)" "disk (perform b s) = disk s"
    "buf (perform b s) b = (buf s b)\<lparr>bdata := on_disk s b, valid := True, dirty := False\<rparr>"
proof -
  note D = cache_invD [OF assms(1,2)]
  have so: "sector_ok s (bdev (buf s b)) (sector (buf s b))" using D(2) assms(3) by blast
  note i = sector_ok_ide [OF so]
  show d: "disk (perform b s) = disk s" using D(3) by (simp add: perform_def idestart_def)
  show pb: "buf (perform b s) b = (buf s b)\<lparr>bdata := on_disk s b, valid := True, dirty := False\<rparr>"
    using i d by (simp add: perform_buf)
  show "iderw_wait b s = Inr (perform b s)"
    using assms so D(1) by (auto simp: iderw_wait_idle ide_done_def sector_ok_def)
  show "cache_inv (perform b s)"
  proof (rule cache_inv_upd [OF assms(1,2)])
    show "\<exists>bs. lru (perform b s) bs"
      using assms(1) lru_cong [OF perform_frame] unfolding cache_inv_def by blast
    show "idequeue (perform b s) = []" "havedisk1 (perform b s) = havedisk1 s" using D(1) by simp_all
    show "sector_ok s (bdev (buf (perform b s) b)) (sector (buf (perform b s) b))" using so pb by simp
    show "\<not> dirty (buf (perform b s) b)" using pb by simp
    show "bdata (buf (perform b s) b) = on_disk (perform b s) b" by (simp add: pb d)
    show "disk (perform b s) x y = disk s x y" for x y by (simp add: d)
    fix c assume c: "c \<noteq> b" "c < NBUF"
    then show "busy (buf (perform b s) c) = busy (buf s c) \<and> valid (buf (perform b s) c) = valid (buf s c) \<and>
      dirty (buf (perform b s) c) = dirty (buf s c) \<and> bdev (buf (perform b s) c) = bdev (buf s c) \<and>
      sector (buf (perform b s) c) = sector (buf s c) \<and> bdata (buf (perform b s) c) = bdata (buf s c)"
      by (simp add: perform_buf)
    show False if "bdev (buf s c) \<noteq> -1" "bdev (buf s c) = bdev (buf (perform b s) b)"
      "sector (buf s c) = sector (buf (perform b s) b)"
      using cache_inv_other [OF assms(1,2) disjI2 [OF assms(3)] c that(1)] that(2,3) pb by simp
  qed
qed

text \<open>Writing a locked buffer.\<close>

lemma bwrite_ok:
  assumes "cache_inv s" "b < NBUF" "busy (buf s b)"
  shows "\<exists>s'. bwrite b s = Inr s' \<and> cache_inv s' \<and>
    disk s' = (disk s)(bdev (buf s b) := (disk s (bdev (buf s b)))(sector (buf s b) := bdata (buf s b))) \<and>
    buf s' = (buf s)(b := (buf s b)\<lparr>valid := True\<rparr>) \<and> havedisk1 s' = havedisk1 s"
proof -
  note D = cache_invD [OF assms(1,2)]
  have so: "sector_ok s (bdev (buf s b)) (sector (buf s b))" using D(2) assms(3) by blast
  note i = sector_ok_ide [OF so]
  define s0 where "s0 = upd_buf b (\<lambda>k. k\<lparr>dirty := True\<rparr>) s"
  let ?s = "perform b s0"
  have d: "disk ?s = (disk s)(bdev (buf s b) := (disk s (bdev (buf s b)))(sector (buf s b) := bdata (buf s b)))"
    using i by (simp add: perform_def idestart_def s0_def Let_def ide_drive_def ide_lba_def)
  have i0: "ide_drive (buf s0 b) = bdev (buf s b)" "ide_lba (buf s0 b) = sector (buf s b)"
    using i by (simp_all add: s0_def ide_drive_def ide_lba_def)
  have "buf ?s b = (buf s b)\<lparr>valid := True\<rparr>"
    unfolding perform_buf i0 d using D(3) by (simp add: s0_def)
  then have pb: "buf ?s = (buf s)(b := (buf s b)\<lparr>valid := True\<rparr>)"
    by (auto simp: fun_eq_iff perform_buf s0_def)
  have "idequeue s0 = []" using D(1) by (simp add: s0_def)
  then have w: "bwrite b s = Inr ?s"
    unfolding bwrite_def using assms(3) so
    by (auto simp: s0_def [symmetric] iderw_wait_idle) (auto simp: s0_def ide_done_def sector_ok_def)
  have "cache_inv ?s"
  proof (rule cache_inv_upd [OF assms(1,2)])
    have "lru ?s bs = lru s bs" for bs
      by (rule lru_cong) (auto simp: perform_frame s0_def nxt_def prv_def)
    then show "\<exists>bs. lru ?s bs" using assms(1) unfolding cache_inv_def by blast
    show "idequeue ?s = []" "havedisk1 ?s = havedisk1 s" using D(1) by (simp_all add: s0_def)
    show "sector_ok s (bdev (buf ?s b)) (sector (buf ?s b))" using so pb by simp
    show "\<not> dirty (buf ?s b)" using pb D(3) by simp
    show "bdata (buf ?s b) = on_disk ?s b" by (simp add: pb d)
    show "disk ?s x y = disk s x y" if "x \<noteq> bdev (buf ?s b) \<or> y \<noteq> sector (buf ?s b)" for x y
      using that by (auto simp: d pb)
    fix c assume c: "c \<noteq> b" "c < NBUF"
    then show "busy (buf ?s c) = busy (buf s c) \<and> valid (buf ?s c) = valid (buf s c) \<and>
      dirty (buf ?s c) = dirty (buf s c) \<and> bdev (buf ?s c) = bdev (buf s c) \<and>
      sector (buf ?s c) = sector (buf s c) \<and> bdata (buf ?s c) = bdata (buf s c)"
      by (simp add: pb)
    show False if "bdev (buf s c) \<noteq> -1" "bdev (buf s c) = bdev (buf ?s b)" "sector (buf s c) = sector (buf ?s b)"
      using cache_inv_other [OF assms(1,2) disjI2 [OF assms(3)] c that(1)] that(2,3) pb by simp
  qed
  then show ?thesis using w d pb by (simp add: s0_def)
qed

lemma cache_inv_lock:
  assumes "cache_inv s" "b < NBUF" "\<not> busy (buf s b)" "sector_ok s dev sec"
    and "valid (buf s b) \<and> bdev (buf s b) = dev \<and> sector (buf s b) = sec \<and> k = buf s b \<or>
      k = (buf s b)\<lparr>bdev := dev, sector := sec, valid := False, dirty := False\<rparr> \<and>
      (\<forall>c < NBUF. c \<noteq> b \<longrightarrow> \<not> (bdev (buf s c) = dev \<and> sector (buf s c) = sec))"
  shows "cache_inv (upd_buf b (\<lambda>_. k\<lparr>busy := True\<rparr>) s)" (is "cache_inv ?s")
proof -
  note D = cache_invD [OF assms(1,2)]
  have k: "bnext k = bnext (buf s b)" "bprev k = bprev (buf s b)" "bdev k = dev" "sector k = sec" "\<not> dirty k"
    using assms(5) D(3) by auto
  have u: "False" if "c < NBUF" "c \<noteq> b" "bdev (buf s c) \<noteq> -1" "bdev (buf s c) = dev" "sector (buf s c) = sec" for c
    using cache_inv_other [OF assms(1,2) _ that(2,1,3)] assms(5) that by metis
  show ?thesis
  proof (rule cache_inv_upd [OF assms(1,2)])
    have "nxt ?s = nxt s" "prv ?s = prv s" using k by (auto simp: nxt_def prv_def)
    then show "\<exists>bs. lru ?s bs" using assms(1) lru_cong unfolding cache_inv_def by metis
    show "False" if "c \<noteq> b" "c < NBUF" "bdev (buf s c) \<noteq> -1" "bdev (buf s c) = bdev (buf ?s b)"
      "sector (buf s c) = sector (buf ?s b)" for c
      using u [OF that(2,1,3)] that(4,5) k by simp
  qed (use D(1) k assms(4) in simp_all)
qed

text \<open>
  \<open>bget\<close>: a sector some process has locked makes the caller sleep; otherwise it gets the cached
  buffer, or else the least recently released one that nobody has locked.
\<close>

definition cached :: "dstate \<Rightarrow> u32 \<Rightarrow> u32 \<Rightarrow> nat \<Rightarrow> bool" where
  "cached s dev sec b \<longleftrightarrow> b < NBUF \<and> bdev (buf s b) = dev \<and> sector (buf s b) = sec"

lemma lru_mem: "lru s bs \<Longrightarrow> b \<in> set bs \<longleftrightarrow> b < NBUF"
  by (auto simp: lru_def)

lemma find_cached_Some:
  assumes "cache_inv s" "lru s bs" "sector_ok s dev sec" "cached s dev sec b"
  shows "find (\<lambda>b. bdev (buf s b) = dev \<and> sector (buf s b) = sec) bs = Some b"
proof -
  have "find (\<lambda>b. bdev (buf s b) = dev \<and> sector (buf s b) = sec) bs \<noteq> None"
    using assms(2,4) by (auto simp: find_None_iff cached_def lru_mem)
  then obtain c where c: "find (\<lambda>b. bdev (buf s b) = dev \<and> sector (buf s b) = sec) bs = Some c" by blast
  then have "c \<in> set bs" "bdev (buf s c) = dev" "sector (buf s c) = sec" by (auto simp: find_Some_iff)
  moreover have "dev \<noteq> -1" using assms(3) by (auto simp: sector_ok_def)
  ultimately have "c = b"
    using assms(2,4) by (intro cache_invD(5) [OF assms(1)]) (auto simp: cached_def lru_mem)
  with c show ?thesis by simp
qed

lemma find_rev_filter: "find P (rev xs) = (if filter P xs = [] then None else Some (last (filter P xs)))"
  by (induction xs rule: rev_induct) auto

lemma bget_cached:
  assumes "cache_inv s" "lru s bs" "sector_ok s dev sec" "cached s dev sec b"
  shows "bget dev sec s =
    (if busy (buf s b) then Inr (SleepOn b, s) else Inr (Locked b, upd_buf b (\<lambda>k. k\<lparr>busy := True\<rparr>) s))"
  unfolding bget_def bget_searches [OF assms(2)] find_cached_Some [OF assms] by simp

lemma bget_uncached:
  assumes "lru s bs" "\<And>b. \<not> cached s dev sec b"
  shows "bget dev sec s =
    (if filter (\<lambda>b. \<not> busy (buf s b)) bs = [] then Inl (Panic ''bget: no buffers'')
     else Inr (Locked (last (filter (\<lambda>b. \<not> busy (buf s b)) bs)), upd_buf (last (filter (\<lambda>b. \<not> busy (buf s b)) bs))
       (\<lambda>k. k\<lparr>bdev := dev, sector := sec, busy := True, valid := False, dirty := False\<rparr>) s))"
proof -
  have "find (\<lambda>b. bdev (buf s b) = dev \<and> sector (buf s b) = sec) bs = None"
    using assms by (auto simp: find_None_iff cached_def lru_mem)
  then show ?thesis
    unfolding bget_def bget_searches [OF assms(1)] find_rev_filter by simp
qed

lemma bget_ok:
  assumes "cache_inv s" "lru s bs" "sector_ok s dev sec"
  shows "if \<exists>b. cached s dev sec b \<and> busy (buf s b) then \<exists>b. cached s dev sec b \<and> bget dev sec s = Inr (SleepOn b, s)
    else if \<forall>b < NBUF. busy (buf s b) then bget dev sec s = Inl (Panic ''bget: no buffers'')
    else \<exists>b s'. bget dev sec s = Inr (Locked b, s') \<and> b < NBUF \<and> \<not> busy (buf s b) \<and> busy (buf s' b) \<and>
      (cached s dev sec b \<or> b = last (filter (\<lambda>b. \<not> busy (buf s b)) bs)) \<and>
      bdev (buf s' b) = dev \<and> sector (buf s' b) = sec \<and> (valid (buf s' b) \<longrightarrow> bdata (buf s' b) = disk s dev sec) \<and>
      (\<forall>c. c \<noteq> b \<longrightarrow> buf s' c = buf s c) \<and> disk s' = disk s \<and> havedisk1 s' = havedisk1 s \<and> cache_inv s'"
proof (cases "\<exists>b. cached s dev sec b")
  case True
  then obtain b where b: "cached s dev sec b" by blast
  have u: "c = b" if "cached s dev sec c" for c
    using find_cached_Some [OF assms that] find_cached_Some [OF assms b] by simp
  show ?thesis
  proof (cases "busy (buf s b)")
    case True
    then show ?thesis using b bget_cached [OF assms b] by auto
  next
    case False
    let ?s = "upd_buf b (\<lambda>k. k\<lparr>busy := True\<rparr>) s"
    have lt: "b < NBUF" "bdev (buf s b) = dev" "sector (buf s b) = sec" using b by (simp_all add: cached_def)
    have i: "cache_inv ?s"
    proof (cases "valid (buf s b)")
      case True
      then show ?thesis using cache_inv_lock [OF assms(1) lt(1) False assms(3), of "buf s b"] lt by simp
    next
      case nv: False
      have "\<not> (bdev (buf s c) = dev \<and> sector (buf s c) = sec)" if "c < NBUF" "c \<noteq> b" for c
        using u [of c] that by (auto simp: cached_def)
      then have "cache_inv (upd_buf b (\<lambda>_. (buf s b)\<lparr>bdev := dev, sector := sec, valid := False, dirty := False\<rparr>\<lparr>busy := True\<rparr>) s)"
        by (intro cache_inv_lock [OF assms(1) lt(1) False assms(3)]) blast
      moreover have "(buf s b)\<lparr>bdev := dev, sector := sec, valid := False, dirty := False\<rparr> = buf s b"
        using nv lt cache_invD(3) [OF assms(1) lt(1)] by simp
      ultimately show ?thesis by simp
    qed
    have d: "valid (buf s b) \<longrightarrow> bdata (buf s b) = disk s dev sec"
      using cache_invD(4) [OF assms(1) lt(1)] False lt by simp
    have nb: "\<not> (\<exists>b. cached s dev sec b \<and> busy (buf s b))" using u False by blast
    have "\<exists>c. c < NBUF \<and> \<not> busy (buf s c)" using lt(1) False by blast
    then have na: "\<not> (\<forall>c < NBUF. busy (buf s c))" by blast
    show ?thesis
      unfolding if_not_P [OF nb] if_not_P [OF na] bget_cached [OF assms b]
      using False b lt i d by (intro exI [of _ b] exI [of _ ?s]) simp
  qed
next
  case False
  then have nc: "\<And>b. \<not> cached s dev sec b" by blast
  let ?F = "filter (\<lambda>b. \<not> busy (buf s b)) bs"
  show ?thesis
  proof (cases "?F = []")
    case True
    then have "\<forall>b < NBUF. busy (buf s b)" using lru_mem [OF assms(2)] by (auto simp: filter_empty_conv)
    then show ?thesis using nc True bget_uncached [OF assms(2) nc] by simp
  next
    case False
    define b where "b = last ?F"
    have "b \<in> set ?F" using False unfolding b_def by (rule last_in_set)
    then have b: "b < NBUF" "\<not> busy (buf s b)" using lru_mem [OF assms(2)] by auto
    let ?s = "upd_buf b (\<lambda>k. k\<lparr>bdev := dev, sector := sec, busy := True, valid := False, dirty := False\<rparr>) s"
    have "\<not> (bdev (buf s c) = dev \<and> sector (buf s c) = sec)" if "c < NBUF" for c
      using nc [of c] that by (simp add: cached_def)
    then have "cache_inv (upd_buf b (\<lambda>_. (buf s b)\<lparr>bdev := dev, sector := sec, valid := False, dirty := False\<rparr>\<lparr>busy := True\<rparr>) s)"
      by (intro cache_inv_lock [OF assms(1) b assms(3)]) blast
    moreover have "(buf s b)\<lparr>bdev := dev, sector := sec, valid := False, dirty := False\<rparr>\<lparr>busy := True\<rparr> =
        (buf s b)\<lparr>bdev := dev, sector := sec, busy := True, valid := False, dirty := False\<rparr>"
      by (cases "buf s b") simp
    ultimately have i: "cache_inv ?s" by simp
    have na: "\<not> (\<forall>c < NBUF. busy (buf s c))" using b by blast
    have g: "bget dev sec s = Inr (Locked b, ?s)" using False bget_uncached [OF assms(2) nc] by (simp add: b_def)
    show ?thesis
      using nc na g b i by (simp add: b_def [symmetric]) 
  qed
qed


lemma bread_ok:
  assumes "cache_inv s" "lru s bs" "sector_ok s dev sec"
  shows "if \<exists>b. cached s dev sec b \<and> busy (buf s b) then \<exists>b. cached s dev sec b \<and> bread dev sec s = Inr (SleepOn b, s)
    else if \<forall>b < NBUF. busy (buf s b) then bread dev sec s = Inl (Panic ''bget: no buffers'')
    else \<exists>b s'. bread dev sec s = Inr (Locked b, s') \<and> b < NBUF \<and> \<not> busy (buf s b) \<and> busy (buf s' b) \<and>
      (cached s dev sec b \<or> b = last (filter (\<lambda>b. \<not> busy (buf s b)) bs)) \<and>
      bdev (buf s' b) = dev \<and> sector (buf s' b) = sec \<and> valid (buf s' b) \<and> bdata (buf s' b) = disk s dev sec \<and>
      (\<forall>c. c \<noteq> b \<longrightarrow> buf s' c = buf s c) \<and> disk s' = disk s \<and> havedisk1 s' = havedisk1 s \<and> cache_inv s'"
proof -
  note g = bget_ok [OF assms]
  show ?thesis
  proof (cases "\<exists>b. cached s dev sec b \<and> busy (buf s b)")
    case True
    then show ?thesis using g by (auto simp: bread_def)
  next
    case nb: False
    show ?thesis
    proof (cases "\<forall>b < NBUF. busy (buf s b)")
      case True
      then show ?thesis using g unfolding if_not_P [OF nb] if_P [OF True] by (simp add: bread_def)
    next
      case False
      from g [unfolded if_not_P [OF nb] if_not_P [OF False]] obtain b s1 where
        s1: "bget dev sec s = Inr (Locked b, s1)" "b < NBUF" "\<not> busy (buf s b)" "busy (buf s1 b)"
        "cached s dev sec b \<or> b = last (filter (\<lambda>b. \<not> busy (buf s b)) bs)"
        "bdev (buf s1 b) = dev" "sector (buf s1 b) = sec" "valid (buf s1 b) \<longrightarrow> bdata (buf s1 b) = disk s dev sec"
        "\<forall>c. c \<noteq> b \<longrightarrow> buf s1 c = buf s c" "disk s1 = disk s" "havedisk1 s1 = havedisk1 s" "cache_inv s1" by blast
      show ?thesis
      proof (cases "valid (buf s1 b)")
        case True
        then have "bread dev sec s = Inr (Locked b, s1)" using s1(1) by (simp add: bread_def)
        then show ?thesis using s1 True unfolding if_not_P [OF nb] if_not_P [OF False] by blast
      next
        case nv: False
        note r = read_locked [OF s1(12,2,4) nv]
        let ?s = "perform b s1"
        have "bread dev sec s = Inr (Locked b, ?s)" using s1(1) nv r(1) by (simp add: bread_def)
        moreover have "busy (buf ?s b)" "bdev (buf ?s b) = dev" "sector (buf ?s b) = sec" "valid (buf ?s b)"
          "bdata (buf ?s b) = disk s dev sec" using r(4) s1 by simp_all
        moreover have "\<forall>c. c \<noteq> b \<longrightarrow> buf ?s c = buf s c" using s1(9) by (simp add: perform_buf)
        moreover have "disk ?s = disk s" "havedisk1 ?s = havedisk1 s" using r(3) s1 by simp_all
        ultimately show ?thesis
          using s1(2,3,5) r(2) unfolding if_not_P [OF nb] if_not_P [OF False] by blast
      qed
    qed
  qed
qed

text \<open>Releasing a buffer that equals its sector.\<close>

lemma brelse_inv:
  assumes "cache_inv s" "b < NBUF" "busy (buf s b)" "valid (buf s b) \<Longrightarrow> bdata (buf s b) = on_disk s b"
  shows "\<exists>s'. brelse b s = Inr s' \<and> cache_inv s' \<and> disk s' = disk s \<and> havedisk1 s' = havedisk1 s \<and>
    (\<forall>c. busy (buf s' c) = (busy (buf s c) \<and> c \<noteq> b))"
proof -
  obtain bs where l: "lru s bs" using assms(1) unfolding cache_inv_def by blast
  obtain s' where s': "brelse b s = Inr s'" "lru s' (b # remove1 b bs)"
    "\<And>c. busy (buf s' c) = (busy (buf s c) \<and> c \<noteq> b) \<and> valid (buf s' c) = valid (buf s c) \<and>
      dirty (buf s' c) = dirty (buf s c) \<and> bdev (buf s' c) = bdev (buf s c) \<and>
      sector (buf s' c) = sector (buf s c) \<and> bdata (buf s' c) = bdata (buf s c)"
    "idequeue s' = idequeue s" "disk s' = disk s" "havedisk1 s' = havedisk1 s"
    using brelse_ok [OF l _ assms(3)] lru_mem [OF l] assms(2) by blast
  note D = cache_invD [OF assms(1,2)]
  have "cache_inv s'"
  proof (rule cache_inv_upd [OF assms(1,2)])
    show "\<exists>bs. lru s' bs" using s'(2) by blast
    show "idequeue s' = []" "havedisk1 s' = havedisk1 s" using s' D(1) by simp_all
    show "busy (buf s' c) = busy (buf s c) \<and> valid (buf s' c) = valid (buf s c) \<and>
      dirty (buf s' c) = dirty (buf s c) \<and> bdev (buf s' c) = bdev (buf s c) \<and>
      sector (buf s' c) = sector (buf s c) \<and> bdata (buf s' c) = bdata (buf s c)" if "c \<noteq> b" for c
      using s'(3) [of c] that by simp
    show "False" if "c \<noteq> b" "c < NBUF" "bdev (buf s c) \<noteq> -1" "bdev (buf s c) = bdev (buf s' b)"
      "sector (buf s c) = sector (buf s' b)" for c
      using cache_inv_other [OF assms(1,2) disjI2 [OF assms(3)] that(1-3)] that(4,5) s'(3) [of b] by simp
    show "\<not> dirty (buf s' b)" using s'(3) [of b] D(3) by simp
    show "sector_ok s (bdev (buf s' b)) (sector (buf s' b))" using s'(3) [of b] D(2) assms(3) by simp
    show "bdata (buf s' b) = on_disk s' b" if "valid (buf s' b)" using s'(3) [of b] s'(5) assms(4) that by simp
    show "disk s' d k = disk s d k" for d k using s'(5) by simp
  qed
  then show ?thesis using s' by blast
qed

section \<open>The contract the file system relies on\<close>

text \<open>
  A store of blocks: reading returns the last block written. The file system (theories Fs and
  Inode) works on such a store; sequences of operations on it behave like the function they stand
  for.
\<close>

locale block_store =
  fixes ok :: "'s \<Rightarrow> bool" and look :: "'s \<Rightarrow> 'k \<Rightarrow> 'v" and valid_key :: "'s \<Rightarrow> 'k \<Rightarrow> bool"
    and rd :: "'k \<Rightarrow> 's \<Rightarrow> ('v \<times> 's) res" and wr :: "'k \<Rightarrow> 'v \<Rightarrow> 's \<Rightarrow> 's res"
  assumes rd_look: "ok s \<Longrightarrow> valid_key s k \<Longrightarrow> \<exists>s'. rd k s = Inr (look s k, s') \<and> ok s' \<and> look s' = look s \<and> valid_key s' = valid_key s"
    and wr_look: "ok s \<Longrightarrow> valid_key s k \<Longrightarrow> \<exists>s'. wr k v s = Inr s' \<and> ok s' \<and> look s' = (look s)(k := v) \<and> valid_key s' = valid_key s"
begin

fun exec_ops :: "('k \<times> 'v option) list \<Rightarrow> 's \<Rightarrow> ('v list \<times> 's) res" where
  "exec_ops [] s = Inr ([], s)"
| "exec_ops ((k, None) # xs) s =
     kbind (rd k s) (\<lambda>(v, s). kbind (exec_ops xs s) (\<lambda>(vs, s). Inr (v # vs, s)))"
| "exec_ops ((k, Some v) # xs) s = kbind (wr k v s) (exec_ops xs)"

fun spec_ops :: "('k \<times> 'v option) list \<Rightarrow> ('k \<Rightarrow> 'v) \<Rightarrow> 'v list \<times> ('k \<Rightarrow> 'v)" where
  "spec_ops [] f = ([], f)"
| "spec_ops ((k, None) # xs) f = (let (vs, f') = spec_ops xs f in (f k # vs, f'))"
| "spec_ops ((k, Some v) # xs) f = spec_ops xs (f(k := v))"

lemma exec_refines:
  "ok s \<Longrightarrow> (\<And>k. k \<in> fst ` set xs \<Longrightarrow> valid_key s k) \<Longrightarrow>
    \<exists>s'. exec_ops xs s = Inr (fst (spec_ops xs (look s)), s') \<and> ok s' \<and> look s' = snd (spec_ops xs (look s))"
proof (induction xs arbitrary: s)
  case (Cons x xs)
  obtain k w where x: "x = (k, w)" by fastforce
  have vk: "valid_key s k" using Cons.prems(2) x by auto
  show ?case
  proof (cases w)
    case None
    obtain s1 where s1: "rd k s = Inr (look s k, s1)" "ok s1" "look s1 = look s" "valid_key s1 = valid_key s"
      using rd_look [OF Cons.prems(1) vk] by blast
    have "\<And>k. k \<in> fst ` set xs \<Longrightarrow> valid_key s1 k" using Cons.prems(2) s1(4) by auto
    from Cons.IH [OF s1(2) this] s1 x None show ?thesis by (auto simp: split_def Let_def)
  next
    case (Some v)
    obtain s1 where s1: "wr k v s = Inr s1" "ok s1" "look s1 = (look s)(k := v)" "valid_key s1 = valid_key s"
      using wr_look [OF Cons.prems(1) vk] by blast
    have "\<And>k. k \<in> fst ` set xs \<Longrightarrow> valid_key s1 k" using Cons.prems(2) s1(4) by auto
    from Cons.IH [OF s1(2) this] s1(1,3) x Some show ?thesis by (auto simp del: fun_upd_apply)
  qed
qed simp

end

text \<open>The two patterns in which fs.c uses a buffer: read and release; read, fill, write, release.\<close>

definition read_block :: "u32 \<times> u32 \<Rightarrow> dstate \<Rightarrow> (block \<times> dstate) res" where
  "read_block k s = kbind (bread (fst k) (snd k) s) (\<lambda>(g, s). case g of
     SleepOn b \<Rightarrow> Inl (Fault ''sleeps'')
   | Locked b \<Rightarrow> (let v = bdata (buf s b) in kbind (brelse b s) (\<lambda>s. Inr (v, s))))"

definition write_block :: "u32 \<times> u32 \<Rightarrow> block \<Rightarrow> dstate \<Rightarrow> dstate res" where
  "write_block k v s = kbind (bread (fst k) (snd k) s) (\<lambda>(g, s). case g of
     SleepOn b \<Rightarrow> Inl (Fault ''sleeps'')
   | Locked b \<Rightarrow> kbind (bwrite b (upd_buf b (\<lambda>k. k\<lparr>bdata := v\<rparr>) s)) (brelse b))"

definition cache_idle :: "dstate \<Rightarrow> bool" where
  "cache_idle s \<longleftrightarrow> cache_inv s \<and> (\<forall>b < NBUF. \<not> busy (buf s b))"

definition disk_at :: "dstate \<Rightarrow> u32 \<times> u32 \<Rightarrow> block" where
  "disk_at s k = disk s (fst k) (snd k)"

lemma bread_idle:
  assumes "cache_idle s" "sector_ok s dev sec"
  obtains b s' where "bread dev sec s = Inr (Locked b, s')" "b < NBUF" "busy (buf s' b)" "valid (buf s' b)"
    "bdev (buf s' b) = dev" "sector (buf s' b) = sec" "bdata (buf s' b) = disk s dev sec"
    "disk s' = disk s" "havedisk1 s' = havedisk1 s" "cache_inv s'" "\<And>c. c < NBUF \<Longrightarrow> c \<noteq> b \<Longrightarrow> \<not> busy (buf s' c)"
proof -
  obtain bs where l: "lru s bs" using assms(1) unfolding cache_idle_def cache_inv_def by blast
  have i: "cache_inv s" and nb: "\<And>b. b < NBUF \<Longrightarrow> \<not> busy (buf s b)" using assms(1) by (simp_all add: cache_idle_def)
  have "\<not> (\<exists>b. cached s dev sec b \<and> busy (buf s b))" "\<not> (\<forall>b < NBUF. busy (buf s b))"
    using nb [of 0] nb by (auto simp: cached_def intro: exI [of _ 0])
  with bread_ok [OF i l assms(2)] obtain b s' where
    "bread dev sec s = Inr (Locked b, s')" "b < NBUF" "busy (buf s' b)"
    "bdev (buf s' b) = dev" "sector (buf s' b) = sec" "valid (buf s' b)" "bdata (buf s' b) = disk s dev sec"
    "\<forall>c. c \<noteq> b \<longrightarrow> buf s' c = buf s c" "disk s' = disk s" "havedisk1 s' = havedisk1 s" "cache_inv s'" by auto
  with nb show thesis by (intro that [of b s']) auto
qed

lemma read_block_ok:
  assumes "cache_idle s" "sector_ok s (fst k) (snd k)"
  shows "\<exists>s'. read_block k s = Inr (disk_at s k, s') \<and> cache_idle s' \<and> disk_at s' = disk_at s \<and> havedisk1 s' = havedisk1 s"
proof -
  obtain b s1 where s1: "bread (fst k) (snd k) s = Inr (Locked b, s1)" "b < NBUF" "busy (buf s1 b)" "valid (buf s1 b)"
    "bdev (buf s1 b) = fst k" "sector (buf s1 b) = snd k" "bdata (buf s1 b) = disk s (fst k) (snd k)"
    "disk s1 = disk s" "havedisk1 s1 = havedisk1 s" "cache_inv s1" "\<And>c. c < NBUF \<Longrightarrow> c \<noteq> b \<Longrightarrow> \<not> busy (buf s1 c)"
    by (rule bread_idle [OF assms]) (rule that)
  have "bdata (buf s1 b) = on_disk s1 b" using s1 by simp
  then obtain s2 where s2: "brelse b s1 = Inr s2" "cache_inv s2" "disk s2 = disk s1" "havedisk1 s2 = havedisk1 s1"
    "\<forall>c. busy (buf s2 c) = (busy (buf s1 c) \<and> c \<noteq> b)"
    using brelse_inv [OF s1(10,2,3)] by blast
  have "cache_idle s2" using s2 s1(11) by (auto simp: cache_idle_def)
  then show ?thesis using s1 s2 by (auto simp: read_block_def disk_at_def fun_eq_iff)
qed

lemma write_block_ok:
  assumes "cache_idle s" "sector_ok s (fst k) (snd k)"
  shows "\<exists>s'. write_block k v s = Inr s' \<and> cache_idle s' \<and> disk_at s' = (disk_at s)(k := v) \<and> havedisk1 s' = havedisk1 s"
proof -
  obtain b s1 where s1: "bread (fst k) (snd k) s = Inr (Locked b, s1)" "b < NBUF" "busy (buf s1 b)" "valid (buf s1 b)"
    "bdev (buf s1 b) = fst k" "sector (buf s1 b) = snd k" "bdata (buf s1 b) = disk s (fst k) (snd k)"
    "disk s1 = disk s" "havedisk1 s1 = havedisk1 s" "cache_inv s1" "\<And>c. c < NBUF \<Longrightarrow> c \<noteq> b \<Longrightarrow> \<not> busy (buf s1 c)"
    by (rule bread_idle [OF assms]) (rule that)
  define s2 where "s2 = upd_buf b (\<lambda>k. k\<lparr>bdata := v\<rparr>) s1"
  have i2: "cache_inv s2"
  proof (rule cache_inv_upd [OF s1(10,2)])
    have "nxt s2 = nxt s1" "prv s2 = prv s1" by (simp_all add: s2_def)
    then show "\<exists>bs. lru s2 bs" using s1(10) lru_cong unfolding cache_inv_def by metis
    show "False" if "c \<noteq> b" "c < NBUF" "bdev (buf s1 c) \<noteq> -1" "bdev (buf s1 c) = bdev (buf s2 b)"
      "sector (buf s1 c) = sector (buf s2 b)" for c
      using cache_inv_other [OF s1(10,2) disjI2 [OF s1(3)] that(1-3)] that(4,5) by (simp add: s2_def)
    show "sector_ok s1 (bdev (buf s2 b)) (sector (buf s2 b))"
      using cache_invD(2) [OF s1(10,2)] s1(3) by (simp add: s2_def)
  qed (use cache_invD [OF s1(10,2)] s1(3) in \<open>simp_all add: s2_def\<close>)
  have b2: "busy (buf s2 b)" using s1(3) by (simp add: s2_def)
  obtain s3 where s3: "bwrite b s2 = Inr s3" "cache_inv s3"
    "disk s3 = (disk s2)(bdev (buf s2 b) := (disk s2 (bdev (buf s2 b)))(sector (buf s2 b) := bdata (buf s2 b)))"
    "buf s3 = (buf s2)(b := (buf s2 b)\<lparr>valid := True\<rparr>)" "havedisk1 s3 = havedisk1 s2"
    using bwrite_ok [OF i2 s1(2) b2] by blast
  have d: "disk s3 = (disk s)(fst k := (disk s (fst k))(snd k := v))" using s3(3) s1 by (simp add: s2_def)
  have "busy (buf s3 b)" "bdata (buf s3 b) = on_disk s3 b" using s3 b2 s1 d by (simp_all add: s2_def)
  then obtain s4 where s4: "brelse b s3 = Inr s4" "cache_inv s4" "disk s4 = disk s3" "havedisk1 s4 = havedisk1 s3"
    "\<forall>c. busy (buf s4 c) = (busy (buf s3 c) \<and> c \<noteq> b)"
    using brelse_inv [OF s3(2) s1(2)] by blast
  have "cache_idle s4" using s4(2,5) s3(4) s1(11) by (auto simp: cache_idle_def s2_def)
  moreover have "disk_at s4 = (disk_at s)(k := v)" using s4(3) d by (cases k) (auto simp: disk_at_def fun_eq_iff)
  moreover have "write_block k v s = Inr s4" using s1(1) s3(1) s4(1) by (simp add: write_block_def s2_def)
  moreover have "havedisk1 s4 = havedisk1 s" using s4(4) s3(5) s1(9) by (simp add: s2_def)
  ultimately show ?thesis by blast
qed

interpretation bcache: block_store cache_idle disk_at "\<lambda>s k. sector_ok s (fst k) (snd k)" read_block write_block
proof
  fix s :: dstate and k :: "u32 \<times> u32" and v :: block
  assume a: "cache_idle s" "sector_ok s (fst k) (snd k)"
  have e: "(\<lambda>k. sector_ok s' (fst k) (snd k)) = (\<lambda>k. sector_ok s (fst k) (snd k))" if "havedisk1 s' = havedisk1 s" for s'
    using that by (simp add: sector_ok_def)
  show "\<exists>s'. read_block k s = Inr (disk_at s k, s') \<and> cache_idle s' \<and> disk_at s' = disk_at s \<and>
      (\<lambda>k. sector_ok s' (fst k) (snd k)) = (\<lambda>k. sector_ok s (fst k) (snd k))"
    using read_block_ok [OF a] e by blast
  show "\<exists>s'. write_block k v s = Inr s' \<and> cache_idle s' \<and> disk_at s' = (disk_at s)(k := v) \<and>
      (\<lambda>k. sector_ok s' (fst k) (snd k)) = (\<lambda>k. sector_ok s (fst k) (snd k))"
    using write_block_ok [OF a] e by blast
qed


lemma binit_frame:
  "busy (buf (binit s) b) = busy (buf s b)" "valid (buf (binit s) b) = valid (buf s b)"
  "dirty (buf (binit s) b) = dirty (buf s b)" "idequeue (binit s) = idequeue s"
  "disk (binit s) = disk s" "havedisk1 (binit s) = havedisk1 s"
proof -
  have one: "busy (buf (binit_one c s) b) = busy (buf s b)" "valid (buf (binit_one c s) b) = valid (buf s b)"
    "dirty (buf (binit_one c s) b) = dirty (buf s b)" "idequeue (binit_one c s) = idequeue s"
    "disk (binit_one c s) = disk s" "havedisk1 (binit_one c s) = havedisk1 s" for c s
    by (simp_all add: binit_one_def Let_def)
  have "busy (buf (fold binit_one cs s) b) = busy (buf s b) \<and> valid (buf (fold binit_one cs s) b) = valid (buf s b) \<and>
    dirty (buf (fold binit_one cs s) b) = dirty (buf s b) \<and> idequeue (fold binit_one cs s) = idequeue s \<and>
    disk (fold binit_one cs s) = disk s \<and> havedisk1 (fold binit_one cs s) = havedisk1 s" for cs s
    by (induction cs arbitrary: s) (simp_all add: one)
  then show "busy (buf (binit s) b) = busy (buf s b)" "valid (buf (binit s) b) = valid (buf s b)"
    "dirty (buf (binit s) b) = dirty (buf s b)" "idequeue (binit s) = idequeue s"
    "disk (binit s) = disk s" "havedisk1 (binit s) = havedisk1 s" by (simp_all add: binit_def)
qed

lemma binit_dev: "b < NBUF \<Longrightarrow> bdev (buf (binit s) b) = -1"
proof -
  have one: "bdev (buf (binit_one c s) b) = (if b = c then -1 else bdev (buf s b))" for b c s
    by (simp add: binit_one_def Let_def)
  have "bdev (buf (fold binit_one cs s) b) = (if b \<in> set cs then -1 else bdev (buf s b))" for cs s
    by (induction cs arbitrary: s) (simp_all add: one)
  then show "b < NBUF \<Longrightarrow> bdev (buf (binit s) b) = -1" by (simp add: binit_def)
qed

lemma binit_lru: "lru (binit s) (rev [0..<NBUF])"
proof -
  have n: "nxt (binit_one b s) = (nxt s)(b := nxt s NBUF, NBUF := b)"
    "prv (binit_one b s) = (prv s)(b := NBUF, nxt s NBUF := b)" if "b < NBUF" for b s
    using that by (simp_all add: binit_one_def Let_def fun_eq_iff)
  have "lru_upto (fold binit_one [0..<k] (set_next NBUF NBUF (set_prev NBUF NBUF s)))" if "k \<le> NBUF" "lru_upto =
    (\<lambda>s. seg (nxt s) NBUF (rev [0..<k]) NBUF \<and> seg (prv s) NBUF [0..<k] NBUF)" for k lru_upto
    using that
  proof (induction k arbitrary: lru_upto)
    case (Suc k)
    let ?t = "fold binit_one [0..<k] (set_next NBUF NBUF (set_prev NBUF NBUF s))"
    have t: "seg (nxt ?t) NBUF (rev [0..<k]) NBUF" "seg (prv ?t) NBUF [0..<k] NBUF" using Suc by simp_all
    have "nxt ?t NBUF = last (NBUF # [0..<k])" using seg_hd [OF t(1)] by (cases k) auto
    moreover have "distinct (NBUF # k # rev [0..<k])" "distinct (NBUF # k # [0..<k])" using Suc.prems(1) by auto
    ultimately show ?case
      using seg_insert_front [OF t(1), of k] seg_insert_back [OF t(2), of k] Suc.prems n [of k ?t] by simp
  qed simp
  from this [of NBUF] show ?thesis by (simp only: lru_def binit_def) (simp del: upt_rec_numeral)
qed

lemma binit_idle:
  assumes "\<And>b. b < NBUF \<Longrightarrow> \<not> busy (buf s b) \<and> \<not> valid (buf s b) \<and> \<not> dirty (buf s b)" "idequeue s = []"
  shows "cache_idle (binit s)"
  unfolding cache_idle_def cache_inv_def
  using assms binit_lru [of s] by (auto simp: binit_frame binit_dev)


section \<open>Properties\<close>

text \<open>
  C13. \<open>bread\<close> hands a buffer to one process at a time and always with the right contents. When some
  process has the sector's buffer locked, the caller goes to sleep on that buffer; when all buffers
  are locked it panics; otherwise it gets an unlocked buffer, the sector's own or the least recently
  released one, locked now and holding exactly the sector's contents, every other buffer and the
  disk being unchanged.
\<close>

theorem bread_correct:
  assumes "cache_inv s" "lru s bs" "sector_ok s dev sec"
  shows "if \<exists>b. cached s dev sec b \<and> busy (buf s b) then \<exists>b. cached s dev sec b \<and> bread dev sec s = Inr (SleepOn b, s)
    else if \<forall>b < NBUF. busy (buf s b) then bread dev sec s = Inl (Panic ''bget: no buffers'')
    else \<exists>b s'. bread dev sec s = Inr (Locked b, s') \<and> b < NBUF \<and> \<not> busy (buf s b) \<and> busy (buf s' b) \<and>
      (cached s dev sec b \<or> b = last (filter (\<lambda>b. \<not> busy (buf s b)) bs)) \<and>
      bdev (buf s' b) = dev \<and> sector (buf s' b) = sec \<and> valid (buf s' b) \<and> bdata (buf s' b) = disk s dev sec \<and>
      (\<forall>c. c \<noteq> b \<longrightarrow> buf s' c = buf s c) \<and> disk s' = disk s \<and> havedisk1 s' = havedisk1 s \<and> cache_inv s'"
  using bread_ok [OF assms] .

definition boot_disk :: dstate where
  "boot_disk = binit \<lparr>buf = \<lambda>_. \<lparr>busy = False, valid = False, dirty = False, bdev = 0, sector = 0, bprev = 0,
     bnext = 0, bdata = \<lambda>_. 0\<rparr>, idequeue = [], disk = \<lambda>d k i. ucast k, havedisk1 = True\<rparr>"

lemma boot_disk_idle: "cache_idle boot_disk" "lru boot_disk (rev [0..<NBUF])" "havedisk1 boot_disk"
  "disk boot_disk = (\<lambda>d k i. ucast k)"
  unfolding boot_disk_def by (auto intro: binit_idle binit_lru simp: binit_frame)

lemma bread_correct_witness:
  "\<exists>b s'. bread 1 7 boot_disk = Inr (Locked b, s') \<and> bdata (buf s' b) 3 = 7 \<and> busy (buf s' b)"
proof -
  have i: "cache_inv boot_disk" and nb: "\<And>b. b < NBUF \<Longrightarrow> \<not> busy (buf boot_disk b)"
    using boot_disk_idle(1) by (simp_all add: cache_idle_def)
  have so: "sector_ok boot_disk 1 7" using boot_disk_idle(3) by (simp add: sector_ok_def)
  have n: "\<not> (\<exists>b. cached boot_disk 1 7 b \<and> busy (buf boot_disk b))" "\<not> (\<forall>b < NBUF. busy (buf boot_disk b))"
    using nb [of 0] nb by (auto simp: cached_def intro: exI [of _ 0])
  show ?thesis
    using bread_correct [OF i boot_disk_idle(2) so] unfolding if_not_P [OF n(1)] if_not_P [OF n(2)] boot_disk_idle(4)
    by auto
qed

text \<open>
  C14. The buffer cache refines the disk: any sequence of block reads and writes through it never
  fails, returns what the same sequence returns on a plain map from sectors to blocks, and leaves
  the disk as that map. Nothing a write stored is lost when its buffer is recycled.
\<close>

theorem cache_refines_disk:
  assumes "cache_idle s" "\<And>k. k \<in> fst ` set ops \<Longrightarrow> sector_ok s (fst k) (snd k)"
  shows "\<exists>s'. bcache.exec_ops ops s = Inr (fst (bcache.spec_ops ops (disk_at s)), s') \<and> cache_idle s' \<and>
    disk_at s' = snd (bcache.spec_ops ops (disk_at s))"
  using bcache.exec_refines [OF assms] .

lemma cache_refines_disk_witness:
  "\<exists>s'. bcache.exec_ops [((1, 7), Some (\<lambda>_. 9)), ((1, 8), None), ((1, 7), None)] boot_disk =
     Inr ([\<lambda>_. 8, \<lambda>_. 9], s') \<and> cache_idle s'"
proof -
  have "\<exists>s'. bcache.exec_ops [((1, 7), Some (\<lambda>_. 9)), ((1, 8), None), ((1, 7), None)] boot_disk =
      Inr (fst (bcache.spec_ops [((1, 7), Some (\<lambda>_. 9)), ((1, 8), None), ((1, 7), None)] (disk_at boot_disk)), s') \<and>
      cache_idle s' \<and>
      disk_at s' = snd (bcache.spec_ops [((1, 7), Some (\<lambda>_. 9)), ((1, 8), None), ((1, 7), None)] (disk_at boot_disk))"
    by (rule cache_refines_disk) (auto simp: boot_disk_idle sector_ok_def)
  then show ?thesis by (auto simp: disk_at_def [abs_def] boot_disk_idle(4) fun_eq_iff Let_def)
qed

end
