(* ===== verification/KString.thy ===== *)
theory KString imports Prelude begin

text \<open>
  kernel/string.c. The block routines \<open>memset\<close> and \<open>memmove\<close> work on physical memory, where source
  and destination may overlap; \<open>memset\<close> is the \<open>rep stosb\<close> of include/x86.h. The routines on C
  strings take a \<open>char\<close> pointer as the function from offsets to the bytes it points at, and return
  the bytes at the destination pointer.
\<close>

type_synonym pmem = "u32 \<Rightarrow> u8"
type_synonym cptr = "nat \<Rightarrow> u8"

section \<open>Blocks of memory\<close>

definition memset :: "pmem \<Rightarrow> u32 \<Rightarrow> u32 \<Rightarrow> u32 \<Rightarrow> pmem" where
  "memset m dst c n = (\<lambda>a. if a - dst < n then ucast c else m a)"

text \<open>\<open>memcmp\<close> stops at the first difference.\<close>

fun memcmp :: "cptr \<Rightarrow> cptr \<Rightarrow> nat \<Rightarrow> int" where
  "memcmp s1 s2 0 = 0"
| "memcmp s1 s2 (Suc n) =
     (if s1 0 \<noteq> s2 0 then int (unat (s1 0)) - int (unat (s2 0))
      else memcmp (\<lambda>i. s1 (Suc i)) (\<lambda>i. s2 (Suc i)) n)"

text \<open>The two loops of \<open>memmove\<close>: \<open>*--d = *--s\<close> and \<open>*d++ = *s++\<close>.\<close>

fun copy_down :: "pmem \<Rightarrow> u32 \<Rightarrow> u32 \<Rightarrow> nat \<Rightarrow> pmem" where
  "copy_down m d s 0 = m"
| "copy_down m d s (Suc n) = copy_down (m(d - 1 := m (s - 1))) (d - 1) (s - 1) n"

fun copy_up :: "pmem \<Rightarrow> u32 \<Rightarrow> u32 \<Rightarrow> nat \<Rightarrow> pmem" where
  "copy_up m d s 0 = m"
| "copy_up m d s (Suc n) = copy_up (m(d := m s)) (d + 1) (s + 1) n"

definition memmove :: "pmem \<Rightarrow> u32 \<Rightarrow> u32 \<Rightarrow> u32 \<Rightarrow> pmem" where
  "memmove m dst src n =
     (if src < dst \<and> src + n > dst then copy_down m (dst + n) (src + n) (unat n)
      else copy_up m dst src (unat n))"

lemma memset_in: "a - dst < n \<Longrightarrow> memset m dst c n a = ucast c"
  by (simp add: memset_def)

lemma memset_out: "\<not> a - dst < n \<Longrightarrow> memset m dst c n a = m a"
  by (simp add: memset_def)

lemma copy_up_out: "(\<And>i. i < n \<Longrightarrow> a \<noteq> d + of_nat i) \<Longrightarrow> copy_up m d s n a = m a"
proof (induction n arbitrary: m d s)
  case (Suc n)
  have "a \<noteq> d + 1 + of_nat i" if "i < n" for i
    using Suc.prems [of "Suc i"] that by (simp add: add.assoc)
  then show ?case using Suc.IH Suc.prems [of 0] by simp
qed simp

lemma copy_down_out:
  "(\<And>i. i < n \<Longrightarrow> a \<noteq> d - 1 - of_nat i) \<Longrightarrow> copy_down m d s n a = m a"
proof (induction n arbitrary: m d s)
  case (Suc n)
  have "a \<noteq> d - 1 - 1 - of_nat i" if "i < n" for i
    using Suc.prems [of "Suc i"] that by (simp add: algebra_simps)
  then show ?case using Suc.IH Suc.prems [of 0] by simp
qed simp

lemma of_nat_neq_0: "0 < n \<Longrightarrow> n < 2 ^ 32 \<Longrightarrow> (of_nat n :: u32) \<noteq> 0"
proof
  assume "0 < n" "n < 2 ^ 32" "(of_nat n :: u32) = 0"
  moreover from this have "unat (of_nat n :: u32) = n" by (intro unat_of_nat_lt) simp
  ultimately show False by simp
qed

lemma copy_up_in:
  assumes "i < n" "unat d + n < 2 ^ 32" "unat s + n < 2 ^ 32"
    and "unat d \<le> unat s \<or> unat s + n \<le> unat d"
  shows "copy_up m d s n (d + of_nat i) = m (s + of_nat i)"
  using assms
proof (induction n arbitrary: m d s i)
  case (Suc n)
  show ?case
  proof (cases i)
    case 0
    have "d \<noteq> d + 1 + of_nat j" if "j < n" for j
      using of_nat_neq_0 [of "Suc j"] that Suc.prems(2) by (simp add: add.assoc)
    then show ?thesis using 0 by (simp add: copy_up_out)
  next
    case (Suc j)
    with Suc.prems have j: "j < n" by simp
    have ud: "unat (d + 1) = unat d + 1" and us: "unat (s + 1) = unat s + 1"
      using unat_add_lt [of d 1] unat_add_lt [of s 1] Suc.prems(2,3) j by simp_all
    have "unat (s + 1 + of_nat j) = unat s + 1 + j"
      using Suc.prems(3) j us by (simp add: unat_add_lt unat_of_nat_lt)
    then have ne: "s + 1 + of_nat j \<noteq> d" using Suc.prems(4) j by auto
    have "copy_up (m(d := m s)) (d + 1) (s + 1) n (d + 1 + of_nat j) =
        (m(d := m s)) (s + 1 + of_nat j)"
      using j ud us Suc.prems by (intro Suc.IH) auto
    then show ?thesis using Suc ne by (simp add: add.assoc)
  qed
qed simp

lemma copy_down_in:
  assumes "i < n" "n \<le> unat d" "n \<le> unat s" "unat s < unat d"
  shows "copy_down m d s n (d - 1 - of_nat i) = m (s - 1 - of_nat i)"
  using assms
proof (induction n arbitrary: m d s i)
  case (Suc n)
  have lt: "n < 2 ^ 32" using Suc.prems(2) unsigned_less [of d, where ?'a = nat] by simp
  have ud: "unat (d - 1) = unat d - 1" and us: "unat (s - 1) = unat s - 1"
    using Suc.prems(2,3) by (auto simp: unat_sub word_le_nat_alt)
  show ?case
  proof (cases i)
    case 0
    have "d - 1 \<noteq> d - 1 - 1 - of_nat j" if "j < n" for j
      using of_nat_neq_0 [of "Suc j"] that lt by (simp add: algebra_simps)
    then show ?thesis using 0 by (simp add: copy_down_out)
  next
    case (Suc j)
    with Suc.prems have j: "j < n" by simp
    have "unat (s - 1 - 1 - of_nat j) = unat s - 1 - 1 - j"
      using Suc.prems(3) j us lt by (simp add: unat_sub word_le_nat_alt unat_of_nat_lt)
    then have "unat (s - 1 - 1 - of_nat j) < unat (d - 1)"
      unfolding ud using Suc.prems(3,4) j by linarith
    then have ne: "s - 1 - 1 - of_nat j \<noteq> d - 1" by (metis less_irrefl)
    have "copy_down (m(d - 1 := m (s - 1))) (d - 1) (s - 1) n (d - 1 - 1 - of_nat j) =
        (m(d - 1 := m (s - 1))) (s - 1 - 1 - of_nat j)"
      using j ud us Suc.prems by (intro Suc.IH) auto
    then show ?thesis using Suc ne by (simp add: algebra_simps)
  qed
qed simp


lemma copy_down_end:
  assumes "i < n" "unat d + n < 2 ^ 32" "unat s + n < 2 ^ 32" "unat s < unat d"
  shows "copy_down m (d + of_nat n) (s + of_nat n) n (d + of_nat i) = m (s + of_nat i)"
proof -
  let ?k = "n - 1 - i"
  have e: "x + of_nat n - 1 - of_nat ?k = x + of_nat i" for x :: u32
  proof -
    have "(of_nat n :: u32) = of_nat (i + 1 + ?k)" using assms(1) by simp
    then show ?thesis by (simp only: of_nat_add of_nat_1) (simp add: algebra_simps)
  qed
  have u: "unat (d + of_nat n) = unat d + n" "unat (s + of_nat n) = unat s + n"
    using assms by (simp_all add: unat_add_lt unat_of_nat_lt)
  have "copy_down m (d + of_nat n) (s + of_nat n) n (d + of_nat n - 1 - of_nat ?k)
      = m (s + of_nat n - 1 - of_nat ?k)"
    using assms u by (intro copy_down_in) auto
  then show ?thesis by (simp only: e)
qed

lemma copy_down_end_out:
  assumes "\<And>i. i < n \<Longrightarrow> a \<noteq> d + of_nat i"
  shows "copy_down m (d + of_nat n) s n a = m a"
proof (rule copy_down_out)
  fix i assume i: "i < n"
  have "(of_nat n :: u32) = of_nat (n - 1 - i + 1 + i)" using i by simp
  then have e: "d + of_nat n - 1 - of_nat i = d + of_nat (n - 1 - i)"
    by (simp only: of_nat_add of_nat_1) (simp add: algebra_simps)
  have "a \<noteq> d + of_nat (n - 1 - i)" using i by (intro assms) simp
  then show "a \<noteq> d + of_nat n - 1 - of_nat i" by (simp only: e not_False_eq_True)
qed

lemma memmove_in:
  assumes "i < unat n" "unat dst + unat n < 2 ^ 32" "unat src + unat n < 2 ^ 32"
  shows "memmove m dst src n (dst + of_nat i) = m (src + of_nat i)"
proof (cases "src < dst \<and> src + n > dst")
  case True
  then have "unat src < unat dst" by (simp add: word_less_nat_alt)
  with copy_down_end [OF assms, of m] True show ?thesis by (simp add: memmove_def)
next
  case False
  have "unat (src + n) = unat src + unat n" using assms(3) by (intro unat_add_lt) simp
  with False have "unat dst \<le> unat src \<or> unat src + unat n \<le> unat dst"
    by (auto simp: word_less_nat_alt)
  with copy_up_in [OF assms] False show ?thesis by (auto simp: memmove_def)
qed

lemma memmove_out:
  assumes "\<And>i. i < unat n \<Longrightarrow> a \<noteq> dst + of_nat i"
  shows "memmove m dst src n a = m a"
  using copy_up_out [OF assms, where n = "unat n" and m = m and s = src]
    copy_down_end_out [OF assms, where n = "unat n" and m = m and s = "src + n"]
  by (simp add: memmove_def)

section \<open>C strings\<close>

text \<open>\<open>while(n > 0 && *p && *p == *q) n--, p++, q++;\<close>\<close>

fun strncmp :: "cptr \<Rightarrow> cptr \<Rightarrow> nat \<Rightarrow> int" where
  "strncmp p q 0 = 0"
| "strncmp p q (Suc n) =
     (if p 0 \<noteq> 0 \<and> p 0 = q 0 then strncmp (\<lambda>i. p (Suc i)) (\<lambda>i. q (Suc i)) n
      else int (unat (p 0)) - int (unat (q 0)))"

text \<open>
  The first loop of \<open>strncpy\<close> copies up to and including the terminator, the second pads. The
  argument \<open>k\<close> is how far \<open>s\<close> and \<open>t\<close> have advanced; \<open>n\<close> is the C variable before the test.
\<close>

fun strncpy_pad :: "cptr \<Rightarrow> nat \<Rightarrow> nat \<Rightarrow> cptr" where
  "strncpy_pad s k 0 = s"
| "strncpy_pad s k (Suc n) = strncpy_pad (s(k := 0)) (Suc k) n"

fun strncpy_from :: "cptr \<Rightarrow> cptr \<Rightarrow> nat \<Rightarrow> nat \<Rightarrow> cptr" where
  "strncpy_from s t k 0 = s"
| "strncpy_from s t k (Suc n) =
     (if t k \<noteq> 0 then strncpy_from (s(k := t k)) t (Suc k) n
      else strncpy_pad (s(k := t k)) (Suc k) n)"

definition strncpy :: "cptr \<Rightarrow> cptr \<Rightarrow> int \<Rightarrow> cptr" where
  "strncpy s t n = strncpy_from s t 0 (nat n)"

text \<open>
  \<open>while(--n > 0 && (*s++ = *t++) != 0); *s = 0;\<close> with \<open>n\<close> the value after the decrement. When
  the copied byte is the terminator \<open>s\<close> has moved past it, so a second 0 is written behind it.
\<close>

fun safestrcpy_from :: "cptr \<Rightarrow> cptr \<Rightarrow> nat \<Rightarrow> nat \<Rightarrow> cptr" where
  "safestrcpy_from s t k 0 = s(k := 0)"
| "safestrcpy_from s t k (Suc n) =
     (if t k \<noteq> 0 then safestrcpy_from (s(k := t k)) t (Suc k) n
      else (s(k := t k))(Suc k := 0))"

definition safestrcpy :: "cptr \<Rightarrow> cptr \<Rightarrow> int \<Rightarrow> cptr" where
  "safestrcpy s t n = (if n \<le> 0 then s else safestrcpy_from s t 0 (nat (n - 1)))"

text \<open>\<open>strlen\<close> runs until it meets a 0 byte; it returns nothing when there is none.\<close>

partial_function (option) strlen_from :: "cptr \<Rightarrow> nat \<Rightarrow> nat option" where
  "strlen_from s n = (if s n = 0 then Some n else strlen_from s (Suc n))"

definition strlen :: "cptr \<Rightarrow> nat option" where
  "strlen s = strlen_from s 0"

subsection \<open>What the string routines compute\<close>

text \<open>\<open>cstr s n\<close>: the string at \<open>s\<close>, cut at its terminator or after \<open>n\<close> bytes.\<close>

fun cstr :: "cptr \<Rightarrow> nat \<Rightarrow> u8 list" where
  "cstr s 0 = []"
| "cstr s (Suc n) = (if s 0 = 0 then [] else s 0 # cstr (\<lambda>i. s (Suc i)) n)"

lemma strncmp_eq_0: "strncmp p q n = 0 \<longleftrightarrow> cstr p n = cstr q n"
  by (induction n arbitrary: p q) (auto simp: word_unat_eq_iff simp del: of_nat_unat)

lemma length_cstr: "length (cstr s n) \<le> n"
  by (induction s n rule: cstr.induct) auto

lemma cstr_eq_take: "cstr s n = takeWhile (\<lambda>c. c \<noteq> 0) (map s [0..<n])"
proof (induction n arbitrary: s)
  case (Suc n)
  have "map s [0..<Suc n] = s 0 # map (\<lambda>i. s (Suc i)) [0..<n]"
    by (simp add: upt_conv_Cons map_Suc_upt [symmetric] del: upt_Suc)
  with Suc show ?case by simp
qed simp

lemma cstr_cong: "(\<And>i. i < n \<Longrightarrow> s i = t i) \<Longrightarrow> cstr s n = cstr t n"
  unfolding cstr_eq_take by (intro arg_cong [where f = "takeWhile _"] map_cong) auto

lemma strncpy_pad_apply: "strncpy_pad s k n i = (if k \<le> i \<and> i < k + n then 0 else s i)"
  by (induction n arbitrary: s k) auto

lemma strncpy_from_apply:
  "strncpy_from s t k n i =
     (if k \<le> i \<and> i < k + n then if (\<forall>j. k \<le> j \<and> j \<le> i \<longrightarrow> t j \<noteq> 0) then t i else 0 else s i)"
proof (induction n arbitrary: s k)
  case (Suc n)
  show ?case
  proof (cases "t k = 0")
    case True
    then show ?thesis by (auto simp: strncpy_pad_apply)
  next
    case False
    have "(\<forall>j. k \<le> j \<and> j \<le> i \<longrightarrow> t j \<noteq> 0) \<longleftrightarrow> (\<forall>j. Suc k \<le> j \<and> j \<le> i \<longrightarrow> t j \<noteq> 0)"
    proof (intro iffI allI impI)
      fix j assume "\<forall>j. Suc k \<le> j \<and> j \<le> i \<longrightarrow> t j \<noteq> 0" "k \<le> j \<and> j \<le> i"
      then show "t j \<noteq> 0" using False by (cases "j = k") auto
    qed auto
    with False Suc show ?thesis by auto
  qed
qed auto

lemma cstr_strncpy: "cstr (strncpy s t (int n)) n = cstr t n"
proof -
  have "takeWhile (\<lambda>c. c \<noteq> 0) (map (strncpy_from s t 0 n) [0..<m]) =
      takeWhile (\<lambda>c. c \<noteq> 0) (map t [0..<m])" if "m \<le> n" for m
    using that
  proof (induction m)
    case (Suc m)
    show ?case
    proof (cases "\<exists>j < m. t j = 0")
      case True
      then obtain j where j: "j < m" "t j = 0" by blast
      have "strncpy_from s t 0 n j = 0" using j Suc.prems by (auto simp: strncpy_from_apply)
      with j have "0 \<in> set (map (strncpy_from s t 0 n) [0..<m])" "0 \<in> set (map t [0..<m])"
        by (auto intro: rev_image_eqI)
      then show ?thesis using Suc by (simp add: takeWhile_append1)
    next
      case False
      then have "map (strncpy_from s t 0 n) [0..<m] = map t [0..<m]"
        using Suc.prems by (auto simp: strncpy_from_apply)
      moreover have "strncpy_from s t 0 n m = t m"
        using False Suc.prems by (auto simp: strncpy_from_apply le_less)
      ultimately show ?thesis by (simp only: upt_Suc le0 if_True map_append list.map)
    qed
  qed simp
  then show ?thesis by (simp add: strncpy_def cstr_eq_take)
qed

lemma strlen_from_eq:
  "s (n + k) = 0 \<Longrightarrow> (\<And>i. i < k \<Longrightarrow> s (n + i) \<noteq> 0) \<Longrightarrow> strlen_from s n = Some (n + k)"
proof (induction k arbitrary: n)
  case 0
  then show ?case by (simp add: strlen_from.simps)
next
  case (Suc k)
  have "s n \<noteq> 0" using Suc.prems(2) [of 0] by simp
  moreover have "strlen_from s (Suc n) = Some (Suc n + k)"
    using Suc.prems(1) Suc.prems(2) [of "Suc _"] by (intro Suc.IH) auto
  ultimately show ?case by (simp add: strlen_from.simps [of s n])
qed

lemma strlen_eq: "s k = 0 \<Longrightarrow> (\<And>i. i < k \<Longrightarrow> s i \<noteq> 0) \<Longrightarrow> strlen s = Some k"
  using strlen_from_eq [of s 0 k] by (simp add: strlen_def)

lemma safestrcpy_from_out: "i < k \<Longrightarrow> safestrcpy_from s t k n i = s i"
  by (induction n arbitrary: s k) auto

lemma safestrcpy_from_apply:
  "k \<le> i \<Longrightarrow> i < k + n \<Longrightarrow> (\<And>j. k \<le> j \<Longrightarrow> j < i \<Longrightarrow> t j \<noteq> 0) \<Longrightarrow> safestrcpy_from s t k n i = t i"
proof (induction n arbitrary: s k)
  case (Suc n)
  show ?case
  proof (cases "i = k")
    case True
    then show ?thesis by (simp add: safestrcpy_from_out)
  next
    case False
    with Suc.prems(1) Suc.prems(3) [of k] have "t k \<noteq> 0" by simp
    with Suc False show ?thesis by simp
  qed
qed simp

section \<open>Properties\<close>

text \<open>
  C1. \<open>memmove\<close> copies correctly for every overlap: when neither range wraps around, byte \<open>i\<close> of the
  destination is byte \<open>i\<close> of the source as it was before the call, and no other byte changes.
\<close>

theorem memmove_correct:
  assumes "unat dst + unat n < 2 ^ 32" "unat src + unat n < 2 ^ 32"
  shows "memmove m dst src n a =
    (if unat (a - dst) < unat n then m (src + (a - dst)) else m a)"
proof (cases "unat (a - dst) < unat n")
  case True
  have "of_nat (unat (a - dst)) = a - dst" by simp
  with memmove_in [OF True assms, of m] True show ?thesis by simp
next
  case False
  have "a \<noteq> dst + of_nat i" if "i < unat n" for i
  proof
    assume "a = dst + of_nat i"
    moreover have "unat (of_nat i :: u32) = i"
      using that unsigned_less [of n, where ?'a = nat] by (intro unat_of_nat_lt) simp
    ultimately show False using False that by simp
  qed
  with False memmove_out [of n a dst m src] show ?thesis by simp
qed

lemma memmove_correct_witness:
  "memmove (\<lambda>a. ucast a) 0x1002 0x1000 8 0x1005 = (3 :: u8)"
  using memmove_correct [where dst = "0x1002" and n = 8 and src = "0x1000" and a = "0x1005"] by simp

end
