(* ===== verification/Fs.thy ===== *)
theory Fs imports Bio KString begin

text \<open>
  kernel/fs.c, the lower half: blocks, the block bitmap, the inode cache and inode contents. A block
  is read with \<open>bread\<close>, perhaps changed and written with \<open>bwrite\<close>, and released; theory Bio shows
  that this reads and writes a map from sectors to blocks, which is the field \<open>fdisk\<close>. A pointer into
  \<open>icache.inode\<close> is its index. A call that would go to sleep on a locked inode ends with the
  fault \<open>sleep\<close>: the model follows one process from one sleep to the next.
\<close>

abbreviation BSIZE :: nat where "BSIZE \<equiv> 512"
abbreviation NDIRECT :: nat where "NDIRECT \<equiv> 12"
abbreviation NINDIRECT :: nat where "NINDIRECT \<equiv> 128"
abbreviation MAXFILE :: nat where "MAXFILE \<equiv> 140"
abbreviation IPB :: nat where "IPB \<equiv> 8"
abbreviation BPB :: nat where "BPB \<equiv> 4096"
abbreviation NINODE :: nat where "NINODE \<equiv> 50"
abbreviation NDEV :: nat where "NDEV \<equiv> 10"
abbreviation T_DIR :: u16 where "T_DIR \<equiv> 1"
abbreviation T_FILE :: u16 where "T_FILE \<equiv> 2"
abbreviation T_DEV :: u16 where "T_DEV \<equiv> 3"

record inode =
  idev :: u32
  inum :: u32
  iref :: int
  ibusy :: bool
  ivalid :: bool
  itype :: u16
  imajor :: u16
  iminor :: u16
  inlink :: u16
  isize :: u32
  iaddrs :: "nat \<Rightarrow> u32"

record fsys =
  fdisk :: "u32 \<times> u32 \<Rightarrow> block"
  icache :: "nat \<Rightarrow> inode"

abbreviation upd_inode :: "nat \<Rightarrow> (inode \<Rightarrow> inode) \<Rightarrow> fsys \<Rightarrow> fsys" where
  "upd_inode ip f s \<equiv> s\<lparr>icache := (icache s)(ip := f (icache s ip))\<rparr>"

definition put_block :: "u32 \<Rightarrow> u32 \<Rightarrow> block \<Rightarrow> fsys \<Rightarrow> fsys" where
  "put_block dev sec v s = s\<lparr>fdisk := (fdisk s)((dev, sec) := v)\<rparr>"

section \<open>Super block, blocks and the bitmap\<close>

record superblock =
  sb_size :: u32
  sb_nblocks :: u32
  sb_ninodes :: u32

definition readsb :: "u32 \<Rightarrow> fsys \<Rightarrow> superblock" where
  "readsb dev s = (let b = fdisk s (dev, 1) in
     \<lparr>sb_size = ld32 b 0, sb_nblocks = ld32 b 4, sb_ninodes = ld32 b 8\<rparr>)"

definition bzero :: "u32 \<Rightarrow> u32 \<Rightarrow> fsys \<Rightarrow> fsys" where
  "bzero dev bno = put_block dev bno (\<lambda>_. 0)"

definition IBLOCK :: "u32 \<Rightarrow> u32" where "IBLOCK i = i div 8 + 2"
definition BBLOCK :: "u32 \<Rightarrow> u32 \<Rightarrow> u32" where "BBLOCK b ninodes = b div 4096 + ninodes div 8 + 3"

text \<open>Bit \<open>bi\<close> of a bitmap block, with the mask \<open>1 << (bi % 8)\<close>.\<close>

definition bmask :: "nat \<Rightarrow> u8" where "bmask bi = push_bit (bi mod 8) 1"
definition bset :: "block \<Rightarrow> nat \<Rightarrow> bool" where "bset d bi \<longleftrightarrow> d (bi div 8) AND bmask bi \<noteq> 0"

text \<open>The two loops of \<open>balloc\<close>; \<open>b\<close> and \<open>bi\<close> are \<open>int\<close> in the code and do not overflow for disks below $2^{31}$ blocks.\<close>

fun balloc_from :: "u32 \<Rightarrow> superblock \<Rightarrow> nat list \<Rightarrow> fsys \<Rightarrow> u32 \<times> fsys" where
  "balloc_from dev sb [] s = (0, s)"
| "balloc_from dev sb (b # bs) s =
     (let sec = BBLOCK (of_nat b) (sb_ninodes sb); d = fdisk s (dev, sec);
          bound = (if b + BPB > unat (sb_size sb) then unat (sb_size sb) mod BPB else BPB)
      in case find (\<lambda>bi. \<not> bset d bi) [0..<bound] of
           Some bi \<Rightarrow> (of_nat (b + bi), put_block dev sec (d(bi div 8 := d (bi div 8) OR bmask bi)) s)
         | None \<Rightarrow> balloc_from dev sb bs s)"

definition balloc :: "u32 \<Rightarrow> fsys \<Rightarrow> u32 \<times> fsys" where
  "balloc dev s = (let sb = readsb dev s in
     balloc_from dev sb (map (\<lambda>i. BPB * i) [0..<(unat (sb_size sb) + (BPB - 1)) div BPB]) s)"

definition bfree :: "u32 \<Rightarrow> u32 \<Rightarrow> fsys \<Rightarrow> fsys res" where
  "bfree dev b s =
     (let s = bzero dev b s; sb = readsb dev s; sec = BBLOCK b (sb_ninodes sb); d = fdisk s (dev, sec);
          bi = unat b mod BPB
      in if \<not> bset d bi then Inl (Panic ''freeing free block'')
         else Inr (put_block dev sec (d(bi div 8 := d (bi div 8) AND NOT (bmask bi))) s))"

section \<open>Inodes on disk and in the cache\<close>

text \<open>The fields of \<open>struct dinode\<close> at byte \<open>o\<close> of its block.\<close>

definition dinode_off :: "u32 \<Rightarrow> nat" where "dinode_off i = unat i mod IPB * 64"

definition load_dinode :: "block \<Rightarrow> nat \<Rightarrow> inode \<Rightarrow> inode" where
  "load_dinode d o1 ip = ip\<lparr>itype := ld16 d o1, imajor := ld16 d (o1 + 2), iminor := ld16 d (o1 + 4),
     inlink := ld16 d (o1 + 6), isize := ld32 d (o1 + 8),
     iaddrs := (\<lambda>i. if i \<le> NDIRECT then ld32 d (o1 + 12 + 4 * i) else iaddrs ip i)\<rparr>"

fun store_addrs :: "block \<Rightarrow> nat \<Rightarrow> u32 list \<Rightarrow> block" where
  "store_addrs d a [] = d"
| "store_addrs d a (v # vs) = store_addrs (st32 d a v) (a + 4) vs"

definition store_dinode :: "block \<Rightarrow> nat \<Rightarrow> inode \<Rightarrow> block" where
  "store_dinode d o1 ip =
     (let d = st16 d o1 (itype ip); d = st16 d (o1 + 2) (imajor ip); d = st16 d (o1 + 4) (iminor ip);
          d = st16 d (o1 + 6) (inlink ip); d = st32 d (o1 + 8) (isize ip)
      in store_addrs d (o1 + 12) (map (iaddrs ip) [0..<Suc NDIRECT]))"

definition iget :: "u32 \<Rightarrow> u32 \<Rightarrow> fsys \<Rightarrow> (nat \<times> fsys) res" where
  "iget dev i s =
     (case find (\<lambda>ip. iref (icache s ip) > 0 \<and> idev (icache s ip) = dev \<and> inum (icache s ip) = i) [0..<NINODE] of
        Some ip \<Rightarrow> Inr (ip, upd_inode ip (\<lambda>k. k\<lparr>iref := iref k + 1\<rparr>) s)
      | None \<Rightarrow> (case find (\<lambda>ip. iref (icache s ip) = 0) [0..<NINODE] of
          None \<Rightarrow> Inl (Panic ''iget: no inodes'')
        | Some ip \<Rightarrow> Inr (ip, upd_inode ip
            (\<lambda>k. k\<lparr>idev := dev, inum := i, iref := 1, ibusy := False, ivalid := False\<rparr>) s)))"

fun ialloc_from :: "u32 \<Rightarrow> u16 \<Rightarrow> nat list \<Rightarrow> fsys \<Rightarrow> (nat \<times> fsys) res" where
  "ialloc_from dev typ [] s = Inl (Panic ''ialloc: no inodes'')"
| "ialloc_from dev typ (i # is) s =
     (let sec = IBLOCK (of_nat i); d = fdisk s (dev, sec); o1 = dinode_off (of_nat i)
      in if ld16 d o1 = 0
         then let d = (\<lambda>j. if o1 \<le> j \<and> j < o1 + 64 then 0 else d j)
           in iget dev (of_nat i) (put_block dev sec (st16 d o1 typ) s)
         else ialloc_from dev typ is s)"

definition ialloc :: "u32 \<Rightarrow> u16 \<Rightarrow> fsys \<Rightarrow> (nat \<times> fsys) res" where
  "ialloc dev typ s = ialloc_from dev typ [1..<unat (sb_ninodes (readsb dev s))] s"

definition iupdate :: "nat \<Rightarrow> fsys \<Rightarrow> fsys" where
  "iupdate ip s = (let k = icache s ip; sec = IBLOCK (inum k) in
     put_block (idev k) sec (store_dinode (fdisk s (idev k, sec)) (dinode_off (inum k)) k) s)"

definition idup :: "nat \<Rightarrow> fsys \<Rightarrow> nat \<times> fsys" where
  "idup ip s = (ip, upd_inode ip (\<lambda>k. k\<lparr>iref := iref k + 1\<rparr>) s)"

definition ilock :: "nat \<Rightarrow> fsys \<Rightarrow> fsys res" where
  "ilock ip s =
     (if iref (icache s ip) < 1 then Inl (Panic ''ilock'')
      else if ibusy (icache s ip) then Inl (Fault ''sleep'')
      else let s = upd_inode ip (\<lambda>k. k\<lparr>ibusy := True\<rparr>) s
        in if ivalid (icache s ip) then Inr s
           else let k = icache s ip;
                    s = upd_inode ip (\<lambda>k. (load_dinode (fdisk s (idev k, IBLOCK (inum k))) (dinode_off (inum k)) k)
                          \<lparr>ivalid := True\<rparr>) s
             in if itype (icache s ip) = 0 then Inl (Panic ''ilock: no type'') else Inr s)"

definition iunlock :: "nat \<Rightarrow> fsys \<Rightarrow> fsys res" where
  "iunlock ip s =
     (if \<not> ibusy (icache s ip) \<or> iref (icache s ip) < 1 then Inl (Panic ''iunlock'')
      else Inr (upd_inode ip (\<lambda>k. k\<lparr>ibusy := False\<rparr>) s))"

section \<open>Contents\<close>

text \<open>
  \<open>bmap\<close>: a direct block; or the address of the indirect block, and an entry of it. An address that
  could not be allocated is 0, and \<open>bmap\<close> then goes on with block 0 as the indirect block.
\<close>

definition bmap_slot :: "nat \<Rightarrow> nat \<Rightarrow> fsys \<Rightarrow> u32 \<times> fsys" where
  "bmap_slot ip i s =
     (if iaddrs (icache s ip) i = 0
      then let (addr, s) = balloc (idev (icache s ip)) s
        in (addr, upd_inode ip (\<lambda>k. k\<lparr>iaddrs := (iaddrs k)(i := addr)\<rparr>) s)
      else (iaddrs (icache s ip) i, s))"

definition bmap_entry :: "u32 \<Rightarrow> u32 \<Rightarrow> nat \<Rightarrow> fsys \<Rightarrow> u32 \<times> fsys" where
  "bmap_entry dev ind j s =
     (let a = fdisk s (dev, ind) in
      if ld32 a (4 * j) = 0
      then let (addr, s) = balloc dev s in (addr, put_block dev ind (st32 a (4 * j) addr) s)
      else (ld32 a (4 * j), s))"

definition bmap :: "nat \<Rightarrow> u32 \<Rightarrow> fsys \<Rightarrow> (u32 \<times> fsys) res" where
  "bmap ip bn s =
     (if unat bn < NDIRECT then Inr (bmap_slot ip (unat bn) s)
      else if unat bn - NDIRECT < NINDIRECT then
        let dev = idev (icache s ip); (ind, s) = bmap_slot ip NDIRECT s
        in Inr (bmap_entry dev ind (unat bn - NDIRECT) s)
      else Inl (Panic ''bmap: out of range''))"

text \<open>\<open>itrunc\<close>: the direct blocks, then the indirect ones, whose block is read once before its entries are freed.\<close>

fun itrunc_direct :: "nat \<Rightarrow> nat list \<Rightarrow> fsys \<Rightarrow> fsys res" where
  "itrunc_direct ip [] s = Inr s"
| "itrunc_direct ip (i # is) s =
     (if iaddrs (icache s ip) i \<noteq> 0
      then kbind (bfree (idev (icache s ip)) (iaddrs (icache s ip) i) s)
        (\<lambda>s. itrunc_direct ip is (upd_inode ip (\<lambda>k. k\<lparr>iaddrs := (iaddrs k)(i := 0)\<rparr>) s))
      else itrunc_direct ip is s)"

fun itrunc_indirect :: "u32 \<Rightarrow> u32 list \<Rightarrow> fsys \<Rightarrow> fsys res" where
  "itrunc_indirect dev [] s = Inr s"
| "itrunc_indirect dev (a # as) s =
     (if a \<noteq> 0 then kbind (bfree dev a s) (itrunc_indirect dev as) else itrunc_indirect dev as s)"

definition itrunc :: "nat \<Rightarrow> fsys \<Rightarrow> fsys res" where
  "itrunc ip s =
     kbind (itrunc_direct ip [0..<NDIRECT] s) (\<lambda>s.
     kbind (let dev = idev (icache s ip); ind = iaddrs (icache s ip) NDIRECT in
        if ind \<noteq> 0 then
          let a = fdisk s (dev, ind) in
          kbind (itrunc_indirect dev (map (\<lambda>j. ld32 a (4 * j)) [0..<NINDIRECT]) s) (\<lambda>s.
          kbind (bfree dev ind s) (\<lambda>s.
          Inr (upd_inode ip (\<lambda>k. k\<lparr>iaddrs := (iaddrs k)(NDIRECT := 0)\<rparr>) s)))
        else Inr s) (\<lambda>s.
     Inr (iupdate ip (upd_inode ip (\<lambda>k. k\<lparr>isize := 0\<rparr>) s))))"

definition iput :: "nat \<Rightarrow> fsys \<Rightarrow> fsys res" where
  "iput ip s =
     (let k = icache s ip in
      if iref k = 1 \<and> ivalid k \<and> inlink k = 0 then
        if ibusy k then Inl (Panic ''iput busy'')
        else
          kbind (itrunc ip (upd_inode ip (\<lambda>k. k\<lparr>ibusy := True\<rparr>) s)) (\<lambda>s.
          let s = iupdate ip (upd_inode ip (\<lambda>k. k\<lparr>itype := 0\<rparr>) s);
              s = upd_inode ip (\<lambda>k. k\<lparr>ibusy := False, ivalid := False\<rparr>) s
          in Inr (upd_inode ip (\<lambda>k. k\<lparr>iref := iref k - 1\<rparr>) s))
      else Inr (upd_inode ip (\<lambda>k. k\<lparr>iref := iref k - 1\<rparr>) s))"

definition iunlockput :: "nat \<Rightarrow> fsys \<Rightarrow> fsys res" where
  "iunlockput ip s = kbind (iunlock ip s) (iput ip)"

record stat =
  st_type :: u16
  st_dev :: u32
  st_ino :: u32
  st_nlink :: u16
  st_size :: u32

definition stati :: "nat \<Rightarrow> fsys \<Rightarrow> stat" where
  "stati ip s = (let k = icache s ip in
     \<lparr>st_type = itype k, st_dev = idev k, st_ino = inum k, st_nlink = inlink k, st_size = isize k\<rparr>)"

text \<open>
  The table \<open>devsw\<close>, which the drivers fill: it is an argument of the routines that look into it.
  A device reads at most \<open>n\<close> bytes, or writes the bytes it is given.
\<close>

record devsw =
  dev_read :: "u16 \<Rightarrow> (nat \<Rightarrow> u32 \<Rightarrow> fsys \<Rightarrow> (int \<times> u8 list \<times> fsys) res) option"
  dev_write :: "u16 \<Rightarrow> (nat \<Rightarrow> cptr \<Rightarrow> u32 \<Rightarrow> fsys \<Rightarrow> (int \<times> fsys) res) option"

definition bad_major :: "u16 \<Rightarrow> bool" where
  "bad_major m \<longleftrightarrow> sint m < 0 \<or> sint m \<ge> int NDEV"

lemma chunk_pos:
  fixes left off :: u32
  shows "left \<noteq> 0 \<Longrightarrow> min left (512 - off mod 512) \<noteq> 0 \<and> min left (512 - off mod 512) \<le> left"
proof -
  assume "left \<noteq> 0"
  have "unat (off mod 512) < 512" by (simp add: unat_mod_distrib)
  then have "(512 :: u32) \<noteq> off mod 512" by auto
  then show ?thesis using \<open>left \<noteq> 0\<close> by (auto simp: min_def)
qed

lemma chunk_dec:
  fixes left off :: u32
  shows "left \<noteq> 0 \<Longrightarrow> unat (left - min left (512 - off mod 512)) < unat left"
  using chunk_pos [of left off]
  by (auto simp: unat_sub word_le_nat_alt unat_gt_0 word_less_nat_alt)

text \<open>The loops of \<open>readi\<close> and \<open>writei\<close> with \<open>left = n - tot\<close>.\<close>

function readi_loop :: "nat \<Rightarrow> u32 \<Rightarrow> u32 \<Rightarrow> fsys \<Rightarrow> (u8 list \<times> fsys) res" where
  "readi_loop ip off left s =
     (if left = 0 then Inr ([], s)
      else kbind (bmap ip (off div 512) s) (\<lambda>(sec, s).
        if sec = 0 then Inl (Panic ''readi: trying to read a block that was never allocated'')
        else let m = min left (512 - off mod 512); d = fdisk s (idev (icache s ip), sec);
                 bs = map (\<lambda>i. d (unat (off mod 512) + i)) [0..<unat m]
          in kbind (readi_loop ip (off + m) (left - m) s) (\<lambda>(cs, s). Inr (bs @ cs, s))))"
  by pat_completeness auto

termination
  by (relation "measure (\<lambda>(ip, off, left, s). unat left)") (use chunk_dec in auto)

declare readi_loop.simps [simp del]

definition readi :: "devsw \<Rightarrow> nat \<Rightarrow> u32 \<Rightarrow> u32 \<Rightarrow> fsys \<Rightarrow> (int \<times> u8 list \<times> fsys) res" where
  "readi D ip off n s =
     (let k = icache s ip in
      if itype k = T_DEV then
        (case dev_read D (imajor k) of
           None \<Rightarrow> Inr (-1, [], s)
         | Some f \<Rightarrow> if bad_major (imajor k) then Inr (-1, [], s) else f ip n s)
      else if off > isize k \<or> off + n < off then Inr (-1, [], s)
      else let n = (if off + n > isize k then isize k - off else n)
        in kbind (readi_loop ip off n s) (\<lambda>(bs, s). Inr (sint n, bs, s)))"

function writei_loop :: "nat \<Rightarrow> cptr \<Rightarrow> u32 \<Rightarrow> u32 \<Rightarrow> u32 \<Rightarrow> fsys \<Rightarrow> (u32 \<times> u32 \<times> fsys) res" where
  "writei_loop ip src off tot left s =
     (if left = 0 then Inr (tot, off, s)
      else kbind (bmap ip (off div 512) s) (\<lambda>(sec, s).
        if sec = 0 then Inr (tot, off, s)
        else let m = min left (512 - off mod 512); dev = idev (icache s ip); d = fdisk s (dev, sec);
                 p = unat (off mod 512);
                 d = (\<lambda>j. if p \<le> j \<and> j < p + unat m then src (j - p) else d j)
          in writei_loop ip (\<lambda>i. src (i + unat m)) (off + m) (tot + m) (left - m) (put_block dev sec d s)))"
  by pat_completeness auto

termination
  by (relation "measure (\<lambda>(ip, src, off, tot, left, s). unat left)") (use chunk_dec in auto)

declare writei_loop.simps [simp del]

definition writei :: "devsw \<Rightarrow> nat \<Rightarrow> cptr \<Rightarrow> u32 \<Rightarrow> u32 \<Rightarrow> fsys \<Rightarrow> (int \<times> fsys) res" where
  "writei D ip src off n s =
     (let k = icache s ip in
      if itype k = T_DEV then
        (case dev_write D (imajor k) of
           None \<Rightarrow> Inr (-1, s)
         | Some f \<Rightarrow> if bad_major (imajor k) then Inr (-1, s) else f ip src n s)
      else if off > isize k \<or> off + n < off then Inr (-1, s)
      else let n = (if off + n > of_nat (MAXFILE * BSIZE) then of_nat (MAXFILE * BSIZE) - off else n)
        in kbind (writei_loop ip src off 0 n s) (\<lambda>(n, off, s).
          if n > 0 \<and> off > isize (icache s ip)
          then Inr (sint n, iupdate ip (upd_inode ip (\<lambda>k. k\<lparr>isize := off\<rparr>) s))
          else Inr (sint n, s)))"

end
