(* ===== verification/Bitmap.thy ===== *)
theory Bitmap imports Fs begin

text \<open>
  The block bitmap of fs.c: what \<open>balloc\<close> does to it, on well-formed disks; and over it the blocks of a
  file: \<open>bmap\<close> keeps files well-formed, and the loops of \<open>readi\<close> and \<open>writei\<close> read and write their bytes.
\<close>

section \<open>The bitmap\<close>

lemma bmask_bit: "bit (bmask bi) n \<longleftrightarrow> n = bi mod 8"
proof -
  have "bi mod 8 < 8" by simp
  then show ?thesis by (auto simp: bmask_def bit_simps)
qed

lemma bset_bit: "bset d bi \<longleftrightarrow> bit (d (bi div 8)) (bi mod 8)"
proof -
  have "d (bi div 8) AND bmask bi = 0 \<longleftrightarrow> \<not> bit (d (bi div 8)) (bi mod 8)"
    by (simp add: bmask_def push_bit_eq_mult and_exp_eq_0_iff_not_bit)
  then show ?thesis by (simp add: bset_def)
qed

lemma bset_set: "bset (d(bi div 8 := d (bi div 8) OR bmask bi)) bj \<longleftrightarrow> bset d bj \<or> bj = bi"
proof -
  have "bj div 8 = bi div 8 \<and> bj mod 8 = bi mod 8 \<longleftrightarrow> bj = bi" by (metis div_mod_decomp)
  then show ?thesis by (auto simp: bset_bit bit_or_iff bmask_bit)
qed

lemma bset_clear: "bset (d(bi div 8 := d (bi div 8) AND NOT (bmask bi))) bj \<longleftrightarrow> bset d bj \<and> bj \<noteq> bi"
proof -
  have "bj div 8 = bi div 8 \<and> bj mod 8 = bi mod 8 \<longleftrightarrow> bj = bi" by (metis div_mod_decomp)
  moreover have "bit (NOT (bmask bi)) (bj mod 8) \<longleftrightarrow> bj mod 8 \<noteq> bi mod 8"
    by (simp add: bit_not_iff bmask_bit)
  ultimately show ?thesis by (auto simp: bset_bit bit_and_iff)
qed

definition nblk :: "fsys \<Rightarrow> u32 \<Rightarrow> nat" where "nblk s dev = unat (sb_size (readsb dev s))"

definition bit_block :: "fsys \<Rightarrow> u32 \<Rightarrow> nat \<Rightarrow> nat" where
  "bit_block s dev b = b div BPB + unat (sb_ninodes (readsb dev s)) div IPB + 3"

definition used :: "fsys \<Rightarrow> u32 \<Rightarrow> nat \<Rightarrow> bool" where
  "used s dev b \<longleftrightarrow> bset (fdisk s (dev, of_nat (bit_block s dev b))) (b mod BPB)"

lemma unat_BBLOCK:
  assumes "unat b < 2 ^ 32"
  shows "unat (BBLOCK b ni) = unat b div BPB + unat ni div IPB + 3"
proof -
  have b: "unat (b div 4096) = unat b div 4096" "unat (ni div 8) = unat ni div 8" by (simp_all add: unat_div_distrib)
  have "unat b div 4096 < 2 ^ 20" "unat ni div 8 < 2 ^ 29"
    using unsigned_less [of b, where ?'a = nat] unsigned_less [of ni, where ?'a = nat] by simp_all
  then show ?thesis
    unfolding BBLOCK_def using b unat_add_lt [of "b div 4096" "ni div 8"]
      unat_add_lt [of "b div 4096 + ni div 8" 3] by simp
qed

lemma bit_block_lt: "b < 2 ^ 32 \<Longrightarrow> bit_block s dev b < 2 ^ 32"
  using unat_lt32 [of "sb_ninodes (readsb dev s)"] by (simp add: bit_block_def)

lemma BBLOCK_eq:
  assumes "b < 2 ^ 32"
  shows "BBLOCK (of_nat b) (sb_ninodes (readsb dev s)) = of_nat (bit_block s dev b)"
proof (rule word_eq_unatI)
  have "unat (BBLOCK (of_nat b) (sb_ninodes (readsb dev s))) = bit_block s dev b"
    unfolding bit_block_def using unat_BBLOCK unat_u32 [OF assms] assms by simp
  then show "unat (BBLOCK (of_nat b) (sb_ninodes (readsb dev s))) = unat (of_nat (bit_block s dev b) :: u32)"
    unfolding unat_u32 [OF bit_block_lt [OF assms]] .
qed

lemma bit_block_inj:
  "b < 2 ^ 32 \<Longrightarrow> c < 2 ^ 32 \<Longrightarrow> (of_nat (bit_block s dev b) :: u32) = of_nat (bit_block s dev c) \<longleftrightarrow> b div BPB = c div BPB"
  unfolding of_nat_u32_eq_iff [OF bit_block_lt bit_block_lt] by (simp add: bit_block_def)

text \<open>The fields of the super block, and the bitmap, after a change of one block.\<close>

lemma put_block_disk [simp]: "fdisk (put_block dev sec v s) = (fdisk s)((dev, sec) := v)"
  "icache (put_block dev sec v s) = icache s"
  by (simp_all add: put_block_def)

lemma readsb_cong: "fdisk s' (dev, 1) = fdisk s (dev, 1) \<Longrightarrow> readsb dev s' = readsb dev s"
  by (simp add: readsb_def)

lemma used_cong:
  "readsb dev s' = readsb dev s \<Longrightarrow>
    fdisk s' (dev, of_nat (bit_block s dev b)) = fdisk s (dev, of_nat (bit_block s dev b)) \<Longrightarrow>
    used s' dev b = used s dev b"
  by (simp add: used_def bit_block_def)

lemma bit_block_ge:
  assumes "b < 2 ^ 32"
  shows "(of_nat (bit_block s dev b) :: u32) \<noteq> 0" "(of_nat (bit_block s dev b) :: u32) \<noteq> 1"
proof -
  have "unat (of_nat (bit_block s dev b) :: u32) \<ge> 3"
    unfolding unat_u32 [OF bit_block_lt [OF assms]] by (simp add: bit_block_def)
  then show "(of_nat (bit_block s dev b) :: u32) \<noteq> 0" "(of_nat (bit_block s dev b) :: u32) \<noteq> 1" by auto
qed

section \<open>Allocating and freeing blocks\<close>

lemma find_upt:
  "find P [0..<n] = (if \<exists>i < n. P i then Some (LEAST i. P i) else None)"
proof (cases "find P [0..<n]")
  case None
  then show ?thesis by (auto simp: find_None_iff)
next
  case (Some i)
  then have i: "i < n" "P i" "\<And>j. j < i \<Longrightarrow> \<not> P j" by (auto simp: find_Some_iff)
  then have "(LEAST i. P i) = i" by (intro Least_equality) (auto simp: not_less [symmetric])
  then show ?thesis using Some i by auto
qed

text \<open>
  The outer loop from bitmap block \<open>i\<close> on, when everything before is in use: the block it finds is
  the first free one.
\<close>

lemma balloc_from_ok:
  assumes "sb = readsb dev s" "sz = nblk s dev" "i \<le> (sz + (BPB - 1)) div BPB" "\<And>c. c < BPB * i \<Longrightarrow> c < sz \<Longrightarrow> used s dev c"
  shows "if \<forall>c < sz. used s dev c
    then balloc_from dev sb (map (\<lambda>i. BPB * i) [i..<(sz + (BPB - 1)) div BPB]) s = (0, s)
    else \<exists>b < sz. \<not> used s dev b \<and> (\<forall>c < b. used s dev c) \<and>
      balloc_from dev sb (map (\<lambda>i. BPB * i) [i..<(sz + (BPB - 1)) div BPB]) s =
        (of_nat b, let sec = of_nat (bit_block s dev b); d = fdisk s (dev, sec); bi = b mod BPB
          in put_block dev sec (d(bi div 8 := d (bi div 8) OR bmask bi)) s)"
  using assms(3,4)
proof (induction "(sz + (BPB - 1)) div BPB - i" arbitrary: i)
  case 0
  then have "i = (sz + (BPB - 1)) div BPB" by simp
  then have "sz \<le> BPB * i" by simp
  then have "\<forall>c < sz. used s dev c" using 0 by auto
  then show ?case using 0 \<open>i = _\<close> by simp
next
  case (Suc n)
  let ?k = "(sz + (BPB - 1)) div BPB"
  have i: "i < ?k" using Suc.hyps(2) by simp
  have sz: "sz < 2 ^ 32" unfolding assms(2) nblk_def by (rule unat_lt32)
  have lo: "BPB * i < sz" using i by linarith
  define bound where "bound = (if BPB * i + BPB > sz then sz mod BPB else BPB)"
  have bd: "bound \<le> BPB" "BPB * i + bound \<le> sz" "\<And>c. BPB * i \<le> c \<Longrightarrow> c < BPB * i + BPB \<Longrightarrow> c < sz \<Longrightarrow> c < BPB * i + bound"
  proof -
    have "sz mod BPB = sz - BPB * i" if "sz < BPB * i + BPB"
    proof -
      have "sz div BPB = i" using that lo by (intro div_nat_eqI) auto
      then show ?thesis by (simp add: minus_mult_div_eq_mod [symmetric])
    qed
    then show "bound \<le> BPB" "BPB * i + bound \<le> sz"
      "\<And>c. BPB * i \<le> c \<Longrightarrow> c < BPB * i + BPB \<Longrightarrow> c < sz \<Longrightarrow> c < BPB * i + bound"
      using lo by (auto simp: bound_def)
  qed
  have u: "used s dev (BPB * i + bi) \<longleftrightarrow> bset (fdisk s (dev, of_nat (bit_block s dev (BPB * i)))) bi" if "bi < BPB" for bi
  proof -
    have "(BPB * i + bi) div BPB = i" "(BPB * i + bi) mod BPB = bi" using that by simp_all
    then show ?thesis by (simp add: used_def bit_block_def)
  qed
  have sec: "BBLOCK (of_nat (BPB * i)) (sb_ninodes sb) = of_nat (bit_block s dev (BPB * i))"
    unfolding assms(1) using lo sz by (intro BBLOCK_eq) linarith
  have up: "map (\<lambda>i. BPB * i) [i..<?k] = BPB * i # map (\<lambda>i. BPB * i) [Suc i..<?k]" using i by (simp add: upt_conv_Cons)
  let ?d = "fdisk s (dev, of_nat (bit_block s dev (BPB * i)))"
  have step: "balloc_from dev sb (map (\<lambda>i. BPB * i) [i..<?k]) s =
      (case find (\<lambda>bi. \<not> bset ?d bi) [0..<bound] of
         Some bi \<Rightarrow> (of_nat (BPB * i + bi), put_block dev (of_nat (bit_block s dev (BPB * i)))
           (?d(bi div 8 := ?d (bi div 8) OR bmask bi)) s)
       | None \<Rightarrow> balloc_from dev sb (map (\<lambda>i. BPB * i) [Suc i..<?k]) s)"
    unfolding up balloc_from.simps Let_def sec using assms(2) by (simp add: bound_def nblk_def assms(1))
  show ?case
  proof (cases "\<exists>bi < bound. \<not> bset ?d bi")
    case True
    define bi where "bi = (LEAST bi. \<not> bset ?d bi)"
    obtain x where x: "x < bound" "\<not> bset ?d x" using True by blast
    have bi: "\<not> bset ?d bi" unfolding bi_def by (rule LeastI [of "\<lambda>bi. \<not> bset ?d bi", OF x(2)])
    have "bi \<le> x" unfolding bi_def by (rule Least_le [of "\<lambda>bi. \<not> bset ?d bi", OF x(2)])
    then have lt: "bi < bound" using x(1) by simp
    have min: "bset ?d c" if "c < bi" for c using not_less_Least [of c "\<lambda>bi. \<not> bset ?d bi"] that by (auto simp: bi_def)
    let ?b = "BPB * i + bi"
    have lt': "bi < BPB" "?b < sz" using lt bd by linarith+
    have nu: "\<not> used s dev ?b" using u [OF lt'(1)] bi by simp
    have all: "used s dev c" if "c < ?b" for c
    proof (cases "c < BPB * i")
      case True
      then show ?thesis using Suc.prems(2) lo by simp
    next
      case False
      then have "used s dev (BPB * i + (c - BPB * i))" using that lt' by (subst u) (auto intro: min)
      then show ?thesis using False by simp
    qed
    have fnd: "find (\<lambda>bi. \<not> bset ?d bi) [0..<bound] = Some bi" using True by (simp add: find_upt bi_def)
    have e: "bit_block s dev ?b = bit_block s dev (BPB * i)" "?b mod BPB = bi"
      using lt'(1) by (simp_all add: bit_block_def)
    have "\<not> (\<forall>c < sz. used s dev c)" using nu lt'(2) by blast
    then show ?thesis
      unfolding if_not_P [OF \<open>\<not> (\<forall>c < sz. used s dev c)\<close>] step fnd
      using nu all lt'(2) e by (intro exI [of _ ?b]) (simp add: Let_def)
  next
    case False
    then have fnd: "find (\<lambda>bi. \<not> bset ?d bi) [0..<bound] = None" by (simp add: find_upt)
    have "used s dev c" if "c < BPB * Suc i" "c < sz" for c
    proof (cases "c < BPB * i")
      case True
      then show ?thesis using Suc.prems(2) that(2) by blast
    next
      case f: False
      then have "c < BPB * i + bound" using bd(3) that by simp
      then have "used s dev (BPB * i + (c - BPB * i))" using f False bd(1) by (subst u) auto
      then show ?thesis using f by simp
    qed
    moreover have "n = ?k - Suc i" "Suc i \<le> ?k" using Suc.hyps(2) i by simp_all
    ultimately show ?thesis unfolding step fnd option.case by (intro Suc.hyps(1)) blast+
  qed
qed


text \<open>
  Well-formed disks: blocks before \<open>dstart\<close>, the first data block that mkfs.c uses, are in use; free blocks
  are zero; block 0 is zero.
\<close>

definition dstart :: "fsys \<Rightarrow> u32 \<Rightarrow> nat" where
  "dstart s dev = unat (sb_ninodes (readsb dev s)) div IPB + 3 + nblk s dev div BPB + 1"

definition bstart :: "fsys \<Rightarrow> u32 \<Rightarrow> nat" where
  "bstart s dev = unat (sb_ninodes (readsb dev s)) div IPB + 3"

definition fs_wf :: "fsys \<Rightarrow> u32 \<Rightarrow> bool" where
  "fs_wf s dev \<longleftrightarrow> (\<forall>b < dstart s dev. b < nblk s dev \<longrightarrow> used s dev b) \<and>
     (\<forall>b < nblk s dev. \<not> used s dev b \<longrightarrow> fdisk s (dev, of_nat b) = (\<lambda>_. 0)) \<and> fdisk s (dev, 0) = (\<lambda>_. 0)"

lemma nblk_lt: "nblk s dev < 2 ^ 32"
  unfolding nblk_def by (rule unat_lt32)

lemma bit_block_meta: "b < nblk s dev \<Longrightarrow> bstart s dev \<le> bit_block s dev b \<and> bit_block s dev b < dstart s dev"
proof -
  assume "b < nblk s dev"
  then have "b div BPB \<le> nblk s dev div BPB" by (intro div_le_mono) simp
  then show ?thesis by (simp add: bit_block_def dstart_def bstart_def)
qed

text \<open>A change of block \<open>k\<close> that is not part of the metadata, or of the bitmap bit of a data block.\<close>

definition same_meta :: "fsys \<Rightarrow> fsys \<Rightarrow> u32 \<Rightarrow> bool" where
  "same_meta s s' dev \<longleftrightarrow> readsb dev s' = readsb dev s \<and> (\<forall>b < nblk s dev. used s' dev b = used s dev b)"

lemma put_block_meta:
  assumes "dstart s dev \<le> unat a"
  shows "same_meta s (put_block dev a v s) dev"
proof -
  have "unat a \<noteq> 1" using assms by (simp add: dstart_def)
  then have a: "a \<noteq> 1" by auto
  then have r: "readsb dev (put_block dev a v s) = readsb dev s" by (intro readsb_cong) auto
  have "(of_nat (bit_block s dev b) :: u32) \<noteq> a" if "b < nblk s dev" for b
  proof -
    have "unat (of_nat (bit_block s dev b) :: u32) = bit_block s dev b"
      using that nblk_lt by (intro unat_u32 bit_block_lt) (rule less_trans)
    then show ?thesis using bit_block_meta [OF that] assms by auto
  qed
  then have "used (put_block dev a v s) dev b = used s dev b" if "b < nblk s dev" for b
    using that r by (intro used_cong) auto
  with r show ?thesis by (simp add: same_meta_def)
qed

lemma same_meta_defs:
  assumes "same_meta s s' dev"
  shows "nblk s' dev = nblk s dev" "dstart s' dev = dstart s dev" "bit_block s' dev = bit_block s dev"
  using assms by (auto simp: same_meta_def nblk_def dstart_def bit_block_def fun_eq_iff)

text \<open>Setting or clearing the bit of block \<open>b\<close>.\<close>

lemma put_bit:
  assumes "b < nblk s dev"
  defines "sec \<equiv> of_nat (bit_block s dev b)"
  assumes "\<And>bj. bset d bj = (if bj = b mod BPB then v else bset (fdisk s (dev, sec)) bj)"
  defines "s' \<equiv> put_block dev sec d s"
  shows "readsb dev s' = readsb dev s" "c < nblk s dev \<Longrightarrow> used s' dev c = (if c = b then v else used s dev c)"
proof -
  have b: "b < 2 ^ 32" using assms(1) nblk_lt less_trans by blast
  show r: "readsb dev s' = readsb dev s"
    unfolding s'_def sec_def using bit_block_ge(2) [OF b, of s dev] by (intro readsb_cong) auto
  assume "c < nblk s dev"
  then have c: "c < 2 ^ 32" using nblk_lt less_trans by blast
  have bb: "bit_block s' dev c = bit_block s dev c" using r by (simp add: bit_block_def)
  show "used s' dev c = (if c = b then v else used s dev c)"
  proof (cases "c div BPB = b div BPB")
    case True
    then have "(of_nat (bit_block s dev c) :: u32) = sec" using bit_block_inj [OF c b] by (simp add: sec_def)
    moreover have "c mod BPB = b mod BPB \<longleftrightarrow> c = b" using True by (metis div_mod_decomp)
    ultimately show ?thesis unfolding used_def bb using assms(3) by (simp add: s'_def)
  next
    case False
    then have "(of_nat (bit_block s dev c) :: u32) \<noteq> sec" using bit_block_inj [OF c b] by (simp add: sec_def)
    then show ?thesis unfolding used_def bb using False by (auto simp: s'_def)
  qed
qed

text \<open>What \<open>balloc\<close> does on a well-formed disk.\<close>

lemma balloc_ok:
  assumes "fs_wf s dev"
  shows "(\<forall>c < nblk s dev. used s dev c) \<and> balloc dev s = (0, s) \<or>
    (\<exists>b s'. balloc dev s = (of_nat b, s') \<and> dstart s dev \<le> b \<and> b < nblk s dev \<and> \<not> used s dev b \<and>
      (\<forall>c < b. used s dev c) \<and>
      readsb dev s' = readsb dev s \<and> (\<forall>c < nblk s dev. used s' dev c = (used s dev c \<or> c = b)) \<and>
      icache s' = icache s \<and> fs_wf s' dev \<and>
      (\<forall>k. k \<notin> (\<lambda>x. (dev, of_nat x)) ` {bstart s dev..<dstart s dev} \<longrightarrow> fdisk s' k = fdisk s k))"
proof -
  let ?r = "balloc_from dev (readsb dev s) (map (\<lambda>i. BPB * i) [0..<(nblk s dev + (BPB - 1)) div BPB]) s"
  have bl: "balloc dev s = ?r" by (simp add: balloc_def Let_def nblk_def)
  have f: "if \<forall>c < nblk s dev. used s dev c then ?r = (0, s)
    else \<exists>b < nblk s dev. \<not> used s dev b \<and> (\<forall>c < b. used s dev c) \<and>
      ?r = (of_nat b, let sec = of_nat (bit_block s dev b); d = fdisk s (dev, sec); bi = b mod BPB
          in put_block dev sec (d(bi div 8 := d (bi div 8) OR bmask bi)) s)"
    by (rule balloc_from_ok) simp_all
  show ?thesis
  proof (cases "\<forall>c < nblk s dev. used s dev c")
    case True
    then show ?thesis using f bl by simp
  next
    case False
    let ?d = "\<lambda>b. fdisk s (dev, of_nat (bit_block s dev b))"
    obtain b where b: "b < nblk s dev" "\<not> used s dev b" "\<forall>c < b. used s dev c"
      "?r = (of_nat b, put_block dev (of_nat (bit_block s dev b))
        ((?d b)(b mod BPB div 8 := ?d b (b mod BPB div 8) OR bmask (b mod BPB))) s)"
      using f unfolding if_not_P [OF False] Let_def by blast
    define s' where "s' = put_block dev (of_nat (bit_block s dev b))
        ((?d b)(b mod BPB div 8 := ?d b (b mod BPB div 8) OR bmask (b mod BPB))) s"
    have bs: "bset ((?d b)(b mod BPB div 8 := ?d b (b mod BPB div 8) OR bmask (b mod BPB))) bj =
        (if bj = b mod BPB then True else bset (?d b) bj)" for bj unfolding bset_set by auto
    note s' = put_bit [OF b(1) bs, folded s'_def]
    have n: "nblk s' dev = nblk s dev" "dstart s' dev = dstart s dev" using s'(1) by (simp_all add: nblk_def dstart_def)
    have ge: "dstart s dev \<le> b" using b(1,2) assms by (meson fs_wf_def not_less)
    have fr: "fdisk s' k = fdisk s k" if "k \<notin> (\<lambda>x. (dev, of_nat x)) ` {bstart s dev..<dstart s dev}" for k
      using that bit_block_meta [OF b(1)] by (auto simp: s'_def)
    have mem3: "(dev, of_nat c :: u32) \<notin> (\<lambda>x. (dev, of_nat x)) ` {bstart s dev..<dstart s dev}"
      if "c < 2 ^ 32" "c < bstart s dev \<or> dstart s dev \<le> c" for c
    proof
      assume "(dev, of_nat c :: u32) \<in> (\<lambda>x. (dev, of_nat x)) ` {bstart s dev..<dstart s dev}"
      then obtain x where x: "bstart s dev \<le> x" "x < dstart s dev" "(of_nat c :: u32) = of_nat x" by auto
      have "x < 2 ^ 32" using x(2) ge b(1) nblk_lt [of s dev] by linarith
      then show False using x that of_nat_u32_eq_iff by auto
    qed
    have "fs_wf s' dev"
      unfolding fs_wf_def n
    proof (intro conjI allI impI)
      fix c assume c: "c < nblk s dev"
      show "used s' dev c" if "c < dstart s dev" using assms c that s'(2) by (auto simp: fs_wf_def)
      assume u: "\<not> used s' dev c"
      then have uc: "\<not> used s dev c" using s'(2) [OF c] by (auto split: if_splits)
      then have "dstart s dev \<le> c" using assms c by (meson fs_wf_def not_less)
      moreover have "c < 2 ^ 32" using c nblk_lt less_trans by blast
      ultimately have "fdisk s' (dev, of_nat c) = fdisk s (dev, of_nat c)" by (intro fr mem3) auto
      then show "fdisk s' (dev, of_nat c) = (\<lambda>_. 0)" using assms c uc by (simp add: fs_wf_def)
    next
      have "fdisk s' (dev, of_nat 0) = fdisk s (dev, of_nat 0)" by (intro fr mem3) (auto simp: bstart_def)
      then show "fdisk s' (dev, 0) = (\<lambda>_. 0)" using assms by (simp add: fs_wf_def)
    qed
    then show ?thesis
      using bl b ge s' fr by (intro disjI2 exI [of _ b] exI [of _ s']) (auto simp: s'_def)
  qed
qed

section \<open>Data blocks\<close>

definition data_block :: "fsys \<Rightarrow> u32 \<Rightarrow> u32 \<Rightarrow> bool" where
  "data_block s dev a \<longleftrightarrow> dstart s dev \<le> unat a \<and> unat a < nblk s dev \<and> used s dev (unat a)"

text \<open>
  The relation between two states of a well-formed disk in which blocks were allocated and blocks of
  \<open>X\<close> written: everything else that was in use is as before.
\<close>

definition ext :: "u32 \<Rightarrow> u32 set \<Rightarrow> fsys \<Rightarrow> fsys \<Rightarrow> bool" where
  "ext dev X s s' \<longleftrightarrow> readsb dev s' = readsb dev s \<and> fs_wf s' dev \<and>
     (\<forall>b < nblk s dev. used s dev b \<longrightarrow> used s' dev b) \<and>
     (\<forall>a. data_block s dev a \<longrightarrow> a \<notin> X \<longrightarrow> fdisk s' (dev, a) = fdisk s (dev, a)) \<and>
     (\<forall>a. unat a < bstart s dev \<longrightarrow> fdisk s' (dev, a) = fdisk s (dev, a)) \<and>
     (\<forall>k. fst k \<noteq> dev \<longrightarrow> fdisk s' k = fdisk s k)"

lemma ext_refl: "fs_wf s dev \<Longrightarrow> ext dev X s s"
  by (simp add: ext_def)

lemma ext_defs:
  assumes "ext dev X s s'"
  shows "nblk s' dev = nblk s dev" "dstart s' dev = dstart s dev" "bstart s' dev = bstart s dev"
  using assms by (simp_all add: ext_def nblk_def dstart_def bstart_def)

lemma ext_data_block: "ext dev X s s' \<Longrightarrow> data_block s dev a \<Longrightarrow> data_block s' dev a"
  using ext_defs [of dev X s s'] by (auto simp: data_block_def ext_def)

lemma ext_trans: "ext dev X s s' \<Longrightarrow> ext dev Y s' s'' \<Longrightarrow> ext dev (X \<union> Y) s s''"
  using ext_defs [of dev X s s'] ext_data_block [of dev X s s'] by (auto simp: ext_def)

lemma ext_mono: "ext dev X s s' \<Longrightarrow> X \<subseteq> Y \<Longrightarrow> ext dev Y s s'"
  by (auto simp: ext_def)

text \<open>Nothing here depends on the inode cache.\<close>

lemma disk_only [simp]:
  "readsb dev (s\<lparr>icache := c\<rparr>) = readsb dev s" "used (s\<lparr>icache := c\<rparr>) dev = used s dev"
  "nblk (s\<lparr>icache := c\<rparr>) dev = nblk s dev" "dstart (s\<lparr>icache := c\<rparr>) dev = dstart s dev"
  "bstart (s\<lparr>icache := c\<rparr>) dev = bstart s dev"
  "fs_wf (s\<lparr>icache := c\<rparr>) dev = fs_wf s dev" "data_block (s\<lparr>icache := c\<rparr>) dev = data_block s dev"
proof -
  show r: "readsb dev (s\<lparr>icache := c\<rparr>) = readsb dev s" by (simp add: readsb_def)
  then show n: "nblk (s\<lparr>icache := c\<rparr>) dev = nblk s dev" "dstart (s\<lparr>icache := c\<rparr>) dev = dstart s dev"
    "bstart (s\<lparr>icache := c\<rparr>) dev = bstart s dev" by (simp_all add: nblk_def dstart_def bstart_def)
  show u: "used (s\<lparr>icache := c\<rparr>) dev = used s dev" using r by (auto simp: used_def bit_block_def fun_eq_iff)
  show "fs_wf (s\<lparr>icache := c\<rparr>) dev = fs_wf s dev" using n u by (simp add: fs_wf_def)
  show "data_block (s\<lparr>icache := c\<rparr>) dev = data_block s dev" using n u by (auto simp: data_block_def fun_eq_iff)
qed

lemma ext_icache [simp]: "ext dev X s (s'\<lparr>icache := c\<rparr>) = ext dev X s s'" "ext dev X (s\<lparr>icache := c\<rparr>) s' = ext dev X s s'"
  by (simp_all add: ext_def)

lemma balloc_ext:
  assumes "fs_wf s dev" "balloc dev s = (a, s')"
  shows "ext dev {} s s'" "icache s' = icache s"
    "a = 0 \<and> s' = s \<and> (\<forall>c < nblk s dev. used s dev c) \<or>
     a \<noteq> 0 \<and> data_block s' dev a \<and> \<not> data_block s dev a \<and> fdisk s' (dev, a) = (\<lambda>_. 0)"
proof -
  have "ext dev {} s s' \<and> icache s' = icache s \<and> (a = 0 \<and> s' = s \<and> (\<forall>c < nblk s dev. used s dev c) \<or>
     a \<noteq> 0 \<and> data_block s' dev a \<and> \<not> data_block s dev a \<and> fdisk s' (dev, a) = (\<lambda>_. 0))"
    using balloc_ok [OF assms(1)]
  proof
    assume "(\<forall>c < nblk s dev. used s dev c) \<and> balloc dev s = (0, s)"
    then show ?thesis using assms by (auto intro: ext_refl)
  next
    assume "\<exists>b s'. balloc dev s = (of_nat b, s') \<and> dstart s dev \<le> b \<and> b < nblk s dev \<and> \<not> used s dev b \<and>
      (\<forall>c < b. used s dev c) \<and>
      readsb dev s' = readsb dev s \<and> (\<forall>c < nblk s dev. used s' dev c = (used s dev c \<or> c = b)) \<and>
      icache s' = icache s \<and> fs_wf s' dev \<and>
      (\<forall>k. k \<notin> (\<lambda>x. (dev, of_nat x)) ` {bstart s dev..<dstart s dev} \<longrightarrow> fdisk s' k = fdisk s k)"
    then obtain b where b: "a = of_nat b" "dstart s dev \<le> b" "b < nblk s dev" "\<not> used s dev b"
      "readsb dev s' = readsb dev s" "\<forall>c < nblk s dev. used s' dev c = (used s dev c \<or> c = b)"
      "icache s' = icache s" "fs_wf s' dev"
      "\<And>k. k \<notin> (\<lambda>x. (dev, of_nat x)) ` {bstart s dev..<dstart s dev} \<Longrightarrow> fdisk s' k = fdisk s k"
      using assms(2) by auto
    have n: "nblk s' dev = nblk s dev" "dstart s' dev = dstart s dev" using b(5) by (simp_all add: nblk_def dstart_def)
    have ub: "unat a = b" unfolding b(1) using b(3) nblk_lt less_trans by (intro unat_u32) blast
    have fr: "fdisk s' (dev, c) = fdisk s (dev, c)" if "unat c < bstart s dev \<or> dstart s dev \<le> unat c" for c
    proof (rule b(9))
      show "(dev, c) \<notin> (\<lambda>x. (dev, of_nat x)) ` {bstart s dev..<dstart s dev}"
      proof
        assume "(dev, c) \<in> (\<lambda>x. (dev, of_nat x)) ` {bstart s dev..<dstart s dev}"
        then obtain x where x: "bstart s dev \<le> x" "x < dstart s dev" "c = of_nat x" by auto
        have "x < 2 ^ 32" using x(2) b(2,3) nblk_lt [of s dev] by linarith
        then show False using x that unat_u32 by auto
      qed
    qed
    have o: "fdisk s' k = fdisk s k" if "fst k \<noteq> dev" for k using that by (intro b(9)) auto
    have z: "fdisk s' (dev, a) = (\<lambda>_. 0)"
      using fr [of a] b(1-4) ub assms(1) by (simp add: fs_wf_def)
    have d: "data_block s' dev a" "\<not> data_block s dev a" using b ub n by (auto simp: data_block_def)
    have "0 < b" using b(2) by (simp add: dstart_def)
    then have "a \<noteq> 0" using ub by auto
    moreover have "ext dev {} s s'"
      unfolding ext_def using b fr o n by (auto simp: data_block_def)
    ultimately show ?thesis using z d b(7) by blast
  qed
  then show "ext dev {} s s'" "icache s' = icache s"
    "a = 0 \<and> s' = s \<and> (\<forall>c < nblk s dev. used s dev c) \<or>
     a \<noteq> 0 \<and> data_block s' dev a \<and> \<not> data_block s dev a \<and> fdisk s' (dev, a) = (\<lambda>_. 0)" by blast+
qed

text \<open>Writing data blocks.\<close>

lemma ext_put_block:
  assumes "fs_wf s dev" "data_block s dev a"
  shows "ext dev {a} s (put_block dev a v s)"
proof -
  let ?s = "put_block dev a v s"
  have a: "dstart s dev \<le> unat a" "used s dev (unat a)" "unat a < nblk s dev" using assms(2) by (simp_all add: data_block_def)
  have m: "readsb dev ?s = readsb dev s" "\<And>b. b < nblk s dev \<Longrightarrow> used ?s dev b = used s dev b"
    using put_block_meta [OF a(1)] by (simp_all add: same_meta_def)
  then have n: "nblk ?s dev = nblk s dev" "dstart ?s dev = dstart s dev" by (simp_all add: nblk_def dstart_def)
  have "a \<noteq> 0" using a(1) by (auto simp: dstart_def)
  moreover have "of_nat b \<noteq> a" if "b < nblk s dev" "\<not> used s dev b" for b
  proof
    assume "of_nat b = a"
    then have "unat a = b" using that(1) nblk_lt less_trans unat_u32 by blast
    then show False using that(2) a(2) by simp
  qed
  ultimately have "fs_wf ?s dev" using assms(1) m n by (auto simp: fs_wf_def)
  moreover have "bstart s dev \<le> dstart s dev" by (simp add: bstart_def dstart_def)
  ultimately show ?thesis using m a(1) by (auto simp: ext_def)
qed

section \<open>The blocks of a file\<close>

text \<open>The address \<open>bmap\<close> finds for block \<open>bn\<close> of a file, 0 when there is none.\<close>

definition baddr :: "fsys \<Rightarrow> nat \<Rightarrow> nat \<Rightarrow> u32" where
  "baddr s ip bn = (let k = icache s ip in
     if bn < NDIRECT then iaddrs k bn
     else if iaddrs k NDIRECT = 0 then 0
     else ld32 (fdisk s (idev k, iaddrs k NDIRECT)) (4 * (bn - NDIRECT)))"

abbreviation indir :: "fsys \<Rightarrow> nat \<Rightarrow> u32" where "indir s ip \<equiv> iaddrs (icache s ip) NDIRECT"

definition file_wf :: "fsys \<Rightarrow> nat \<Rightarrow> bool" where
  "file_wf s ip \<longleftrightarrow> (let dev = idev (icache s ip) in
     (\<forall>bn < MAXFILE. baddr s ip bn \<noteq> 0 \<longrightarrow> data_block s dev (baddr s ip bn) \<and> baddr s ip bn \<noteq> indir s ip) \<and>
     (\<forall>i < MAXFILE. \<forall>j < MAXFILE. baddr s ip i \<noteq> 0 \<longrightarrow> baddr s ip i = baddr s ip j \<longrightarrow> i = j) \<and>
     (indir s ip \<noteq> 0 \<longrightarrow> data_block s dev (indir s ip)))"

lemma file_wfD:
  assumes "file_wf s ip" "bn < MAXFILE"
  shows "baddr s ip bn \<noteq> 0 \<Longrightarrow> data_block s (idev (icache s ip)) (baddr s ip bn)"
    "baddr s ip bn \<noteq> 0 \<Longrightarrow> baddr s ip bn \<noteq> indir s ip"
    "j < MAXFILE \<Longrightarrow> baddr s ip bn \<noteq> 0 \<Longrightarrow> baddr s ip bn = baddr s ip j \<Longrightarrow> bn = j"
    "indir s ip \<noteq> 0 \<Longrightarrow> data_block s (idev (icache s ip)) (indir s ip)"
  using assms unfolding file_wf_def Let_def by blast+

lemma file_wfI:
  assumes "\<And>bn. bn < MAXFILE \<Longrightarrow> baddr s ip bn \<noteq> 0 \<Longrightarrow>
      data_block s (idev (icache s ip)) (baddr s ip bn) \<and> baddr s ip bn \<noteq> indir s ip"
    and "\<And>i j. i < MAXFILE \<Longrightarrow> j < MAXFILE \<Longrightarrow> baddr s ip i \<noteq> 0 \<Longrightarrow> baddr s ip i = baddr s ip j \<Longrightarrow> i = j"
    and "indir s ip \<noteq> 0 \<Longrightarrow> data_block s (idev (icache s ip)) (indir s ip)"
  shows "file_wf s ip"
  unfolding file_wf_def Let_def using assms by blast

text \<open>A new block at one place of a file, all else as before.\<close>

lemma file_wf_new:
  assumes "file_wf s ip" "idev (icache s' ip) = idev (icache s ip)" "bn < MAXFILE"
    and "\<And>a. data_block s (idev (icache s ip)) a \<Longrightarrow> data_block s' (idev (icache s ip)) a"
    and "\<And>j. j < MAXFILE \<Longrightarrow> j \<noteq> bn \<Longrightarrow> baddr s' ip j = baddr s ip j" "indir s' ip = indir s ip"
    and "baddr s' ip bn \<noteq> 0 \<Longrightarrow> data_block s' (idev (icache s ip)) (baddr s' ip bn) \<and>
      \<not> data_block s (idev (icache s ip)) (baddr s' ip bn)"
  shows "file_wf s' ip"
proof (rule file_wfI)
  note D = file_wfD [OF assms(1)]
  fix i assume i: "i < MAXFILE" "baddr s' ip i \<noteq> 0"
  show "data_block s' (idev (icache s' ip)) (baddr s' ip i) \<and> baddr s' ip i \<noteq> indir s' ip"
  proof (cases "i = bn")
    case True
    then have n: "data_block s' (idev (icache s ip)) (baddr s' ip bn)" "\<not> data_block s (idev (icache s ip)) (baddr s' ip bn)"
      using assms(7) i by auto
    moreover have "baddr s' ip bn \<noteq> indir s ip" using n(2) D(4) [OF i(1)] i(2) True by metis
    ultimately show ?thesis using True assms(2,6) by simp
  next
    case False
    then show ?thesis using assms(2,4,5,6) D(1,2) [OF i(1)] i by metis
  qed
  show "i = j" if "j < MAXFILE" "baddr s' ip i = baddr s' ip j" for j
  proof -
    have x: "\<not> (baddr s' ip bn = baddr s' ip c \<and> baddr s' ip bn \<noteq> 0)" if "c < MAXFILE" "c \<noteq> bn" for c
      using assms(5,7) D(1) [OF that(1)] that by metis
    consider "i = bn" "j = bn" | "i = bn" "j \<noteq> bn" | "i \<noteq> bn" "j = bn" | "i \<noteq> bn" "j \<noteq> bn" by blast
    then show ?thesis
    proof cases
      case 2
      then show ?thesis using x [OF that(1)] i that by metis
    next
      case 3
      then show ?thesis using x [OF i(1)] i that by metis
    next
      case 4
      then show ?thesis using assms(5) D(3) [OF i(1) that(1)] i that by metis
    qed simp
  qed
next
  assume "indir s' ip \<noteq> 0"
  then show "data_block s' (idev (icache s' ip)) (indir s' ip)"
    using assms(2,4,6) file_wfD(4) [OF assms(1,3)] by metis
qed

text \<open>The fields of the inode other than its addresses.\<close>

definition same_inode :: "nat \<Rightarrow> fsys \<Rightarrow> fsys \<Rightarrow> bool" where
  "same_inode ip s s' \<longleftrightarrow> icache s' = (icache s)(ip := (icache s ip)\<lparr>iaddrs := iaddrs (icache s' ip)\<rparr>)"

lemma same_inodeD:
  assumes "same_inode ip s s'"
  shows "idev (icache s' ip) = idev (icache s ip)" "isize (icache s' ip) = isize (icache s ip)"
    "itype (icache s' ip) = itype (icache s ip)" "inum (icache s' ip) = inum (icache s ip)"
    "q \<noteq> ip \<Longrightarrow> icache s' q = icache s q"
proof -
  have e: "icache s' q = ((icache s)(ip := (icache s ip)\<lparr>iaddrs := iaddrs (icache s' ip)\<rparr>)) q" for q
    using assms unfolding same_inode_def by metis
  show "idev (icache s' ip) = idev (icache s ip)" "isize (icache s' ip) = isize (icache s ip)"
    "itype (icache s' ip) = itype (icache s ip)" "inum (icache s' ip) = inum (icache s ip)" using e [of ip] by (metis fun_upd_same inode.select_convs inode.surjective inode.update_convs(11))+
  show "q \<noteq> ip \<Longrightarrow> icache s' q = icache s q" using e [of q] by simp
qed

lemma same_inode_refl [simp]: "same_inode ip s s"
  by (simp add: same_inode_def)

lemma same_inode_trans: "same_inode ip s s' \<Longrightarrow> same_inode ip s' s'' \<Longrightarrow> same_inode ip s s''"
  unfolding same_inode_def by (metis (no_types, lifting) fun_upd_same fun_upd_upd inode.surjective inode.update_convs(11))

lemma same_inode_upd: "icache s' = icache s \<Longrightarrow> same_inode ip s (upd_inode ip (\<lambda>k. k\<lparr>iaddrs := f k\<rparr>) s')"
  by (simp add: same_inode_def)

lemma same_inode_icache: "icache s' = icache s \<Longrightarrow> same_inode ip s s'"
  by (simp add: same_inode_def)

lemma baddr_simps:
  "bn < NDIRECT \<Longrightarrow> baddr s ip bn = iaddrs (icache s ip) bn"
  "NDIRECT \<le> bn \<Longrightarrow> baddr s ip bn = (if indir s ip = 0 then 0
     else ld32 (fdisk s (idev (icache s ip), indir s ip)) (4 * (bn - NDIRECT)))"
  by (simp_all add: baddr_def Let_def)

lemma baddr_cong:
  assumes "icache s' ip = icache s ip" "indir s ip \<noteq> 0 \<Longrightarrow> fdisk s' (idev (icache s ip), indir s ip) = fdisk s (idev (icache s ip), indir s ip)"
  shows "baddr s' ip bn = baddr s ip bn"
  using assms by (auto simp: baddr_def Let_def)

text \<open>A file is well-formed after any change of the rest of the disk.\<close>

lemma file_wf_ext:
  assumes "file_wf s ip" "ext (idev (icache s ip)) X s s'" "icache s' ip = icache s ip" "indir s ip \<notin> X"
  shows "file_wf s' ip" "baddr s' ip bn = baddr s ip bn"
proof -
  have b: "baddr s' ip bn = baddr s ip bn" for bn
  proof (rule baddr_cong [OF assms(3)])
    assume "indir s ip \<noteq> 0"
    then have "data_block s (idev (icache s ip)) (indir s ip)" using file_wfD(4) [OF assms(1), of 0] by simp
    then show "fdisk s' (idev (icache s ip), indir s ip) = fdisk s (idev (icache s ip), indir s ip)"
      using assms(2,4) unfolding ext_def by blast
  qed
  then show "baddr s' ip bn = baddr s ip bn" .
  have d: "data_block s' (idev (icache s ip)) a" if "data_block s (idev (icache s ip)) a" for a
    by (rule ext_data_block [OF assms(2) that])
  show "file_wf s' ip"
  proof (rule file_wfI)
    fix i assume "i < MAXFILE" "baddr s' ip i \<noteq> 0"
    then show "data_block s' (idev (icache s' ip)) (baddr s' ip i) \<and> baddr s' ip i \<noteq> indir s' ip"
      using file_wfD(1,2) [OF assms(1)] d unfolding b assms(3) by blast
  next
    fix i j assume "i < MAXFILE" "j < MAXFILE" "baddr s' ip i \<noteq> 0" "baddr s' ip i = baddr s' ip j"
    then show "i = j" using file_wfD(3) [OF assms(1)] unfolding b by blast
  next
    assume "indir s' ip \<noteq> 0"
    then show "data_block s' (idev (icache s' ip)) (indir s' ip)"
      using file_wfD(4) [OF assms(1), of 0] d unfolding assms(3) by simp
  qed
qed

text \<open>What \<open>bmap\<close> promises about block \<open>bn\<close> of file \<open>ip\<close>.\<close>

definition bmap_post :: "u32 \<Rightarrow> nat \<Rightarrow> nat \<Rightarrow> fsys \<Rightarrow> u32 \<Rightarrow> fsys \<Rightarrow> bool" where
  "bmap_post dev ip bn s a s' \<longleftrightarrow> ext dev {indir s' ip} s s' \<and> same_inode ip s s' \<and> file_wf s' ip \<and>
     baddr s' ip bn = a \<and> (\<forall>j < MAXFILE. j \<noteq> bn \<longrightarrow> baddr s' ip j = baddr s ip j) \<and>
     (baddr s ip bn \<noteq> 0 \<longrightarrow> s' = s) \<and> (a = 0 \<longrightarrow> (\<forall>c < nblk s dev. used s' dev c)) \<and>
     (baddr s ip bn = 0 \<longrightarrow> a \<noteq> 0 \<longrightarrow> \<not> data_block s dev a) \<and>
     (indir s ip \<noteq> 0 \<longrightarrow> indir s' ip = indir s ip)"

lemma bmap_slot_direct:
  assumes "fs_wf s dev" "file_wf s ip" "dev = idev (icache s ip)" "i < NDIRECT" "bmap_slot ip i s = (a, s')"
  shows "bmap_post dev ip i s a s'"
proof (cases "iaddrs (icache s ip) i = 0")
  case False
  then show ?thesis
    using assms by (auto simp: bmap_slot_def bmap_post_def ext_refl baddr_simps)
next
  case True
  obtain s1 where b: "balloc dev s = (a, s1)" "s' = upd_inode ip (\<lambda>k. k\<lparr>iaddrs := (iaddrs k)(i := a)\<rparr>) s1"
    using True assms(3,5) by (cases "balloc dev s") (auto simp: bmap_slot_def)
  note e = balloc_ext [OF assms(1) b(1)]
  have ex: "ext dev {} s s'" using e(1) b(2) by simp
  have si: "same_inode ip s s'" unfolding b(2) by (rule same_inode_upd [OF e(2)])
  have ind: "indir s' ip = indir s ip" using b(2) e(2) assms(4) by simp
  have dv: "idev (icache s' ip) = dev" using same_inodeD(1) [OF si] assms(3) by simp
  have bi: "baddr s' ip i = a" using b(2) e(2) assms(4) by (simp add: baddr_simps)
  have fd: "indir s ip \<noteq> 0 \<Longrightarrow> fdisk s' (dev, indir s ip) = fdisk s (dev, indir s ip)"
    using file_wfD(4) [OF assms(2), of 0] ex assms(3) by (simp add: ext_def)
  have bj: "baddr s' ip j = baddr s ip j" if "j \<noteq> i" for j
  proof (cases "j < NDIRECT")
    case True
    then show ?thesis using that b(2) e(2) by (simp add: baddr_simps)
  next
    case False
    then show ?thesis using fd dv ind assms(3) by (simp add: baddr_simps)
  qed
  have "file_wf s' ip"
  proof (rule file_wf_new [OF assms(2), of s' i])
    show "idev (icache s' ip) = idev (icache s ip)" by (rule same_inodeD(1) [OF si])
    show "data_block s' (idev (icache s ip)) x" if "data_block s (idev (icache s ip)) x" for x
      using ext_data_block [OF ex] that assms(3) by simp
    show "data_block s' (idev (icache s ip)) (baddr s' ip i) \<and> \<not> data_block s (idev (icache s ip)) (baddr s' ip i)"
      if "baddr s' ip i \<noteq> 0" using that e(3) bi assms(3) b(2) by auto
  qed (use assms(4) bj ind in auto)
  moreover have "\<forall>c < nblk s dev. used s' dev c" if "a = 0" using e(3) that b(2) by simp
  moreover have "\<not> data_block s dev a" if "a \<noteq> 0" using e(3) that by blast
  ultimately show ?thesis
    using ex si bi bj True assms(4) ind ext_mono [of dev "{}" s s'] unfolding bmap_post_def by (simp add: baddr_simps)
qed

lemma bmap_slot_indir:
  assumes "fs_wf s dev" "file_wf s ip" "dev = idev (icache s ip)" "bmap_slot ip NDIRECT s = (a, s')"
  shows "ext dev {} s s'" "same_inode ip s s'" "file_wf s' ip" "indir s' ip = a" "baddr s' ip bn = baddr s ip bn"
    "indir s ip \<noteq> 0 \<Longrightarrow> s' = s" "a = 0 \<Longrightarrow> s' = s \<and> (\<forall>c < nblk s dev. used s dev c)"
    "indir s ip = 0 \<Longrightarrow> a \<noteq> 0 \<Longrightarrow> \<not> data_block s dev a"
proof -
  have "ext dev {} s s' \<and> same_inode ip s s' \<and> file_wf s' ip \<and> indir s' ip = a \<and> (\<forall>bn. baddr s' ip bn = baddr s ip bn) \<and>
    (indir s ip \<noteq> 0 \<longrightarrow> s' = s) \<and> (a = 0 \<longrightarrow> s' = s \<and> (\<forall>c < nblk s dev. used s dev c)) \<and>
    (indir s ip = 0 \<longrightarrow> a \<noteq> 0 \<longrightarrow> \<not> data_block s dev a)"
  proof (cases "indir s ip = 0")
    case False
    then show ?thesis using assms by (auto simp: bmap_slot_def ext_refl)
  next
    case True
    obtain s1 where b: "balloc dev s = (a, s1)" "s' = upd_inode ip (\<lambda>k. k\<lparr>iaddrs := (iaddrs k)(NDIRECT := a)\<rparr>) s1"
      using True assms(3,4) by (cases "balloc dev s") (auto simp: bmap_slot_def)
    note e = balloc_ext [OF assms(1) b(1)]
    have ex: "ext dev {} s s'" using e(1) b(2) by simp
    have si: "same_inode ip s s'" unfolding b(2) by (rule same_inode_upd [OF e(2)])
    have ind: "indir s' ip = a" using b(2) by simp
    have dv: "idev (icache s' ip) = dev" using same_inodeD(1) [OF si] assms(3) by simp
    have bj: "baddr s' ip j = baddr s ip j" for j
    proof (cases "j < NDIRECT")
      case True
      then show ?thesis using b(2) e(2) by (simp add: baddr_simps)
    next
      case False
      have "fdisk s' (dev, a) = (\<lambda>_. 0)" if "a \<noteq> 0" using e(3) b(2) that by auto
      then show ?thesis using False True dv ind by (simp add: baddr_simps)
    qed
    have d: "data_block s' dev x" if "data_block s dev x" for x using ext_data_block [OF ex that] .
    have n: "a \<noteq> 0 \<longrightarrow> data_block s' dev a \<and> \<not> data_block s dev a" using e(3) b(2) by auto
    have "file_wf s' ip"
    proof (rule file_wfI)
      fix i assume "i < MAXFILE" "baddr s' ip i \<noteq> 0"
      then show "data_block s' (idev (icache s' ip)) (baddr s' ip i) \<and> baddr s' ip i \<noteq> indir s' ip"
        using file_wfD(1) [OF assms(2)] d n assms(3) unfolding bj ind dv by metis
    next
      fix i j assume "i < MAXFILE" "j < MAXFILE" "baddr s' ip i \<noteq> 0" "baddr s' ip i = baddr s' ip j"
      then show "i = j" using file_wfD(3) [OF assms(2)] unfolding bj by blast
    next
      assume "indir s' ip \<noteq> 0"
      then show "data_block s' (idev (icache s' ip)) (indir s' ip)" using n unfolding ind dv by blast
    qed
    moreover have "s' = s" if "a = 0"
    proof -
      have "(icache s ip)\<lparr>iaddrs := (iaddrs (icache s ip))(NDIRECT := 0)\<rparr> = icache s ip"
        using True by (cases "icache s ip") (auto simp: fun_upd_idem)
      then show ?thesis using e(3) that b(2) by simp
    qed
    ultimately show ?thesis using ex si ind bj e(3) True by auto
  qed
  then show "ext dev {} s s'" "same_inode ip s s'" "file_wf s' ip" "indir s' ip = a" "baddr s' ip bn = baddr s ip bn"
    "indir s ip \<noteq> 0 \<Longrightarrow> s' = s" "a = 0 \<Longrightarrow> s' = s \<and> (\<forall>c < nblk s dev. used s dev c)"
    "indir s ip = 0 \<Longrightarrow> a \<noteq> 0 \<Longrightarrow> \<not> data_block s dev a" by blast+
qed

lemma st32_zero [simp]: "st32 (\<lambda>_. 0) a 0 = (\<lambda>_. 0)"
  by (auto simp: st32_def)

lemma bmap_entry_ok:
  assumes "fs_wf s dev" "file_wf s ip" "dev = idev (icache s ip)" "indir s ip \<noteq> 0" "j < NINDIRECT"
    and "bmap_entry dev (indir s ip) j s = (a, s')"
  shows "bmap_post dev ip (NDIRECT + j) s a s'"
proof (cases "ld32 (fdisk s (dev, indir s ip)) (4 * j) = 0")
  case False
  then show ?thesis
    using assms by (auto simp: bmap_entry_def bmap_post_def ext_refl baddr_simps)
next
  case True
  let ?ind = "indir s ip" and ?d = "fdisk s (dev, indir s ip)"
  obtain s1 where b: "balloc dev s = (a, s1)" "s' = put_block dev ?ind (st32 ?d (4 * j) a) s1"
    using True assms(6) by (cases "balloc dev s") (auto simp: bmap_entry_def Let_def)
  note e = balloc_ext [OF assms(1) b(1)]
  have di: "data_block s dev ?ind" using file_wfD(4) [OF assms(2), of 0] assms(3,4) by simp
  have di1: "data_block s1 dev ?ind" by (rule ext_data_block [OF e(1) di])
  have w1: "fs_wf s1 dev" using e(1) by (simp add: ext_def)
  have ep: "ext dev {?ind} s1 s'" unfolding b(2) by (rule ext_put_block [OF w1 di1])
  have ex: "ext dev {?ind} s s'" using ext_trans [OF e(1) ep] by simp
  have ic: "icache s' = icache s" using b(2) e(2) by simp
  have bi: "baddr s' ip (NDIRECT + j) = a" using ic assms(3,4) b(2) by (simp add: baddr_simps)
  have bj: "baddr s' ip i = baddr s ip i" if "i \<noteq> NDIRECT + j" for i
  proof (cases "i < NDIRECT")
    case True
    then show ?thesis using ic by (simp add: baddr_simps)
  next
    case False
    then obtain k where k: "i = NDIRECT + k" "k \<noteq> j" using \<open>i \<noteq> NDIRECT + j\<close> by (metis le_Suc_ex not_less)
    then have "ld32 (st32 ?d (4 * j) a) (4 * k) = ld32 ?d (4 * k)" by (intro ld_st_other_nat) auto
    then show ?thesis using k ic assms(3) b(2) by (simp add: baddr_simps)
  qed
  have "file_wf s' ip"
  proof (rule file_wf_new [OF assms(2), of s' "NDIRECT + j"])
    show "idev (icache s' ip) = idev (icache s ip)" using ic by simp
    show "data_block s' (idev (icache s ip)) x" if "data_block s (idev (icache s ip)) x" for x
      using ext_data_block [OF ex] that assms(3) by simp
    show "data_block s' (idev (icache s ip)) (baddr s' ip (NDIRECT + j)) \<and>
      \<not> data_block s (idev (icache s ip)) (baddr s' ip (NDIRECT + j))" if "baddr s' ip (NDIRECT + j) \<noteq> 0"
    proof -
      have "data_block s1 dev a" "\<not> data_block s dev a" using that e(3) bi by auto
      then show ?thesis using ext_data_block [OF ep] bi assms(3) by simp
    qed
  qed (use assms(5) bj ic in auto)
  moreover have "\<forall>c < nblk s dev. used s' dev c" if "a = 0"
    using e(3) that ep ext_defs(1) [OF ep] ext_defs(1) [OF e(1)] by (auto simp: ext_def)
  moreover have "\<not> data_block s dev a" if "a \<noteq> 0" using e(3) that by blast
  moreover have "baddr s ip (NDIRECT + j) = 0" using True assms(3) by (simp add: baddr_simps)
  ultimately show ?thesis
    using ex ic bi bj unfolding bmap_post_def by (simp add: same_inode_icache)
qed

lemma bmap_ok:
  assumes "fs_wf s dev" "file_wf s ip" "dev = idev (icache s ip)" "unat bn < MAXFILE"
  shows "\<exists>a s'. bmap ip bn s = Inr (a, s') \<and> bmap_post dev ip (unat bn) s a s'"
proof (cases "unat bn < NDIRECT")
  case True
  obtain a s' where "bmap_slot ip (unat bn) s = (a, s')" by fastforce
  then show ?thesis using bmap_slot_direct [OF assms(1-3) True] True by (simp add: bmap_def)
next
  case False
  define j where "j = unat bn - NDIRECT"
  have j: "j < NINDIRECT" "unat bn = NDIRECT + j" using False assms(4) by (auto simp: j_def)
  obtain i s1 where i: "bmap_slot ip NDIRECT s = (i, s1)" by fastforce
  obtain a s' where a: "bmap_entry dev i j s1 = (a, s')" by fastforce
  have e: "bmap ip bn s = Inr (a, s')" 
    unfolding bmap_def if_not_P [OF False] j_def [symmetric] if_P [OF j(1)] Let_def assms(3) [symmetric] i prod.case a ..
  note sl = bmap_slot_indir [OF assms(1-3) i]
  show ?thesis
  proof (cases "i = 0")
    case True
    have full: "s1 = s" "\<forall>c < nblk s dev. used s dev c" using sl(7) True by blast+
    have z: "fdisk s (dev, 0) = (\<lambda>_. 0)" using assms(1) by (simp add: fs_wf_def)
    have z4: "ld32 (fdisk s (dev, 0)) (4 * j) = 0" using z by simp
    have "bmap_entry dev 0 j s = (a, s')" using a True full(1) by simp
    moreover obtain x s2 where x: "balloc dev s = (x, s2)" by (rule prod.exhaust)
    ultimately have b: "balloc dev s = (a, s2)" "s' = put_block dev 0 (st32 (fdisk s (dev, 0)) (4 * j) a) s2"
      unfolding bmap_entry_def Let_def if_P [OF z4] x prod.case by auto
    have "a = 0 \<and> s2 = s"
    proof (rule ccontr)
      assume "\<not> (a = 0 \<and> s2 = s)"
      then have "data_block s2 dev a" "\<not> data_block s dev a" using balloc_ext(3) [OF assms(1) b(1)] by auto
      then show False using full ext_defs [OF balloc_ext(1) [OF assms(1) b(1)]] by (auto simp: data_block_def)
    qed
    then have "a = 0" "s' = s" using b(2) z by (auto simp: put_block_def fun_upd_idem)
    moreover have "indir s ip = 0" using sl(4) True full(1) by simp
    then have "baddr s ip (unat bn) = 0" using j(2) by (simp add: baddr_simps)
    ultimately show ?thesis
      using e full(2) assms(1,2) unfolding bmap_post_def by (auto intro: ext_refl)
  next
    case False
    have w1: "fs_wf s1 dev" using sl(1) by (simp add: ext_def)
    have d1: "dev = idev (icache s1 ip)" using same_inodeD(1) [OF sl(2)] assms(3) by simp
    have "bmap_post dev ip (NDIRECT + j) s1 a s'"
      using bmap_entry_ok [OF w1 sl(3) d1 _ j(1)] sl(4) False a by simp
    note p = this [unfolded bmap_post_def]
    have "ext dev ({} \<union> {indir s' ip}) s s'" by (rule ext_trans [OF sl(1)]) (use p in blast)
    then have "ext dev {indir s' ip} s s'" by simp
    moreover have "same_inode ip s s'" using same_inode_trans [OF sl(2)] p by blast
    moreover have "baddr s ip (unat bn) \<noteq> 0 \<Longrightarrow> s' = s"
    proof -
      assume nz: "baddr s ip (unat bn) \<noteq> 0"
      then have "indir s ip \<noteq> 0" using j(2) by (auto simp: baddr_simps)
      then have "s1 = s" by (rule sl(6))
      then show "s' = s" using p nz j(2) by simp
    qed
    moreover have "a \<noteq> 0 \<Longrightarrow> baddr s ip (unat bn) = 0 \<Longrightarrow> \<not> data_block s dev a"
      using p sl(5) j(2) ext_data_block [OF sl(1)] by metis
    moreover have "a = 0 \<Longrightarrow> \<forall>c < nblk s dev. used s' dev c" using p ext_defs(1) [OF sl(1)] by simp
    moreover have "baddr s' ip (unat bn) = a" "\<forall>k < MAXFILE. k \<noteq> unat bn \<longrightarrow> baddr s' ip k = baddr s ip k" "file_wf s' ip"
      using p sl(5) j(2) by simp_all
    moreover have "indir s ip \<noteq> 0 \<Longrightarrow> indir s' ip = indir s ip" using p sl(6) by metis
    ultimately show ?thesis using e unfolding bmap_post_def by blast
  qed
qed

section \<open>Reading and writing\<close>

definition fbyte :: "fsys \<Rightarrow> nat \<Rightarrow> nat \<Rightarrow> u8" where
  "fbyte s ip x = fdisk s (idev (icache s ip), baddr s ip (x div BSIZE)) (x mod BSIZE)"

text \<open>The numbers of one round of the loops.\<close>

lemma chunk_unat:
  fixes off left :: u32
  assumes "unat off + unat left \<le> MAXFILE * BSIZE"
  defines "m \<equiv> min left (512 - off mod 512)"
  shows "unat (off div 512) = unat off div BSIZE" "unat (off mod 512) = unat off mod BSIZE"
    "unat m = min (unat left) (BSIZE - unat off mod BSIZE)" "unat (off + m) = unat off + unat m"
    "unat (left - m) = unat left - unat m" "left \<noteq> 0 \<Longrightarrow> 0 < unat m" "unat m \<le> unat left"
proof -
  show d: "unat (off div 512) = unat off div BSIZE" "unat (off mod 512) = unat off mod BSIZE"
    by (simp_all add: unat_div_distrib unat_mod_distrib)
  have "unat (512 - off mod 512) = BSIZE - unat off mod BSIZE"
    using d(2) by (simp add: unat_sub word_le_nat_alt)
  then show m: "unat m = min (unat left) (BSIZE - unat off mod BSIZE)"
    by (auto simp: m_def min_def word_le_nat_alt)
  then show le: "unat m \<le> unat left" by simp
  show "unat (off + m) = unat off + unat m" using le assms(1) by (intro unat_add_lt) simp
  show "unat (left - m) = unat left - unat m" using le by (simp add: unat_sub word_le_nat_alt)
  show "0 < unat m" if "left \<noteq> 0"
  proof -
    have "0 < unat left" using that by (simp add: unat_gt_0)
    moreover have "0 < BSIZE - unat off mod BSIZE" by simp
    ultimately show ?thesis unfolding m by simp
  qed
qed

lemma block_offset:
  fixes q :: nat
  assumes "q mod n + i < n"
  shows "(q + i) div n = q div n" "(q + i) mod n = q mod n + i"
proof -
  have e: "q + i = n * (q div n) + (q mod n + i)" by simp
  have l: "n * (q div n) \<le> q + i" using e by linarith
  have u: "q + i < n * Suc (q div n)" unfolding mult_Suc_right using assms e by linarith
  show d: "(q + i) div n = q div n" by (rule div_nat_eqI [OF l u])
  show "(q + i) mod n = q mod n + i" 
    unfolding modulo_nat_def [of "q + i"] d using e by (simp only: mult.commute)
qed

lemma readi_loop_ok:
  assumes "fs_wf s (idev (icache s ip))" "file_wf s ip" "unat off + unat left \<le> MAXFILE * BSIZE"
    and "\<And>x. unat off \<le> x \<Longrightarrow> x < unat off + unat left \<Longrightarrow> baddr s ip (x div BSIZE) \<noteq> 0"
  shows "readi_loop ip off left s = Inr (map (fbyte s ip) [unat off..<unat off + unat left], s)"
  using assms(3,4)
proof (induction "unat left" arbitrary: off left rule: less_induct)
  case less
  show ?case
  proof (cases "left = 0")
    case True
    then show ?thesis by (simp add: readi_loop.simps)
  next
    case False
    define m where "m = min left (512 - off mod 512)"
    note c = chunk_unat [OF less.prems(1), folded m_def]
    have pos: "0 < unat left" using False by (simp add: unat_gt_0)
    have bn: "unat (off div 512) < MAXFILE" using c(1) less.prems(1) pos by (simp add: less_mult_imp_div_less)
    have nz: "baddr s ip (unat off div BSIZE) \<noteq> 0" using less.prems(2) [of "unat off"] pos by simp
    obtain a s' where "bmap ip (off div 512) s = Inr (a, s')"
      "bmap_post (idev (icache s ip)) ip (unat (off div 512)) s a s'"
      using bmap_ok [OF assms(1,2) refl bn] by blast
    then have b: "bmap ip (off div 512) s = Inr (baddr s ip (unat off div BSIZE), s)"
      using nz unfolding bmap_post_def c(1) by metis
    have lt: "unat (left - m) < unat left" using c(5,6) False pos by simp
    have su: "unat off + unat m + unat (left - m) = unat off + unat left" using c(5,7) by simp
    have IH: "readi_loop ip (off + m) (left - m) s =
        Inr (map (fbyte s ip) [unat off + unat m..<unat off + unat left], s)"
      by (rule less.hyps [OF lt, of "off + m", unfolded c(4) su])
        (use less.prems in auto)
    have bs: "map (\<lambda>i. fdisk s (idev (icache s ip), baddr s ip (unat off div BSIZE)) (unat (off mod 512) + i)) [0..<unat m] =
        map (fbyte s ip) [unat off..<unat off + unat m]"
    proof (rule nth_equalityI)
      fix i assume "i < length (map (\<lambda>i. fdisk s (idev (icache s ip), baddr s ip (unat off div BSIZE)) (unat (off mod 512) + i)) [0..<unat m])"
      then have i: "i < unat m" by simp
      have "unat off mod BSIZE + i < BSIZE" using i c(3) by linarith
      note block_offset [OF this]
      then show "map (\<lambda>i. fdisk s (idev (icache s ip), baddr s ip (unat off div BSIZE)) (unat (off mod 512) + i)) [0..<unat m] ! i =
          map (fbyte s ip) [unat off..<unat off + unat m] ! i"
        using i c(2) by (simp add: fbyte_def)
    qed simp
    have sp: "[unat off..<unat off + unat left] = [unat off..<unat off + unat m] @ [unat off + unat m..<unat off + unat left]"
      using upt_add_eq_append [of "unat off" "unat off + unat m" "unat (left - m)"] su by simp
    show ?thesis
      by (subst readi_loop.simps)
        (simp add: False b nz m_def [symmetric] IH bs sp Let_def)
  qed
qed


definition fblocks :: "fsys \<Rightarrow> nat \<Rightarrow> u32 set" where
  "fblocks s ip = insert 0 (insert (indir s ip) (baddr s ip ` {..<MAXFILE}))"

definition mapped :: "fsys \<Rightarrow> nat \<Rightarrow> nat \<Rightarrow> bool" where
  "mapped s ip x \<longleftrightarrow> baddr s ip (x div BSIZE) \<noteq> 0"

text \<open>
  What writing \<open>w\<close> bytes at \<open>off\<close> does to a file: it stays well-formed, keeps its blocks, holds the
  new bytes there and its old bytes elsewhere, and everything outside the file is as before.
\<close>

definition wrote :: "nat \<Rightarrow> cptr \<Rightarrow> nat \<Rightarrow> nat \<Rightarrow> fsys \<Rightarrow> fsys \<Rightarrow> bool" where
  "wrote ip src off w s s' \<longleftrightarrow> ext (idev (icache s ip)) (fblocks s' ip) s s' \<and> same_inode ip s s' \<and> file_wf s' ip \<and>
     (\<forall>bn < MAXFILE. baddr s ip bn \<noteq> 0 \<longrightarrow> baddr s' ip bn = baddr s ip bn) \<and>
     (indir s ip \<noteq> 0 \<longrightarrow> indir s' ip = indir s ip) \<and>
     (\<forall>x. off \<le> x \<longrightarrow> x < off + w \<longrightarrow> mapped s' ip x \<and> fbyte s' ip x = src (x - off)) \<and>
     (\<forall>x < MAXFILE * BSIZE. x < off \<or> off + w \<le> x \<longrightarrow> mapped s ip x \<longrightarrow> fbyte s' ip x = fbyte s ip x)"

lemma wrote_refl: "fs_wf s (idev (icache s ip)) \<Longrightarrow> file_wf s ip \<Longrightarrow> wrote ip src off 0 s s"
  by (simp add: wrote_def ext_refl)

lemma fblocks_mono:
  assumes "\<forall>bn < MAXFILE. baddr s ip bn \<noteq> 0 \<longrightarrow> baddr s' ip bn = baddr s ip bn" "indir s ip \<noteq> 0 \<longrightarrow> indir s' ip = indir s ip"
  shows "fblocks s ip \<subseteq> fblocks s' ip"
proof
  fix a assume "a \<in> fblocks s ip"
  then consider "a = 0" | "a \<noteq> 0" "a = indir s ip" | bn where "a \<noteq> 0" "bn < MAXFILE" "a = baddr s ip bn"
    by (auto simp: fblocks_def)
  then show "a \<in> fblocks s' ip"
  proof cases
    case 3
    then have "a = baddr s' ip bn" using assms(1) by simp
    then show ?thesis using 3(2) by (simp add: fblocks_def)
  qed (use assms(2) in \<open>simp_all add: fblocks_def\<close>)
qed

lemma wrote_trans:
  assumes "wrote ip src off w s s1" "wrote ip (\<lambda>i. src (i + w)) (off + w) v s1 s2" "off + w + v \<le> MAXFILE * BSIZE"
  shows "wrote ip src off (w + v) s s2"
proof -
  note a = assms(1) [unfolded wrote_def] and b = assms(2) [unfolded wrote_def]
  have dv: "idev (icache s1 ip) = idev (icache s ip)" using a same_inodeD(1) by blast
  have mono: "fblocks s1 ip \<subseteq> fblocks s2 ip" by (rule fblocks_mono) (use b in blast)+
  have "ext (idev (icache s ip)) (fblocks s1 ip \<union> fblocks s2 ip) s s2"
    by (rule ext_trans [where s' = s1]) (use a b dv in auto)
  then have e: "ext (idev (icache s ip)) (fblocks s2 ip) s s2" using mono by (simp add: Un_absorb1)
  have keep: "baddr s2 ip bn = baddr s ip bn" if "bn < MAXFILE" "baddr s ip bn \<noteq> 0" for bn
  proof -
    have "baddr s1 ip bn = baddr s ip bn" using a that by blast
    moreover from this have "baddr s2 ip bn = baddr s1 ip bn" using b that by metis
    ultimately show ?thesis by simp
  qed
  have ind: "indir s2 ip = indir s ip" if "indir s ip \<noteq> 0" using a b that by metis
  have m1: "mapped s1 ip x" if "x < MAXFILE * BSIZE" "mapped s ip x" for x
  proof -
    have "x div BSIZE < MAXFILE" using that(1) by (simp add: less_mult_imp_div_less)
    then show ?thesis using a that(2) unfolding mapped_def by metis
  qed
  have m2: "mapped s2 ip x" if "x < MAXFILE * BSIZE" "mapped s1 ip x" for x
  proof -
    have "x div BSIZE < MAXFILE" using that(1) by (simp add: less_mult_imp_div_less)
    then show ?thesis using b that(2) unfolding mapped_def by metis
  qed
  have new: "mapped s2 ip x \<and> fbyte s2 ip x = src (x - off)" if x: "off \<le> x" "x < off + (w + v)" for x
  proof (cases "x < off + w")
    case True
    then have "mapped s1 ip x" "fbyte s1 ip x = src (x - off)" using a x(1) by blast+
    moreover have "x < MAXFILE * BSIZE" using True assms(3) by simp
    ultimately show ?thesis using b True m2 by metis
  next
    case False
    have "off + w \<le> x" "x < off + w + v" using False x(2) by simp_all
    then have "mapped s2 ip x" "fbyte s2 ip x = src (x - (off + w) + w)" using b by blast+
    then show ?thesis using False by simp
  qed
  have old: "fbyte s2 ip x = fbyte s ip x" if x: "x < MAXFILE * BSIZE" "x < off \<or> off + (w + v) \<le> x" "mapped s ip x" for x
  proof -
    have "x < off \<or> off + w \<le> x" "x < off + w \<or> off + w + v \<le> x" using x(2) by auto
    then have "fbyte s1 ip x = fbyte s ip x" "fbyte s2 ip x = fbyte s1 ip x" using a b x(1,3) m1 [OF x(1,3)] by blast+
    then show ?thesis by simp
  qed
  have si: "same_inode ip s s2" using a b same_inode_trans by blast
  have fw: "file_wf s2 ip" using b by blast
  show ?thesis unfolding wrote_def using e si fw keep ind new old by blast
qed

lemma wrote_bmap:
  assumes "bmap_post (idev (icache s ip)) ip bn s a s'" "file_wf s ip"
  shows "wrote ip src off 0 s s'"
proof -
  let ?dev = "idev (icache s ip)"
  note p = assms(1) [unfolded bmap_post_def]
  have dv: "idev (icache s' ip) = ?dev" using p same_inodeD(1) by blast
  have keep: "baddr s' ip i = baddr s ip i" if "i < MAXFILE" "baddr s ip i \<noteq> 0" for i
    using p that by metis
  have "ext ?dev {indir s' ip} s s'" using p by blast
  moreover have "{indir s' ip} \<subseteq> fblocks s' ip" by (simp add: fblocks_def)
  ultimately have e: "ext ?dev (fblocks s' ip) s s'" by (rule ext_mono)
  have old: "fbyte s' ip x = fbyte s ip x" if x: "x < MAXFILE * BSIZE" "mapped s ip x" for x
  proof -
    have b: "x div BSIZE < MAXFILE" using x(1) by (simp add: less_mult_imp_div_less)
    have nz: "baddr s ip (x div BSIZE) \<noteq> 0" using x(2) by (simp add: mapped_def)
    have "file_wf s' ip" using p by blast
    then have "baddr s ip (x div BSIZE) \<noteq> indir s' ip" using file_wfD(2) keep b nz by metis
    moreover have "data_block s ?dev (baddr s ip (x div BSIZE))" by (rule file_wfD(1) [OF assms(2) b nz])
    ultimately have "fdisk s' (?dev, baddr s ip (x div BSIZE)) = fdisk s (?dev, baddr s ip (x div BSIZE))"
      using p unfolding ext_def by blast
    then show ?thesis using keep [OF b nz] dv by (simp add: fbyte_def)
  qed
  have "same_inode ip s s'" "file_wf s' ip" "indir s ip \<noteq> 0 \<longrightarrow> indir s' ip = indir s ip" using p by blast+
  then show ?thesis unfolding wrote_def using e keep old by simp
qed

lemma wrote_block:
  assumes "fs_wf s (idev (icache s ip))" "file_wf s ip" "off div BSIZE < MAXFILE"
    and "baddr s ip (off div BSIZE) \<noteq> 0" "off mod BSIZE + m \<le> BSIZE"
  shows "wrote ip src off m s (put_block (idev (icache s ip)) (baddr s ip (off div BSIZE))
      (\<lambda>j. if off mod BSIZE \<le> j \<and> j < off mod BSIZE + m then src (j - off mod BSIZE)
        else fdisk s (idev (icache s ip), baddr s ip (off div BSIZE)) j) s)"
    (is "wrote ip src off m s ?s")
proof -
  let ?dev = "idev (icache s ip)" and ?bn = "off div BSIZE"
  let ?a = "baddr s ip ?bn"
  have e: "ext ?dev {?a} s ?s" by (rule ext_put_block [OF assms(1) file_wfD(1) [OF assms(2,3,4)]])
  have ic: "icache ?s = icache s" by (simp add: put_block_def)
  have ni: "indir s ip \<notin> {?a}" using file_wfD(2) [OF assms(2,3,4)] by simp
  note fe = file_wf_ext [OF assms(2) e _ ni]
  have fw: "file_wf ?s ip" by (rule fe(1)) (simp add: ic)
  have b: "baddr ?s ip i = baddr s ip i" for i by (rule fe(2)) (simp add: ic)
  have "{?a} \<subseteq> fblocks ?s ip" using assms(3) by (simp add: fblocks_def b)
  with e have e': "ext ?dev (fblocks ?s ip) s ?s" by (rule ext_mono)
  have inn: "mapped ?s ip x \<and> fbyte ?s ip x = src (x - off)" if x: "off \<le> x" "x < off + m" for x
  proof -
    obtain i where i: "x = off + i" "i < m" using x by (metis le_Suc_ex nat_add_left_cancel_less)
    have lt: "off mod BSIZE + i < BSIZE" using i(2) assms(5) by linarith
    have d: "x div BSIZE = ?bn" "x mod BSIZE = off mod BSIZE + i"
      using block_offset [OF lt] unfolding i(1) by auto
    have "fbyte ?s ip x = src i" unfolding fbyte_def b d ic using i(2) by simp
    moreover have "mapped ?s ip x" unfolding mapped_def b d by (rule assms(4))
    ultimately show ?thesis using i(1) by simp
  qed
  have out: "fbyte ?s ip x = fbyte s ip x" if x: "x < MAXFILE * BSIZE" "x < off \<or> off + m \<le> x" "mapped s ip x" for x
  proof (cases "x div BSIZE = ?bn")
    case True
    have "\<not> (off mod BSIZE \<le> x mod BSIZE \<and> x mod BSIZE < off mod BSIZE + m)"
    proof
      assume c: "off mod BSIZE \<le> x mod BSIZE \<and> x mod BSIZE < off mod BSIZE + m"
      have "x = BSIZE * ?bn + x mod BSIZE" "off = BSIZE * ?bn + off mod BSIZE" using True by (metis mult_div_mod_eq)+
      then show False using c x(2) by linarith
    qed
    then show ?thesis unfolding fbyte_def b ic True by auto
  next
    case False
    have "x div BSIZE < MAXFILE" using x(1) by (simp add: less_mult_imp_div_less)
    then have "baddr s ip (x div BSIZE) \<noteq> ?a" using file_wfD(3) [OF assms(2) _ assms(3)] False x(3) unfolding mapped_def by metis
    then show ?thesis unfolding fbyte_def b ic by simp
  qed
  show ?thesis unfolding wrote_def using e' fw b inn out ic by (simp add: same_inode_icache)
qed

lemma writei_loop_ok:
  assumes "fs_wf s (idev (icache s ip))" "file_wf s ip" "unat off + unat left \<le> MAXFILE * BSIZE"
  shows "\<exists>w s'. writei_loop ip src off tot left s = Inr (tot + of_nat w, off + of_nat w, s') \<and> w \<le> unat left \<and>
    wrote ip src (unat off) w s s' \<and>
    (w < unat left \<longrightarrow> (\<forall>c < nblk s (idev (icache s ip)). used s' (idev (icache s ip)) c))"
  using assms
proof (induction "unat left" arbitrary: src off tot left s rule: less_induct)
  case less
  let ?dev = "idev (icache s ip)"
  show ?case
  proof (cases "left = 0")
    case True
    then show ?thesis using wrote_refl [OF less.prems(1,2)] by (intro exI [of _ 0] exI [of _ s]) (simp add: writei_loop.simps)
  next
    case False
    define m where "m = min left (512 - off mod 512)"
    note c = chunk_unat [OF less.prems(3), folded m_def]
    have pos: "0 < unat left" using False by (simp add: unat_gt_0)
    have bn: "unat (off div 512) < MAXFILE" using c(1) less.prems(3) pos by (simp add: less_mult_imp_div_less)
    obtain a s1 where b: "bmap ip (off div 512) s = Inr (a, s1)" "bmap_post ?dev ip (unat (off div 512)) s a s1"
      using bmap_ok [OF less.prems(1,2) refl bn] by blast
    have w1: "wrote ip src (unat off) 0 s s1" by (rule wrote_bmap [OF b(2) less.prems(2)])
    have d1: "idev (icache s1 ip) = ?dev" using w1 same_inodeD(1) unfolding wrote_def by blast
    have f1: "fs_wf s1 ?dev" "file_wf s1 ip" using w1 unfolding wrote_def ext_def by blast+
    have n1: "nblk s1 ?dev = nblk s ?dev" using w1 ext_defs(1) unfolding wrote_def by blast
    show ?thesis
    proof (cases "a = 0")
      case True
      then have "writei_loop ip src off tot left s = Inr (tot, off, s1)"
        using False b(1) by (subst writei_loop.simps) simp
      moreover have "\<forall>c < nblk s ?dev. used s1 ?dev c" using b(2) True unfolding bmap_post_def by blast
      ultimately show ?thesis using w1 by (intro exI [of _ 0] exI [of _ s1]) simp
    next
      case False
      have ba: "baddr s1 ip (unat off div BSIZE) = a" using b(2) c(1) unfolding bmap_post_def by simp
      have le: "unat off mod BSIZE + unat m \<le> BSIZE"
        using c(3) mod_less_divisor [of BSIZE "unat off"] by simp
      define s2 where "s2 = put_block (idev (icache s1 ip)) a
        (\<lambda>j. if unat (off mod 512) \<le> j \<and> j < unat (off mod 512) + unat m then src (j - unat (off mod 512))
          else fdisk s1 (idev (icache s1 ip), a) j) s1"
      have w2: "wrote ip src (unat off) (unat m) s1 s2"
        unfolding s2_def c(2) d1
        by (rule wrote_block [of s1 ip "unat off" "unat m" src, unfolded d1 ba, OF f1 bn [unfolded c(1)] False le])
      have w2': "wrote ip (\<lambda>i. src (i + 0)) (unat off + 0) (unat m) s1 s2" using w2 by simp
      have tl: "unat off + unat m \<le> MAXFILE * BSIZE" using c(7) less.prems(3) by linarith
      have w02: "wrote ip src (unat off) (unat m) s s2"
        using wrote_trans [OF w1 w2'] tl by simp
      have d2: "idev (icache s2 ip) = ?dev" using w02 same_inodeD(1) unfolding wrote_def by blast
      have f2: "fs_wf s2 (idev (icache s2 ip))" "file_wf s2 ip" unfolding d2 using w02 unfolding wrote_def ext_def by blast+
      have n2: "nblk s2 ?dev = nblk s ?dev" using w02 ext_defs(1) unfolding wrote_def by blast
      have lt: "unat (left - m) < unat left" using c(5,6) \<open>left \<noteq> 0\<close> pos by simp
      have b2: "unat (off + m) + unat (left - m) \<le> MAXFILE * BSIZE" using c(4,5,7) less.prems(3) by linarith
      obtain w s' where i: "writei_loop ip (\<lambda>i. src (i + unat m)) (off + m) (tot + m) (left - m) s2
            = Inr (tot + m + of_nat w, off + m + of_nat w, s')" "w \<le> unat (left - m)"
          "wrote ip (\<lambda>i. src (i + unat m)) (unat (off + m)) w s2 s'"
          "w < unat (left - m) \<longrightarrow> (\<forall>c < nblk s2 ?dev. used s' ?dev c)"
        using less.hyps [OF lt f2 b2, of "\<lambda>i. src (i + unat m)" "tot + m", unfolded d2] by blast
      have "writei_loop ip src off tot left s = Inr (tot + m + of_nat w, off + m + of_nat w, s')"
        using \<open>left \<noteq> 0\<close> b(1) False i(1)
        by (subst writei_loop.simps) (simp add: Let_def m_def [symmetric] s2_def [symmetric])
      moreover have "wrote ip src (unat off) (unat m + w) s s'"
        by (rule wrote_trans [OF w02]) (use i(2,3) c(4,5,7) less.prems(3) in \<open>simp_all\<close>)
      moreover have "unat m + w \<le> unat left" using i(2) c(5,7) by linarith
      moreover have "unat m + w < unat left \<longrightarrow> (\<forall>c < nblk s ?dev. used s' ?dev c)"
        using i(4) n2 c(5,7) by (metis less_diff_conv add.commute)
      ultimately show ?thesis by (intro exI [of _ "unat m + w"] exI [of _ s']) (simp add: add.assoc)
    qed
  qed
qed

end
