(* ===== verification/Contents.thy ===== *)
theory Contents imports Bitmap begin

text \<open>
  kernel/fs.c, what the operations of theory Fs promise together, over the invariants of theory Bitmap:
  allocation and freeing of blocks, inodes on disk and in the cache, and the contents of a file.
\<close>

section \<open>Freeing a block\<close>

lemma balloc_form:
  assumes "b0 < nblk s dev" "\<not> used s dev b0"
  shows "\<exists>b < nblk s dev. \<not> used s dev b \<and> (\<forall>c < b. used s dev c) \<and>
      balloc dev s = (of_nat b, let sec = of_nat (bit_block s dev b); d = fdisk s (dev, sec); bi = b mod BPB
          in put_block dev sec (d(bi div 8 := d (bi div 8) OR bmask bi)) s)"
proof -
  have n: "\<not> (\<forall>c < nblk s dev. used s dev c)" using assms by blast
  have e: "balloc dev s = balloc_from dev (readsb dev s) (map (\<lambda>i. BPB * i) [0..<(nblk s dev + (BPB - 1)) div BPB]) s"
    by (simp add: balloc_def Let_def nblk_def)
  have "if \<forall>c < nblk s dev. used s dev c then balloc dev s = (0, s)
    else \<exists>b < nblk s dev. \<not> used s dev b \<and> (\<forall>c < b. used s dev c) \<and>
      balloc dev s = (of_nat b, let sec = of_nat (bit_block s dev b); d = fdisk s (dev, sec); bi = b mod BPB
          in put_block dev sec (d(bi div 8 := d (bi div 8) OR bmask bi)) s)"
    unfolding e by (rule balloc_from_ok) simp_all
  then show ?thesis unfolding if_not_P [OF n] .
qed

lemma bfree_sector: "BBLOCK b (sb_ninodes (readsb dev s)) = of_nat (bit_block s dev (unat b))"
  using BBLOCK_eq [OF unat_lt32, of b dev s] by simp

text \<open>\<open>bfree\<close> of a data block.\<close>

lemma bfree_form:
  assumes "dstart s dev \<le> unat b" "unat b < nblk s dev"
  shows "bfree dev b s = (let sec = of_nat (bit_block s dev (unat b)); d = fdisk s (dev, sec); bi = unat b mod BPB in
    if used s dev (unat b) then Inr (put_block dev sec (d(bi div 8 := d (bi div 8) AND NOT (bmask bi))) (bzero dev b s))
    else Inl (Panic ''freeing free block''))"
proof -
  let ?s = "bzero dev b s"
  have m: "same_meta s ?s dev" unfolding bzero_def by (rule put_block_meta [OF assms(1)])
  then have r: "readsb dev ?s = readsb dev s" by (simp add: same_meta_def)
  have bb: "bit_block ?s dev = bit_block s dev" by (rule same_meta_defs(3) [OF m])
  have u: "used ?s dev (unat b) = used s dev (unat b)" using m assms(2) by (simp add: same_meta_def)
  have ne: "(of_nat (bit_block s dev (unat b)) :: u32) \<noteq> b"
  proof
    assume e: "of_nat (bit_block s dev (unat b)) = b"
    have "bit_block s dev (unat b) = unat (of_nat (bit_block s dev (unat b)) :: u32)"
      by (rule unat_u32 [OF bit_block_lt [OF unat_lt32], symmetric])
    then show False using bit_block_meta [OF assms(2)] assms(1) e by simp
  qed
  have d: "fdisk ?s (dev, of_nat (bit_block s dev (unat b))) = fdisk s (dev, of_nat (bit_block s dev (unat b)))"
    using ne by (simp add: bzero_def)
  have sec: "BBLOCK b (sb_ninodes (readsb dev ?s)) = of_nat (bit_block s dev (unat b))"
    unfolding bfree_sector bb ..
  show ?thesis
    unfolding bfree_def Let_def sec d using u [unfolded used_def bb d] unfolding used_def by simp
qed

lemma or_and_not_id:
  fixes x m :: "u8" shows "x AND m = 0 \<Longrightarrow> (x OR m) AND NOT m = x"
proof (rule bit_word_eqI)
  fix n assume z: "x AND m = 0" and n: "n < LENGTH(8)"
  have "\<not> bit (x AND m) n" unfolding z by simp
  then show "bit ((x OR m) AND NOT m) n = bit x n" using n by (auto simp: bit_simps)
qed

section \<open>Inodes on disk\<close>

lemma store_addrs_other: "b < a \<or> a + 4 * length vs \<le> b \<Longrightarrow> store_addrs d a vs b = d b"
  by (induction d a vs rule: store_addrs.induct) (auto simp: st_other_nat)

lemma ld_store_addrs_below:
  "b + 4 \<le> a \<Longrightarrow> ld32 (store_addrs d a vs) b = ld32 d b" "b + 2 \<le> a \<Longrightarrow> ld16 (store_addrs d a vs) b = ld16 d b"
  by (auto simp: ld32_def ld16_def store_addrs_other)

lemma ld_store_addrs: "i < length vs \<Longrightarrow> ld32 (store_addrs d a vs) (a + 4 * i) = vs ! i"
proof (induction d a vs arbitrary: i rule: store_addrs.induct)
  case (2 d a v vs)
  show ?case
  proof (cases i)
    case 0
    have "ld32 (store_addrs (st32 d a v) (a + 4) vs) a = ld32 (st32 d a v) a" by (rule ld_store_addrs_below) simp
    then show ?thesis using 0 by simp
  next
    case (Suc j)
    then have "ld32 (store_addrs (st32 d a v) (a + 4) vs) (a + 4 + 4 * j) = vs ! j" using 2 by simp
    then show ?thesis using Suc by (simp add: algebra_simps)
  qed
qed simp

lemma store_dinode_other: "b < o1 \<or> o1 + 64 \<le> b \<Longrightarrow> store_dinode d o1 k b = d b"
  by (auto simp: store_dinode_def Let_def store_addrs_other st_other_nat)

lemma load_store_dinode:
  "load_dinode (store_dinode d o1 k) o1 q = q\<lparr>itype := itype k, imajor := imajor k, iminor := iminor k,
     inlink := inlink k, isize := isize k, iaddrs := (\<lambda>i. if i \<le> NDIRECT then iaddrs k i else iaddrs q i)\<rparr>"
proof -
  let ?d = "store_dinode d o1 k" and ?vs = "map (iaddrs k) [0..<Suc NDIRECT]"
  have "ld16 ?d o1 = itype k" "ld16 ?d (o1 + 2) = imajor k" "ld16 ?d (o1 + 4) = iminor k"
    "ld16 ?d (o1 + 6) = inlink k" "ld32 ?d (o1 + 8) = isize k"
    unfolding store_dinode_def Let_def by (simp_all add: ld_store_addrs_below ld_st_other_nat del: upt_Suc)
  moreover have "ld32 ?d (o1 + 12 + 4 * i) = iaddrs k i" if "i \<le> NDIRECT" for i
  proof -
    have i: "i < length ?vs" "i < Suc NDIRECT" using that by (simp_all del: upt_Suc)
    have "ld32 ?d (o1 + 12 + 4 * i) = ?vs ! i" unfolding store_dinode_def Let_def by (rule ld_store_addrs [OF i(1)])
    also have "\<dots> = iaddrs k i" using i(2) by (simp del: upt_Suc)
    finally show ?thesis .
  qed
  ultimately show ?thesis by (simp add: load_dinode_def cong: if_cong)
qed

lemma load_dinode_cong:
  assumes "\<And>b. o1 \<le> b \<Longrightarrow> b < o1 + 64 \<Longrightarrow> d b = d' b"
  shows "load_dinode d o1 k = load_dinode d' o1 k"
proof -
  have l: "ld16 d (o1 + i) = ld16 d' (o1 + i)" if "i + 2 \<le> 64" for i using that assms by (simp add: ld16_def)
  have m: "ld32 d (o1 + i) = ld32 d' (o1 + i)" if "i + 4 \<le> 64" for i using that assms by (simp add: ld32_def)
  have "ld32 d (o1 + 12 + 4 * i) = ld32 d' (o1 + 12 + 4 * i)" if "i \<le> NDIRECT" for i
    using m [of "12 + 4 * i"] that by (simp add: add.assoc)
  then show ?thesis using l [of 0] l [of 2] l [of 4] l [of 6] m [of 8] by (simp add: load_dinode_def cong: if_cong)
qed

lemma unat_IBLOCK: "unat (IBLOCK i) = unat i div IPB + 2"
proof -
  have d: "unat (i div 8) = unat i div 8" by (simp add: unat_div_distrib)
  then have "unat (i div 8) + unat (2 :: u32) < 2 ^ 32" using unat_lt32 [of i] by simp
  then show ?thesis unfolding IBLOCK_def using unat_add_lt [of "i div 8" 2] d by simp
qed

lemma IBLOCK_same:
  assumes "IBLOCK i = IBLOCK j" "i \<noteq> j"
  shows "dinode_off i + 64 \<le> dinode_off j \<or> dinode_off j + 64 \<le> dinode_off i"
proof -
  have "unat i div IPB = unat j div IPB" using unat_IBLOCK [of i] unat_IBLOCK [of j] assms(1) by simp
  moreover have "unat i \<noteq> unat j" using assms(2) word_eq_unatI by blast
  ultimately have "unat i mod IPB \<noteq> unat j mod IPB" by (metis div_mod_decomp)
  then show ?thesis unfolding dinode_off_def by linarith
qed

lemma iupdate_ilock_both:
  assumes "idev (icache s iq) = idev (icache s ip)" "inum (icache s iq) = inum (icache s ip)"
    and "iref (icache s iq) \<ge> 1" "\<not> ibusy (icache s iq)" "\<not> ivalid (icache s iq)"
  defines "k \<equiv> icache s ip" and "q \<equiv> icache s iq" and "s' \<equiv> iupdate ip s"
  shows "ilock iq s' = (if itype k = 0 then Inl (Panic ''ilock: no type'')
      else Inr (s'\<lparr>icache := (icache s)(iq := \<lparr>idev = idev k, inum = inum k, iref = iref q, ibusy = True, ivalid = True,
        itype = itype k, imajor = imajor k, iminor = iminor k, inlink = inlink k, isize = isize k,
        iaddrs = (\<lambda>i. if i \<le> NDIRECT then iaddrs k i else iaddrs q i)\<rparr>)\<rparr>))"
    and "dev \<noteq> idev k \<or> j \<noteq> inum k \<Longrightarrow>
      load_dinode (fdisk s' (dev, IBLOCK j)) (dinode_off j) x = load_dinode (fdisk s (dev, IBLOCK j)) (dinode_off j) x"
proof -
  have d: "fdisk s' (idev k, IBLOCK (inum k)) = store_dinode (fdisk s (idev k, IBLOCK (inum k))) (dinode_off (inum k)) k"
    and c: "icache s' = icache s"
    by (simp_all add: s'_def iupdate_def Let_def k_def)
  define q' where "q' = q\<lparr>ibusy := True\<rparr>"
  have "ilock iq s' = (let x = (load_dinode (fdisk s' (idev k, IBLOCK (inum k))) (dinode_off (inum k)) q')\<lparr>ivalid := True\<rparr>
      in if itype x = 0 then Inl (Panic ''ilock: no type'') else Inr (s'\<lparr>icache := (icache s)(iq := x)\<rparr>))"
    using assms(1-5) by (simp add: ilock_def Let_def c q'_def q_def k_def)
  moreover have "q'\<lparr>itype := itype k, imajor := imajor k, iminor := iminor k, inlink := inlink k, isize := isize k,
       iaddrs := (\<lambda>i. if i \<le> NDIRECT then iaddrs k i else iaddrs q' i)\<rparr>\<lparr>ivalid := True\<rparr>
     = \<lparr>idev = idev k, inum = inum k, iref = iref q, ibusy = True, ivalid = True,
        itype = itype k, imajor = imajor k, iminor = iminor k, inlink = inlink k, isize = isize k,
        iaddrs = (\<lambda>i. if i \<le> NDIRECT then iaddrs k i else iaddrs q i)\<rparr>"
    using assms(1,2) unfolding q'_def q_def k_def by (cases "icache s iq") (simp cong: if_cong)
  ultimately show "ilock iq s' = (if itype k = 0 then Inl (Panic ''ilock: no type'')
      else Inr (s'\<lparr>icache := (icache s)(iq := \<lparr>idev = idev k, inum = inum k, iref = iref q, ibusy = True, ivalid = True,
        itype = itype k, imajor = imajor k, iminor = iminor k, inlink = inlink k, isize = isize k,
        iaddrs = (\<lambda>i. if i \<le> NDIRECT then iaddrs k i else iaddrs q i)\<rparr>)\<rparr>))"
    unfolding d load_store_dinode Let_def by simp
  assume o: "dev \<noteq> idev k \<or> j \<noteq> inum k"
  show "load_dinode (fdisk s' (dev, IBLOCK j)) (dinode_off j) x = load_dinode (fdisk s (dev, IBLOCK j)) (dinode_off j) x"
  proof (cases "dev = idev k \<and> IBLOCK j = IBLOCK (inum k)")
    case True
    then have "dinode_off j + 64 \<le> dinode_off (inum k) \<or> dinode_off (inum k) + 64 \<le> dinode_off j"
      using o IBLOCK_same by blast
    then show ?thesis using True d by (intro load_dinode_cong) (auto intro: store_dinode_other)
  next
    case False
    then have "fdisk s' (dev, IBLOCK j) = fdisk s (dev, IBLOCK j)"
      by (auto simp: s'_def iupdate_def Let_def k_def)
    then show ?thesis by simp
  qed
qed

section \<open>Contents of a file\<close>

text \<open>Writing an inode block leaves the metadata and all data blocks as they are.\<close>

lemma put_inode_block:
  assumes "fs_wf s dev" "unat i < unat (sb_ninodes (readsb dev s))"
  shows "readsb dev (put_block dev (IBLOCK i) v s) = readsb dev s"
    "b < nblk s dev \<Longrightarrow> used (put_block dev (IBLOCK i) v s) dev b = used s dev b"
    "fs_wf (put_block dev (IBLOCK i) v s) dev"
    "data_block (put_block dev (IBLOCK i) v s) dev a = data_block s dev a"
    "data_block s dev a \<Longrightarrow> a \<noteq> IBLOCK i"
proof -
  let ?s = "put_block dev (IBLOCK i) v s"
  have lt: "2 \<le> unat (IBLOCK i)" "unat (IBLOCK i) < bstart s dev"
    using assms(2) div_le_mono [of "unat i" "unat (sb_ninodes (readsb dev s))" IPB] by (simp_all add: unat_IBLOCK bstart_def)
  then have ne: "IBLOCK i \<noteq> 0" "IBLOCK i \<noteq> 1" by auto
  show r: "readsb dev ?s = readsb dev s" using ne by (intro readsb_cong) auto
  have bb: "of_nat (bit_block s dev b) \<noteq> IBLOCK i" if "b < nblk s dev" for b
  proof -
    have "unat (of_nat (bit_block s dev b) :: u32) = bit_block s dev b"
      using that nblk_lt by (intro unat_u32 bit_block_lt) (rule less_trans)
    then show ?thesis using bit_block_meta [OF that] lt by auto
  qed
  show u: "used ?s dev b = used s dev b" if "b < nblk s dev" for b
    using bb [OF that] by (intro used_cong r) auto
  have n: "nblk ?s dev = nblk s dev" "dstart ?s dev = dstart s dev" using r by (simp_all add: nblk_def dstart_def)
  have bs: "bstart s dev \<le> dstart s dev" by (simp add: bstart_def dstart_def)
  show "data_block ?s dev a = data_block s dev a" unfolding data_block_def n using u by blast
  show "a \<noteq> IBLOCK i" if "data_block s dev a" using that lt(2) bs unfolding data_block_def by auto
  show "fs_wf ?s dev" unfolding fs_wf_def n
  proof (intro conjI allI impI)
    fix b assume b: "b < nblk s dev"
    show "used ?s dev b" if "b < dstart s dev" using assms(1) b that u by (simp add: fs_wf_def)
    assume "\<not> used ?s dev b"
    then have nu: "\<not> used s dev b" using u [OF b] by simp
    then have "dstart s dev \<le> b" using assms(1) b by (meson fs_wf_def not_less)
    moreover have "unat (of_nat b :: u32) = b" using b nblk_lt less_trans unat_u32 by blast
    ultimately have "of_nat b \<noteq> IBLOCK i" using lt(2) bs by auto
    then show "fdisk ?s (dev, of_nat b) = (\<lambda>_. 0)" using assms(1) b nu by (simp add: fs_wf_def)
  next
    show "fdisk ?s (dev, 0) = (\<lambda>_. 0)" using assms(1) ne(1) by (simp add: fs_wf_def)
  qed
qed

text \<open>So \<open>iupdate\<close> after a change of the size changes no file contents.\<close>

lemma iupdate_contents:
  fixes z :: u32
  assumes "fs_wf s dev" "file_wf s ip" "dev = idev (icache s ip)" "unat (inum (icache s ip)) < unat (sb_ninodes (readsb dev s))"
  defines "s' \<equiv> iupdate ip (upd_inode ip (\<lambda>k. k\<lparr>isize := z\<rparr>) s)"
  shows "fs_wf s' dev" "file_wf s' ip" "icache s' = (icache s)(ip := (icache s ip)\<lparr>isize := z\<rparr>)"
    "baddr s' ip bn = baddr s ip bn" "x < MAXFILE * BSIZE \<Longrightarrow> mapped s ip x \<Longrightarrow> fbyte s' ip x = fbyte s ip x"
    "readsb dev s' = readsb dev s" "c < nblk s dev \<Longrightarrow> used s' dev c = used s dev c"
proof -
  let ?i = "inum (icache s ip)"
  let ?v = "store_dinode (fdisk s (dev, IBLOCK ?i)) (dinode_off ?i) ((icache s ip)\<lparr>isize := z\<rparr>)"
  let ?s = "put_block dev (IBLOCK ?i) ?v s"
  have s': "s' = ?s\<lparr>icache := (icache s)(ip := (icache s ip)\<lparr>isize := z\<rparr>)\<rparr>"
    unfolding s'_def iupdate_def Let_def put_block_def using assms(3) by simp
  show ic: "icache s' = (icache s)(ip := (icache s ip)\<lparr>isize := z\<rparr>)" unfolding s' by simp
  note p = put_inode_block [OF assms(1,4)]
  have fd: "fdisk s' = fdisk ?s" unfolding s' by simp
  have dr: "readsb dev s' = readsb dev ?s" "used s' dev = used ?s dev" "nblk s' dev = nblk ?s dev"
    "dstart s' dev = dstart ?s dev" "data_block s' dev = data_block ?s dev"
    unfolding s' by (simp_all add: fun_eq_iff)
  show "fs_wf s' dev" using p(3) unfolding fs_wf_def dr fd .
  show "readsb dev s' = readsb dev s" "c < nblk s dev \<Longrightarrow> used s' dev c = used s dev c" using p(1,2) unfolding dr by blast+
  have k: "idev (icache s' ip) = dev" "iaddrs (icache s' ip) = iaddrs (icache s ip)" unfolding ic using assms(3) by simp_all
  have db: "data_block s' dev a = data_block s dev a" for a using p(4) unfolding dr .
  have keep: "fdisk s' (dev, a) = fdisk s (dev, a)" if "data_block s dev a" for a
    using p(5) [OF that] unfolding fd by simp
  have b: "baddr s' ip bn = baddr s ip bn" for bn
  proof -
    have "fdisk s' (dev, indir s ip) = fdisk s (dev, indir s ip)" if "indir s ip \<noteq> 0"
      using file_wfD(4) [OF assms(2) _ that, of 0] assms(3) by (intro keep) simp
    then show ?thesis unfolding baddr_def Let_def k assms(3) [symmetric] by simp
  qed
  then show "baddr s' ip bn = baddr s ip bn" .
  show "file_wf s' ip"
    using assms(2) unfolding file_wf_def Let_def b k db assms(3) [symmetric] .
  show "fbyte s' ip x = fbyte s ip x" if "x < MAXFILE * BSIZE" "mapped s ip x"
  proof -
    have "x div BSIZE < MAXFILE" using that(1) by (simp add: less_mult_imp_div_less)
    then have "data_block s dev (baddr s ip (x div BSIZE))"
      using file_wfD(1) [OF assms(2)] that(2) assms(3) unfolding mapped_def by blast
    then show ?thesis using keep unfolding fbyte_def b k assms(3) [symmetric] by simp
  qed
qed

text \<open>A regular file as the file system leaves it between calls: well-formed, and without holes.\<close>

definition file_ok :: "fsys \<Rightarrow> nat \<Rightarrow> bool" where
  "file_ok s ip \<longleftrightarrow> (let k = icache s ip in fs_wf s (idev k) \<and> file_wf s ip \<and>
     unat (inum k) < unat (sb_ninodes (readsb (idev k) s)) \<and> itype k \<noteq> T_DEV \<and>
     unat (isize k) \<le> MAXFILE * BSIZE \<and> (\<forall>x < unat (isize k). mapped s ip x))"

text \<open>A small disk: 20 blocks, 8 inodes, the bitmap in block 4, and one file whose bytes are in block 5.\<close>

definition demo_fs :: fsys where
  "demo_fs = \<lparr>fdisk = (\<lambda>k. if k = (1, 1) then st32 (st32 (\<lambda>_. 0) 0 20) 8 8
       else if k = (1, 4) then (\<lambda>_. 0)(0 := 0x3F)
       else if k = (1, 5) then (\<lambda>i. of_nat i + 97) else (\<lambda>_. 0)),
     icache = (\<lambda>i. \<lparr>idev = 1, inum = 2, iref = 1, ibusy = False, ivalid = (i = 0), itype = 2, imajor = 0, iminor = 0,
       inlink = 1, isize = 3, iaddrs = (\<lambda>_. 0)(0 := 5)\<rparr>)\<rparr>"

lemma demo_fs_sb: "readsb 1 demo_fs = \<lparr>sb_size = 20, sb_nblocks = 0, sb_ninodes = 8\<rparr>"
proof -
  have "ld32 (st32 (st32 (\<lambda>_. 0) 0 20) 8 8) (4 :: nat) = ld32 (st32 (\<lambda>_. 0) 0 20) (4 :: nat)"
    by (rule ld_st_other_nat) simp
  also have "\<dots> = ld32 (\<lambda>_. 0) (4 :: nat)" by (rule ld_st_other_nat) simp
  finally have "ld32 (st32 (st32 (\<lambda>_. 0) 0 20) 8 8) (4 :: nat) = 0" by simp
  moreover have "ld32 (st32 (st32 (\<lambda>_. 0) 0 20) 8 8) (0 :: nat) = ld32 (st32 (\<lambda>_. 0) 0 20) (0 :: nat)"
    by (rule ld_st_other_nat) simp
  ultimately show ?thesis by (simp add: readsb_def demo_fs_def)
qed

lemma demo_fs_nblk: "nblk demo_fs 1 = 20" "dstart demo_fs 1 = 5"
  by (simp_all add: nblk_def dstart_def demo_fs_sb)

lemma demo_fs_used: "b < 20 \<Longrightarrow> used demo_fs 1 b \<longleftrightarrow> b < 6"
proof -
  assume b: "b < 20"
  have "bit_block demo_fs 1 b = 4" using b by (simp add: bit_block_def demo_fs_sb)
  then have u: "used demo_fs 1 b \<longleftrightarrow> bset ((\<lambda>_. 0)(0 := 0x3F)) b" using b by (simp add: used_def demo_fs_def)
  have m: "(0x3F :: u8) = mask 6" by (simp add: mask_eq_exp_minus_1)
  show ?thesis
    unfolding u bset_bit using b by (cases "b < 8") (auto simp: m bit_mask_iff)
qed

lemma demo_fs_wf: "fs_wf demo_fs 1"
  unfolding fs_wf_def demo_fs_nblk
proof (intro conjI allI impI)
  fix b :: nat assume b: "b < 20"
  show "used demo_fs 1 b" if "b < 5" using that demo_fs_used [OF b] by simp
  assume "\<not> used demo_fs 1 b"
  then have "6 \<le> b" using demo_fs_used [OF b] by simp
  moreover have "unat (of_nat b :: u32) = b" using b by (intro unat_u32) simp
  ultimately have "(of_nat b :: u32) \<noteq> 1" "(of_nat b :: u32) \<noteq> 4" "(of_nat b :: u32) \<noteq> 5" by auto
  then show "fdisk demo_fs (1, of_nat b) = (\<lambda>_. 0)" by (simp add: demo_fs_def)
qed (simp add: demo_fs_def)

lemma demo_fs_file: "file_ok demo_fs 0"
proof -
  have ba: "baddr demo_fs 0 bn = (if bn = 0 then 5 else 0)" for bn
    by (simp add: baddr_def demo_fs_def Let_def)
  have db: "data_block demo_fs 1 5" using demo_fs_used [of 5] by (simp add: data_block_def demo_fs_nblk)
  have k: "idev (icache demo_fs 0) = 1" "isize (icache demo_fs 0) = 3" "inum (icache demo_fs 0) = 2" "itype (icache demo_fs 0) = 2"
    "indir demo_fs 0 = 0" by (simp_all add: demo_fs_def)
  have "file_wf demo_fs 0" by (rule file_wfI) (auto simp: ba k db split: if_splits)
  moreover have "mapped demo_fs 0 x" if "x < 3" for x using that by (simp add: mapped_def ba)
  ultimately show ?thesis by (simp add: file_ok_def k demo_fs_sb demo_fs_wf)
qed

lemma readi_whole:
  assumes "file_ok s ip"
  shows "readi D ip 0 (isize (icache s ip)) s =
    Inr (int (unat (isize (icache s ip))), map (fbyte s ip) [0..<unat (isize (icache s ip))], s)"
proof -
  let ?z = "isize (icache s ip)"
  note ok = assms [unfolded file_ok_def Let_def]
  have "readi_loop ip 0 ?z s = Inr (map (fbyte s ip) [unat (0 :: u32)..<unat (0 :: u32) + unat ?z], s)"
    using ok by (intro readi_loop_ok) (auto simp: mapped_def)
  moreover have "sint ?z = int (unat ?z)" using ok by (intro sint_unat) simp
  ultimately show ?thesis using ok by (simp add: readi_def Let_def)
qed

lemma min_unat_room:
  fixes off n :: u32
  assumes "unat off + unat n < 2 ^ 32" "unat off \<le> MAXFILE * BSIZE"
  defines "m \<equiv> if off + n > of_nat (MAXFILE * BSIZE) then of_nat (MAXFILE * BSIZE) - off else n"
  shows "unat off + unat m \<le> MAXFILE * BSIZE" "unat m \<le> unat n" "unat m = unat n \<or> unat off + unat m = MAXFILE * BSIZE"
proof -
  have s: "unat (off + n) = unat off + unat n" by (rule unat_add_lt) (use assms(1) in simp)
  have l: "off + n > of_nat (MAXFILE * BSIZE) \<longleftrightarrow> unat off + unat n > MAXFILE * BSIZE"
    using s by (simp add: word_less_nat_alt)
  have d: "unat (of_nat (MAXFILE * BSIZE) - off :: u32) = MAXFILE * BSIZE - unat off"
    using assms(2) by (simp add: unat_sub word_le_nat_alt)
  have um: "unat m = (if unat off + unat n > MAXFILE * BSIZE then MAXFILE * BSIZE - unat off else unat n)"
    unfolding m_def l if_distrib [of unat] d ..
  show "unat off + unat m \<le> MAXFILE * BSIZE" "unat m \<le> unat n" "unat m = unat n \<or> unat off + unat m = MAXFILE * BSIZE"
    using assms(2) unfolding um by auto
qed

text \<open>What \<open>writei\<close> leaves behind, in terms of the loop lemma.\<close>

lemma writei_ok:
  assumes "file_ok s ip" "off \<le> isize (icache s ip)" "unat off + unat n < 2 ^ 32"
  shows "\<exists>w s'. writei D ip src off n s = Inr (int w, s') \<and> w \<le> unat n \<and>
    (w < unat n \<longrightarrow> unat off + w = MAXFILE * BSIZE \<or> (\<forall>c < nblk s (idev (icache s ip)). used s' (idev (icache s ip)) c)) \<and>
    unat (isize (icache s' ip)) = max (unat (isize (icache s ip))) (unat off + w) \<and>
    (\<forall>x < unat (isize (icache s' ip)). fbyte s' ip x =
       (if unat off \<le> x \<and> x < unat off + w then src (x - unat off) else fbyte s ip x)) \<and> file_ok s' ip"
proof -
  let ?k = "icache s ip" and ?dev = "idev (icache s ip)" and ?z = "unat (isize (icache s ip))"
  define m where "m = (if off + n > of_nat (MAXFILE * BSIZE) then of_nat (MAXFILE * BSIZE) - off else n)"
  note ok = assms(1) [unfolded file_ok_def Let_def]
  have oz: "unat off \<le> ?z" using assms(2) by (simp add: word_le_nat_alt)
  note r = min_unat_room [OF assms(3) order_trans [OF oz], folded m_def]
  have r1: "unat off + unat m \<le> MAXFILE * BSIZE" and r2: "unat m \<le> unat n"
    and r3: "unat m = unat n \<or> unat off + unat m = MAXFILE * BSIZE" using r ok by blast+
  obtain w s1 where l: "writei_loop ip src off 0 m s = Inr (0 + of_nat w, off + of_nat w, s1)" "w \<le> unat m"
      "wrote ip src (unat off) w s s1" "w < unat m \<longrightarrow> (\<forall>c < nblk s ?dev. used s1 ?dev c)"
    using writei_loop_ok [of s ip off m src 0] ok r1 by blast
  note wr = l(3) [unfolded wrote_def]
  have w32: "w < 2 ^ 31" using l(2) r1 by simp
  have uw: "unat (of_nat w :: u32) = w" using w32 by (intro unat_u32) simp
  have uo: "unat (off + of_nat w) = unat off + w" using unat_add_lt [of off "of_nat w"] uw l(2) r1 by simp
  have si: "sint (of_nat w :: u32) = int w" using sint_unat [of "of_nat w"] uw w32 by simp
  have no: "\<not> off > isize ?k" using assms(2) by (simp add: not_less)
  have nw: "\<not> off + n < off" using assms(3) unat_add_lt [of off n] by (simp add: word_less_nat_alt)
  have k1: "idev (icache s1 ip) = ?dev" "isize (icache s1 ip) = isize ?k" "itype (icache s1 ip) = itype ?k"
    "inum (icache s1 ip) = inum ?k" using wr same_inodeD by blast+
  have g: "off + of_nat w > isize (icache s1 ip) \<longleftrightarrow> unat off + w > ?z" unfolding k1 word_less_nat_alt uo ..
  have g0: "(of_nat w :: u32) > 0" if "unat off + w > ?z"
  proof -
    have "0 < w" using that oz by simp
    then show ?thesis unfolding word_less_nat_alt uw by simp
  qed
  define s' where "s' = (if unat off + w > ?z then iupdate ip (upd_inode ip (\<lambda>k. k\<lparr>isize := off + of_nat w\<rparr>) s1) else s1)"
  have wi: "writei D ip src off n s = Inr (int w, s')"
  proof -
    have "writei D ip src off n s = kbind (writei_loop ip src off 0 m s) (\<lambda>(n, off, s).
          if n > 0 \<and> off > isize (icache s ip)
          then Inr (sint n, iupdate ip (upd_inode ip (\<lambda>k. k\<lparr>isize := off\<rparr>) s))
          else Inr (sint n, s))"
      using ok no nw unfolding writei_def Let_def m_def by simp
    then show ?thesis using l(1) g g0 si unfolding s'_def by simp
  qed
  have f1: "fs_wf s1 ?dev" "file_wf s1 ip" "readsb ?dev s1 = readsb ?dev s" using wr unfolding ext_def by blast+
  have in1: "unat (inum (icache s1 ip)) < unat (sb_ninodes (readsb ?dev s1))" using ok k1 f1 by simp
  have m1: "mapped s1 ip x" if "x < max ?z (unat off + w)" for x
  proof (cases "unat off \<le> x \<and> x < unat off + w")
    case True
    then show ?thesis using wr by blast
  next
    case False
    then have xz: "x < ?z" using that oz by auto
    then have "mapped s ip x" "x div BSIZE < MAXFILE" using ok by (auto intro: less_mult_imp_div_less)
    then show ?thesis using wr unfolding mapped_def by metis
  qed
  have b1: "fbyte s1 ip x = (if unat off \<le> x \<and> x < unat off + w then src (x - unat off) else fbyte s ip x)"
    if "x < max ?z (unat off + w)" for x
  proof (cases "unat off \<le> x \<and> x < unat off + w")
    case True
    then show ?thesis using wr by simp
  next
    case False
    then have xz: "x < ?z" using that oz by auto
    then have "mapped s ip x" "x < MAXFILE * BSIZE" using ok by auto
    moreover have "x < unat off \<or> unat off + w \<le> x" using False by auto
    ultimately show ?thesis using wr False by auto
  qed
  have z32: "max ?z (unat off + w) \<le> MAXFILE * BSIZE" using ok l(2) r1 by simp
  note iu = iupdate_contents [where z = "off + of_nat w", OF f1(1,2) k1(1) [symmetric] in1]
  have fin: "unat (isize (icache s' ip)) = max ?z (unat off + w) \<and> file_ok s' ip \<and>
      (\<forall>x < max ?z (unat off + w). fbyte s' ip x = fbyte s1 ip x) \<and> (\<forall>c < nblk s ?dev. used s' ?dev c = used s1 ?dev c)"
  proof (cases "unat off + w > ?z")
    case True
    then have s': "s' = iupdate ip (upd_inode ip (\<lambda>k. k\<lparr>isize := off + of_nat w\<rparr>) s1)" unfolding s'_def by simp
    have mp: "mapped s' ip x = mapped s1 ip x" for x unfolding mapped_def s' iu(4) ..
    have "file_ok s' ip" unfolding file_ok_def Let_def mp
      using iu(1,2,3,6) k1 in1 ok uo m1 z32 unfolding s' by auto
    moreover have "nblk s1 ?dev = nblk s ?dev" using f1(3) by (simp add: nblk_def)
    ultimately show ?thesis using True iu(3,5,7) uo m1 z32 unfolding s' by auto
  next
    case False
    then have s': "s' = s1" unfolding s'_def by simp
    then have "file_ok s' ip" unfolding file_ok_def Let_def k1 s' using f1 ok m1 by simp
    then show ?thesis using False k1 unfolding s' by simp
  qed
  have "w < unat n \<longrightarrow> unat off + w = MAXFILE * BSIZE \<or> (\<forall>c < nblk s ?dev. used s' ?dev c)"
    using l(2,4) r2 r3 fin by auto
  then show ?thesis using wi fin b1 l(2) r2 by (intro exI [of _ w] exI [of _ s'] conjI) auto
qed

section \<open>Properties\<close>

text \<open>
  C15. The block bitmap: on a well-formed disk with a free block, \<open>balloc\<close> returns the first free one, a zeroed
  data block, and marks exactly it; \<open>bfree\<close> of that block gives restored the very same disk, and a second
  \<open>bfree\<close> stops the kernel.
\<close>

theorem bfree_undoes_balloc:
  assumes "fs_wf s dev" "b0 < nblk s dev" "\<not> used s dev b0"
  shows "\<exists>a s'. balloc dev s = (a, s') \<and> unat a = (LEAST b. \<not> used s dev b) \<and> data_block s' dev a \<and>
    fdisk s' (dev, a) = (\<lambda>_. 0) \<and> (\<forall>c < nblk s dev. used s' dev c = (used s dev c \<or> c = unat a)) \<and>
    fs_wf s' dev \<and> bfree dev a s' = Inr s \<and> bfree dev a s = Inl (Panic ''freeing free block'')"
proof -
  let ?sec = "\<lambda>b. of_nat (bit_block s dev b) :: u32"
  obtain b where b: "b < nblk s dev" "\<not> used s dev b" "\<forall>c < b. used s dev c"
    "balloc dev s = (of_nat b, let sec = ?sec b; d = fdisk s (dev, sec); bi = b mod BPB
          in put_block dev sec (d(bi div 8 := d (bi div 8) OR bmask bi)) s)"
    using balloc_form [OF assms(2,3)] by blast
  have b32: "b < 2 ^ 32" using b(1) nblk_lt less_trans by blast
  obtain a s' where a: "balloc dev s = (a, s')" by (rule prod.exhaust)
  have ua: "unat a = b" using a b(4) unat_u32 [OF b32] by simp
  have nz: "a \<noteq> 0 \<and> data_block s' dev a \<and> fdisk s' (dev, a) = (\<lambda>_. 0) \<and> ext dev {} s s' \<and> icache s' = icache s"
    using balloc_ext [OF assms(1) a] b(1,2) by blast
  have full: "readsb dev s' = readsb dev s \<and> (\<forall>c < nblk s dev. used s' dev c = (used s dev c \<or> c = b)) \<and> fs_wf s' dev"
  proof -
    have "\<not> (\<forall>c < nblk s dev. used s dev c)" using b(1,2) by blast
    then obtain b' where "a = of_nat b'" "b' < nblk s dev" "readsb dev s' = readsb dev s \<and> (\<forall>c < nblk s dev. used s' dev c = (used s dev c \<or> c = b')) \<and> fs_wf s' dev"
      using balloc_ok [OF assms(1)] a by auto
    moreover from this have "b' = b" using ua unat_u32 nblk_lt less_trans by metis
    ultimately show ?thesis by blast
  qed
  have n: "nblk s' dev = nblk s dev" "dstart s' dev = dstart s dev" "bit_block s' dev = bit_block s dev"
    using full by (auto simp: nblk_def dstart_def bit_block_def fun_eq_iff)
  have ge: "dstart s dev \<le> unat a" using nz n(2) by (simp add: data_block_def)
  have least: "(LEAST b. \<not> used s dev b) = b"
    by (rule Least_equality) (use b(2,3) not_less in blast)+
  define bi where "bi = b mod BPB"
  define sec where "sec = ?sec b"
  define d where "d = fdisk s (dev, sec)"
  have s': "s' = put_block dev sec (d(bi div 8 := d (bi div 8) OR bmask bi)) s"
    using a b(4) unfolding bi_def sec_def d_def Let_def by simp
  have clear: "d (bi div 8) AND bmask bi = 0"
    using b(2) unfolding used_def bset_def bi_def sec_def d_def by simp
  have sa: "sec \<noteq> a"
  proof
    assume "sec = a"
    then have "bit_block s dev b = unat a" using unat_u32 [OF bit_block_lt [OF b32]] unfolding sec_def by metis
    then show False using bit_block_meta [OF b(1)] ge by simp
  qed
  have za: "fdisk s (dev, a) = (\<lambda>_. 0)" using nz sa s' by simp
  define d' where "d' = d(bi div 8 := d (bi div 8) OR bmask bi)"
  have restored: "d'(bi div 8 := d' (bi div 8) AND NOT (bmask bi)) = d"
    unfolding d'_def using or_and_not_id [OF clear] by auto
  have fd: "fdisk s' (dev, sec) = d'" unfolding s' d'_def by simp
  have db: "dstart s' dev \<le> unat a" "unat a < nblk s' dev" "used s' dev (unat a)" using nz by (simp_all add: data_block_def)
  have "bfree dev a s' = Inr (put_block dev sec d (bzero dev a s'))"
    using bfree_form [OF db(1,2)] if_P [OF db(3)]
    unfolding Let_def n(3) ua bi_def [symmetric] sec_def [symmetric] fd restored by metis
  also have "put_block dev sec d (bzero dev a s') = s"
  proof -
    have "fdisk (put_block dev sec d (bzero dev a s')) = fdisk s"
    proof
      fix k show "fdisk (put_block dev sec d (bzero dev a s')) k = fdisk s k"
        using sa za unfolding s' bzero_def d_def by (cases "k = (dev, sec)"; cases "k = (dev, a)") simp_all
    qed
    then show ?thesis unfolding s' bzero_def put_block_def by simp
  qed
  finally have un: "bfree dev a s' = Inr s" .
  have "bfree dev a s = Inl (Panic ''freeing free block'')"
    using bfree_form [of s dev a] ge ua b(1,2) by (simp add: Let_def)
  then show ?thesis using a nz full un least ua by (intro exI [of _ a] exI [of _ s'] conjI) simp_all
qed

lemma bfree_undoes_balloc_witness:
  "\<exists>a s'. balloc 1 demo_fs = (a, s') \<and> bfree 1 a s' = Inr demo_fs"
  using bfree_undoes_balloc [OF demo_fs_wf, of 6] demo_fs_used [of 6] by (auto simp: demo_fs_nblk)

text \<open>
  C16. What \<open>iupdate\<close> writes, \<open>ilock\<close> reads: after \<open>iupdate ip\<close> any unlocked cache slot that \<open>iget\<close> has set up for
  the same inode is locked and filled with exactly the fields of \<open>ip\<close>; a free inode stops the kernel;
  and every other inode of the disk, in the same block or not, reads as before.
\<close>

theorem iupdate_ilock:
  assumes "idev (icache s iq) = idev (icache s ip)" "inum (icache s iq) = inum (icache s ip)"
    and "iref (icache s iq) \<ge> 1" "\<not> ibusy (icache s iq)" "\<not> ivalid (icache s iq)"
  shows "let k = icache s ip; q = icache s iq; s' = iupdate ip s in
    ilock iq s' = (if itype k = 0 then Inl (Panic ''ilock: no type'')
      else Inr (s'\<lparr>icache := (icache s)(iq := \<lparr>idev = idev k, inum = inum k, iref = iref q, ibusy = True, ivalid = True,
        itype = itype k, imajor = imajor k, iminor = iminor k, inlink = inlink k, isize = isize k,
        iaddrs = (\<lambda>i. if i \<le> NDIRECT then iaddrs k i else iaddrs q i)\<rparr>)\<rparr>)) \<and>
    (\<forall>dev j x. dev \<noteq> idev k \<or> j \<noteq> inum k \<longrightarrow>
      load_dinode (fdisk s' (dev, IBLOCK j)) (dinode_off j) x = load_dinode (fdisk s (dev, IBLOCK j)) (dinode_off j) x)"
  using iupdate_ilock_both [OF assms] unfolding Let_def by blast

lemma iupdate_ilock_witness:
  "\<exists>s'. ilock 1 (iupdate 0 demo_fs) = Inr s' \<and> isize (icache s' 1) = 3 \<and> ivalid (icache s' 1)"
proof -
  have "idev (icache demo_fs 1) = idev (icache demo_fs 0)" "inum (icache demo_fs 1) = inum (icache demo_fs 0)"
    "iref (icache demo_fs 1) \<ge> 1" "\<not> ibusy (icache demo_fs 1)" "\<not> ivalid (icache demo_fs 1)"
    by (simp_all add: demo_fs_def)
  note iupdate_ilock [OF this]
  moreover have "itype (icache demo_fs 0) = 2" "isize (icache demo_fs 0) = 3" by (simp_all add: demo_fs_def)
  ultimately show ?thesis by (simp add: Let_def)
qed

text \<open>
  C17. Reading after writing: a write to a regular file at an offset within it stores a prefix of the
  bytes, all of them unless the file reaches its maximal size or the disk is full; reading the whole
  file afterwards gives the old contents overwritten (and extended) by that prefix at that offset, and the
  file is again well-formed.
\<close>

theorem writei_readi:
  assumes "file_ok s ip" "off \<le> isize (icache s ip)" "unat off + unat n < 2 ^ 32"
  shows "\<exists>cs w s'. readi D ip 0 (isize (icache s ip)) s = Inr (int (length cs), cs, s) \<and>
    writei D ip src off n s = Inr (int w, s') \<and> w \<le> unat n \<and>
    (w < unat n \<longrightarrow> unat off + w = MAXFILE * BSIZE \<or> (\<forall>c < nblk s (idev (icache s ip)). used s' (idev (icache s ip)) c)) \<and>
    (let cs' = take (unat off) cs @ map src [0..<w] @ drop (unat off + w) cs in
      readi D ip 0 (isize (icache s' ip)) s' = Inr (int (length cs'), cs', s')) \<and> file_ok s' ip"
proof -
  let ?z = "unat (isize (icache s ip))" and ?o = "unat off"
  define cs where "cs = map (fbyte s ip) [0..<?z]"
  have oz: "?o \<le> ?z" using assms(2) by (simp add: word_le_nat_alt)
  obtain w s' where w: "writei D ip src off n s = Inr (int w, s')" "w \<le> unat n"
    "w < unat n \<longrightarrow> ?o + w = MAXFILE * BSIZE \<or> (\<forall>c < nblk s (idev (icache s ip)). used s' (idev (icache s ip)) c)"
    "unat (isize (icache s' ip)) = max ?z (?o + w)"
    "\<forall>x < unat (isize (icache s' ip)). fbyte s' ip x = (if ?o \<le> x \<and> x < ?o + w then src (x - ?o) else fbyte s ip x)"
    "file_ok s' ip"
    using writei_ok [OF assms] by blast
  define cs' where "cs' = take ?o cs @ map src [0..<w] @ drop (?o + w) cs"
  have len: "length cs' = max ?z (?o + w)" using oz by (simp add: cs'_def cs_def)
  have "map (fbyte s' ip) [0..<unat (isize (icache s' ip))] = cs'"
  proof (rule nth_equalityI)
    fix x assume "x < length (map (fbyte s' ip) [0..<unat (isize (icache s' ip))])"
    then have x: "x < unat (isize (icache s' ip))" "x < max ?z (?o + w)" using w(4) by simp_all
    have "cs' ! x = (if ?o \<le> x \<and> x < ?o + w then src (x - ?o) else fbyte s ip x)"
      using x(2) oz unfolding cs'_def cs_def by (auto simp: nth_append)
    then show "map (fbyte s' ip) [0..<unat (isize (icache s' ip))] ! x = cs' ! x" using x w(5) by simp
  qed (simp add: len w(4))
  then have "readi D ip 0 (isize (icache s' ip)) s' = Inr (int (length cs'), cs', s')"
    using readi_whole [OF w(6), of D] len w(4) by simp
  moreover have "readi D ip 0 (isize (icache s ip)) s = Inr (int (length cs), cs, s)"
    using readi_whole [OF assms(1), of D] by (simp add: cs_def)
  ultimately show ?thesis using w(1-3,6) unfolding cs'_def Let_def by blast
qed

definition no_devices :: devsw where
  "no_devices = \<lparr>dev_read = \<lambda>_. None, dev_write = \<lambda>_. None\<rparr>"

lemma writei_readi_witness:
  "\<exists>cs w s'. readi no_devices 0 0 3 demo_fs = Inr (int (length cs), cs, demo_fs) \<and>
    writei no_devices 0 (\<lambda>_. 120) 1 700 demo_fs = Inr (int w, s') \<and> w \<le> 700 \<and> file_ok s' 0"
proof -
  have z: "isize (icache demo_fs 0) = 3" by (simp add: demo_fs_def)
  show ?thesis using writei_readi [OF demo_fs_file, of 1 700 no_devices "\<lambda>_. 120"] unfolding z by (auto simp: word_le_nat_alt)
qed

end
