(* ===== verification/Dir.thy ===== *)
theory Dir imports Fs begin

text \<open>
  kernel/fs.c, the upper half: directories and path names. A name is a character pointer; a path is
  the list of its characters before the terminator, and the pointers \<open>skipelem\<close> returns are the rest
  of that list.
\<close>

abbreviation DIRSIZ :: nat where "DIRSIZ \<equiv> 14"
abbreviation slash :: u8 where "slash \<equiv> 47"

section \<open>Directories\<close>

definition namecmp :: "cptr \<Rightarrow> cptr \<Rightarrow> int" where
  "namecmp s t = strncmp s t DIRSIZ"

text \<open>\<open>struct dirent\<close> number \<open>j\<close> of a block: its \<open>inum\<close> and its \<open>name\<close>.\<close>

definition de_inum :: "block \<Rightarrow> nat \<Rightarrow> u16" where "de_inum d j = ld16 d (16 * j)"
definition de_name :: "block \<Rightarrow> nat \<Rightarrow> cptr" where "de_name d j = (\<lambda>i. d (16 * j + 2 + i))"

definition dir_find :: "block \<Rightarrow> cptr \<Rightarrow> nat option" where
  "dir_find d name = find (\<lambda>j. de_inum d j \<noteq> 0 \<and> namecmp name (de_name d j) = 0) [0..<32]"

text \<open>The inode found, with the offset of its entry that \<open>*poff\<close> is set to.\<close>

fun dirlookup_from :: "nat \<Rightarrow> cptr \<Rightarrow> nat list \<Rightarrow> fsys \<Rightarrow> ((nat \<times> u32) option \<times> fsys) res" where
  "dirlookup_from dp name [] s = Inr (None, s)"
| "dirlookup_from dp name (b # bs) s =
     kbind (bmap dp (of_nat b) s) (\<lambda>(sec, s).
       let dev = idev (icache s dp); d = fdisk s (dev, sec) in
       case dir_find d name of
         Some j \<Rightarrow> kbind (iget dev (ucast (de_inum d j)) s) (\<lambda>(ip, s). Inr (Some (ip, of_nat (BSIZE * b + 16 * j)), s))
       | None \<Rightarrow> dirlookup_from dp name bs s)"

definition dirlookup :: "nat \<Rightarrow> cptr \<Rightarrow> fsys \<Rightarrow> ((nat \<times> u32) option \<times> fsys) res" where
  "dirlookup dp name s =
     (if itype (icache s dp) \<noteq> T_DIR then Inl (Panic ''dirlookup not DIR'')
      else dirlookup_from dp name [0..<(unat (isize (icache s dp)) + 511) div BSIZE] s)"

text \<open>The bytes of the entry \<open>dirlink\<close> writes.\<close>

definition dirent_bytes :: "cptr \<Rightarrow> u32 \<Rightarrow> cptr" where
  "dirent_bytes name i = st16 (\<lambda>j. strncpy (\<lambda>_. 0) name (int DIRSIZ) (j - 2)) 0 (ucast i)"

text \<open>The search for an empty entry: the value of \<open>off\<close> when the loop ends.\<close>

fun dirlink_find :: "devsw \<Rightarrow> nat \<Rightarrow> u32 \<Rightarrow> nat list \<Rightarrow> fsys \<Rightarrow> (u32 \<times> fsys) res" where
  "dirlink_find D dp end_off [] s = Inr (end_off, s)"
| "dirlink_find D dp end_off (j # js) s =
     kbind (readi D dp (of_nat (16 * j)) 16 s) (\<lambda>(r, bs, s).
       if r \<noteq> 16 then Inl (Panic ''dirlink read'')
       else if ld16 (\<lambda>i. bs ! i) 0 = 0 then Inr (of_nat (16 * j), s)
       else dirlink_find D dp end_off js s)"

definition dirlink :: "devsw \<Rightarrow> nat \<Rightarrow> cptr \<Rightarrow> u32 \<Rightarrow> fsys \<Rightarrow> (int \<times> fsys) res" where
  "dirlink D dp name i s =
     kbind (dirlookup dp name s) (\<lambda>(found, s). case found of
       Some (ip, _) \<Rightarrow> kbind (iput ip s) (\<lambda>s. Inr (-1, s))
     | None \<Rightarrow>
         let n = (unat (isize (icache s dp)) + 15) div 16 in
         kbind (dirlink_find D dp (of_nat (16 * n)) [0..<n] s) (\<lambda>(off, s).
         kbind (writei D dp (dirent_bytes name i) off 16 s) (\<lambda>(r, s).
           if r \<noteq> 16 then Inl (Panic ''dirlink'') else Inr (0, s))))"

section \<open>Paths\<close>

text \<open>
  \<open>skipelem\<close>: the rest of the path, and the contents of \<open>name\<close>, whose first bytes are overwritten
  (a name of 14 bytes or more is not terminated).
\<close>

definition copy_name :: "u8 list \<Rightarrow> cptr \<Rightarrow> cptr" where
  "copy_name e name =
     (if length e \<ge> DIRSIZ then (\<lambda>i. if i < DIRSIZ then e ! i else name i)
      else (\<lambda>i. if i < length e then e ! i else name i)(length e := 0))"

definition skipelem :: "u8 list \<Rightarrow> cptr \<Rightarrow> (u8 list \<times> cptr) option" where
  "skipelem path name =
     (let path = dropWhile (\<lambda>c. c = slash) path in
      if path = [] then None
      else let s = takeWhile (\<lambda>c. c \<noteq> slash) path; path = dropWhile (\<lambda>c. c \<noteq> slash) path
        in Some (dropWhile (\<lambda>c. c = slash) path, copy_name s name))"

lemma length_dropWhile: "length (dropWhile P xs) \<le> length xs"
  by (induction xs) auto

lemma skipelem_shorter: "skipelem path name = Some (path', name') \<Longrightarrow> length path' < length path"
proof -
  assume a: "skipelem path name = Some (path', name')"
  let ?p = "dropWhile (\<lambda>c. c = slash) path"
  have ne: "?p \<noteq> []" using a by (auto simp: skipelem_def Let_def split: if_splits)
  then have "hd ?p \<noteq> slash" by (rule hd_dropWhile)
  with ne obtain c cs where p: "?p = c # cs" "c \<noteq> slash" by (cases ?p) auto
  have "path' = dropWhile (\<lambda>c. c = slash) (dropWhile (\<lambda>c. c \<noteq> slash) ?p)"
    using a ne unfolding skipelem_def Let_def by (simp del: dropWhile_eq_Nil_conv)
  moreover have "dropWhile (\<lambda>c. c \<noteq> slash) ?p = dropWhile (\<lambda>c. c \<noteq> slash) cs" using p by simp
  ultimately have "length path' \<le> length cs"
    by (simp only:) (rule le_trans [OF length_dropWhile length_dropWhile])
  then show ?thesis using p(1) length_dropWhile [of "\<lambda>c. c = slash" path] by simp
qed

text \<open>The loop of \<open>namex\<close>; the result is the inode (none for a null pointer) and the name buffer.\<close>

function namex_loop :: "nat \<Rightarrow> u8 list \<Rightarrow> bool \<Rightarrow> cptr \<Rightarrow> fsys \<Rightarrow> (nat option \<times> cptr \<times> fsys) res" where
  "namex_loop ip path par name s = (case skipelem path name of
     None \<Rightarrow> if par then kbind (iput ip s) (\<lambda>s. Inr (None, name, s)) else Inr (Some ip, name, s)
   | Some (path, name) \<Rightarrow>
       kbind (ilock ip s) (\<lambda>s.
         if itype (icache s ip) \<noteq> T_DIR then kbind (iunlockput ip s) (\<lambda>s. Inr (None, name, s))
         else if par \<and> path = [] then kbind (iunlock ip s) (\<lambda>s. Inr (Some ip, name, s))
         else kbind (dirlookup ip name s) (\<lambda>(next_ip, s). case next_ip of
             None \<Rightarrow> kbind (iunlockput ip s) (\<lambda>s. Inr (None, name, s))
           | Some (nip, _) \<Rightarrow> kbind (iunlockput ip s) (\<lambda>s. namex_loop nip path par name s))))"
  by pat_completeness auto

termination
  by (relation "measure (\<lambda>(ip, path, par, name, s). length path)") (auto dest: skipelem_shorter)

declare namex_loop.simps [simp del]

text \<open>\<open>cwd\<close> is \<open>proc->cwd\<close>; \<open>ROOTDEV\<close> and \<open>ROOTINO\<close> are both 1.\<close>

definition namex :: "nat \<Rightarrow> u8 list \<Rightarrow> bool \<Rightarrow> cptr \<Rightarrow> fsys \<Rightarrow> (nat option \<times> cptr \<times> fsys) res" where
  "namex cwd path par name s =
     (if path \<noteq> [] \<and> hd path = slash
      then kbind (iget 1 1 s) (\<lambda>(ip, s). namex_loop ip path par name s)
      else let (ip, s) = idup cwd s in namex_loop ip path par name s)"

definition namei :: "nat \<Rightarrow> u8 list \<Rightarrow> fsys \<Rightarrow> (nat option \<times> fsys) res" where
  "namei cwd path s = kbind (namex cwd path False (\<lambda>_. 0) s) (\<lambda>(ip, _, s). Inr (ip, s))"

definition nameiparent :: "nat \<Rightarrow> u8 list \<Rightarrow> fsys \<Rightarrow> (nat option \<times> cptr \<times> fsys) res" where
  "nameiparent cwd path s = namex cwd path True (\<lambda>_. 0) s"

section \<open>Splitting a path\<close>

fun split_on :: "'a \<Rightarrow> 'a list \<Rightarrow> 'a list list" where
  "split_on x [] = [[]]"
| "split_on x (y # ys) = (if y = x then [] # split_on x ys
     else (case split_on x ys of [] \<Rightarrow> [] | e # es \<Rightarrow> (y # e) # es))"

lemma split_on_step:
  "split_on x p = takeWhile (\<lambda>c. c \<noteq> x) p #
     (case dropWhile (\<lambda>c. c \<noteq> x) p of [] \<Rightarrow> [] | _ # q \<Rightarrow> split_on x q)"
  by (induction p) auto

lemma split_on_leading:
  "filter (\<lambda>e. e \<noteq> []) (split_on x (dropWhile (\<lambda>c. c = x) p)) = filter (\<lambda>e. e \<noteq> []) (split_on x p)"
  by (induction p) auto

lemma split_on_first:
  assumes "p \<noteq> []" "hd p \<noteq> x"
  shows "filter (\<lambda>e. e \<noteq> []) (split_on x p) =
    takeWhile (\<lambda>c. c \<noteq> x) p # filter (\<lambda>e. e \<noteq> []) (split_on x (dropWhile (\<lambda>c. c \<noteq> x) p))"
proof -
  have "takeWhile (\<lambda>c. c \<noteq> x) p \<noteq> []" using assms by (cases p) auto
  moreover have "filter (\<lambda>e. e \<noteq> []) (case dropWhile (\<lambda>c. c \<noteq> x) p of [] \<Rightarrow> [] | _ # q \<Rightarrow> split_on x q) =
      filter (\<lambda>e. e \<noteq> []) (split_on x (dropWhile (\<lambda>c. c \<noteq> x) p))"
  proof (cases "dropWhile (\<lambda>c. c \<noteq> x) p")
    case (Cons c q)
    then have "c = x" using hd_dropWhile [of "\<lambda>c. c \<noteq> x" p] by simp
    then show ?thesis unfolding Cons by simp
  next
    case Nil
    then show ?thesis unfolding Nil by simp
  qed
  ultimately show ?thesis by (subst split_on_step) simp
qed

lemma cstr_list:
  "0 \<notin> set e \<Longrightarrow> (\<And>i. i < length e \<Longrightarrow> i < n \<Longrightarrow> p i = e ! i) \<Longrightarrow> (length e < n \<Longrightarrow> p (length e) = 0) \<Longrightarrow>
    cstr p n = take n e"
proof (induction e arbitrary: p n)
  case Nil
  then show ?case by (cases n) auto
next
  case (Cons c e)
  show ?case
  proof (cases n)
    case (Suc m)
    have "cstr (\<lambda>i. p (Suc i)) m = take m e"
      using Cons.prems(1) Cons.prems(2) [of "Suc _"] Cons.prems(3) Suc by (intro Cons.IH) auto
    then show ?thesis using Cons.prems(1) Cons.prems(2) [of 0] Suc by simp
  qed simp
qed

lemma cstr_copy_name: "0 \<notin> set e \<Longrightarrow> cstr (copy_name e name) DIRSIZ = take DIRSIZ e"
  by (rule cstr_list) (auto simp: copy_name_def)

text \<open>The names that repeated calls of \<open>skipelem\<close>, each on the rest of the one before, leave in \<open>name\<close>.\<close>

function path_names :: "u8 list \<Rightarrow> cptr \<Rightarrow> u8 list list" where
  "path_names path name = (case skipelem path name of
     None \<Rightarrow> [] | Some (path, name) \<Rightarrow> cstr name DIRSIZ # path_names path name)"
  by pat_completeness auto

termination
  by (relation "measure (\<lambda>(path, name). length path)") (auto dest: skipelem_shorter)

declare path_names.simps [simp del]

text \<open>
  C18. Path splitting: the elements that repeated \<open>skipelem\<close> delivers are exactly the non-empty strings
  between the slashes of the path, each cut to \<open>DIRSIZ\<close> bytes; in particular leading, trailing and
  repeated slashes do not matter.
\<close>

theorem skipelem_splits:
  assumes "0 \<notin> set path"
  shows "path_names path name = map (take DIRSIZ) (filter (\<lambda>e. e \<noteq> []) (split_on slash path))"
  using assms
proof (induction "length path" arbitrary: path name rule: less_induct)
  case less
  define p where "p = dropWhile (\<lambda>c. c = slash) path"
  note lead = split_on_leading [of slash path, folded p_def]
  show ?case
  proof (cases "p = []")
    case True
    then have "skipelem path name = None" by (simp add: skipelem_def p_def [symmetric] Let_def)
    then show ?thesis using lead True by (subst path_names.simps) simp
  next
    case False
    define e where "e = takeWhile (\<lambda>c. c \<noteq> slash) p"
    define q where "q = dropWhile (\<lambda>c. c \<noteq> slash) p"
    have sk: "skipelem path name = Some (dropWhile (\<lambda>c. c = slash) q, copy_name e name)"
      unfolding skipelem_def Let_def p_def [symmetric] if_not_P [OF False] e_def q_def ..
    have "hd p \<noteq> slash" using False hd_dropWhile [of "\<lambda>c. c = slash" path] unfolding p_def by blast
    then have f: "filter (\<lambda>e. e \<noteq> []) (split_on slash path) = e # filter (\<lambda>e. e \<noteq> []) (split_on slash q)"
      using split_on_first [OF False] lead unfolding e_def q_def by simp
    have z: "0 \<notin> set e" "0 \<notin> set (dropWhile (\<lambda>c. c = slash) q)"
      using less.prems unfolding e_def q_def p_def by (meson set_takeWhileD set_dropWhileD)+
    have "path_names (dropWhile (\<lambda>c. c = slash) q) (copy_name e name) =
        map (take DIRSIZ) (filter (\<lambda>e. e \<noteq> []) (split_on slash (dropWhile (\<lambda>c. c = slash) q)))"
      by (rule less.hyps [OF skipelem_shorter [OF sk] z(2)])
    then show ?thesis
      using f cstr_copy_name [OF z(1)] by (subst path_names.simps) (simp add: sk split_on_leading)
  qed
qed

text \<open>The examples of the comment: \<open>///a//bb\<close> and \<open>////\<close>.\<close>

lemma skipelem_splits_witness:
  "path_names [47, 47, 47, 97, 47, 47, 98, 98] (\<lambda>_. 0) = [[97], [98, 98]] \<and> path_names [47, 47, 47, 47] (\<lambda>_. 0) = []"
  using skipelem_splits [of "[47, 47, 47, 97, 47, 47, 98, 98]" "\<lambda>_. 0"] skipelem_splits [of "[47, 47, 47, 47]" "\<lambda>_. 0"] by simp

end
