(* ===== verification/Fifo.thy ===== *)
theory Fifo imports Prelude begin

text \<open>
  The contract of a bounded first-in first-out buffer. Three parts of the code implement it with an
  array and running counters: pipes (pipe.c), the console input line (console.c) and the request
  buffer of the web server (server.c). Each of their theories interprets the locale on its own
  operations.
\<close>

locale fifo =
  fixes wf :: "'s \<Rightarrow> bool" and cont :: "'s \<Rightarrow> 'a list" and cap :: nat
    and put :: "'a \<Rightarrow> 's \<Rightarrow> 's" and get :: "'s \<Rightarrow> 'a \<times> 's"
  assumes bounded: "wf s \<Longrightarrow> length (cont s) \<le> cap"
    and put_cont: "wf s \<Longrightarrow> length (cont s) < cap \<Longrightarrow> wf (put x s) \<and> cont (put x s) = cont s @ [x]"
    and get_cont: "wf s \<Longrightarrow> cont s = x # xs \<Longrightarrow> fst (get s) = x \<and> wf (snd (get s)) \<and> cont (snd (get s)) = xs"
begin

text \<open>As many puts, or gets, as there is room, or content, for.\<close>

fun put_all :: "'a list \<Rightarrow> 's \<Rightarrow> 's" where
  "put_all [] s = s"
| "put_all (x # xs) s = put_all xs (put x s)"

fun get_n :: "nat \<Rightarrow> 's \<Rightarrow> 'a list \<times> 's" where
  "get_n 0 s = ([], s)"
| "get_n (Suc n) s = (let (x, s) = get s; (xs, s) = get_n n s in (x # xs, s))"

lemma put_all_cont:
  "wf s \<Longrightarrow> length (cont s) + length xs \<le> cap \<Longrightarrow> wf (put_all xs s) \<and> cont (put_all xs s) = cont s @ xs"
  by (induction xs arbitrary: s) (auto simp: put_cont)

lemma get_n_cont:
  "wf s \<Longrightarrow> n \<le> length (cont s) \<Longrightarrow>
    fst (get_n n s) = take n (cont s) \<and> wf (snd (get_n n s)) \<and> cont (snd (get_n n s)) = drop n (cont s)"
proof (induction n arbitrary: s)
  case (Suc n)
  then obtain x xs where c: "cont s = x # xs" by (cases "cont s") auto
  obtain y t where g: "get s = (y, t)" by fastforce
  then have "y = x" "wf t" "cont t = xs" using get_cont [OF Suc.prems(1) c] by auto
  moreover have "n \<le> length (cont t)" using Suc.prems(2) c \<open>cont t = xs\<close> by simp
  ultimately show ?case using Suc.IH [of t] c g by (auto split: prod.split)
qed simp

text \<open>
  Interleavings of puts and gets that respect the bounds: \<open>run s0 ins outs s\<close> when the values
  \<open>ins\<close> have been put and \<open>outs\<close> taken, in these orders.
\<close>

inductive run :: "'s \<Rightarrow> 'a list \<Rightarrow> 'a list \<Rightarrow> 's \<Rightarrow> bool" for s0 where
  start: "run s0 [] [] s0"
| put: "run s0 ins outs s \<Longrightarrow> length (cont s) < cap \<Longrightarrow> run s0 (ins @ [x]) outs (put x s)"
| get: "run s0 ins outs s \<Longrightarrow> cont s \<noteq> [] \<Longrightarrow> run s0 ins (outs @ [fst (get s)]) (snd (get s))"

lemma run_fifo:
  "run s0 ins outs s \<Longrightarrow> wf s0 \<Longrightarrow> wf s \<and> cont s0 @ ins = outs @ cont s"
proof (induction rule: run.induct)
  case (put ins outs s x)
  then show ?case by (auto simp: put_cont)
next
  case (get ins outs s)
  then obtain x xs where "cont s = x # xs" by (cases "cont s") auto
  with get get_cont [of s x xs] show ?case by auto
qed simp

lemma run_put_all:
  "run s0 ins outs s \<Longrightarrow> wf s0 \<Longrightarrow> length (cont s) + length xs \<le> cap \<Longrightarrow> run s0 (ins @ xs) outs (put_all xs s)"
proof (induction xs arbitrary: ins s)
  case (Cons x xs)
  have "wf s" using run_fifo [OF Cons.prems(1,2)] by blast
  then have "run s0 ((ins @ [x]) @ xs) outs (put_all xs (put x s))"
    using Cons.prems by (intro Cons.IH run.put) (auto simp: put_cont)
  then show ?case by simp
qed simp

lemma run_get_n:
  "run s0 ins outs s \<Longrightarrow> wf s0 \<Longrightarrow> n \<le> length (cont s) \<Longrightarrow>
    run s0 ins (outs @ take n (cont s)) (snd (get_n n s))"
proof (induction n arbitrary: outs s)
  case (Suc n)
  have w: "wf s" using run_fifo [OF Suc.prems(1,2)] by blast
  obtain x xs where c: "cont s = x # xs" using Suc.prems(3) by (cases "cont s") auto
  obtain y t where g: "get s = (y, t)" by fastforce
  then have y: "y = x" "cont t = xs" using get_cont [OF w c] by auto
  have "run s0 ins (outs @ [x]) t" using run.get [OF Suc.prems(1)] c g y(1) by simp
  then have "run s0 ins ((outs @ [x]) @ take n (cont t)) (snd (get_n n t))"
    using Suc.prems c y by (intro Suc.IH) auto
  then show ?case using c g y by (auto simp: split_def Let_def)
qed simp

end

text \<open>
  The common implementation: an array indexed by a 32-bit counter modulo its size. The size divides
  $2^{32}$, so the positions stay right when the counters wrap around.
\<close>

definition ring_cont :: "nat \<Rightarrow> (nat \<Rightarrow> 'a) \<Rightarrow> u32 \<Rightarrow> u32 \<Rightarrow> 'a list" where
  "ring_cont sz d r w = map (\<lambda>i. d (unat (r + of_nat i) mod sz)) [0..<unat (w - r)]"

lemma length_ring_cont [simp]: "length (ring_cont sz d r w) = unat (w - r)"
  by (simp add: ring_cont_def)

lemma ring_index:
  assumes "sz dvd 2 ^ 32"
  shows "unat (r + of_nat i :: u32) mod sz = (unat r + i) mod sz"
proof -
  have "unat (r + of_nat i :: u32) = (unat r + i) mod 2 ^ 32"
    by (simp add: unat_word_ariths unat_of_nat mod_simps)
  then show ?thesis using assms by (simp add: mod_mod_cancel)
qed

lemma ring_put:
  assumes "sz dvd 2 ^ 32" "sz < 2 ^ 32" "unat (w - r) < sz"
  shows "ring_cont sz (d(unat w mod sz := x)) r (w + 1) = ring_cont sz d r w @ [x]"
proof -
  let ?n = "unat (w - r)"
  have w: "w = r + of_nat ?n" by simp
  have e: "w + 1 - r = (w - r) + 1" by simp
  have n: "unat (w + 1 - r) = Suc ?n" unfolding e using unat_add_lt [of "w - r" 1] assms(2,3) by simp
  have wi: "unat w mod sz = (unat r + ?n) mod sz"
    using ring_index [OF assms(1), of r ?n] w by metis
  have ne: "(unat r + i) mod sz \<noteq> (unat r + ?n) mod sz" if "i < ?n" for i
  proof
    assume "(unat r + i) mod sz = (unat r + ?n) mod sz"
    then have "sz dvd (unat r + ?n) - (unat r + i)"
      using that by (metis add_le_cancel_left less_imp_le mod_eq_dvd_iff_nat)
    then have "sz dvd ?n - i" by simp
    then show False using that assms(3) by (auto dest!: dvd_imp_le)
  qed
  show ?thesis
    unfolding ring_cont_def n using ne by (simp add: ring_index [OF assms(1)] wi)
qed

lemma ring_get:
  assumes "ring_cont sz d r w = x # xs"
  shows "d (unat r mod sz) = x" "ring_cont sz d (r + 1) w = xs" "unat (w - (r + 1)) = unat (w - r) - 1"
proof -
  have "unat (w - r) = Suc (length xs)" using arg_cong [OF assms, of length] by simp
  then have "unat (w - r) \<noteq> 0" by simp
  then have "1 \<le> w - r" by (simp add: word_le_nat_alt)
  then have "unat (w - r - 1) = unat (w - r) - 1" by (simp add: unat_sub)
  then show n: "unat (w - (r + 1)) = unat (w - r) - 1" by (simp add: diff_diff_eq)
  obtain k where k: "unat (w - r) = Suc k" using \<open>unat (w - r) \<noteq> 0\<close> by (cases "unat (w - r)") auto
  have u: "[0..<Suc k] = 0 # map Suc [0..<k]" by (simp add: upt_conv_Cons map_Suc_upt del: upt_Suc)
  from assms have c: "map (\<lambda>i. d (unat (r + of_nat i) mod sz)) (0 # map Suc [0..<k]) = x # xs"
    unfolding ring_cont_def k u .
  then show "d (unat r mod sz) = x" by simp
  have "unat (w - (r + 1)) = k" using n k by simp
  with c show "ring_cont sz d (r + 1) w = xs" by (auto simp: ring_cont_def add.assoc)
qed

end
