(* ===== verification/Pipe.thy ===== *)
theory Pipe imports Fifo begin

text \<open>
  kernel/pipe.c: the ring buffer of a pipe. \<open>pipewrite\<close> and \<open>piperead\<close> run with the pipe's lock held,
  so a call is atomic up to the point where it returns or goes to sleep; the model gives that
  point as its outcome, with the channels it woke. A sleeping call is run again from its resume
  point. The lock field is not part of the record. \<open>pipealloc\<close> is in theory File.
\<close>

abbreviation PIPESIZE :: nat where "PIPESIZE \<equiv> 512"

record pipe =
  pdata :: "nat \<Rightarrow> u8"
  nread :: u32
  nwrite :: u32
  readopen :: bool
  writeopen :: bool

text \<open>The channels \<open>&p->nread\<close> and \<open>&p->nwrite\<close>.\<close>

datatype pchan = NREAD | NWRITE

datatype 'r outcome = Ret int | Sleep pchan 'r

definition pipe_full :: "pipe \<Rightarrow> bool" where
  "pipe_full p \<longleftrightarrow> nwrite p = nread p + 512"

definition pipe_put :: "u8 \<Rightarrow> pipe \<Rightarrow> pipe" where
  "pipe_put b p = p\<lparr>pdata := (pdata p)(unat (nwrite p) mod PIPESIZE := b), nwrite := nwrite p + 1\<rparr>"

definition pipe_get :: "pipe \<Rightarrow> u8 \<times> pipe" where
  "pipe_get p = (pdata p (unat (nread p) mod PIPESIZE), p\<lparr>nread := nread p + 1\<rparr>)"

text \<open>The pipe that \<open>pipealloc\<close> sets up; \<open>d\<close> is what the page held before.\<close>

definition pipeinit :: "(nat \<Rightarrow> u8) \<Rightarrow> pipe" where
  "pipeinit d = \<lparr>pdata = d, nread = 0, nwrite = 0, readopen = True, writeopen = True\<rparr>"

text \<open>\<open>pipeclose\<close>: the pipe, the channel it wakes, and whether its page is freed.\<close>

definition pipeclose :: "pipe \<Rightarrow> bool \<Rightarrow> pipe \<times> pchan list \<times> bool" where
  "pipeclose p writable =
     (let (p, w) = (if writable then (p\<lparr>writeopen := False\<rparr>, [NREAD])
                    else (p\<lparr>readopen := False\<rparr>, [NWRITE]))
      in (p, w, \<not> readopen p \<and> \<not> writeopen p))"

text \<open>
  The loop of \<open>pipewrite\<close> from index \<open>i\<close>; \<open>kld\<close> is the \<open>killed\<close> flag of the calling process. Its
  resume point is the index it sleeps at.
\<close>

function pipewrite_from :: "pipe \<Rightarrow> (nat \<Rightarrow> u8) \<Rightarrow> int \<Rightarrow> bool \<Rightarrow> nat \<Rightarrow> pipe \<times> pchan list \<times> nat outcome" where
  "pipewrite_from p addr n kld i =
     (if int i < n then
        if pipe_full p then
          if \<not> readopen p \<or> kld then (p, [], Ret (-1))
          else (p, [NREAD], Sleep NWRITE i)
        else pipewrite_from (pipe_put (addr i) p) addr n kld (Suc i)
      else (p, [NREAD], Ret n))"
  by pat_completeness auto

termination by (relation "measure (\<lambda>(p, addr, n, kld, i). nat n - i)") auto

declare pipewrite_from.simps [simp del]

definition pipewrite :: "pipe \<Rightarrow> (nat \<Rightarrow> u8) \<Rightarrow> int \<Rightarrow> bool \<Rightarrow> pipe \<times> pchan list \<times> nat outcome" where
  "pipewrite p addr n kld = pipewrite_from p addr n kld 0"

text \<open>The copy loop of \<open>piperead\<close>; the bytes stored at \<open>addr\<close> are returned as a list.\<close>

fun piperead_copy :: "pipe \<Rightarrow> nat \<Rightarrow> u8 list \<times> pipe" where
  "piperead_copy p 0 = ([], p)"
| "piperead_copy p (Suc n) =
     (if nread p = nwrite p then ([], p)
      else let (b, p) = pipe_get p; (bs, p) = piperead_copy p n in (b # bs, p))"

definition piperead :: "pipe \<Rightarrow> int \<Rightarrow> bool \<Rightarrow> pipe \<times> pchan list \<times> u8 list \<times> unit outcome" where
  "piperead p n kld =
     (if nread p = nwrite p \<and> writeopen p then
        if kld then (p, [], [], Ret (-1)) else (p, [], [], Sleep NREAD ())
      else let (bs, p) = piperead_copy p (nat n) in (p, [NWRITE], bs, Ret (int (length bs))))"

section \<open>The pipe as a bounded buffer\<close>

definition pipe_ok :: "pipe \<Rightarrow> bool" where
  "pipe_ok p \<longleftrightarrow> unat (nwrite p - nread p) \<le> PIPESIZE"

definition contents :: "pipe \<Rightarrow> u8 list" where
  "contents p = ring_cont PIPESIZE (pdata p) (nread p) (nwrite p)"

lemma length_contents: "length (contents p) = unat (nwrite p - nread p)"
  by (simp add: contents_def)

lemma contents_pipeinit [simp]: "contents (pipeinit d) = []" "pipe_ok (pipeinit d)"
  by (simp_all add: contents_def pipe_ok_def pipeinit_def ring_cont_def)

lemma pipe_full_iff: "pipe_full p \<longleftrightarrow> length (contents p) = PIPESIZE"
proof -
  have "pipe_full p \<longleftrightarrow> nwrite p - nread p = 512"
    by (auto simp: pipe_full_def algebra_simps)
  then show ?thesis by (simp add: length_contents word_unat_eq_iff)
qed

lemma pipe_empty_iff: "nread p = nwrite p \<longleftrightarrow> contents p = []"
proof -
  have "contents p = [] \<longleftrightarrow> unat (nwrite p - nread p) = 0" by (metis length_0_conv length_contents)
  then show ?thesis by (auto simp: unat_eq_0)
qed

interpretation pfifo: fifo pipe_ok contents PIPESIZE pipe_put pipe_get
proof
  show "length (contents p) \<le> PIPESIZE" if "pipe_ok p" for p
    using that by (simp add: pipe_ok_def length_contents)
  show "pipe_ok (pipe_put b p) \<and> contents (pipe_put b p) = contents p @ [b]"
    if "length (contents p) < PIPESIZE" for p b
  proof -
    have "contents (pipe_put b p) = contents p @ [b]"
      using that ring_put [of PIPESIZE "nwrite p" "nread p"] by (simp add: contents_def pipe_put_def)
    then show ?thesis using that length_contents [of "pipe_put b p"] by (simp add: pipe_ok_def)
  qed
  show "fst (pipe_get p) = b \<and> pipe_ok (snd (pipe_get p)) \<and> contents (snd (pipe_get p)) = bs"
    if "pipe_ok p" "contents p = b # bs" for p b bs
    using that ring_get [of PIPESIZE "pdata p" "nread p" "nwrite p" b bs]
    by (simp add: pipe_ok_def contents_def pipe_get_def)
qed

lemma pipe_put_frame [frame_simps]:
  "readopen (pipe_put b p) = readopen p" "writeopen (pipe_put b p) = writeopen p"
  by (simp_all add: pipe_put_def)

lemma piperead_copy_get_n:
  "pipe_ok p \<Longrightarrow> piperead_copy p n = pfifo.get_n (min n (length (contents p))) p"
proof (induction n arbitrary: p)
  case (Suc n)
  show ?case
  proof (cases "contents p")
    case Nil
    then show ?thesis by (simp add: pipe_empty_iff)
  next
    case (Cons b bs)
    then have "pipe_ok (snd (pipe_get p)) \<and> contents (snd (pipe_get p)) = bs"
      using pfifo.get_cont [OF Suc.prems Cons] by blast
    with Cons Suc.IH [of "snd (pipe_get p)"] show ?thesis
      by (simp add: pipe_empty_iff split_def Let_def)
  qed
qed simp


section \<open>What a call does\<close>

lemma put_all_frame [frame_simps]:
  "readopen (pfifo.put_all xs p) = readopen p" "writeopen (pfifo.put_all xs p) = writeopen p"
  "nread (pfifo.put_all xs p) = nread p" "nwrite (pfifo.put_all xs p) = nwrite p + of_nat (length xs)"
  by (induction xs arbitrary: p) (simp_all add: pipe_put_def)

lemma get_n_frame [frame_simps]:
  "readopen (snd (pfifo.get_n n p)) = readopen p" "writeopen (snd (pfifo.get_n n p)) = writeopen p"
  "nwrite (snd (pfifo.get_n n p)) = nwrite p"
  by (induction n arbitrary: p) (simp_all add: pipe_get_def split_def Let_def)

text \<open>\<open>k\<close> is the number of bytes \<open>pipewrite\<close> stores before it returns or sleeps.\<close>

lemma pipewrite_from_eq:
  fixes n :: int and i :: nat
  assumes "pipe_ok p"
  defines "k \<equiv> min (nat n - i) (PIPESIZE - length (contents p))"
  shows "pipewrite_from p addr n kld i =
    (pfifo.put_all (map addr [i..<i + k]) p,
     if n \<le> int (i + k) then ([NREAD], Ret n)
     else if \<not> readopen p \<or> kld then ([], Ret (-1))
     else ([NREAD], Sleep NWRITE (i + k)))"
  using assms(1) unfolding k_def
proof (induction p addr n kld i rule: pipewrite_from.induct)
  case (1 p addr n kld i)
  have le: "length (contents p) \<le> PIPESIZE" by (rule pfifo.bounded [OF "1.prems"])
  show ?case
  proof (cases "int i < n \<and> \<not> pipe_full p")
    case True
    then have lt: "length (contents p) < PIPESIZE" using le by (simp add: pipe_full_iff)
    define q where "q = pipe_put (addr i) p"
    have q: "pipe_ok q" "contents q = contents p @ [addr i]"
      using pfifo.put_cont [OF "1.prems" lt] unfolding q_def by auto
    define k where "k = min (nat n - Suc i) (PIPESIZE - length (contents q))"
    have k: "min (nat n - i) (PIPESIZE - length (contents p)) = Suc k"
    proof -
      have "nat n - i = Suc (nat n - Suc i)" using True by linarith
      moreover have "PIPESIZE - length (contents p) = Suc (PIPESIZE - length (contents q))"
        using lt q(2) by simp
      ultimately show ?thesis by (simp only: k_def min_Suc_Suc)
    qed
    have "map addr [i..<i + Suc k] = addr i # map addr [Suc i..<Suc i + k]"
      by (simp add: upt_conv_Cons del: upt_Suc)
    moreover have "pipewrite_from p addr n kld i = pipewrite_from q addr n kld (Suc i)"
      using True by (subst pipewrite_from.simps) (simp add: q_def)
    moreover have "readopen q = readopen p" by (simp add: q_def frame_simps)
    moreover note "1.IH" [OF _ _ q(1) [unfolded q_def], folded q_def, folded k_def]
    ultimately show ?thesis unfolding k using True q_def by simp
  next
    case False
    then have "min (nat n - i) (PIPESIZE - length (contents p)) = 0"
      using le by (auto simp: pipe_full_iff)
    moreover have "n \<le> int i \<or> pipe_full p" using False by auto
    ultimately show ?thesis by (subst pipewrite_from.simps) auto
  qed
qed

lemma piperead_eq:
  assumes "pipe_ok p"
  shows "piperead p n kld =
    (if contents p = [] \<and> writeopen p then (p, [], [], if kld then Ret (-1) else Sleep NREAD ())
     else (snd (pfifo.get_n (min (nat n) (length (contents p))) p), [NWRITE], take (nat n) (contents p),
           Ret (int (min (nat n) (length (contents p))))))"
proof -
  have "fst (pfifo.get_n (min (nat n) (length (contents p))) p) = take (nat n) (contents p)"
    using pfifo.get_n_cont [OF assms, of "min (nat n) (length (contents p))"] by (simp add: min_def)
  then show ?thesis
    by (simp add: piperead_def pipe_empty_iff piperead_copy_get_n [OF assms] split_def Let_def min.commute)
qed


section \<open>Processes sharing a pipe\<close>

text \<open>
  Any number of processes with calls under way on one pipe. A process with a call either runs or
  sleeps on a channel; \<open>sent\<close> and \<open>got\<close> record the bytes that went in and out. \<open>wakeup\<close> makes every
  process on its channel runnable; \<open>kill\<close> sets the flag and makes its target runnable.
\<close>

datatype pipe_call = Wr "nat \<Rightarrow> u8" int nat | Rd int

record psys =
  pp :: pipe
  calls :: "nat \<Rightarrow> pipe_call option"
  asleep :: "nat \<Rightarrow> pchan option"
  killset :: "nat set"
  sent :: "u8 list"
  got :: "u8 list"

definition wake :: "pchan list \<Rightarrow> (nat \<Rightarrow> pchan option) \<Rightarrow> nat \<Rightarrow> pchan option" where
  "wake w m = (\<lambda>pid. case m pid of Some c \<Rightarrow> if c \<in> set w then None else Some c | None \<Rightarrow> None)"

text \<open>One run of a call, until it returns or sleeps.\<close>

definition run_call :: "nat \<Rightarrow> pipe_call \<Rightarrow> psys \<Rightarrow> psys" where
  "run_call pid c s = (case c of
     Wr addr n i \<Rightarrow>
       (let (p, w, out) = pipewrite_from (pp s) addr n (pid \<in> killset s) i;
            s = s\<lparr>pp := p, asleep := wake w (asleep s),
                  sent := sent s @ map addr [i..<i + unat (nwrite p - nwrite (pp s))]\<rparr>
        in case out of Ret r \<Rightarrow> s\<lparr>calls := (calls s)(pid := None)\<rparr>
           | Sleep ch j \<Rightarrow> s\<lparr>calls := (calls s)(pid \<mapsto> Wr addr n j), asleep := (asleep s)(pid \<mapsto> ch)\<rparr>)
   | Rd n \<Rightarrow>
       (let (p, w, bs, out) = piperead (pp s) n (pid \<in> killset s);
            s = s\<lparr>pp := p, asleep := wake w (asleep s), got := got s @ bs\<rparr>
        in case out of Ret r \<Rightarrow> s\<lparr>calls := (calls s)(pid := None)\<rparr>
           | Sleep ch j \<Rightarrow> s\<lparr>asleep := (asleep s)(pid \<mapsto> ch)\<rparr>))"

text \<open>
  A process calls \<open>write\<close> or \<open>read\<close> only through an open descriptor, and \<open>fileclose\<close> closes an end of
  the pipe only when no descriptor for it is left, so no call on that end is under way.
\<close>

inductive psys_step :: "psys \<Rightarrow> psys \<Rightarrow> bool" where
  begin_write: "calls s pid = None \<Longrightarrow> writeopen (pp s) \<Longrightarrow>
    psys_step s (s\<lparr>calls := (calls s)(pid \<mapsto> Wr addr n 0)\<rparr>)"
| begin_read: "calls s pid = None \<Longrightarrow> readopen (pp s) \<Longrightarrow>
    psys_step s (s\<lparr>calls := (calls s)(pid \<mapsto> Rd n)\<rparr>)"
| run: "calls s pid = Some c \<Longrightarrow> asleep s pid = None \<Longrightarrow> psys_step s (run_call pid c s)"
| close: "(\<And>pid c. calls s pid = Some c \<Longrightarrow> (case c of Wr _ _ _ \<Rightarrow> \<not> writable | Rd _ \<Rightarrow> writable)) \<Longrightarrow>
    pipeclose (pp s) writable = (p, w, freed) \<Longrightarrow> psys_step s (s\<lparr>pp := p, asleep := wake w (asleep s)\<rparr>)"
| kill: "psys_step s (s\<lparr>killset := insert pid (killset s), asleep := (asleep s)(pid := None)\<rparr>)"

inductive_cases psys_stepE: "psys_step s s'"

inductive psys_reach :: "psys \<Rightarrow> bool" where
  start: "calls s = Map.empty \<Longrightarrow> asleep s = Map.empty \<Longrightarrow> killset s = {} \<Longrightarrow> pp s = pipeinit d \<Longrightarrow>
    sent s = [] \<Longrightarrow> got s = [] \<Longrightarrow> psys_reach s"
| step: "psys_reach s \<Longrightarrow> psys_step s s' \<Longrightarrow> psys_reach s'"

text \<open>
  A process sleeps on \<open>NWRITE\<close> only while the pipe is full, and on \<open>NREAD\<close> only while it is empty
  with its write end open; the second holds as long as nobody has been killed.
\<close>

definition psys_inv :: "psys \<Rightarrow> bool" where
  "psys_inv s \<longleftrightarrow> pipe_ok (pp s) \<and> sent s = got s @ contents (pp s) \<and>
     (\<forall>pid a n i. calls s pid = Some (Wr a n i) \<longrightarrow> writeopen (pp s)) \<and>
     (\<forall>pid n. calls s pid = Some (Rd n) \<longrightarrow> readopen (pp s)) \<and>
     (\<forall>pid. asleep s pid = Some NWRITE \<longrightarrow>
        pipe_full (pp s) \<and> readopen (pp s) \<and> (\<exists>a n i. calls s pid = Some (Wr a n i) \<and> int i < n)) \<and>
     (\<forall>pid. asleep s pid = Some NREAD \<longrightarrow> (\<exists>n. calls s pid = Some (Rd n)) \<and>
        (killset s = {} \<longrightarrow> contents (pp s) = [] \<and> writeopen (pp s)))"

lemma wake_Some: "wake w m pid = Some c \<longleftrightarrow> m pid = Some c \<and> c \<notin> set w"
  by (auto simp: wake_def split: option.splits if_splits)

lemma psys_inv_run_write:
  assumes "psys_inv s" "calls s pid = Some (Wr addr n i)" "asleep s pid = None"
  shows "psys_inv (run_call pid (Wr addr n i) s)"
proof -
  let ?p = "pp s"
  define k where "k = min (nat n - i) (PIPESIZE - length (contents ?p))"
  define q where "q = pfifo.put_all (map addr [i..<i + k]) ?p"
  have ok: "pipe_ok ?p" and wo: "writeopen ?p" using assms(1,2) unfolding psys_inv_def by blast+
  have le: "length (contents ?p) \<le> PIPESIZE" by (rule pfifo.bounded [OF ok])
  then have q: "pipe_ok q" "contents q = contents ?p @ map addr [i..<i + k]"
    using pfifo.put_all_cont [OF ok, of "map addr [i..<i + k]"] by (simp_all add: q_def k_def)
  have fr: "readopen q = readopen ?p" "writeopen q = writeopen ?p" by (simp_all add: q_def frame_simps)
  have "k \<le> 512" by (simp add: k_def)
  then have nw: "unat (nwrite q - nwrite ?p) = k" by (simp add: q_def frame_simps unat_of_nat_lt)
  note w = pipewrite_from_eq [OF ok, of addr n "pid \<in> killset s" i, folded k_def, folded q_def]
  have full: "q = ?p" if "pipe_full ?p" using that by (simp add: q_def k_def pipe_full_iff)
  have nfull: "pipe_full q" if "\<not> n \<le> int (i + k)"
    using that q(2) le by (auto simp: k_def pipe_full_iff min_def split: if_splits)
  have sent: "sent s @ map addr [i..<i + k] = got s @ contents q" using assms(1) q(2) by (simp add: psys_inv_def)
  have NW: "pipe_full q \<and> readopen q \<and> (\<exists>a n i. calls s x = Some (Wr a n i) \<and> int i < n)"
    if "asleep s x = Some NWRITE" for x
    using assms(1) that full unfolding psys_inv_def by metis
  have NR: "\<exists>n. calls s x = Some (Rd n)" "killset s = {} \<Longrightarrow> readopen ?p" if "asleep s x = Some NREAD" for x
    using assms(1) that unfolding psys_inv_def by blast+
  have WO: "\<forall>x n. calls s x = Some (Rd n) \<longrightarrow> readopen q" using assms(1) fr unfolding psys_inv_def by metis
  have WR: "\<And>x a n i. calls s x = Some (Wr a n i) \<Longrightarrow> writeopen ?p"
    using assms(1) unfolding psys_inv_def by blast
  let ?s = "s\<lparr>pp := q, sent := sent s @ map addr [i..<i + k]\<rparr>"
  consider (ret) "n \<le> int (i + k)"
    | (fail) "\<not> n \<le> int (i + k)" "\<not> readopen ?p \<or> pid \<in> killset s"
    | (sleep) "\<not> n \<le> int (i + k)" "readopen ?p" "pid \<notin> killset s" by blast
  then show ?thesis
  proof cases
    case ret
    then have rc: "run_call pid (Wr addr n i) s =
        ?s\<lparr>asleep := wake [NREAD] (asleep s), calls := (calls s)(pid := None)\<rparr>"
      unfolding run_call_def pipe_call.case w by (simp add: nw)
    show ?thesis
      using q(1) sent NW WO wo fr assms(3) WR unfolding rc psys_inv_def by (auto simp: wake_Some)
  next
    case fail
    then have rc: "run_call pid (Wr addr n i) s =
        ?s\<lparr>asleep := wake [] (asleep s), calls := (calls s)(pid := None)\<rparr>"
      unfolding run_call_def pipe_call.case w by (auto simp: nw)
    have nr: "killset s \<noteq> {}" if "asleep s x = Some NREAD" for x using NR [OF that] fail(2) by auto
    show ?thesis
      using q(1) sent NW NR(1) nr WO wo fr assms(3) WR unfolding rc psys_inv_def by (auto simp: wake_Some)
  next
    case sleep
    then have rc: "run_call pid (Wr addr n i) s = ?s\<lparr>calls := (calls s)(pid \<mapsto> Wr addr n (i + k)),
        asleep := (wake [NREAD] (asleep s))(pid \<mapsto> NWRITE)\<rparr>"
      unfolding run_call_def pipe_call.case w by (simp add: nw)
    show ?thesis
      using q(1) sent NW WO wo fr assms(3) nfull sleep WR unfolding rc psys_inv_def by (auto simp: wake_Some)
  qed
qed

lemma psys_inv_run_read:
  assumes "psys_inv s" "calls s pid = Some (Rd n)" "asleep s pid = None"
  shows "psys_inv (run_call pid (Rd n) s)"
proof -
  let ?p = "pp s"
  define k where "k = min (nat n) (length (contents ?p))"
  define q where "q = snd (pfifo.get_n k ?p)"
  have ok: "pipe_ok ?p" and ro: "readopen ?p" using assms(1,2) unfolding psys_inv_def by blast+
  have q: "pipe_ok q" "contents q = drop k (contents ?p)"
    using pfifo.get_n_cont [OF ok, of k] by (simp_all add: q_def k_def)
  have fr: "readopen q = readopen ?p" "writeopen q = writeopen ?p" by (simp_all add: q_def frame_simps)
  note r = piperead_eq [OF ok, of n "pid \<in> killset s", folded k_def, folded q_def]
  have sent: "sent s = got s @ contents ?p" using assms(1) by (simp add: psys_inv_def)
  have k: "take (nat n) (contents ?p) @ contents q = contents ?p"
    unfolding q(2) k_def by (simp add: min_def)
  have NW: "pipe_full ?p \<and> readopen ?p \<and> (\<exists>a n i. calls s x = Some (Wr a n i) \<and> int i < n)"
    if "asleep s x = Some NWRITE" for x
    using assms(1) that unfolding psys_inv_def by metis
  have NR: "\<exists>n. calls s x = Some (Rd n)" "killset s = {} \<Longrightarrow> contents ?p = [] \<and> writeopen ?p"
    if "asleep s x = Some NREAD" for x
    using assms(1) that unfolding psys_inv_def by blast+
  have WO: "\<And>x n. calls s x = Some (Rd n) \<Longrightarrow> readopen ?p"
    "\<And>x a n i. calls s x = Some (Wr a n i) \<Longrightarrow> writeopen ?p" using assms(1) unfolding psys_inv_def by metis+
  show ?thesis
  proof (cases "contents ?p = [] \<and> writeopen ?p")
    case True
    show ?thesis
    proof (cases "pid \<in> killset s")
      case killed: True
      have rc: "run_call pid (Rd n) s =
          s\<lparr>pp := ?p, asleep := wake [] (asleep s), got := got s @ [], calls := (calls s)(pid := None)\<rparr>"
        using True killed unfolding run_call_def pipe_call.case r by simp
      show ?thesis using True ok sent NW NR WO assms(2,3) unfolding rc psys_inv_def by (auto simp: wake_Some)
    next
      case False
      have rc: "run_call pid (Rd n) s = s\<lparr>pp := ?p, got := got s @ [], asleep := (wake [] (asleep s))(pid \<mapsto> NREAD)\<rparr>"
        using True False unfolding run_call_def pipe_call.case r by simp
      show ?thesis using True ok sent NW NR WO assms(2,3) unfolding rc psys_inv_def by (auto simp: wake_Some)
    qed
  next
    case False
    then have rc: "run_call pid (Rd n) s = s\<lparr>pp := q, asleep := wake [NWRITE] (asleep s),
        got := got s @ take (nat n) (contents ?p), calls := (calls s)(pid := None)\<rparr>"
      unfolding run_call_def pipe_call.case r by auto
    show ?thesis
    proof (cases "\<exists>x. asleep s x = Some NREAD \<and> killset s = {}")
      case True
      then have "q = ?p" "contents ?p = [] \<and> writeopen ?p" using NR(2) by (auto simp: q_def k_def)
      with False show ?thesis by blast
    next
      case none: False
      show ?thesis using q(1) sent k NR(1) WO fr none assms(2,3) unfolding rc psys_inv_def by (auto simp: wake_Some)
    qed
  qed
qed

lemma psys_inv_step:
  assumes "psys_inv s" "psys_step s s'"
  shows "psys_inv s'"
  using assms(2)
proof cases
  case (begin_write pid n addr)
  then show ?thesis using assms(1) by (auto simp: psys_inv_def)
next
  case (begin_read pid n)
  then show ?thesis using assms(1) by (auto simp: psys_inv_def)
next
  case (run pid c)
  then show ?thesis using assms(1) psys_inv_run_write psys_inv_run_read by (cases c) auto
next
  case (close writable p w freed)
  show ?thesis
  proof (cases writable)
    case True
    then have p: "p = (pp s)\<lparr>writeopen := False\<rparr>" "w = [NREAD]"
      using close(3) by (auto simp: pipeclose_def)
    have "calls s pid \<noteq> Some (Wr a n i)" for pid a n i using close(2) True by force
    then show ?thesis using assms(1) unfolding psys_inv_def close(1) p
      by (auto simp: wake_Some pipe_full_def contents_def pipe_ok_def)
  next
    case False
    then have p: "p = (pp s)\<lparr>readopen := False\<rparr>" "w = [NWRITE]"
      using close(3) by (auto simp: pipeclose_def)
    have "calls s pid \<noteq> Some (Rd n)" for pid n using close(2) False by force
    then show ?thesis using assms(1) unfolding psys_inv_def close(1) p
      by (auto simp: wake_Some pipe_full_def contents_def pipe_ok_def)
  qed
next
  case (kill pid)
  then show ?thesis using assms(1) by (auto simp: psys_inv_def)
qed

lemma psys_reach_inv: "psys_reach s \<Longrightarrow> psys_inv s"
proof (induction rule: psys_reach.induct)
  case (start s d)
  then show ?case by (simp add: psys_inv_def)
next
  case (step s s')
  then show ?case by (blast intro: psys_inv_step)
qed

section \<open>Properties\<close>

text \<open>
  C7. A pipe is a first-in first-out byte stream: however reads and writes of any number of processes
  interleave, block and resume, the bytes written so far are the bytes read so far followed by the
  bytes in the buffer, and never more than 512 bytes are buffered. The counters wrap around at 32
  bits without any effect on this.
\<close>

theorem pipe_stream:
  assumes "psys_reach s"
  shows "sent s = got s @ contents (pp s) \<and> length (contents (pp s)) \<le> PIPESIZE"
  using psys_reach_inv [OF assms] pfifo.bounded [of "pp s"] by (simp add: psys_inv_def)

definition psys0 :: psys where
  "psys0 = \<lparr>pp = pipeinit (\<lambda>_. 0), calls = Map.empty, asleep = Map.empty, killset = {}, sent = [], got = []\<rparr>"

lemma psys0_reach: "psys_reach psys0"
  by (rule psys_reach.start [where d = "\<lambda>_. 0"]) (simp_all add: psys0_def)

definition psys_write :: "nat \<Rightarrow> (nat \<Rightarrow> u8) \<Rightarrow> int \<Rightarrow> psys \<Rightarrow> psys" where
  "psys_write pid addr n s = run_call pid (Wr addr n 0) (s\<lparr>calls := (calls s)(pid \<mapsto> Wr addr n 0)\<rparr>)"

definition psys_read :: "nat \<Rightarrow> int \<Rightarrow> psys \<Rightarrow> psys" where
  "psys_read pid n s = run_call pid (Rd n) (s\<lparr>calls := (calls s)(pid \<mapsto> Rd n)\<rparr>)"

lemma psys_write_reach:
  assumes "psys_reach s" "calls s pid = None" "asleep s pid = None" "writeopen (pp s)"
  shows "psys_reach (psys_write pid addr n s)"
proof -
  have "psys_step s (s\<lparr>calls := (calls s)(pid \<mapsto> Wr addr n 0)\<rparr>)"
    by (rule psys_step.begin_write [OF assms(2,4)])
  moreover have "psys_step (s\<lparr>calls := (calls s)(pid \<mapsto> Wr addr n 0)\<rparr>) (psys_write pid addr n s)"
    unfolding psys_write_def by (rule psys_step.run) (simp_all add: assms)
  ultimately show ?thesis using assms(1) psys_reach.step by blast
qed

lemma psys_read_reach:
  assumes "psys_reach s" "calls s pid = None" "asleep s pid = None" "readopen (pp s)"
  shows "psys_reach (psys_read pid n s)"
proof -
  have "psys_step s (s\<lparr>calls := (calls s)(pid \<mapsto> Rd n)\<rparr>)"
    by (rule psys_step.begin_read [OF assms(2,4)])
  moreover have "psys_step (s\<lparr>calls := (calls s)(pid \<mapsto> Rd n)\<rparr>) (psys_read pid n s)"
    unfolding psys_read_def by (rule psys_step.run) (simp_all add: assms)
  ultimately show ?thesis using assms(1) psys_reach.step by blast
qed

lemma pipe_stream_witness:
  defines "s \<equiv> psys_write 1 (\<lambda>i. of_nat (i + 7)) 3 psys0"
  shows "sent s = got s @ contents (pp s) \<and> length (contents (pp s)) \<le> 512 \<and> sent s = [7, 8, 9]"
proof -
  have "psys_reach s" unfolding s_def by (rule psys_write_reach [OF psys0_reach]) (simp_all add: psys0_def pipeinit_def)
  moreover have "sent s = [7, 8, 9]"
    by (simp add: s_def psys_write_def run_call_def psys0_def pipewrite_from_eq split_def Let_def frame_simps upt_rec)
      (simp add: pipe_put_def pipeinit_def)
  ultimately show ?thesis using pipe_stream [of s] by simp
qed

text \<open>
  C8. No wakeup is lost: as long as no process has been killed, a writer sleeps only while the
  buffer is full and the read end open, a reader only while it is empty and the write end open.
\<close>

theorem pipe_no_lost_wakeup:
  assumes "psys_reach s" "killset s = {}"
  shows "case asleep s pid of None \<Rightarrow> True
    | Some NWRITE \<Rightarrow> length (contents (pp s)) = PIPESIZE \<and> readopen (pp s)
    | Some NREAD \<Rightarrow> contents (pp s) = [] \<and> writeopen (pp s)"
  using psys_reach_inv [OF assms(1)] assms(2)
  by (auto simp: psys_inv_def pipe_full_iff split: option.split pchan.split)

lemma pipe_no_lost_wakeup_witness:
  defines "s \<equiv> psys_read 1 3 psys0"
  shows "asleep s 1 = Some NREAD \<and> contents (pp s) = [] \<and> writeopen (pp s)"
proof -
  have "psys_reach s" unfolding s_def by (rule psys_read_reach [OF psys0_reach]) (simp_all add: psys0_def pipeinit_def)
  moreover have "asleep s 1 = Some NREAD" "killset s = {}"
    by (simp_all add: s_def psys_read_def run_call_def psys0_def piperead_eq pipeinit_def [symmetric] Let_def)
      (simp_all add: pipeinit_def)
  ultimately show ?thesis using pipe_no_lost_wakeup [of s 1] by simp
qed

text \<open>
  A killed writer can lose a wakeup: \<open>pipewrite\<close> returns early, when the buffer is full and the
  process has been killed, without the \<open>wakeup(&p->nread)\<close> of its other exits. A reader that went to
  sleep on the empty pipe before then sleeps on while 512 bytes wait for it.
\<close>

theorem pipe_killed_writer_loses_wakeup:
  "\<exists>s. psys_reach s \<and> asleep s 1 = Some NREAD \<and> calls s = [1 \<mapsto> Rd 1] \<and>
     length (contents (pp s)) = 512"
proof -
  let ?p = "pipeinit (\<lambda>_. 0)" and ?w = "Wr (\<lambda>i. 0) 600 0"
  define s1 where "s1 = psys_read 1 1 psys0"
  have s1: "s1 = psys0\<lparr>calls := [1 \<mapsto> Rd 1], asleep := (wake [] Map.empty)(1 \<mapsto> NREAD)\<rparr>"
    unfolding s1_def psys_read_def run_call_def pipe_call.case psys0_def psys.simps
    by (simp add: piperead_eq) (simp add: pipeinit_def)
  have w: "wake [] m = m" for m by (rule ext) (auto simp: wake_def split: option.split)
  define s2 where "s2 = s1\<lparr>calls := (calls s1)(2 \<mapsto> ?w)\<rparr>"
  define s3 where "s3 = s2\<lparr>killset := insert 2 (killset s2), asleep := (asleep s2)(2 := None)\<rparr>"
  define s4 where "s4 = run_call 2 ?w s3"
  have r1: "psys_reach s1"
    unfolding s1_def by (rule psys_read_reach [OF psys0_reach]) (simp_all add: psys0_def pipeinit_def)
  have "psys_step s1 s2" unfolding s2_def by (rule psys_step.begin_write) (simp_all add: s1 psys0_def pipeinit_def)
  moreover have "psys_step s2 s3" unfolding s3_def by (rule psys_step.kill)
  moreover have "psys_step s3 s4" unfolding s4_def by (rule psys_step.run) (simp_all add: s3_def s2_def)
  ultimately have r: "psys_reach s4" using r1 psys_reach.step by blast
  have p3: "pp s3 = ?p" "2 \<in> killset s3" "asleep s3 = [1 \<mapsto> NREAD]" "calls s3 = [1 \<mapsto> Rd 1, 2 \<mapsto> ?w]"
    by (simp_all add: s3_def s2_def s1 psys0_def w fun_eq_iff)
  have e: "pipewrite_from ?p (\<lambda>i. 0) 600 True 0 = (pfifo.put_all (map (\<lambda>i. 0) [0..<512]) ?p, [], Ret (-1))"
    using pipewrite_from_eq [of ?p "\<lambda>i. 0" 600 True 0] by simp
  have s4: "pp s4 = pfifo.put_all (map (\<lambda>i. 0) [0..<512]) ?p" "asleep s4 = [1 \<mapsto> NREAD]"
    "calls s4 = [1 \<mapsto> Rd 1]"
    unfolding s4_def run_call_def pipe_call.case using p3 e by (simp_all add: w fun_eq_iff)
  have "length (contents (pp s4)) = 512"
    unfolding s4(1) using pfifo.put_all_cont [of ?p "map (\<lambda>i. 0) [0..<512]"] by simp
  then show ?thesis using r s4(2,3) by (intro exI [of _ s4]) auto
qed

end
