(* ===== verification/Kalloc.thy ===== *)
theory Kalloc imports KString begin

text \<open>
  kernel/kalloc.c: the physical page allocator. The free list is threaded through the free pages
  themselves, so the model keeps it where the code does: in physical memory, at \<open>freelist\<close>, each
  page holding the address of the next one in its first word. The kernel is identity mapped, so a
  kernel pointer is a physical address. The lock \<open>kmem.lock\<close> makes each operation one step.
\<close>

abbreviation PGSIZE :: u32 where "PGSIZE \<equiv> 4096"
abbreviation PHYSTOP :: u32 where "PHYSTOP \<equiv> 0x1000000"

text \<open>The rounding macros of kernel/mmu.h.\<close>

definition PGROUNDUP :: "u32 \<Rightarrow> u32" where
  "PGROUNDUP sz = (sz + PGSIZE - 1) AND NOT (PGSIZE - 1)"

definition PGROUNDDOWN :: "u32 \<Rightarrow> u32" where
  "PGROUNDDOWN a = a AND NOT (PGSIZE - 1)"

text \<open>
  \<open>kend\<close> is the linker symbol \<open>end\<close>, the first address after the kernel image, and \<open>kdata\<close> the
  symbol \<open>data\<close> of data.S, where the writable part of the image starts; no operation changes
  them.
\<close>

record kmem =
  mem :: pmem
  freelist :: u32
  kend :: u32
  kdata :: u32

definition kfree :: "u32 \<Rightarrow> kmem \<Rightarrow> kmem res" where
  "kfree v s =
     (if v mod PGSIZE \<noteq> 0 \<or> v < kend s \<or> PHYSTOP \<le> v then Inl (Panic ''kfree'')
      else Inr (s\<lparr>mem := st32 (memset (mem s) v 1 PGSIZE) v (freelist s), freelist := v\<rparr>))"

definition kalloc :: "kmem \<Rightarrow> u32 \<times> kmem" where
  "kalloc s =
     (let r = freelist s in
      (r, if r \<noteq> 0 then s\<lparr>freelist := ld32 (mem s) r\<rparr> else s))"

lemma kfree_ok:
  "kfree v s = Inr s' \<longleftrightarrow> v mod PGSIZE = 0 \<and> kend s \<le> v \<and> v < PHYSTOP \<and>
     s' = s\<lparr>mem := st32 (memset (mem s) v 1 PGSIZE) v (freelist s), freelist := v\<rparr>"
  by (auto simp: kfree_def not_less not_le)

text \<open>The loop of \<open>kinit\<close>, from page address \<open>p\<close>.\<close>

function kinit_from :: "u32 \<Rightarrow> kmem \<Rightarrow> kmem res" where
  "kinit_from p s =
     (if p + PGSIZE \<le> PHYSTOP then kbind (kfree p s) (kinit_from (p + PGSIZE)) else Inr s)"
  by pat_completeness auto
termination
proof (relation "measure (\<lambda>(p, s). unat PHYSTOP - unat p)")
  fix p s s'
  assume "p + PGSIZE \<le> PHYSTOP" "kfree p s = Inr s'"
  then have p: "unat p < unat PHYSTOP" by (simp add: kfree_ok word_less_nat_alt)
  then have "unat (p + PGSIZE) = unat p + unat PGSIZE" by (intro unat_add_lt) simp
  with p show "((p + PGSIZE, s'), p, s) \<in> measure (\<lambda>(p, s). unat PHYSTOP - unat p)" by simp
qed simp

declare kinit_from.simps [simp del]

definition kinit :: "kmem \<Rightarrow> kmem res" where
  "kinit s = kinit_from (PGROUNDUP (kend s)) s"

section \<open>The free list\<close>

definition page_ok :: "kmem \<Rightarrow> u32 \<Rightarrow> bool" where
  "page_ok s p \<longleftrightarrow> p mod PGSIZE = 0 \<and> kend s \<le> p \<and> p < PHYSTOP"

text \<open>The pages met when following the links from \<open>a\<close>.\<close>

fun chain :: "pmem \<Rightarrow> u32 \<Rightarrow> u32 list \<Rightarrow> bool" where
  "chain m a [] \<longleftrightarrow> a = 0"
| "chain m a (p # ps) \<longleftrightarrow> a = p \<and> p \<noteq> 0 \<and> chain m (ld32 m p) ps"

definition free_pages :: "kmem \<Rightarrow> u32 list \<Rightarrow> bool" where
  "free_pages s ps \<longleftrightarrow>
     chain (mem s) (freelist s) ps \<and> distinct ps \<and> (\<forall>p \<in> set ps. page_ok s p) \<and> 0 < kend s"

lemma page_ok_aligned: "page_ok s p \<Longrightarrow> aligned 4096 p"
  by (simp add: page_ok_def aligned_def word_unat_eq_iff unat_mod_distrib)

text \<open>Distinct pages share no byte.\<close>

lemma page_bytes_disjoint:
  assumes "aligned 4096 p" "aligned 4096 q" "p \<noteq> q" "unat (a - p) < 4096"
  shows "\<not> unat (a - q) < 4096"
  using aligned_add_inj [OF assms(1,2), of "a - p" "a - q"] assms(3,4) by auto

lemma chain_cong:
  assumes "chain m a ps"
    and "\<And>p. p \<in> set ps \<Longrightarrow> ld32 m' p = ld32 m p"
  shows "chain m' a ps"
  using assms by (induction ps arbitrary: a) auto

lemma ld32_eq_page:
  assumes "aligned 4096 p" "\<And>a. unat (a - p) < 4096 \<Longrightarrow> m' a = m a" "unat i \<le> 4092"
  shows "ld32 m' (p + i) = ld32 m (p + i)"
proof (rule ld32_cong)
  have "unat (p + i + j - p) < 4096" if "j \<in> {0, 1, 2, 3}" for j
    using unat_add_lt [of i j] assms(3) that by auto
  from this [of 0] this [of 1] this [of 2] this [of 3]
  show "m' (p + i) = m (p + i)" "m' (p + i + 1) = m (p + i + 1)" "m' (p + i + 2) = m (p + i + 2)"
    "m' (p + i + 3) = m (p + i + 3)"
    by (auto intro!: assms(2))
qed


lemma st32_out: "\<not> unat (b - a) < 4 \<Longrightarrow> st32 m a v b = m (b :: u32)"
  by (auto simp: st32_def)

lemma memset_page_out: "\<not> unat (a - p) < 4096 \<Longrightarrow> memset m p c PGSIZE a = m a"
  by (simp add: memset_def word_less_nat_alt)

lemma kfree_other_page:
  assumes "kfree v s = Inr s'" "aligned 4096 q" "q \<noteq> v" "unat (a - q) < 4096"
  shows "mem s' a = mem s a"
proof -
  have v: "aligned 4096 v" using assms(1) by (auto simp: kfree_ok aligned_def word_unat_eq_iff unat_mod_distrib)
  have "\<not> unat (a - v) < 4096" using page_bytes_disjoint [OF assms(2) v assms(3,4)] .
  then show ?thesis using assms(1) by (auto simp: kfree_ok st32_out memset_page_out)
qed

lemma kfree_free_pages:
  assumes "free_pages s ps" "kfree v s = Inr s'" "v \<notin> set ps"
  shows "free_pages s' (v # ps)"
proof -
  have s': "freelist s' = v" "ld32 (mem s') v = freelist s" "kend s' = kend s" and v: "page_ok s v"
    using assms(2) by (auto simp: kfree_ok page_ok_def)
  have "ld32 (mem s') p = ld32 (mem s) p" if "p \<in> set ps" for p
  proof -
    have p: "aligned 4096 p" "p \<noteq> v"
      using that assms(1,3) by (auto simp: free_pages_def intro: page_ok_aligned)
    show ?thesis using ld32_eq_page [OF p(1), of "mem s'" "mem s" 0] kfree_other_page [OF assms(2) p] by simp
  qed
  then have "chain (mem s') (freelist s) ps"
    using assms(1) by (auto simp: free_pages_def intro: chain_cong)
  moreover have "v \<noteq> 0" using v assms(1) by (auto simp: free_pages_def page_ok_def word_le_nat_alt word_less_nat_alt)
  ultimately show ?thesis using s' v assms(1,3) by (auto simp: free_pages_def page_ok_def)
qed

lemma kalloc_empty: "free_pages s [] \<Longrightarrow> kalloc s = (0, s)"
  by (simp add: free_pages_def kalloc_def)

lemma kalloc_pop: "free_pages s (p # ps) \<Longrightarrow> fst (kalloc s) = p \<and> free_pages (snd (kalloc s)) ps"
  by (auto simp: free_pages_def kalloc_def page_ok_def)

lemma kalloc_mem [simp]: "mem (snd (kalloc s)) = mem s" "kend (snd (kalloc s)) = kend s"
  by (simp_all add: kalloc_def Let_def)

lemma kfree_Inr_iff: "(\<exists>s'. kfree p s = Inr s') \<longleftrightarrow> page_ok s p"
  by (auto simp: kfree_ok page_ok_def)

section \<open>The interface the rest of the kernel relies on\<close>

text \<open>
  A page pool: \<open>pool s ps\<close> says that the free pages are \<open>ps\<close>. The clients (vm.c, proc.c, pipe.c)
  hold pages that are not in the pool; under these laws a page is never handed out twice.
\<close>

locale page_pool =
  fixes alloc :: "'s \<Rightarrow> u32 \<times> 's"
    and free :: "u32 \<Rightarrow> 's \<Rightarrow> 's res"
    and pool :: "'s \<Rightarrow> u32 list \<Rightarrow> bool"
    and is_page :: "'s \<Rightarrow> u32 \<Rightarrow> bool"
  assumes alloc_empty: "pool s [] \<Longrightarrow> alloc s = (0, s)"
    and alloc_pop: "pool s (p # ps) \<Longrightarrow> fst (alloc s) = p \<and> pool (snd (alloc s)) ps"
    and free_push: "pool s ps \<Longrightarrow> free p s = Inr s' \<Longrightarrow> p \<notin> set ps \<Longrightarrow> pool s' (p # ps)"
    and free_defined: "is_page s p \<Longrightarrow> \<exists>s'. free p s = Inr s'"
    and pool_pages: "pool s ps \<Longrightarrow> p \<in> set ps \<Longrightarrow> is_page s p \<and> p \<noteq> 0"
    and pool_distinct: "pool s ps \<Longrightarrow> distinct ps"
    and is_page_alloc: "is_page (snd (alloc s)) p \<longleftrightarrow> is_page s p"
    and is_page_free: "free q s = Inr s' \<Longrightarrow> is_page s' p \<longleftrightarrow> is_page s p"
begin

lemma alloc_nonnull:
  assumes "pool s ps" "alloc s = (r, s')" "r \<noteq> 0"
  obtains ps' where "ps = r # ps'" "pool s' ps'"
  using assms alloc_empty [of s] alloc_pop [of s] by (cases ps) fastforce+

lemma alloc_null: "pool s ps \<Longrightarrow> alloc s = (0, s') \<Longrightarrow> ps = [] \<and> s' = s"
  using alloc_empty [of s] alloc_pop [of s] pool_pages [of s] by (cases ps) fastforce+

text \<open>\<open>owned s H ps\<close>: the clients hold the pages \<open>H\<close>, none of them free.\<close>

definition owned :: "'s \<Rightarrow> u32 set \<Rightarrow> u32 list \<Rightarrow> bool" where
  "owned s H ps \<longleftrightarrow> pool s ps \<and> H \<inter> set ps = {} \<and> (\<forall>p \<in> H. is_page s p)"

lemma alloc_fresh:
  assumes "owned s H ps" "alloc s = (r, s')" "r \<noteq> 0"
  shows "r \<notin> H \<and> owned s' (insert r H) (tl ps) \<and> insert r (set (tl ps)) = set ps"
proof -
  from assms(1) have p: "pool s ps" by (simp add: owned_def)
  from alloc_nonnull [OF this assms(2,3)] obtain ps' where ps: "ps = r # ps'" "pool s' ps'" .
  have "is_page s' q \<longleftrightarrow> is_page s q" for q using is_page_alloc [of s q] assms(2) by simp
  then show ?thesis
    using assms(1) p ps pool_distinct [OF p] pool_pages [OF p, of r] by (auto simp: owned_def)
qed

lemma free_held:
  assumes "owned s H ps" "p \<in> H"
  shows "\<exists>s'. free p s = Inr s' \<and> owned s' (H - {p}) (p # ps)"
proof -
  from assms have "is_page s p" "p \<notin> set ps" "pool s ps" by (auto simp: owned_def)
  moreover from this obtain s' where s': "free p s = Inr s'" using free_defined by blast
  ultimately have "pool s' (p # ps)" by (blast intro: free_push)
  with s' assms(1) show ?thesis using is_page_free [OF s'] by (auto simp: owned_def)
qed

end

interpretation kpool: page_pool kalloc kfree free_pages page_ok
proof
  show "free_pages s [] \<Longrightarrow> kalloc s = (0, s)" for s by (rule kalloc_empty)
  show "free_pages s (p # ps) \<Longrightarrow> fst (kalloc s) = p \<and> free_pages (snd (kalloc s)) ps" for s p ps
    by (rule kalloc_pop)
  show "free_pages s ps \<Longrightarrow> kfree p s = Inr s' \<Longrightarrow> p \<notin> set ps \<Longrightarrow> free_pages s' (p # ps)" for s ps p s'
    by (rule kfree_free_pages)
  show "page_ok s p \<Longrightarrow> \<exists>s'. kfree p s = Inr s'" for s p by (simp add: kfree_Inr_iff)
  show "free_pages s ps \<Longrightarrow> p \<in> set ps \<Longrightarrow> page_ok s p \<and> p \<noteq> 0" for s ps p
    by (auto simp: free_pages_def page_ok_def word_le_nat_alt word_less_nat_alt)
  show "free_pages s ps \<Longrightarrow> distinct ps" for s ps by (simp add: free_pages_def)
  show "page_ok (snd (kalloc s)) p \<longleftrightarrow> page_ok s p" for s p by (simp add: page_ok_def)
  show "kfree q s = Inr s' \<Longrightarrow> page_ok s' p \<longleftrightarrow> page_ok s p" for q s s' p
    by (auto simp: page_ok_def kfree_ok)
qed

section \<open>Runs of the allocator\<close>

text \<open>
  Any interleaving of calls by clients that return only pages they hold: the state of the allocator
  and the pages that are out.
\<close>

inductive page_run :: "kmem \<Rightarrow> kmem \<Rightarrow> u32 set \<Rightarrow> bool" for s0 where
  start: "page_run s0 s0 {}"
| get: "page_run s0 s H \<Longrightarrow> kalloc s = (r, s') \<Longrightarrow> r \<noteq> 0 \<Longrightarrow> page_run s0 s' (insert r H)"
| get_none: "page_run s0 s H \<Longrightarrow> kalloc s = (0, s') \<Longrightarrow> page_run s0 s' H"
| put: "page_run s0 s H \<Longrightarrow> p \<in> H \<Longrightarrow> kfree p s = Inr s' \<Longrightarrow> page_run s0 s' (H - {p})"

lemma page_run_owned:
  assumes "page_run s0 s H" "free_pages s0 ps0"
  shows "\<exists>ps. kpool.owned s H ps \<and> H \<union> set ps = set ps0"
  using assms
proof (induction rule: page_run.induct)
  case start
  then show ?case by (auto simp: kpool.owned_def)
next
  case (get s H r s')
  then obtain ps where "kpool.owned s H ps" "H \<union> set ps = set ps0" by blast
  with kpool.alloc_fresh [OF this(1) get.hyps(2,3)] show ?case by (metis Un_insert_left Un_insert_right)
next
  case (get_none s H s')
  then obtain ps where ps: "kpool.owned s H ps" "H \<union> set ps = set ps0" by blast
  then have "s' = s" using kpool.alloc_null [OF _ get_none.hyps(2)] by (auto simp: kpool.owned_def)
  with ps show ?case by blast
next
  case (put s H p s')
  then obtain ps where ps: "kpool.owned s H ps" "H \<union> set ps = set ps0" by blast
  from kpool.free_held [OF ps(1) put.hyps(2)] put.hyps(3) have "kpool.owned s' (H - {p}) (p # ps)" by auto
  moreover have "(H - {p}) \<union> set (p # ps) = set ps0" using ps(2) put.hyps(2) by auto
  ultimately show ?case by blast
qed

section \<open>Rounding to pages\<close>

lemma unat_rounddown: "unat (PGROUNDDOWN a) = unat a div 4096 * 4096"
proof -
  have "a AND NOT (mask 12) = push_bit 12 (drop_bit 12 a)"
    by (rule bit_word_eqI) (auto simp: bit_simps)
  then have "PGROUNDDOWN a = (a div 4096) * 4096"
    by (simp add: PGROUNDDOWN_def mask_eq_exp_minus_1 push_bit_eq_mult drop_bit_eq_div mult.commute)
  then have "unat (PGROUNDDOWN a) = (unat a div 4096 * 4096) mod 2 ^ 32"
    by (simp add: unat_word_ariths unat_div_distrib mod_simps)
  moreover have "unat a div 4096 * 4096 \<le> unat a" by simp
  then have "unat a div 4096 * 4096 < 2 ^ 32" using unsigned_less [of a, where ?'a = nat] by simp
  ultimately show ?thesis by simp
qed

lemma rounddown_mod: "PGROUNDDOWN a mod PGSIZE = 0"
  by (simp add: word_unat_eq_iff unat_mod_distrib unat_rounddown)

lemma roundup_eq: "PGROUNDUP sz = PGROUNDDOWN (sz + PGSIZE - 1)"
  by (simp add: PGROUNDUP_def PGROUNDDOWN_def)

lemma unat_roundup:
  assumes "unat sz \<le> 2 ^ 32 - 4096"
  shows "unat (PGROUNDUP sz) = (unat sz + 4095) div 4096 * 4096"
proof -
  have e: "sz + PGSIZE - 1 = sz + 4095" by simp
  have "unat (sz + PGSIZE - 1) = unat sz + 4095"
    unfolding e using unat_add_lt [of sz 4095] assms by simp
  then show ?thesis unfolding roundup_eq unat_rounddown by simp
qed

section \<open>Boot\<close>

definition page_at :: "nat \<Rightarrow> u32" where
  "page_at k = of_nat (4096 * k)"

lemma unat_page_at: "k \<le> 4096 \<Longrightarrow> unat (page_at k) = 4096 * k"
  unfolding page_at_def by (rule unat_of_nat_lt) simp

lemma kinit_from_pages:
  assumes "free_pages s (rev (map page_at [k0..<k]))" "k0 \<le> k" "k \<le> 4096" "unat (kend s) \<le> 4096 * k0"
  shows "\<exists>s'. kinit_from (page_at k) s = Inr s' \<and> kend s' = kend s \<and>
    free_pages s' (rev (map page_at [k0..<4096]))"
  using assms
proof (induction "4096 - k" arbitrary: k s)
  case 0
  then have "k = 4096" by simp
  with 0 show ?case by (simp add: kinit_from.simps page_at_def)
next
  case (Suc n)
  then have k: "k < 4096" by simp
  have next_p: "page_at k + PGSIZE = page_at (Suc k)" by (simp add: page_at_def)
  have "page_at k \<notin> set (rev (map page_at [k0..<k]))"
  proof
    assume "page_at k \<in> set (rev (map page_at [k0..<k]))"
    then obtain j where "j < k" "page_at k = page_at j" by auto
    then show False using unat_page_at [of k] unat_page_at [of j] k by simp
  qed
  moreover have "page_ok s (page_at k)"
    using Suc.prems k unat_page_at [of k]
    by (simp add: page_ok_def word_le_nat_alt word_less_nat_alt word_unat_eq_iff unat_mod_distrib)
  then obtain s1 where s1: "kfree (page_at k) s = Inr s1" using kfree_Inr_iff by blast
  ultimately have "free_pages s1 (page_at k # rev (map page_at [k0..<k]))"
    using kfree_free_pages [OF Suc.prems(1) s1] by simp
  moreover have "kend s1 = kend s" using s1 by (auto simp: kfree_ok)
  ultimately have "\<exists>s'. kinit_from (page_at (Suc k)) s1 = Inr s' \<and> kend s' = kend s1 \<and>
      free_pages s' (rev (map page_at [k0..<4096]))"
    using Suc.hyps Suc.prems k by (intro Suc.hyps(1)) auto
  moreover have "page_at k + PGSIZE \<le> PHYSTOP"
    unfolding next_p using unat_page_at [of "Suc k"] k by (simp add: word_le_nat_alt)
  ultimately show ?case
    using s1 \<open>kend s1 = kend s\<close> next_p by (simp add: kinit_from.simps [of "page_at k" s])
qed

lemma kinit_pages:
  assumes "freelist s = 0" "0 < kend s" "kend s \<le> PHYSTOP"
  shows "\<exists>s'. kinit s = Inr s' \<and> kend s' = kend s \<and>
    free_pages s' (rev (map page_at [(unat (kend s) + 4095) div 4096..<4096]))"
proof -
  let ?k = "(unat (kend s) + 4095) div 4096"
  have le: "unat (kend s) \<le> 16777216" using assms(3) by (simp add: word_le_nat_alt)
  then have k: "?k \<le> 4096" by simp
  have "unat (PGROUNDUP (kend s)) = unat (page_at ?k)"
    using le unat_page_at [OF k] by (simp add: unat_roundup)
  then have "PGROUNDUP (kend s) = page_at ?k" by (rule word_eq_unatI)
  moreover have "free_pages s (rev (map page_at [?k..<?k]))"
    using assms by (simp add: free_pages_def)
  moreover have "unat (kend s) \<le> 4096 * ?k" by linarith
  ultimately show ?thesis using kinit_from_pages [of s ?k ?k] k by (simp add: kinit_def)
qed

section \<open>Properties\<close>

text \<open>
  C2. After \<open>kinit\<close> the free list holds exactly the whole pages between the end of the kernel and
  the top of physical memory, each once.
\<close>

theorem kinit_correct:
  assumes "freelist s = 0" "0 < kend s" "kend s \<le> PHYSTOP"
  shows "\<exists>s' ps. kinit s = Inr s' \<and> free_pages s' ps \<and> distinct ps \<and>
    set ps = page_at ` {k. unat (kend s) \<le> 4096 * k \<and> k < 4096}"
proof -
  define ps where "ps = rev (map page_at [(unat (kend s) + 4095) div 4096..<4096])"
  have "{(unat (kend s) + 4095) div 4096..<4096} = {k. unat (kend s) \<le> 4096 * k \<and> k < 4096}" by auto
  then have "set ps = page_at ` {k. unat (kend s) \<le> 4096 * k \<and> k < 4096}" by (simp add: ps_def)
  moreover obtain s' where s': "kinit s = Inr s'" "free_pages s' ps"
    using kinit_pages [OF assms] unfolding ps_def by blast
  moreover from s'(2) have "distinct ps" by (simp only: free_pages_def)
  ultimately show ?thesis by blast
qed

definition boot_kmem :: kmem where
  "boot_kmem = \<lparr>mem = \<lambda>_. 0, freelist = 0, kend = 0x110000, kdata = 0x108000\<rparr>"

lemma kinit_correct_witness:
  "\<exists>s' ps. kinit boot_kmem = Inr s' \<and> free_pages s' ps \<and> distinct ps \<and>
    set ps = page_at ` {k. unat (0x110000 :: u32) \<le> 4096 * k \<and> k < 4096}"
  using kinit_correct [of boot_kmem] by (simp add: boot_kmem_def)

text \<open>
  C3. The allocator never loses a page and never hands one out twice: whatever the clients do, as
  long as they free only pages they hold, the pages they hold and the pages on the free list are
  disjoint and together are the pages the free list had at the start.
\<close>

theorem kalloc_conserves_pages:
  assumes "free_pages s0 ps0" "page_run s0 s H"
  shows "\<exists>ps. free_pages s ps \<and> H \<inter> set ps = {} \<and> H \<union> set ps = set ps0"
  using page_run_owned [OF assms(2,1)] by (auto simp: kpool.owned_def)

lemma kalloc_conserves_pages_witness:
  fixes s0 :: kmem
  defines "s0 \<equiv> \<lparr>mem = \<lambda>_. 0, freelist = 0x200000, kend = 0x110000, kdata = 0x108000\<rparr>"
  shows "\<exists>ps. free_pages (snd (kalloc s0)) ps \<and> {0x200000} \<inter> set ps = {} \<and> {0x200000} \<union> set ps = {0x200000}"
proof -
  have f: "free_pages s0 [0x200000]"
    by (simp add: s0_def free_pages_def page_ok_def ld32_zero)
  have "page_run s0 (snd (kalloc s0)) (insert 0x200000 {})"
    by (rule page_run.get [OF page_run.start]) (simp_all add: s0_def kalloc_def)
  then show ?thesis using kalloc_conserves_pages [OF f, of "snd (kalloc s0)" "{0x200000}"] by simp
qed

end
