(* ===== verification/Vm.thy ===== *)
theory Vm imports Kalloc begin

text \<open>
  kernel/vm.c: page tables. A page directory and its page tables are pages of physical memory, so
  the model reads and writes their entries with 32-bit loads and stores. A function that the code
  makes return a null pointer returns 0; \<open>panic\<close> is an error value. A loop over the pages of a
  region runs over the list of their addresses.
\<close>

section \<open>Page table entries (kernel/mmu.h)\<close>

abbreviation USERTOP :: u32 where "USERTOP \<equiv> 0xA0000"
abbreviation PTE_P :: u32 where "PTE_P \<equiv> 0x001"
abbreviation PTE_W :: u32 where "PTE_W \<equiv> 0x002"
abbreviation PTE_U :: u32 where "PTE_U \<equiv> 0x004"

definition PDX :: "u32 \<Rightarrow> u32" where "PDX la = drop_bit 22 la AND 0x3FF"
definition PTX :: "u32 \<Rightarrow> u32" where "PTX la = drop_bit 12 la AND 0x3FF"
definition PTE_ADDR :: "u32 \<Rightarrow> u32" where "PTE_ADDR pte = pte AND NOT 0xFFF"

definition present :: "u32 \<Rightarrow> bool" where "present e \<longleftrightarrow> e AND PTE_P \<noteq> 0"

text \<open>The addresses visited by \<open>for(; a < hi; a += PGSIZE)\<close> starting at \<open>lo\<close>.\<close>

definition page_addrs :: "u32 \<Rightarrow> u32 \<Rightarrow> u32 list" where
  "page_addrs lo hi = map (\<lambda>i. lo + of_nat (4096 * i)) [0..<(unat hi - unat lo + 4095) div 4096]"

section \<open>Walking and mapping\<close>

definition walkpgdir :: "u32 \<Rightarrow> u32 \<Rightarrow> bool \<Rightarrow> kmem \<Rightarrow> u32 \<times> kmem" where
  "walkpgdir pgdir va create s =
     (let pde = pgdir + 4 * PDX va in
      if present (ld32 (mem s) pde) then (PTE_ADDR (ld32 (mem s) pde) + 4 * PTX va, s)
      else if \<not> create then (0, s)
      else let (pgtab, s) = kalloc s in
        if pgtab = 0 then (0, s)
        else (pgtab + 4 * PTX va,
          s\<lparr>mem := st32 (memset (mem s) pgtab 0 PGSIZE) pde (pgtab OR PTE_P OR PTE_W OR PTE_U)\<rparr>))"

text \<open>
  The loop of \<open>mappages\<close> from \<open>a\<close>; it leaves when \<open>a = last\<close>. Both are page aligned, so it makes
  \<open>(last - a) div PGSIZE\<close> further rounds: that is the fuel the caller gives, and the lemma
  \<open>mappages_fuel\<close> below shows that it never runs out.
\<close>

fun mappages_loop :: "nat \<Rightarrow> u32 \<Rightarrow> u32 \<Rightarrow> u32 \<Rightarrow> u32 \<Rightarrow> u32 \<Rightarrow> kmem \<Rightarrow> (int \<times> kmem) res" where
  "mappages_loop 0 pgdir a last_a pa perm s = Inl (Fault ''mappages: out of fuel'')"
| "mappages_loop (Suc fuel) pgdir a last_a pa perm s =
     (let (pte, s) = walkpgdir pgdir a True s in
      if pte = 0 then Inr (-1, s)
      else if present (ld32 (mem s) pte) then Inl (Panic ''remap'')
      else let s = s\<lparr>mem := st32 (mem s) pte (pa OR perm OR PTE_P)\<rparr> in
        if a = last_a then Inr (0, s)
        else mappages_loop fuel pgdir (a + PGSIZE) last_a (pa + PGSIZE) perm s)"

definition mappages :: "u32 \<Rightarrow> u32 \<Rightarrow> u32 \<Rightarrow> u32 \<Rightarrow> u32 \<Rightarrow> kmem \<Rightarrow> (int \<times> kmem) res" where
  "mappages pgdir la sz pa perm s =
     (let a = PGROUNDDOWN la; last_a = PGROUNDDOWN (la + sz - 1) in
      mappages_loop (Suc (unat (last_a - a) div 4096)) pgdir a last_a pa perm s)"

section \<open>The kernel part of an address space\<close>

text \<open>The table \<open>kmap\<close>: start, end and permission of the regions that are mapped one to one.\<close>

definition kmap :: "kmem \<Rightarrow> (u32 \<times> u32 \<times> u32) list" where
  "kmap s = [(USERTOP, 0x100000, PTE_W),
             (0x100000, kdata s, 0),
             (kdata s, PHYSTOP, PTE_W),
             (0xFE000000, 0, PTE_W)]"

fun setupkvm_loop :: "u32 \<Rightarrow> (u32 \<times> u32 \<times> u32) list \<Rightarrow> kmem \<Rightarrow> (u32 \<times> kmem) res" where
  "setupkvm_loop pgdir [] s = Inr (pgdir, s)"
| "setupkvm_loop pgdir ((p, e, perm) # ks) s =
     kbind (mappages pgdir p (e - p) p perm s) (\<lambda>(r, s).
       if r < 0 then Inr (0, s) else setupkvm_loop pgdir ks s)"

definition setupkvm :: "kmem \<Rightarrow> (u32 \<times> kmem) res" where
  "setupkvm s =
     (let (pgdir, s) = kalloc s in
      if pgdir = 0 then Inr (0, s)
      else let s = s\<lparr>mem := memset (mem s) pgdir 0 PGSIZE\<rparr> in
        setupkvm_loop pgdir (kmap s) s)"

section \<open>User memory\<close>

text \<open>
  \<open>inituvm\<close> uses the page \<open>kalloc\<close> returns without looking at it, and ignores the result of
  \<open>mappages\<close>; so does the model (a null page is address 0).
\<close>

definition inituvm :: "u32 \<Rightarrow> u32 \<Rightarrow> u32 \<Rightarrow> kmem \<Rightarrow> kmem res" where
  "inituvm pgdir init sz s =
     (if PGSIZE \<le> sz then Inl (Panic ''inituvm: more than a page'')
      else let (p, s) = kalloc s; s = s\<lparr>mem := memset (mem s) p 0 PGSIZE\<rparr> in
        kbind (mappages pgdir 0 PGSIZE p (PTE_W OR PTE_U) s) (\<lambda>(r, s).
          Inr (s\<lparr>mem := memmove (mem s) p init sz\<rparr>)))"

fun deallocuvm_loop :: "u32 \<Rightarrow> u32 list \<Rightarrow> kmem \<Rightarrow> kmem res" where
  "deallocuvm_loop pgdir [] s = Inr s"
| "deallocuvm_loop pgdir (a # as) s =
     (let pte = fst (walkpgdir pgdir a False s) in
      if pte \<noteq> 0 \<and> present (ld32 (mem s) pte)
      then let pa = PTE_ADDR (ld32 (mem s) pte) in
        if pa = 0 then Inl (Panic ''kfree'')
        else kbind (kfree pa s) (\<lambda>s. deallocuvm_loop pgdir as (s\<lparr>mem := st32 (mem s) pte 0\<rparr>))
      else deallocuvm_loop pgdir as s)"

definition deallocuvm :: "u32 \<Rightarrow> u32 \<Rightarrow> u32 \<Rightarrow> kmem \<Rightarrow> (u32 \<times> kmem) res" where
  "deallocuvm pgdir oldsz newsz s =
     (if oldsz \<le> newsz then Inr (oldsz, s)
      else kbind (deallocuvm_loop pgdir (page_addrs (PGROUNDUP newsz) oldsz) s) (\<lambda>s. Inr (newsz, s)))"

text \<open>As in the code, the result of \<open>mappages\<close> is ignored.\<close>

fun allocuvm_loop :: "u32 \<Rightarrow> u32 list \<Rightarrow> u32 \<Rightarrow> u32 \<Rightarrow> kmem \<Rightarrow> (u32 \<times> kmem) res" where
  "allocuvm_loop pgdir [] oldsz newsz s = Inr (newsz, s)"
| "allocuvm_loop pgdir (a # as) oldsz newsz s =
     (let (p, s) = kalloc s in
      if p = 0 then kbind (deallocuvm pgdir newsz oldsz s) (\<lambda>(_, s). Inr (0, s))
      else let s = s\<lparr>mem := memset (mem s) p 0 PGSIZE\<rparr> in
        kbind (mappages pgdir a PGSIZE p (PTE_W OR PTE_U) s) (\<lambda>(_, s).
          allocuvm_loop pgdir as oldsz newsz s))"

definition allocuvm :: "u32 \<Rightarrow> u32 \<Rightarrow> u32 \<Rightarrow> kmem \<Rightarrow> (u32 \<times> kmem) res" where
  "allocuvm pgdir oldsz newsz s =
     (if USERTOP < newsz then Inr (0, s)
      else if newsz < oldsz then Inr (oldsz, s)
      else allocuvm_loop pgdir (page_addrs (PGROUNDUP oldsz) newsz) oldsz newsz s)"

fun freevm_tables :: "u32 \<Rightarrow> nat list \<Rightarrow> kmem \<Rightarrow> kmem res" where
  "freevm_tables pgdir [] s = Inr s"
| "freevm_tables pgdir (i # is) s =
     (let pde = ld32 (mem s) (pgdir + 4 * of_nat i) in
      if present pde then kbind (kfree (PTE_ADDR pde) s) (freevm_tables pgdir is)
      else freevm_tables pgdir is s)"

definition freevm :: "u32 \<Rightarrow> kmem \<Rightarrow> kmem res" where
  "freevm pgdir s =
     (if pgdir = 0 then Inl (Panic ''freevm: no pgdir'')
      else kbind (deallocuvm pgdir USERTOP 0 s) (\<lambda>(_, s).
        kbind (freevm_tables pgdir [0..<1024] s) (kfree pgdir)))"

fun copyuvm_loop :: "u32 \<Rightarrow> u32 \<Rightarrow> u32 list \<Rightarrow> kmem \<Rightarrow> (u32 \<times> kmem) res" where
  "copyuvm_loop pgdir d [] s = Inr (d, s)"
| "copyuvm_loop pgdir d (i # is) s =
     (let pte = fst (walkpgdir pgdir i False s) in
      if pte = 0 then Inl (Panic ''copyuvm: pte should exist'')
      else if \<not> present (ld32 (mem s) pte) then Inl (Panic ''copyuvm: page not present'')
      else let pa = PTE_ADDR (ld32 (mem s) pte); (p, s) = kalloc s in
        if p = 0 then kbind (freevm d s) (\<lambda>s. Inr (0, s))
        else let s = s\<lparr>mem := memmove (mem s) p pa PGSIZE\<rparr> in
          kbind (mappages d i PGSIZE p (PTE_W OR PTE_U) s) (\<lambda>(r, s).
            if r < 0 then kbind (freevm d s) (\<lambda>s. Inr (0, s))
            else copyuvm_loop pgdir d is s))"

definition copyuvm :: "u32 \<Rightarrow> u32 \<Rightarrow> kmem \<Rightarrow> (u32 \<times> kmem) res" where
  "copyuvm pgdir sz s =
     kbind (setupkvm s) (\<lambda>(d, s).
       if d = 0 then Inr (0, s) else copyuvm_loop pgdir d (page_addrs 0 sz) s)"

text \<open>
  \<open>uva2ka\<close> reads \<open>*pte\<close> without testing the pointer \<open>walkpgdir\<close> returned: where the page directory
  has no table for the address, that is a read through a null pointer.
\<close>

definition uva2ka :: "u32 \<Rightarrow> u32 \<Rightarrow> kmem \<Rightarrow> u32 res" where
  "uva2ka pgdir uva s =
     (let pte = fst (walkpgdir pgdir uva False s) in
      if pte = 0 then Inl (Fault ''uva2ka: null pte'')
      else if \<not> present (ld32 (mem s) pte) then Inr 0
      else if ld32 (mem s) pte AND PTE_U = 0 then Inr 0
      else Inr (PTE_ADDR (ld32 (mem s) pte)))"

text \<open>The bytes of a kernel buffer stored at a physical address.\<close>

fun put_bytes :: "pmem \<Rightarrow> u32 \<Rightarrow> cptr \<Rightarrow> nat \<Rightarrow> pmem" where
  "put_bytes m d b 0 = m"
| "put_bytes m d b (Suc n) = put_bytes (m(d := b 0)) (d + 1) (\<lambda>i. b (Suc i)) n"

function copyout :: "u32 \<Rightarrow> u32 \<Rightarrow> cptr \<Rightarrow> u32 \<Rightarrow> kmem \<Rightarrow> (int \<times> kmem) res" where
  "copyout pgdir va buf len s =
     (if len = 0 then Inr (0, s)
      else let va0 = PGROUNDDOWN va in
        kbind (uva2ka pgdir va0 s) (\<lambda>pa0.
          if pa0 = 0 then Inr (-1, s)
          else let n = min (PGSIZE - (va - va0)) len in
            copyout pgdir (va0 + PGSIZE) (\<lambda>i. buf (i + unat n)) (len - n)
              (s\<lparr>mem := put_bytes (mem s) (pa0 + (va - va0)) buf (unat n)\<rparr>)))"
  by pat_completeness auto

termination
proof (relation "measure (\<lambda>(pgdir, va, buf, len, s). unat len)")
  fix pgdir va :: u32 and buf :: cptr and len :: u32 and s :: kmem and va0 pa0 n :: u32
  assume "len \<noteq> 0" "va0 = PGROUNDDOWN va" "n = min (PGSIZE - (va - va0)) len"
  moreover have "unat (va - va0) < 4096"
    using \<open>va0 = _\<close> by (simp add: unat_sub unat_rounddown word_le_nat_alt)
  then have "PGSIZE - (va - va0) \<noteq> 0" by auto
  ultimately have n: "n \<noteq> 0" "n \<le> len" by (auto simp: min_def)
  then have "unat (len - n) < unat len"
    by (simp add: unat_sub word_le_nat_alt word_neq_0_conv word_less_nat_alt)
  then show "((pgdir, va0 + PGSIZE, \<lambda>i. buf (i + unat n), len - n,
      s\<lparr>mem := put_bytes (mem s) (pa0 + (va - va0)) buf (unat n)\<rparr>), pgdir, va, buf, len, s)
    \<in> measure (\<lambda>(pgdir, va, buf, len, s). unat len)" by simp
qed simp

declare copyout.simps [simp del]

section \<open>Entries\<close>

lemma PTE_ADDR_eq: "PTE_ADDR e = PGROUNDDOWN e"
  by (simp add: PTE_ADDR_def PGROUNDDOWN_def)

lemma unat_PTE_ADDR: "unat (PTE_ADDR e) = unat e div 4096 * 4096"
  by (simp add: PTE_ADDR_eq unat_rounddown)

lemma aligned_PTE_ADDR: "aligned 4096 (PTE_ADDR e)"
  by (simp add: aligned_def unat_PTE_ADDR)

lemma aligned_mult: "aligned (k * n) a \<Longrightarrow> aligned n a"
  by (auto simp: aligned_def mod_mult_self1 elim!: dvdE simp: mod_eq_0_iff_dvd dvd_def)

lemma PTE_ADDR_page: "aligned 4096 p \<Longrightarrow> PTE_ADDR p = p"
  by (rule word_eq_unatI) (auto simp: unat_PTE_ADDR aligned_def)

lemma PTE_ADDR_flags:
  assumes "aligned 4096 p" "f AND NOT 0xFFF = 0"
  shows "PTE_ADDR (p OR f) = p"
proof -
  have "PTE_ADDR (p OR f) = PTE_ADDR p OR (f AND NOT 0xFFF)"
    unfolding PTE_ADDR_def by (rule bit.conj_disj_distrib2)
  then show ?thesis using assms by (simp add: PTE_ADDR_page)
qed

lemma present_or: "present (e OR PTE_P)" "present (PTE_P OR e)" "present (e OR PTE_P OR f)"
  by (simp_all add: present_def bit.conj_disj_distrib2)

lemma present_0 [simp]: "\<not> present 0"
  by (simp add: present_def)

lemma unat_PDX: "unat (PDX la) = unat la div 2 ^ 22 mod 1024"
proof -
  have "PDX la = take_bit 10 (drop_bit 22 la)"
    by (simp add: PDX_def take_bit_eq_mask mask_eq_exp_minus_1)
  then show ?thesis
    by (simp add: take_bit_eq_mod drop_bit_eq_div unat_mod_distrib unat_div_distrib)
qed

lemma unat_PTX: "unat (PTX la) = unat la div 4096 mod 1024"
proof -
  have "PTX la = take_bit 10 (drop_bit 12 la)"
    by (simp add: PTX_def take_bit_eq_mask mask_eq_exp_minus_1)
  then show ?thesis
    by (simp add: take_bit_eq_mod drop_bit_eq_div unat_mod_distrib unat_div_distrib)
qed


section \<open>The user part of an address space, abstractly\<close>

text \<open>
  User addresses lie below \<open>USERTOP\<close>, which is page number 160, so they all go through the first
  page table. \<open>uspace s pgdir pt fr ps\<close>: the directory \<open>pgdir\<close> has the table \<open>pt\<close> for them, the
  user page number \<open>k\<close> is mapped to the physical page \<open>fr k\<close>, and \<open>ps\<close> are the free pages; all
  these pages are different ones.
\<close>

abbreviation UPAGES :: nat where "UPAGES \<equiv> 160"

definition pte_at :: "u32 \<Rightarrow> nat \<Rightarrow> u32" where
  "pte_at pt k = pt + 4 * of_nat k"

definition pte_maps :: "u32 \<Rightarrow> u32 option \<Rightarrow> bool" where
  "pte_maps e f \<longleftrightarrow> (case f of None \<Rightarrow> \<not> present e
     | Some p \<Rightarrow> present e \<and> e AND PTE_U \<noteq> 0 \<and> PTE_ADDR e = p)"

definition uspace :: "kmem \<Rightarrow> u32 \<Rightarrow> u32 \<Rightarrow> (nat \<Rightarrow> u32 option) \<Rightarrow> u32 list \<Rightarrow> bool" where
  "uspace s pgdir pt fr ps \<longleftrightarrow>
     free_pages s ps \<and> page_ok s pgdir \<and> page_ok s pt \<and> pgdir \<noteq> pt \<and> pgdir \<notin> set ps \<and> pt \<notin> set ps \<and>
     present (ld32 (mem s) pgdir) \<and> PTE_ADDR (ld32 (mem s) pgdir) = pt \<and>
     (\<forall>k < UPAGES. pte_maps (ld32 (mem s) (pte_at pt k)) (fr k)) \<and>
     (\<forall>k < UPAGES. \<forall>p. fr k = Some p \<longrightarrow>
        page_ok s p \<and> p \<noteq> pgdir \<and> p \<noteq> pt \<and> p \<notin> set ps \<and> (\<forall>j < UPAGES. fr j = Some p \<longrightarrow> j = k))"

lemma unat_pte_at:
  assumes "aligned 4096 pt" "k < 1024"
  shows "unat (pte_at pt k) = unat pt + 4 * k" "unat (4 * of_nat k :: u32) = 4 * k"
proof -
  have "unat (of_nat (4 * k) :: u32) = 4 * k" using assms(2) by (intro unat_of_nat_lt) simp
  then show u: "unat (4 * of_nat k :: u32) = 4 * k" by simp
  show "unat (pte_at pt k) = unat pt + 4 * k"
    using unat_aligned_add [OF assms(1), of "4 * of_nat k"] assms(2) u by (simp add: pte_at_def)
qed

lemma aligned_pte_at: "aligned 4096 pt \<Longrightarrow> k < 1024 \<Longrightarrow> aligned 4 (pte_at pt k)"
  by (auto simp: aligned_def unat_pte_at(1) mod_eq_0_iff_dvd intro: dvd_add dvd_trans [of 4 4096])

lemma pte_at_inj: "aligned 4096 pt \<Longrightarrow> j < 1024 \<Longrightarrow> k < 1024 \<Longrightarrow> pte_at pt j = pte_at pt k \<longleftrightarrow> j = k"
  using unat_pte_at(1) [of pt] by (metis add_left_cancel mult_cancel1 zero_neq_numeral)

lemma pte_at_in_page:
  assumes "aligned 4096 pt" "k < 1024" "unat (a - pte_at pt k) < 4"
  shows "unat (a - pt) < 4096"
proof -
  have e: "a - pt = 4 * of_nat k + (a - pte_at pt k)" by (simp add: pte_at_def)
  have "unat (4 * of_nat k + (a - pte_at pt k)) = 4 * k + unat (a - pte_at pt k)"
    using unat_add_lt [of "4 * of_nat k" "a - pte_at pt k"] unat_pte_at(2) [OF assms(1,2)] assms(2,3) by simp
  then show ?thesis unfolding e using assms(2,3) by linarith
qed

text \<open>Writing an entry of a table touches no other page.\<close>

lemma st32_pte_other_page:
  assumes "aligned 4096 pt" "k < 1024" "aligned 4096 q" "q \<noteq> pt" "unat (a - q) < 4096"
  shows "st32 m (pte_at pt k) v a = m a"
  using pte_at_in_page [OF assms(1,2), of a] page_bytes_disjoint [OF assms(3,1,4,5)] st32_out by blast

lemma ld32_pte_eq:
  assumes "aligned 4096 pt" "k < 1024" "\<And>a. unat (a - pt) < 4096 \<Longrightarrow> m' a = m a"
  shows "ld32 m' (pte_at pt k) = ld32 m (pte_at pt k)"
  unfolding pte_at_def using assms unat_pte_at(2) [OF assms(1,2)] by (intro ld32_eq_page) auto

lemma ld32_page_eq:
  assumes "aligned 4096 p" "\<And>a. unat (a - p) < 4096 \<Longrightarrow> m' a = m a"
  shows "ld32 m' p = ld32 m p"
  using ld32_eq_page [OF assms, where i = 0] by simp

lemma free_pages_cong:
  assumes "free_pages s ps" "freelist s' = freelist s" "kend s' = kend s"
    and "\<And>p a. p \<in> set ps \<Longrightarrow> unat (a - p) < 4096 \<Longrightarrow> mem s' a = mem s a"
  shows "free_pages s' ps"
proof -
  have "aligned 4096 p" if "p \<in> set ps" for p
    using assms(1) that by (auto simp: free_pages_def intro: page_ok_aligned)
  then have "ld32 (mem s') p = ld32 (mem s) p" if "p \<in> set ps" for p
    using assms(4) that by (intro ld32_page_eq) auto
  then have "chain (mem s') (freelist s) ps"
    using assms(1) chain_cong [of "mem s" "freelist s" ps "mem s'"] by (simp add: free_pages_def)
  then show ?thesis using assms by (auto simp: free_pages_def page_ok_def)
qed

lemma page_at_user:
  assumes "k < 1024"
  shows "PDX (page_at k) = 0" "4 * PTX (page_at k) = 4 * of_nat k"
proof -
  have u: "unat (page_at k) = 4096 * k" using assms by (intro unat_page_at) simp
  show "PDX (page_at k) = 0" using u assms by (simp add: word_unat_eq_iff unat_PDX)
  have "unat (PTX (page_at k)) = k" using u assms by (simp add: unat_PTX)
  moreover have "unat (of_nat k :: u32) = k" using assms by (intro unat_of_nat_lt) simp
  ultimately have "PTX (page_at k) = of_nat k" by (metis word_eq_unatI)
  then show "4 * PTX (page_at k) = 4 * of_nat k" by simp
qed

lemma walk_user:
  assumes "uspace s pgdir pt fr ps" "k < UPAGES"
  shows "walkpgdir pgdir (page_at k) c s = (pte_at pt k, s)"
  using assms page_at_user [of k] by (auto simp: uspace_def walkpgdir_def pte_at_def)

lemma pte_at_nonnull: "0 < kend s \<Longrightarrow> page_ok s pt \<Longrightarrow> k < 1024 \<Longrightarrow> pte_at pt k \<noteq> 0"
  using unat_pte_at(1) [OF page_ok_aligned, of s pt k]
  by (auto simp: page_ok_def word_le_nat_alt word_less_nat_alt)

lemma uspaceD:
  assumes "uspace s pgdir pt fr ps"
  shows "free_pages s ps" "0 < kend s" "page_ok s pgdir" "page_ok s pt" "aligned 4096 pgdir"
    "aligned 4096 pt" "pgdir \<noteq> pt" "pgdir \<notin> set ps" "pt \<notin> set ps"
  using assms by (auto simp: uspace_def free_pages_def intro: page_ok_aligned)

lemma uspace_frame:
  assumes "uspace s pgdir pt fr ps" "k < UPAGES" "fr k = Some p"
  shows "page_ok s p" "aligned 4096 p" "p \<noteq> pgdir" "p \<noteq> pt" "p \<notin> set ps"
  using assms by (auto simp: uspace_def intro: page_ok_aligned)

lemma uspaceI:
  assumes "free_pages s ps" "page_ok s pgdir" "page_ok s pt" "pgdir \<noteq> pt" "pgdir \<notin> set ps" "pt \<notin> set ps"
    and "present (ld32 (mem s) pgdir)" "PTE_ADDR (ld32 (mem s) pgdir) = pt"
    and "\<And>k. k < UPAGES \<Longrightarrow> pte_maps (ld32 (mem s) (pte_at pt k)) (fr k)"
    and "\<And>k p. k < UPAGES \<Longrightarrow> fr k = Some p \<Longrightarrow> page_ok s p \<and> p \<noteq> pgdir \<and> p \<noteq> pt \<and> p \<notin> set ps"
    and "\<And>k p j. k < UPAGES \<Longrightarrow> fr k = Some p \<Longrightarrow> j < UPAGES \<Longrightarrow> fr j = Some p \<Longrightarrow> j = k"
  shows "uspace s pgdir pt fr ps"
  unfolding uspace_def using assms by blast

lemma uspace_kalloc:
  assumes "uspace s d pt fr (p # ps)"
  shows "fst (kalloc s) = p" "uspace (snd (kalloc s)) d pt fr ps"
proof -
  note u = uspaceD [OF assms]
  show "fst (kalloc s) = p" using kalloc_pop [OF u(1)] by simp
  have f: "free_pages (snd (kalloc s)) ps" using kalloc_pop [OF u(1)] by simp
  have m: "mem (snd (kalloc s)) = mem s" "kend (snd (kalloc s)) = kend s" by (simp_all add: kalloc_def Let_def)
  show "uspace (snd (kalloc s)) d pt fr ps"
    using assms f unfolding uspace_def m page_ok_def by auto
qed

text \<open>A change outside the directory, the table and the free pages keeps the user space.\<close>

lemma uspace_cong:
  assumes "uspace s pgdir pt fr ps" "freelist s' = freelist s" "kend s' = kend s"
    and "\<And>p a. p \<in> insert pgdir (insert pt (set ps)) \<Longrightarrow> unat (a - p) < 4096 \<Longrightarrow> mem s' a = mem s a"
  shows "uspace s' pgdir pt fr ps"
proof -
  note u = uspaceD [OF assms(1)]
  have "free_pages s' ps" by (rule free_pages_cong [OF u(1) assms(2,3)]) (blast intro: assms(4))
  moreover have "ld32 (mem s') pgdir = ld32 (mem s) pgdir" using u assms(4) by (intro ld32_page_eq) auto
  moreover have "ld32 (mem s') (pte_at pt k) = ld32 (mem s) (pte_at pt k)" if "k < UPAGES" for k
    using u assms(4) that by (intro ld32_pte_eq) auto
  moreover have "page_ok s' p = page_ok s p" for p using assms(3) by (simp add: page_ok_def)
  ultimately show ?thesis using assms(1) by (simp add: uspace_def)
qed

text \<open>Writing the entry of page \<open>k\<close>.\<close>

lemma uspace_set_pte:
  assumes "uspace s pgdir pt fr ps" "k < UPAGES" "pte_maps e f"
    and "\<And>p. f = Some p \<Longrightarrow> page_ok s p \<and> p \<noteq> pgdir \<and> p \<noteq> pt \<and> p \<notin> set ps \<and>
      (\<forall>j < UPAGES. j \<noteq> k \<longrightarrow> fr j \<noteq> Some p)"
  shows "uspace (s\<lparr>mem := st32 (mem s) (pte_at pt k) e\<rparr>) pgdir pt (fr(k := f)) ps"
    (is "uspace ?s _ _ _ _")
proof -
  note u = uspaceD [OF assms(1)]
  have "free_pages ?s ps"
  proof (rule free_pages_cong [OF u(1)])
    fix p a assume "p \<in> set ps" "unat (a - p) < 4096"
    moreover from this have "aligned 4096 p" "p \<noteq> pt" using u by (auto simp: free_pages_def intro: page_ok_aligned)
    ultimately show "mem ?s a = mem s a" using st32_pte_other_page [OF u(6), of k p a] assms(2) by simp
  qed simp_all
  moreover have "ld32 (mem ?s) pgdir = ld32 (mem s) pgdir"
    using st32_pte_other_page [OF u(6), of k pgdir] u(5,7) assms(2) by (intro ld32_page_eq) auto
  moreover have "ld32 (mem ?s) (pte_at pt j) = (if j = k then e else ld32 (mem s) (pte_at pt j))"
    if "j < UPAGES" for j
    using that assms(2) u(6) aligned_pte_at [OF u(6)] pte_at_inj [OF u(6), of j k]
    by (auto intro!: ld32_st32_other)
  moreover have "page_ok ?s p = page_ok s p" for p by (simp add: page_ok_def)
  ultimately show ?thesis using assms by (auto simp: uspace_def)
qed

lemma mappages_one:
  assumes "uspace s pgdir pt fr ps" "k < UPAGES" "fr k = None"
  shows "mappages pgdir (page_at k) PGSIZE p perm s =
    Inr (0, s\<lparr>mem := st32 (mem s) (pte_at pt k) (p OR perm OR PTE_P)\<rparr>)"
proof -
  have u: "unat (page_at k) = 4096 * k" using assms(2) by (intro unat_page_at) simp
  have d: "PGROUNDDOWN (page_at k) = page_at k"
    by (rule word_eq_unatI) (simp add: unat_rounddown u)
  have e: "page_at k + PGSIZE - 1 = page_at k + 4095" by simp
  have "unat (page_at k + 4095) = 4096 * k + 4095"
    using unat_add_lt [of "page_at k" 4095] u assms(2) by simp
  then have "unat (PGROUNDDOWN (page_at k + PGSIZE - 1)) = 4096 * k"
    unfolding e unat_rounddown by simp
  then have d2: "PGROUNDDOWN (page_at k + PGSIZE - 1) = page_at k"
    using u by (intro word_eq_unatI) simp
  have "pte_maps (ld32 (mem s) (pte_at pt k)) (fr k)" using assms(1,2) unfolding uspace_def by blast
  then have np: "\<not> present (ld32 (mem s) (pte_at pt k))"
    by (simp add: assms(3) pte_maps_def)
  have nz: "pte_at pt k \<noteq> 0"
    using assms(2) by (intro pte_at_nonnull [OF uspaceD(2,4) [OF assms(1)]]) simp
  show ?thesis
    unfolding mappages_def d d2 Let_def by (simp add: walk_user [OF assms(1,2)] np nz)
qed

lemma pte_flags_user:
  assumes "aligned 4096 p"
  shows "pte_maps (p OR (PTE_W OR PTE_U) OR PTE_P) (Some p)"
proof -
  have e: "p OR (PTE_W OR PTE_U) OR PTE_P = p OR 7" by (simp add: or.assoc)
  have "((p OR 7) AND 1) OR 1 = (p OR 7) AND 1" "((p OR 7) AND 4) OR 4 = (p OR 7) AND 4"
    by (simp_all add: bit.conj_disj_distrib2)
  then have "(p OR 7) AND 1 \<noteq> 0" "(p OR 7) AND 4 \<noteq> 0" by auto
  then show ?thesis
    unfolding e pte_maps_def using PTE_ADDR_flags [OF assms, of 7]
    by (simp add: present_def)
qed

lemma kalloc_uspace:
  assumes "uspace s pgdir pt fr (p # ps)"
  obtains s1 where "kalloc s = (p, s1)" "uspace s1 pgdir pt fr ps" "page_ok s1 p" "p \<noteq> pgdir" "p \<noteq> pt"
    "p \<notin> set ps" "\<forall>j < UPAGES. fr j \<noteq> Some p" "mem s1 = mem s"
proof -
  note u = uspaceD [OF assms]
  have "kalloc s = (p, snd (kalloc s))" "free_pages (snd (kalloc s)) ps"
    using kalloc_pop [OF u(1)] by (auto simp: prod_eq_iff)
  moreover have "distinct (p # ps)" "page_ok s p" using u(1) by (auto simp: free_pages_def)
  moreover have "\<And>q. page_ok (snd (kalloc s)) q = page_ok s q" by (simp add: page_ok_def)
  ultimately show thesis using assms u by (intro that [of "snd (kalloc s)"]) (auto simp: uspace_def)
qed

lemma map_one:
  assumes "uspace s pgdir pt fr (p # ps)" "k < UPAGES" "fr k = None"
  obtains s1 s' where "kalloc s = (p, s1)"
    "mappages pgdir (page_at k) PGSIZE p (PTE_W OR PTE_U) (s1\<lparr>mem := memset (mem s1) p 0 PGSIZE\<rparr>) = Inr (0, s')"
    "uspace s' pgdir pt (fr(k \<mapsto> p)) ps" "page_ok s p"
    "\<And>a. unat (a - p) < 4096 \<Longrightarrow> mem s' a = 0"
    "\<And>a q. aligned 4096 q \<Longrightarrow> q \<noteq> p \<Longrightarrow> q \<noteq> pt \<Longrightarrow> unat (a - q) < 4096 \<Longrightarrow> mem s' a = mem s a"
proof -
  obtain s1 where k: "kalloc s = (p, s1)" "uspace s1 pgdir pt fr ps" "page_ok s1 p" "p \<noteq> pgdir" "p \<noteq> pt"
    "p \<notin> set ps" "\<forall>j < UPAGES. fr j \<noteq> Some p" "mem s1 = mem s" by (rule kalloc_uspace [OF assms(1)])
  define s2 where "s2 = s1\<lparr>mem := memset (mem s1) p 0 PGSIZE\<rparr>"
  define e where "e = p OR (PTE_W OR PTE_U) OR PTE_P"
  define s3 where "s3 = s2\<lparr>mem := st32 (mem s2) (pte_at pt k) e\<rparr>"
  note u = uspaceD [OF k(2)]
  have al: "aligned 4096 p" using k(3) by (rule page_ok_aligned)
  have out: "mem s2 a = mem s a" if "aligned 4096 q" "q \<noteq> p" "unat (a - q) < 4096" for q a
    using memset_page_out [OF page_bytes_disjoint [OF that(1) al that(2,3)]] k(8) by (simp add: s2_def)
  have "uspace s2 pgdir pt fr ps"
  proof (rule uspace_cong [OF k(2)])
    fix q a assume q: "q \<in> insert pgdir (insert pt (set ps))" "unat (a - q) < 4096"
    then have "aligned 4096 q" using u by (auto simp: free_pages_def intro: page_ok_aligned)
    moreover have "q \<noteq> p" using q(1) k(4-6) by auto
    ultimately show "mem s2 a = mem s1 a" using out q(2) k(8) by simp
  qed (simp_all add: s2_def)
  then have m: "mappages pgdir (page_at k) PGSIZE p (PTE_W OR PTE_U) s2 = Inr (0, s3)"
    unfolding s3_def e_def using assms(2,3) by (intro mappages_one)
  have "page_ok s2 p" using k(3) by (simp add: s2_def page_ok_def)
  then have "uspace s3 pgdir pt (fr(k := Some p)) ps"
    unfolding s3_def using \<open>uspace s2 pgdir pt fr ps\<close> assms(2) k(4-7) pte_flags_user [OF al]
    by (intro uspace_set_pte) (auto simp: e_def)
  moreover have "page_ok s p" using uspaceD(1) [OF assms(1)] by (simp add: free_pages_def)
  moreover have "mem s3 a = mem s2 a" if "aligned 4096 q" "q \<noteq> pt" "unat (a - q) < 4096" for q a
    using st32_pte_other_page [OF u(6) _ that] assms(2) by (simp add: s3_def)
  moreover have "mem s2 a = 0" if "unat (a - p) < 4096" for a
    using that by (simp add: s2_def memset_def word_less_nat_alt)
  ultimately show thesis using k(1,5) m al out by (intro that [of s1 s3]) (auto simp: s2_def)
qed

lemma unmap_one:
  assumes "uspace s pgdir pt fr ps" "k < UPAGES" "fr k = Some p"
  obtains s1 where "kfree p s = Inr s1"
    "uspace (s1\<lparr>mem := st32 (mem s1) (pte_at pt k) 0\<rparr>) pgdir pt (fr(k := None)) (p # ps)"
    "present (ld32 (mem s) (pte_at pt k))" "PTE_ADDR (ld32 (mem s) (pte_at pt k)) = p" "p \<noteq> 0"
proof -
  note u = uspaceD [OF assms(1)] and f = uspace_frame [OF assms]
  obtain s1 where s1: "kfree p s = Inr s1" using kfree_Inr_iff f(1) by blast
  define s2 where "s2 = s1\<lparr>mem := st32 (mem s1) (pte_at pt k) 0\<rparr>"
  have m1: "mem s1 a = mem s a" if "aligned 4096 q" "q \<noteq> p" "unat (a - q) < 4096" for q a
    by (rule kfree_other_page [OF s1 that])
  have m: "mem s2 a = mem s a" if "aligned 4096 q" "q \<noteq> p" "q \<noteq> pt" "unat (a - q) < 4096" for q a
    using st32_pte_other_page [OF u(6) _ that(1,3,4)] m1 [OF that(1,2,4)] assms(2) by (simp add: s2_def)
  have k: "kend s1 = kend s" using s1 by (auto simp: kfree_ok)
  have ok: "page_ok s2 q = page_ok s q" for q by (simp add: page_ok_def s2_def k)
  have "free_pages s2 (p # ps)"
  proof (rule free_pages_cong [OF kfree_free_pages [OF u(1) s1 f(5)]])
    fix q a assume "q \<in> set (p # ps)" "unat (a - q) < 4096"
    moreover from this have "aligned 4096 q" "q \<noteq> pt" using u f by (auto simp: free_pages_def intro: page_ok_aligned)
    ultimately show "mem s2 a = mem s1 a"
      using st32_pte_other_page [OF u(6), of k q a] assms(2) by (simp add: s2_def)
  qed (simp_all add: s2_def)
  have pd: "ld32 (mem s2) pgdir = ld32 (mem s) pgdir"
    by (rule ld32_page_eq [OF u(5)], rule m) (use u f in auto)
  have e1: "ld32 (mem s1) (pte_at pt j) = ld32 (mem s) (pte_at pt j)" if "j < UPAGES" for j
    by (rule ld32_pte_eq [OF u(6)], use that in simp, rule m1) (use u f in auto)
  have e2: "ld32 (mem s2) (pte_at pt j) = (if j = k then 0 else ld32 (mem s1) (pte_at pt j))"
    if "j < UPAGES" for j
    using that assms(2) aligned_pte_at [OF u(6)] pte_at_inj [OF u(6), of j k]
    by (auto simp: s2_def intro!: ld32_st32_other)
  have e: "pte_maps (ld32 (mem s) (pte_at pt j)) (fr j)" if "j < UPAGES" for j
    using assms(1) that unfolding uspace_def by blast
  have inj: "j = k" if "j < UPAGES" "fr j = Some p" for j
    using assms that unfolding uspace_def by blast
  have "uspace s2 pgdir pt (fr(k := None)) (p # ps)"
  proof (rule uspaceI)
    show "free_pages s2 (p # ps)" by fact
    show "page_ok s2 pgdir" "page_ok s2 pt" "pgdir \<noteq> pt" using u by (simp_all add: ok)
    show "pgdir \<notin> set (p # ps)" "pt \<notin> set (p # ps)" using u f by auto
    show "present (ld32 (mem s2) pgdir)" "PTE_ADDR (ld32 (mem s2) pgdir) = pt"
      using assms(1) unfolding uspace_def pd by blast+
    show "pte_maps (ld32 (mem s2) (pte_at pt j)) ((fr(k := None)) j)" if "j < UPAGES" for j
      using e [OF that] e1 [OF that] e2 [OF that] by (cases "j = k") (simp_all add: pte_maps_def [of 0])
    fix j q assume j: "j < UPAGES" "(fr(k := None)) j = Some q"
    then have fj: "j \<noteq> k" "fr j = Some q" by (auto split: if_splits)
    note g = uspace_frame [OF assms(1) j(1) fj(2)]
    have "q \<noteq> p" using inj [OF j(1)] fj by auto
    then show "page_ok s2 q \<and> q \<noteq> pgdir \<and> q \<noteq> pt \<and> q \<notin> set (p # ps)" using g by (simp add: ok)
    show "i = j" if "i < UPAGES" "(fr(k := None)) i = Some q" for i
      using assms(1) that fj j(1) unfolding uspace_def fun_upd_apply by (metis option.distinct(1))
  qed
  moreover have "pte_maps (ld32 (mem s) (pte_at pt k)) (Some p)" using e [OF assms(2)] assms(3) by simp
  moreover have "p \<noteq> 0" using f(1) u(2) by (auto simp: page_ok_def word_le_nat_alt word_less_nat_alt)
  ultimately show thesis by (intro that [OF s1]) (simp_all add: s2_def pte_maps_def)
qed

section \<open>Growing and shrinking\<close>

text \<open>The page numbers of the pages that a region from \<open>lo\<close> to \<open>hi\<close> adds.\<close>

definition new_pages :: "u32 \<Rightarrow> u32 \<Rightarrow> nat list" where
  "new_pages lo hi = [(unat lo + 4095) div 4096..<(unat hi + 4095) div 4096]"

lemma new_pages_lt: "hi \<le> USERTOP \<Longrightarrow> k \<in> set (new_pages lo hi) \<Longrightarrow> k < UPAGES"
  by (auto simp: new_pages_def word_le_nat_alt)

lemma page_addrs_user:
  assumes "lo \<le> USERTOP" "hi \<le> USERTOP"
  shows "page_addrs (PGROUNDUP lo) hi = map page_at (new_pages lo hi)"
proof -
  define a where "a = (unat lo + 4095) div 4096"
  have r: "unat (PGROUNDUP lo) = 4096 * a"
    using assms(1) by (simp add: a_def word_le_nat_alt unat_roundup)
  then have ru: "PGROUNDUP lo = page_at a"
    using assms(1) by (intro word_eq_unatI) (simp add: a_def word_le_nat_alt unat_page_at)
  have n: "(unat hi - 4096 * a + 4095) div 4096 = (unat hi + 4095) div 4096 - a"
    by (cases "4096 * a \<le> unat hi") auto
  have "page_at a + of_nat (4096 * i) = page_at (a + i)" for i
    by (simp add: page_at_def algebra_simps)
  then show ?thesis
    unfolding page_addrs_def r n new_pages_def a_def [symmetric] unfolding ru
    by (simp add: map_eq_conv list_eq_iff_nth_eq)
qed

text \<open>The pages of \<open>ks\<close> become unmapped: their frames go to the front of the free list.\<close>

fun unmap_list :: "(nat \<Rightarrow> u32 option) \<Rightarrow> nat list \<Rightarrow> u32 list \<Rightarrow> u32 list" where
  "unmap_list fr [] ps = ps"
| "unmap_list fr (k # ks) ps =
     (case fr k of None \<Rightarrow> unmap_list fr ks ps | Some p \<Rightarrow> unmap_list fr ks (p # ps))"

lemma unmap_list_cong: "(\<And>k. k \<in> set ks \<Longrightarrow> fr k = fr' k) \<Longrightarrow> unmap_list fr ks ps = unmap_list fr' ks ps"
  by (induction ks arbitrary: ps) (auto split: option.splits)

lemma set_unmap_list: "set (unmap_list fr ks ps) = set ps \<union> {p. \<exists>k \<in> set ks. fr k = Some p}"
  by (induction ks arbitrary: ps) (auto split: option.splits)

lemma deallocuvm_loop_ok:
  assumes "uspace s pgdir pt fr ps" "\<forall>k \<in> set ks. k < UPAGES" "distinct ks"
  shows "\<exists>s'. deallocuvm_loop pgdir (map page_at ks) s = Inr s' \<and>
    uspace s' pgdir pt (fr |` (- set ks)) (unmap_list fr ks ps)"
  using assms
proof (induction ks arbitrary: s fr ps)
  case Nil
  then show ?case by simp
next
  case (Cons k ks)
  have k: "k < UPAGES" "k \<notin> set ks" "distinct ks" "\<forall>k \<in> set ks. k < UPAGES" using Cons.prems by auto
  have nz: "pte_at pt k \<noteq> 0"
    using k(1) by (intro pte_at_nonnull [OF uspaceD(2,4) [OF Cons.prems(1)]]) simp
  have r: "(fr(k := None)) |` (- set ks) = fr |` (- set (k # ks))"
    by (auto simp: restrict_map_def)
  have c: "unmap_list (fr(k := None)) ks qs = unmap_list fr ks qs" for qs
    using k(2) by (intro unmap_list_cong) auto
  note w = walk_user [OF Cons.prems(1) k(1)]
  show ?case
  proof (cases "fr k")
    case None
    then have "\<not> present (ld32 (mem s) (pte_at pt k))"
      using Cons.prems(1) k(1) unfolding uspace_def by (metis option.simps(4) pte_maps_def)
    moreover have "fr(k := None) = fr" using None by auto
    ultimately show ?thesis using Cons.IH [OF Cons.prems(1) k(4,3)] r None w by simp
  next
    case (Some p)
    obtain s1 where s1: "kfree p s = Inr s1"
      "uspace (s1\<lparr>mem := st32 (mem s1) (pte_at pt k) 0\<rparr>) pgdir pt (fr(k := None)) (p # ps)"
      "present (ld32 (mem s) (pte_at pt k))" "PTE_ADDR (ld32 (mem s) (pte_at pt k)) = p" "p \<noteq> 0"
      by (rule unmap_one [OF Cons.prems(1) k(1) Some])
    obtain s' where "deallocuvm_loop pgdir (map page_at ks) (s1\<lparr>mem := st32 (mem s1) (pte_at pt k) 0\<rparr>) = Inr s'"
      "uspace s' pgdir pt (fr |` (- set (k # ks))) (unmap_list fr ks (p # ps))"
      using Cons.IH [OF s1(2) k(4,3)] unfolding c r by blast
    then show ?thesis using s1(1,3,4,5) w nz Some by (simp add: Let_def)
  qed
qed

lemma deallocuvm_ok:
  assumes "uspace s pgdir pt fr ps" "newsz < oldsz" "oldsz \<le> USERTOP"
  shows "\<exists>s'. deallocuvm pgdir oldsz newsz s = Inr (newsz, s') \<and>
    uspace s' pgdir pt (fr |` (- set (new_pages newsz oldsz))) (unmap_list fr (new_pages newsz oldsz) ps)"
proof -
  let ?ks = "new_pages newsz oldsz"
  have "newsz \<le> USERTOP" using assms(2,3) by simp
  moreover have "\<forall>k \<in> set ?ks. k < UPAGES" using new_pages_lt [OF assms(3)] by blast
  moreover have "distinct ?ks" by (simp add: new_pages_def)
  ultimately show ?thesis
    using deallocuvm_loop_ok [OF assms(1), of ?ks] assms(2,3)
    by (auto simp: deallocuvm_def page_addrs_user)
qed

lemma allocuvm_loop_ok:
  assumes "uspace s pgdir pt fr ps" "\<forall>k \<in> set ks. k < UPAGES \<and> fr k = None" "distinct ks"
    and "length ks \<le> length ps"
  shows "\<exists>s'. allocuvm_loop pgdir (map page_at ks) oldsz newsz s = Inr (newsz, s') \<and>
    uspace s' pgdir pt (fr(ks [\<mapsto>] ps)) (drop (length ks) ps) \<and>
    (\<forall>p \<in> set (take (length ks) ps). \<forall>a. unat (a - p) < 4096 \<longrightarrow> mem s' a = 0) \<and>
    (\<forall>q a. aligned 4096 q \<longrightarrow> q \<notin> set ps \<longrightarrow> q \<noteq> pt \<longrightarrow> unat (a - q) < 4096 \<longrightarrow> mem s' a = mem s a)"
  using assms
proof (induction ks arbitrary: s fr ps)
  case Nil
  then show ?case by simp
next
  case (Cons k ks)
  then obtain p qs where ps: "ps = p # qs" by (cases ps) auto
  have k: "k < UPAGES" "fr k = None" using Cons.prems(2) by auto
  obtain s1 s2 where s2: "kalloc s = (p, s1)"
    "mappages pgdir (page_at k) PGSIZE p (PTE_W OR PTE_U) (s1\<lparr>mem := memset (mem s1) p 0 PGSIZE\<rparr>) = Inr (0, s2)"
    "uspace s2 pgdir pt (fr(k \<mapsto> p)) qs" "page_ok s p"
    "\<And>a. unat (a - p) < 4096 \<Longrightarrow> mem s2 a = 0"
    "\<And>a q. aligned 4096 q \<Longrightarrow> q \<noteq> p \<Longrightarrow> q \<noteq> pt \<Longrightarrow> unat (a - q) < 4096 \<Longrightarrow> mem s2 a = mem s a"
    by (rule map_one [OF Cons.prems(1) [unfolded ps] k]) (rule that)
  have p: "p \<noteq> 0" "p \<noteq> pt" "p \<notin> set qs" "aligned 4096 p"
    using uspaceD [OF Cons.prems(1)] uspace_frame [OF s2(3) k(1), of p]
    by (auto simp: ps free_pages_def page_ok_def word_le_nat_alt word_less_nat_alt)
  have "\<forall>j \<in> set ks. j < UPAGES \<and> (fr(k \<mapsto> p)) j = None" "distinct ks" "length ks \<le> length qs"
    using Cons.prems ps by auto
  from Cons.IH [OF s2(3) this] obtain s' where s': "allocuvm_loop pgdir (map page_at ks) oldsz newsz s2 = Inr (newsz, s')"
    "uspace s' pgdir pt ((fr(k \<mapsto> p))(ks [\<mapsto>] qs)) (drop (length ks) qs)"
    "\<forall>p \<in> set (take (length ks) qs). \<forall>a. unat (a - p) < 4096 \<longrightarrow> mem s' a = 0"
    "\<forall>q a. aligned 4096 q \<longrightarrow> q \<notin> set qs \<longrightarrow> q \<noteq> pt \<longrightarrow> unat (a - q) < 4096 \<longrightarrow> mem s' a = mem s2 a" by blast
  have "allocuvm_loop pgdir (map page_at (k # ks)) oldsz newsz s = Inr (newsz, s')"
    using s2(1,2) s'(1) p(1) by (simp add: Let_def)
  moreover have "mem s' a = 0" if "unat (a - p) < 4096" for a using s'(4) s2(5) p that by simp
  moreover have "mem s' a = mem s a" if "aligned 4096 q" "q \<notin> set ps" "q \<noteq> pt" "unat (a - q) < 4096" for q a
    using s'(4) s2(6) that by (simp add: ps)
  ultimately show ?case using s'(2,3) ps by auto
qed

lemma allocuvm_loop_fail:
  assumes "uspace s pgdir pt fr ps" "\<forall>k \<in> set ks. k < UPAGES \<and> fr k = None" "distinct ks"
    and "length ps < length ks"
  shows "\<exists>s'. allocuvm_loop pgdir (map page_at ks) oldsz newsz s =
      kbind (deallocuvm pgdir newsz oldsz s') (\<lambda>(_, s). Inr (0, s)) \<and>
    uspace s' pgdir pt (fr(ks [\<mapsto>] ps)) []"
  using assms
proof (induction ks arbitrary: s fr ps)
  case Nil
  then show ?case by simp
next
  case (Cons k ks)
  have k: "k < UPAGES" "fr k = None" using Cons.prems(2) by auto
  show ?case
  proof (cases ps)
    case Nil
    then show ?thesis using Cons.prems(1) kalloc_empty [of s] uspaceD(1) [OF Cons.prems(1)] by auto
  next
    case (Cons p qs)
    obtain s1 s2 where s2: "kalloc s = (p, s1)"
      "mappages pgdir (page_at k) PGSIZE p (PTE_W OR PTE_U) (s1\<lparr>mem := memset (mem s1) p 0 PGSIZE\<rparr>) = Inr (0, s2)"
      "uspace s2 pgdir pt (fr(k \<mapsto> p)) qs"
      by (rule map_one [OF Cons.prems(1) [unfolded Cons] k])
    have p: "p \<noteq> 0"
      using uspaceD(1,2) [OF Cons.prems(1)]
      by (auto simp: Cons free_pages_def page_ok_def word_le_nat_alt word_less_nat_alt)
    have "\<forall>j \<in> set ks. j < UPAGES \<and> (fr(k \<mapsto> p)) j = None" "distinct ks" "length qs < length ks"
      using Cons.prems Cons by auto
    from Cons.IH [OF s2(3) this] obtain s' where s':
      "allocuvm_loop pgdir (map page_at ks) oldsz newsz s2 =
        kbind (deallocuvm pgdir newsz oldsz s') (\<lambda>(_, s). Inr (0, s))"
      "uspace s' pgdir pt (fr(k # ks [\<mapsto>] ps)) []" unfolding Cons map_upds_Cons by blast
    then show ?thesis using s2(1,2) p by (auto simp: Let_def)
  qed
qed

lemma map_upds_restrict: "(fr(ks [\<mapsto>] ps)) |` (- set ks) = fr |` (- set ks)"
  by (rule ext) (auto simp: restrict_map_def map_upds_apply_nontin)

lemma map_upds_range:
  "length ps \<le> length ks \<Longrightarrow> distinct ks \<Longrightarrow> \<forall>k \<in> set ks. fr k = None \<Longrightarrow>
    {p. \<exists>k \<in> set ks. (fr(ks [\<mapsto>] ps)) k = Some p} = set ps"
proof (induction ks arbitrary: fr ps)
  case Nil
  then show ?case by simp
next
  case (Cons k ks)
  note prems = Cons.prems
  show ?case
  proof (cases ps)
    case Nil
    then show ?thesis using prems by auto
  next
    case (Cons p qs)
    have k: "k \<notin> set ks" using prems(2) by simp
    have "{p'. \<exists>j \<in> set ks. ((fr(k \<mapsto> p))(ks [\<mapsto>] qs)) j = Some p'} = set qs"
      using Cons prems by (intro Cons.IH) auto
    moreover have "((fr(k \<mapsto> p))(ks [\<mapsto>] qs)) k = Some p"
      using k by (simp add: map_upds_apply_nontin)
    ultimately show ?thesis by (fastforce simp: Cons)
  qed
qed

lemma allocuvm_ok:
  assumes "uspace s pgdir pt fr ps" "oldsz \<le> newsz" "newsz \<le> USERTOP"
    and "\<forall>k \<in> set (new_pages oldsz newsz). fr k = None"
    and "length (new_pages oldsz newsz) \<le> length ps"
  defines "ks \<equiv> new_pages oldsz newsz"
  shows "\<exists>s'. allocuvm pgdir oldsz newsz s = Inr (newsz, s') \<and>
    uspace s' pgdir pt (fr(ks [\<mapsto>] ps)) (drop (length ks) ps) \<and>
    (\<forall>p \<in> set (take (length ks) ps). \<forall>a. unat (a - p) < 4096 \<longrightarrow> mem s' a = 0)"
proof -
  have o: "oldsz \<le> USERTOP" using assms(2,3) by simp
  have ks: "\<forall>k \<in> set ks. k < UPAGES \<and> fr k = None"
    using new_pages_lt [OF assms(3)] assms(4) unfolding ks_def by blast
  have d: "distinct ks" by (simp add: ks_def new_pages_def)
  have "allocuvm pgdir oldsz newsz s = allocuvm_loop pgdir (map page_at ks) oldsz newsz s"
    using assms(2,3) by (simp add: allocuvm_def page_addrs_user [OF o assms(3)] ks_def not_less [symmetric])
  then show ?thesis
    using allocuvm_loop_ok [OF assms(1) ks d, of oldsz newsz] assms(5) unfolding ks_def by auto
qed

lemma allocuvm_fail:
  assumes "uspace s pgdir pt fr ps" "oldsz \<le> newsz" "newsz \<le> USERTOP"
    and "\<forall>k \<in> set (new_pages oldsz newsz). fr k = None"
    and "length ps < length (new_pages oldsz newsz)"
  shows "\<exists>s' ps'. allocuvm pgdir oldsz newsz s = Inr (0, s') \<and> uspace s' pgdir pt fr ps' \<and> set ps' = set ps"
proof -
  define ks where "ks = new_pages oldsz newsz"
  have o: "oldsz \<le> USERTOP" using assms(2,3) by simp
  have ne: "oldsz < newsz"
    using assms(5) assms(2) by (cases "oldsz = newsz") (auto simp: new_pages_def)
  have ks: "\<forall>k \<in> set ks. k < UPAGES \<and> fr k = None"
    using new_pages_lt [OF assms(3)] assms(4) unfolding ks_def by blast
  have d: "distinct ks" by (simp add: ks_def new_pages_def)
  have e: "allocuvm pgdir oldsz newsz s = allocuvm_loop pgdir (map page_at ks) oldsz newsz s"
    using assms(2,3) by (simp add: allocuvm_def page_addrs_user [OF o assms(3)] ks_def not_less [symmetric])
  have l: "length ps < length ks" using assms(5) by (simp add: ks_def)
  obtain s1 where s1: "allocuvm pgdir oldsz newsz s = kbind (deallocuvm pgdir newsz oldsz s1) (\<lambda>(_, s). Inr (0, s))"
    "uspace s1 pgdir pt (fr(ks [\<mapsto>] ps)) []"
    using allocuvm_loop_fail [OF assms(1) ks d l, of oldsz newsz] e by auto
  obtain s' where s': "deallocuvm pgdir newsz oldsz s1 = Inr (oldsz, s')"
    "uspace s' pgdir pt ((fr(ks [\<mapsto>] ps)) |` (- set ks)) (unmap_list (fr(ks [\<mapsto>] ps)) ks [])"
    using deallocuvm_ok [OF s1(2) ne assms(3)] unfolding ks_def by blast
  have "fr k = None" if "k \<in> set ks" for k using ks that by blast
  then have r: "(fr(ks [\<mapsto>] ps)) |` (- set ks) = fr"
    unfolding map_upds_restrict by (auto simp: restrict_map_def)
  have "set (unmap_list (fr(ks [\<mapsto>] ps)) ks []) = set ps"
    using map_upds_range [of ps ks fr] l d ks by (simp add: set_unmap_list)
  then show ?thesis using s1(1) s' unfolding r by auto
qed

section \<open>The fuel of \<open>mappages\<close>\<close>

lemma mappages_loop_fuel:
  "unat (last_a - a) = 4096 * n \<Longrightarrow> n < fuel \<Longrightarrow>
    mappages_loop fuel pgdir a last_a pa perm s \<noteq> Inl (Fault e)"
proof (induction fuel arbitrary: a pa s n)
  case 0
  then show ?case by simp
next
  case (Suc fuel)
  have IH: "mappages_loop fuel pgdir (a + PGSIZE) last_a pa' perm s' \<noteq> Inl (Fault e)"
    if "a \<noteq> last_a" for pa' s'
  proof -
    have "unat (last_a - a) \<noteq> 0" using that by (simp add: unat_eq_0)
    then have "n \<noteq> 0" using Suc.prems(1) by simp
    then obtain n' where n: "n = Suc n'" by (cases n) auto
    have "PGSIZE \<le> last_a - a" using Suc.prems(1) n by (simp add: word_le_nat_alt)
    then have "unat (last_a - a - PGSIZE) = 4096 * n'" using Suc.prems(1) n by (simp add: unat_sub)
    then have "unat (last_a - (a + PGSIZE)) = 4096 * n'" by (simp add: diff_diff_eq)
    then show ?thesis using Suc.prems(2) n by (intro Suc.IH) auto
  qed
  then show ?case by (simp add: Let_def split: prod.split)
qed

lemma mappages_fuel: "mappages pgdir la sz pa perm s \<noteq> Inl (Fault e)"
proof -
  define a where "a = PGROUNDDOWN la"
  define b where "b = PGROUNDDOWN (la + sz - 1)"
  have "a mod PGSIZE = 0" "b mod PGSIZE = 0" by (simp_all add: a_def b_def rounddown_mod)
  then have "(b - a) mod PGSIZE = 0"
    by (simp add: word_unat_eq_iff unat_mod_distrib)
      (simp add: unat_sub_if' mod_eq_0_iff_dvd dvd_diff_nat dvd_add)
  then have "unat (b - a) mod 4096 = 0" by (simp add: word_unat_eq_iff unat_mod_distrib)
  then have "unat (b - a) = 4096 * (unat (b - a) div 4096)" by auto
  then show ?thesis
    unfolding mappages_def Let_def a_def [symmetric] b_def [symmetric]
    by (rule mappages_loop_fuel) simp
qed

section \<open>The bytes of user memory\<close>

text \<open>The byte a process sees at a user address.\<close>

definition ubyte :: "kmem \<Rightarrow> (nat \<Rightarrow> u32 option) \<Rightarrow> u32 \<Rightarrow> u8 option" where
  "ubyte s fr a = map_option (\<lambda>p. mem s (p + (a - PGROUNDDOWN a))) (fr (unat a div 4096))"

lemma put_bytes_apply:
  "n \<le> 4096 \<Longrightarrow> put_bytes m d b n a = (if unat (a - d) < n then b (unat (a - d)) else m a)"
proof (induction n arbitrary: m d b)
  case 0
  then show ?case by simp
next
  case (Suc n)
  have "unat (a - d) = Suc (unat (a - (d + 1)))" if "a \<noteq> d"
  proof -
    have "1 \<le> a - d" using that by (simp add: word_le_nat_alt Suc_le_eq unat_gt_0)
    then have "unat (a - d - 1) = unat (a - d) - 1" by (simp add: unat_sub)
    moreover have "unat (a - d) \<noteq> 0" using that by (simp add: unat_eq_0)
    ultimately show ?thesis by (simp add: diff_diff_eq)
  qed
  moreover have "unat (a - (d + 1)) = 2 ^ 32 - 1" if "a = d"
    using that by (simp add: unsigned_minus_1_eq_mask mask_eq_exp_minus_1)
  moreover have "n \<le> 4096" using Suc.prems by simp
  note Suc.IH [OF this, of "m(d := b 0)" "d + 1" "\<lambda>i. b (Suc i)"]
  ultimately show ?case using Suc.prems 
    by (cases "a = d") (simp_all del: fun_upd_apply add: fun_upd_same fun_upd_other)
qed

text \<open>Storing into a frame of the user space.\<close>

lemma uspace_put:
  fixes b :: cptr
  assumes "uspace s pgdir pt fr ps" "k < UPAGES" "fr k = Some p" "off + n \<le> 4096"
  defines "s' \<equiv> s\<lparr>mem := put_bytes (mem s) (p + of_nat off) b n\<rparr>"
  shows "uspace s' pgdir pt fr ps"
    "unat a < 4096 * UPAGES \<Longrightarrow> ubyte s' fr a =
      (if 4096 * k + off \<le> unat a \<and> unat a < 4096 * k + off + n then Some (b (unat a - (4096 * k + off)))
       else ubyte s fr a)"
proof -
  note f = uspace_frame [OF assms(1-3)]
  have off: "n = 0 \<or> unat (of_nat off :: u32) = off" using assms(4) by (intro disjI2 unat_of_nat_lt) simp
  have m: "mem s' (p + j) = (if off \<le> unat j \<and> unat j < off + n then b (unat j - off) else mem s (p + j))"
    if "unat j < 4096" for j
  proof (cases "off \<le> unat j")
    case True
    then have "(of_nat off :: u32) \<le> j" using assms(4) that by (simp add: word_le_nat_alt unat_of_nat_lt)
    then have "unat (p + j - (p + of_nat off)) = unat j - off"
      using assms(4) by (simp add: unat_sub unat_of_nat_lt)
    then show ?thesis using True assms(4) by (auto simp: s'_def put_bytes_apply)
  next
    case False
    then have "unat (j - of_nat off) = 2 ^ 32 + unat j - off"
      using assms(4) by (simp add: unat_sub_if' unat_of_nat_lt)
    then have "\<not> unat (p + j - (p + of_nat off)) < n" using assms(4) by simp
    then show ?thesis using False assms(4) by (simp add: s'_def put_bytes_apply)
  qed
  have out: "mem s' x = mem s x" if "aligned 4096 q" "q \<noteq> p" "unat (x - q) < 4096" for q x
  proof -
    have o: "\<not> unat (x - p) < 4096" using page_bytes_disjoint [OF that(1) f(2) that(2,3)] .
    have "\<not> unat (x - (p + of_nat off)) < n"
    proof
      assume "unat (x - (p + of_nat off)) < n"
      moreover from this have "unat (of_nat off :: u32) = off" using off by auto
      ultimately have "unat (of_nat off + (x - (p + of_nat off))) = off + unat (x - (p + of_nat off))"
        using assms(4) unat_add_lt [of "of_nat off" "x - (p + of_nat off)"] by simp
      then show False using o assms(4) \<open>unat (x - (p + of_nat off)) < n\<close> by simp
    qed
    then show ?thesis using assms(4) by (simp add: s'_def put_bytes_apply)
  qed
  show "uspace s' pgdir pt fr ps"
  proof (rule uspace_cong [OF assms(1)])
    fix q x assume q: "q \<in> insert pgdir (insert pt (set ps))" "unat (x - q) < 4096"
    then have "aligned 4096 q"
      using uspaceD [OF assms(1)] by (auto simp: free_pages_def intro: page_ok_aligned)
    moreover have "q \<noteq> p" using q(1) f by auto
    ultimately show "mem s' x = mem s x" using q(2) out by blast
  qed (simp_all add: s'_def)
  assume a: "unat a < 4096 * UPAGES"
  define j where "j = a - PGROUNDDOWN a"
  have j: "unat j = unat a mod 4096"
    unfolding j_def by (simp add: unat_sub word_le_nat_alt unat_rounddown modulo_nat_def)
  have ak: "unat a div 4096 = k \<longleftrightarrow> 4096 * k \<le> unat a \<and> unat a < 4096 * k + 4096" by auto
  show "ubyte s' fr a =
      (if 4096 * k + off \<le> unat a \<and> unat a < 4096 * k + off + n then Some (b (unat a - (4096 * k + off)))
       else ubyte s fr a)"
  proof (cases "unat a div 4096 = k")
    case True
    then have "unat j = unat a - 4096 * k" using j by (simp add: modulo_nat_def)
    moreover have "unat j < 4096" using j by simp
    ultimately show ?thesis
      using m [of j] True assms(3) ak by (auto simp: ubyte_def j_def [symmetric])
  next
    case False
    have "mem s' (q + j) = mem s (q + j)" if q: "fr (unat a div 4096) = Some q" for q
    proof (rule out)
      have d: "unat a div 4096 < UPAGES" using a by auto
      show "aligned 4096 q" by (rule uspace_frame(2) [OF assms(1) d q])
      show "q \<noteq> p" using assms(1-3) d q False unfolding uspace_def by blast
      show "unat (q + j - q) < 4096" using j by simp
    qed
    then show ?thesis
      using False ak assms(4) by (cases "fr (unat a div 4096)") (auto simp: ubyte_def j_def [symmetric])
  qed
qed

lemma uva2ka_user:
  assumes "uspace s pgdir pt fr ps" "k < UPAGES"
  shows "uva2ka pgdir (page_at k) s = Inr (case fr k of None \<Rightarrow> 0 | Some p \<Rightarrow> p)"
proof -
  have "pte_maps (ld32 (mem s) (pte_at pt k)) (fr k)" using assms unfolding uspace_def by blast
  moreover have "pte_at pt k \<noteq> 0" using assms(2) by (intro pte_at_nonnull [OF uspaceD(2,4) [OF assms(1)]]) simp
  ultimately show ?thesis
    by (auto simp: uva2ka_def walk_user [OF assms] pte_maps_def split: option.splits)
qed

lemma page_of: "PGROUNDDOWN va = page_at (unat va div 4096)" "unat (va - PGROUNDDOWN va) = unat va mod 4096"
proof -
  have "unat va div 4096 \<le> 4096 * 256 - 1" using unsigned_less [of va, where ?'a = nat] by simp
  then show "PGROUNDDOWN va = page_at (unat va div 4096)"
    by (intro word_eq_unatI) (simp add: page_at_def unat_rounddown unat_word_ariths unat_of_nat mod_mult_right_eq)
  show "unat (va - PGROUNDDOWN va) = unat va mod 4096"
    by (simp add: unat_sub word_le_nat_alt unat_rounddown modulo_nat_def)
qed

lemma copyout_ok:
  assumes "uspace s pgdir pt fr ps" "unat va + unat len \<le> 4096 * UPAGES"
    and "\<And>x. unat va \<le> x \<Longrightarrow> x < unat va + unat len \<Longrightarrow> fr (x div 4096) \<noteq> None"
  shows "\<exists>s'. copyout pgdir va buf len s = Inr (0, s') \<and> uspace s' pgdir pt fr ps \<and>
    (\<forall>a. unat a < 4096 * UPAGES \<longrightarrow> ubyte s' fr a =
      (if unat va \<le> unat a \<and> unat a < unat va + unat len then Some (buf (unat a - unat va))
       else ubyte s fr a))"
  using assms
proof (induction "unat len" arbitrary: va buf len s rule: less_induct)
  case less
  show ?case
  proof (cases "len = 0")
    case True
    then show ?thesis using less.prems by (auto simp: copyout.simps)
  next
    case False
    define k where "k = unat va div 4096"
    define off where "off = unat va mod 4096"
    define n where "n = min (4096 - off) (unat len)"
    have va: "unat va = 4096 * k + off" by (simp add: k_def off_def)
    have pos: "0 < unat len" using False by (simp add: unat_gt_0)
    have off: "off < 4096" by (simp add: off_def)
    have k: "k < UPAGES" using less.prems(2) pos va by linarith
    obtain p where p: "fr k = Some p" using less.prems(3) [of "unat va"] pos k_def by auto
    have vo: "va - page_at k = of_nat off"
      using page_of [of va] by (intro word_eq_unatI) (simp add: k_def off_def unat_of_nat_lt)
    have mn: "min (PGSIZE - of_nat off) len = of_nat n"
      using off by (intro word_eq_unatI)
        (auto simp: n_def min_def word_le_nat_alt unat_sub unat_of_nat_lt)
    have np: "0 < n" "off + n \<le> 4096" "n \<le> unat len" using off pos by (auto simp: n_def)
    have un: "unat (of_nat n :: u32) = n" using np by (intro unat_of_nat_lt) simp
    have p0: "p \<noteq> 0"
      using uspace_frame(1) [OF less.prems(1) k p] uspaceD(2) [OF less.prems(1)]
      by (auto simp: page_ok_def word_le_nat_alt word_less_nat_alt)
    define s1 where "s1 = s\<lparr>mem := put_bytes (mem s) (p + of_nat off) buf n\<rparr>"
    have e: "copyout pgdir va buf len s =
        copyout pgdir (page_at k + PGSIZE) (\<lambda>i. buf (i + n)) (len - of_nat n) s1"
      using p p0 by (subst copyout.simps)
        (simp add: False Let_def page_of(1) k_def [symmetric] uva2ka_user [OF less.prems(1) k] vo mn un s1_def)
    note u1 = uspace_put [OF less.prems(1) k p np(2), where b = buf, folded s1_def]
    have len': "unat (len - of_nat n) = unat len - n" using np un by (simp add: unat_sub word_le_nat_alt)
    have va': "unat (page_at k + PGSIZE) = 4096 * Suc k"
      using k unat_page_at [of k] unat_add_lt [of "page_at k" PGSIZE] by simp
    show ?thesis
    proof (cases "n = unat len")
      case True
      then have "len - of_nat n = 0" using len' by (simp add: unat_eq_0)
      then show ?thesis using u1 va True unfolding e by (auto simp: copyout.simps)
    next
      case rest: False
      then have n: "n = 4096 - off" by (auto simp: n_def min_def split: if_splits)
      have "unat (len - of_nat n) < unat len" using len' np(1) pos by simp
      then have IH: "\<exists>s'. copyout pgdir (page_at k + PGSIZE) (\<lambda>i. buf (i + n)) (len - of_nat n) s1 = Inr (0, s') \<and>
          uspace s' pgdir pt fr ps \<and>
          (\<forall>a. unat a < 4096 * UPAGES \<longrightarrow> ubyte s' fr a =
            (if 4096 * Suc k \<le> unat a \<and> unat a < 4096 * Suc k + (unat len - n) then
               Some (buf (unat a - 4096 * Suc k + n)) else ubyte s1 fr a))"
        unfolding len' [symmetric] va' [symmetric]
        using less.prems(2,3) va n off u1(1) len' va' np
        by (intro less.hyps) auto
      have "unat a - 4096 * Suc k + n = unat a - unat va" if "4096 * Suc k \<le> unat a" for a :: u32
        using that n va off by auto
      with IH show ?thesis using u1 va n off np unfolding e by (auto split: if_splits)
    qed
  qed
qed

lemma upds_in: "k \<in> set ks \<Longrightarrow> length ks \<le> length ps \<Longrightarrow> (fr(ks [\<mapsto>] ps)) k \<noteq> None"
proof (induction ks arbitrary: fr ps)
  case (Cons a ks)
  then obtain q qs where ps: "ps = q # qs" by (cases ps) auto
  show ?case
  proof (cases "k \<in> set ks")
    case True
    then show ?thesis using Cons.IH [of qs "fr(a \<mapsto> q)"] Cons.prems(2) by (simp add: ps del: fun_upd_apply)
  next
    case False
    then show ?thesis using Cons.prems(1) by (simp add: ps map_upds_apply_nontin)
  qed
qed simp

lemma map_upds_take: "fr(ks [\<mapsto>] take (length ks) ps) = fr(ks [\<mapsto>] ps)"
proof (induction ks arbitrary: fr ps)
  case (Cons k ks)
  then show ?case by (cases ps) (simp_all del: fun_upd_apply)
qed simp

section \<open>Properties\<close>

text \<open>
  C4. Growing an address space is all or nothing. When there are enough free pages, \<open>allocuvm\<close>
  returns the new size and the new user pages are mapped, one to one, to zeroed pages taken from the
  free list, every other mapping staying as it was. When memory runs out half way, it returns 0, the
  address space is what it was before the call, and every page it had taken is free again.
\<close>

theorem allocuvm_correct:
  assumes "uspace s pgdir pt fr ps" "oldsz \<le> newsz" "newsz \<le> USERTOP"
    and "\<forall>k \<in> set (new_pages oldsz newsz). fr k = None"
  defines "ks \<equiv> new_pages oldsz newsz"
  shows "if length ks \<le> length ps
    then \<exists>s'. allocuvm pgdir oldsz newsz s = Inr (newsz, s') \<and>
      uspace s' pgdir pt (fr(ks [\<mapsto>] ps)) (drop (length ks) ps) \<and>
      (\<forall>p \<in> set (take (length ks) ps). \<forall>a. unat (a - p) < 4096 \<longrightarrow> mem s' a = 0)
    else \<exists>s' ps'. allocuvm pgdir oldsz newsz s = Inr (0, s') \<and> uspace s' pgdir pt fr ps' \<and> set ps' = set ps"
  using allocuvm_ok [OF assms(1-4)] allocuvm_fail [OF assms(1-4)] unfolding ks_def by auto

text \<open>An address space with no user page, a page table for it, and two free pages.\<close>

definition demo_vm :: kmem where
  "demo_vm = \<lparr>mem = st32 (st32 (\<lambda>_. 0) 0x200000 0x201007) 0x202000 0x203000,
     freelist = 0x202000, kend = 0x110000, kdata = 0x108000\<rparr>"

lemma demo_vm_uspace: "uspace demo_vm 0x200000 0x201000 (\<lambda>_. None) [0x202000, 0x203000]"
proof (rule uspaceI)
  have m: "ld32 (mem demo_vm) a = (if a = 0x202000 then 0x203000 else if a = 0x200000 then 0x201007 else 0)"
    if "aligned 4 a" for a
  proof -
    have "aligned 4 (0x202000 :: u32)" "aligned 4 (0x200000 :: u32)" by (simp_all add: aligned_def)
    then show ?thesis using that by (simp add: demo_vm_def ld32_st32_other)
  qed
  have a: "aligned 4 (0x202000 :: u32)" "aligned 4 (0x200000 :: u32)" "aligned 4 (0x203000 :: u32)"
    by (simp_all add: aligned_def)
  show "free_pages demo_vm [0x202000, 0x203000]"
    using m [OF a(1)] m [OF a(3)] by (simp add: free_pages_def page_ok_def) (simp add: demo_vm_def)
  show "page_ok demo_vm 0x200000" "page_ok demo_vm 0x201000" by (simp_all add: page_ok_def demo_vm_def)
  show "present (ld32 (mem demo_vm) 0x200000)" "PTE_ADDR (ld32 (mem demo_vm) 0x200000) = 0x201000"
    using m [OF a(2)] by (simp_all add: present_def PTE_ADDR_def)
  show "pte_maps (ld32 (mem demo_vm) (pte_at 0x201000 k)) None" if "k < UPAGES" for k
  proof -
    have al: "aligned 4096 (0x201000 :: u32)" by (simp add: aligned_def)
    have "unat (pte_at 0x201000 k) = 0x201000 + 4 * k"
      using that unat_pte_at(1) [OF al, of k] by simp
    then have "pte_at 0x201000 k \<noteq> 0x202000" "pte_at 0x201000 k \<noteq> 0x200000" using that by auto
    moreover have "aligned 4 (pte_at 0x201000 k)" using that by (intro aligned_pte_at [OF al]) simp
    ultimately show ?thesis using m by (simp add: pte_maps_def)
  qed
qed simp_all

lemma allocuvm_correct_witness:
  "(\<exists>s'. allocuvm 0x200000 0 4096 demo_vm = Inr (4096, s') \<and>
     uspace s' 0x200000 0x201000 [0 \<mapsto> 0x202000] [0x203000]) \<and>
   (\<exists>s' ps'. allocuvm 0x200000 0 12289 demo_vm = Inr (0, s') \<and>
     uspace s' 0x200000 0x201000 (\<lambda>_. None) ps' \<and> set ps' = {0x202000, 0x203000})"
  using allocuvm_correct [OF demo_vm_uspace, of 0 4096] allocuvm_correct [OF demo_vm_uspace, of 0 12289]
  by (auto simp: new_pages_def)

text \<open>
  Shrinking undoes growing: growing an address space and shrinking it back to the old size
  restores every mapping and leaves exactly the pages free that were free before.
\<close>

theorem deallocuvm_undoes_allocuvm:
  assumes "uspace s pgdir pt fr ps" "oldsz < newsz" "newsz \<le> USERTOP"
    and "\<forall>k \<in> set (new_pages oldsz newsz). fr k = None"
    and "length (new_pages oldsz newsz) \<le> length ps"
  shows "\<exists>s' ps'. kbind (allocuvm pgdir oldsz newsz s) (\<lambda>(_, s). deallocuvm pgdir newsz oldsz s) = Inr (oldsz, s') \<and>
    uspace s' pgdir pt fr ps' \<and> set ps' = set ps"
proof -
  let ?ks = "new_pages oldsz newsz" and ?n = "length (new_pages oldsz newsz)"
  have d: "distinct ?ks" by (simp add: new_pages_def)
  obtain s1 where s1: "allocuvm pgdir oldsz newsz s = Inr (newsz, s1)"
    "uspace s1 pgdir pt (fr(?ks [\<mapsto>] ps)) (drop ?n ps)"
    using allocuvm_ok [OF assms(1) less_imp_le [OF assms(2)] assms(3-5)] by blast
  have t: "fr(?ks [\<mapsto>] ps) = fr(?ks [\<mapsto>] take ?n ps)" by (rule map_upds_take [symmetric])
  obtain s2 where s2: "deallocuvm pgdir newsz oldsz s1 = Inr (oldsz, s2)"
    "uspace s2 pgdir pt ((fr(?ks [\<mapsto>] ps)) |` (- set ?ks)) (unmap_list (fr(?ks [\<mapsto>] ps)) ?ks (drop ?n ps))"
    using deallocuvm_ok [OF s1(2) assms(2,3)] by blast
  have "(fr(?ks [\<mapsto>] ps)) |` (- set ?ks) = fr"
    using assms(4) unfolding map_upds_restrict by (force simp: restrict_map_def)
  moreover have "set (unmap_list (fr(?ks [\<mapsto>] ps)) ?ks (drop ?n ps)) = set ps"
    unfolding t set_unmap_list using map_upds_range [OF _ d assms(4), of "take ?n ps"]
    by (simp del: map_upds_apply_nontin) (metis append_take_drop_id set_append sup_commute)
  ultimately show ?thesis using s1(1) s2 by auto
qed

lemma deallocuvm_undoes_allocuvm_witness:
  "\<exists>s' ps'. kbind (allocuvm 0x200000 0 8192 demo_vm) (\<lambda>(_, s). deallocuvm 0x200000 8192 0 s) = Inr (0, s') \<and>
    uspace s' 0x200000 0x201000 (\<lambda>_. None) ps' \<and> set ps' = {0x202000, 0x203000}"
  using deallocuvm_undoes_allocuvm [OF demo_vm_uspace, of 0 8192] by (simp add: new_pages_def)

text \<open>
  C6. \<open>copyout\<close> stores the kernel buffer at the user addresses it was given, across page boundaries,
  and changes no other byte the process can see, nor any mapping.
\<close>

theorem copyout_correct:
  assumes "uspace s pgdir pt fr ps" "unat va + unat len \<le> 4096 * UPAGES"
    and "\<And>x. unat va \<le> x \<Longrightarrow> x < unat va + unat len \<Longrightarrow> fr (x div 4096) \<noteq> None"
  shows "\<exists>s'. copyout pgdir va buf len s = Inr (0, s') \<and> uspace s' pgdir pt fr ps \<and>
    (\<forall>a. unat a < 4096 * UPAGES \<longrightarrow> ubyte s' fr a =
      (if unat va \<le> unat a \<and> unat a < unat va + unat len then Some (buf (unat a - unat va))
       else ubyte s fr a))"
  using assms by (rule copyout_ok)

lemma copyout_correct_witness:
  "\<exists>s s'. uspace s 0x200000 0x201000 [0 \<mapsto> 0x202000, 1 \<mapsto> 0x203000] [] \<and>
    copyout 0x200000 4094 (\<lambda>i. of_nat i) 4 s = Inr (0, s') \<and>
    ubyte s' [0 \<mapsto> 0x202000, 1 \<mapsto> 0x203000] 4097 = Some 3"
proof -
  obtain s where s: "uspace s 0x200000 0x201000 [0 \<mapsto> 0x202000, 1 \<mapsto> 0x203000] []"
    using allocuvm_ok [OF demo_vm_uspace, of 0 8192] by (auto simp: new_pages_def upt_rec)
  let ?fr = "[0 \<mapsto> 0x202000, 1 \<mapsto> 0x203000] :: nat \<Rightarrow> u32 option"
  have f: "?fr (x div 4096) \<noteq> None" if "unat (4094 :: u32) \<le> x" "x < unat (4094 :: u32) + unat (4 :: u32)" for x
    using that by (cases "x < 4096") (auto simp: div_if)
  have "unat (4094 :: u32) + unat (4 :: u32) \<le> 4096 * UPAGES" by simp
  from copyout_correct [OF s this f, of "\<lambda>i. of_nat i"]
  obtain s' where s': "copyout 0x200000 4094 (\<lambda>i. of_nat i) 4 s = Inr (0, s')"
    "\<forall>a. unat a < 4096 * UPAGES \<longrightarrow> ubyte s' ?fr a =
      (if unat (4094 :: u32) \<le> unat a \<and> unat a < unat (4094 :: u32) + unat (4 :: u32)
       then Some (of_nat (unat a - unat (4094 :: u32))) else ubyte s ?fr a)" by blast
  have "ubyte s' ?fr 4097 = Some 3" using s'(2) [rule_format, of 4097] by simp
  then show ?thesis using s s'(1) by blast
qed

end
