(* ===== verification/File.thy ===== *)
theory File imports Pipe Contents Dir Vm begin

text \<open>
  kernel/file.c, the table of open files, and \<open>pipealloc\<close> of kernel/pipe.c. A pointer into
  \<open>ftable.file\<close> is its index, a pipe is named by the address of its page. \<open>ftable.lock\<close> is held over
  each access to the table, so every operation is atomic up to where it sleeps; the wakeups an
  operation makes are logged in \<open>wakes\<close>, and theory Proc delivers them.
\<close>

abbreviation NFILE :: nat where "NFILE \<equiv> 100"

datatype ftype = FD_NONE | FD_PIPE | FD_INODE

record sfile =
  ftype :: ftype
  fref :: int
  freadable :: bool
  fwritable :: bool
  fpipe :: u32
  fip :: nat
  foff :: u32

record fkern =
  ftable :: "nat \<Rightarrow> sfile"
  pipes :: "u32 \<Rightarrow> pipe"
  fsx :: fsys
  kmx :: kmem
  wakes :: "(u32 \<times> pchan) list"

abbreviation upd_file :: "nat \<Rightarrow> (sfile \<Rightarrow> sfile) \<Rightarrow> 'a fkern_scheme \<Rightarrow> 'a fkern_scheme" where
  "upd_file f g s \<equiv> s\<lparr>ftable := (ftable s)(f := g (ftable s f))\<rparr>"

definition filealloc :: "'a fkern_scheme \<Rightarrow> nat option \<times> 'a fkern_scheme" where
  "filealloc s = (case find (\<lambda>f. fref (ftable s f) = 0) [0..<NFILE] of
     Some f \<Rightarrow> (Some f, upd_file f (\<lambda>k. k\<lparr>fref := 1\<rparr>) s)
   | None \<Rightarrow> (None, s))"

definition filedup :: "nat \<Rightarrow> 'a fkern_scheme \<Rightarrow> (nat \<times> 'a fkern_scheme) res" where
  "filedup f s =
     (if fref (ftable s f) < 1 then Inl (Panic ''filedup'')
      else Inr (f, upd_file f (\<lambda>k. k\<lparr>fref := fref k + 1\<rparr>) s))"

text \<open>\<open>pipeclose\<close> on the page \<open>p\<close>, which it frees when both ends are closed.\<close>

definition close_pipe :: "u32 \<Rightarrow> bool \<Rightarrow> 'a fkern_scheme \<Rightarrow> 'a fkern_scheme res" where
  "close_pipe p writable s =
     (let (q, w, free) = pipeclose (pipes s p) writable;
          s = s\<lparr>pipes := (pipes s)(p := q), wakes := wakes s @ map (Pair p) w\<rparr>
      in if free then kbind (kfree p (kmx s)) (\<lambda>m. Inr (s\<lparr>kmx := m\<rparr>)) else Inr s)"

definition fileclose :: "nat \<Rightarrow> 'a fkern_scheme \<Rightarrow> 'a fkern_scheme res" where
  "fileclose f s =
     (let ff = ftable s f in
      if fref ff < 1 then Inl (Panic ''fileclose'')
      else if fref ff - 1 > 0 then Inr (upd_file f (\<lambda>k. k\<lparr>fref := fref k - 1\<rparr>) s)
      else let s = upd_file f (\<lambda>k. k\<lparr>fref := 0, ftype := FD_NONE\<rparr>) s in
        case ftype ff of
          FD_PIPE \<Rightarrow> close_pipe (fpipe ff) (fwritable ff) s
        | FD_INODE \<Rightarrow> kbind (iput (fip ff) (fsx s)) (\<lambda>x. Inr (s\<lparr>fsx := x\<rparr>))
        | FD_NONE \<Rightarrow> Inr s)"

definition filestat :: "nat \<Rightarrow> 'a fkern_scheme \<Rightarrow> (int \<times> stat option \<times> 'a fkern_scheme) res" where
  "filestat f s =
     (if ftype (ftable s f) = FD_INODE then
        let ip = fip (ftable s f) in
        kbind (ilock ip (fsx s)) (\<lambda>x.
        let st = stati ip x in
        kbind (iunlock ip x) (\<lambda>x. Inr (0, Some st, s\<lparr>fsx := x\<rparr>)))
      else Inr (-1, None, s))"

text \<open>
  \<open>fileread\<close> and \<open>filewrite\<close>; \<open>kld\<close> is \<open>proc->killed\<close>, and the resume point of a sleeping write is the
  one of \<open>pipewrite\<close>. The count of an inode transfer is converted to \<open>uint\<close> by the call.
\<close>

definition fileread :: "devsw \<Rightarrow> nat \<Rightarrow> int \<Rightarrow> bool \<Rightarrow> 'a fkern_scheme \<Rightarrow> (u8 list \<times> unit outcome \<times> 'a fkern_scheme) res" where
  "fileread D f n kld s =
     (let k = ftable s f in
      if \<not> freadable k then Inr ([], Ret (-1), s)
      else case ftype k of
        FD_PIPE \<Rightarrow>
          (let (q, w, bs, r) = piperead (pipes s (fpipe k)) n kld
           in Inr (bs, r, s\<lparr>pipes := (pipes s)(fpipe k := q), wakes := wakes s @ map (Pair (fpipe k)) w\<rparr>))
      | FD_INODE \<Rightarrow>
          kbind (ilock (fip k) (fsx s)) (\<lambda>x.
          kbind (readi D (fip k) (foff k) (of_int n) x) (\<lambda>(r, bs, x).
          kbind (iunlock (fip k) x) (\<lambda>x.
            let s = s\<lparr>fsx := x\<rparr> in
            Inr (bs, Ret r, if r > 0 then upd_file f (\<lambda>k. k\<lparr>foff := foff k + of_int r\<rparr>) s else s))))
      | FD_NONE \<Rightarrow> Inl (Panic ''fileread''))"

definition filewrite :: "devsw \<Rightarrow> nat \<Rightarrow> cptr \<Rightarrow> int \<Rightarrow> bool \<Rightarrow> 'a fkern_scheme \<Rightarrow> (nat outcome \<times> 'a fkern_scheme) res" where
  "filewrite D f addr n kld s =
     (let k = ftable s f in
      if \<not> fwritable k then Inr (Ret (-1), s)
      else case ftype k of
        FD_PIPE \<Rightarrow>
          (let (q, w, r) = pipewrite (pipes s (fpipe k)) addr n kld
           in Inr (r, s\<lparr>pipes := (pipes s)(fpipe k := q), wakes := wakes s @ map (Pair (fpipe k)) w\<rparr>))
      | FD_INODE \<Rightarrow>
          kbind (ilock (fip k) (fsx s)) (\<lambda>x.
          kbind (writei D (fip k) addr (foff k) (of_int n) x) (\<lambda>(r, x).
          kbind (iunlock (fip k) x) (\<lambda>x.
            let s = s\<lparr>fsx := x\<rparr> in
            Inr (Ret r, if r > 0 then upd_file f (\<lambda>k. k\<lparr>foff := foff k + of_int r\<rparr>) s else s))))
      | FD_NONE \<Rightarrow> Inl (Panic ''filewrite''))"

section \<open>Pipes and files\<close>

text \<open>\<open>pipealloc\<close>; in the page of a pipe the data follow a lock of 52 bytes.\<close>

definition pipe_page :: "u32 \<Rightarrow> kmem \<Rightarrow> pipe" where
  "pipe_page p m = pipeinit (\<lambda>i. mem m (p + 52 + of_nat i))"

definition close_opt :: "nat option \<Rightarrow> 'a fkern_scheme \<Rightarrow> 'a fkern_scheme res" where
  "close_opt f s = (case f of None \<Rightarrow> Inr s | Some f \<Rightarrow> fileclose f s)"

definition pipealloc :: "'a fkern_scheme \<Rightarrow> ((nat \<times> nat) option \<times> 'a fkern_scheme) res" where
  "pipealloc s =
     (let (f0, s) = filealloc s in
      case f0 of None \<Rightarrow> Inr (None, s)
      | Some a \<Rightarrow>
        let (f1, s) = filealloc s in
        case f1 of None \<Rightarrow> kbind (close_opt f0 s) (\<lambda>s. Inr (None, s))
        | Some b \<Rightarrow>
          let (p, m) = kalloc (kmx s); s = s\<lparr>kmx := m\<rparr> in
          if p = 0 then kbind (close_opt f0 s) (\<lambda>s. kbind (close_opt f1 s) (\<lambda>s. Inr (None, s)))
          else let s = s\<lparr>pipes := (pipes s)(p := pipe_page p m)\<rparr>;
                   s = upd_file a (\<lambda>k. k\<lparr>ftype := FD_PIPE, freadable := True, fwritable := False, fpipe := p\<rparr>) s;
                   s = upd_file b (\<lambda>k. k\<lparr>ftype := FD_PIPE, freadable := False, fwritable := True, fpipe := p\<rparr>) s
            in Inr (Some (a, b), s))"

section \<open>Who refers to a pipe\<close>

text \<open>The open files at the read end (\<open>w = False\<close>) or the write end of the pipe in page \<open>p\<close>.\<close>

definition ends :: "'a fkern_scheme \<Rightarrow> u32 \<Rightarrow> bool \<Rightarrow> nat set" where
  "ends s p w = {f. ftype (ftable s f) = FD_PIPE \<and> fpipe (ftable s f) = p \<and> fwritable (ftable s f) = w}"

definition pipe_pages :: "'a fkern_scheme \<Rightarrow> u32 set" where
  "pipe_pages s = {p. \<exists>w. ends s p w \<noteq> {}}"

text \<open>
  The invariant of the table: counts are not negative and a free entry has no type; a pipe has at most
  one file at each end, its flags say which ends have one, and its page is held, by nobody else (\<open>H\<close> is what
  the rest of the kernel holds, \<open>ps\<close> what is free).
\<close>

definition files_ok :: "'a fkern_scheme \<Rightarrow> u32 set \<Rightarrow> u32 list \<Rightarrow> bool" where
  "files_ok s H ps \<longleftrightarrow>
     (\<forall>f. 0 \<le> fref (ftable s f) \<and> (fref (ftable s f) = 0 \<longrightarrow> ftype (ftable s f) = FD_NONE)) \<and>
     (\<forall>p w. \<forall>f \<in> ends s p w. ends s p w = {f}) \<and>
     (\<forall>p \<in> pipe_pages s. readopen (pipes s p) = (ends s p False \<noteq> {}) \<and> writeopen (pipes s p) = (ends s p True \<noteq> {})) \<and>
     kpool.owned (kmx s) (H \<union> pipe_pages s) ps \<and> H \<inter> pipe_pages s = {}"

lemma ends_frame [simp]:
  "ends (s\<lparr>pipes := a\<rparr>) = ends s" "ends (s\<lparr>fsx := b\<rparr>) = ends s" "ends (s\<lparr>kmx := c\<rparr>) = ends s" "ends (s\<lparr>wakes := d\<rparr>) = ends s"
  "pipe_pages (s\<lparr>pipes := a\<rparr>) = pipe_pages s" "pipe_pages (s\<lparr>fsx := b\<rparr>) = pipe_pages s"
  "pipe_pages (s\<lparr>kmx := c\<rparr>) = pipe_pages s" "pipe_pages (s\<lparr>wakes := d\<rparr>) = pipe_pages s"
  by (auto simp: ends_def pipe_pages_def fun_eq_iff)

lemma files_ok_frame [simp]:
  "files_ok (s\<lparr>fsx := b\<rparr>) H ps = files_ok s H ps" "files_ok (s\<lparr>wakes := d\<rparr>) H ps = files_ok s H ps"
  by (simp_all add: files_ok_def)

text \<open>A change of one file that is not, and does not become, a pipe end.\<close>

lemma ends_upd:
  assumes "ftype (g (ftable s f)) = FD_PIPE \<longleftrightarrow> ftype (ftable s f) = FD_PIPE"
    and "ftype (ftable s f) = FD_PIPE \<Longrightarrow> fpipe (g (ftable s f)) = fpipe (ftable s f) \<and> fwritable (g (ftable s f)) = fwritable (ftable s f)"
  shows "ends (upd_file f g s) = ends s" "pipe_pages (upd_file f g s) = pipe_pages s"
proof -
  show e: "ends (upd_file f g s) = ends s" using assms by (auto simp: ends_def fun_eq_iff)
  show "pipe_pages (upd_file f g s) = pipe_pages s" unfolding pipe_pages_def e ..
qed

lemma files_ok_upd:
  assumes "files_ok s H ps" "ftype (g (ftable s f)) = FD_PIPE \<longleftrightarrow> ftype (ftable s f) = FD_PIPE"
    and "ftype (ftable s f) = FD_PIPE \<Longrightarrow> fpipe (g (ftable s f)) = fpipe (ftable s f) \<and> fwritable (g (ftable s f)) = fwritable (ftable s f)"
    and "0 \<le> fref (g (ftable s f))" "fref (g (ftable s f)) = 0 \<Longrightarrow> ftype (g (ftable s f)) = FD_NONE"
  shows "files_ok (upd_file f g s) H ps" "pipe_pages (upd_file f g s) = pipe_pages s"
proof -
  have e: "ends (upd_file f g s) = ends s" "pipe_pages (upd_file f g s) = pipe_pages s"
    by (intro ends_upd; use assms(2,3) in blast)+
  show "pipe_pages (upd_file f g s) = pipe_pages s" by (rule e(2))
  show "files_ok (upd_file f g s) H ps"
    using assms(1,4,5) unfolding files_ok_def e by simp
qed

lemma filealloc_ok:
  assumes "files_ok s H ps" "filealloc s = (r, s')"
  shows "files_ok s' H ps" "pipe_pages s' = pipe_pages s" "kmx s' = kmx s" "pipes s' = pipes s"
    "r = Some f \<Longrightarrow> f < NFILE \<and> fref (ftable s f) = 0 \<and> ftype (ftable s f) = FD_NONE \<and> s' = upd_file f (\<lambda>k. k\<lparr>fref := 1\<rparr>) s"
proof -
  show "r = Some f \<Longrightarrow> f < NFILE \<and> fref (ftable s f) = 0 \<and> ftype (ftable s f) = FD_NONE \<and> s' = upd_file f (\<lambda>k. k\<lparr>fref := 1\<rparr>) s" for f
    using assms by (auto simp: filealloc_def find_Some_iff files_ok_def split: option.splits)
  note some = this
  show "files_ok s' H ps" "pipe_pages s' = pipe_pages s"
  proof -
    have "files_ok s' H ps \<and> pipe_pages s' = pipe_pages s"
    proof (cases r)
      case None
      then have "s' = s" using assms(2) by (auto simp: filealloc_def split: option.splits)
      then show ?thesis using assms(1) by simp
    next
      case (Some f)
      then have "s' = upd_file f (\<lambda>k. k\<lparr>fref := 1\<rparr>) s" using some by blast
      then show ?thesis using files_ok_upd [OF assms(1), of "\<lambda>k. k\<lparr>fref := 1\<rparr>" f] by simp
    qed
    then show "files_ok s' H ps" "pipe_pages s' = pipe_pages s" by blast+
  qed
  show "kmx s' = kmx s" "pipes s' = pipes s" using assms(2) by (auto simp: filealloc_def split: option.splits)
qed

lemma filedup_ok:
  assumes "files_ok s H ps" "filedup f s = Inr (r, s')"
  shows "files_ok s' H ps" "pipe_pages s' = pipe_pages s"
proof -
  have s': "s' = upd_file f (\<lambda>k. k\<lparr>fref := fref k + 1\<rparr>) s" "1 \<le> fref (ftable s f)"
    using assms(2) by (auto simp: filedup_def split: if_splits)
  show "files_ok s' H ps" "pipe_pages s' = pipe_pages s"
    unfolding s'(1) using files_ok_upd [OF assms(1), of "\<lambda>k. k\<lparr>fref := fref k + 1\<rparr>" f] s'(2) by simp_all
qed

text \<open>Closing one end: the page is given back when it was the last.\<close>

lemma close_pipe_ok:
  assumes "files_ok s H ps" "f \<in> ends s p w"
  shows "\<exists>s' ps'. close_pipe p w (upd_file f (\<lambda>k. k\<lparr>fref := 0, ftype := FD_NONE\<rparr>) s) = Inr s' \<and> files_ok s' H ps' \<and>
    pipe_pages s' \<union> set ps' = pipe_pages s \<union> set ps \<and>
    pipe_pages s' = (if ends s p (\<not> w) = {} then pipe_pages s - {p} else pipe_pages s)"
proof -
  note ok = assms(1) [unfolded files_ok_def]
  let ?u = "upd_file f (\<lambda>k. k\<lparr>fref := 0, ftype := FD_NONE\<rparr>) s"
  have one: "ends s p w = {f}" using ok assms(2) by blast
  have mem: "ftype (ftable s f) = FD_PIPE" "fpipe (ftable s f) = p" "fwritable (ftable s f) = w"
    using assms(2) by (auto simp: ends_def)
  have e: "ends ?u q v = (if q = p \<and> v = w then {} else ends s q v)" for q v
    using one mem by (auto simp: ends_def)
  have pp: "pipe_pages ?u = (if ends s p (\<not> w) = {} then pipe_pages s - {p} else pipe_pages s)"
    using assms(2) unfolding pipe_pages_def e by (auto; (metis (full_types))+)?
  have p: "p \<in> pipe_pages s" using assms(2) by (auto simp: pipe_pages_def)
  define t where "t = ?u\<lparr>pipes := (pipes s)(p := fst (pipeclose (pipes s p) w)),
      wakes := wakes s @ map (Pair p) (fst (snd (pipeclose (pipes s p) w)))\<rparr>"
  have te: "ends t = ends ?u" "pipe_pages t = pipe_pages ?u" unfolding t_def by simp_all
  have flags: "readopen (pipes t p) = (ends t p False \<noteq> {}) \<and> writeopen (pipes t p) = (ends t p True \<noteq> {})"
    unfolding te e unfolding t_def using ok p one by (cases w) (auto simp: pipeclose_def)
  have fr: "snd (snd (pipeclose (pipes s p) w)) \<longleftrightarrow> ends s p (\<not> w) = {}"
    using ok p one by (cases w) (auto simp: pipeclose_def)
  have cp: "close_pipe p w ?u = (if ends s p (\<not> w) = {} then kbind (kfree p (kmx t)) (\<lambda>m. Inr (t\<lparr>kmx := m\<rparr>)) else Inr t)"
    unfolding close_pipe_def fr [symmetric] t_def by (cases "pipeclose (pipes s p) w") simp
  have base: "(\<forall>f. 0 \<le> fref (ftable t f) \<and> (fref (ftable t f) = 0 \<longrightarrow> ftype (ftable t f) = FD_NONE))"
    "(\<forall>p w. \<forall>f \<in> ends t p w. ends t p w = {f})"
    unfolding te e unfolding t_def using ok by auto
  have fl: "\<forall>q \<in> pipe_pages t. readopen (pipes t q) = (ends t q False \<noteq> {}) \<and> writeopen (pipes t q) = (ends t q True \<noteq> {})"
  proof
    fix q assume q: "q \<in> pipe_pages t"
    show "readopen (pipes t q) = (ends t q False \<noteq> {}) \<and> writeopen (pipes t q) = (ends t q True \<noteq> {})"
    proof (cases "q = p")
      case False
      moreover have "q \<in> pipe_pages s" using q unfolding te pp by (auto split: if_splits)
      ultimately show ?thesis unfolding te e unfolding t_def using ok by simp
    qed (use flags in simp)
  qed
  have km: "kmx t = kmx s" unfolding t_def by simp
  show ?thesis
  proof (cases "ends s p (\<not> w) = {}")
    case True
    obtain m where m: "kfree p (kmx s) = Inr m" "kpool.owned m (H \<union> pipe_pages s - {p}) (p # ps)"
      using kpool.free_held [of "kmx s" "H \<union> pipe_pages s" ps p] ok p by blast
    have "H \<union> pipe_pages s - {p} = H \<union> (pipe_pages s - {p})" using ok p by blast
    then have "files_ok (t\<lparr>kmx := m\<rparr>) H (p # ps)"
      using base fl m(2) ok True unfolding files_ok_def by (simp add: te(2) pp) blast
    moreover have "pipe_pages (t\<lparr>kmx := m\<rparr>) = pipe_pages s - {p}" using True by (simp add: te(2) pp)
    ultimately show ?thesis using True m(1) p unfolding cp km by auto
  next
    case False
    then have "files_ok t H ps" "pipe_pages t = pipe_pages s"
      using base fl ok unfolding files_ok_def km te(2) pp by simp_all
    then show ?thesis using False unfolding cp by auto
  qed
qed

lemma fileclose_ok:
  assumes "files_ok s H ps" "fileclose f s = Inr s'"
  shows "\<exists>ps'. files_ok s' H ps' \<and> pipe_pages s' \<union> set ps' = pipe_pages s \<union> set ps"
proof -
  let ?k = "ftable s f"
  have r: "1 \<le> fref ?k" using assms(2) by (auto simp: fileclose_def Let_def split: if_splits)
  show ?thesis
  proof (cases "fref ?k = 1 \<and> ftype ?k = FD_PIPE")
    case True
    then have "f \<in> ends s (fpipe ?k) (fwritable ?k)" by (simp add: ends_def)
    from close_pipe_ok [OF assms(1) this] show ?thesis
      using assms(2) True by (auto simp: fileclose_def Let_def)
  next
    case False
    define g :: "sfile \<Rightarrow> sfile" where "g = (\<lambda>k. if fref k = 1 then k\<lparr>fref := 0, ftype := FD_NONE\<rparr> else k\<lparr>fref := fref k - 1\<rparr>)"
    have "\<exists>x. s' = (upd_file f g s)\<lparr>fsx := x\<rparr>"
      using assms(2) False r unfolding fileclose_def Let_def g_def
      by (cases "fref ?k = 1"; cases "ftype ?k") (auto simp: kbind_Inr_iff intro: exI [of _ "fsx s"])
    moreover have "files_ok (upd_file f g s) H ps \<and> pipe_pages (upd_file f g s) = pipe_pages s"
      using files_ok_upd [OF assms(1), of g f] False r by (auto simp: g_def)
    ultimately show ?thesis by (metis ends_frame(6) files_ok_frame(1))
  qed
qed

text \<open>Reading and writing change offsets, bytes and inodes, but not who refers to what.\<close>

definition io_same :: "'a fkern_scheme \<Rightarrow> 'a fkern_scheme \<Rightarrow> bool" where
  "io_same s s' \<longleftrightarrow> (\<forall>f. ftype (ftable s' f) = ftype (ftable s f) \<and> fref (ftable s' f) = fref (ftable s f) \<and>
      fpipe (ftable s' f) = fpipe (ftable s f) \<and> fwritable (ftable s' f) = fwritable (ftable s f)) \<and>
    (\<forall>p. readopen (pipes s' p) = readopen (pipes s p) \<and> writeopen (pipes s' p) = writeopen (pipes s p)) \<and> kmx s' = kmx s"

lemma files_ok_io:
  assumes "io_same s s'"
  shows "files_ok s' H ps = files_ok s H ps" "pipe_pages s' = pipe_pages s"
proof -
  have e: "ends s' = ends s" using assms by (auto simp: io_same_def ends_def fun_eq_iff)
  then show p: "pipe_pages s' = pipe_pages s" by (simp add: pipe_pages_def)
  show "files_ok s' H ps = files_ok s H ps" using assms unfolding files_ok_def e p by (simp add: io_same_def)
qed

lemma pipewrite_frame:
  "pipewrite_from p addr n kld i = (q, w, r) \<Longrightarrow> readopen q = readopen p \<and> writeopen q = writeopen p"
proof (induction p addr n kld i rule: pipewrite_from.induct)
  case (1 p addr n kld i)
  show ?case
  proof (cases "int i < n \<and> \<not> pipe_full p")
    case True
    then have "pipewrite_from (pipe_put (addr i) p) addr n kld (Suc i) = (q, w, r)"
      using 1(2) by (simp add: pipewrite_from.simps [of p])
    then show ?thesis using 1(1) True by (simp add: frame_simps)
  next
    case False
    then have "q = p" using 1(2) by (auto simp: pipewrite_from.simps [of p] split: if_splits)
    then show ?thesis by simp
  qed
qed

lemma piperead_copy_frame:
  "piperead_copy p n = (bs, q) \<Longrightarrow> readopen q = readopen p \<and> writeopen q = writeopen p"
proof (induction n arbitrary: p bs q)
  case (Suc n)
  show ?case
  proof (cases "nread p = nwrite p")
    case False
    obtain b p1 where g: "pipe_get p = (b, p1)" by (rule prod.exhaust)
    obtain cs q1 where c: "piperead_copy p1 n = (cs, q1)" by (rule prod.exhaust)
    have "q = q1" using Suc.prems False by (simp add: g c)
    moreover have "readopen p1 = readopen p" "writeopen p1 = writeopen p" using g by (auto simp: pipe_get_def)
    ultimately show ?thesis using Suc.IH [OF c] by simp
  qed (use Suc.prems in simp)
qed simp

lemma piperead_frame:
  "piperead p n kld = (q, w, bs, r) \<Longrightarrow> readopen q = readopen p \<and> writeopen q = writeopen p"
  by (cases "piperead_copy p (nat n)") (auto simp: piperead_def dest: piperead_copy_frame split: if_splits)

lemma io_same_pipe:
  "readopen q = readopen (pipes s p) \<Longrightarrow> writeopen q = writeopen (pipes s p) \<Longrightarrow>
    io_same s (s\<lparr>pipes := (pipes s)(p := q), wakes := w\<rparr>)"
  by (simp add: io_same_def)

lemma io_same_inode: "io_same s ((upd_file f (\<lambda>k. k\<lparr>foff := v\<rparr>) s)\<lparr>fsx := x\<rparr>)" "io_same s (s\<lparr>fsx := x\<rparr>)" "io_same s s"
  by (simp_all add: io_same_def)

lemma fileread_io:
  assumes "fileread D f n kld s = Inr (bs, r, s')"
  shows "io_same s s'"
proof (cases "ftype (ftable s f)")
  case FD_PIPE
  obtain q w bs' r' where p: "piperead (pipes s (fpipe (ftable s f))) n kld = (q, w, bs', r')" by (metis prod_cases4)
  show ?thesis
    using assms FD_PIPE piperead_frame [OF p] by (auto simp: fileread_def Let_def p io_same_inode(3) intro: io_same_pipe split: if_splits)
next
  case FD_INODE
  then show ?thesis
    using assms by (auto simp: fileread_def Let_def kbind_Inr_iff io_same_def split: if_splits)
qed (use assms in \<open>auto simp: fileread_def Let_def io_same_inode(3) split: if_splits\<close>)

lemma filewrite_io:
  assumes "filewrite D f addr n kld s = Inr (r, s')"
  shows "io_same s s'"
proof (cases "ftype (ftable s f)")
  case FD_PIPE
  obtain q w r' where p: "pipewrite (pipes s (fpipe (ftable s f))) addr n kld = (q, w, r')" by (metis prod_cases3)
  show ?thesis
    using assms FD_PIPE pipewrite_frame [OF p [unfolded pipewrite_def]]
    by (auto simp: filewrite_def Let_def p io_same_inode(3) intro: io_same_pipe split: if_splits)
next
  case FD_INODE
  then show ?thesis
    using assms by (auto simp: filewrite_def Let_def kbind_Inr_iff io_same_def split: if_splits)
qed (use assms in \<open>auto simp: filewrite_def Let_def io_same_inode(3) split: if_splits\<close>)

text \<open>A new pipe.\<close>

lemma close_fresh:
  assumes "fref (ftable s f) = 1" "ftype (ftable s f) = FD_NONE"
  shows "fileclose f s = Inr (upd_file f (\<lambda>k. k\<lparr>fref := 0, ftype := FD_NONE\<rparr>) s)"
  using assms by (simp add: fileclose_def Let_def)

lemma pipealloc_ok:
  assumes "files_ok s H ps" "pipealloc s = Inr (r, s')"
  shows "\<exists>ps'. files_ok s' H ps' \<and> pipe_pages s' \<union> set ps' = pipe_pages s \<union> set ps"
proof -
  obtain f0 s0 where a0: "filealloc s = (f0, s0)" by (rule prod.exhaust)
  note o0 = filealloc_ok [OF assms(1) a0]
  show ?thesis
  proof (cases f0)
    case None
    then show ?thesis using assms(2) a0 o0 by (auto simp: pipealloc_def)
  next
    case (Some a)
    note A = o0(5) [OF Some]
    obtain f1 s1 where a1: "filealloc s0 = (f1, s1)" by (rule prod.exhaust)
    note o1 = filealloc_ok [OF o0(1) a1]
    show ?thesis
    proof (cases f1)
      case None
      then have s1: "s1 = s0" using a1 by (auto simp: filealloc_def split: option.splits)
      have "fileclose a s0 = Inr s'"
        using assms(2) a0 Some a1 None s1 by (auto simp: pipealloc_def close_opt_def kbind_Inr_iff)
      from fileclose_ok [OF o0(1) this] show ?thesis unfolding o0(2) .
    next
      case (Some b)
      note B = o1(5) [OF Some]
      have ab: "a \<noteq> b" using A B by auto
      have pps: "pipe_pages s1 = pipe_pages s" "kmx s1 = kmx s" using o0 o1 by simp_all
      obtain p m where k: "kalloc (kmx s1) = (p, m)" by (rule prod.exhaust)
      have al: "pipealloc s = (let s = s1\<lparr>kmx := m\<rparr> in
          if p = 0 then kbind (fileclose a s) (\<lambda>s. kbind (fileclose b s) (\<lambda>s. Inr (None, s)))
          else Inr (Some (a, b), upd_file b (\<lambda>k. k\<lparr>ftype := FD_PIPE, freadable := False, fwritable := True, fpipe := p\<rparr>)
             (upd_file a (\<lambda>k. k\<lparr>ftype := FD_PIPE, freadable := True, fwritable := False, fpipe := p\<rparr>)
               (s\<lparr>pipes := (pipes s)(p := pipe_page p m)\<rparr>))))"
        unfolding pipealloc_def Let_def a0 prod.case \<open>f0 = Some a\<close> option.case a1 Some k close_opt_def by (rule refl)
      have own: "kpool.owned (kmx s1) (H \<union> pipe_pages s1) ps" using o1(1) by (simp add: files_ok_def)
      show ?thesis
      proof (cases "p = 0")
        case True
        then have "m = kmx s1" using kpool.alloc_null [of "kmx s1" ps m] own k by (auto simp: kpool.owned_def)
        then have e: "s1\<lparr>kmx := m\<rparr> = s1" by simp
        obtain s2 where s2: "fileclose a s1 = Inr s2" "fileclose b s2 = Inr s'"
          using assms(2) True unfolding al Let_def e by (auto simp: kbind_Inr_iff)
        obtain ps2 where p2: "files_ok s2 H ps2" "pipe_pages s2 \<union> set ps2 = pipe_pages s1 \<union> set ps"
          using fileclose_ok [OF o1(1) s2(1)] by blast
        from fileclose_ok [OF p2(1) s2(2)] p2(2) show ?thesis unfolding pps by auto
      next
        case False
        note fresh = kpool.alloc_fresh [OF own k False]
        define u where "u = upd_file b (\<lambda>k. k\<lparr>ftype := FD_PIPE, freadable := False, fwritable := True, fpipe := p\<rparr>)
             (upd_file a (\<lambda>k. k\<lparr>ftype := FD_PIPE, freadable := True, fwritable := False, fpipe := p\<rparr>)
               (s1\<lparr>kmx := m, pipes := (pipes s1)(p := pipe_page p m)\<rparr>))"
        have s': "s' = u" using assms(2) False unfolding al Let_def u_def by simp
        have ta: "ftype (ftable s1 a) = FD_NONE" "fref (ftable s1 a) = 1" "ftype (ftable s1 b) = FD_NONE" "fref (ftable s1 b) = 1"
          using A B ab by auto
        have np: "p \<notin> pipe_pages s1" using fresh by blast
        then have none: "ends s1 p w = {}" for w by (auto simp: pipe_pages_def)
        have e: "ends u q w = (if q = p then (if w then {b} else {a}) else ends s1 q w)" for q w
          using ab ta none [of w] unfolding u_def by (auto simp: ends_def)
        have pp: "pipe_pages u = insert p (pipe_pages s1)" 
        proof (rule set_eqI)
          fix q show "q \<in> pipe_pages u \<longleftrightarrow> q \<in> insert p (pipe_pages s1)"
            unfolding pipe_pages_def mem_Collect_eq insert_iff e by (cases "q = p") simp_all
        qed
        have pu: "pipes u = (pipes s1)(p := pipe_page p m)" "kmx u = m" unfolding u_def by simp_all
        have tu: "f \<noteq> a \<Longrightarrow> f \<noteq> b \<Longrightarrow> ftable u f = ftable s1 f" "fref (ftable u a) = 1" "fref (ftable u b) = 1" for f
          using ta ab unfolding u_def by simp_all
        note ok1 = o1(1) [unfolded files_ok_def]
        have "files_ok u H (tl ps)" unfolding files_ok_def pp e pu
        proof (intro conjI allI ballI)
          show "0 \<le> fref (ftable u f)" for f using tu(1) [of f] tu(2,3) ok1 by (cases "f = a"; cases "f = b") simp_all
          show "fref (ftable u f) = 0 \<longrightarrow> ftype (ftable u f) = FD_NONE" for f
            using tu(1) [of f] tu(2,3) ok1 by (cases "f = a"; cases "f = b") simp_all
          show "(if q = p then if w then {b} else {a} else ends s1 q w) = {f}"
            if "f \<in> (if q = p then if w then {b} else {a} else ends s1 q w)" for q w f
            using that ok1 by (auto split: if_splits)
          fix q assume q: "q \<in> insert p (pipe_pages s1)"
          show "readopen (((pipes s1)(p := pipe_page p m)) q) = ((if q = p then if False then {b} else {a} else ends s1 q False) \<noteq> {})"
            using q ok1 by (cases "q = p") (simp_all add: pipe_page_def pipeinit_def)
          show "writeopen (((pipes s1)(p := pipe_page p m)) q) = ((if q = p then if True then {b} else {a} else ends s1 q True) \<noteq> {})"
            using q ok1 by (cases "q = p") (simp_all add: pipe_page_def pipeinit_def)
        next
          show "kpool.owned m (H \<union> insert p (pipe_pages s1)) (tl ps)" using fresh by simp
          show "H \<inter> insert p (pipe_pages s1) = {}" using fresh ok1 by blast
        qed
        moreover have "pipe_pages u \<union> set (tl ps) = pipe_pages s \<union> set ps" using fresh unfolding pp pps by blast
        ultimately show ?thesis unfolding s' by blast
      qed
    qed
  qed
qed

section \<open>Runs of the file layer\<close>

text \<open>
  The steps of the file layer in any order, by any number of processes; \<open>open_inode\<close> is what \<open>sys_open\<close> stores
  into a file it has just allocated.
\<close>

inductive file_run :: "devsw \<Rightarrow> fkern \<Rightarrow> fkern \<Rightarrow> bool" for D s0 where
  start: "file_run D s0 s0"
| alloc: "file_run D s0 s \<Longrightarrow> filealloc s = (r, s') \<Longrightarrow> file_run D s0 s'"
| dup: "file_run D s0 s \<Longrightarrow> filedup f s = Inr (r, s') \<Longrightarrow> file_run D s0 s'"
| close: "file_run D s0 s \<Longrightarrow> fileclose f s = Inr s' \<Longrightarrow> file_run D s0 s'"
| new_pipe: "file_run D s0 s \<Longrightarrow> pipealloc s = Inr (p, s') \<Longrightarrow> file_run D s0 s'"
| read_file: "file_run D s0 s \<Longrightarrow> fileread D f n kld s = Inr (bs, o1, s') \<Longrightarrow> file_run D s0 s'"
| write_file: "file_run D s0 s \<Longrightarrow> filewrite D f addr n kld s = Inr (o2, s') \<Longrightarrow> file_run D s0 s'"
| open_inode: "file_run D s0 s \<Longrightarrow> ftype (ftable s f) = FD_NONE \<Longrightarrow> 0 < fref (ftable s f) \<Longrightarrow>
    s' = upd_file f (\<lambda>k. k\<lparr>ftype := FD_INODE, fip := ip, foff := 0, freadable := rd, fwritable := wr\<rparr>) s \<Longrightarrow> file_run D s0 s'"

lemma file_run_ok:
  assumes "file_run D s0 s" "files_ok s0 H ps0"
  shows "\<exists>ps. files_ok s H ps \<and> pipe_pages s \<union> set ps = pipe_pages s0 \<union> set ps0"
  using assms
proof (induction rule: file_run.induct)
  case (alloc s r s')
  then show ?case using filealloc_ok(1,2) by metis
next
  case (dup s f r s')
  then show ?case using filedup_ok by metis
next
  case (close s f s')
  then obtain ps where ps: "files_ok s H ps" "pipe_pages s \<union> set ps = pipe_pages s0 \<union> set ps0" by blast
  from fileclose_ok [OF ps(1) close.hyps(2)] ps(2) show ?case by metis
next
  case (new_pipe s p s')
  then obtain ps where ps: "files_ok s H ps" "pipe_pages s \<union> set ps = pipe_pages s0 \<union> set ps0" by blast
  from pipealloc_ok [OF ps(1) new_pipe.hyps(2)] ps(2) show ?case by metis
next
  case (read_file s f n kld bs o1 s')
  then show ?case using files_ok_io [OF fileread_io [OF read_file.hyps(2)]] by simp
next
  case (write_file s f addr n kld o2 s')
  then show ?case using files_ok_io [OF filewrite_io [OF write_file.hyps(2)]] by simp
next
  case (open_inode s f s' wr rd ip)
  then obtain ps where ps: "files_ok s H ps" "pipe_pages s \<union> set ps = pipe_pages s0 \<union> set ps0" by blast
  show ?case
    using files_ok_upd [OF ps(1), of "\<lambda>k. k\<lparr>ftype := FD_INODE, fip := ip, foff := 0, freadable := rd, fwritable := wr\<rparr>" f]
      ps(2) open_inode.hyps(2,3) unfolding open_inode.hyps(4) by auto
qed auto

section \<open>Properties\<close>

text \<open>
  C19. The open file table and pipe pages: in every run of the file layer a count is never negative and a free
  entry has no type; a pipe has at most one file at each end, and its flags are exact; the pages of the
  pipes that some file refers to, and the free pages, together stay the same (no page leaks and none is
  freed twice); and closing a pipe end never stops the kernel, and frees the page exactly when the
  other end is closed already.
\<close>

theorem file_table_safe:
  assumes "file_run D s0 s" "files_ok s0 H ps0"
  shows "\<exists>ps. files_ok s H ps \<and> pipe_pages s \<union> set ps = pipe_pages s0 \<union> set ps0 \<and> pipe_pages s \<inter> set ps = {} \<and>
    (\<forall>f p w. f \<in> ends s p w \<longrightarrow> fref (ftable s f) = 1 \<longrightarrow>
      (\<exists>s' ps'. fileclose f s = Inr s' \<and> files_ok s' H ps' \<and>
        pipe_pages s' = (if ends s p (\<not> w) = {} then pipe_pages s - {p} else pipe_pages s)))"
proof -
  obtain ps where ps: "files_ok s H ps" "pipe_pages s \<union> set ps = pipe_pages s0 \<union> set ps0"
    using file_run_ok [OF assms] by blast
  have "pipe_pages s \<inter> set ps = {}" using ps(1) unfolding files_ok_def kpool.owned_def by blast
  moreover have "\<exists>s' ps'. fileclose f s = Inr s' \<and> files_ok s' H ps' \<and>
        pipe_pages s' = (if ends s p (\<not> w) = {} then pipe_pages s - {p} else pipe_pages s)"
    if f: "f \<in> ends s p w" "fref (ftable s f) = 1" for f p w
  proof -
    have "fileclose f s = close_pipe p w (upd_file f (\<lambda>k. k\<lparr>fref := 0, ftype := FD_NONE\<rparr>) s)"
      using f by (simp add: fileclose_def ends_def Let_def)
    then show ?thesis using close_pipe_ok [OF ps(1) f(1)] by metis
  qed
  ultimately show ?thesis using ps by blast
qed

definition boot_files :: fkern where
  "boot_files = \<lparr>ftable = (\<lambda>_. \<lparr>ftype = FD_NONE, fref = 0, freadable = False, fwritable = False, fpipe = 0, fip = 0, foff = 0\<rparr>),
     pipes = (\<lambda>_. pipeinit (\<lambda>_. 0)), fsx = demo_fs, kmx = demo_vm, wakes = []\<rparr>"

lemma boot_files_ok: "files_ok boot_files {} [0x202000, 0x203000]" "pipe_pages boot_files = {}"
proof -
  have e: "ends boot_files p w = {}" for p w by (simp add: ends_def boot_files_def)
  then show p: "pipe_pages boot_files = {}" by (simp add: pipe_pages_def)
  have "free_pages demo_vm [0x202000, 0x203000]" by (rule uspaceD [OF demo_vm_uspace])
  then show "files_ok boot_files {} [0x202000, 0x203000]"
    unfolding files_ok_def p e by (simp add: boot_files_def kpool.owned_def)
qed

lemma file_table_safe_witness:
  "\<exists>p s ps. pipealloc boot_files = Inr (Some p, s) \<and> files_ok s {} ps \<and> pipe_pages s \<union> set ps = {0x202000, 0x203000} \<and>
    pipe_pages s \<inter> set ps = {}"
proof -
  have "free_pages demo_vm [0x202000, 0x203000]" by (rule uspaceD [OF demo_vm_uspace])
  then have "fst (kalloc demo_vm) = 0x202000" by (rule kalloc_pop [THEN conjunct1])
  then obtain m where m: "kalloc demo_vm = (0x202000, m)" by (metis prod.collapse)
  have "\<exists>s. pipealloc boot_files = Inr (Some (0, 1), s)"
    by (simp add: pipealloc_def filealloc_def boot_files_def Let_def upt_rec [of 0] upt_rec [of "Suc 0"] m)
  then obtain s where s: "pipealloc boot_files = Inr (Some (0, 1), s)" by blast
  have "file_run \<lparr>dev_read = \<lambda>_. None, dev_write = \<lambda>_. None\<rparr> boot_files s" by (rule file_run.new_pipe [OF file_run.start s])
  from file_table_safe [OF this boot_files_ok(1)] s show ?thesis unfolding boot_files_ok(2) by auto
qed

end
