(* ===== verification/Spinlock.thy ===== *)
theory Spinlock imports Prelude begin

text \<open>
  kernel/spinlock.c. \<open>acquire\<close> and \<open>release\<close> are modelled down to the single memory accesses that
  other processors can see in between: the test of \<open>holding\<close>, each \<open>xchg\<close>, the write of \<open>cpu\<close>. A
  processor is a number; the saved call stack \<open>pcs\<close> and the name of a lock are not modelled.
\<close>

section \<open>Interrupt nesting\<close>

text \<open>The fields of \<open>struct cpu\<close> that count, and the interrupt flag of the processor.\<close>

record cpu =
  ncli :: int
  intena :: bool
  ifl :: bool

definition pushcli :: "cpu \<Rightarrow> cpu" where
  "pushcli c =
     (let eflags = ifl c; c = c\<lparr>ifl := False\<rparr>
      in if ncli c = 0 then c\<lparr>ncli := ncli c + 1, intena := eflags\<rparr> else c\<lparr>ncli := ncli c + 1\<rparr>)"

definition popcli :: "cpu \<Rightarrow> cpu res" where
  "popcli c =
     (if ifl c then Inl (Panic ''popcli - interruptible'')
      else let c = c\<lparr>ncli := ncli c - 1\<rparr>
        in if ncli c < 0 then Inl (Panic ''popcli'')
           else if ncli c = 0 \<and> intena c then Inr (c\<lparr>ifl := True\<rparr>) else Inr c)"

section \<open>Locks\<close>

record spinlock =
  locked :: u32
  lcpu :: "nat option"

definition initlock :: "spinlock \<Rightarrow> spinlock" where
  "initlock lk = lk\<lparr>locked := 0, lcpu := None\<rparr>"

definition xchg :: "spinlock \<Rightarrow> u32 \<Rightarrow> u32 \<times> spinlock" where
  "xchg lk v = (locked lk, lk\<lparr>locked := v\<rparr>)"

definition holding :: "spinlock \<Rightarrow> nat \<Rightarrow> bool" where
  "holding lk c \<longleftrightarrow> locked lk \<noteq> 0 \<and> lcpu lk = Some c"

text \<open>
  Where a processor is: running code outside \<open>acquire\<close> and \<open>release\<close>; in \<open>acquire(l)\<close> before the test
  of \<open>holding\<close>, in the loop, or past it with \<open>lk->cpu\<close> still to be set; in \<open>release(l)\<close> before its
  \<open>xchg\<close>, or before \<open>popcli\<close>; or stopped in \<open>panic\<close>.
\<close>

datatype pc = Run | Check nat | Spin nat | Got nat | Unlock nat | Pop | Panicked

text \<open>\<open>held c\<close> are the locks processor \<open>c\<close> is inside of, the innermost first.\<close>

record mach =
  cpus :: "nat \<Rightarrow> cpu"
  locks :: "nat \<Rightarrow> spinlock"
  pcs :: "nat \<Rightarrow> pc"
  held :: "nat \<Rightarrow> nat list"

definition acquire_enter :: "nat \<Rightarrow> nat \<Rightarrow> mach \<Rightarrow> mach" where
  "acquire_enter c l m = m\<lparr>cpus := (cpus m)(c := pushcli (cpus m c)), pcs := (pcs m)(c := Check l)\<rparr>"

definition acquire_check :: "nat \<Rightarrow> nat \<Rightarrow> mach \<Rightarrow> mach" where
  "acquire_check c l m =
     m\<lparr>pcs := (pcs m)(c := if holding (locks m l) c then Panicked else Spin l)\<rparr>"

definition acquire_spin :: "nat \<Rightarrow> nat \<Rightarrow> mach \<Rightarrow> mach" where
  "acquire_spin c l m =
     (let (old, lk) = xchg (locks m l) 1; m = m\<lparr>locks := (locks m)(l := lk)\<rparr>
      in if old \<noteq> 0 then m else m\<lparr>pcs := (pcs m)(c := Got l)\<rparr>)"

definition acquire_record :: "nat \<Rightarrow> nat \<Rightarrow> mach \<Rightarrow> mach" where
  "acquire_record c l m =
     m\<lparr>locks := (locks m)(l := (locks m l)\<lparr>lcpu := Some c\<rparr>), pcs := (pcs m)(c := Run),
       held := (held m)(c := l # held m c)\<rparr>"

definition release_enter :: "nat \<Rightarrow> nat \<Rightarrow> mach \<Rightarrow> mach" where
  "release_enter c l m =
     (if \<not> holding (locks m l) c then m\<lparr>pcs := (pcs m)(c := Panicked)\<rparr>
      else m\<lparr>locks := (locks m)(l := (locks m l)\<lparr>lcpu := None\<rparr>), pcs := (pcs m)(c := Unlock l)\<rparr>)"

definition release_xchg :: "nat \<Rightarrow> nat \<Rightarrow> mach \<Rightarrow> mach" where
  "release_xchg c l m =
     m\<lparr>locks := (locks m)(l := snd (xchg (locks m l) 0)), pcs := (pcs m)(c := Pop),
       held := (held m)(c := remove1 l (held m c))\<rparr>"

definition release_pop :: "nat \<Rightarrow> mach \<Rightarrow> mach" where
  "release_pop c m = (case popcli (cpus m c) of
     Inl _ \<Rightarrow> m\<lparr>pcs := (pcs m)(c := Panicked)\<rparr>
   | Inr k \<Rightarrow> m\<lparr>cpus := (cpus m)(c := k), pcs := (pcs m)(c := Run)\<rparr>)"

text \<open>Any interleaving of the processors; one may also turn interrupts on while \<open>ncli\<close> is 0.\<close>

inductive mstep :: "mach \<Rightarrow> mach \<Rightarrow> bool" where
  enter: "pcs m c = Run \<Longrightarrow> mstep m (acquire_enter c l m)"
| check: "pcs m c = Check l \<Longrightarrow> mstep m (acquire_check c l m)"
| spin: "pcs m c = Spin l \<Longrightarrow> mstep m (acquire_spin c l m)"
| own: "pcs m c = Got l \<Longrightarrow> mstep m (acquire_record c l m)"
| leave: "pcs m c = Run \<Longrightarrow> mstep m (release_enter c l m)"
| unlock: "pcs m c = Unlock l \<Longrightarrow> mstep m (release_xchg c l m)"
| pop: "pcs m c = Pop \<Longrightarrow> mstep m (release_pop c m)"
| sti: "pcs m c = Run \<Longrightarrow> ncli (cpus m c) = 0 \<Longrightarrow>
    mstep m (m\<lparr>cpus := (cpus m)(c := (cpus m c)\<lparr>ifl := True\<rparr>)\<rparr>)"

inductive mreach :: "mach \<Rightarrow> bool" where
  start: "(\<And>c. ncli (cpus m c) = 0 \<and> pcs m c = Run \<and> held m c = []) \<Longrightarrow>
    (\<And>l. locks m l = initlock lk) \<Longrightarrow> mreach m"
| step: "mreach m \<Longrightarrow> mstep m m' \<Longrightarrow> mreach m'"

section \<open>Invariant\<close>

text \<open>Processor \<open>c\<close> has taken lock \<open>l\<close> and not given it back.\<close>

definition inside :: "mach \<Rightarrow> nat \<Rightarrow> nat \<Rightarrow> bool" where
  "inside m c l \<longleftrightarrow> pcs m c = Got l \<or> l \<in> set (held m c)"

text \<open>The \<open>pushcli\<close> calls of a processor that are not yet undone, beside those of the locks it holds.\<close>

fun pending :: "pc \<Rightarrow> int" where
  "pending (Check l) = 1"
| "pending (Spin l) = 1"
| "pending (Got l) = 1"
| "pending Pop = 1"
| "pending _ = 0"

definition lock_inv :: "mach \<Rightarrow> bool" where
  "lock_inv m \<longleftrightarrow>
     (\<forall>c l. inside m c l \<longrightarrow> locked (locks m l) \<noteq> 0) \<and>
     (\<forall>c d l. inside m c l \<longrightarrow> inside m d l \<longrightarrow> c = d) \<and>
     (\<forall>c l. lcpu (locks m l) = Some c \<longleftrightarrow> l \<in> set (held m c) \<and> pcs m c \<noteq> Unlock l) \<and>
     (\<forall>c l. pcs m c = Unlock l \<longrightarrow> l \<in> set (held m c)) \<and>
     (\<forall>c l. pcs m c = Spin l \<or> pcs m c = Got l \<longrightarrow> l \<notin> set (held m c)) \<and>
     (\<forall>c. distinct (held m c))"

definition cli_inv :: "mach \<Rightarrow> bool" where
  "cli_inv m \<longleftrightarrow> (\<forall>c.
     (pcs m c \<noteq> Panicked \<longrightarrow> ncli (cpus m c) = int (length (held m c)) + pending (pcs m c)) \<and>
     (ncli (cpus m c) \<noteq> 0 \<longrightarrow> \<not> ifl (cpus m c)) \<and>
     ncli (cpus m c) \<ge> int (length (held m c)))"

lemma lock_inv_start:
  assumes "\<And>c. pcs m c = Run \<and> held m c = []" "\<And>l. locks m l = initlock lk"
  shows "lock_inv m"
  using assms by (simp add: lock_inv_def inside_def initlock_def)

lemma lock_inv_step: "mstep m m' \<Longrightarrow> lock_inv m \<Longrightarrow> lock_inv m'"
proof (induction rule: mstep.induct)
  case (enter m c l)
  then show ?case by (auto simp: lock_inv_def inside_def acquire_enter_def)
next
  case (check m c l)
  then show ?case unfolding lock_inv_def inside_def acquire_check_def holding_def by auto
next
  case (spin m c l)
  then show ?case by (auto simp: lock_inv_def inside_def acquire_spin_def xchg_def Let_def)
next
  case (own m c l)
  then show ?case by (auto simp: lock_inv_def inside_def acquire_record_def)
next
  case (leave m c l)
  then show ?case by (auto simp: lock_inv_def inside_def release_enter_def holding_def)
next
  case (unlock m c l)
  then show ?case by (auto simp: lock_inv_def inside_def release_xchg_def xchg_def)
next
  case (pop m c)
  then show ?case by (auto simp: lock_inv_def inside_def release_pop_def split: sum.split)
next
  case (sti m c)
  then show ?case by (auto simp: lock_inv_def inside_def)
qed

lemma cli_inv_step: "mstep m m' \<Longrightarrow> lock_inv m \<Longrightarrow> cli_inv m \<Longrightarrow> cli_inv m'"
proof (induction rule: mstep.induct)
  case (enter m c l)
  then show ?case by (auto simp: cli_inv_def acquire_enter_def pushcli_def Let_def)
next
  case (check m c l)
  then show ?case by (auto simp: cli_inv_def acquire_check_def)
next
  case (spin m c l)
  then show ?case by (auto simp: cli_inv_def acquire_spin_def xchg_def Let_def)
next
  case (own m c l)
  then show ?case by (auto simp: cli_inv_def acquire_record_def)
next
  case (leave m c l)
  then show ?case by (auto simp: cli_inv_def release_enter_def)
next
  case (unlock m c l)
  then have "l \<in> set (held m c)" by (auto simp: lock_inv_def)
  then have "length (remove1 l (held m c)) = length (held m c) - 1" "0 < length (held m c)"
    by (simp_all only: length_remove1 if_True length_pos_if_in_set)
  then have "int (length (held m c)) = int (length (remove1 l (held m c))) + 1" by linarith
  with unlock show ?case by (auto simp: cli_inv_def release_xchg_def)
next
  case (pop m c)
  then show ?case by (auto simp: cli_inv_def release_pop_def popcli_def Let_def split: sum.split)
next
  case (sti m c)
  then show ?case by (auto simp: cli_inv_def)
qed

text \<open>The lock word is only set while some processor is inside.\<close>

lemma word_inv_step:
  assumes "mstep m m'" "\<And>l. locked (locks m l) \<noteq> 0 \<Longrightarrow> \<exists>c. inside m c l" "locked (locks m' l) \<noteq> 0"
  shows "\<exists>c. inside m' c l"
proof -
  have keep: "\<exists>c. inside m' c l"
    if "locked (locks m l) \<noteq> 0" "\<And>c. inside m c l \<Longrightarrow> inside m' c l" using that assms(2) by blast
  from assms(1) show ?thesis
  proof cases
    case (enter c l')
    then show ?thesis using assms(3) by (intro keep) (auto simp: acquire_enter_def inside_def)
  next
    case (check c l')
    then show ?thesis using assms(3) by (intro keep) (auto simp: acquire_check_def inside_def)
  next
    case (spin c l')
    show ?thesis
    proof (cases "l' = l \<and> locked (locks m l) = 0")
      case True
      with spin have "inside m' c l" by (auto simp: acquire_spin_def xchg_def Let_def inside_def)
      then show ?thesis ..
    next
      case False
      then show ?thesis using assms(3) spin
        by (intro keep) (auto simp: acquire_spin_def xchg_def Let_def inside_def split: if_splits)
    qed
  next
    case (own c l')
    then show ?thesis using assms(3) by (intro keep) (auto simp: acquire_record_def inside_def split: if_splits)
  next
    case (leave c l')
    then show ?thesis using assms(3)
      by (intro keep) (auto simp: release_enter_def inside_def split: if_splits)
  next
    case (unlock c l')
    then show ?thesis using assms(3)
      by (intro keep) (auto simp: release_xchg_def xchg_def inside_def split: if_splits)
  next
    case (pop c)
    then show ?thesis using assms(3)
      by (intro keep) (auto simp: release_pop_def inside_def split: sum.splits if_splits)
  next
    case (sti c)
    then show ?thesis using assms(3) by (intro keep) (auto simp: inside_def)
  qed
qed

lemma mreach_inv:
  "mreach m \<Longrightarrow> lock_inv m \<and> cli_inv m \<and> (\<forall>l. locked (locks m l) \<noteq> 0 \<longrightarrow> (\<exists>c. inside m c l))"
proof (induction rule: mreach.induct)
  case (start m lk)
  then show ?case by (auto intro: lock_inv_start simp: cli_inv_def initlock_def)
next
  case (step m m')
  then show ?case using lock_inv_step cli_inv_step word_inv_step by blast
qed

section \<open>Properties\<close>

text \<open>
  C10. Spin locks exclude: in every interleaving of the single memory accesses of \<open>acquire\<close> and
  \<open>release\<close> on any number of processors, no two processors are inside the same lock, a processor
  inside a lock runs with interrupts off, and the lock word is set exactly while somebody is inside.
\<close>

theorem spinlock_exclusion:
  assumes "mreach m"
  shows "(inside m c l \<and> inside m d l \<longrightarrow> c = d) \<and> (inside m c l \<longrightarrow> \<not> ifl (cpus m c)) \<and>
    (locked (locks m l) \<noteq> 0 \<longleftrightarrow> (\<exists>c. inside m c l))"
proof -
  note inv = mreach_inv [OF assms]
  have "\<not> ifl (cpus m c)" if "inside m c l"
  proof -
    have "ncli (cpus m c) \<noteq> 0"
    proof (cases "pcs m c = Got l")
      case True
      then have "ncli (cpus m c) = int (length (held m c)) + 1" using inv unfolding cli_inv_def by force
      then show ?thesis by linarith
    next
      case False
      then have "0 < length (held m c)" using that by (auto simp: inside_def)
      then show ?thesis using inv unfolding cli_inv_def by (metis not_less of_nat_0_less_iff)
    qed
    then show ?thesis using inv unfolding cli_inv_def by blast
  qed
  then show ?thesis using inv unfolding lock_inv_def by blast
qed

definition mach0 :: mach where
  "mach0 = \<lparr>cpus = \<lambda>_. \<lparr>ncli = 0, intena = False, ifl = True\<rparr>,
     locks = \<lambda>_. initlock \<lparr>locked = 0, lcpu = None\<rparr>, pcs = \<lambda>_. Run, held = \<lambda>_. []\<rparr>"

lemma mach0_acquire:
  "mreach (acquire_record 1 7 (acquire_spin 1 7 (acquire_check 1 7 (acquire_enter 1 7 mach0))))"
proof -
  have 0: "mreach mach0" by (rule mreach.start) (simp_all add: mach0_def)
  have 1: "mreach (acquire_enter 1 7 mach0)"
    by (rule mreach.step [OF 0]) (rule mstep.enter, simp add: mach0_def)
  have 2: "mreach (acquire_check 1 7 (acquire_enter 1 7 mach0))"
    by (rule mreach.step [OF 1]) (rule mstep.check, simp add: acquire_enter_def)
  have 3: "mreach (acquire_spin 1 7 (acquire_check 1 7 (acquire_enter 1 7 mach0)))"
    by (rule mreach.step [OF 2])
      (rule mstep.spin, simp add: acquire_enter_def acquire_check_def holding_def mach0_def initlock_def)
  show ?thesis
    by (rule mreach.step [OF 3])
      (rule mstep.own, simp add: acquire_enter_def acquire_check_def acquire_spin_def holding_def
        mach0_def initlock_def xchg_def)
qed

lemma spinlock_exclusion_witness:
  defines "m \<equiv> acquire_record 1 7 (acquire_spin 1 7 (acquire_check 1 7 (acquire_enter 1 7 mach0)))"
  shows "inside m 1 7 \<and> \<not> ifl (cpus m 1) \<and> \<not> inside m 2 7"
proof -
  have "inside m 1 7" by (simp add: m_def inside_def acquire_record_def)
  moreover have "mreach m" unfolding m_def by (rule mach0_acquire)
  ultimately show ?thesis
    using spinlock_exclusion [of m 1 7 1] spinlock_exclusion [of m 1 7 2] by (metis one_eq_numeral_iff semiring_norm(83))
qed



end
