(* ===== verification/Copyuvm.thy ===== *)
theory Copyuvm imports Vm begin

text \<open>
  The life of a whole address space: \<open>setupkvm\<close>, \<open>copyuvm\<close> (for \<open>fork\<close>) and \<open>freevm\<close> (for \<open>wait\<close> and \<open>exec\<close>) of
  kernel/vm.c, down to the pages that their page tables take.
\<close>

section \<open>A directory and its tables\<close>

text \<open>
  \<open>dirspace s d T M ps\<close>: the entry \<open>i\<close> of the directory \<open>d\<close> points to the table \<open>T i\<close>, or is not present; the pages whose
  entries are present in these tables have the numbers in \<open>M\<close>; \<open>ps\<close> are the free pages.
\<close>

definition pde_is :: "kmem \<Rightarrow> u32 \<Rightarrow> nat \<Rightarrow> u32 option \<Rightarrow> bool" where
  "pde_is s d i t \<longleftrightarrow> (case t of None \<Rightarrow> \<not> present (ld32 (mem s) (pte_at d i))
     | Some t \<Rightarrow> present (ld32 (mem s) (pte_at d i)) \<and> PTE_ADDR (ld32 (mem s) (pte_at d i)) = t)"

definition dirspace :: "kmem \<Rightarrow> u32 \<Rightarrow> (nat \<Rightarrow> u32 option) \<Rightarrow> nat set \<Rightarrow> u32 list \<Rightarrow> bool" where
  "dirspace s d T M ps \<longleftrightarrow> free_pages s ps \<and> page_ok s d \<and> d \<notin> set ps \<and>
     (\<forall>i < 1024. pde_is s d i (T i)) \<and>
     (\<forall>i t. T i = Some t \<longrightarrow> i < 1024 \<and> page_ok s t \<and> t \<noteq> d \<and> t \<notin> set ps \<and>
        (\<forall>j < 1024. present (ld32 (mem s) (pte_at t j)) \<longleftrightarrow> 1024 * i + j \<in> M)) \<and>
     (\<forall>i j t. T i = Some t \<and> T j = Some t \<longrightarrow> i = j) \<and>
     (\<forall>v \<in> M. T (v div 1024) \<noteq> None)"

lemma dirspaceD:
  assumes "dirspace s d T M ps"
  shows "free_pages s ps" "page_ok s d" "d \<notin> set ps" "aligned 4096 d" "0 < kend s"
    "\<And>i. i < 1024 \<Longrightarrow> pde_is s d i (T i)"
    "\<And>i t. T i = Some t \<Longrightarrow> i < 1024" "\<And>i t. T i = Some t \<Longrightarrow> page_ok s t" "\<And>i t. T i = Some t \<Longrightarrow> aligned 4096 t"
    "\<And>i t. T i = Some t \<Longrightarrow> t \<noteq> d" "\<And>i t. T i = Some t \<Longrightarrow> t \<notin> set ps"
    "\<And>i t j. T i = Some t \<Longrightarrow> j < 1024 \<Longrightarrow> present (ld32 (mem s) (pte_at t j)) \<longleftrightarrow> 1024 * i + j \<in> M"
    "\<And>i j t. T i = Some t \<Longrightarrow> T j = Some t \<Longrightarrow> i = j"
    "\<And>v. v \<in> M \<Longrightarrow> T (v div 1024) \<noteq> None"
proof -
  have f: "free_pages s ps" "page_ok s d" "d \<notin> set ps" and e: "\<forall>i < 1024. pde_is s d i (T i)"
    and t: "\<forall>i t. T i = Some t \<longrightarrow> i < 1024 \<and> page_ok s t \<and> t \<noteq> d \<and> t \<notin> set ps \<and>
        (\<forall>j < 1024. present (ld32 (mem s) (pte_at t j)) \<longleftrightarrow> 1024 * i + j \<in> M)"
    and i: "\<forall>i j t. T i = Some t \<and> T j = Some t \<longrightarrow> i = j" and m: "\<forall>v \<in> M. T (v div 1024) \<noteq> None"
    using assms unfolding dirspace_def by - (elim conjE, assumption)+
  show "free_pages s ps" "page_ok s d" "d \<notin> set ps" by (fact f)+
  show "aligned 4096 d" by (rule page_ok_aligned [OF f(2)])
  show "0 < kend s" using f(1) by (simp add: free_pages_def)
  show "\<And>i. i < 1024 \<Longrightarrow> pde_is s d i (T i)" using e by blast
  show "\<And>i t. T i = Some t \<Longrightarrow> i < 1024" "\<And>i t. T i = Some t \<Longrightarrow> page_ok s t" "\<And>i t. T i = Some t \<Longrightarrow> t \<noteq> d"
    "\<And>i t. T i = Some t \<Longrightarrow> t \<notin> set ps" "\<And>i t. T i = Some t \<Longrightarrow> aligned 4096 t" using t page_ok_aligned by blast+
  show "\<And>i t j. T i = Some t \<Longrightarrow> j < 1024 \<Longrightarrow> present (ld32 (mem s) (pte_at t j)) \<longleftrightarrow> 1024 * i + j \<in> M"
    using t by blast
  show "\<And>i j t. T i = Some t \<Longrightarrow> T j = Some t \<Longrightarrow> i = j" using i by blast
  show "\<And>v. v \<in> M \<Longrightarrow> T (v div 1024) \<noteq> None" using m by blast
qed

lemma dirspaceI:
  assumes "free_pages s ps" "page_ok s d" "d \<notin> set ps"
    and "\<And>i. i < 1024 \<Longrightarrow> pde_is s d i (T i)"
    and "\<And>i t. T i = Some t \<Longrightarrow> i < 1024 \<and> page_ok s t \<and> t \<noteq> d \<and> t \<notin> set ps"
    and "\<And>i t j. T i = Some t \<Longrightarrow> j < 1024 \<Longrightarrow> present (ld32 (mem s) (pte_at t j)) \<longleftrightarrow> 1024 * i + j \<in> M"
    and "\<And>i j t. T i = Some t \<Longrightarrow> T j = Some t \<Longrightarrow> i = j"
    and "\<And>v. v \<in> M \<Longrightarrow> T (v div 1024) \<noteq> None"
  shows "dirspace s d T M ps"
  unfolding dirspace_def using assms by blast

lemma pde_is_cong:
  assumes "ld32 (mem s') (pte_at d i) = ld32 (mem s) (pte_at d i)"
  shows "pde_is s' d i t = pde_is s d i t"
  unfolding pde_is_def assms ..

text \<open>The pages of the directory and its tables.\<close>

definition dir_pages :: "u32 \<Rightarrow> (nat \<Rightarrow> u32 option) \<Rightarrow> u32 set" where
  "dir_pages d T = insert d (ran T)"

section \<open>Mapping one page\<close>

lemma unat_page: "v < 1048576 \<Longrightarrow> unat (page_at v) = 4096 * v"
  unfolding page_at_def by (rule unat_of_nat_lt) simp

lemma walk_index:
  assumes "v < 1048576"
  shows "4 * PDX (page_at v) = 4 * of_nat (v div 1024)" "4 * PTX (page_at v) = 4 * of_nat (v mod 1024)"
proof -
  have "unat (PDX (page_at v)) = v div 1024" using unat_page [OF assms] assms by (simp add: unat_PDX)
  moreover have "unat (of_nat (v div 1024) :: u32) = v div 1024" using assms by (intro unat_of_nat_lt) simp
  ultimately have "PDX (page_at v) = of_nat (v div 1024)" by (metis word_eq_unatI)
  then show "4 * PDX (page_at v) = 4 * of_nat (v div 1024)" by simp
  have "unat (PTX (page_at v)) = v mod 1024" using unat_page [OF assms] assms by (simp add: unat_PTX)
  moreover have "unat (of_nat (v mod 1024) :: u32) = v mod 1024" by (intro unat_of_nat_lt) simp
  ultimately have "PTX (page_at v) = of_nat (v mod 1024)" by (metis word_eq_unatI)
  then show "4 * PTX (page_at v) = 4 * of_nat (v mod 1024)" by simp
qed

lemma walk_present:
  assumes "dirspace s d T M ps" "v < 1048576" "T (v div 1024) = Some t"
  shows "walkpgdir d (page_at v) c s = (pte_at t (v mod 1024), s)"
proof -
  have "v div 1024 < 1024" using assms(2) by simp
  then have "pde_is s d (v div 1024) (Some t)" using dirspaceD(6) [OF assms(1)] assms(3) by metis
  then show ?thesis by (simp add: walkpgdir_def walk_index [OF assms(2)] pde_is_def pte_at_def)
qed

text \<open>A table that is missing is made out of the first free page.\<close>

lemma walk_create:
  assumes "dirspace s d T M (t # ps)" "v < 1048576" "T (v div 1024) = None"
  shows "\<exists>s'. walkpgdir d (page_at v) True s = (pte_at t (v mod 1024), s') \<and>
    dirspace s' d (T(v div 1024 \<mapsto> t)) M ps \<and> kend s' = kend s \<and> kdata s' = kdata s \<and>
    (\<forall>q a. aligned 4096 q \<longrightarrow> q \<noteq> d \<longrightarrow> q \<noteq> t \<longrightarrow> unat (a - q) < 4096 \<longrightarrow> mem s' a = mem s a)"
proof -
  define i where "i = v div 1024"
  have i: "i < 1024" using assms(2) by (simp add: i_def)
  note D = dirspaceD [OF assms(1)]
  have t: "page_ok s t" "aligned 4096 t" "t \<noteq> d" "t \<noteq> 0" "t \<notin> set ps"
    using D(1,3) by (auto simp: free_pages_def intro: page_ok_aligned)
  define e where "e = t OR (PTE_P OR PTE_W OR PTE_U)"
  define s1 where "s1 = snd (kalloc s)"
  have s1: "kalloc s = (t, s1)" "free_pages s1 ps" "mem s1 = mem s" "kend s1 = kend s" "kdata s1 = kdata s"
    using kalloc_pop [OF D(1)] by (auto simp: s1_def prod_eq_iff kalloc_def Let_def)
  define s' where "s' = s1\<lparr>mem := st32 (memset (mem s1) t 0 PGSIZE) (pte_at d i) e\<rparr>"
  have np: "\<not> present (ld32 (mem s) (pte_at d i))" using D(6) [OF i] assms(3) by (simp add: pde_is_def i_def)
  have "walkpgdir d (page_at v) True s = (pte_at t (v mod 1024), s')"
    using np s1(1) t(4) by (simp add: walkpgdir_def walk_index [OF assms(2)] pte_at_def i_def s'_def e_def or.assoc)
  moreover have other: "mem s' a = mem s a" if "aligned 4096 q" "q \<noteq> d" "q \<noteq> t" "unat (a - q) < 4096" for q a
    using st32_pte_other_page [OF D(4) i that(1,2,4)] memset_page_out [OF page_bytes_disjoint [OF that(1) t(2) that(3,4)]] s1(3)
    by (simp add: s'_def)
  have zero: "mem s' a = 0" if "unat (a - t) < 4096" for a
    using st32_pte_other_page [OF D(4) i t(2,3) that] that by (simp add: s'_def memset_def word_less_nat_alt)
  have ok: "page_ok s' q = page_ok s q" for q by (simp add: page_ok_def s'_def s1)
  have pde: "ld32 (mem s') (pte_at d j) = (if j = i then e else ld32 (mem s) (pte_at d j))" if "j < 1024" for j
  proof -
    have "ld32 (memset (mem s1) t 0 PGSIZE) (pte_at d j) = ld32 (mem s) (pte_at d j)"
      by (rule ld32_pte_eq [OF D(4) that]) (simp add: memset_page_out [OF page_bytes_disjoint [OF D(4) t(2) t(3) [symmetric]]] s1(3))
    then show ?thesis using aligned_pte_at [OF D(4)] pte_at_inj [OF D(4) that i] that i
      by (auto simp: s'_def ld32_st32_other)
  qed
  have pte: "ld32 (mem s') (pte_at q j) = ld32 (mem s) (pte_at q j)" if "T k = Some q" "j < 1024" for k q j
    using D(9-11) [OF that(1)] by (intro ld32_pte_eq [OF _ that(2)] other) auto
  have "dirspace s' d (T(i \<mapsto> t)) M ps"
  proof (rule dirspaceI)
    show "free_pages s' ps"
    proof (rule free_pages_cong [OF s1(2)])
      fix p a assume p: "p \<in> set ps" "unat (a - p) < 4096"
      have "aligned 4096 p" "p \<noteq> d" "p \<noteq> t" using p(1) D(1,3) t(5) by (auto simp: free_pages_def intro: page_ok_aligned)
      then show "mem s' a = mem s1 a" using other p(2) s1(3) by simp
    qed (simp_all add: s'_def)
    show "page_ok s' d" "d \<notin> set ps" using D(2,3) by (simp_all add: ok)
    show "pde_is s' d j ((T(i \<mapsto> t)) j)" if "j < 1024" for j
      using D(6) [OF that] pde [OF that] PTE_ADDR_flags [OF t(2), of "PTE_P OR PTE_W OR PTE_U"]
      by (auto simp: pde_is_def e_def present_def bit.conj_disj_distrib2 split: option.splits)
    fix j q assume q: "(T(i \<mapsto> t)) j = Some q"
    show "j < 1024 \<and> page_ok s' q \<and> q \<noteq> d \<and> q \<notin> set ps"
      using q i t D(7,8,10,11) [of j q] by (auto simp: ok split: if_splits)
    show "present (ld32 (mem s') (pte_at q k)) \<longleftrightarrow> 1024 * j + k \<in> M" if "k < 1024" for k
    proof (cases "j = i")
      case True
      then have e: "q = t" using q by simp
      have "ld32 (mem s') (pte_at t k) = ld32 (\<lambda>_. 0) (pte_at t k)"
        by (rule ld32_pte_eq [OF t(2) that]) (simp add: zero)
      moreover have "1024 * i + k \<notin> M" using D(14) [of "1024 * i + k"] that assms(3) by (auto simp: i_def [symmetric])
      ultimately show ?thesis using True e by simp
    next
      case False
      then have "T j = Some q" using q by simp
      then show ?thesis using pte that D(12) by simp
    qed
    show "j = k" if "(T(i \<mapsto> t)) k = Some q" for k
      using q that D(11,13) by (auto split: if_splits)
  next
    show "(T(i \<mapsto> t)) (w div 1024) \<noteq> None" if "w \<in> M" for w using D(14) [OF that] by simp
  qed
  moreover have "kend s' = kend s" "kdata s' = kdata s" by (simp_all add: s'_def s1)
  ultimately show ?thesis using other unfolding i_def by blast
qed

lemma set_entry:
  assumes "dirspace s d T M ps" "T (v div 1024) = Some t" "present e"
  defines "s' \<equiv> s\<lparr>mem := st32 (mem s) (pte_at t (v mod 1024)) e\<rparr>"
  shows "dirspace s' d T (insert v M) ps"
    "\<And>q a. aligned 4096 q \<Longrightarrow> q \<noteq> t \<Longrightarrow> unat (a - q) < 4096 \<Longrightarrow> mem s' a = mem s a"
proof -
  note D = dirspaceD [OF assms(1)]
  note t = D(7-11) [OF assms(2)]
  show other: "mem s' a = mem s a" if "aligned 4096 q" "q \<noteq> t" "unat (a - q) < 4096" for q a
    using st32_pte_other_page [OF t(3) _ that] by (simp add: s'_def)
  have ok: "page_ok s' q = page_ok s q" for q by (simp add: page_ok_def s'_def)
  have pte: "ld32 (mem s') (pte_at q k) = (if q = t \<and> k = v mod 1024 then e else ld32 (mem s) (pte_at q k))"
    if "T j = Some q" "k < 1024" for j q k
  proof (cases "q = t")
    case True
    then show ?thesis using aligned_pte_at [OF t(3)] pte_at_inj [OF t(3) that(2), of "v mod 1024"] that(2)
      by (auto simp: s'_def ld32_st32_other)
  next
    case False
    then show ?thesis using ld32_pte_eq [OF D(9) [OF that(1)] that(2) other [OF D(9) [OF that(1)] False]] by simp
  qed
  show "dirspace s' d T (insert v M) ps"
  proof (rule dirspaceI)
    show "free_pages s' ps"
    proof (rule free_pages_cong [OF D(1)])
      fix p a assume p: "p \<in> set ps" "unat (a - p) < 4096"
      have "aligned 4096 p" "p \<noteq> t" using p(1) D(1) t(5) by (auto simp: free_pages_def intro: page_ok_aligned)
      then show "mem s' a = mem s a" using other p(2) by simp
    qed (simp_all add: s'_def)
    show "page_ok s' d" "d \<notin> set ps" using D(2,3) by (simp_all add: ok)
    show "pde_is s' d j (T j)" if "j < 1024" for j
    proof -
      have "ld32 (mem s') (pte_at d j) = ld32 (mem s) (pte_at d j)"
        by (rule ld32_pte_eq [OF D(4) that other [OF D(4) t(4) [symmetric]]])
      then show ?thesis using D(6) [OF that] pde_is_cong by blast
    qed
    show "j < 1024 \<and> page_ok s' q \<and> q \<noteq> d \<and> q \<notin> set ps" if "T j = Some q" for j q
      using D(7,8,10,11) [OF that] by (simp add: ok)
    show "present (ld32 (mem s') (pte_at q k)) \<longleftrightarrow> 1024 * j + k \<in> insert v M" if "T j = Some q" "k < 1024" for j q k
    proof -
      have "q = t \<and> k = v mod 1024 \<longleftrightarrow> 1024 * j + k = v"
      proof
        assume "q = t \<and> k = v mod 1024"
        then show "1024 * j + k = v" using D(13) [OF that(1), of "v div 1024"] assms(2) by simp
      next
        assume e: "1024 * j + k = v"
        have "v div 1024 = j" "v mod 1024 = k" using that(2) unfolding e [symmetric] by simp_all
        then show "q = t \<and> k = v mod 1024" using that(1) assms(2) by simp
      qed
      then show ?thesis using pte [OF that] D(12) [OF that] assms(3) by auto
    qed
    show "T i = Some q \<Longrightarrow> T j = Some q \<Longrightarrow> i = j" for i j q by (rule D(13))
    show "T (w div 1024) \<noteq> None" if "w \<in> insert v M" for w using that D(14) assms(2) by auto
  qed
qed

text \<open>
  How mapping pages changes a directory: pages move from the free list to the tables, one for each index of \<open>I\<close> that
  gets a table, and no page but these, the directory and its tables is written to.
\<close>

definition grown :: "nat set \<Rightarrow> u32 \<Rightarrow> kmem \<times> (nat \<Rightarrow> u32 option) \<times> u32 list \<Rightarrow> kmem \<times> (nat \<Rightarrow> u32 option) \<times> u32 list \<Rightarrow> bool" where
  "grown I d = (\<lambda>(s, T, ps) (s', T', ps').
     kend s' = kend s \<and> kdata s' = kdata s \<and>
     card (I - dom T') + length ps = card (I - dom T) + length ps' \<and>
     dir_pages d T' \<union> set ps' = dir_pages d T \<union> set ps \<and> dom T' \<subseteq> dom T \<union> I \<and> dom T \<subseteq> dom T' \<and>
     (\<forall>q a. aligned 4096 q \<longrightarrow> q \<notin> dir_pages d T \<union> set ps \<longrightarrow> unat (a - q) < 4096 \<longrightarrow> mem s' a = mem s a))"

lemma grown_refl: "grown I d x x"
  by (auto simp: grown_def split: prod.split)

lemma grown_trans:
  assumes "grown I d x y" "grown I d y z"
  shows "grown I d x z"
proof -
  obtain s T ps s1 T1 ps1 s2 T2 ps2 where e: "x = (s, T, ps)" "y = (s1, T1, ps1)" "z = (s2, T2, ps2)"
    by (cases x, cases y, cases z) blast
  have a: "kend s1 = kend s" "kdata s1 = kdata s" "card (I - dom T1) + length ps = card (I - dom T) + length ps1"
    "dir_pages d T1 \<union> set ps1 = dir_pages d T \<union> set ps" "dom T1 \<subseteq> dom T \<union> I" "dom T \<subseteq> dom T1"
    "\<And>q a. aligned 4096 q \<Longrightarrow> q \<notin> dir_pages d T \<union> set ps \<Longrightarrow> unat (a - q) < 4096 \<Longrightarrow> mem s1 a = mem s a"
    using assms(1) unfolding e grown_def prod.case by blast+
  have b: "kend s2 = kend s1" "kdata s2 = kdata s1" "card (I - dom T2) + length ps1 = card (I - dom T1) + length ps2"
    "dir_pages d T2 \<union> set ps2 = dir_pages d T1 \<union> set ps1" "dom T2 \<subseteq> dom T1 \<union> I" "dom T1 \<subseteq> dom T2"
    "\<And>q a. aligned 4096 q \<Longrightarrow> q \<notin> dir_pages d T1 \<union> set ps1 \<Longrightarrow> unat (a - q) < 4096 \<Longrightarrow> mem s2 a = mem s1 a"
    using assms(2) unfolding e grown_def prod.case by blast+
  have "mem s2 x = mem s x" if "aligned 4096 q" "q \<notin> dir_pages d T \<union> set ps" "unat (x - q) < 4096" for q x
    using a(7) [OF that] b(7) [OF that(1) _ that(3)] that(2) a(4) by simp
  moreover have "dom T2 \<subseteq> dom T \<union> I" using a(5) b(5) by blast
  moreover have "dom T \<subseteq> dom T2" using a(6) b(6) by (rule order_trans)
  moreover have "card (I - dom T2) + length ps = card (I - dom T) + length ps2" using a(3) b(3) by simp
  ultimately show ?thesis unfolding e grown_def prod.case using a(1,2,4) b(1,2,4) by simp
qed

lemma map_round:
  assumes "dirspace s d T M ps" "v < 1048576" "v \<notin> M" "finite I" "v div 1024 \<in> I" "card (I - dom T) \<le> length ps"
  shows "\<exists>q s1 s' T' ps'. walkpgdir d (page_at v) True s = (q, s1) \<and> q \<noteq> 0 \<and> \<not> present (ld32 (mem s1) q) \<and>
    s' = s1\<lparr>mem := st32 (mem s1) q (pa OR perm OR PTE_P)\<rparr> \<and>
    dirspace s' d T' (insert v M) ps' \<and> grown I d (s, T, ps) (s', T', ps')"
proof -
  define i where "i = v div 1024"
  have j: "v mod 1024 < 1024" by simp
  have "\<exists>t s1 T1 ps1. walkpgdir d (page_at v) True s = (pte_at t (v mod 1024), s1) \<and> T1 i = Some t \<and>
    dirspace s1 d T1 M ps1 \<and> grown I d (s, T, ps) (s1, T1, ps1)"
  proof (cases "T i")
    case (Some t)
    then have "walkpgdir d (page_at v) True s = (pte_at t (v mod 1024), s)"
      unfolding i_def by (rule walk_present [OF assms(1,2)])
    then show ?thesis using Some assms(1) grown_refl by blast
  next
    case None
    then have i: "i \<in> I - dom T" using assms(5) by (auto simp: i_def)
    then have "0 < card (I - dom T)" using assms(4) by (auto simp: card_gt_0_iff)
    then obtain t ps1 where ps: "ps = t # ps1" using assms(6) by (cases ps) auto
    obtain s1 where w: "walkpgdir d (page_at v) True s = (pte_at t (v mod 1024), s1)"
      "dirspace s1 d (T(i \<mapsto> t)) M ps1" "kend s1 = kend s" "kdata s1 = kdata s"
      "\<forall>q a. aligned 4096 q \<longrightarrow> q \<noteq> d \<longrightarrow> q \<noteq> t \<longrightarrow> unat (a - q) < 4096 \<longrightarrow> mem s1 a = mem s a"
      using walk_create [OF assms(1) [unfolded ps] assms(2)] None unfolding i_def by blast
    have "I - dom (T(i \<mapsto> t)) = (I - dom T) - {i}" by auto
    then have "card (I - dom (T(i \<mapsto> t))) = card (I - dom T) - 1" using i assms(4) by simp
    moreover have "ran (T(i \<mapsto> t)) = insert t (ran T)" using None by (simp add: ran_map_upd)
    ultimately have "grown I d (s, T, ps) (s1, T(i \<mapsto> t), ps1)"
      using w(3-5) i \<open>0 < card (I - dom T)\<close> by (auto simp: grown_def ps dir_pages_def)
    moreover have "(T(i \<mapsto> t)) i = Some t" by simp
    ultimately show ?thesis using w(1,2) by blast
  qed
  then obtain t s1 T1 ps1 where w: "walkpgdir d (page_at v) True s = (pte_at t (v mod 1024), s1)" "T1 (v div 1024) = Some t"
    "dirspace s1 d T1 M ps1" "grown I d (s, T, ps) (s1, T1, ps1)" unfolding i_def by blast
  note D = dirspaceD [OF w(3)]
  define s' where "s' = s1\<lparr>mem := st32 (mem s1) (pte_at t (v mod 1024)) (pa OR perm OR PTE_P)\<rparr>"
  have p: "present (pa OR perm OR PTE_P)" by (simp add: present_def bit.conj_disj_distrib2)
  note e = set_entry [OF w(3,2) p, folded s'_def]
  have "\<not> present (ld32 (mem s1) (pte_at t (v mod 1024)))" using D(12) [OF w(2) j] assms(3) by simp
  moreover have "pte_at t (v mod 1024) \<noteq> 0" by (rule pte_at_nonnull [OF D(5) D(8) [OF w(2)] j])
  moreover have "grown I d (s1, T1, ps1) (s', T1, ps1)"
    using e(2) w(2) by (auto simp: grown_def dir_pages_def ran_def s'_def)
  then have "grown I d (s, T, ps) (s', T1, ps1)" by (rule grown_trans [OF w(4)])
  ultimately show ?thesis using w(1) e(1) s'_def by blast
qed

section \<open>Mapping a region\<close>

lemma page_at_Suc: "page_at v + PGSIZE = page_at (Suc v)"
  by (simp add: page_at_def)

lemma mappages_loop_dir:
  assumes "dirspace s d T M ps" "v + n < 1048576" "\<forall>w. v \<le> w \<and> w \<le> v + n \<longrightarrow> w \<notin> M \<and> w div 1024 \<in> I" "finite I"
    and "card (I - dom T) \<le> length ps" "n < fuel"
  shows "\<exists>s' T' ps'. mappages_loop fuel d (page_at v) (page_at (v + n)) pa perm s = Inr (0, s') \<and>
    dirspace s' d T' (M \<union> {v..v + n}) ps' \<and> grown I d (s, T, ps) (s', T', ps')"
  using assms
proof (induction fuel arbitrary: v n s T M ps pa)
  case (Suc fuel)
  have v: "v < 1048576" "v \<notin> M" "v div 1024 \<in> I" using Suc.prems(2,3) by auto
  obtain q s1 s' T' ps' where r: "walkpgdir d (page_at v) True s = (q, s1)" "q \<noteq> 0" "\<not> present (ld32 (mem s1) q)"
    "s' = s1\<lparr>mem := st32 (mem s1) q (pa OR perm OR PTE_P)\<rparr>" "dirspace s' d T' (insert v M) ps'"
    "grown I d (s, T, ps) (s', T', ps')"
    using map_round [OF Suc.prems(1) v(1,2) Suc.prems(4) v(3) Suc.prems(5), of pa perm] by blast
  have e: "mappages_loop (Suc fuel) d (page_at v) (page_at (v + n)) pa perm s =
      (if page_at v = page_at (v + n) then Inr (0, s') else mappages_loop fuel d (page_at (Suc v)) (page_at (v + n)) (pa + PGSIZE) perm s')"
    using r(1-3) by (simp add: r(4) page_at_Suc Let_def)
  show ?case
  proof (cases n)
    case 0
    then show ?thesis using e r(5,6) by auto
  next
    case (Suc m)
    have "page_at v \<noteq> page_at (v + n)"
    proof
      assume "page_at v = page_at (v + n)"
      then have "4096 * v = 4096 * (v + n)" using unat_page [OF v(1)] unat_page [OF Suc.prems(2)] by metis
      then show False using Suc by simp
    qed
    moreover have "\<forall>w. Suc v \<le> w \<and> w \<le> Suc v + m \<longrightarrow> w \<notin> insert v M \<and> w div 1024 \<in> I"
      using Suc.prems(3) Suc by auto
    moreover have "card (I - dom T') \<le> length ps'" using r(6) Suc.prems(5) by (simp add: grown_def)
    ultimately obtain s2 T2 ps2 where ih: "mappages_loop fuel d (page_at (Suc v)) (page_at (v + n)) (pa + PGSIZE) perm s' = Inr (0, s2)"
      "dirspace s2 d T2 (insert v M \<union> {Suc v..Suc v + m}) ps2" "grown I d (s', T', ps') (s2, T2, ps2)"
      using Suc.IH [OF r(5), of "Suc v" m "pa + PGSIZE"] Suc.prems(2,4,6) Suc by auto
    have "insert v M \<union> {Suc v..Suc v + m} = M \<union> {v..v + n}" using Suc by auto
    then show ?thesis using e ih grown_trans [OF r(6) ih(3)] \<open>page_at v \<noteq> page_at (v + n)\<close> by auto
  qed
qed simp

lemma page_round: "v < 1048576 \<Longrightarrow> PGROUNDDOWN (page_at v) = page_at v"
  using unat_page [of v] by (simp add: page_of(1))

lemma mappages_dir:
  assumes "dirspace s d T M ps" "v + n < 1048576" "\<forall>w. v \<le> w \<and> w \<le> v + n \<longrightarrow> w \<notin> M \<and> w div 1024 \<in> I" "finite I"
    and "card (I - dom T) \<le> length ps"
  shows "\<exists>s' T' ps'. mappages d (page_at v) (page_at (Suc (v + n)) - page_at v) pa perm s = Inr (0, s') \<and>
    dirspace s' d T' (M \<union> {v..v + n}) ps' \<and> grown I d (s, T, ps) (s', T', ps')"
proof -
  have u: "unat (page_at (v + n)) = 4096 * (v + n)" "unat (page_at v) = 4096 * v" using assms(2) by (simp_all add: unat_page)
  have e: "page_at v + (page_at (Suc (v + n)) - page_at v) - 1 = page_at (v + n) + 4095" by (simp add: page_at_Suc [symmetric])
  have "unat (page_at (v + n) + 4095) = 4096 * (v + n) + 4095"
    using u(1) assms(2) by (subst unat_add_lt) simp_all
  then have "unat (page_at (v + n) + 4095) div 4096 = v + n" by simp
  then have l: "PGROUNDDOWN (page_at v + (page_at (Suc (v + n)) - page_at v) - 1) = page_at (v + n)"
    unfolding e page_of(1) by simp
  have "unat (page_at (v + n) - page_at v) = 4096 * n" using u by (subst unat_sub) (simp_all add: word_le_nat_alt)
  then have f: "unat (page_at (v + n) - page_at v) div 4096 = n" by simp
  have r: "PGROUNDDOWN (page_at v) = page_at v" using assms(2) by (intro page_round) simp
  show ?thesis unfolding mappages_def Let_def l r f by (rule mappages_loop_dir [OF assms(1-5) lessI])
qed

section \<open>The kernel part\<close>

text \<open>The indices of the directory that \<open>kmap\<close> needs a table for, and the pages it maps.\<close>

definition kindex :: "nat set" where
  "kindex = {0..<4} \<union> {1016..<1024}"

definition kpages :: "nat set" where
  "kpages = {160..<4096} \<union> {1040384..<1048576}"

text \<open>The data of the kernel begins on a page between 1 MB and the top of physical memory.\<close>

definition kdata_ok :: "kmem \<Rightarrow> bool" where
  "kdata_ok s \<longleftrightarrow> (\<exists>k. 256 < k \<and> k < 4096 \<and> kdata s = page_at k)"

lemma card_kindex: "finite kindex" "card kindex = 12"
  unfolding kindex_def by (auto simp: card_Un_disjoint)

lemma setup_step:
  assumes "dirspace s d T M ps" "v + n < 1048576" "\<forall>w. v \<le> w \<and> w \<le> v + n \<longrightarrow> w \<notin> M \<and> w div 1024 \<in> kindex"
    and "card (kindex - dom T) \<le> length ps" "p = page_at v" "e = page_at (Suc (v + n))"
  obtains s' T' ps' where "setupkvm_loop d ((p, e, perm) # ks) s = setupkvm_loop d ks s'"
    "dirspace s' d T' (M \<union> {v..v + n}) ps'" "grown kindex d (s, T, ps) (s', T', ps')" "card (kindex - dom T') \<le> length ps'"
proof -
  obtain s' T' ps' where m: "mappages d p (e - p) p perm s = Inr (0, s')"
    "dirspace s' d T' (M \<union> {v..v + n}) ps'" "grown kindex d (s, T, ps) (s', T', ps')"
    using mappages_dir [OF assms(1-3) card_kindex(1) assms(4)] unfolding assms(5,6) by blast
  show ?thesis using that [OF _ m(2,3)] m(1,3) assms(4) by (simp add: grown_def)
qed

lemma setupkvm_ok:
  assumes "free_pages s (d # ps)" "12 \<le> length ps" "kdata_ok s"
  shows "\<exists>s' T ps'. setupkvm s = Inr (d, s') \<and> dirspace s' d T kpages ps' \<and> kend s' = kend s \<and>
    length ps = length ps' + 12 \<and> dir_pages d T \<union> set ps' = set (d # ps) \<and> dom T \<subseteq> kindex \<and>
    (\<forall>q a. aligned 4096 q \<longrightarrow> q \<notin> set (d # ps) \<longrightarrow> unat (a - q) < 4096 \<longrightarrow> mem s' a = mem s a)"
proof -
  define s1 where "s1 = (snd (kalloc s))\<lparr>mem := memset (mem (snd (kalloc s))) d 0 PGSIZE\<rparr>"
  have k: "kalloc s = (d, snd (kalloc s))" "free_pages (snd (kalloc s)) ps" "mem (snd (kalloc s)) = mem s"
    "kend (snd (kalloc s)) = kend s" "kdata (snd (kalloc s)) = kdata s"
    using kalloc_pop [OF assms(1)] by (auto simp: prod_eq_iff kalloc_def Let_def)
  have d: "page_ok s d" "aligned 4096 d" "d \<notin> set ps" "d \<noteq> 0"
    using assms(1) by (auto simp: free_pages_def intro: page_ok_aligned)
  have other: "mem s1 a = mem s a" if "aligned 4096 q" "q \<noteq> d" "unat (a - q) < 4096" for q a
    using memset_page_out [OF page_bytes_disjoint [OF that(1) d(2) that(2,3)]] by (simp add: s1_def)
  have s1: "kend s1 = kend s" "kdata s1 = kdata s" by (simp_all add: s1_def k(4,5))
  have f: "free_pages s1 ps"
  proof (rule free_pages_cong [OF k(2)])
    fix p a assume p: "p \<in> set ps" "unat (a - p) < 4096"
    have "aligned 4096 p" "p \<noteq> d" using p(1) assms(1) d(3) by (auto simp: free_pages_def intro: page_ok_aligned)
    then show "mem s1 a = mem (snd (kalloc s)) a" using other p(2) k(3) by simp
  qed (simp_all add: s1_def)
  have D0: "dirspace s1 d Map.empty {} ps"
  proof (rule dirspaceI)
    show "page_ok s1 d" "d \<notin> set ps" using d by (simp_all add: page_ok_def s1)
    show "pde_is s1 d i (Map.empty i)" if "i < 1024" for i
    proof -
      have "ld32 (mem s1) (pte_at d i) = ld32 (\<lambda>_. 0) (pte_at d i)"
        by (rule ld32_pte_eq [OF d(2) that]) (simp add: s1_def memset_def word_less_nat_alt)
      then show ?thesis by (simp add: pde_is_def)
    qed
  qed (simp_all add: f)
  have c0: "card (kindex - dom Map.empty) \<le> length ps" using assms(2) by (simp add: card_kindex)
  obtain k where kd: "256 < k" "k < 4096" "kdata s1 = page_at k" using assms(3) s1 by (auto simp: kdata_ok_def)
  have st: "setupkvm s = setupkvm_loop d (kmap s1) s1"
    unfolding setupkvm_def s1_def using kalloc_pop [OF assms(1)] d(4) by (cases "kalloc s") (simp add: Let_def)
  have k1: "160 + 95 < (1048576 :: nat)" "\<forall>w. 160 \<le> w \<and> w \<le> 160 + 95 \<longrightarrow> w \<notin> {} \<and> w div 1024 \<in> kindex"
    "USERTOP = page_at 160" "0x100000 = page_at (Suc (160 + 95))"
    by (auto simp: kindex_def page_at_def)
  obtain s2 T2 ps2 where m2: "setupkvm s = setupkvm_loop d (tl (kmap s1)) s2"
    "dirspace s2 d T2 ({} \<union> {160..160 + 95}) ps2" "grown kindex d (s1, Map.empty, ps) (s2, T2, ps2)" "card (kindex - dom T2) \<le> length ps2"
    unfolding st kmap_def list.sel(3)
    by (rule setup_step [OF D0 k1(1,2) c0 k1(3,4)])
  have k2: "256 + (k - 257) < 1048576" "\<forall>w. 256 \<le> w \<and> w \<le> 256 + (k - 257) \<longrightarrow> w \<notin> {} \<union> {160..160 + 95} \<and> w div 1024 \<in> kindex"
    "0x100000 = page_at 256" "kdata s1 = page_at (Suc (256 + (k - 257)))"
    using kd by (auto simp: kindex_def page_at_def)
  obtain s3 T3 ps3 where m3: "setupkvm s = setupkvm_loop d (tl (tl (kmap s1))) s3"
    "dirspace s3 d T3 ({} \<union> {160..160 + 95} \<union> {256..256 + (k - 257)}) ps3" "grown kindex d (s2, T2, ps2) (s3, T3, ps3)"
    "card (kindex - dom T3) \<le> length ps3"
    unfolding m2(1) kmap_def list.sel(3) by (rule setup_step [OF m2(2) k2(1,2) m2(4) k2(3,4)])
  have k3: "k + (4095 - k) < 1048576"
    "\<forall>w. k \<le> w \<and> w \<le> k + (4095 - k) \<longrightarrow> w \<notin> {} \<union> {160..160 + 95} \<union> {256..256 + (k - 257)} \<and> w div 1024 \<in> kindex"
    "PHYSTOP = page_at (Suc (k + (4095 - k)))"
    using kd by (auto simp: kindex_def page_at_def)
  obtain s4 T4 ps4 where m4: "setupkvm s = setupkvm_loop d (tl (tl (tl (kmap s1)))) s4"
    "dirspace s4 d T4 ({} \<union> {160..160 + 95} \<union> {256..256 + (k - 257)} \<union> {k..k + (4095 - k)}) ps4"
    "grown kindex d (s3, T3, ps3) (s4, T4, ps4)" "card (kindex - dom T4) \<le> length ps4"
    unfolding m3(1) kmap_def list.sel(3) by (rule setup_step [OF m3(2) k3(1,2) m3(4) kd(3) k3(3)])
  have M4: "{} \<union> {160..160 + 95} \<union> {256..256 + (k - 257)} \<union> {k..k + (4095 - k)} = {160..<4096::nat}" using kd by auto
  have k4: "\<forall>w. 1040384 \<le> w \<and> w \<le> 1040384 + 8191 \<longrightarrow> w \<notin> {160..<4096} \<and> w div 1024 \<in> kindex"
    "0xFE000000 = page_at 1040384" "0 = page_at (Suc (1040384 + 8191))" "1040384 + 8191 < (1048576 :: nat)"
    by (auto simp: kindex_def page_at_def)
  obtain s5 T5 ps5 where m5: "setupkvm s = setupkvm_loop d [] s5"
    "dirspace s5 d T5 ({160..<4096} \<union> {1040384..1040384 + 8191}) ps5"
    "grown kindex d (s4, T4, ps4) (s5, T5, ps5)" "card (kindex - dom T5) \<le> length ps5"
    unfolding m4(1) kmap_def list.sel(3) by (rule setup_step [OF m4(2) [unfolded M4] k4(4,1) m4(4) k4(2,3)])
  have "{160..<4096} \<union> {1040384..1040384 + 8191} = kpages" by (auto simp: kpages_def)
  then have D: "dirspace s5 d T5 kpages ps5" using m5(2) by simp
  have g: "grown kindex d (s1, Map.empty, ps) (s5, T5, ps5)"
    using grown_trans [OF grown_trans [OF grown_trans [OF m2(3) m3(3)] m4(3)] m5(3)] .
  then have "kend s5 = kend s1" "length ps + card (kindex - dom T5) = length ps5 + 12" "dir_pages d T5 \<union> set ps5 = set (d # ps)" "dom T5 \<subseteq> kindex"
    by (auto simp: grown_def card_kindex dir_pages_def)
  moreover have "kindex \<subseteq> dom T5"
  proof
    fix i assume i: "i \<in> kindex"
    then have "1024 * i + 1023 \<in> kpages" by (auto simp: kindex_def kpages_def)
    from dirspaceD(14) [OF D this] show "i \<in> dom T5" by auto
  qed
  then have "kindex - dom T5 = {}" by blast
  ultimately have "kend s5 = kend s1" "length ps = length ps5 + 12" "dir_pages d T5 \<union> set ps5 = set (d # ps)" "dom T5 \<subseteq> kindex"
    by simp_all
  moreover have "mem s5 a = mem s a" if "aligned 4096 q" "q \<notin> set (d # ps)" "unat (a - q) < 4096" for q a
  proof -
    have "q \<notin> dir_pages d Map.empty \<union> set ps" using that(2) by (simp add: dir_pages_def)
    then have "mem s5 a = mem s1 a" using g that(1,3) unfolding grown_def prod.case by blast
    then show ?thesis using other [OF that(1) _ that(3)] that(2) by simp
  qed
  ultimately show ?thesis using m5(1) D s1 by auto
qed

section \<open>Two address spaces at once\<close>

definition user_frames :: "(nat \<Rightarrow> u32 option) \<Rightarrow> u32 set" where
  "user_frames fr = {p. \<exists>k < UPAGES. fr k = Some p}"

text \<open>An address space whose pages are not written to stays as it is.\<close>

lemma uspace_transfer:
  assumes "uspace s d pt fr ps" "free_pages s' ps'" "kend s' = kend s"
    and "\<forall>q \<in> insert d (insert pt (user_frames fr)). q \<notin> set ps'"
    and "\<forall>q \<in> insert d (insert pt (user_frames fr)). \<forall>a. unat (a - q) < 4096 \<longrightarrow> mem s' a = mem s a"
  shows "uspace s' d pt fr ps'"
    "\<And>a. unat a < 4096 * UPAGES \<Longrightarrow> ubyte s' fr a = ubyte s fr a"
proof -
  note u = uspaceD [OF assms(1)]
  have ok: "page_ok s' q = page_ok s q" for q by (simp add: page_ok_def assms(3))
  have uf: "p \<in> user_frames fr" if "k < UPAGES" "fr k = Some p" for k p using that by (auto simp: user_frames_def)
  have pte: "ld32 (mem s') (pte_at pt k) = ld32 (mem s) (pte_at pt k)" if "k < UPAGES" for k
    using that u(6) assms(5) by (intro ld32_pte_eq) auto
  have pde: "ld32 (mem s') d = ld32 (mem s) d" using u(5) assms(5) by (intro ld32_page_eq) auto
  show "uspace s' d pt fr ps'"
  proof (rule uspaceI)
    show "d \<notin> set ps'" "pt \<notin> set ps'" using assms(4) by auto
    show "present (ld32 (mem s') d)" "PTE_ADDR (ld32 (mem s') d) = pt"
      using assms(1) unfolding pde uspace_def by blast+
    show "pte_maps (ld32 (mem s') (pte_at pt k)) (fr k)" if "k < UPAGES" for k
      using assms(1) that unfolding pte [OF that] uspace_def by blast
    show "page_ok s' p \<and> p \<noteq> d \<and> p \<noteq> pt \<and> p \<notin> set ps'" if "k < UPAGES" "fr k = Some p" for k p
      using uspace_frame [OF assms(1) that] assms(4) uf [OF that] by (auto simp: ok)
    show "j = k" if "k < UPAGES" "fr k = Some p" "j < UPAGES" "fr j = Some p" for j k p
      using assms(1) that unfolding uspace_def by blast
  qed (use u assms(2) in \<open>simp_all add: ok\<close>)
  fix a :: u32 assume a: "unat a < 4096 * UPAGES"
  show "ubyte s' fr a = ubyte s fr a"
  proof (cases "fr (unat a div 4096)")
    case (Some p)
    have "unat a div 4096 < UPAGES" using a by simp
    then have f: "p \<in> insert d (insert pt (user_frames fr))" using uf Some by blast
    have "p + (a - PGROUNDDOWN a) - p = a - PGROUNDDOWN a" by simp
    then have "unat (p + (a - PGROUNDDOWN a) - p) < 4096" using page_of(2) [of a] by simp
    then have "mem s' (p + (a - PGROUNDDOWN a)) = mem s (p + (a - PGROUNDDOWN a))" using assms(5) f by blast
    then show ?thesis using Some by (simp add: ubyte_def)
  qed (simp add: ubyte_def)
qed

lemma uspace_own:
  assumes "uspace s d pt fr ps" "q \<in> insert d (insert pt (user_frames fr))"
  shows "aligned 4096 q" "q \<notin> set ps"
  using assms(2) uspaceD(5,6,8,9) [OF assms(1)] uspace_frame(2,5) [OF assms(1)] by (auto simp: user_frames_def)

text \<open>The user part of a new directory.\<close>

lemma dirspace_uspace:
  assumes "dirspace s d T M ps" "T 0 = Some pt" "\<forall>k < UPAGES. k \<notin> M"
  shows "uspace s d pt (\<lambda>_. None) ps"
proof (rule uspaceI)
  note D = dirspaceD [OF assms(1)]
  show "free_pages s ps" "page_ok s d" "page_ok s pt" "d \<noteq> pt" "d \<notin> set ps" "pt \<notin> set ps"
    using D(1-3) D(8,10,11) [OF assms(2)] by auto
  have "pde_is s d 0 (Some pt)" using D(6) [of 0] assms(2) by simp
  then show "present (ld32 (mem s) d)" "PTE_ADDR (ld32 (mem s) d) = pt" by (simp_all add: pde_is_def pte_at_def)
  show "pte_maps (ld32 (mem s) (pte_at pt k)) None" if "k < UPAGES" for k
    using D(12) [OF assms(2), of k] assms(3) that by (simp add: pte_maps_def)
qed simp_all

section \<open>Copying\<close>

lemma memmove_page:
  assumes "page_ok s p" "page_ok s q"
  shows "memmove m p q PGSIZE a = (if unat (a - p) < 4096 then m (q + (a - p)) else m a)"
proof (cases "unat (a - p) < 4096")
  case True
  have "unat p < 16777216" "unat q < 16777216" using assms by (simp_all add: page_ok_def word_less_nat_alt)
  then show ?thesis using memmove_in [of "unat (a - p)" PGSIZE p q m] True by simp
next
  case False
  have "a \<noteq> p + of_nat i" if "i < unat PGSIZE" for i
  proof
    assume "a = p + of_nat i"
    then show False using that False unat_u32 [of i] by simp
  qed
  then show ?thesis using False memmove_out [of PGSIZE a p m q] by simp
qed

text \<open>One round of the loop of \<open>copyuvm\<close>: parent \<open>d\<close>, child \<open>c\<close>.\<close>

lemma copy_round:
  assumes "uspace s d pt fr (p # ps)" "uspace s c ct cfr (p # ps)" "k < UPAGES" "fr k = Some q" "cfr k = None"
    and "d \<noteq> ct" "pt \<noteq> ct" "\<forall>k < UPAGES. fr k \<noteq> Some ct"
  obtains s' where "\<And>is. copyuvm_loop d c (page_at k # is) s = copyuvm_loop d c is s'"
    "uspace s' d pt fr ps" "uspace s' c ct (cfr(k \<mapsto> p)) ps" "kend s' = kend s" "kdata s' = kdata s"
    "\<And>b. unat b < 4096 \<Longrightarrow> mem s' (p + b) = mem s (q + b)"
    "\<And>r a. aligned 4096 r \<Longrightarrow> r \<noteq> ct \<Longrightarrow> r \<noteq> p \<Longrightarrow> unat (a - r) < 4096 \<Longrightarrow> mem s' a = mem s a"
proof -
  obtain s1 where s1: "kalloc s = (p, s1)" "uspace s1 d pt fr ps" "page_ok s1 p" "p \<noteq> d" "p \<noteq> pt" "p \<notin> set ps"
    "\<forall>j < UPAGES. fr j \<noteq> Some p" "mem s1 = mem s" by (rule kalloc_uspace [OF assms(1)])
  obtain s1' where "kalloc s = (p, s1')" "uspace s1' c ct cfr ps" "page_ok s1' p" "p \<noteq> c" "p \<noteq> ct"
    "p \<notin> set ps" "\<forall>j < UPAGES. cfr j \<noteq> Some p" "mem s1' = mem s" by (rule kalloc_uspace [OF assms(2)])
  then have c1: "uspace s1 c ct cfr ps" "p \<noteq> c" "p \<noteq> ct" "\<forall>j < UPAGES. cfr j \<noteq> Some p" using s1(1) by auto
  have ke: "kend s1 = kend s" "kdata s1 = kdata s" using s1(1) by (auto simp: kalloc_def Let_def)
  note u = uspaceD [OF s1(2)] and uc = uspaceD [OF c1(1)]
  note al = page_ok_aligned [OF s1(3)] and fq = uspace_frame [OF s1(2) assms(3,4)]
  define s2 where "s2 = s1\<lparr>mem := memmove (mem s1) p q PGSIZE\<rparr>"
  have out: "mem s2 a = mem s a" if "aligned 4096 r" "r \<noteq> p" "unat (a - r) < 4096" for r a
    using memmove_page [OF s1(3) fq(1), of "mem s1" a] page_bytes_disjoint [OF that(1) al that(2,3)] s1(8) by (simp add: s2_def)
  have inside: "mem s2 (p + b) = mem s (q + b)" if "unat b < 4096" for b
    using memmove_page [OF s1(3) fq(1), of "mem s1" "p + b"] that s1(8) by (simp add: s2_def)
  have keep: "uspace s2 e et f ps" if U: "uspace s1 e et f ps" "p \<noteq> e" "p \<noteq> et" for e et f
  proof (rule uspace_cong [OF U(1)])
    fix r a assume r: "r \<in> insert e (insert et (set ps))" "unat (a - r) < 4096"
    have "aligned 4096 r" using r(1) uspaceD [OF U(1)] by (auto simp: free_pages_def intro: page_ok_aligned)
    moreover have "r \<noteq> p" using r(1) U(2,3) s1(6) by auto
    ultimately show "mem s2 a = mem s1 a" using out r(2) s1(8) by simp
  qed (simp_all add: s2_def)
  note p2 = keep [OF s1(2,4,5)] and c2 = keep [OF c1(1-3)]
  define e where "e = p OR (PTE_W OR PTE_U) OR PTE_P"
  define s3 where "s3 = s2\<lparr>mem := st32 (mem s2) (pte_at ct k) e\<rparr>"
  have map: "mappages c (page_at k) PGSIZE p (PTE_W OR PTE_U) s2 = Inr (0, s3)"
    unfolding s3_def e_def using assms(3,5) by (intro mappages_one [OF c2])
  have pte: "pte_maps (ld32 (mem s) (pte_at pt k)) (Some q)" using assms(1,3,4) unfolding uspace_def by metis
  then have q: "present (ld32 (mem s) (pte_at pt k))" "PTE_ADDR (ld32 (mem s) (pte_at pt k)) = q" by (simp_all add: pte_maps_def)
  have nz: "pte_at pt k \<noteq> 0" using assms(3) by (intro pte_at_nonnull [OF u(2,4)]) simp
  have p0: "p \<noteq> 0" using s1(3) u(2) by (auto simp: page_ok_def word_le_nat_alt word_less_nat_alt)
  have "copyuvm_loop d c (page_at k # is) s = copyuvm_loop d c is s3" for "is"
    using q nz p0 s1(1) map walk_user [OF assms(1,3)] unfolding s2_def s1(8) by (simp add: Let_def s1(8))
  moreover have C: "uspace s3 c ct (cfr(k \<mapsto> p)) ps"
    unfolding s3_def using c2 assms(3) pte_flags_user [OF al] s1(3,6) c1(2-4)
    by (intro uspace_set_pte) (auto simp: e_def page_ok_def s2_def)
  moreover have o3: "mem s3 a = mem s2 a" if "aligned 4096 r" "r \<noteq> ct" "unat (a - r) < 4096" for r a
    using st32_pte_other_page [OF uc(6) _ that] assms(3) by (simp add: s3_def)
  have "uspace s3 d pt fr ps"
  proof (rule uspace_cong [OF p2])
    fix r a assume r: "r \<in> insert d (insert pt (set ps))" "unat (a - r) < 4096"
    have "aligned 4096 r" using r(1) u by (auto simp: free_pages_def intro: page_ok_aligned)
    moreover have "r \<noteq> ct" using r(1) assms(6,7) uc(9) by auto
    ultimately show "mem s3 a = mem s2 a" using o3 r(2) by simp
  qed (simp_all add: s3_def)
  moreover have "kend s3 = kend s" "kdata s3 = kdata s" by (simp_all add: s3_def s2_def ke)
  moreover have "mem s3 (p + b) = mem s (q + b)" if "unat b < 4096" for b
    using o3 [OF al c1(3), of "p + b"] inside [OF that] that by simp
  moreover have "mem s3 a = mem s a" if "aligned 4096 r" "r \<noteq> ct" "r \<noteq> p" "unat (a - r) < 4096" for r a
    using o3 [OF that(1,2,4)] out [OF that(1,3,4)] by simp
  ultimately show thesis by (intro that [of s3]) 
qed

text \<open>The loop, over pages that the parent has and the child does not have yet.\<close>

lemma copy_loop:
  assumes "uspace s d pt fr ps" "uspace s c ct cfr ps" "\<forall>k \<in> set ks. k < UPAGES \<and> fr k \<noteq> None \<and> cfr k = None" "distinct ks"
    and "d \<noteq> ct" "pt \<noteq> ct" "\<forall>k < UPAGES. fr k \<noteq> Some ct" "length ks \<le> length ps"
  shows "\<exists>s'. (\<forall>is. copyuvm_loop d c (map page_at ks @ is) s = copyuvm_loop d c is s') \<and> kend s' = kend s \<and>
    uspace s' d pt fr (drop (length ks) ps) \<and> uspace s' c ct (cfr(ks [\<mapsto>] ps)) (drop (length ks) ps) \<and>
    (\<forall>k \<in> set ks. \<forall>p q b. (cfr(ks [\<mapsto>] ps)) k = Some p \<longrightarrow> fr k = Some q \<longrightarrow> unat b < 4096 \<longrightarrow> mem s' (p + b) = mem s (q + b)) \<and>
    (\<forall>r a. aligned 4096 r \<longrightarrow> r \<noteq> ct \<longrightarrow> r \<notin> set (take (length ks) ps) \<longrightarrow> unat (a - r) < 4096 \<longrightarrow> mem s' a = mem s a)"
  using assms
proof (induction ks arbitrary: s cfr ps)
  case Nil
  then show ?case by (intro exI [of _ s]) simp
next
  case (Cons k ks)
  then obtain p ps' where ps: "ps = p # ps'" by (cases ps) auto
  obtain q where k: "k < UPAGES" "fr k = Some q" "cfr k = None" using Cons.prems(3) by auto
  obtain s1 where s1: "\<And>is. copyuvm_loop d c (page_at k # is) s = copyuvm_loop d c is s1"
    "uspace s1 d pt fr ps'" "uspace s1 c ct (cfr(k \<mapsto> p)) ps'" "kend s1 = kend s"
    "\<And>b. unat b < 4096 \<Longrightarrow> mem s1 (p + b) = mem s (q + b)"
    "\<And>r a. aligned 4096 r \<Longrightarrow> r \<noteq> ct \<Longrightarrow> r \<noteq> p \<Longrightarrow> unat (a - r) < 4096 \<Longrightarrow> mem s1 a = mem s a"
    by (rule copy_round [OF Cons.prems(1,2) [unfolded ps] k Cons.prems(5-7)]) blast
  have "\<forall>j \<in> set ks. j < UPAGES \<and> fr j \<noteq> None \<and> (cfr(k \<mapsto> p)) j = None" "distinct ks" "length ks \<le> length ps'"
    using Cons.prems(3,4,8) ps by auto
  note ih = Cons.IH [OF s1(2,3) this(1,2) Cons.prems(5-7) this(3)]
  then obtain s' where s': "\<And>is. copyuvm_loop d c (map page_at ks @ is) s1 = copyuvm_loop d c is s'" "kend s' = kend s1"
    "uspace s' d pt fr (drop (length ks) ps')" "uspace s' c ct (cfr(k \<mapsto> p, ks [\<mapsto>] ps')) (drop (length ks) ps')"
    "\<And>j p' q' b. j \<in> set ks \<Longrightarrow> (cfr(k \<mapsto> p, ks [\<mapsto>] ps')) j = Some p' \<Longrightarrow> fr j = Some q' \<Longrightarrow> unat b < 4096 \<Longrightarrow>
      mem s' (p' + b) = mem s1 (q' + b)"
    "\<And>r a. aligned 4096 r \<Longrightarrow> r \<noteq> ct \<Longrightarrow> r \<notin> set (take (length ks) ps') \<Longrightarrow> unat (a - r) < 4096 \<Longrightarrow> mem s' a = mem s1 a"
    by blast
  have p: "aligned 4096 p" "p \<noteq> ct" "p \<notin> set ps'" using uspaceD(1,9) [OF Cons.prems(2)]
    by (auto simp: ps free_pages_def intro: page_ok_aligned)
  have "mem s' (p' + b) = mem s (q' + b)"
    if j: "j \<in> set (k # ks)" "(cfr(k # ks [\<mapsto>] ps)) j = Some p'" "fr j = Some q'" "unat b < 4096" for j p' q' b
  proof (cases "j = k")
    case True
    have "k \<notin> set ks" using Cons.prems(4) by simp
    then have "(cfr(k \<mapsto> p, ks [\<mapsto>] ps')) k = Some p" by (simp add: map_upds_apply_nontin)
    then have e: "p' = p" "q' = q" using j True k(2) by (simp_all add: ps del: fun_upd_apply)
    have "p \<notin> set (take (length ks) ps')" using p(3) in_set_takeD by metis
    then have "mem s' (p + b) = mem s1 (p + b)" using s'(6) [OF p(1,2)] j(4) by simp
    then show ?thesis using s1(5) [OF j(4)] e by simp
  next
    case False
    then have js: "j \<in> set ks" "j < UPAGES" using j(1) Cons.prems(3) by auto
    note fq = uspace_frame [OF Cons.prems(1) js(2) j(3)]
    have "q' \<noteq> p" "q' \<noteq> ct" using fq(5) ps Cons.prems(7) js(2) j(3) by auto
    then have "mem s1 (q' + b) = mem s (q' + b)" using s1(6) [OF fq(2), of "q' + b"] j(4) by simp
    then show ?thesis using s'(5) [OF js(1) _ j(3,4), of p'] j(2) by (simp add: ps del: fun_upd_apply)
  qed
  moreover have "mem s' a = mem s a"
    if r: "aligned 4096 r" "r \<noteq> ct" "r \<notin> set (take (length (k # ks)) ps)" "unat (a - r) < 4096" for r a
    using s'(6) [OF r(1,2) _ r(4)] s1(6) [OF r(1,2) _ r(4)] r(3) ps by simp
  moreover have "\<forall>is. copyuvm_loop d c (map page_at (k # ks) @ is) s = copyuvm_loop d c is s'"
    using s1(1) s'(1) by (simp del: copyuvm_loop.simps)
  moreover have "kend s' = kend s" "drop (length (k # ks)) ps = drop (length ks) ps'" "cfr(k # ks [\<mapsto>] ps) = cfr(k \<mapsto> p, ks [\<mapsto>] ps')"
    using s'(2) s1(4) by (simp_all add: ps)
  ultimately show ?case using s'(3,4) by metis
qed

section \<open>Whole address spaces\<close>

text \<open>An address space with the tables of its directory; its pages are \<open>space_pages d T fr\<close>.\<close>

definition aspace :: "kmem \<Rightarrow> u32 \<Rightarrow> (nat \<Rightarrow> u32 option) \<Rightarrow> (nat \<Rightarrow> u32 option) \<Rightarrow> u32 list \<Rightarrow> bool" where
  "aspace s d T fr ps \<longleftrightarrow> T 0 \<noteq> None \<and> uspace s d (the (T 0)) fr ps \<and> (\<forall>i < 1024. pde_is s d i (T i)) \<and>
     (\<forall>i t. T i = Some t \<longrightarrow> i < 1024 \<and> page_ok s t \<and> t \<noteq> d \<and> t \<notin> set ps \<and> t \<notin> user_frames fr) \<and>
     (\<forall>i j t. T i = Some t \<and> T j = Some t \<longrightarrow> i = j)"

definition space_pages :: "u32 \<Rightarrow> (nat \<Rightarrow> u32 option) \<Rightarrow> (nat \<Rightarrow> u32 option) \<Rightarrow> u32 set" where
  "space_pages d T fr = dir_pages d T \<union> user_frames fr"

section \<open>freevm\<close>

lemma dealloc_frame:
  assumes "uspace s d pt fr ps" "\<forall>k \<in> set ks. k < UPAGES" "distinct ks" "deallocuvm_loop d (map page_at ks) s = Inr s'"
    and "aligned 4096 q" "q \<noteq> pt" "\<forall>k \<in> set ks. fr k \<noteq> Some q" "unat (a - q) < 4096"
  shows "mem s' a = mem s a"
  using assms(1-4,7)
proof (induction ks arbitrary: s fr ps)
  case Nil
  then show ?case by simp
next
  case (Cons k ks)
  have k: "k < UPAGES" "k \<notin> set ks" "distinct ks" "\<forall>k \<in> set ks. k < UPAGES" using Cons.prems(2,3) by auto
  note u = uspaceD [OF Cons.prems(1)]
  have nz: "pte_at pt k \<noteq> 0" using k(1) by (intro pte_at_nonnull [OF u(2,4)]) simp
  note w = walk_user [OF Cons.prems(1) k(1)]
  show ?case
  proof (cases "fr k")
    case None
    then have "\<not> present (ld32 (mem s) (pte_at pt k))"
      using Cons.prems(1) k(1) unfolding uspace_def by (metis option.simps(4) pte_maps_def)
    then have "deallocuvm_loop d (map page_at ks) s = Inr s'" using Cons.prems(4) w by simp
    then show ?thesis using Cons.IH [OF Cons.prems(1) k(4,3)] Cons.prems(5) by simp
  next
    case (Some p)
    obtain s1 where s1: "kfree p s = Inr s1"
      "uspace (s1\<lparr>mem := st32 (mem s1) (pte_at pt k) 0\<rparr>) d pt (fr(k := None)) (p # ps)"
      "present (ld32 (mem s) (pte_at pt k))" "PTE_ADDR (ld32 (mem s) (pte_at pt k)) = p" "p \<noteq> 0"
      by (rule unmap_one [OF Cons.prems(1) k(1) Some])
    let ?s = "s1\<lparr>mem := st32 (mem s1) (pte_at pt k) 0\<rparr>"
    have "deallocuvm_loop d (map page_at ks) ?s = Inr s'" using Cons.prems(4) s1(1,3,4,5) w nz by (simp add: Let_def)
    moreover have "\<forall>j \<in> set ks. (fr(k := None)) j \<noteq> Some q" using Cons.prems(5) by auto
    ultimately have "mem s' a = mem ?s a" by (rule Cons.IH [OF s1(2) k(4,3)])
    moreover have "q \<noteq> p" using Cons.prems(5) Some by auto
    then have "mem s1 a = mem s a" using kfree_other_page [OF s1(1) assms(5) _ assms(8)] by simp
    moreover have "mem ?s a = mem s1 a" using st32_pte_other_page [OF u(6) _ assms(5,6,8)] k(1) by simp
    ultimately show ?thesis by simp
  qed
qed

lemma dealloc_kend: "deallocuvm_loop d ks s = Inr s' \<Longrightarrow> kend s' = kend s"
proof (induction ks arbitrary: s)
  case (Cons k ks)
  have "kend s1 = kend s" if "kfree p s = Inr s1" for p s1 using that by (auto simp: kfree_ok)
  then show ?case using Cons by (fastforce simp: Let_def kbind_def split: if_splits sum.splits)
qed simp

lemma freevm_tables_ok:
  assumes "free_pages s ps" "page_ok s d" "d \<notin> set ps" "distinct is"
    and "\<forall>i \<in> set is. i < 1024 \<and> pde_is s d i (T i)"
    and "\<forall>i \<in> set is. \<forall>t. T i = Some t \<longrightarrow> page_ok s t \<and> t \<noteq> d \<and> t \<notin> set ps"
    and "\<forall>i j t. T i = Some t \<and> T j = Some t \<longrightarrow> i = j"
  shows "\<exists>s' ps'. freevm_tables d is s = Inr s' \<and> free_pages s' ps' \<and> set ps' = set ps \<union> {t. \<exists>i \<in> set is. T i = Some t} \<and>
    kend s' = kend s \<and> (\<forall>q a. aligned 4096 q \<longrightarrow> (\<forall>i \<in> set is. T i \<noteq> Some q) \<longrightarrow> unat (a - q) < 4096 \<longrightarrow> mem s' a = mem s a)"
  using assms(1-6)
proof (induction "is" arbitrary: s ps)
  case Nil
  then show ?case by auto
next
  case (Cons i "is")
  have i: "i < 1024" "i \<notin> set is" "pde_is s d i (T i)" using Cons.prems(4,5) by auto
  show ?case
  proof (cases "T i")
    case None
    then have "\<not> present (ld32 (mem s) (pte_at d i))" using i(3) by (simp add: pde_is_def)
    then have "freevm_tables d (i # is) s = freevm_tables d is s" by (simp add: pte_at_def)
    then show ?thesis using Cons.IH [OF Cons.prems(1-3)] Cons.prems(4-6) None by auto
  next
    case (Some t)
    then have e: "present (ld32 (mem s) (pte_at d i))" "PTE_ADDR (ld32 (mem s) (pte_at d i)) = t"
      using i(3) by (simp_all add: pde_is_def)
    have t: "page_ok s t" "t \<noteq> d" "t \<notin> set ps" using Cons.prems(6) Some by auto
    obtain s1 where s1: "kfree t s = Inr s1" using kfree_Inr_iff t(1) by blast
    have k: "kend s1 = kend s" using s1 by (auto simp: kfree_ok)
    have ok: "page_ok s1 q = page_ok s q" for q by (simp add: page_ok_def k)
    note f = kfree_free_pages [OF Cons.prems(1) s1 t(3)]
    have al: "aligned 4096 d" by (rule page_ok_aligned [OF Cons.prems(2)])
    have d: "ld32 (mem s1) (pte_at d j) = ld32 (mem s) (pte_at d j)" if "j < 1024" for j
      by (rule ld32_pte_eq [OF al that kfree_other_page [OF s1 al t(2) [symmetric]]])
    have "\<forall>j \<in> set is. j < 1024 \<and> pde_is s1 d j (T j)" using Cons.prems(5) pde_is_cong [OF d] by auto
    moreover have "page_ok s1 d" "d \<notin> set (t # ps)" "distinct is"
      using Cons.prems(2-4) t(2) by (auto simp: ok)
    moreover have "\<forall>j \<in> set is. \<forall>u. T j = Some u \<longrightarrow> page_ok s1 u \<and> u \<noteq> d \<and> u \<notin> set (t # ps)"
      using Cons.prems(6) assms(7) Some i(2) by (fastforce simp: ok)
    ultimately obtain s' ps' where ih: "freevm_tables d is s1 = Inr s'" "free_pages s' ps'"
      "set ps' = set (t # ps) \<union> {t. \<exists>i \<in> set is. T i = Some t}" "kend s' = kend s1"
      "\<forall>q a. aligned 4096 q \<longrightarrow> (\<forall>i \<in> set is. T i \<noteq> Some q) \<longrightarrow> unat (a - q) < 4096 \<longrightarrow> mem s' a = mem s1 a"
      using Cons.IH [OF f] by blast
    have "freevm_tables d (i # is) s = Inr s'" using e s1 ih(1) by (simp add: pte_at_def)
    moreover have "set ps' = set ps \<union> {t. \<exists>i \<in> set (i # is). T i = Some t}" using ih(3) Some by auto
    moreover have "mem s' a = mem s a" if "aligned 4096 q" "\<forall>i \<in> set (i # is). T i \<noteq> Some q" "unat (a - q) < 4096" for q a
    proof -
      have "q \<noteq> t" using that(2) Some by auto
      then show ?thesis using ih(5) that kfree_other_page [OF s1 that(1) _ that(3)] by simp
    qed
    ultimately show ?thesis using ih(2,4) k by auto
  qed
qed

lemma freevm_ok:
  assumes "aspace s d T fr ps"
  shows "\<exists>s' ps'. freevm d s = Inr s' \<and> free_pages s' ps' \<and> set ps' = set ps \<union> space_pages d T fr \<and> kend s' = kend s \<and>
    (\<forall>q a. aligned 4096 q \<longrightarrow> q \<notin> space_pages d T fr \<longrightarrow> unat (a - q) < 4096 \<longrightarrow> mem s' a = mem s a)"
proof -
  obtain pt where pt: "T 0 = Some pt" using assms unfolding aspace_def by blast
  then have U: "uspace s d pt fr ps" using assms unfolding aspace_def by simp
  have e: "\<forall>i < 1024. pde_is s d i (T i)"
    and t: "\<And>i t. T i = Some t \<Longrightarrow> i < 1024 \<and> page_ok s t \<and> t \<noteq> d \<and> t \<notin> set ps \<and> t \<notin> user_frames fr"
    and inj: "\<forall>i j t. T i = Some t \<and> T j = Some t \<longrightarrow> i = j"
    using assms unfolding aspace_def by blast+
  note u = uspaceD [OF U]
  let ?ks = "new_pages 0 USERTOP"
  have n: "set ?ks = {0..<UPAGES}" "distinct ?ks" by (auto simp: new_pages_def)
  have z: "(0 :: u32) < USERTOP" by simp
  obtain s1 where s1: "deallocuvm d USERTOP 0 s = Inr (0, s1)"
    "uspace s1 d pt (fr |` (- set ?ks)) (unmap_list fr ?ks ps)" using deallocuvm_ok [OF U z order_refl] by blast
  define ps1 where "ps1 = unmap_list fr ?ks ps"
  have loop: "deallocuvm_loop d (map page_at ?ks) s = Inr s1"
    using s1(1) page_addrs_user [of 0 USERTOP] by (auto simp: deallocuvm_def kbind_def split: sum.splits)
  have m1: "mem s1 a = mem s a" if "aligned 4096 q" "q \<noteq> pt" "q \<notin> user_frames fr" "unat (a - q) < 4096" for q a
    using dealloc_frame [OF U _ n(2) loop that(1,2) _ that(4)] that(3) n(1) by (auto simp: user_frames_def)
  note v = uspaceD [OF s1(2), folded ps1_def]
  have set1: "set ps1 = set ps \<union> user_frames fr"
    unfolding ps1_def set_unmap_list n(1) by (auto simp: user_frames_def)
  have ke: "kend s1 = kend s" by (rule dealloc_kend [OF loop])
  have ok: "page_ok s1 q = page_ok s q" for q by (simp add: page_ok_def ke)
  have dfr: "d \<notin> user_frames fr" using uspace_frame(3) [OF U] by (auto simp: user_frames_def)
  have e1: "\<forall>i \<in> set [0..<1024]. i < 1024 \<and> pde_is s1 d i (T i)"
  proof
    fix i :: nat assume i: "i \<in> set [0..<1024]"
    then have i: "i < 1024" by (simp del: upt_rec_numeral)
    have "ld32 (mem s1) (pte_at d i) = ld32 (mem s) (pte_at d i)" by (rule ld32_pte_eq [OF u(5) i m1 [OF u(5,7) dfr]])
    then show "i < 1024 \<and> pde_is s1 d i (T i)" using e i pde_is_cong by blast
  qed
  have t1: "\<forall>i \<in> set [0..<1024]. \<forall>t. T i = Some t \<longrightarrow> page_ok s1 t \<and> t \<noteq> d \<and> t \<notin> set ps1"
    using t set1 by (auto simp: ok)
  obtain s2 ps2 where s2: "freevm_tables d [0..<1024] s1 = Inr s2" "free_pages s2 ps2"
    "set ps2 = set ps1 \<union> {t. \<exists>i \<in> set [0..<1024]. T i = Some t}" "kend s2 = kend s1"
    "\<forall>q a. aligned 4096 q \<longrightarrow> (\<forall>i \<in> set [0..<1024]. T i \<noteq> Some q) \<longrightarrow> unat (a - q) < 4096 \<longrightarrow> mem s2 a = mem s1 a"
    using freevm_tables_ok [OF v(1,3,8) distinct_upt e1 t1 inj] by blast
  have set2: "set ps2 = set ps \<union> user_frames fr \<union> ran T" using s2(3) set1 t by (auto simp: ran_def)
  have d2: "page_ok s2 d" "d \<notin> set ps2" using v(3,8) set2 t dfr u(8) by (auto simp: page_ok_def s2(4) ran_def)
  obtain s' where s': "kfree d s2 = Inr s'" using kfree_Inr_iff d2(1) by blast
  have "freevm d s = Inr s'" using s1(1) s2(1) s' u(2,3)
    by (auto simp: freevm_def page_ok_def word_le_nat_alt word_less_nat_alt)
  moreover have "free_pages s' (d # ps2)" by (rule kfree_free_pages [OF s2(2) s' d2(2)])
  moreover have "kend s' = kend s" using s' s2(4) ke by (auto simp: kfree_ok)
  moreover have "set (d # ps2) = set ps \<union> space_pages d T fr" using set2 by (auto simp: space_pages_def dir_pages_def)
  moreover have "mem s' a = mem s a" if q: "aligned 4096 q" "q \<notin> space_pages d T fr" "unat (a - q) < 4096" for q a
  proof -
    have n: "q \<noteq> d" "q \<notin> ran T" "q \<notin> user_frames fr" "q \<noteq> pt" using q(2) pt by (auto simp: space_pages_def dir_pages_def ran_def)
    have "mem s' a = mem s2 a" by (rule kfree_other_page [OF s' q(1) n(1) q(3)])
    moreover have "mem s2 a = mem s1 a" using s2(5) q(1,3) n(2) by (auto simp: ran_def)
    ultimately show ?thesis using m1 [OF q(1) n(4,3) q(3)] by simp
  qed
  ultimately show ?thesis by blast
qed

section \<open>copyuvm\<close>

lemma page_addrs_from_0: "sz \<le> USERTOP \<Longrightarrow> page_addrs 0 sz = map page_at (new_pages 0 sz)"
  using page_addrs_user [of 0 sz] by (simp add: PGROUNDUP_def)

text \<open>Copying the pages \<open>ks\<close> of the parent into the new directory.\<close>

lemma copy_pages:
  assumes "uspace s d pt fr ps" "dirspace s c T kpages ps" "insert d (insert pt (user_frames fr)) \<inter> dir_pages c T = {}"
    and "\<forall>k \<in> set ks. k < UPAGES \<and> fr k \<noteq> None" "distinct ks" "length ks \<le> length ps"
  shows "\<exists>s' cfr. (\<forall>is. copyuvm_loop d c (map page_at ks @ is) s = copyuvm_loop d c is s') \<and> kend s' = kend s \<and>
    uspace s' d pt fr (drop (length ks) ps) \<and> aspace s' c T cfr (drop (length ks) ps) \<and>
    space_pages c T cfr \<union> set (drop (length ks) ps) = dir_pages c T \<union> set ps \<and>
    (\<forall>a. unat a < 4096 * UPAGES \<longrightarrow> ubyte s' fr a = ubyte s fr a) \<and>
    (\<forall>a. unat a < 4096 * UPAGES \<longrightarrow> ubyte s' cfr a = (if unat a div 4096 \<in> set ks then ubyte s fr a else None))"
proof -
  note D = dirspaceD [OF assms(2)]
  let ?n = "length ks"
  have "160 \<in> kpages" by (simp add: kpages_def)
  from D(14) [OF this] obtain ct where ct: "T 0 = Some ct" by auto
  have C: "uspace s c ct (\<lambda>_. None) ps" by (rule dirspace_uspace [OF assms(2) ct]) (auto simp: kpages_def)
  have "ct \<in> dir_pages c T" using ct by (auto simp: dir_pages_def ran_def)
  then have nct: "ct \<notin> insert d (insert pt (user_frames fr))" using assms(3) by blast
  then have nd: "d \<noteq> ct" "pt \<noteq> ct" "\<forall>k < UPAGES. fr k \<noteq> Some ct" by (auto simp: user_frames_def)
  have k: "\<forall>k \<in> set ks. k < UPAGES \<and> fr k \<noteq> None \<and> (\<lambda>_. None) k = None" using assms(4) by simp
  define cfr where "cfr = (\<lambda>_. None)(ks [\<mapsto>] ps)"
  obtain s' where s': "\<forall>is. copyuvm_loop d c (map page_at ks @ is) s = copyuvm_loop d c is s'" "kend s' = kend s"
    "uspace s' d pt fr (drop ?n ps)" "uspace s' c ct cfr (drop ?n ps)"
    "\<And>k p q b. k \<in> set ks \<Longrightarrow> cfr k = Some p \<Longrightarrow> fr k = Some q \<Longrightarrow> unat b < 4096 \<Longrightarrow> mem s' (p + b) = mem s (q + b)"
    "\<And>r a. aligned 4096 r \<Longrightarrow> r \<noteq> ct \<Longrightarrow> r \<notin> set (take ?n ps) \<Longrightarrow> unat (a - r) < 4096 \<Longrightarrow> mem s' a = mem s a"
    using copy_loop [OF assms(1) C k assms(5) nd assms(6)] unfolding cfr_def by blast
  have dom: "cfr k \<noteq> None \<longleftrightarrow> k \<in> set ks" for k
    unfolding cfr_def using upds_in [OF _ assms(6)] map_upds_apply_nontin by (metis (no_types, lifting))
  have frames: "user_frames cfr = set (take ?n ps)"
  proof -
    have "{p. \<exists>k \<in> set ks. cfr k = Some p} = set (take ?n ps)"
      using map_upds_range [OF _ assms(5), of "take ?n ps" "\<lambda>_. None"] unfolding cfr_def map_upds_take by simp
    moreover have "user_frames cfr = {p. \<exists>k \<in> set ks. cfr k = Some p}"
      using dom assms(4) unfolding user_frames_def by (metis option.discI)
    ultimately show ?thesis by simp
  qed
  have split: "set (take ?n ps) \<union> set (drop ?n ps) = set ps" by (metis append_take_drop_id set_append)
  have "aspace s' c T cfr (drop ?n ps)" unfolding aspace_def
  proof (intro conjI allI impI)
    show "T 0 \<noteq> None" "uspace s' c (the (T 0)) cfr (drop ?n ps)" using ct s'(4) by simp_all
    show "pde_is s' c i (T i)" if "i < 1024" for i
    proof -
      have cn: "c \<noteq> ct" "c \<notin> set (take ?n ps)" using D(10) [OF ct] D(3) split by blast+
      have "ld32 (mem s') (pte_at c i) = ld32 (mem s) (pte_at c i)" by (rule ld32_pte_eq [OF D(4) that s'(6) [OF D(4) cn]])
      then show ?thesis using D(6) [OF that] pde_is_cong by blast
    qed
    fix i t assume t: "T i = Some t"
    show "i < 1024" "t \<noteq> c" by (rule D(7) [OF t], rule D(10) [OF t])
    show "page_ok s' t" using D(8) [OF t] s'(2) by (simp add: page_ok_def)
    show "t \<notin> set (drop ?n ps)" "t \<notin> user_frames cfr" using D(11) [OF t] split frames by blast+
  next
    show "i = j" if "T i = Some t \<and> T j = Some t" for i j t using D(13) that by blast
  qed
  moreover have "space_pages c T cfr \<union> set (drop ?n ps) = dir_pages c T \<union> set ps"
    using split unfolding space_pages_def frames by blast
  moreover have "\<forall>a. unat a < 4096 * UPAGES \<longrightarrow> ubyte s' fr a = ubyte s fr a"
  proof -
    have fp: "free_pages s' (drop ?n ps)" by (rule uspaceD(1) [OF s'(3)])
    have nin: "\<forall>q \<in> insert d (insert pt (user_frames fr)). q \<notin> set (drop ?n ps)"
      using uspace_own(2) [OF s'(3)] by blast
    have "mem s' a = mem s a" if q: "q \<in> insert d (insert pt (user_frames fr))" "unat (a - q) < 4096" for q a
    proof (rule s'(6))
      show "aligned 4096 q" "q \<noteq> ct" "q \<notin> set (take ?n ps)"
        using uspace_own [OF assms(1) q(1)] q(1) nct split by blast+
    qed (rule q(2))
    then have "\<forall>q \<in> insert d (insert pt (user_frames fr)). \<forall>a. unat (a - q) < 4096 \<longrightarrow> mem s' a = mem s a" by blast
    from uspace_transfer(2) [OF assms(1) fp s'(2) nin this] show ?thesis by blast
  qed
  moreover have "ubyte s' cfr a = (if unat a div 4096 \<in> set ks then ubyte s fr a else None)" for a
  proof (cases "unat a div 4096 \<in> set ks")
    case True
    obtain p where p: "cfr (unat a div 4096) = Some p" using dom True by blast
    obtain q where q: "fr (unat a div 4096) = Some q" using assms(4) True by blast
    have "unat (a - PGROUNDDOWN a) < 4096" using page_of(2) [of a] by simp
    then have "ubyte s' cfr a = ubyte s fr a" using s'(5) [OF True p q] p q by (simp add: ubyte_def)
    then show ?thesis using True by simp
  next
    case False
    then have "cfr (unat a div 4096) = None" using dom by blast
    then show ?thesis using False by (simp add: ubyte_def)
  qed
  ultimately show ?thesis using s'(1-3) by (intro exI [of _ s'] exI [of _ cfr]) simp
qed

section \<open>Copying and freeing\<close>

text \<open>Freeing a space gives its pages back, and leaves another space as it is.\<close>

lemma freevm_other:
  assumes "aspace s c T cfr ps" "uspace s d pt fr ps" "insert d (insert pt (user_frames fr)) \<inter> space_pages c T cfr = {}"
  shows "\<exists>s' ps'. freevm c s = Inr s' \<and> kend s' = kend s \<and> uspace s' d pt fr ps' \<and> set ps' = space_pages c T cfr \<union> set ps \<and>
    (\<forall>a. unat a < 4096 * UPAGES \<longrightarrow> ubyte s' fr a = ubyte s fr a)"
proof -
  obtain s' ps' where f: "freevm c s = Inr s'" "free_pages s' ps'" "set ps' = set ps \<union> space_pages c T cfr" "kend s' = kend s"
    "\<forall>q a. aligned 4096 q \<longrightarrow> q \<notin> space_pages c T cfr \<longrightarrow> unat (a - q) < 4096 \<longrightarrow> mem s' a = mem s a"
    using freevm_ok [OF assms(1)] by blast
  have n: "\<forall>q \<in> insert d (insert pt (user_frames fr)). q \<notin> set ps'"
    using uspace_own(2) [OF assms(2)] assms(3) f(3) by blast
  have m: "\<forall>q \<in> insert d (insert pt (user_frames fr)). \<forall>a. unat (a - q) < 4096 \<longrightarrow> mem s' a = mem s a"
    using f(5) uspace_own(1) [OF assms(2)] assms(3) by blast
  show ?thesis using uspace_transfer [OF assms(2) f(2,4) n m] f(1,3,4) by blast
qed

lemma setupkvm_beside:
  assumes "uspace s d pt fr (c # ps)" "kdata_ok s" "12 \<le> length ps"
  obtains s1 T ps1 where "setupkvm s = Inr (c, s1)" "dirspace s1 c T kpages ps1" "length ps = length ps1 + 12"
    "dir_pages c T \<union> set ps1 = set (c # ps)" "uspace s1 d pt fr ps1" "kend s1 = kend s"
    "\<And>a. unat a < 4096 * UPAGES \<Longrightarrow> ubyte s1 fr a = ubyte s fr a"
    "insert d (insert pt (user_frames fr)) \<inter> dir_pages c T = {}"
proof -
  note u = uspaceD [OF assms(1)]
  obtain s1 T ps1 where s1: "setupkvm s = Inr (c, s1)" "dirspace s1 c T kpages ps1" "kend s1 = kend s"
    "length ps = length ps1 + 12" "dir_pages c T \<union> set ps1 = set (c # ps)"
    "\<forall>q a. aligned 4096 q \<longrightarrow> q \<notin> set (c # ps) \<longrightarrow> unat (a - q) < 4096 \<longrightarrow> mem s1 a = mem s a"
    using setupkvm_ok [OF u(1) assms(3,2)] by blast
  note own = uspace_own [OF assms(1)]
  have n: "\<forall>q \<in> insert d (insert pt (user_frames fr)). q \<notin> set ps1" using own(2) s1(5) by blast
  have m: "\<forall>q \<in> insert d (insert pt (user_frames fr)). \<forall>a. unat (a - q) < 4096 \<longrightarrow> mem s1 a = mem s a"
    using s1(6) own by blast
  note t = uspace_transfer [OF assms(1) dirspaceD(1) [OF s1(2)] s1(3) n m]
  have "insert d (insert pt (user_frames fr)) \<inter> dir_pages c T = {}" using own(2) s1(5) by blast
  then show ?thesis using that [OF s1(1,2,4,5) t(1) s1(3) t(2)] by blast
qed

lemma new_pages_0:
  assumes "sz \<le> USERTOP"
  shows "length (new_pages 0 sz) = (unat sz + 4095) div 4096" "k \<in> set (new_pages 0 sz) \<longleftrightarrow> 4096 * k < unat sz"
    "distinct (new_pages 0 sz)" "k \<in> set (new_pages 0 sz) \<Longrightarrow> k < UPAGES"
proof -
  show "length (new_pages 0 sz) = (unat sz + 4095) div 4096" "distinct (new_pages 0 sz)" by (simp_all add: new_pages_def)
  show k: "k \<in> set (new_pages 0 sz) \<longleftrightarrow> 4096 * k < unat sz" by (auto simp: new_pages_def)
  have "unat sz \<le> 655360" using assms by (simp add: word_le_nat_alt)
  then show "k \<in> set (new_pages 0 sz) \<Longrightarrow> k < UPAGES" unfolding k by linarith
qed

text \<open>What \<open>copyuvm\<close> does, for any list of pages to copy.\<close>

definition copy_space :: "u32 \<Rightarrow> u32 list \<Rightarrow> kmem \<Rightarrow> (u32 \<times> kmem) res" where
  "copy_space d as s = kbind (setupkvm s) (\<lambda>(c, s). if c = 0 then Inr (0, s) else copyuvm_loop d c as s)"

lemma copyuvm_space:
  assumes "sz \<le> USERTOP"
  shows "copyuvm d sz s = copy_space d (map page_at (new_pages 0 sz)) s"
  unfolding copyuvm_def copy_space_def page_addrs_from_0 [OF assms] ..

lemma copy_space_enough:
  assumes "uspace s d pt fr (c # ps)" "kdata_ok s" "\<forall>k \<in> set ks. k < UPAGES \<and> fr k \<noteq> None" "distinct ks"
    and "12 + length ks \<le> length ps"
  shows "\<exists>s' T cfr ps'. copy_space d (map page_at ks) s = Inr (c, s') \<and> uspace s' d pt fr ps' \<and> aspace s' c T cfr ps' \<and>
    insert d (insert pt (user_frames fr)) \<inter> space_pages c T cfr = {} \<and> space_pages c T cfr \<union> set ps' = set (c # ps) \<and>
    (\<forall>a. unat a < 4096 * UPAGES \<longrightarrow> ubyte s' fr a = ubyte s fr a) \<and>
    (\<forall>a. unat a < 4096 * UPAGES \<longrightarrow> ubyte s' cfr a = (if unat a div 4096 \<in> set ks then ubyte s fr a else None))"
proof -
  have e: "12 \<le> length ps" using assms(5) by simp
  obtain s1 T ps1 where s1: "setupkvm s = Inr (c, s1)" "dirspace s1 c T kpages ps1" "length ps = length ps1 + 12"
    "dir_pages c T \<union> set ps1 = set (c # ps)" "uspace s1 d pt fr ps1" "kend s1 = kend s"
    "\<And>a. unat a < 4096 * UPAGES \<Longrightarrow> ubyte s1 fr a = ubyte s fr a"
    "insert d (insert pt (user_frames fr)) \<inter> dir_pages c T = {}"
    by (rule setupkvm_beside [OF assms(1,2) e]) blast
  have "length ks \<le> length ps1" using assms(5) s1(3) by simp
  from copy_pages [OF s1(5,2,8) assms(3,4) this] obtain s' cfr where
    s': "\<forall>is. copyuvm_loop d c (map page_at ks @ is) s1 = copyuvm_loop d c is s'" "kend s' = kend s1"
    "uspace s' d pt fr (drop (length ks) ps1)" "aspace s' c T cfr (drop (length ks) ps1)"
    "space_pages c T cfr \<union> set (drop (length ks) ps1) = dir_pages c T \<union> set ps1"
    "\<forall>a. unat a < 4096 * UPAGES \<longrightarrow> ubyte s' fr a = ubyte s1 fr a"
    "\<forall>a. unat a < 4096 * UPAGES \<longrightarrow> ubyte s' cfr a = (if unat a div 4096 \<in> set ks then ubyte s1 fr a else None)" by blast
  have "c \<noteq> 0" using dirspaceD(2,5) [OF s1(2)] by (auto simp: page_ok_def word_le_nat_alt word_less_nat_alt)
  then have "copy_space d (map page_at ks) s = Inr (c, s')"
    using s1(1) s'(1) [rule_format, of "[]"] by (simp add: copy_space_def)
  moreover have "insert d (insert pt (user_frames fr)) \<inter> space_pages c T cfr = {}"
    using uspace_own(2) [OF assms(1)] s'(5) s1(4) by blast
  moreover have "\<forall>a. unat a < 4096 * UPAGES \<longrightarrow> ubyte s' cfr a = (if unat a div 4096 \<in> set ks then ubyte s fr a else None)"
    using s'(7) s1(7) by simp
  ultimately show ?thesis using s'(3-6) s1(4,7) by (intro exI [of _ s'] exI [of _ T] exI [of _ cfr] exI [of _ "drop (length ks) ps1"]) simp
qed

lemma copy_space_short:
  assumes "uspace s d pt fr (c # ps)" "kdata_ok s" "\<forall>k \<in> set ks. k < UPAGES \<and> fr k \<noteq> None" "distinct ks"
    and "12 \<le> length ps" "length ps < 12 + length ks"
  shows "\<exists>s' ps'. copy_space d (map page_at ks) s = Inr (0, s') \<and> uspace s' d pt fr ps' \<and> set ps' = set (c # ps) \<and>
    (\<forall>a. unat a < 4096 * UPAGES \<longrightarrow> ubyte s' fr a = ubyte s fr a)"
proof -
  obtain s1 T ps1 where s1: "setupkvm s = Inr (c, s1)" "dirspace s1 c T kpages ps1" "length ps = length ps1 + 12"
    "dir_pages c T \<union> set ps1 = set (c # ps)" "uspace s1 d pt fr ps1" "kend s1 = kend s"
    "\<And>a. unat a < 4096 * UPAGES \<Longrightarrow> ubyte s1 fr a = ubyte s fr a"
    "insert d (insert pt (user_frames fr)) \<inter> dir_pages c T = {}"
    by (rule setupkvm_beside [OF assms(1,2,5)]) blast
  have "length ps1 < length ks" using assms(6) s1(3) by simp
  then have "ks = take (length ps1) ks @ ks ! length ps1 # drop (Suc (length ps1)) ks" "length (take (length ps1) ks) = length ps1"
    using id_take_nth_drop by simp_all
  then obtain js k rest where split: "ks = js @ k # rest" "length js = length ps1" by blast
  have sub: "\<forall>k \<in> set js. k < UPAGES \<and> fr k \<noteq> None" "k < UPAGES" "fr k \<noteq> None" "distinct js"
    using assms(3,4) unfolding split(1) by auto
  have "length js \<le> length ps1" "drop (length js) ps1 = []" using split(2) by simp_all
  from copy_pages [OF s1(5,2,8) sub(1,4) this(1)] obtain s' cfr where
    s': "\<forall>is. copyuvm_loop d c (map page_at js @ is) s1 = copyuvm_loop d c is s'" "kend s' = kend s1"
    "uspace s' d pt fr []" "aspace s' c T cfr []" "space_pages c T cfr = dir_pages c T \<union> set ps1"
    "\<forall>a. unat a < 4096 * UPAGES \<longrightarrow> ubyte s' fr a = ubyte s1 fr a"
    unfolding \<open>drop (length js) ps1 = []\<close> by auto
  have dis: "insert d (insert pt (user_frames fr)) \<inter> space_pages c T cfr = {}"
    using uspace_own(2) [OF assms(1)] s'(5) s1(4) by blast
  obtain s2 ps2 where s2: "freevm c s' = Inr s2" "uspace s2 d pt fr ps2" "set ps2 = space_pages c T cfr \<union> set []"
    "\<forall>a. unat a < 4096 * UPAGES \<longrightarrow> ubyte s2 fr a = ubyte s' fr a"
    using freevm_other [OF s'(4,3) dis] by blast
  obtain q where q: "fr k = Some q" using sub(3) by blast
  have "pte_maps (ld32 (mem s') (pte_at pt k)) (fr k)" using s'(3) sub(2) unfolding uspace_def by blast
  then have p: "present (ld32 (mem s') (pte_at pt k))" using q by (simp add: pte_maps_def)
  note u = uspaceD [OF s'(3)]
  have "pte_at pt k \<noteq> 0" using sub(2) by (intro pte_at_nonnull [OF u(2,4)]) simp
  then have "copyuvm_loop d c (page_at k # map page_at rest) s' = Inr (0, s2)"
    using p kalloc_empty [OF u(1)] walk_user [OF s'(3) sub(2)] s2(1) by (simp add: Let_def)
  moreover have "c \<noteq> 0" using dirspaceD(2,5) [OF s1(2)] by (auto simp: page_ok_def word_le_nat_alt word_less_nat_alt)
  ultimately have "copy_space d (map page_at ks) s = Inr (0, s2)"
    using s1(1) s'(1) by (simp add: copy_space_def split(1) del: copyuvm_loop.simps)
  moreover have "set ps2 = set (c # ps)" using s2(3) s'(5) s1(4) by simp
  ultimately show ?thesis using s2(2,4) s'(6) s1(7) by (intro exI [of _ s2] exI [of _ ps2]) simp
qed

text \<open>
  A page directory that cannot be completed is lost: \<open>setupkvm\<close> returns 0 without freeing the pages it has taken.
\<close>

lemma setupkvm_leaks:
  assumes "free_pages s [d]"
  shows "\<exists>s'. setupkvm s = Inr (0, s') \<and> free_pages s' []"
proof -
  define s1 where "s1 = snd (kalloc s)"
  have k: "kalloc s = (d, s1)" "free_pages s1 []" using kalloc_pop [OF assms] by (auto simp: s1_def prod_eq_iff)
  have d: "aligned 4096 d" "d \<noteq> 0" using assms by (auto simp: free_pages_def intro: page_ok_aligned)
  define s2 where "s2 = s1\<lparr>mem := memset (mem s1) d 0 PGSIZE\<rparr>"
  have f: "free_pages s2 []" using k(2) by (simp add: free_pages_def s2_def)
  have "USERTOP = page_at 160" by (simp add: page_at_def)
  then have x: "4 * PDX USERTOP = 4 * of_nat 0" using walk_index(1) [of 160] by simp
  have z: "0 < (1024 :: nat)" by simp
  have "ld32 (mem s2) (pte_at d 0) = ld32 (\<lambda>_. 0) (pte_at d 0)"
    by (rule ld32_pte_eq [OF d(1) z]) (simp add: s2_def memset_def word_less_nat_alt)
  then have "\<not> present (ld32 (mem s2) (d + 4 * PDX USERTOP))" by (simp add: x pte_at_def)
  then have "walkpgdir d USERTOP True s2 = (0, s2)" using kalloc_empty [OF f] by (simp add: walkpgdir_def)
  moreover have "PGROUNDDOWN USERTOP = USERTOP" by (simp add: PGROUNDDOWN_def)
  ultimately have "setupkvm_loop d (kmap s2) s2 = Inr (0, s2)" by (simp add: kmap_def mappages_def Let_def)
  then show ?thesis using k(1) d(2) f by (simp add: setupkvm_def Let_def s2_def)
qed

section \<open>Properties\<close>

text \<open>
  C9. \<open>fork\<close> gives the child a copy of memory that is its own. When the pages of the parent below \<open>sz\<close> are mapped and
  a directory and its twelve tables can be allocated: if there is a page for each of the parent's, \<open>copyuvm\<close> returns a new
  directory in which the child sees the bytes of the parent's pages below \<open>sz\<close> and nothing else, with no page in common, and the parent keeps
  its memory; freeing the child with \<open>freevm\<close> then gives every page back. If there is not, \<open>copyuvm\<close> returns 0, and everything it had taken is free again.
\<close>

theorem copyuvm_correct:
  assumes "uspace s d pt fr (c # ps)" "kdata_ok s" "sz \<le> USERTOP" "\<forall>k. 4096 * k < unat sz \<longrightarrow> fr k \<noteq> None" "12 \<le> length ps"
  shows "if 12 + length (new_pages 0 sz) \<le> length ps
    then \<exists>s' T cfr ps'. copyuvm d sz s = Inr (c, s') \<and> uspace s' d pt fr ps' \<and> aspace s' c T cfr ps' \<and>
      insert d (insert pt (user_frames fr)) \<inter> space_pages c T cfr = {} \<and>
      (\<forall>a. unat a < 4096 * UPAGES \<longrightarrow> ubyte s' fr a = ubyte s fr a \<and>
         ubyte s' cfr a = (if 4096 * (unat a div 4096) < unat sz then ubyte s fr a else None)) \<and>
      (\<exists>s'' ps''. freevm c s' = Inr s'' \<and> uspace s'' d pt fr ps'' \<and> set ps'' = set (c # ps) \<and>
        (\<forall>a. unat a < 4096 * UPAGES \<longrightarrow> ubyte s'' fr a = ubyte s fr a))
    else \<exists>s' ps'. copyuvm d sz s = Inr (0, s') \<and> uspace s' d pt fr ps' \<and> set ps' = set (c # ps) \<and>
      (\<forall>a. unat a < 4096 * UPAGES \<longrightarrow> ubyte s' fr a = ubyte s fr a)"
proof -
  note n = new_pages_0 [OF assms(3)]
  have ks: "\<forall>k \<in> set (new_pages 0 sz). k < UPAGES \<and> fr k \<noteq> None" using n(2,4) assms(4) by blast
  show ?thesis
  proof (cases "12 + length (new_pages 0 sz) \<le> length ps")
    case True
    obtain s' T cfr ps' where s': "copyuvm d sz s = Inr (c, s')" "uspace s' d pt fr ps'" "aspace s' c T cfr ps'"
      "insert d (insert pt (user_frames fr)) \<inter> space_pages c T cfr = {}" "space_pages c T cfr \<union> set ps' = set (c # ps)"
      "\<forall>a. unat a < 4096 * UPAGES \<longrightarrow> ubyte s' fr a = ubyte s fr a"
      "\<forall>a. unat a < 4096 * UPAGES \<longrightarrow> ubyte s' cfr a = (if 4096 * (unat a div 4096) < unat sz then ubyte s fr a else None)"
      using copy_space_enough [OF assms(1,2) ks n(3) True] unfolding copyuvm_space [OF assms(3)] n(2) by blast
    obtain s'' ps'' where "freevm c s' = Inr s''" "uspace s'' d pt fr ps''" "set ps'' = space_pages c T cfr \<union> set ps'"
      "\<forall>a. unat a < 4096 * UPAGES \<longrightarrow> ubyte s'' fr a = ubyte s' fr a"
      using freevm_other [OF s'(3,2,4)] by blast
    then have "\<exists>s'' ps''. freevm c s' = Inr s'' \<and> uspace s'' d pt fr ps'' \<and> set ps'' = set (c # ps) \<and>
        (\<forall>a. unat a < 4096 * UPAGES \<longrightarrow> ubyte s'' fr a = ubyte s fr a)" using s'(5,6) by (intro exI [of _ s''] exI [of _ ps'']) simp
    then show ?thesis using s'(1-4,6,7) True by (simp only: if_True) blast
  next
    case False
    then have "length ps < 12 + length (new_pages 0 sz)" by simp
    from copy_space_short [OF assms(1,2) ks n(3) assms(5) this] show ?thesis
      unfolding copyuvm_space [OF assms(3)] if_not_P [OF False] .
  qed
qed

text \<open>A process with one page, in the memory that \<open>kinit\<close> leaves.\<close>

lemma uspace_kdata: "uspace (s\<lparr>kdata := k\<rparr>) d pt fr ps = uspace s d pt fr ps"
  by (simp add: uspace_def free_pages_def page_ok_def)

lemma demo_parent:
  obtains s d pt q c ps where "uspace s d pt [0 \<mapsto> q] (c # ps)" "kdata_ok s" "100 \<le> length ps"
proof -
  let ?s = "\<lparr>mem = \<lambda>_. 0, freelist = 0, kend = 0x110000, kdata = 0x108000\<rparr>"
  define all where "all = rev (map page_at [(unat (kend ?s) + 4095) div 4096..<4096])"
  have "length all = 3824" by (simp add: all_def del: upt_rec_numeral)
  then obtain d ps0 where ps0: "all = d # ps0" "length ps0 = 3823" by (cases all) auto
  have "freelist ?s = 0" "0 < kend ?s" "kend ?s \<le> PHYSTOP" by simp_all
  from kinit_pages [OF this] obtain s0 where "free_pages s0 all" unfolding all_def by blast
  then have f: "free_pages (s0\<lparr>kdata := 0x108000\<rparr>) (d # ps0)" unfolding ps0(1) by (simp add: free_pages_def page_ok_def)
  have k: "kdata_ok (s\<lparr>kdata := 0x108000\<rparr>)" for s :: kmem
    unfolding kdata_ok_def by (rule exI [of _ 264]) (simp add: page_at_def)
  obtain s1 T ps1 where s1: "dirspace s1 d T kpages ps1" "length ps0 = length ps1 + 12"
    using setupkvm_ok [OF f _ k] ps0(2) by auto
  have "160 \<in> kpages" by (simp add: kpages_def)
  from dirspaceD(14) [OF s1(1) this] obtain pt where "T 0 = Some pt" by auto
  then have u: "uspace s1 d pt (\<lambda>_. None) ps1" by (rule dirspace_uspace [OF s1(1)]) (auto simp: kpages_def)
  obtain q c ps2 where ps2: "ps1 = q # c # ps2" "length ps2 = 3809"
    using s1(2) ps0(2) by (cases ps1; cases "tl ps1") auto
  have n: "new_pages 0 4096 = [0]" by (simp add: new_pages_def upt_rec)
  obtain s2 where "uspace s2 d pt [0 \<mapsto> q] (c # ps2)"
    using allocuvm_ok [OF u, of 0 4096] unfolding n ps2(1) by auto
  then have "uspace (s2\<lparr>kdata := 0x108000\<rparr>) d pt [0 \<mapsto> q] (c # ps2)" by (simp add: uspace_kdata)
  from this k show ?thesis by (rule that) (use ps2(2) in simp)
qed

lemma copyuvm_correct_witness:
  "\<exists>s d pt q c ps s' cfr. uspace s d pt [0 \<mapsto> q] (c # ps) \<and> copyuvm d 4096 s = Inr (c, s') \<and>
    ubyte s' cfr 17 = ubyte s [0 \<mapsto> q] 17 \<and> ubyte s' cfr 4096 = None"
proof -
  obtain s d pt q c ps where s: "uspace s d pt [0 \<mapsto> q] (c # ps)" "kdata_ok s" "100 \<le> length ps" by (rule demo_parent)
  have n: "length (new_pages 0 4096) = 1" by (simp add: new_pages_def)
  have m: "\<forall>k. 4096 * k < unat (4096 :: u32) \<longrightarrow> [0 \<mapsto> q] k \<noteq> None" by auto
  have e: "12 + length (new_pages 0 4096) \<le> length ps" "12 \<le> length ps" using s(3) n by simp_all
  obtain s' cfr where "copyuvm d 4096 s = Inr (c, s')"
    "\<forall>a. unat a < 4096 * UPAGES \<longrightarrow> ubyte s' [0 \<mapsto> q] a = ubyte s [0 \<mapsto> q] a \<and>
       ubyte s' cfr a = (if 4096 * (unat a div 4096) < unat (4096 :: u32) then ubyte s [0 \<mapsto> q] a else None)"
    using copyuvm_correct [OF s(1,2) _ m e(2), unfolded if_P [OF e(1)]] by auto
  then have "copyuvm d 4096 s = Inr (c, s')" "ubyte s' cfr 17 = ubyte s [0 \<mapsto> q] 17" "ubyte s' cfr 4096 = None" by simp_all
  then show ?thesis using s(1) by blast
qed

end
