(* ===== verification/Proc.thy ===== *)
theory Proc imports File Spinlock begin

text \<open>
  kernel/proc.c: the process table and the life of a process. A pointer into \<open>ptable.proc\<close> is its index,
  \<open>me\<close> is \<open>proc\<close>, the process running on the CPU. \<open>ptable.lock\<close> is held over every access, so a system call is
  atomic up to where it returns or sleeps; a sleeping call is run again when the process is next
  chosen. The trap frame and the context, which live at the top of the kernel stack page, are
  fields of the process; \<open>swtch\<close> and the page table register are not modelled.
\<close>

abbreviation NPROC :: nat where "NPROC \<equiv> 64"
abbreviation NOFILE :: nat where "NOFILE \<equiv> 16"

datatype procstate = UNUSED | EMBRYO | SLEEPING | RUNNABLE | RUNNING | ZOMBIE

text \<open>What \<open>chan\<close> may point to: a process, a field of a pipe, the counter \<open>ticks\<close>, any other object.\<close>

datatype chan = CProc nat | CPipe u32 pchan | CTicks | CAddr u32

record trapframe =
  tf_edi :: u32
  tf_esi :: u32
  tf_ebp :: u32
  tf_ebx :: u32
  tf_edx :: u32
  tf_ecx :: u32
  tf_eax :: u32
  tf_es :: u16
  tf_ds :: u16
  tf_trapno :: u32
  tf_err :: u32
  tf_eip :: u32
  tf_cs :: u16
  tf_eflags :: u32
  tf_esp :: u32
  tf_ss :: u16

record pcontext =
  cx_edi :: u32
  cx_esi :: u32
  cx_ebx :: u32
  cx_ebp :: u32
  cx_eip :: u32

record proc =
  psz :: u32
  pgdir :: u32
  kstack :: u32
  pstate :: procstate
  pid :: int
  parent :: "nat option"
  tf :: trapframe
  pctx :: pcontext
  pchan :: "chan option"
  killed :: bool
  ofile :: "nat \<Rightarrow> nat option"
  cwd :: "nat option"
  pname :: cptr
  pstack :: u32
  count_thread :: int

record kern = fkern +
  ptab :: "nat \<Rightarrow> proc"
  nextpid :: int
  initproc :: "nat option"
  kticks :: u32

abbreviation upd_proc :: "nat \<Rightarrow> (proc \<Rightarrow> proc) \<Rightarrow> kern \<Rightarrow> kern" where
  "upd_proc p f s \<equiv> s\<lparr>ptab := (ptab s)(p := f (ptab s p))\<rparr>"

text \<open>The outcome of a call that may wait for a child.\<close>

datatype pout = PRet int | PSleep

section \<open>Sleep and wakeup\<close>

text \<open>\<open>wakeup1\<close>; the channel is none for a null pointer.\<close>

definition wakeup1 :: "chan option \<Rightarrow> kern \<Rightarrow> kern" where
  "wakeup1 c s = s\<lparr>ptab := (\<lambda>p. if p < NPROC \<and> pstate (ptab s p) = SLEEPING \<and> pchan (ptab s p) = c
     then (ptab s p)\<lparr>pstate := RUNNABLE\<rparr> else ptab s p)\<rparr>"

definition wakeup :: "chan option \<Rightarrow> kern \<Rightarrow> kern" where
  "wakeup c s = wakeup1 c s"

text \<open>The wakeups that the file layer has made.\<close>

definition deliver :: "kern \<Rightarrow> kern" where
  "deliver s = fold (\<lambda>(p, c). wakeup (Some (CPipe p c))) (wakes s) (s\<lparr>wakes := []\<rparr>)"

text \<open>\<open>sleep\<close> up to its call of \<open>sched\<close>, and what it does when the process runs again.\<close>

definition sleep :: "nat option \<Rightarrow> chan \<Rightarrow> bool \<Rightarrow> kern \<Rightarrow> kern res" where
  "sleep me c lk s = (case me of None \<Rightarrow> Inl (Panic ''sleep'')
     | Some p \<Rightarrow> if \<not> lk then Inl (Panic ''sleep without lk'')
         else Inr (upd_proc p (\<lambda>k. k\<lparr>pchan := Some c, pstate := SLEEPING\<rparr>) s))"

definition sleep_return :: "nat \<Rightarrow> kern \<Rightarrow> kern" where
  "sleep_return p s = upd_proc p (\<lambda>k. k\<lparr>pchan := None\<rparr>) s"

text \<open>The checks of \<open>sched\<close>: \<open>c\<close> is the current CPU, \<open>fl_if\<close> the interrupt flag in \<open>eflags\<close>.\<close>

definition sched_check :: "spinlock \<Rightarrow> nat \<Rightarrow> cpu \<Rightarrow> procstate \<Rightarrow> bool \<Rightarrow> unit res" where
  "sched_check lk n c st fl_if =
     (if \<not> holding lk n then Inl (Panic ''sched ptable.lock'')
      else if ncli c \<noteq> 1 then Inl (Panic ''sched locks'')
      else if st = RUNNING then Inl (Panic ''sched running'')
      else if fl_if then Inl (Panic ''sched interruptible'')
      else Inr ())"

definition yield :: "nat \<Rightarrow> kern \<Rightarrow> kern" where
  "yield me s = upd_proc me (\<lambda>k. k\<lparr>pstate := RUNNABLE\<rparr>) s"

definition kill :: "int \<Rightarrow> kern \<Rightarrow> int \<times> kern" where
  "kill n s = (case find (\<lambda>p. pid (ptab s p) = n) [0..<NPROC] of
     None \<Rightarrow> (-1, s)
   | Some p \<Rightarrow> (0, upd_proc p (\<lambda>k. k\<lparr>killed := True,
        pstate := (if pstate k = SLEEPING then RUNNABLE else pstate k)\<rparr>) s))"

text \<open>
  The loop of \<open>scheduler\<close> from entry \<open>i\<close> on: the next runnable process is switched to, and the loop goes on
  after it; at the end of the table the lock is released and the loop starts again.
\<close>

definition sched_next :: "nat \<Rightarrow> kern \<Rightarrow> nat option \<times> nat \<times> kern" where
  "sched_next i s = (case find (\<lambda>p. pstate (ptab s p) = RUNNABLE) [i..<NPROC] of
     None \<Rightarrow> (None, 0, s)
   | Some p \<Rightarrow> (Some p, Suc p, upd_proc p (\<lambda>k. k\<lparr>pstate := RUNNING\<rparr>) s))"

section \<open>Creating processes\<close>

text \<open>The link-time address of \<open>forkret\<close> is an argument.\<close>

definition allocproc :: "u32 \<Rightarrow> kern \<Rightarrow> nat option \<times> kern" where
  "allocproc forkret s = (case find (\<lambda>p. pstate (ptab s p) = UNUSED) [0..<NPROC] of
     None \<Rightarrow> (None, s)
   | Some p \<Rightarrow>
       let s = (upd_proc p (\<lambda>k. k\<lparr>pstate := EMBRYO, pid := nextpid s, count_thread := 0\<rparr>) s)\<lparr>nextpid := nextpid s + 1\<rparr>;
           (v, m) = kalloc (kmx s);
           s = upd_proc p (\<lambda>k. k\<lparr>kstack := v\<rparr>) (s\<lparr>kmx := m\<rparr>)
       in if v = 0 then (None, upd_proc p (\<lambda>k. k\<lparr>pstate := UNUSED\<rparr>) s)
          else (Some p, upd_proc p (\<lambda>k. k\<lparr>pctx := \<lparr>cx_edi = 0, cx_esi = 0, cx_ebx = 0, cx_ebp = 0, cx_eip = forkret\<rparr>\<rparr>) s))"

text \<open>\<open>userinit\<close>; the image \<open>initcode\<close> that the linker adds is \<open>sz\<close> bytes at \<open>init\<close>.\<close>

definition userinit :: "u32 \<Rightarrow> u32 \<Rightarrow> u32 \<Rightarrow> kern \<Rightarrow> kern res" where
  "userinit forkret init sz s =
     (let (p, s) = allocproc forkret s; s = s\<lparr>initproc := p\<rparr> in
      case p of None \<Rightarrow> Inl (Fault ''null pointer'')
      | Some p \<Rightarrow>
        kbind (setupkvm (kmx s)) (\<lambda>(d, m).
        if d = 0 then Inl (Panic ''userinit: out of memory?'')
        else kbind (inituvm d init sz m) (\<lambda>m.
        let s = upd_proc p (\<lambda>k. k\<lparr>pgdir := d, psz := 4096,
             tf := \<lparr>tf_edi = 0, tf_esi = 0, tf_ebp = 0, tf_ebx = 0, tf_edx = 0, tf_ecx = 0, tf_eax = 0,
               tf_es = 0x2B, tf_ds = 0x2B, tf_trapno = 0, tf_err = 0, tf_eip = 0, tf_cs = 0x23,
               tf_eflags = 0x200, tf_esp = 4096, tf_ss = 0x2B\<rparr>,
             pname := safestrcpy (pname k) (\<lambda>i. if i < 8 then [105, 110, 105, 116, 99, 111, 100, 101] ! i else 0) 16\<rparr>) (s\<lparr>kmx := m\<rparr>)
        in kbind (namei 0 [47] (fsx s)) (\<lambda>(c, x).
           Inr (upd_proc p (\<lambda>k. k\<lparr>cwd := c, pstate := RUNNABLE\<rparr>) (s\<lparr>fsx := x\<rparr>))))))"

definition growproc :: "nat \<Rightarrow> int \<Rightarrow> kern \<Rightarrow> (int \<times> kern) res" where
  "growproc me n s =
     (let k = ptab s me; sz = psz k in
      kbind (if n > 0 then allocuvm (pgdir k) sz (sz + of_int n) (kmx s)
             else if n < 0 then deallocuvm (pgdir k) sz (sz + of_int n) (kmx s)
             else Inr (sz, kmx s)) (\<lambda>(sz, m).
      let s = s\<lparr>kmx := m\<rparr> in
      if n \<noteq> 0 \<and> sz = 0 then Inr (-1, s)
      else Inr (0, s\<lparr>ptab := (\<lambda>p. if p = me \<or> p < NPROC \<and> parent (ptab s p) = Some me \<and> pgdir (ptab s p) = pgdir k
          then (ptab s p)\<lparr>psz := sz\<rparr> else ptab s p)\<rparr>)))"

text \<open>The loop that duplicates the open files.\<close>

fun dup_files :: "nat \<Rightarrow> nat \<Rightarrow> nat list \<Rightarrow> kern \<Rightarrow> kern res" where
  "dup_files me np [] s = Inr s"
| "dup_files me np (fd # fds) s = (case ofile (ptab s me) fd of
     None \<Rightarrow> dup_files me np fds s
   | Some f \<Rightarrow> kbind (filedup f s) (\<lambda>(f, s).
       dup_files me np fds (upd_proc np (\<lambda>k. k\<lparr>ofile := (ofile k)(fd := Some f)\<rparr>) s)))"

definition dup_cwd :: "nat \<Rightarrow> nat \<Rightarrow> kern \<Rightarrow> kern res" where
  "dup_cwd me np s = (case cwd (ptab s me) of None \<Rightarrow> Inl (Fault ''null pointer'')
     | Some ip \<Rightarrow> let (ip, x) = idup ip (fsx s)
         in Inr (upd_proc np (\<lambda>k. k\<lparr>cwd := Some ip\<rparr>) (s\<lparr>fsx := x\<rparr>)))"

definition fork :: "u32 \<Rightarrow> nat \<Rightarrow> kern \<Rightarrow> (int \<times> kern) res" where
  "fork forkret me s =
     (let (np, s) = allocproc forkret s in
      case np of None \<Rightarrow> Inr (-1, s)
      | Some np \<Rightarrow>
        let q = ptab s me in
        kbind (copyuvm (pgdir q) (psz q) (kmx s)) (\<lambda>(d, m).
        let s = upd_proc np (\<lambda>k. k\<lparr>pgdir := d\<rparr>) (s\<lparr>kmx := m\<rparr>) in
        if d = 0 then
          kbind (kfree (kstack (ptab s np)) (kmx s)) (\<lambda>m.
          Inr (-1, upd_proc np (\<lambda>k. k\<lparr>kstack := 0, pstate := UNUSED\<rparr>) (s\<lparr>kmx := m\<rparr>)))
        else
          let s = upd_proc np (\<lambda>k. k\<lparr>psz := psz q, parent := Some me, tf := (tf q)\<lparr>tf_eax := 0\<rparr>\<rparr>) s in
          kbind (dup_files me np [0..<NOFILE] s) (\<lambda>s.
          kbind (dup_cwd me np s) (\<lambda>s.
          let s = upd_proc np (\<lambda>k. k\<lparr>pstate := RUNNABLE, count_thread := 0,
              pname := safestrcpy (pname k) (pname (ptab s me)) 16\<rparr>) s
          in Inr (pid (ptab s np), s)))))"

text \<open>The two words \<open>clone\<close> pushes: a return address and the argument.\<close>

definition clone_frame :: "u32 \<Rightarrow> cptr" where
  "clone_frame arg = st32 (st32 (\<lambda>_. 0) 0 0xFFFFFFFF) 4 arg"

definition clone :: "u32 \<Rightarrow> nat \<Rightarrow> u32 \<Rightarrow> u32 \<Rightarrow> u32 \<Rightarrow> kern \<Rightarrow> (int \<times> kern) res" where
  "clone forkret me fcn arg stack s =
     (let (np, s) = allocproc forkret s in
      case np of None \<Rightarrow> Inr (-1, s)
      | Some np \<Rightarrow>
        let q = ptab s me; sptop = stack + 4096 - 8;
            s = upd_proc np (\<lambda>k. k\<lparr>pgdir := pgdir q, psz := psz q, parent := Some me\<rparr>) s;
            s = upd_proc me (\<lambda>k. k\<lparr>count_thread := count_thread k + 1\<rparr>) s;
            s = upd_proc np (\<lambda>k. k\<lparr>pstack := stack, tf := (tf q)\<lparr>tf_esp := sptop, tf_eip := fcn\<rparr>\<rparr>) s
        in kbind (copyout (pgdir q) sptop (clone_frame arg) 8 (kmx s)) (\<lambda>(r, m).
          let s = s\<lparr>kmx := m\<rparr> in
          if r < 0 then Inr (-1, s)
          else
            let s = upd_proc np (\<lambda>k. k\<lparr>tf := (tf k)\<lparr>tf_eax := 0\<rparr>\<rparr>) s in
            kbind (dup_files me np [0..<NOFILE] s) (\<lambda>s.
            kbind (dup_cwd me np s) (\<lambda>s.
            let s = upd_proc np (\<lambda>k. k\<lparr>pstate := RUNNABLE, pname := safestrcpy (pname k) (pname (ptab s me)) 16\<rparr>) s
            in Inr (pid (ptab s np), s)))))"

section \<open>Ending processes\<close>

fun close_files :: "nat \<Rightarrow> nat list \<Rightarrow> kern \<Rightarrow> kern res" where
  "close_files me [] s = Inr s"
| "close_files me (fd # fds) s = (case ofile (ptab s me) fd of
     None \<Rightarrow> close_files me fds s
   | Some f \<Rightarrow> kbind (fileclose f s) (\<lambda>s.
       close_files me fds (upd_proc me (\<lambda>k. k\<lparr>ofile := (ofile k)(fd := None)\<rparr>) s)))"

fun pass_children :: "nat \<Rightarrow> nat list \<Rightarrow> kern \<Rightarrow> kern" where
  "pass_children me [] s = s"
| "pass_children me (p # ps) s =
     (if parent (ptab s p) = Some me then
        let s = upd_proc p (\<lambda>k. k\<lparr>parent := initproc s\<rparr>) s
        in pass_children me ps
             (if pstate (ptab s p) = ZOMBIE then wakeup1 (map_option CProc (initproc s)) s else s)
      else pass_children me ps s)"

text \<open>\<open>exit\<close> up to its call of \<open>sched\<close>, which does not return.\<close>

definition exit :: "nat \<Rightarrow> kern \<Rightarrow> kern res" where
  "exit me s =
     (if Some me = initproc s then Inl (Panic ''init exiting'')
      else kbind (close_files me [0..<NOFILE] s) (\<lambda>s.
        case cwd (ptab s me) of None \<Rightarrow> Inl (Fault ''null pointer'')
        | Some ip \<Rightarrow> kbind (iput ip (fsx s)) (\<lambda>x.
          let s = upd_proc me (\<lambda>k. k\<lparr>cwd := None\<rparr>) (deliver (s\<lparr>fsx := x\<rparr>));
              s = wakeup1 (map_option CProc (parent (ptab s me))) s;
              s = pass_children me [0..<NPROC] s
          in Inr (upd_proc me (\<lambda>k. k\<lparr>pstate := ZOMBIE\<rparr>) s))))"

text \<open>The scan of \<open>wait\<close> (\<open>thr = False\<close>) and of \<open>join\<close>: whether there are children of the kind, and the first zombie of them.\<close>

definition child_of :: "bool \<Rightarrow> nat \<Rightarrow> kern \<Rightarrow> nat \<Rightarrow> bool" where
  "child_of thr me s p \<longleftrightarrow> parent (ptab s p) = Some me \<and> (pgdir (ptab s p) = pgdir (ptab s me)) = thr"

fun child_scan :: "bool \<Rightarrow> nat \<Rightarrow> kern \<Rightarrow> nat list \<Rightarrow> bool \<Rightarrow> bool \<times> nat option" where
  "child_scan thr me s [] have_kids = (have_kids, None)"
| "child_scan thr me s (p # ps) have_kids =
     (if \<not> child_of thr me s p then child_scan thr me s ps have_kids
      else if pstate (ptab s p) = ZOMBIE then (True, Some p)
      else child_scan thr me s ps True)"

definition clear_proc :: "nat \<Rightarrow> kern \<Rightarrow> kern" where
  "clear_proc p s = upd_proc p (\<lambda>k. k\<lparr>pstate := UNUSED, pid := 0, parent := None, pname := (pname k)(0 := 0), killed := False\<rparr>) s"

definition wait :: "nat \<Rightarrow> kern \<Rightarrow> (pout \<times> kern) res" where
  "wait me s = (case child_scan False me s [0..<NPROC] False of
     (_, Some p) \<Rightarrow>
       let n = pid (ptab s p) in
       kbind (kfree (kstack (ptab s p)) (kmx s)) (\<lambda>m.
       let s = upd_proc p (\<lambda>k. k\<lparr>kstack := 0\<rparr>) (s\<lparr>kmx := m\<rparr>) in
       kbind (if count_thread (ptab s p) = 0 then freevm (pgdir (ptab s p)) (kmx s) else Inr (kmx s)) (\<lambda>m.
       Inr (PRet n, clear_proc p (s\<lparr>kmx := m\<rparr>))))
   | (have_kids, None) \<Rightarrow>
       if \<not> have_kids \<or> killed (ptab s me) then Inr (PRet (-1), s)
       else kbind (sleep (Some me) (CProc me) True s) (\<lambda>s. Inr (PSleep, s)))"

text \<open>
  \<open>join\<close>; the word at the user address \<open>stack\<close> is stored through the page tables of the process, with
  the fault of the model where no page is mapped.
\<close>

definition join :: "nat \<Rightarrow> u32 \<Rightarrow> kern \<Rightarrow> (pout \<times> kern) res" where
  "join me stack s =
     (if stack + 4 > psz (ptab s me) then Inr (PRet (-1), s)
      else case child_scan True me s [0..<NPROC] False of
     (_, Some p) \<Rightarrow>
       let n = pid (ptab s p) in
       kbind (kfree (kstack (ptab s p)) (kmx s)) (\<lambda>m.
       let s = upd_proc p (\<lambda>k. k\<lparr>kstack := 0\<rparr>) (s\<lparr>kmx := m\<rparr>) in
       kbind (copyout (pgdir (ptab s me)) stack (st32 (\<lambda>_. 0) 0 (pstack (ptab s p))) 4 (kmx s)) (\<lambda>(r, m).
       if r < 0 then Inl (Fault ''page fault'')
       else let s = clear_proc p (s\<lparr>kmx := m\<rparr>)
         in Inr (PRet n, upd_proc me (\<lambda>k. k\<lparr>count_thread := count_thread k - 1\<rparr>) s)))
   | (have_threads, None) \<Rightarrow>
       if \<not> have_threads \<or> killed (ptab s me) then Inr (PRet (-1), s)
       else kbind (sleep (Some me) (CProc me) True s) (\<lambda>s. Inr (PSleep, s)))"

section \<open>Condition variables\<close>

text \<open>
  \<open>cond_t\<close> with its queue of eight process pointers; \<open>lk\<close> is the flag of a \<open>lock_t\<close>. The loops on \<open>xchg\<close> are entered
  with the flag clear: a run in which they spin adds no other effect.
\<close>

record cond =
  thqueue :: "nat \<Rightarrow> nat"
  chead :: u32
  ctail :: u32
  cflag :: u32
  ccount :: u32

definition cond_init :: "cond \<Rightarrow> cond" where
  "cond_init c = c\<lparr>chead := 0, ctail := 0, cflag := 0, ccount := 0\<rparr>"

text \<open>\<open>cond_wait\<close> up to \<open>sched\<close>: the condition variable, the lock, and the process asleep.\<close>

definition cond_wait :: "nat \<Rightarrow> cond \<Rightarrow> u32 \<Rightarrow> kern \<Rightarrow> (cond \<times> u32 \<times> kern) res" where
  "cond_wait me c lk s =
     (if lk = 0 then Inl (Panic ''wait without lock'')
      else if ccount c = 8 then Inl (Panic ''cond_queue full'')
      else Inr (c\<lparr>thqueue := (thqueue c)(unat (ctail c) := me), ctail := (ctail c + 1) mod 8, ccount := ccount c + 1, cflag := 0\<rparr>,
        0, upd_proc me (\<lambda>k. k\<lparr>pstate := SLEEPING\<rparr>) s))"

definition cond_signal :: "cond \<Rightarrow> kern \<Rightarrow> cond \<times> kern" where
  "cond_signal c s =
     (if ccount c = 0 then (c\<lparr>cflag := 0\<rparr>, s)
      else (c\<lparr>chead := (chead c + 1) mod 8, ccount := ccount c - 1, cflag := 0\<rparr>,
        upd_proc (thqueue c (unat (chead c))) (\<lambda>k. k\<lparr>pstate := RUNNABLE\<rparr>) s))"

end
