(* ===== verification/Proctab.thy ===== *)
theory Proctab imports Proc
begin

text \<open>
  The process table over all runs of the process layer: \<open>ptable_ok\<close>, that its entries are well-formed and its parents
  are live processes, and \<open>wait_ok\<close>, that no process asleep in \<open>wait\<close> or \<open>join\<close> has missed a zombie. \<open>kern_run\<close> is
  the step relation, and the two properties at the end are proved by rule induction over it.
\<close>

section \<open>The process table\<close>

definition live :: "kern \<Rightarrow> nat \<Rightarrow> bool" where
  "live s p \<longleftrightarrow> p < NPROC \<and> pstate (ptab s p) \<noteq> UNUSED"

text \<open>A live process that is not a zombie.\<close>

definition alive :: "kern \<Rightarrow> nat \<Rightarrow> bool" where
  "alive s p \<longleftrightarrow> live s p \<and> pstate (ptab s p) \<noteq> ZOMBIE"

definition ptable_ok :: "kern \<Rightarrow> bool" where
  "ptable_ok s \<longleftrightarrow>
     (\<forall>p < NPROC. pstate (ptab s p) = UNUSED \<longleftrightarrow> kstack (ptab s p) = 0) \<and>
     (\<forall>p < NPROC. pstate (ptab s p) = UNUSED \<longrightarrow> parent (ptab s p) = None) \<and>
     (\<forall>p. live s p \<longrightarrow> 0 < pid (ptab s p) \<and> pid (ptab s p) < nextpid s) \<and>
     (\<forall>p q. live s p \<longrightarrow> live s q \<longrightarrow> pid (ptab s p) = pid (ptab s q) \<longrightarrow> p = q) \<and> 0 < nextpid s \<and>
     (\<forall>p q. live s p \<longrightarrow> parent (ptab s p) = Some q \<longrightarrow> q \<noteq> p \<and> alive s q) \<and>
     (\<exists>i. initproc s = Some i \<and> alive s i \<and> parent (ptab s i) = None)"

text \<open>
  The second invariant, over a record \<open>w\<close> of who last called \<open>wait\<close> or \<open>join\<close>: a process asleep in such a call
  has no zombie among the children that the call looks for.
\<close>

definition wait_ok :: "kern \<Rightarrow> (nat \<Rightarrow> bool option) \<Rightarrow> bool" where
  "wait_ok s w \<longleftrightarrow> (\<forall>p thr. w p = Some thr \<longrightarrow> pstate (ptab s p) = SLEEPING \<longrightarrow> pchan (ptab s p) = Some (CProc p) \<and>
     (\<forall>q < NPROC. child_of thr p s q \<longrightarrow> pstate (ptab s q) \<noteq> ZOMBIE))"

text \<open>Changes of the table that at most wake sleepers, as far as the invariants look.\<close>

definition quiet :: "kern \<Rightarrow> kern \<Rightarrow> bool" where
  "quiet s s' \<longleftrightarrow> nextpid s' = nextpid s \<and> initproc s' = initproc s \<and>
     (\<forall>p. let k = ptab s p; k' = ptab s' p in
       pid k' = pid k \<and> parent k' = parent k \<and> kstack k' = kstack k \<and> pgdir k' = pgdir k \<and> pchan k' = pchan k \<and>
       (pstate k' = pstate k \<or> pstate k = SLEEPING \<and> pstate k' = RUNNABLE))"

lemma quiet_refl [simp]: "quiet s s"
  by (simp add: quiet_def)

lemma quietD:
  assumes "quiet s s'"
  shows "nextpid s' = nextpid s" "initproc s' = initproc s" "pid (ptab s' p) = pid (ptab s p)"
    "parent (ptab s' p) = parent (ptab s p)" "kstack (ptab s' p) = kstack (ptab s p)" "pgdir (ptab s' p) = pgdir (ptab s p)"
    "pchan (ptab s' p) = pchan (ptab s p)"
    "pstate (ptab s' p) = pstate (ptab s p) \<or> pstate (ptab s p) = SLEEPING \<and> pstate (ptab s' p) = RUNNABLE"
    "live s' p = live s p" "alive s' p = alive s p" "child_of thr q s' p = child_of thr q s p"
proof -
  have q: "nextpid s' = nextpid s" "initproc s' = initproc s" "pid (ptab s' x) = pid (ptab s x)"
    "parent (ptab s' x) = parent (ptab s x)" "kstack (ptab s' x) = kstack (ptab s x)" "pgdir (ptab s' x) = pgdir (ptab s x)"
    "pchan (ptab s' x) = pchan (ptab s x)"
    "pstate (ptab s' x) = pstate (ptab s x) \<or> pstate (ptab s x) = SLEEPING \<and> pstate (ptab s' x) = RUNNABLE" for x
    using assms by (simp_all add: quiet_def Let_def)
  show "nextpid s' = nextpid s" "initproc s' = initproc s" "pid (ptab s' p) = pid (ptab s p)"
    "parent (ptab s' p) = parent (ptab s p)" "kstack (ptab s' p) = kstack (ptab s p)" "pgdir (ptab s' p) = pgdir (ptab s p)"
    "pchan (ptab s' p) = pchan (ptab s p)"
    "pstate (ptab s' p) = pstate (ptab s p) \<or> pstate (ptab s p) = SLEEPING \<and> pstate (ptab s' p) = RUNNABLE" by (fact q)+
  show "live s' p = live s p" "alive s' p = alive s p" using q(8) [of p] unfolding alive_def live_def by auto
  show "child_of thr q s' p = child_of thr q s p" unfolding child_of_def q(4,6) ..
qed

lemma quiet_trans:
  assumes "quiet s t" "quiet t u"
  shows "quiet s u"
  unfolding quiet_def Let_def
proof (intro conjI allI)
  fix p
  show "pstate (ptab u p) = pstate (ptab s p) \<or> pstate (ptab s p) = SLEEPING \<and> pstate (ptab u p) = RUNNABLE"
    using quietD(8) [OF assms(1), of p] quietD(8) [OF assms(2), of p] by auto
qed (simp_all add: quietD [OF assms(1)] quietD [OF assms(2)])

lemma quiet_ok:
  assumes "quiet s s'"
  shows "ptable_ok s \<Longrightarrow> ptable_ok s'" "wait_ok s w \<Longrightarrow> wait_ok s' w"
proof -
  note q = quietD [OF assms]
  have u: "pstate (ptab s' p) = UNUSED \<longleftrightarrow> pstate (ptab s p) = UNUSED" for p using q(8) [of p] by auto
  have z: "pstate (ptab s' p) = ZOMBIE \<longleftrightarrow> pstate (ptab s p) = ZOMBIE" for p using q(8) [of p] by auto
  have sl: "pstate (ptab s' p) = SLEEPING \<Longrightarrow> pstate (ptab s p) = SLEEPING" for p using q(8) [of p] by auto
  show "ptable_ok s \<Longrightarrow> ptable_ok s'" unfolding ptable_ok_def q u .
  show "wait_ok s w \<Longrightarrow> wait_ok s' w" unfolding wait_ok_def q z using sl by blast
qed

lemma quiet_wakeup1 [simp]: "quiet s (wakeup1 c s)"
  by (simp add: quiet_def wakeup1_def Let_def)

lemma quiet_deliver [simp]: "quiet s (deliver s)"
proof -
  have "quiet t (fold (\<lambda>(p, c). wakeup (Some (CPipe p c))) ws t)" for ws t
  proof (induction ws arbitrary: t)
    case (Cons w ws)
    obtain p c where w: "w = (p, c)" by (rule prod.exhaust)
    have "quiet t (wakeup (Some (CPipe p c)) t)" by (simp add: wakeup_def)
    from quiet_trans [OF this Cons.IH] show ?case by (simp add: w)
  qed simp
  from this [of "s\<lparr>wakes := []\<rparr>" "wakes s"] show ?thesis
    unfolding deliver_def by (rule quiet_trans [rotated]) (simp add: quiet_def)
qed

text \<open>Operations of the layers below do not touch the table.\<close>

lemma quiet_below [simp]:
  "quiet s (s'\<lparr>kmx := m\<rparr>) = quiet s s'" "quiet s (s'\<lparr>fsx := x\<rparr>) = quiet s s'" "quiet s (s'\<lparr>pipes := g\<rparr>) = quiet s s'"
  "quiet s (s'\<lparr>ftable := t\<rparr>) = quiet s s'" "quiet s (s'\<lparr>wakes := v\<rparr>) = quiet s s'"
  by (simp_all add: quiet_def)

lemma quiet_upd:
  assumes "pid (f (ptab s p)) = pid (ptab s p)" "parent (f (ptab s p)) = parent (ptab s p)" "kstack (f (ptab s p)) = kstack (ptab s p)"
    "pgdir (f (ptab s p)) = pgdir (ptab s p)" "pchan (f (ptab s p)) = pchan (ptab s p)"
    "pstate (f (ptab s p)) = pstate (ptab s p) \<or> pstate (ptab s p) = SLEEPING \<and> pstate (f (ptab s p)) = RUNNABLE"
  shows "quiet s (upd_proc p f s)"
  unfolding quiet_def Let_def
proof (intro conjI allI)
  fix q show "pstate (ptab (upd_proc p f s) q) = pstate (ptab s q) \<or>
      pstate (ptab s q) = SLEEPING \<and> pstate (ptab (upd_proc p f s) q) = RUNNABLE"
    using assms(6) by (cases "q = p") simp_all
qed (use assms in simp_all)

lemma filedup_quiet: "filedup f s = Inr (r, s') \<Longrightarrow> quiet s s'"
  by (auto simp: filedup_def split: if_splits)

lemma close_pipe_quiet: "close_pipe p v s = Inr s' \<Longrightarrow> quiet s s'"
  by (auto simp: close_pipe_def Let_def kbind_Inr_iff split: if_splits prod.splits)

lemma fileclose_quiet:
  assumes "fileclose f s = Inr s'"
  shows "quiet s s'"
proof (cases "ftype (ftable s f)")
  case FD_PIPE
  then show ?thesis
    using assms close_pipe_quiet [of _ _ "upd_file f (\<lambda>k. k\<lparr>fref := 0, ftype := FD_NONE\<rparr>) s" s']
    by (auto simp: fileclose_def Let_def quiet_def split: if_splits)
qed (use assms in \<open>auto simp: fileclose_def Let_def kbind_Inr_iff split: if_splits\<close>)

lemma dup_files_quiet: "dup_files me np fds s = Inr s' \<Longrightarrow> quiet s s'"
proof (induction fds arbitrary: s)
  case (Cons fd fds)
  show ?case
  proof (cases "ofile (ptab s me) fd")
    case (Some f)
    obtain s1 where s1: "filedup f s = Inr (f, s1)"
      "dup_files me np fds (upd_proc np (\<lambda>k. k\<lparr>ofile := (ofile k)(fd := Some f)\<rparr>) s1) = Inr s'"
      using Cons.prems Some by (auto simp: kbind_Inr_iff filedup_def split: if_splits)
    have "quiet s1 (upd_proc np (\<lambda>k. k\<lparr>ofile := (ofile k)(fd := Some f)\<rparr>) s1)" by (rule quiet_upd) simp_all
    then show ?thesis using filedup_quiet [OF s1(1)] Cons.IH [OF s1(2)] quiet_trans by blast
  qed (use Cons in simp)
qed simp

lemma dup_cwd_quiet: "dup_cwd me np s = Inr s' \<Longrightarrow> quiet s s'"
proof -
  assume "dup_cwd me np s = Inr s'"
  then obtain ip x where "s' = upd_proc np (\<lambda>k. k\<lparr>cwd := Some ip\<rparr>) (s\<lparr>fsx := x\<rparr>)"
    by (auto simp: dup_cwd_def idup_def Let_def split: option.splits)
  then show ?thesis using quiet_upd [of "\<lambda>k. k\<lparr>cwd := Some ip\<rparr>" "s\<lparr>fsx := x\<rparr>" np] by (simp add: quiet_def)
qed

lemma close_files_quiet: "close_files me fds s = Inr s' \<Longrightarrow> quiet s s'"
proof (induction fds arbitrary: s)
  case (Cons fd fds)
  show ?case
  proof (cases "ofile (ptab s me) fd")
    case (Some f)
    obtain s1 where s1: "fileclose f s = Inr s1"
      "close_files me fds (upd_proc me (\<lambda>k. k\<lparr>ofile := (ofile k)(fd := None)\<rparr>) s1) = Inr s'"
      using Cons.prems Some by (auto simp: kbind_Inr_iff)
    have "quiet s1 (upd_proc me (\<lambda>k. k\<lparr>ofile := (ofile k)(fd := None)\<rparr>) s1)" by (rule quiet_upd) simp_all
    then show ?thesis using fileclose_quiet [OF s1(1)] Cons.IH [OF s1(2)] quiet_trans by blast
  qed (use Cons in simp)
qed simp

lemma ptable_parent: "ptable_ok s \<Longrightarrow> live s p \<Longrightarrow> parent (ptab s p) = Some q \<Longrightarrow> q \<noteq> p \<and> alive s q"
  by (simp add: ptable_ok_def)

lemma ptable_init:
  assumes "ptable_ok s" obtains i where "initproc s = Some i" "alive s i" "parent (ptab s i) = None"
  using assms by (auto simp: ptable_ok_def)

text \<open>A change of one live process.\<close>

lemma ptable_upd:
  assumes "ptable_ok s" "live s p" "pid (f (ptab s p)) = pid (ptab s p)" "kstack (f (ptab s p)) = kstack (ptab s p)"
    and "pstate (f (ptab s p)) \<noteq> UNUSED"
    and "\<And>q. parent (f (ptab s p)) = Some q \<Longrightarrow> q \<noteq> p \<and> alive s q \<and> initproc s \<noteq> Some p"
    and "pstate (f (ptab s p)) = ZOMBIE \<Longrightarrow> initproc s \<noteq> Some p \<and> parent (f (ptab s p)) \<noteq> Some p \<and>
      (\<forall>q. live s q \<longrightarrow> parent (ptab s q) \<noteq> Some p)"
  shows "ptable_ok (upd_proc p f s)"
proof -
  let ?s = "upd_proc p f s"
  note ok = assms(1) [unfolded ptable_ok_def]
  have l: "live ?s q = live s q" for q using assms(2,5) by (auto simp: live_def)
  have pd: "pid (ptab ?s q) = pid (ptab s q)" "kstack (ptab ?s q) = kstack (ptab s q)" for q using assms(3,4) by simp_all
  have u: "pstate (ptab ?s q) = UNUSED \<longleftrightarrow> pstate (ptab s q) = UNUSED" if "q < NPROC" for q
    using assms(2,5) by (auto simp: live_def)
  have al: "alive ?s q" if "alive s q" "q = p \<longrightarrow> pstate (f (ptab s p)) \<noteq> ZOMBIE" for q
    using that unfolding alive_def l by auto
  show ?thesis unfolding ptable_ok_def l pd
  proof (intro conjI)
    show "\<forall>q < NPROC. (pstate (ptab ?s q) = UNUSED) = (kstack (ptab s q) = 0)" using ok u by auto
    show "\<forall>q < NPROC. pstate (ptab ?s q) = UNUSED \<longrightarrow> parent (ptab ?s q) = None"
    proof (intro allI impI)
      fix q assume q: "q < NPROC" "pstate (ptab ?s q) = UNUSED"
      then have "q \<noteq> p" using assms(5) by auto
      then show "parent (ptab ?s q) = None" using ok q by simp
    qed
    show "\<forall>q. live s q \<longrightarrow> 0 < pid (ptab s q) \<and> pid (ptab s q) < nextpid ?s" using ok by simp
    show "\<forall>p q. live s p \<longrightarrow> live s q \<longrightarrow> pid (ptab s p) = pid (ptab s q) \<longrightarrow> p = q" using ok by blast
    show "0 < nextpid ?s" using ok by simp
    obtain i where i: "initproc s = Some i" "alive s i" "parent (ptab s i) = None" using ptable_init [OF assms(1)] .
    moreover have "parent (ptab ?s i) = None" using i assms(6) by (cases "parent (f (ptab s p))") auto
    moreover have "alive ?s i" using i(1) assms(7) by (intro al i(2)) auto
    ultimately show "\<exists>i. initproc ?s = Some i \<and> alive ?s i \<and> parent (ptab ?s i) = None" by simp
    show "\<forall>x q. live s x \<longrightarrow> parent (ptab ?s x) = Some q \<longrightarrow> q \<noteq> x \<and> alive ?s q"
    proof (intro allI impI)
      fix x q assume x: "live s x" "parent (ptab ?s x) = Some q"
      then have "q \<noteq> x \<and> alive s q" using ok assms(6) by (cases "x = p") auto
      moreover have "pstate (f (ptab s p)) \<noteq> ZOMBIE" if "q = p" using x assms(7) that by (cases "x = p") auto
      ultimately show "q \<noteq> x \<and> alive ?s q" using al by blast
    qed
  qed
qed

lemma allocproc_cases:
  assumes "ptable_ok s" "wait_ok s w" "allocproc L s = (r, s')"
  shows "case r of None \<Rightarrow> ptable_ok s' \<and> wait_ok s' w
    | Some np \<Rightarrow> np < NPROC \<and> pstate (ptab s np) = UNUSED \<and> pstate (ptab s' np) = EMBRYO \<and> (\<forall>p. p \<noteq> np \<longrightarrow> ptab s' p = ptab s p) \<and>
        pid (ptab s' np) = nextpid s \<and> parent (ptab s' np) = None \<and> initproc s' = initproc s \<and> ptable_ok s' \<and> wait_ok s' w"
proof (cases "find (\<lambda>p. pstate (ptab s p) = UNUSED) [0..<NPROC]")
  case None
  then show ?thesis using assms by (simp add: allocproc_def)
next
  case (Some np)
  then have np: "np < NPROC" "pstate (ptab s np) = UNUSED" by (auto simp: find_Some_iff)
  obtain v m where v: "kalloc (kmx s) = (v, m)" by (rule prod.exhaust)
  note ok = assms(1) [unfolded ptable_ok_def]
  have ks: "kstack (ptab s np) = 0" "parent (ptab s np) = None" using ok np by auto
  have s': "initproc s' = initproc s" "nextpid s' = nextpid s + 1" "p \<noteq> np \<Longrightarrow> ptab s' p = ptab s p"
    "pid (ptab s' np) = nextpid s" "kstack (ptab s' np) = v" "pstate (ptab s' np) = (if v = 0 then UNUSED else EMBRYO)"
    "parent (ptab s' np) = None" "r = (if v = 0 then None else Some np)" for p
    using assms(3) Some v ks by (auto simp: allocproc_def Let_def split: if_splits)
  have l: "live s' p = (live s p \<or> v \<noteq> 0 \<and> p = np)" for p
    using np s'(3) [of p] s'(6) by (cases "p = np") (auto simp: live_def)
  have nl: "\<not> live s np" using np by (simp add: live_def)
  have al: "alive s' p" if "alive s p" for p
  proof -
    have "p \<noteq> np" using that nl by (auto simp: alive_def)
    from s'(3) [OF this] show ?thesis using that l by (simp add: alive_def)
  qed
  have "ptable_ok s'" unfolding ptable_ok_def l
  proof (intro conjI)
    show "\<forall>p < NPROC. (pstate (ptab s' p) = UNUSED) = (kstack (ptab s' p) = 0)" using ok s'(3,5,6) by (metis procstate.distinct(1))
    show "\<forall>p < NPROC. pstate (ptab s' p) = UNUSED \<longrightarrow> parent (ptab s' p) = None" using ok s'(3,7) by metis
    show "\<forall>p. live s p \<or> v \<noteq> 0 \<and> p = np \<longrightarrow> 0 < pid (ptab s' p) \<and> pid (ptab s' p) < nextpid s'"
      using ok s'(2,3,4) nl by (metis less_add_one add.commute less_trans zero_less_one)
    show "\<forall>p q. live s p \<or> v \<noteq> 0 \<and> p = np \<longrightarrow> live s q \<or> v \<noteq> 0 \<and> q = np \<longrightarrow> pid (ptab s' p) = pid (ptab s' q) \<longrightarrow> p = q"
      using ok s'(3,4) nl by (metis less_irrefl)
    show "0 < nextpid s'" using ok s'(2) by simp
    show "\<forall>p q. live s p \<or> v \<noteq> 0 \<and> p = np \<longrightarrow> parent (ptab s' p) = Some q \<longrightarrow> q \<noteq> p \<and> alive s' q"
      using ok s'(3,7) al nl by (metis option.distinct(1))
    show "\<exists>i. initproc s' = Some i \<and> alive s' i \<and> parent (ptab s' i) = None" using ok s'(1,3,7) al by metis
  qed
  moreover have "wait_ok s' w" unfolding wait_ok_def
  proof (intro allI impI)
    fix p thr assume p: "w p = Some thr" "pstate (ptab s' p) = SLEEPING"
    then have "p \<noteq> np" using s'(6) by (auto split: if_splits)
    then have e: "ptab s' p = ptab s p" by (rule s'(3))
    have wo: "pchan (ptab s p) = Some (CProc p)" "\<forall>q < NPROC. child_of thr p s q \<longrightarrow> pstate (ptab s q) \<noteq> ZOMBIE"
      using assms(2) p unfolding wait_ok_def e by blast+
    moreover have "pstate (ptab s' q) \<noteq> ZOMBIE" if "q < NPROC" "child_of thr p s' q" for q
    proof (cases "q = np")
      case True
      then show ?thesis using s'(6) by auto
    next
      case False
      then show ?thesis using wo(2) that s'(3) [OF False] e by (auto simp: child_of_def)
    qed
    ultimately show "pchan (ptab s' p) = Some (CProc p) \<and> (\<forall>q < NPROC. child_of thr p s' q \<longrightarrow> pstate (ptab s' q) \<noteq> ZOMBIE)"
      unfolding e by blast
  qed
  ultimately show ?thesis using s' np by (auto split: if_splits)
qed

text \<open>A change of a process that is not asleep, neither before nor after, and not a zombie after.\<close>

lemma wait_upd:
  assumes "wait_ok s w" "pstate (f (ptab s p)) \<noteq> ZOMBIE"
    and "pstate (f (ptab s p)) \<noteq> SLEEPING"
  shows "wait_ok (upd_proc p f s) w"
  using assms unfolding wait_ok_def child_of_def by auto

text \<open>Ending a sleep or changing what the invariants do not look at.\<close>

lemma wait_forget: "wait_ok s w \<Longrightarrow> wait_ok s (w(p := None))"
  by (auto simp: wait_ok_def)

text \<open>One step of \<open>pass_children\<close>.\<close>

lemma adopt_ok:
  assumes "ptable_ok s" "wait_ok s w" "live s p" "parent (ptab s p) = Some me"
  defines "t \<equiv> upd_proc p (\<lambda>k. k\<lparr>parent := initproc s\<rparr>) s"
  defines "s' \<equiv> (if pstate (ptab t p) = ZOMBIE then wakeup1 (map_option CProc (initproc t)) t else t)"
  shows "ptable_ok s'" "wait_ok s' w" "parent (ptab s' q) = (if q = p then initproc s else parent (ptab s q))"
    "initproc s' = initproc s" "live s' q = live s q"
    "pstate (ptab s' q) = pstate (ptab s q) \<or> pstate (ptab s q) = SLEEPING \<and> pstate (ptab s' q) = RUNNABLE"
    "pgdir (ptab s' q) = pgdir (ptab s q)"
proof -
  obtain i where i: "initproc s = Some i" "alive s i" "parent (ptab s i) = None" using ptable_init [OF assms(1)] .
  have pi: "p \<noteq> i" using i(3) assms(4) by auto
  have pz: "pstate (ptab s p) = ZOMBIE \<Longrightarrow> initproc s \<noteq> Some p \<and> (\<forall>q. live s q \<longrightarrow> parent (ptab s q) \<noteq> Some p)"
    using ptable_parent [OF assms(1)] i by (auto simp: alive_def)
  have "ptable_ok t" unfolding t_def
  proof (rule ptable_upd [OF assms(1,3)])
    show "q \<noteq> p \<and> alive s q \<and> initproc s \<noteq> Some p" if "parent ((ptab s p)\<lparr>parent := initproc s\<rparr>) = Some q" for q
      using that i pi by auto
    show "initproc s \<noteq> Some p \<and> parent ((ptab s p)\<lparr>parent := initproc s\<rparr>) \<noteq> Some p \<and> (\<forall>q. live s q \<longrightarrow> parent (ptab s q) \<noteq> Some p)"
      if "pstate ((ptab s p)\<lparr>parent := initproc s\<rparr>) = ZOMBIE"
      using pz that i pi by auto
  qed (use assms(3) in \<open>simp_all add: live_def\<close>)
  moreover have qt: "quiet t s'" unfolding s'_def by simp
  ultimately show "ptable_ok s'" by (rule quiet_ok(1) [rotated])
  note q = quietD [OF qt]
  show "parent (ptab s' q) = (if q = p then initproc s else parent (ptab s q))" unfolding q(4) by (simp add: t_def)
  show "initproc s' = initproc s" unfolding q(2) by (simp add: t_def)
  show "live s' q = live s q" unfolding q(9) by (simp add: t_def live_def)
  show "pstate (ptab s' q) = pstate (ptab s q) \<or> pstate (ptab s q) = SLEEPING \<and> pstate (ptab s' q) = RUNNABLE"
    using q(8) [of q] by (auto simp: t_def split: if_splits)
  show "pgdir (ptab s' q) = pgdir (ptab s q)" unfolding q(6) by (simp add: t_def)
  have st: "pstate (ptab t x) = pstate (ptab s x)" "pchan (ptab t x) = pchan (ptab s x)" "pgdir (ptab t x) = pgdir (ptab s x)" for x
    by (simp_all add: t_def)
  show "wait_ok s' w" unfolding wait_ok_def
  proof (intro allI impI)
    fix x thr assume x: "w x = Some thr" "pstate (ptab s' x) = SLEEPING"
    then have sx: "pstate (ptab s x) = SLEEPING" using q(8) [of x] unfolding st by auto
    have wo: "pchan (ptab s x) = Some (CProc x)" "\<forall>q < NPROC. child_of thr x s q \<longrightarrow> pstate (ptab s q) \<noteq> ZOMBIE"
      using assms(2) x(1) sx unfolding wait_ok_def by blast+
    have nz: "pstate (ptab s' y) \<noteq> ZOMBIE" if y: "y < NPROC" "child_of thr x s' y" for y
    proof
      assume z: "pstate (ptab s' y) = ZOMBIE"
      then have zy: "pstate (ptab s y) = ZOMBIE" using q(8) [of y] unfolding st by auto
      have c: "child_of thr x t y" using y(2) unfolding q(11) .
      show False
      proof (cases "y = p")
        case False
        then have "child_of thr x s y" using c unfolding child_of_def st by (simp add: t_def)
        then show False using wo(2) y(1) zy by blast
      next
        case True
        then have "x = i" using c i(1) by (simp add: child_of_def t_def)
        have "x < NPROC" using i(2) \<open>x = i\<close> by (simp add: alive_def live_def)
        have "s' = wakeup1 (Some (CProc x)) t"
          using zy True i(1) \<open>x = i\<close> unfolding s'_def st by (simp add: t_def)
        then have "pstate (ptab s' x) \<noteq> SLEEPING" using \<open>x < NPROC\<close> wo(1) sx st by (auto simp: wakeup1_def)
        then show False using x(2) by simp
      qed
    qed
    show "pchan (ptab s' x) = Some (CProc x) \<and> (\<forall>q < NPROC. child_of thr x s' q \<longrightarrow> pstate (ptab s' q) \<noteq> ZOMBIE)"
      using wo(1) nz unfolding q(7) st by blast
  qed
qed

definition proc_inv :: "kern \<Rightarrow> (nat \<Rightarrow> bool option) \<Rightarrow> bool" where
  "proc_inv s w \<longleftrightarrow> ptable_ok s \<and> wait_ok s w"

lemma inv_quiet: "quiet s s' \<Longrightarrow> proc_inv s w \<Longrightarrow> proc_inv s' w"
  using quiet_ok by (auto simp: proc_inv_def)

lemma inv_upd:
  assumes "proc_inv s w" "live s p" "pid (f (ptab s p)) = pid (ptab s p)" "kstack (f (ptab s p)) = kstack (ptab s p)"
    and "pstate (f (ptab s p)) \<notin> {UNUSED, ZOMBIE, SLEEPING}"
    and "parent (f (ptab s p)) = parent (ptab s p) \<or>
      (\<exists>q. parent (f (ptab s p)) = Some q \<and> q \<noteq> p \<and> alive s q \<and> initproc s \<noteq> Some p)"
  shows "proc_inv (upd_proc p f s) w"
proof -
  have i: "ptable_ok s" "wait_ok s w" using assms(1) by (simp_all add: proc_inv_def)
  have init: "initproc s \<noteq> Some p" if "parent (ptab s p) = Some q" for q using ptable_init [OF i(1)] that by force
  have "q \<noteq> p \<and> alive s q \<and> initproc s \<noteq> Some p" if "parent (f (ptab s p)) = Some q" for q
  proof (cases "parent (f (ptab s p)) = parent (ptab s p)")
    case True
    then show ?thesis using that ptable_parent [OF i(1) assms(2), of q] init [of q] by simp
  next
    case False
    then show ?thesis using that assms(6) by auto
  qed
  then have "ptable_ok (upd_proc p f s)" using assms(3-5) by (intro ptable_upd [OF i(1) assms(2)]) auto
  moreover have "wait_ok (upd_proc p f s) w" using assms(5) by (intro wait_upd [OF i(2)]) auto
  ultimately show ?thesis by (simp add: proc_inv_def)
qed

text \<open>Freeing a slot that is nobody's parent.\<close>

lemma inv_free:
  assumes "proc_inv s w" "live s p" "initproc s \<noteq> Some p" "\<And>q. live s q \<Longrightarrow> parent (ptab s q) \<noteq> Some p"
    and "pstate (f (ptab s p)) = UNUSED" "kstack (f (ptab s p)) = 0" "parent (f (ptab s p)) = None"
  shows "proc_inv (upd_proc p f s) w"
proof -
  let ?s = "upd_proc p f s"
  have i: "ptable_ok s" "wait_ok s w" using assms(1) by (simp_all add: proc_inv_def)
  note ok = i(1) [unfolded ptable_ok_def]
  have l: "live ?s q \<longleftrightarrow> live s q \<and> q \<noteq> p" for q using assms(5) by (auto simp: live_def)
  have al: "alive ?s q \<longleftrightarrow> alive s q \<and> q \<noteq> p" for q using l by (auto simp: alive_def)
  obtain j where j: "initproc s = Some j" "alive s j" "parent (ptab s j) = None" using ptable_init [OF i(1)] .
  have "ptable_ok ?s" unfolding ptable_ok_def l al
  proof (intro conjI)
    show "\<forall>q < NPROC. (pstate (ptab ?s q) = UNUSED) = (kstack (ptab ?s q) = 0)" using ok assms(5,6) by simp
    show "\<forall>q < NPROC. pstate (ptab ?s q) = UNUSED \<longrightarrow> parent (ptab ?s q) = None" using ok assms(5,7) by simp
    show "\<forall>q. live s q \<and> q \<noteq> p \<longrightarrow> 0 < pid (ptab ?s q) \<and> pid (ptab ?s q) < nextpid ?s" using ok by simp
    show "\<forall>x q. live s x \<and> x \<noteq> p \<longrightarrow> live s q \<and> q \<noteq> p \<longrightarrow> pid (ptab ?s x) = pid (ptab ?s q) \<longrightarrow> x = q" using ok by simp
    show "0 < nextpid ?s" using ok by simp
    show "\<forall>x q. live s x \<and> x \<noteq> p \<longrightarrow> parent (ptab ?s x) = Some q \<longrightarrow> q \<noteq> x \<and> alive s q \<and> q \<noteq> p"
      using ptable_parent [OF i(1)] assms(4) by auto
    show "\<exists>i. initproc ?s = Some i \<and> (alive s i \<and> i \<noteq> p) \<and> parent (ptab ?s i) = None"
      using j assms(3) by (intro exI [of _ j]) auto
  qed
  moreover have "wait_ok ?s w" using assms(5) by (intro wait_upd [OF i(2)]) auto
  ultimately show ?thesis by (simp add: proc_inv_def)
qed

text \<open>Going to sleep: in a wait, when no zombie child of the kind is there, or on anything else.\<close>

lemma inv_sleep:
  assumes "proc_inv s w" "alive s me"
    and "\<And>k. pid (f k) = pid k \<and> kstack (f k) = kstack k \<and> parent (f k) = parent k \<and> pgdir (f k) = pgdir k \<and> pstate (f k) = SLEEPING"
    and "thr = None \<or> pchan (f (ptab s me)) = Some (CProc me) \<and>
      (\<forall>q < NPROC. child_of (the thr) me s q \<longrightarrow> pstate (ptab s q) \<noteq> ZOMBIE)"
  shows "proc_inv (upd_proc me f s) (w(me := thr))"
proof -
  have i: "ptable_ok s" "wait_ok s w" using assms(1) by (simp_all add: proc_inv_def)
  have lm: "live s me" using assms(2) by (simp add: alive_def)
  have ni: "initproc s \<noteq> Some me" if "parent (ptab s me) = Some q" for q using ptable_init [OF i(1)] that by force
  have "ptable_ok (upd_proc me f s)"
    using assms(3) ptable_parent [OF i(1) lm] ni by (intro ptable_upd [OF i(1) lm]) auto
  moreover have "wait_ok (upd_proc me f s) (w(me := thr))"
  proof -
    have c: "child_of b p (upd_proc me f s) q = child_of b p s q" for b p q
      unfolding child_of_def using assms(3) by simp
    have z: "pstate (ptab (upd_proc me f s) q) = ZOMBIE \<Longrightarrow> pstate (ptab s q) = ZOMBIE" for q
      using assms(3) by (auto split: if_splits)
    show ?thesis unfolding wait_ok_def c
    proof (intro allI impI)
      fix p b assume p: "(w(me := thr)) p = Some b" "pstate (ptab (upd_proc me f s) p) = SLEEPING"
      show "pchan (ptab (upd_proc me f s) p) = Some (CProc p) \<and>
          (\<forall>q < NPROC. child_of b p s q \<longrightarrow> pstate (ptab (upd_proc me f s) q) \<noteq> ZOMBIE)"
      proof (cases "p = me")
        case True
        then show ?thesis using p(1) assms(4) z by auto
      next
        case False
        then have "pchan (ptab s p) = Some (CProc p)" "\<forall>q < NPROC. child_of b p s q \<longrightarrow> pstate (ptab s q) \<noteq> ZOMBIE"
          using p i(2) unfolding wait_ok_def by auto
        then show ?thesis using False z by auto
      qed
    qed
  qed
  ultimately show ?thesis by (simp add: proc_inv_def)
qed

lemma child_scan_None:
  "child_scan thr me s ps h = (h', None) \<Longrightarrow> p \<in> set ps \<Longrightarrow> child_of thr me s p \<Longrightarrow> pstate (ptab s p) \<noteq> ZOMBIE"
  by (induction ps arbitrary: h) (auto split: if_splits)

lemma child_scan_Some:
  "child_scan thr me s ps h = (h', Some p) \<Longrightarrow> p \<in> set ps \<and> child_of thr me s p \<and> pstate (ptab s p) = ZOMBIE"
  by (induction ps arbitrary: h) (auto split: if_splits)

text \<open>Reaping a zombie child.\<close>

lemma inv_reap:
  assumes "proc_inv s w" "p < NPROC" "pstate (ptab s p) = ZOMBIE"
  shows "proc_inv (clear_proc p ((upd_proc p (\<lambda>k. k\<lparr>kstack := 0\<rparr>) (s\<lparr>kmx := m\<rparr>))\<lparr>kmx := m'\<rparr>)) w"
proof -
  define F where "F = (\<lambda>k :: proc. k\<lparr>kstack := 0, pstate := UNUSED, pid := 0, parent := None, pname := (pname k)(0 := 0), killed := False\<rparr>)"
  have "clear_proc p ((upd_proc p (\<lambda>k. k\<lparr>kstack := 0\<rparr>) (s\<lparr>kmx := m\<rparr>))\<lparr>kmx := m'\<rparr>) = upd_proc p F (s\<lparr>kmx := m'\<rparr>)"
    by (simp add: clear_proc_def F_def)
  moreover have k: "proc_inv (s\<lparr>kmx := m'\<rparr>) w" by (rule inv_quiet [OF _ assms(1)]) (simp add: quiet_def)
  then have ok: "ptable_ok (s\<lparr>kmx := m'\<rparr>)" by (simp add: proc_inv_def)
  have z: "\<not> alive (s\<lparr>kmx := m'\<rparr>) p" "live (s\<lparr>kmx := m'\<rparr>) p" using assms(2,3) by (simp_all add: alive_def live_def)
  have "proc_inv (upd_proc p F (s\<lparr>kmx := m'\<rparr>)) w"
  proof (rule inv_free [OF k z(2)])
    show "initproc (s\<lparr>kmx := m'\<rparr>) \<noteq> Some p" using ptable_init [OF ok] z(1) by (metis option.inject)
    show "parent (ptab (s\<lparr>kmx := m'\<rparr>) q) \<noteq> Some p" if "live (s\<lparr>kmx := m'\<rparr>) q" for q
      using ptable_parent [OF ok that] z(1) by blast
  qed (simp_all add: F_def)
  ultimately show ?thesis by simp
qed

lemma wait_inv:
  assumes "proc_inv s w" "alive s me" "wait me s = Inr (r, s')"
  shows "proc_inv s' (w(me := if r = PSleep then Some False else None))"
proof (cases "child_scan False me s [0..<NPROC] False")
  case (Pair h r')
  show ?thesis
  proof (cases r')
    case (Some p)
    then have p: "p < NPROC" "pstate (ptab s p) = ZOMBIE" using child_scan_Some [of False me s "[0..<NPROC]" False h p] Pair by auto
    obtain m m' where "s' = clear_proc p ((upd_proc p (\<lambda>k. k\<lparr>kstack := 0\<rparr>) (s\<lparr>kmx := m\<rparr>))\<lparr>kmx := m'\<rparr>)" "r \<noteq> PSleep"
      using assms(3) Pair Some by (auto simp: wait_def kbind_Inr_iff Let_def simp del: upt_Suc)
    then show ?thesis using inv_reap [OF assms(1) p] wait_forget by (simp add: proc_inv_def)
  next
    case None
    have nz: "\<forall>q < NPROC. child_of False me s q \<longrightarrow> pstate (ptab s q) \<noteq> ZOMBIE"
      using child_scan_None [of False me s "[0..<NPROC]" False h] Pair None by auto
    show ?thesis
    proof (cases "\<not> h \<or> killed (ptab s me)")
      case True
      then have "r = PRet (-1)" "s' = s" using assms(3) Pair None by (simp_all add: wait_def del: upt_Suc)
      then show ?thesis using assms(1) wait_forget by (simp add: proc_inv_def)
    next
      case False
      then have "r = PSleep" "s' = upd_proc me (\<lambda>k. k\<lparr>pchan := Some (CProc me), pstate := SLEEPING\<rparr>) s"
        using assms(3) Pair None by (auto simp: wait_def sleep_def simp del: upt_Suc)
      then show ?thesis
        using inv_sleep [OF assms(1,2), of "\<lambda>k. k\<lparr>pchan := Some (CProc me), pstate := SLEEPING\<rparr>" "Some False"] nz by simp
    qed
  qed
qed

lemma join_inv:
  assumes "proc_inv s w" "alive s me" "join me st s = Inr (r, s')"
  shows "proc_inv s' (w(me := if r = PSleep then Some True else None))"
proof (cases "st + 4 > psz (ptab s me)")
  case True
  then have "r = PRet (-1)" "s' = s" using assms(3) by (simp_all add: join_def)
  then show ?thesis using assms(1) wait_forget by (simp add: proc_inv_def)
next
  case range: False
  show ?thesis
  proof (cases "child_scan True me s [0..<NPROC] False")
    case (Pair h r')
    show ?thesis
    proof (cases r')
      case (Some p)
      then have p: "p < NPROC" "pstate (ptab s p) = ZOMBIE" using child_scan_Some [of True me s "[0..<NPROC]" False h p] Pair by auto
      obtain m m' where c: "s' = upd_proc me (\<lambda>k. k\<lparr>count_thread := count_thread k - 1\<rparr>)
          (clear_proc p ((upd_proc p (\<lambda>k. k\<lparr>kstack := 0\<rparr>) (s\<lparr>kmx := m\<rparr>))\<lparr>kmx := m'\<rparr>))" "r \<noteq> PSleep"
        using assms(3) range Pair Some by (auto simp: join_def kbind_Inr_iff Let_def simp del: upt_Suc split: if_splits)
      have "quiet t (upd_proc me (\<lambda>k. k\<lparr>count_thread := count_thread k - 1\<rparr>) t)" for t by (rule quiet_upd) simp_all
      from inv_quiet [OF this inv_reap [OF assms(1) p]] show ?thesis using c wait_forget by (simp add: proc_inv_def)
    next
      case None
      have nz: "\<forall>q < NPROC. child_of True me s q \<longrightarrow> pstate (ptab s q) \<noteq> ZOMBIE"
        using child_scan_None [of True me s "[0..<NPROC]" False h] Pair None by auto
      show ?thesis
      proof (cases "\<not> h \<or> killed (ptab s me)")
        case True
        then have "r = PRet (-1)" "s' = s" using assms(3) range Pair None by (simp_all add: join_def del: upt_Suc)
        then show ?thesis using assms(1) wait_forget by (simp add: proc_inv_def)
      next
        case False
        then have "r = PSleep" "s' = upd_proc me (\<lambda>k. k\<lparr>pchan := Some (CProc me), pstate := SLEEPING\<rparr>) s"
          using assms(3) range Pair None by (auto simp: join_def sleep_def simp del: upt_Suc)
        then show ?thesis
          using inv_sleep [OF assms(1,2), of "\<lambda>k. k\<lparr>pchan := Some (CProc me), pstate := SLEEPING\<rparr>" "Some True"] nz by simp
      qed
    qed
  qed
qed

lemma allocproc_inv:
  assumes "proc_inv s w" "allocproc L s = (r, s')"
  shows "proc_inv s' w" "r = Some np \<Longrightarrow> live s' np \<and> pstate (ptab s' np) = EMBRYO \<and> pid (ptab s' np) = nextpid s \<and>
      parent (ptab s' np) = None \<and> initproc s' = initproc s \<and> (\<forall>p. p \<noteq> np \<longrightarrow> ptab s' p = ptab s p) \<and>
      pstate (ptab s np) = UNUSED \<and> initproc s \<noteq> Some np \<and> (\<forall>q. live s' q \<longrightarrow> parent (ptab s' q) \<noteq> Some np)"
proof -
  have i: "ptable_ok s" "wait_ok s w" using assms(1) by (simp_all add: proc_inv_def)
  note c = allocproc_cases [OF i assms(2)]
  show "proc_inv s' w" using c by (simp add: proc_inv_def split: option.splits)
  assume r: "r = Some np"
  then have n: "np < NPROC" "pstate (ptab s np) = UNUSED" "pstate (ptab s' np) = EMBRYO" "\<forall>p. p \<noteq> np \<longrightarrow> ptab s' p = ptab s p"
    "pid (ptab s' np) = nextpid s" "parent (ptab s' np) = None" "initproc s' = initproc s" "ptable_ok s'" using c by auto
  have "\<not> alive s np" using n(2) by (simp add: alive_def live_def)
  then have "initproc s \<noteq> Some np" using ptable_init [OF i(1)] by (metis option.inject)
  moreover have "parent (ptab s' q) \<noteq> Some np" if "live s' q" for q
  proof (cases "q = np")
    case False
    then have "live s q" "ptab s' q = ptab s q" using that n(4) by (simp_all add: live_def)
    then show ?thesis using ptable_parent [OF i(1)] \<open>\<not> alive s np\<close> by metis
  qed (use n in simp)
  ultimately show "live s' np \<and> pstate (ptab s' np) = EMBRYO \<and> pid (ptab s' np) = nextpid s \<and>
      parent (ptab s' np) = None \<and> initproc s' = initproc s \<and> (\<forall>p. p \<noteq> np \<longrightarrow> ptab s' p = ptab s p) \<and>
      pstate (ptab s np) = UNUSED \<and> initproc s \<noteq> Some np \<and> (\<forall>q. live s' q \<longrightarrow> parent (ptab s' q) \<noteq> Some np)"
    using n by (simp add: live_def)
qed

lemma live_below [simp]:
  "live (s\<lparr>kmx := m\<rparr>) p = live s p" "live (s\<lparr>fsx := x\<rparr>) p = live s p"
  "alive (s\<lparr>kmx := m\<rparr>) p = alive s p" "alive (s\<lparr>fsx := x\<rparr>) p = alive s p"
  by (simp_all add: live_def alive_def)

lemma live_upd: "pstate (f (ptab s p)) = UNUSED \<longleftrightarrow> pstate (ptab s p) = UNUSED \<Longrightarrow> live (upd_proc p f s) q = live s q"
  by (auto simp: live_def)

text \<open>The last part of \<open>fork\<close> and \<open>clone\<close>, from the copy of the files on.\<close>

lemma finish_child:
  assumes "proc_inv s w" "live s np" "dup_files me np fds s = Inr s1" "dup_cwd me np s1 = Inr s2"
    and "\<And>k. pid (f k) = pid k \<and> kstack (f k) = kstack k \<and> parent (f k) = parent k \<and> pstate (f k) = RUNNABLE"
  shows "proc_inv (upd_proc np f s2) w"
proof -
  have q: "quiet s s2" using quiet_trans [OF dup_files_quiet [OF assms(3)] dup_cwd_quiet [OF assms(4)]] .
  have "live s2 np" using quietD(9) [OF q] assms(2) by simp
  then show ?thesis using assms(5) by (intro inv_upd [OF inv_quiet [OF q assms(1)]]) auto
qed

lemma fork_inv:
  assumes "proc_inv s w" "alive s me" "fork L me s = Inr (r, s')"
  shows "proc_inv s' w"
proof -
  obtain r1 s1 where a: "allocproc L s = (r1, s1)" by (rule prod.exhaust)
  note al = allocproc_inv [OF assms(1) a]
  show ?thesis
  proof (cases r1)
    case None
    then show ?thesis using assms(3) a al(1) by (simp add: fork_def)
  next
    case (Some np)
    note n = al(2) [OF Some]
    have me: "me \<noteq> np" using n assms(2) by (auto simp: alive_def live_def)
    have ame: "alive s1 me" using n me assms(2) by (auto simp: alive_def live_def)
    obtain d m where c: "copyuvm (pgdir (ptab s1 me)) (psz (ptab s1 me)) (kmx s1) = Inr (d, m)"
      using assms(3) a Some by (auto simp: fork_def Let_def kbind_Inr_iff)
    define s2 where "s2 = upd_proc np (\<lambda>k. k\<lparr>pgdir := d\<rparr>) (s1\<lparr>kmx := m\<rparr>)"
    have k: "proc_inv (s1\<lparr>kmx := m\<rparr>) w" by (rule inv_quiet [OF _ al(1)]) simp
    have l1: "live (s1\<lparr>kmx := m\<rparr>) np" using n by simp
    have i2: "proc_inv s2 w" unfolding s2_def by (rule inv_upd [OF k l1]) (use n in simp_all)
    have l2: "live s2 q = live s1 q" for q unfolding s2_def by (simp add: live_def)
    have p2: "parent (ptab s2 q) = parent (ptab s1 q)" "pstate (ptab s2 q) = pstate (ptab s1 q)" "initproc s2 = initproc s1" for q
      unfolding s2_def by simp_all
    show ?thesis
    proof (cases "d = 0")
      case True
      obtain m' where s': "s' = upd_proc np (\<lambda>k. k\<lparr>kstack := 0, pstate := UNUSED\<rparr>) (s2\<lparr>kmx := m'\<rparr>)"
        using assms(3) a Some c True by (auto simp: fork_def Let_def kbind_Inr_iff s2_def)
      have k2: "proc_inv (s2\<lparr>kmx := m'\<rparr>) w" by (rule inv_quiet [OF _ i2]) simp
      show ?thesis unfolding s'
      proof (rule inv_free [OF k2])
        show "live (s2\<lparr>kmx := m'\<rparr>) np" using n l2 by simp
        show "initproc (s2\<lparr>kmx := m'\<rparr>) \<noteq> Some np" using n p2(3) by simp
        show "parent (ptab (s2\<lparr>kmx := m'\<rparr>) q) \<noteq> Some np" if "live (s2\<lparr>kmx := m'\<rparr>) q" for q
          using n that l2 p2 by simp
      qed (use n p2 in simp_all)
    next
      case False
      define s3 where "s3 = upd_proc np (\<lambda>k. k\<lparr>psz := psz (ptab s1 me), parent := Some me, tf := (tf (ptab s1 me))\<lparr>tf_eax := 0\<rparr>\<rparr>) s2"
      obtain s4 s5 where f: "dup_files me np [0..<NOFILE] s3 = Inr s4" "dup_cwd me np s4 = Inr s5"
        "s' = upd_proc np (\<lambda>k. k\<lparr>pstate := RUNNABLE, count_thread := 0, pname := safestrcpy (pname k) (pname (ptab s5 me)) 16\<rparr>) s5"
        using assms(3) unfolding fork_def Let_def a prod.case Some option.case c kbind_simps s2_def [symmetric] if_not_P [OF False]
          s3_def [symmetric] by (auto simp: kbind_Inr_iff simp del: upt_Suc dup_files.simps)
      have "alive s2 me" using ame l2 p2 by (simp add: alive_def)
      then have i3: "proc_inv s3 w"
        unfolding s3_def using n me l2 p2 by (intro inv_upd [OF i2]) simp_all
      have "live s2 np" using n l2 by simp
      then have "live s3 np" unfolding s3_def by (simp add: live_def)
      then show ?thesis unfolding f(3) by (rule finish_child [OF i3 _ f(1,2)]) simp
    qed
  qed
qed

lemma clone_inv:
  assumes "proc_inv s w" "alive s me" "pstate (ptab s me) = RUNNING" "clone L me fcn arg st s = Inr (r, s')"
  shows "proc_inv s' w"
proof -
  obtain r1 s1 where a: "allocproc L s = (r1, s1)" by (rule prod.exhaust)
  note al = allocproc_inv [OF assms(1) a]
  show ?thesis
  proof (cases r1)
    case None
    then show ?thesis using assms(4) a al(1) by (simp add: clone_def)
  next
    case (Some np)
    note n = al(2) [OF Some]
    have me: "me \<noteq> np" using n assms(2) by (auto simp: alive_def live_def)
    have ame: "alive s1 me" using n me assms(2) by (auto simp: alive_def live_def)
    define q where "q = ptab s1 me"
    define s2 where "s2 = upd_proc np (\<lambda>k. k\<lparr>pgdir := pgdir q, psz := psz q, parent := Some me\<rparr>) s1"
    define s3 where "s3 = upd_proc me (\<lambda>k. k\<lparr>count_thread := count_thread k + 1\<rparr>) s2"
    define s4 where "s4 = upd_proc np (\<lambda>k. k\<lparr>pstack := st, tf := (tf q)\<lparr>tf_esp := st + 4096 - 8, tf_eip := fcn\<rparr>\<rparr>) s3"
    have i2: "proc_inv s2 w" unfolding s2_def by (rule inv_upd [OF al(1)]) (use n me ame in simp_all)
    have q3: "quiet s2 s3" unfolding s3_def by (rule quiet_upd) simp_all
    have q4: "quiet s3 s4" unfolding s4_def by (rule quiet_upd) simp_all
    have i4: "proc_inv s4 w" by (rule inv_quiet [OF quiet_trans [OF q3 q4] i2])
    have "live s2 np" unfolding s2_def using n by (simp add: live_def)
    then have l4: "live s4 np" using quietD(9) [OF quiet_trans [OF q3 q4]] by blast
    obtain r2 m where c: "copyout (pgdir q) (st + 4096 - 8) (clone_frame arg) 8 (kmx s4) = Inr (r2, m)"
      using assms(4) a Some unfolding clone_def Let_def
      by (auto simp: kbind_Inr_iff q_def s4_def s3_def s2_def)
    have cl: "clone L me fcn arg st s = (if r2 < 0 then Inr (-1, s4\<lparr>kmx := m\<rparr>)
      else kbind (dup_files me np [0..<NOFILE] (upd_proc np (\<lambda>k. k\<lparr>tf := (tf k)\<lparr>tf_eax := 0\<rparr>\<rparr>) (s4\<lparr>kmx := m\<rparr>))) (\<lambda>s.
        kbind (dup_cwd me np s) (\<lambda>s. Inr (pid (ptab (upd_proc np (\<lambda>k. k\<lparr>pstate := RUNNABLE, pname := safestrcpy (pname k) (pname (ptab s me)) 16\<rparr>) s) np),
          upd_proc np (\<lambda>k. k\<lparr>pstate := RUNNABLE, pname := safestrcpy (pname k) (pname (ptab s me)) 16\<rparr>) s))))"
      unfolding clone_def Let_def a prod.case Some option.case q_def [symmetric] s2_def [symmetric] s3_def [symmetric] s4_def [symmetric] c
        kbind_simps by (rule refl)
    have k4: "proc_inv (s4\<lparr>kmx := m\<rparr>) w" by (rule inv_quiet [OF _ i4]) simp
    show ?thesis
    proof (cases "r2 < 0")
      case True
      then show ?thesis using assms(4) k4 unfolding cl by simp
    next
      case False
      define s5 where "s5 = upd_proc np (\<lambda>k. k\<lparr>tf := (tf k)\<lparr>tf_eax := 0\<rparr>\<rparr>) (s4\<lparr>kmx := m\<rparr>)"
      have "quiet (s4\<lparr>kmx := m\<rparr>) s5" unfolding s5_def by (rule quiet_upd) simp_all
      then have i5: "proc_inv s5 w" by (rule inv_quiet [OF _ k4])
      have l5: "live s5 np" unfolding s5_def using l4 by (simp add: live_def)
      obtain s6 s7 where f: "dup_files me np [0..<NOFILE] s5 = Inr s6" "dup_cwd me np s6 = Inr s7"
        "s' = upd_proc np (\<lambda>k. k\<lparr>pstate := RUNNABLE, pname := safestrcpy (pname k) (pname (ptab s7 me)) 16\<rparr>) s7"
        using assms(4) False unfolding cl s5_def [symmetric] by (auto simp: kbind_Inr_iff simp del: upt_Suc dup_files.simps)
      show ?thesis unfolding f(3) by (rule finish_child [OF i5 l5 f(1,2)]) simp
    qed
  qed
qed

lemma pass_children_inv:
  assumes "proc_inv s w" "\<And>p. p \<in> set ps \<Longrightarrow> p < NPROC"
  shows "proc_inv (pass_children me ps s) w \<and> initproc (pass_children me ps s) = initproc s \<and>
    (\<forall>q. live (pass_children me ps s) q = live s q) \<and>
    (\<forall>q. parent (ptab (pass_children me ps s) q) = (if q \<in> set ps \<and> parent (ptab s q) = Some me then initproc s else parent (ptab s q))) \<and>
    (\<forall>q. pstate (ptab (pass_children me ps s) q) = pstate (ptab s q) \<or>
       pstate (ptab s q) = SLEEPING \<and> pstate (ptab (pass_children me ps s) q) = RUNNABLE) \<and>
    (\<forall>q. pgdir (ptab (pass_children me ps s) q) = pgdir (ptab s q))"
  using assms
proof (induction ps arbitrary: s)
  case (Cons p ps)
  have i: "ptable_ok s" "wait_ok s w" using Cons.prems(1) by (simp_all add: proc_inv_def)
  show ?case
  proof (cases "parent (ptab s p) = Some me")
    case False
    have "pass_children me (p # ps) s = pass_children me ps s" using False by simp
    then show ?thesis using Cons.IH [OF Cons.prems(1)] Cons.prems(2) False by auto
  next
    case True
    have "p < NPROC" using Cons.prems(2) by simp
    then have lp: "live s p" using i(1) True unfolding ptable_ok_def live_def by force
    define t where "t = upd_proc p (\<lambda>k. k\<lparr>parent := initproc s\<rparr>) s"
    define u where "u = (if pstate (ptab t p) = ZOMBIE then wakeup1 (map_option CProc (initproc t)) t else t)"
    have e: "pass_children me (p # ps) s = pass_children me ps u" using True by (simp add: t_def u_def Let_def)
    note ad = adopt_ok [OF i lp True, folded t_def, folded u_def]
    have iu: "proc_inv u w" using ad(1,2) by (simp add: proc_inv_def)
    obtain j where j: "initproc s = Some j" "parent (ptab s j) = None" using ptable_init [OF i(1)] by blast
    have IH: "proc_inv (pass_children me ps u) w" "initproc (pass_children me ps u) = initproc u"
      "live (pass_children me ps u) q = live u q"
      "parent (ptab (pass_children me ps u) q) = (if q \<in> set ps \<and> parent (ptab u q) = Some me then initproc u else parent (ptab u q))"
      "pstate (ptab (pass_children me ps u) q) = pstate (ptab u q) \<or>
         pstate (ptab u q) = SLEEPING \<and> pstate (ptab (pass_children me ps u) q) = RUNNABLE"
      "pgdir (ptab (pass_children me ps u) q) = pgdir (ptab u q)" for q
      using Cons.IH [OF iu] Cons.prems(2) by auto
    show ?thesis unfolding e IH(2,3,4) ad(3,4,5)
    proof (intro conjI allI impI)
      show "proc_inv (pass_children me ps u) w" by (rule IH(1))
      fix q
      show "(if q \<in> set ps \<and> (if q = p then initproc s else parent (ptab s q)) = Some me then initproc s
          else if q = p then initproc s else parent (ptab s q)) =
        (if q \<in> set (p # ps) \<and> parent (ptab s q) = Some me then initproc s else parent (ptab s q))"
        using True by auto
      show "pstate (ptab (pass_children me ps u) q) = pstate (ptab s q) \<or>
          pstate (ptab s q) = SLEEPING \<and> pstate (ptab (pass_children me ps u) q) = RUNNABLE"
        using IH(5) [of q] ad(6) [of q] by auto
      show "pgdir (ptab (pass_children me ps u) q) = pgdir (ptab s q)" using IH(6) [of q] ad(7) [of q] by simp
    qed (rule refl)+
  qed
qed simp

lemma exit_inv:
  assumes "proc_inv s w" "alive s me" "pstate (ptab s me) = RUNNING" "exit me s = Inr s'"
  shows "proc_inv s' w" "pstate (ptab s' me) = ZOMBIE" "parent (ptab s' me) = parent (ptab s me)" "pgdir (ptab s' p) = pgdir (ptab s p)"
    "p \<noteq> me \<Longrightarrow> pstate (ptab s' p) = pstate (ptab s p) \<or> pstate (ptab s p) = SLEEPING \<and> pstate (ptab s' p) = RUNNABLE"
proof -
  have ni: "initproc s \<noteq> Some me" using assms(4) by (auto simp: exit_def split: if_splits)
  obtain s1 ip x where c: "close_files me [0..<NOFILE] s = Inr s1" "cwd (ptab s1 me) = Some ip" "iput ip (fsx s1) = Inr x"
    "s' = (let s = upd_proc me (\<lambda>k. k\<lparr>cwd := None\<rparr>) (deliver (s1\<lparr>fsx := x\<rparr>));
              s = wakeup1 (map_option CProc (parent (ptab s me))) s;
              s = pass_children me [0..<NPROC] s
          in upd_proc me (\<lambda>k. k\<lparr>pstate := ZOMBIE\<rparr>) s)"
    using assms(4) ni by (auto simp: exit_def kbind_Inr_iff Let_def simp del: upt_Suc close_files.simps pass_children.simps split: option.splits)
  define s2 where "s2 = upd_proc me (\<lambda>k. k\<lparr>cwd := None\<rparr>) (deliver (s1\<lparr>fsx := x\<rparr>))"
  define s3 where "s3 = wakeup1 (map_option CProc (parent (ptab s2 me))) s2"
  define s4 where "s4 = pass_children me [0..<NPROC] s3"
  have s': "s' = upd_proc me (\<lambda>k. k\<lparr>pstate := ZOMBIE\<rparr>) s4" using c(4) unfolding Let_def s4_def s3_def s2_def .
  have "quiet s1 (deliver (s1\<lparr>fsx := x\<rparr>))" by (rule quiet_trans [OF _ quiet_deliver]) simp
  moreover have "quiet (deliver (s1\<lparr>fsx := x\<rparr>)) s2" unfolding s2_def by (rule quiet_upd) simp_all
  ultimately have q2: "quiet s s2" using close_files_quiet [OF c(1)] quiet_trans by blast
  have q3: "quiet s2 s3" unfolding s3_def by simp
  have i2: "proc_inv s2 w" by (rule inv_quiet [OF q2 assms(1)])
  have i3: "proc_inv s3 w" by (rule inv_quiet [OF q3 i2])
  have pc: "proc_inv s4 w" "initproc s4 = initproc s3" "live s4 q = live s3 q"
    "parent (ptab s4 q) = (if q \<in> set [0..<NPROC] \<and> parent (ptab s3 q) = Some me then initproc s3 else parent (ptab s3 q))"
    "pstate (ptab s4 q) = pstate (ptab s3 q) \<or> pstate (ptab s3 q) = SLEEPING \<and> pstate (ptab s4 q) = RUNNABLE"
    "pgdir (ptab s4 q) = pgdir (ptab s3 q)" for q
    using pass_children_inv [OF i3, of "[0..<NPROC]" me, folded s4_def] by auto
  have i4: "ptable_ok s4" "wait_ok s4 w" using pc(1) by (simp_all add: proc_inv_def)
  have st3: "pstate (ptab s3 me) = RUNNING" using quietD(8) [OF quiet_trans [OF q2 q3], of me] assms(3) by auto
  then have st4: "pstate (ptab s4 me) = RUNNING" using pc(5) [of me] by simp
  have lm: "live s4 me" using assms(2) pc(3) quietD(9) [OF quiet_trans [OF q2 q3]] by (simp add: alive_def)
  have in4: "initproc s4 \<noteq> Some me" using ni pc(2) quietD(2) [OF quiet_trans [OF q2 q3]] by simp
  have np: "parent (ptab s4 q) \<noteq> Some me" if "live s4 q" for q
    using that in4 pc(2,4) unfolding live_def by auto
  have i0: "parent (ptab s4 me) = Some q \<Longrightarrow> q \<noteq> me \<and> alive s4 q \<and> initproc s4 \<noteq> Some me" for q
    using ptable_parent [OF i4(1) lm] in4 by blast
  have pt: "ptable_ok s'" unfolding s'
  proof (rule ptable_upd [OF i4(1) lm])
    show "q \<noteq> me \<and> alive s4 q \<and> initproc s4 \<noteq> Some me" if "parent ((ptab s4 me)\<lparr>pstate := ZOMBIE\<rparr>) = Some q" for q
      using i0 that by simp
    show "initproc s4 \<noteq> Some me \<and> parent ((ptab s4 me)\<lparr>pstate := ZOMBIE\<rparr>) \<noteq> Some me \<and> (\<forall>q. live s4 q \<longrightarrow> parent (ptab s4 q) \<noteq> Some me)"
      using in4 np lm by auto
  qed simp_all
  have "wait_ok s' w" unfolding wait_ok_def
  proof (intro allI impI)
    fix p thr assume p: "w p = Some thr" "pstate (ptab s' p) = SLEEPING"
    have pm: "p \<noteq> me" using p(2) unfolding s' by auto
    then have p4: "pstate (ptab s4 p) = SLEEPING" "ptab s' p = ptab s4 p" using p(2) unfolding s' by simp_all
    have wo: "pchan (ptab s4 p) = Some (CProc p)" "\<forall>q < NPROC. child_of thr p s4 q \<longrightarrow> pstate (ptab s4 q) \<noteq> ZOMBIE"
      using i4(2) p(1) p4(1) unfolding wait_ok_def by blast+
    have c4: "child_of thr p s' q = child_of thr p s4 q" for q unfolding s' child_of_def using pm by auto
    have "\<not> child_of thr p s4 me"
    proof
      assume "child_of thr p s4 me"
      then have "parent (ptab s4 me) = Some p" by (simp add: child_of_def)
      then have pp: "parent (ptab s3 me) = Some p" if "parent (ptab s3 me) \<noteq> Some me" using pc(4) [of me] that by auto
      have "parent (ptab s3 me) \<noteq> Some me"
        using ptable_parent [of s3 me me] i3 lm pc(3) by (auto simp: proc_inv_def)
      with pp have p3: "parent (ptab s2 me) = Some p" using quietD(4) [OF q3] by simp
      have "pstate (ptab s3 p) = SLEEPING" using pc(5) [of p] p4(1) by auto
      moreover have "pchan (ptab s3 p) = Some (CProc p)"
        using i3 p(1) calculation unfolding proc_inv_def wait_ok_def by blast
      then have "pchan (ptab s2 p) = Some (CProc p)" using quietD(7) [OF q3] by simp
      moreover have "p < NPROC"
        using ptable_parent [OF i4(1) lm \<open>parent (ptab s4 me) = Some p\<close>] by (simp add: alive_def live_def)
      ultimately show False using p3 unfolding s3_def by (auto simp: wakeup1_def split: if_splits)
    qed
    then show "pchan (ptab s' p) = Some (CProc p) \<and> (\<forall>q < NPROC. child_of thr p s' q \<longrightarrow> pstate (ptab s' q) \<noteq> ZOMBIE)"
      using wo unfolding c4 p4(2) unfolding s' by auto
  qed
  with pt show "proc_inv s' w" by (simp add: proc_inv_def)
  note q = quietD [OF quiet_trans [OF q2 q3]]
  show "pstate (ptab s' me) = ZOMBIE" unfolding s' by simp
  have "parent (ptab s3 me) \<noteq> Some me"
    using ptable_parent [of s3 me me] i3 lm pc(3) by (auto simp: proc_inv_def)
  then have "parent (ptab s4 me) = parent (ptab s3 me)" using pc(4) [of me] by simp
  then show "parent (ptab s' me) = parent (ptab s me)" unfolding s' using q(4) [of me] by simp
  show "pgdir (ptab s' p) = pgdir (ptab s p)" unfolding s' using pc(6) [of p] q(6) [of p] by (cases "p = me") simp_all
  show "pstate (ptab s' p) = pstate (ptab s p) \<or> pstate (ptab s p) = SLEEPING \<and> pstate (ptab s' p) = RUNNABLE" if "p \<noteq> me"
    unfolding s' using that pc(5) [of p] q(8) [of p] by auto
qed

section \<open>Runs of the process layer\<close>

definition running :: "kern \<Rightarrow> nat \<Rightarrow> bool" where
  "running s me \<longleftrightarrow> me < NPROC \<and> pstate (ptab s me) = RUNNING"

lemma running_alive: "running s me \<Longrightarrow> alive s me"
  by (simp add: running_def alive_def live_def)

text \<open>The table as the C runtime leaves it.\<close>

definition boot_table :: "kern \<Rightarrow> bool" where
  "boot_table s \<longleftrightarrow> nextpid s = 1 \<and>
     (\<forall>p < NPROC. pstate (ptab s p) = UNUSED \<and> kstack (ptab s p) = 0 \<and> parent (ptab s p) = None)"

text \<open>The table after \<open>userinit\<close>: the first process in the first entry.\<close>

definition first_process :: "kern \<Rightarrow> bool" where
  "first_process s \<longleftrightarrow> pid (ptab s 0) = 1 \<and> kstack (ptab s 0) \<noteq> 0 \<and> parent (ptab s 0) = None \<and> pstate (ptab s 0) = RUNNABLE \<and>
     nextpid s = 2 \<and> initproc s = Some 0 \<and>
     (\<forall>p < NPROC. p \<noteq> 0 \<longrightarrow> pstate (ptab s p) = UNUSED \<and> kstack (ptab s p) = 0 \<and> parent (ptab s p) = None)"

text \<open>
  What the processors may do with the table, in any order: the calls of the running processes, wakeups by the drivers, and switches by the scheduler. \<open>others\<close> is any step of the rest of the
  kernel, which does not touch the fields of the invariants, and \<open>image\<close> the change of image by \<open>exec\<close>. A signal is only
  sent to a condition variable whose first process is still asleep. \<open>w\<close> records who called \<open>wait\<close> or \<open>join\<close> last.
\<close>

inductive kern_run :: "u32 \<Rightarrow> kern \<Rightarrow> (nat \<Rightarrow> bool option) \<Rightarrow> bool" for L where
  boot: "first_process s \<Longrightarrow> kern_run L s (\<lambda>_. None)"
| fork: "kern_run L s w \<Longrightarrow> running s me \<Longrightarrow> fork L me s = Inr (r, s') \<Longrightarrow> kern_run L s' w"
| clone: "kern_run L s w \<Longrightarrow> running s me \<Longrightarrow> clone L me fcn arg stk s = Inr (r, s') \<Longrightarrow> kern_run L s' w"
| exit: "kern_run L s w \<Longrightarrow> running s me \<Longrightarrow> exit me s = Inr s' \<Longrightarrow> kern_run L s' w"
| wait: "kern_run L s w \<Longrightarrow> running s me \<Longrightarrow> wait me s = Inr (o1, s') \<Longrightarrow>
    kern_run L s' (w(me := if o1 = PSleep then Some False else None))"
| join: "kern_run L s w \<Longrightarrow> running s me \<Longrightarrow> join me stk s = Inr (o1, s') \<Longrightarrow>
    kern_run L s' (w(me := if o1 = PSleep then Some True else None))"
| kill: "kern_run L s w \<Longrightarrow> kill n s = (r, s') \<Longrightarrow> kern_run L s' w"
| sleep: "kern_run L s w \<Longrightarrow> running s me \<Longrightarrow> sleep (Some me) c lk s = Inr s' \<Longrightarrow> kern_run L s' (w(me := None))"
| woken: "kern_run L s w \<Longrightarrow> running s me \<Longrightarrow> kern_run L (sleep_return me s) w"
| wakeup: "kern_run L s w \<Longrightarrow> kern_run L (wakeup c s) w"
| yield: "kern_run L s w \<Longrightarrow> running s me \<Longrightarrow> kern_run L (yield me s) w"
| sched: "kern_run L s w \<Longrightarrow> sched_next i s = (p, i', s') \<Longrightarrow> kern_run L s' w"
| growproc: "kern_run L s w \<Longrightarrow> running s me \<Longrightarrow> growproc me n s = Inr (r, s') \<Longrightarrow> kern_run L s' w"
| cond_wait: "kern_run L s w \<Longrightarrow> running s me \<Longrightarrow> cond_wait me c lk s = Inr (c', lk', s') \<Longrightarrow> kern_run L s' (w(me := None))"
| cond_signal: "kern_run L s w \<Longrightarrow> pstate (ptab s (thqueue c (unat (chead c)))) = SLEEPING \<Longrightarrow>
    cond_signal c s = (c', s') \<Longrightarrow> kern_run L s' w"
| image: "kern_run L s w \<Longrightarrow> running s me \<Longrightarrow>
    kern_run L (upd_proc me (\<lambda>k. k\<lparr>pgdir := d, psz := z, tf := t, pname := nm\<rparr>) s) w"
| others: "kern_run L s w \<Longrightarrow> quiet s s' \<Longrightarrow> kern_run L s' w"

lemma userinit_first:
  assumes "boot_table s0" "userinit L init sz s0 = Inr s"
  shows "first_process s"
proof -
  have b: "nextpid s0 = 1" "\<And>p. p < NPROC \<Longrightarrow> pstate (ptab s0 p) = UNUSED"
    "\<And>p. p < NPROC \<Longrightarrow> kstack (ptab s0 p) = 0" "\<And>p. p < NPROC \<Longrightarrow> parent (ptab s0 p) = None"
    using assms(1) by (auto simp: boot_table_def)
  have f: "find (\<lambda>p. pstate (ptab s0 p) = UNUSED) [0..<NPROC] = Some 0" using b(2) [of 0] by (simp add: upt_rec [of 0])
  obtain v m where v: "kalloc (kmx s0) = (v, m)" by (rule prod.exhaust)
  have k: "pid (ptab s 0) = 1" "kstack (ptab s 0) \<noteq> 0" "parent (ptab s 0) = None" "pstate (ptab s 0) = RUNNABLE"
    "\<And>q. q \<noteq> 0 \<Longrightarrow> ptab s q = ptab s0 q" "nextpid s = 2" "initproc s = Some 0"
    using assms(2) b(1) b(4) [of 0] unfolding userinit_def allocproc_def f option.case Let_def
    by (auto simp: v kbind_Inr_iff split: if_splits)
  then show ?thesis unfolding first_process_def using b by simp
qed

lemma first_inv:
  assumes "first_process s"
  shows "proc_inv s (\<lambda>_. None)"
proof -
  note k = assms [unfolded first_process_def]
  have l: "live s p \<longleftrightarrow> p = 0" for p using k by (cases "p = 0") (auto simp: live_def)
  have "ptable_ok s" unfolding ptable_ok_def
  proof (intro conjI)
    show "\<forall>p < NPROC. (pstate (ptab s p) = UNUSED) = (kstack (ptab s p) = 0)" using k by (metis procstate.distinct(5))
    show "\<forall>p < NPROC. pstate (ptab s p) = UNUSED \<longrightarrow> parent (ptab s p) = None" using k by metis
  qed (use k in \<open>simp_all add: l alive_def\<close>)
  then show ?thesis by (simp add: proc_inv_def wait_ok_def)
qed

lemma kill_quiet: "kill n s = (r, s') \<Longrightarrow> quiet s s'"
  by (auto simp: kill_def split: option.splits if_splits intro!: quiet_upd)

lemma growproc_quiet:
  assumes "growproc me n s = Inr (r, s')"
  shows "quiet s s'"
  using assms unfolding growproc_def Let_def
proof (elim kbind_InrE)
  fix x assume "(case x of (sz, m) \<Rightarrow> if n \<noteq> 0 \<and> sz = 0 then Inr (-1, s\<lparr>kmx := m\<rparr>)
      else Inr (0, s\<lparr>kmx := m, ptab := (\<lambda>p. if p = me \<or> p < NPROC \<and> parent (ptab (s\<lparr>kmx := m\<rparr>) p) = Some me \<and>
          pgdir (ptab (s\<lparr>kmx := m\<rparr>) p) = pgdir (ptab s me)
          then (ptab (s\<lparr>kmx := m\<rparr>) p)\<lparr>psz := sz\<rparr> else ptab (s\<lparr>kmx := m\<rparr>) p)\<rparr>)) = (Inr (r, s') :: (int \<times> kern) res)"
  then show ?thesis by (cases x) (auto simp: quiet_def Let_def split: if_splits)
qed

lemma kern_run_inv: "kern_run L s w \<Longrightarrow> proc_inv s w"
proof (induction rule: kern_run.induct)
  case (boot s)
  then show ?case by (rule first_inv)
next
  case (fork s w me r s')
  then show ?case using fork_inv running_alive by blast
next
  case (clone s w me fcn arg stk r s')
  then show ?case using clone_inv running_alive unfolding running_def by blast
next
  case (exit s w me s')
  then show ?case using exit_inv(1) running_alive unfolding running_def by blast
next
  case (wait s w me o1 s')
  show ?case by (rule wait_inv [OF wait.IH running_alive [OF wait.hyps(2)] wait.hyps(3)])
next
  case (join s w me stk o1 s')
  show ?case by (rule join_inv [OF join.IH running_alive [OF join.hyps(2)] join.hyps(3)])
next
  case (kill s w n r s')
  then show ?case using inv_quiet kill_quiet by blast
next
  case (sleep s w me c lk s')
  have "s' = upd_proc me (\<lambda>k. k\<lparr>pchan := Some c, pstate := SLEEPING\<rparr>) s"
    using sleep.hyps(3) by (auto simp: sleep_def split: if_splits)
  then show ?case by (simp only:) (rule inv_sleep [OF sleep.IH running_alive [OF sleep.hyps(2)]]; simp)
next
  case (woken s w me)
  then show ?case
    unfolding sleep_return_def by (intro inv_upd) (auto simp: running_def live_def)
next
  case (wakeup s w c)
  then show ?case using inv_quiet [OF quiet_wakeup1] by (simp add: wakeup_def)
next
  case (yield s w me)
  then show ?case unfolding yield_def by (intro inv_upd) (auto simp: running_def live_def)
next
  case (sched s w i p i' s')
  show ?case
  proof (cases "find (\<lambda>p. pstate (ptab s p) = RUNNABLE) [i..<NPROC]")
    case None
    then show ?thesis using sched by (simp add: sched_next_def)
  next
    case (Some q)
    then have "q < NPROC" "pstate (ptab s q) = RUNNABLE" unfolding find_Some_iff by auto
    moreover have "s' = upd_proc q (\<lambda>k. k\<lparr>pstate := RUNNING\<rparr>) s" using sched.hyps(2) Some by (simp add: sched_next_def)
    ultimately show ?thesis using sched.IH by (auto simp: live_def intro!: inv_upd)
  qed
next
  case (growproc s w me n r s')
  then show ?case using inv_quiet growproc_quiet by blast
next
  case (cond_wait s w me c lk c' lk' s')
  have "s' = upd_proc me (\<lambda>k. k\<lparr>pstate := SLEEPING\<rparr>) s"
    using cond_wait.hyps(3) by (auto simp: cond_wait_def split: if_splits)
  then show ?case by (simp only:) (rule inv_sleep [OF cond_wait.IH running_alive [OF cond_wait.hyps(2)]]; simp)
next
  case (cond_signal s w c c' s')
  then have "quiet s s'" by (auto simp: cond_signal_def split: if_splits intro!: quiet_upd)
  then show ?case using cond_signal.IH by (rule inv_quiet)
next
  case (image s w me d z t nm)
  then show ?case by (intro inv_upd) (auto simp: running_def live_def)
next
  case (others s w s')
  then show ?case using inv_quiet by blast
qed

section \<open>Properties\<close>


text \<open>
  C21. No process waits for a child that is already dead: while a process sleeps in \<open>wait\<close> (or \<open>join\<close>), none of
  the children that the call looks for (processes, or threads) is a zombie; and when such a child exits, the
  sleeper is runnable at once.
\<close>

theorem wait_no_lost_wakeup:
  assumes "kern_run L s w" "w p = Some thr" "pstate (ptab s p) = SLEEPING"
  shows "(\<forall>q < NPROC. child_of thr p s q \<longrightarrow> pstate (ptab s q) \<noteq> ZOMBIE) \<and>
    (\<forall>q s'. running s q \<longrightarrow> child_of thr p s q \<longrightarrow> exit q s = Inr s' \<longrightarrow> pstate (ptab s' p) = RUNNABLE)"
proof (intro conjI)
  have i: "proc_inv s w" by (rule kern_run_inv [OF assms(1)])
  then show "\<forall>q < NPROC. child_of thr p s q \<longrightarrow> pstate (ptab s q) \<noteq> ZOMBIE"
    using assms(2,3) by (simp add: proc_inv_def wait_ok_def)
  show "\<forall>q s'. running s q \<longrightarrow> child_of thr p s q \<longrightarrow> exit q s = Inr s' \<longrightarrow> pstate (ptab s' p) = RUNNABLE"
  proof (intro allI impI)
    fix q s' assume q: "running s q" "child_of thr p s q" "exit q s = Inr s'"
    have r: "q < NPROC" "pstate (ptab s q) = RUNNING" using q(1) by (simp_all add: running_def)
    note e = exit_inv [OF i running_alive [OF q(1)] r(2) q(3)]
    have "child_of thr p s' q" using q(2) e(3,4) by (simp add: child_of_def)
    then have "pstate (ptab s' p) \<noteq> SLEEPING"
      using e(1,2) assms(2) r(1) unfolding proc_inv_def wait_ok_def by blast
    moreover have "p \<noteq> q" using assms(3) r(2) by auto
    ultimately show "pstate (ptab s' p) = RUNNABLE" using e(5) [of p] assms(3) by auto
  qed
qed

definition demo_proc :: proc where
  "demo_proc = \<lparr>psz = 4096, pgdir = 0, kstack = 0, pstate = UNUSED, pid = 0, parent = None,
     tf = \<lparr>tf_edi = 0, tf_esi = 0, tf_ebp = 0, tf_ebx = 0, tf_edx = 0, tf_ecx = 0, tf_eax = 0,
       tf_es = 0, tf_ds = 0, tf_trapno = 0, tf_err = 0, tf_eip = 0, tf_cs = 0, tf_eflags = 0, tf_esp = 0, tf_ss = 0\<rparr>,
     pctx = \<lparr>cx_edi = 0, cx_esi = 0, cx_ebx = 0, cx_ebp = 0, cx_eip = 0\<rparr>, pchan = None, killed = False,
     ofile = (\<lambda>_. None), cwd = Some 0, pname = (\<lambda>_. 0), pstack = 0, count_thread = 0\<rparr>"

definition demo_kern :: kern where
  "demo_kern = fkern.extend boot_files
     \<lparr>ptab = (\<lambda>p. if p = 0 then demo_proc\<lparr>pstate := RUNNABLE, kstack := 0x300000, pid := 1, pgdir := 0x200000\<rparr> else demo_proc),
      nextpid = 2, initproc = Some 0, kticks = 0\<rparr>"

lemma demo_first: "first_process demo_kern"
  by (simp add: first_process_def demo_kern_def demo_proc_def fkern.defs)


lemma child_scan_kids:
  "child_of thr me s p \<Longrightarrow> p \<in> set ps \<Longrightarrow> fst (child_scan thr me s ps h)"
proof (induction ps arbitrary: h)
  case (Cons q ps)
  have "fst (child_scan thr me s qs True)" for qs by (induction qs) auto
  then show ?case using Cons by auto
qed simp

text \<open>A run in which \<open>init\<close> starts a thread on the stack at address 0, and joins it.\<close>

definition demo_run :: "kmem \<Rightarrow> kern" where
  "demo_run u = (upd_proc 0 (\<lambda>k. k\<lparr>pstate := RUNNING\<rparr>) demo_kern)\<lparr>kmx := u\<rparr>"

lemma demo_clone:
  assumes "uspace u 0x200000 0x201000 [0 \<mapsto> 0x202000] [0x203000]"
  obtains s' where "clone 0 0 0 0 0 (demo_run u) = Inr (2, s')" "child_of True 0 s' 1" "pstate (ptab s' 1) = RUNNABLE"
    "running s' 0" "psz (ptab s' 0) = 4096" "killed (ptab s' 0) = False" "\<And>p. p < NPROC \<Longrightarrow> pstate (ptab s' p) \<noteq> ZOMBIE"
proof -
  obtain u1 where k: "kalloc u = (0x203000, u1)" "uspace u1 0x200000 0x201000 [0 \<mapsto> 0x202000] []"
    using uspace_kalloc [OF assms] by (metis prod.collapse)
  obtain u2 where c: "copyout 0x200000 4088 (clone_frame 0) 8 u1 = Inr (0, u2)"
    using copyout_ok [OF k(2), of 4088 8 "clone_frame 0"] by auto
  let ?s = "demo_run u"
  have f: "find (\<lambda>p. pstate (ptab ?s p) = UNUSED) [0..<NPROC] = Some 1"
    by (simp add: upt_rec [of 0] upt_rec [of "Suc 0"] demo_run_def demo_kern_def demo_proc_def fkern.defs)
  let ?s' = "snd (case clone 0 0 0 0 0 ?s of Inr r \<Rightarrow> r)"
  have nofile: "dup_files me np fds t = Inr t" if "\<And>fd. ofile (ptab t me) fd = None" for me np fds t
    using that by (induction fds) auto
  have "\<exists>s'. clone 0 0 0 0 0 ?s = Inr (2, s') \<and> child_of True 0 s' 1 \<and> pstate (ptab s' 1) = RUNNABLE \<and>
    running s' 0 \<and> psz (ptab s' 0) = 4096 \<and> \<not> killed (ptab s' 0) \<and> (\<forall>p < NPROC. pstate (ptab s' p) \<noteq> ZOMBIE)"
    unfolding clone_def allocproc_def f option.case Let_def
    by (simp add: k c nofile dup_cwd_def idup_def child_of_def running_def demo_run_def demo_kern_def demo_proc_def fkern.defs)
  then show ?thesis using that by blast
qed

lemma wait_no_lost_wakeup_witness:
  "\<exists>s w. kern_run 0 s w \<and> w 0 = Some True \<and> pstate (ptab s 0) = SLEEPING \<and> child_of True 0 s 1 \<and> pstate (ptab s 1) \<noteq> ZOMBIE"
proof -
  obtain u where u: "uspace u 0x200000 0x201000 [0 \<mapsto> 0x202000] [0x203000]"
    using allocuvm_ok [OF demo_vm_uspace, of 0 4096] by (auto simp: new_pages_def upt_rec)
  have r0: "kern_run 0 demo_kern (\<lambda>_. None)" by (rule kern_run.boot [OF demo_first])
  have "sched_next 0 demo_kern = (Some 0, 1, upd_proc 0 (\<lambda>k. k\<lparr>pstate := RUNNING\<rparr>) demo_kern)"
    by (simp add: sched_next_def upt_rec [of 0] demo_kern_def fkern.defs)
  from kern_run.sched [OF r0 this] have r1: "kern_run 0 (demo_run u) (\<lambda>_. None)"
    unfolding demo_run_def by (rule kern_run.others) simp
  obtain s where s: "clone 0 0 0 0 0 (demo_run u) = Inr (2, s)" "child_of True 0 s 1" "pstate (ptab s 1) = RUNNABLE"
    "running s 0" "psz (ptab s 0) = 4096" "killed (ptab s 0) = False" "\<And>p. p < NPROC \<Longrightarrow> pstate (ptab s p) \<noteq> ZOMBIE"
    by (rule demo_clone [OF u]) blast
  have "running (demo_run u) 0" by (simp add: running_def demo_run_def)
  from kern_run.clone [OF r1 this s(1)] have r2: "kern_run 0 s (\<lambda>_. None)" .
  obtain h o1 where h: "child_scan True 0 s [0..<NPROC] False = (h, o1)" by (rule prod.exhaust)
  have "o1 = None" using child_scan_Some [of True 0 s "[0..<NPROC]" False h] h s(7) by (cases o1) auto
  then have j: "child_scan True 0 s [0..<NPROC] False = (True, None)"
    using h child_scan_kids [of True 0 s 1 "[0..<NPROC]" False] s(2) by simp
  let ?s = "upd_proc 0 (\<lambda>k. k\<lparr>pchan := Some (CProc 0), pstate := SLEEPING\<rparr>) s"
  have "join 0 0 s = Inr (PSleep, ?s)"
    unfolding join_def j using s(5,6) by (simp add: sleep_def)
  from kern_run.join [OF r2 s(4) this] have r3: "kern_run 0 ?s ((\<lambda>_. None)(0 := Some True))" by simp
  have "child_of True 0 ?s 1" using s(2) by (simp add: child_of_def)
  moreover have "pstate (ptab ?s 1) \<noteq> ZOMBIE"
    by (rule wait_no_lost_wakeup [OF r3, THEN conjunct1, rule_format, OF _ _ _ calculation]) simp_all
  ultimately show ?thesis using r3 by (intro exI [of _ ?s] exI [of _ "(\<lambda>_. None)(0 := Some True)"]) simp
qed

end
