(* ===== verification/Syscall.thy ===== *)
theory Syscall imports Proctab
begin

text \<open>
  kernel/syscall.c and kernel/sysproc.c: how the kernel reads the arguments of a system call from the stack of
  the caller, and the system calls on processes. The kernel runs on the page table of the caller, so an access to a user
  address goes through that table: \<open>upa\<close> is the walk of the hardware, and an address that is not mapped traps in
  the kernel, where \<open>trap\<close> panics. (The write-protect bit of the processor is not set, so the kernel writes wherever
  a page is present.)
\<close>

section \<open>User memory\<close>

definition upa :: "u32 \<Rightarrow> kmem \<Rightarrow> u32 \<Rightarrow> u32 option" where
  "upa d m a = (let pde = ld32 (mem m) (d + 4 * PDX a); pte = ld32 (mem m) (PTE_ADDR pde + 4 * PTX a) in
     if present pde \<and> present pte then Some (PTE_ADDR pte + a mod 4096) else None)"

definition uload :: "u32 \<Rightarrow> kmem \<Rightarrow> u32 \<Rightarrow> nat \<Rightarrow> u8 list res" where
  "uload d m a n = (case those (map (\<lambda>i. upa d m (a + of_nat i)) [0..<n]) of
     None \<Rightarrow> Inl (Panic ''trap'') | Some ps \<Rightarrow> Inr (map (mem m) ps))"

definition uload32 :: "u32 \<Rightarrow> kmem \<Rightarrow> u32 \<Rightarrow> u32 res" where
  "uload32 d m a = kbind (uload d m a 4) (\<lambda>bs. Inr (ld32 (\<lambda>i. bs ! i) (0 :: nat)))"

fun ustore :: "u32 \<Rightarrow> u32 \<Rightarrow> u8 list \<Rightarrow> kmem \<Rightarrow> kmem res" where
  "ustore d a [] m = Inr m"
| "ustore d a (b # bs) m = (case upa d m a of
     None \<Rightarrow> Inl (Panic ''trap'')
   | Some p \<Rightarrow> ustore d (a + 1) bs (m\<lparr>mem := (mem m)(p := b)\<rparr>))"

definition ustore32 :: "u32 \<Rightarrow> u32 \<Rightarrow> u32 \<Rightarrow> kmem \<Rightarrow> kmem res" where
  "ustore32 d a v m = ustore d a (map (st32 (\<lambda>_. 0) (0 :: nat) v) [0..<4]) m"

section \<open>Arguments\<close>

text \<open>The results are none where the code returns -1, and the value it stores through its pointer otherwise.\<close>

definition fetchint :: "proc \<Rightarrow> u32 \<Rightarrow> kmem \<Rightarrow> u32 option res" where
  "fetchint p addr m =
     (if addr \<ge> psz p \<or> addr + 4 > psz p then Inr None
      else kbind (uload32 (pgdir p) m addr) (\<lambda>v. Inr (Some v)))"

function fetchstr_from :: "u32 \<Rightarrow> u32 \<Rightarrow> u32 \<Rightarrow> kmem \<Rightarrow> u8 list option res" where
  "fetchstr_from d s ep m =
     (if s < ep then (case upa d m s of
          None \<Rightarrow> Inl (Panic ''trap'')
        | Some p \<Rightarrow> if mem m p = 0 then Inr (Some [])
            else kbind (fetchstr_from d (s + 1) ep m) (\<lambda>r. Inr (map_option ((#) (mem m p)) r)))
      else Inr None)"
  by pat_completeness auto
termination
proof (relation "measure (\<lambda>(d, s, ep, m). unat ep - unat s)")
  fix d s ep :: u32 and m :: kmem
  assume "s < ep"
  then have l: "unat s < unat ep" by (simp add: word_less_nat_alt)
  then have "unat (s + 1) = Suc (unat s)" using unat_lt32 [of ep] by (subst unat_add_lt) auto
  then show "((d, s + 1, ep, m), d, s, ep, m) \<in> measure (\<lambda>(d, s, ep, m). unat ep - unat s)" using l by simp
qed simp

declare fetchstr_from.simps [simp del]

text \<open>The string that \<open>*pp\<close> is set to point to; its length is what \<open>fetchstr\<close> returns.\<close>

definition fetchstr :: "proc \<Rightarrow> u32 \<Rightarrow> kmem \<Rightarrow> u8 list option res" where
  "fetchstr p addr m = (if addr \<ge> psz p then Inr None else fetchstr_from (pgdir p) addr (psz p) m)"

definition argint :: "nat \<Rightarrow> u32 \<Rightarrow> kern \<Rightarrow> u32 option res" where
  "argint me n s = fetchint (ptab s me) (tf_esp (tf (ptab s me)) + 4 + 4 * n) (kmx s)"

definition argptr :: "nat \<Rightarrow> u32 \<Rightarrow> int \<Rightarrow> kern \<Rightarrow> u32 option res" where
  "argptr me n len s = kbind (argint me n s) (\<lambda>r. case r of
     None \<Rightarrow> Inr None
   | Some i \<Rightarrow> if i \<ge> psz (ptab s me) \<or> i + of_int len > psz (ptab s me) then Inr None else Inr (Some i))"

definition argstr :: "nat \<Rightarrow> u32 \<Rightarrow> kern \<Rightarrow> u8 list option res" where
  "argstr me n s = kbind (argint me n s) (\<lambda>r. case r of
     None \<Rightarrow> Inr None | Some addr \<Rightarrow> fetchstr (ptab s me) addr (kmx s))"

text \<open>
  How a call leaves the kernel: with a result, asleep (with what it keeps on its stack: where a pipe write goes on, the
  \<open>ticks0\<close> of \<open>sleep\<close>), spinning on a flag in user memory, or not at all.
\<close>

datatype sysres = SRet int | SBlock nat | SSpin | SGone

definition with_arg :: "'a option res \<Rightarrow> kern \<Rightarrow> ('a \<Rightarrow> (sysres \<times> kern) res) \<Rightarrow> (sysres \<times> kern) res" where
  "with_arg r s f = kbind r (\<lambda>v. case v of None \<Rightarrow> Inr (SRet (-1), s) | Some a \<Rightarrow> f a)"

section \<open>Process calls\<close>

definition sys_fork :: "u32 \<Rightarrow> nat \<Rightarrow> kern \<Rightarrow> (sysres \<times> kern) res" where
  "sys_fork forkret me s = kbind (fork forkret me s) (\<lambda>(r, s). Inr (SRet r, s))"

definition sys_exit :: "nat \<Rightarrow> kern \<Rightarrow> (sysres \<times> kern) res" where
  "sys_exit me s = kbind (exit me s) (\<lambda>s. Inr (SGone, s))"

definition pout_ret :: "pout \<Rightarrow> sysres" where
  "pout_ret r = (case r of PRet n \<Rightarrow> SRet n | PSleep \<Rightarrow> SBlock 0)"

definition sys_wait :: "nat \<Rightarrow> kern \<Rightarrow> (sysres \<times> kern) res" where
  "sys_wait me s = kbind (wait me s) (\<lambda>(r, s). Inr (pout_ret r, s))"

definition sys_kill :: "nat \<Rightarrow> kern \<Rightarrow> (sysres \<times> kern) res" where
  "sys_kill me s = with_arg (argint me 0 s) s (\<lambda>n. let (r, s) = kill (sint n) s in Inr (SRet r, s))"

definition sys_getpid :: "nat \<Rightarrow> kern \<Rightarrow> (sysres \<times> kern) res" where
  "sys_getpid me s = Inr (SRet (pid (ptab s me)), s)"

definition sys_sbrk :: "nat \<Rightarrow> kern \<Rightarrow> (sysres \<times> kern) res" where
  "sys_sbrk me s = with_arg (argint me 0 s) s (\<lambda>n.
     let addr = sint (psz (ptab s me)) in
     kbind (growproc me (sint n) s) (\<lambda>(r, s). Inr (SRet (if r < 0 then -1 else addr), s)))"

text \<open>The loop of \<open>sys_sleep\<close>: \<open>n\<close> is compared as \<open>uint\<close>.\<close>

definition sleep_loop :: "nat \<Rightarrow> u32 \<Rightarrow> u32 \<Rightarrow> kern \<Rightarrow> (sysres \<times> kern) res" where
  "sleep_loop me n ticks0 s =
     (if kticks s - ticks0 < n then
        if killed (ptab s me) then Inr (SRet (-1), s)
        else kbind (sleep (Some me) CTicks True s) (\<lambda>s. Inr (SBlock (unat ticks0), s))
      else Inr (SRet 0, s))"

definition sys_sleep :: "nat \<Rightarrow> kern \<Rightarrow> (sysres \<times> kern) res" where
  "sys_sleep me s = with_arg (argint me 0 s) s (\<lambda>n. sleep_loop me n (kticks s) s)"

definition sys_uptime :: "nat \<Rightarrow> kern \<Rightarrow> (sysres \<times> kern) res" where
  "sys_uptime me s = Inr (SRet (sint (kticks s)), s)"

text \<open>The size of the arguments is the value of \<open>sizeof(x) < 0\<close>, which is 0.\<close>

definition sys_clone :: "u32 \<Rightarrow> nat \<Rightarrow> kern \<Rightarrow> (sysres \<times> kern) res" where
  "sys_clone forkret me s =
     with_arg (argptr me 0 0 s) s (\<lambda>fcn. with_arg (argptr me 1 0 s) s (\<lambda>arg. with_arg (argptr me 2 0 s) s (\<lambda>stack.
       kbind (clone forkret me fcn arg stack s) (\<lambda>(r, s). Inr (SRet r, s)))))"

definition sys_join :: "nat \<Rightarrow> kern \<Rightarrow> (sysres \<times> kern) res" where
  "sys_join me s = with_arg (argptr me 0 0 s) s (\<lambda>stack.
     kbind (join me stack s) (\<lambda>(r, s). Inr (pout_ret r, s)))"

text \<open>
  A \<open>cond_t\<close> lies in user memory, with pointers into \<open>ptable.proc\<close>; \<open>PT\<close> is the address of that array and 132 the size
  of its elements. A word that points to no element is the slot \<open>NPROC\<close>.
\<close>

definition proc_slot :: "u32 \<Rightarrow> u32 \<Rightarrow> nat" where
  "proc_slot PT v = (case find (\<lambda>i. PT + of_nat (132 * i) = v) [0..<NPROC] of Some i \<Rightarrow> i | None \<Rightarrow> NPROC)"

definition load_cond :: "u32 \<Rightarrow> u32 \<Rightarrow> kmem \<Rightarrow> u32 \<Rightarrow> cond res" where
  "load_cond PT d m a = kbind (uload d m a 48) (\<lambda>bs. let w = (\<lambda>i. ld32 (\<lambda>j. bs ! j) (4 * i)) in
     Inr \<lparr>thqueue = (\<lambda>i. proc_slot PT (w i)), chead = w 8, ctail = w 9, cflag = w 10, ccount = w 11\<rparr>)"

definition sys_cond_wait :: "u32 \<Rightarrow> nat \<Rightarrow> kern \<Rightarrow> (sysres \<times> kern) res" where
  "sys_cond_wait PT me s =
     with_arg (argptr me 0 0 s) s (\<lambda>cv. with_arg (argptr me 1 0 s) s (\<lambda>lock.
       let d = pgdir (ptab s me) in
       kbind (uload32 d (kmx s) lock) (\<lambda>lk.
       kbind (load_cond PT d (kmx s) cv) (\<lambda>c.
       if lk \<noteq> 0 \<and> ccount c \<noteq> 8 \<and> cflag c \<noteq> 0 then Inr (SSpin, s)
       else if lk \<noteq> 0 \<and> ccount c \<noteq> 8 \<and> ctail c \<ge> 8 then Inl (Fault ''thqueue index'')
       else kbind (cond_wait me c lk s) (\<lambda>(c', lk', s).
         kbind (ustore32 d (cv + 4 * ctail c) (PT + of_nat (132 * me)) (kmx s)) (\<lambda>m.
         kbind (ustore32 d (cv + 36) (ctail c') m) (\<lambda>m.
         kbind (ustore32 d (cv + 44) (ccount c') m) (\<lambda>m.
         kbind (ustore32 d (cv + 40) (cflag c') m) (\<lambda>m.
         kbind (ustore32 d lock lk' m) (\<lambda>m. Inr (SBlock 0, s\<lparr>kmx := m\<rparr>)))))))))))"

definition sys_cond_signal :: "u32 \<Rightarrow> nat \<Rightarrow> kern \<Rightarrow> (sysres \<times> kern) res" where
  "sys_cond_signal PT me s =
     with_arg (argptr me 0 0 s) s (\<lambda>cv.
       let d = pgdir (ptab s me) in
       kbind (load_cond PT d (kmx s) cv) (\<lambda>c.
       if cflag c \<noteq> 0 then Inr (SSpin, s)
       else if ccount c \<noteq> 0 \<and> chead c \<ge> 8 then Inl (Fault ''thqueue index'')
       else if ccount c \<noteq> 0 \<and> thqueue c (unat (chead c)) = NPROC then Inl (Fault ''process pointer'')
       else let (c', s) = cond_signal c s in
         kbind (ustore32 d (cv + 32) (chead c') (kmx s)) (\<lambda>m.
         kbind (ustore32 d (cv + 44) (ccount c') m) (\<lambda>m.
         kbind (ustore32 d (cv + 40) (cflag c') m) (\<lambda>m. Inr (SRet 0, s\<lparr>kmx := m\<rparr>))))))"

definition sys_cond_init :: "nat \<Rightarrow> kern \<Rightarrow> (sysres \<times> kern) res" where
  "sys_cond_init me s =
     with_arg (argptr me 0 0 s) s (\<lambda>cv.
       kbind (ustore (pgdir (ptab s me)) (cv + 32) (replicate 16 0) (kmx s)) (\<lambda>m. Inr (SRet 0, s\<lparr>kmx := m\<rparr>)))"

section \<open>Argument fetching\<close>

text \<open>Every address below \<open>sz\<close> is mapped; the byte of the process at an address.\<close>

definition umapped :: "proc \<Rightarrow> kmem \<Rightarrow> bool" where
  "umapped p m \<longleftrightarrow> psz p \<le> USERTOP \<and> (\<forall>a. a < psz p \<longrightarrow> upa (pgdir p) m a \<noteq> None)"

definition uget :: "proc \<Rightarrow> kmem \<Rightarrow> u32 \<Rightarrow> u8" where
  "uget p m a = mem m (the (upa (pgdir p) m a))"

lemma umapped_below:
  assumes "umapped p m" "unat a + i < unat (psz p)"
  shows "upa (pgdir p) m (a + of_nat i) \<noteq> None" "unat (a + of_nat i) = unat a + i"
proof -
  have i: "unat (of_nat i :: u32) = i" using assms(2) unat_lt32 [of "psz p"] by (intro unat_u32) simp
  show u: "unat (a + of_nat i) = unat a + i"
    using assms(2) unat_lt32 [of "psz p"] i by (subst unat_add_lt) simp_all
  then show "upa (pgdir p) m (a + of_nat i) \<noteq> None"
    using assms unfolding umapped_def by (metis word_less_nat_alt)
qed

lemma uload_ok:
  assumes "\<And>i. i < n \<Longrightarrow> upa d m (a + of_nat i) \<noteq> None"
  shows "uload d m a n = Inr (map (\<lambda>i. mem m (the (upa d m (a + of_nat i)))) [0..<n])"
proof -
  have t: "those (map f is) = Some (map (\<lambda>i. the (f i)) is)" if "\<And>i. i \<in> set is \<Longrightarrow> f i \<noteq> None" for f :: "nat \<Rightarrow> u32 option" and "is"
    using that by (induction "is") (auto split: option.splits)
  have "those (map (\<lambda>i. upa d m (a + of_nat i)) [0..<n]) = Some (map (\<lambda>i. the (upa d m (a + of_nat i))) [0..<n])"
    using assms by (intro t) auto
  then show ?thesis by (simp add: uload_def)
qed

lemma fetchint_eq:
  assumes "umapped p m"
  shows "fetchint p a m = Inr (if unat a + 4 \<le> unat (psz p) then Some (ld32 (\<lambda>i. uget p m (a + of_nat i)) (0 :: nat)) else None)"
proof -
  have z: "unat (psz p) \<le> 655360" using assms by (simp add: umapped_def word_le_nat_alt)
  show ?thesis
  proof (cases "unat a + 4 \<le> unat (psz p)")
    case True
    have "unat (a + 4) = unat a + 4" using True z by (subst unat_add_lt) simp_all
    then have c: "\<not> (a \<ge> psz p \<or> a + 4 > psz p)" using True by (simp add: word_le_nat_alt word_less_nat_alt)
    have "uload (pgdir p) m a 4 = Inr (map (\<lambda>i. uget p m (a + of_nat i)) [0..<4])"
      unfolding uget_def using True by (intro uload_ok umapped_below(1) [OF assms]) simp
    then show ?thesis using c True by (simp add: fetchint_def uload32_def ld32_def)
  next
    case False
    have "a \<ge> psz p \<or> a + 4 > psz p"
    proof (cases "a \<ge> psz p")
      case f: False
      then have "unat a < unat (psz p)" by (simp add: word_less_nat_alt not_le)
      then have "unat (a + 4) = unat a + 4" using z by (subst unat_add_lt) simp_all
      then show ?thesis using False by (simp add: word_less_nat_alt)
    qed simp
    then show ?thesis using False by (simp add: fetchint_def)
  qed
qed

text \<open>The characters before the first zero byte of the next \<open>n\<close>.\<close>

definition ustring :: "proc \<Rightarrow> kmem \<Rightarrow> u32 \<Rightarrow> nat \<Rightarrow> u8 list option" where
  "ustring p m a n = (let bs = map (\<lambda>i. uget p m (a + of_nat i)) [0..<n] in
     if 0 \<in> set bs then Some (takeWhile (\<lambda>c. c \<noteq> 0) bs) else None)"

lemma ustring_Suc:
  "ustring p m a (Suc n) = (if uget p m a = 0 then Some [] else map_option ((#) (uget p m a)) (ustring p m (a + 1) n))"
proof -
  have "map (\<lambda>i. uget p m (a + of_nat i)) [0..<Suc n] = uget p m a # map (\<lambda>i. uget p m (a + 1 + of_nat i)) [0..<n]"
    by (simp add: upt_conv_Cons map_Suc_upt [symmetric] add.assoc del: upt_Suc)
  then show ?thesis unfolding ustring_def by (auto simp: Let_def)
qed

lemma fetchstr_from_eq:
  assumes "umapped p m" "unat a + n = unat (psz p)"
  shows "fetchstr_from (pgdir p) a (psz p) m = Inr (ustring p m a n)"
  using assms(2)
proof (induction n arbitrary: a)
  case 0
  then have "\<not> a < psz p" by (simp add: word_less_nat_alt)
  then show ?case by (subst fetchstr_from.simps) (simp add: ustring_def)
next
  case (Suc n)
  then have l: "a < psz p" by (simp add: word_less_nat_alt)
  have "unat (a + 1) = unat a + 1"
    using l unat_lt32 [of "psz p"] by (subst unat_add_lt) (simp_all add: word_less_nat_alt)
  then have ih: "fetchstr_from (pgdir p) (a + 1) (psz p) m = Inr (ustring p m (a + 1) n)"
    using Suc.prems by (intro Suc.IH) simp
  have "upa (pgdir p) m a \<noteq> None" using assms(1) l by (simp add: umapped_def)
  then obtain q where q: "upa (pgdir p) m a = Some q" by blast
  then have u: "uget p m a = mem m q" by (simp add: uget_def)
  show ?case
    unfolding ustring_Suc u
    by (subst fetchstr_from.simps) (simp add: l q ih)
qed

text \<open>A user address of \<open>uspace\<close> is mapped, and its byte is that of the address space.\<close>

lemma uspace_upa:
  assumes "uspace m d pt fr ps" "unat a < 4096 * UPAGES" "fr (unat a div 4096) = Some p"
  shows "upa d m a = Some (p + a mod 4096)"
proof -
  let ?k = "unat a div 4096"
  have k: "?k < UPAGES" using assms(2) by simp
  have "PDX a = 0" using assms(2) by (simp add: word_unat_eq_iff unat_PDX)
  moreover have "PTX a = of_nat ?k" using assms(2) by (intro word_eq_unatI) (simp add: unat_PTX unat_u32)
  moreover have "pte_maps (ld32 (mem m) (pte_at pt ?k)) (Some p)" "present (ld32 (mem m) d)" "PTE_ADDR (ld32 (mem m) d) = pt"
    using assms(1) k assms(3) unfolding uspace_def by (metis, blast, blast)
  ultimately show ?thesis by (simp add: upa_def pte_at_def pte_maps_def Let_def)
qed

lemma uspace_uget:
  assumes "uspace m (pgdir p) pt fr ps" "unat a < 4096 * UPAGES" "fr (unat a div 4096) \<noteq> None"
  shows "ubyte m fr a = Some (uget p m a)"
proof -
  obtain q where q: "fr (unat a div 4096) = Some q" using assms(3) by blast
  have "unat (a - PGROUNDDOWN a) = unat (a mod 4096)" unfolding page_of(2) by (simp add: unat_mod_distrib)
  then have "a - PGROUNDDOWN a = a mod 4096" by (rule word_eq_unatI)
  then show ?thesis by (simp add: ubyte_def uget_def q uspace_upa [where fr = fr, OF assms(1,2) q])
qed

text \<open>The process of \<open>demo_run\<close> with one page, whose second word is 4092.\<close>

lemma demo_args:
  obtains u where "umapped (ptab (demo_run u) 0) u" "argint 0 0 (demo_run u) = Inr (Some 4092)"
    "uget (ptab (demo_run u) 0) u 4092 = 0" "upa 0x200000 u 4124 = None" "pgdir (ptab (demo_run u) 0) = 0x200000" "kmx (demo_run u) = u"
proof -
  let ?fr = "[0 \<mapsto> 0x202000] :: nat \<Rightarrow> u32 option"
  obtain u0 where u0: "uspace u0 0x200000 0x201000 ?fr [0x203000]" "\<And>a. unat (a - 0x202000) < 4096 \<Longrightarrow> mem u0 a = 0"
    using allocuvm_ok [OF demo_vm_uspace, of 0 4096] by (auto simp: new_pages_def upt_rec)
  have "?fr (x div 4096) \<noteq> None" if "unat (4 :: u32) \<le> x" "x < unat (4 :: u32) + unat (4 :: u32)" for x using that by simp
  from copyout_ok [OF u0(1), of 4 4 "st32 (\<lambda>_. 0) 0 4092", OF _ this] obtain u
    where u: "uspace u 0x200000 0x201000 ?fr [0x203000]" "\<And>a. unat a < 4096 * UPAGES \<Longrightarrow> ubyte u ?fr a =
      (if 4 \<le> unat a \<and> unat a < 8 then Some (st32 (\<lambda>_. 0) 0 4092 (unat a - 4)) else ubyte u0 ?fr a)" by auto
  let ?p = "ptab (demo_run u) 0"
  have p: "pgdir ?p = 0x200000" "psz ?p = 4096" by (simp_all add: demo_run_def demo_kern_def demo_proc_def fkern.defs)
  note up = u(1) [folded p(1)]
  have "upa (pgdir ?p) u a \<noteq> None" if "a < 4096" for a
    using uspace_upa [where fr = ?fr, OF up, of a] that by (simp add: word_less_nat_alt)
  then have 1: "umapped ?p u" by (simp add: umapped_def p)
  have 2: "uget ?p u (4 + a) = st32 (\<lambda>_. 0) (0 :: nat) 4092 (unat a)" if "unat a < 4" for a :: u32
  proof -
    have x: "unat (4 + a) = 4 + unat a" using that by (subst unat_add_lt) simp_all
    then show ?thesis using uspace_uget [where fr = ?fr, OF up, of "4 + a"] u(2) [of "4 + a"] that by simp
  qed
  have "ubyte u0 ?fr 4092 = Some 0" using u0(2) by (simp add: ubyte_def PGROUNDDOWN_def)
  then have 3: "uget ?p u 4092 = 0" using uspace_uget [where fr = ?fr, OF up, of 4092] u(2) [of 4092] by simp
  have l: "(1 :: nat) < UPAGES" by simp
  have m1: "pte_maps (ld32 (mem u) (pte_at 0x201000 1)) (?fr 1)"
    using u(1) [unfolded uspace_def, THEN conjunct2, THEN conjunct2, THEN conjunct2, THEN conjunct2, THEN conjunct2,
      THEN conjunct2, THEN conjunct2, THEN conjunct2, THEN conjunct1] l by blast
  have m2: "PTE_ADDR (ld32 (mem u) 0x200000) = 0x201000" using u(1) unfolding uspace_def by blast
  have 4: "upa 0x200000 u 4124 = None" using m1 by (simp add: upa_def m2 Let_def pte_maps_def pte_at_def PDX_def PTX_def)
  have k: "kmx (demo_run u) = u" "tf_esp (tf ?p) = 0" by (simp_all add: demo_run_def demo_kern_def demo_proc_def fkern.defs)
  have "ld32 (\<lambda>i. uget ?p u (4 + of_nat i)) (0 :: nat) = ld32 (st32 (\<lambda>_. 0) (0 :: nat) 4092) (0 :: nat)"
    using 2 [of 0] 2 [of 1] 2 [of 2] 2 [of 3] unfolding ld32_def by (simp add: numeral_2_eq_2 [symmetric])
  then have "argint 0 0 (demo_run u) = Inr (Some 4092)" using fetchint_eq [OF 1, of 4] by (simp add: argint_def p k)
  from 1 this 3 4 p(1) k(1) show ?thesis by (rule that)
qed

text \<open>
  C22. Argument checks of a system call, when every page below \<open>sz\<close> is mapped: fetching an argument never traps in
  the kernel. \<open>argint\<close> succeeds exactly if the four bytes of the argument lie below \<open>sz\<close>, and gives the word there.
  \<open>argptr\<close> with a size that is not negative succeeds exactly if the whole block lies below \<open>sz\<close>. \<open>argstr\<close> succeeds exactly
  if the string is terminated below \<open>sz\<close>, and gives its characters.
\<close>

theorem syscall_arguments:
  fixes n :: u32
  assumes "umapped (ptab s me) (kmx s)" "0 \<le> len" "len < 2 ^ 31"
  defines "p \<equiv> ptab s me"
  defines "arg \<equiv> tf_esp (tf p) + 4 + 4 * n"
  shows "\<exists>v. argint me n s = Inr v \<and>
    v = (if unat arg + 4 \<le> unat (psz p) then Some (ld32 (\<lambda>i. uget p (kmx s) (arg + of_nat i)) (0 :: nat)) else None) \<and>
    argptr me n len s = Inr (case v of None \<Rightarrow> None
      | Some i \<Rightarrow> if unat i < unat (psz p) \<and> unat i + nat len \<le> unat (psz p) then Some i else None) \<and>
    argstr me n s = Inr (case v of None \<Rightarrow> None
      | Some a \<Rightarrow> if a < psz p then ustring p (kmx s) a (unat (psz p) - unat a) else None)"
proof -
  have m: "umapped p (kmx s)" and z: "unat (psz p) \<le> 655360" using assms(1) by (simp_all add: umapped_def word_le_nat_alt p_def)
  define v where "v = (if unat arg + 4 \<le> unat (psz p) then Some (ld32 (\<lambda>i. uget p (kmx s) (arg + of_nat i)) (0 :: nat)) else None)"
  have int: "argint me n s = Inr v"
    unfolding argint_def p_def [symmetric] arg_def [symmetric] v_def by (rule fetchint_eq [OF m])
  have ptr: "(\<not> (i \<ge> psz p \<or> i + of_int len > psz p)) = (unat i < unat (psz p) \<and> unat i + nat len \<le> unat (psz p))" for i
  proof (cases "i < psz p")
    case True
    have "of_int len = (of_nat (nat len) :: u32)" using assms(2) by simp
    moreover have l: "unat (of_nat (nat len) :: u32) = nat len" using assms(3) by (intro unat_u32) simp
    moreover have "unat (i + of_nat (nat len)) = unat i + nat len"
      using True z assms(2,3) l by (subst unat_add_lt) (auto simp: word_less_nat_alt)
    ultimately show ?thesis using True by (simp add: word_less_nat_alt word_le_nat_alt not_le not_less)
  qed (simp add: word_less_nat_alt word_le_nat_alt)
  have "argptr me n len s = Inr (case v of None \<Rightarrow> None
      | Some i \<Rightarrow> if unat i < unat (psz p) \<and> unat i + nat len \<le> unat (psz p) then Some i else None)"
    unfolding argptr_def int p_def [symmetric] using ptr by (auto split: option.split)
  moreover have "fetchstr p a (kmx s) = Inr (if a < psz p then ustring p (kmx s) a (unat (psz p) - unat a) else None)" for a
    unfolding fetchstr_def using fetchstr_from_eq [OF m, of a "unat (psz p) - unat a"]
    by (auto simp: word_less_nat_alt word_le_nat_alt not_le)
  then have "argstr me n s = Inr (case v of None \<Rightarrow> None
      | Some a \<Rightarrow> if a < psz p then ustring p (kmx s) a (unat (psz p) - unat a) else None)"
    unfolding argstr_def int p_def [symmetric] by (simp split: option.split)
  ultimately show ?thesis using int by (auto simp: v_def)
qed




lemma syscall_arguments_witness:
  "\<exists>u. argptr 0 0 4 (demo_run u) = Inr (Some 4092) \<and> argptr 0 0 5 (demo_run u) = Inr None \<and> argstr 0 0 (demo_run u) = Inr (Some [])"
proof -
  obtain u where u: "umapped (ptab (demo_run u) 0) u" "argint 0 0 (demo_run u) = Inr (Some 4092)"
    "uget (ptab (demo_run u) 0) u 4092 = 0" "upa 0x200000 u 4124 = None" "pgdir (ptab (demo_run u) 0) = 0x200000" "kmx (demo_run u) = u"
    by (rule demo_args)
  have p: "psz (ptab (demo_run u) 0) = 4096" by (simp add: demo_run_def demo_kern_def demo_proc_def fkern.defs)
  note a = u(2)
  have "ustring (ptab (demo_run u) 0) u 4092 4 = Some []" using ustring_Suc [of _ _ 4092 3] u(3) by simp
  moreover have m: "umapped (ptab (demo_run u) 0) (kmx (demo_run u))" using u(1,6) by simp
  have "argptr 0 0 len (demo_run u) = Inr (if 4092 + nat len \<le> 4096 then Some 4092 else None) \<and>
      argstr 0 0 (demo_run u) = Inr (ustring (ptab (demo_run u) 0) u 4092 4)" if l: "0 \<le> len" "len < 2 ^ 31" for len
  proof -
    obtain v where v: "argint 0 0 (demo_run u) = Inr v" "argptr 0 0 len (demo_run u) = Inr (case v of None \<Rightarrow> None
      | Some i \<Rightarrow> if unat i < unat (psz (ptab (demo_run u) 0)) \<and> unat i + nat len \<le> unat (psz (ptab (demo_run u) 0)) then Some i else None)"
      "argstr 0 0 (demo_run u) = Inr (case v of None \<Rightarrow> None | Some a \<Rightarrow> if a < psz (ptab (demo_run u) 0) then
        ustring (ptab (demo_run u) 0) (kmx (demo_run u)) a (unat (psz (ptab (demo_run u) 0)) - unat a) else None)"
      using syscall_arguments [OF m l, of 0] by (elim exE conjE) (rule that)
    moreover have "v = Some 4092" using v(1) a by simp
    ultimately show ?thesis by (simp add: p u(6))
  qed
  from this [of 4] this [of 5] calculation show ?thesis by (intro exI [of _ u]) simp
qed

text \<open>
  A condition variable at the end of the address space stops the kernel: \<open>sys_cond_init\<close>, like the other thread calls,
  asks \<open>argptr\<close> for the size \<open>sizeof(void*) < 0\<close>, which is 0, so any address below \<open>sz\<close> passes; when the counters of the structure
  at that address are not mapped, the kernel's store traps and \<open>trap\<close> panics.
\<close>

theorem cond_init_unchecked:
  assumes "argint me 0 s = Inr (Some cv)" "cv < psz (ptab s me)" "upa (pgdir (ptab s me)) (kmx s) (cv + 32) = None"
  shows "sys_cond_init me s = Inl (Panic ''trap'')"
proof -
  have "argptr me 0 0 s = Inr (Some cv)" using assms(1,2) by (simp add: argptr_def not_le)
  moreover have "ustore (pgdir (ptab s me)) (cv + 32) (0 # replicate 15 0) (kmx s) = Inl (Panic ''trap'')"
    using assms(3) by simp
  moreover have "replicate 16 0 = 0 # replicate 15 (0 :: u8)" by (simp add: numeral_eq_Suc)
  ultimately show ?thesis by (simp only: sys_cond_init_def with_arg_def kbind_simps option.case)
qed

lemma cond_init_unchecked_witness:
  "\<exists>s. umapped (ptab s 0) (kmx s) \<and> sys_cond_init 0 s = Inl (Panic ''trap'')"
proof -
  obtain u where u: "umapped (ptab (demo_run u) 0) u" "argint 0 0 (demo_run u) = Inr (Some 4092)"
    "uget (ptab (demo_run u) 0) u 4092 = 0" "upa 0x200000 u 4124 = None" "pgdir (ptab (demo_run u) 0) = 0x200000" "kmx (demo_run u) = u"
    by (rule demo_args)
  have p: "psz (ptab (demo_run u) 0) = 4096" by (simp add: demo_run_def demo_kern_def demo_proc_def fkern.defs)
  from cond_init_unchecked [OF u(2)] u(1,4,5,6) show ?thesis
    by (intro exI [of _ "demo_run u"]) (simp add: p)
qed

end
