(* ===== verification/Exec.thy ===== *)
theory Exec imports Dir Proc Contents begin

text \<open>
  kernel/exec.c, and \<open>loaduvm\<close> of kernel/vm.c: replacing the image of a process by a program file and its arguments.
  The strings of \<open>argv\<close> are given as lists of characters, the list ending where \<open>argv\<close> has its null pointer.
\<close>

abbreviation MAXARG :: nat where "MAXARG \<equiv> 32"
abbreviation ELF_MAGIC :: u32 where "ELF_MAGIC \<equiv> 0x464C457F"

section \<open>Loading segments\<close>

text \<open>
  The loop of \<open>loaduvm\<close> over the offsets \<open>i\<close> of its pages. (For \<open>sz\<close> above $2^{32} - 4096$ the counter of the code would
  wrap around; \<open>readi\<close> has failed long before.)
\<close>

fun loaduvm_loop :: "devsw \<Rightarrow> u32 \<Rightarrow> u32 \<Rightarrow> nat \<Rightarrow> u32 \<Rightarrow> u32 \<Rightarrow> u32 list \<Rightarrow> fsys \<Rightarrow> kmem \<Rightarrow> (int \<times> fsys \<times> kmem) res" where
  "loaduvm_loop D d addr ip offset sz [] x m = Inr (0, x, m)"
| "loaduvm_loop D d addr ip offset sz (i # is) x m =
     (let (pte, m) = walkpgdir d (addr + i) False m in
      if pte = 0 then Inl (Panic ''loaduvm: address should exist'')
      else let pa = PTE_ADDR (ld32 (mem m) pte); n = (if sz - i < 4096 then sz - i else 4096) in
        kbind (readi D ip (offset + i) n x) (\<lambda>(r, bs, x).
          let m = m\<lparr>mem := put_bytes (mem m) pa (\<lambda>j. bs ! j) (length bs)\<rparr> in
          if of_int r \<noteq> n then Inr (-1, x, m) else loaduvm_loop D d addr ip offset sz is x m))"

definition loaduvm :: "devsw \<Rightarrow> u32 \<Rightarrow> u32 \<Rightarrow> nat \<Rightarrow> u32 \<Rightarrow> u32 \<Rightarrow> fsys \<Rightarrow> kmem \<Rightarrow> (int \<times> fsys \<times> kmem) res" where
  "loaduvm D d addr ip offset sz x m =
     (if addr mod 4096 \<noteq> 0 then Inl (Panic ''loaduvm: addr must be page aligned'')
      else loaduvm_loop D d addr ip offset sz (map (\<lambda>j. of_nat (4096 * j)) [0..<(unat sz + 4095) div 4096]) x m)"

record proghdr =
  ph_type :: u32
  ph_offset :: u32
  ph_va :: u32
  ph_filesz :: u32
  ph_memsz :: u32

definition proghdr_of :: "u8 list \<Rightarrow> proghdr" where
  "proghdr_of bs = (let w = (\<lambda>i. ld32 (\<lambda>j. bs ! j) (i :: nat)) in
     \<lparr>ph_type = w 0, ph_offset = w 4, ph_va = w 8, ph_filesz = w 16, ph_memsz = w 20\<rparr>)"

text \<open>The loop over the program headers: the size reached, or none where the code jumps to \<open>bad\<close>.\<close>

fun load_segments :: "devsw \<Rightarrow> u32 \<Rightarrow> nat \<Rightarrow> u32 list \<Rightarrow> u32 \<Rightarrow> fsys \<Rightarrow> kmem \<Rightarrow> (u32 option \<times> fsys \<times> kmem) res" where
  "load_segments D d ip [] sz x m = Inr (Some sz, x, m)"
| "load_segments D d ip (off # offs) sz x m =
     kbind (readi D ip off 32 x) (\<lambda>(r, bs, x).
     if r \<noteq> 32 then Inr (None, x, m)
     else let ph = proghdr_of bs in
       if ph_type ph \<noteq> 1 then load_segments D d ip offs sz x m
       else if ph_memsz ph < ph_filesz ph then Inr (None, x, m)
       else kbind (allocuvm d sz (ph_va ph + ph_memsz ph) m) (\<lambda>(sz, m).
         if sz = 0 then Inr (None, x, m)
         else kbind (loaduvm D d (ph_va ph) ip (ph_offset ph) (ph_filesz ph) x m) (\<lambda>(r, x, m).
           if r < 0 then Inr (None, x, m) else load_segments D d ip offs sz x m)))"

section \<open>The stack of the new image\<close>

text \<open>The argument strings: the new stack pointer and the pointers \<open>ustack[3..]\<close>.\<close>

definition cstring :: "u8 list \<Rightarrow> cptr" where
  "cstring s = (\<lambda>i. if i < length s then s ! i else 0)"

fun push_args :: "u32 \<Rightarrow> nat \<Rightarrow> u8 list list \<Rightarrow> u32 \<Rightarrow> kmem \<Rightarrow> ((u32 \<times> u32 list) option \<times> kmem) res" where
  "push_args d argc [] sp m = Inr (Some (sp, []), m)"
| "push_args d argc (a # as) sp m =
     (if argc \<ge> MAXARG then Inr (None, m)
      else let n = of_nat (length a) + 1; sp = (sp - n) AND NOT 3 in
        kbind (copyout d sp (cstring a) n m) (\<lambda>(r, m).
        if r < 0 then Inr (None, m)
        else kbind (push_args d (Suc argc) as sp m) (\<lambda>(o1, m).
          Inr (map_option (\<lambda>(sp', ps). (sp', sp # ps)) o1, m))))"

text \<open>The words of \<open>ustack\<close>, as bytes.\<close>

definition ustack_words :: "u32 \<Rightarrow> u32 list \<Rightarrow> u32 list" where
  "ustack_words sp ps = [0xFFFFFFFF, of_nat (length ps), sp - (of_nat (length ps) + 1) * 4] @ ps @ [0]"

definition word_bytes :: "u32 list \<Rightarrow> cptr" where
  "word_bytes ws = (\<lambda>i. if i div 4 < length ws then st32 (\<lambda>_. 0) (0 :: nat) (ws ! (i div 4)) (i mod 4) else 0)"

text \<open>Strings and words: the final stack pointer, or none.\<close>

definition push_stack :: "u32 \<Rightarrow> u8 list list \<Rightarrow> u32 \<Rightarrow> kmem \<Rightarrow> (u32 option \<times> kmem) res" where
  "push_stack d argv sp m =
     kbind (push_args d 0 argv sp m) (\<lambda>(o1, m). case o1 of
       None \<Rightarrow> Inr (None, m)
     | Some (sp, ps) \<Rightarrow>
         let n = 3 + of_nat (length ps) + 1; sp' = sp - n * 4 in
         kbind (copyout d sp' (word_bytes (ustack_words sp ps)) (n * 4) m) (\<lambda>(r, m).
           Inr (if r < 0 then None else Some sp', m)))"

section \<open>exec\<close>

text \<open>The part of the path after its last slash.\<close>

fun last_elem :: "u8 list \<Rightarrow> u8 list \<Rightarrow> u8 list" where
  "last_elem [] l = l"
| "last_elem (c # cs) l = last_elem cs (if c = slash then cs else l)"

definition free_image :: "u32 \<Rightarrow> kern \<Rightarrow> kern res" where
  "free_image d s = (if d = 0 then Inr s else kbind (freevm d (kmx s)) (\<lambda>m. Inr (s\<lparr>kmx := m\<rparr>)))"

text \<open>The label \<open>bad\<close>.\<close>

definition exec_bad :: "u32 \<Rightarrow> nat option \<Rightarrow> kern \<Rightarrow> (int \<times> kern) res" where
  "exec_bad d ip s = kbind (free_image d s) (\<lambda>s. case ip of
     None \<Rightarrow> Inr (-1, s)
   | Some ip \<Rightarrow> kbind (iunlockput ip (fsx s)) (\<lambda>x. Inr (-1, s\<lparr>fsx := x\<rparr>)))"

text \<open>
  The count of the header read is compared as \<open>uint\<close>: when \<open>readi\<close> returns -1 the code goes on with a structure
  that it has not filled.
\<close>

definition exec :: "devsw \<Rightarrow> u8 list \<Rightarrow> u8 list list \<Rightarrow> nat \<Rightarrow> kern \<Rightarrow> (int \<times> kern) res" where
  "exec D path argv me s =
     (case cwd (ptab s me) of None \<Rightarrow> Inl (Fault ''null pointer'')
      | Some c \<Rightarrow>
      kbind (namei c path (fsx s)) (\<lambda>(ip, x).
      let s = s\<lparr>fsx := x\<rparr> in
      case ip of None \<Rightarrow> Inr (-1, s)
      | Some ip \<Rightarrow>
      kbind (ilock ip x) (\<lambda>x.
      kbind (readi D ip 0 52 x) (\<lambda>(r, bs, x).
      let s = s\<lparr>fsx := x\<rparr>; w = (\<lambda>i. ld32 (\<lambda>j. bs ! j) (i :: nat)) in
      if (of_int r :: u32) < 52 then exec_bad 0 (Some ip) s
      else if r < 0 then Inl (Fault ''elf header not read'')
      else if w 0 \<noteq> ELF_MAGIC then exec_bad 0 (Some ip) s
      else
      kbind (setupkvm (kmx s)) (\<lambda>(d, m).
      if d = 0 then exec_bad 0 (Some ip) (s\<lparr>kmx := m\<rparr>)
      else let phnum = unat (ld16 (\<lambda>j. bs ! j) (44 :: nat)) in
      kbind (load_segments D d ip (map (\<lambda>i. w 28 + 32 * of_nat i) [0..<phnum]) 0 x m) (\<lambda>(sz, x, m).
      let s = s\<lparr>fsx := x, kmx := m\<rparr> in
      case sz of None \<Rightarrow> exec_bad d (Some ip) s
      | Some sz \<Rightarrow>
      kbind (iunlockput ip x) (\<lambda>x.
      let s = s\<lparr>fsx := x\<rparr>; sz = PGROUNDUP sz in
      kbind (allocuvm d sz (sz + 4096) m) (\<lambda>(sz, m).
      let s = s\<lparr>kmx := m\<rparr> in
      if sz = 0 then exec_bad d None s
      else
      kbind (push_stack d argv sz m) (\<lambda>(sp, m).
      let s = s\<lparr>kmx := m\<rparr> in
      case sp of None \<Rightarrow> exec_bad d None s
      | Some sp \<Rightarrow>
      let old = pgdir (ptab s me);
          s = upd_proc me (\<lambda>k. k\<lparr>pname := safestrcpy (pname k) (cstring (last_elem path path)) 16,
                pgdir := d, psz := sz, tf := (tf k)\<lparr>tf_eip := w 24, tf_esp := sp\<rparr>\<rparr>) s
      in kbind (freevm old (kmx s)) (\<lambda>m. Inr (0, s\<lparr>kmx := m\<rparr>)))))))))))"

section \<open>What main finds on its stack\<close>

text \<open>The bytes \<open>bs\<close> lie at the user address \<open>a\<close>.\<close>

definition umem :: "kmem \<Rightarrow> (nat \<Rightarrow> u32 option) \<Rightarrow> u32 \<Rightarrow> u8 list \<Rightarrow> bool" where
  "umem m fr a bs \<longleftrightarrow> (\<forall>k < length bs. ubyte m fr (a + of_nat k) = Some (bs ! k))"

text \<open>The room that the strings of the arguments take at most.\<close>

definition arg_room :: "u8 list list \<Rightarrow> nat" where
  "arg_room as = sum_list (map (\<lambda>a. length a + 4) as)"

lemma Suc_Suc_sub: "2 \<le> n \<Longrightarrow> Suc (Suc (n - 2)) = n"
  by simp

lemma unat_and_not_3: "unat ((x :: u32) AND NOT 3) = unat x div 4 * 4"
proof -
  have "x AND NOT (mask 2) = push_bit 2 (drop_bit 2 x)"
    by (rule bit_word_eqI) (auto simp: bit_simps not_less Suc_Suc_sub)
  then have "x AND NOT 3 = (x div 4) * 4"
    by (simp add: mask_eq_exp_minus_1 push_bit_eq_mult drop_bit_eq_div mult.commute)
  then have "unat (x AND NOT 3) = (unat x div 4 * 4) mod 2 ^ 32"
    by (simp add: unat_word_ariths unat_div_distrib mod_simps)
  moreover have "unat x div 4 * 4 \<le> unat x" by simp
  then have "unat x div 4 * 4 < 2 ^ 32" using unat_lt32 [of x] by simp
  ultimately show ?thesis by simp
qed

lemma copyout_mem:
  assumes "uspace m d pt fr ps" "unat va + n \<le> 4096 * UPAGES"
    and "\<And>x. unat va \<le> x \<Longrightarrow> x < unat va + n \<Longrightarrow> fr (x div 4096) \<noteq> None"
  obtains m' where "copyout d va b (of_nat n) m = Inr (0, m')" "uspace m' d pt fr ps"
    "umem m' fr va (map b [0..<n])"
    "\<And>a. unat a < 4096 * UPAGES \<Longrightarrow> unat a < unat va \<or> unat va + n \<le> unat a \<Longrightarrow> ubyte m' fr a = ubyte m fr a"
proof -
  have n: "unat (of_nat n :: u32) = n" using assms(2) by (intro unat_u32) simp
  obtain m' where m: "copyout d va b (of_nat n) m = Inr (0, m')" "uspace m' d pt fr ps"
    "\<forall>a. unat a < 4096 * UPAGES \<longrightarrow> ubyte m' fr a =
      (if unat va \<le> unat a \<and> unat a < unat va + unat (of_nat n :: u32) then Some (b (unat a - unat va)) else ubyte m fr a)"
    using copyout_ok [OF assms(1), of va "of_nat n" b] assms(2,3) unfolding n by blast
  have "umem m' fr va (map b [0..<n])" unfolding umem_def
  proof (intro allI impI)
    fix k assume k: "k < length (map b [0..<n])"
    have "unat (va + of_nat k) = unat va + k" using k assms(2) by (subst unat_add_lt) (simp_all add: unat_u32)
    then show "ubyte m' fr (va + of_nat k) = Some (map b [0..<n] ! k)" using m(3) k assms(2) n by simp
  qed
  moreover have "ubyte m' fr a = ubyte m fr a" if "unat a < 4096 * UPAGES" "unat a < unat va \<or> unat va + n \<le> unat a" for a
    using m(3) that n by auto
  ultimately show ?thesis using that [OF m(1,2)] by blast
qed

lemma umem_cong:
  assumes "umem m fr a bs" "unat a + length bs \<le> 4096 * UPAGES"
    and "\<And>x. unat a \<le> unat x \<Longrightarrow> unat x < unat a + length bs \<Longrightarrow> ubyte m' fr x = ubyte m fr x"
  shows "umem m' fr a bs"
  unfolding umem_def
proof (intro allI impI)
  fix k assume k: "k < length bs"
  have "unat (a + of_nat k) = unat a + k" using k assms(2) by (subst unat_add_lt) (simp_all add: unat_u32)
  then show "ubyte m' fr (a + of_nat k) = Some (bs ! k)" using assms(1,3) k by (simp add: umem_def)
qed

lemma push_args_ok:
  assumes "uspace m d pt fr ps" "unat sp \<le> 4096 * UPAGES" "lo + arg_room as \<le> unat sp" "argc + length as \<le> MAXARG"
    and "\<And>x. lo \<le> x \<Longrightarrow> x < unat sp \<Longrightarrow> fr (x div 4096) \<noteq> None"
  shows "\<exists>sp' qs m'. push_args d argc as sp m = Inr (Some (sp', qs), m') \<and> uspace m' d pt fr ps \<and> length qs = length as \<and>
    unat sp' \<le> unat sp \<and> unat sp \<le> unat sp' + arg_room as \<and>
    (\<forall>i < length as. unat sp' \<le> unat (qs ! i) \<and> unat (qs ! i) + length (as ! i) < unat sp \<and> umem m' fr (qs ! i) (as ! i @ [0])) \<and>
    (\<forall>a. unat a < 4096 * UPAGES \<longrightarrow> unat a < unat sp' \<or> unat sp \<le> unat a \<longrightarrow> ubyte m' fr a = ubyte m fr a)"
  using assms
proof (induction as arbitrary: sp m argc)
  case Nil
  then show ?case by (simp add: arg_room_def)
next
  case (Cons a as)
  define n where "n = length a + 1"
  define q where "q = (sp - of_nat n) AND NOT 3"
  have r: "lo + n + 3 + arg_room as \<le> unat sp" using Cons.prems(3) by (simp add: arg_room_def n_def)
  have "unat (of_nat n :: u32) = n" using r Cons.prems(2) by (intro unat_u32) simp
  then have "unat (sp - of_nat n) = unat sp - n" using r by (subst unat_sub) (simp_all add: word_le_nat_alt)
  then have q: "unat q + n \<le> unat sp" "unat sp \<le> unat q + n + 3" unfolding q_def unat_and_not_3
    using r div_mult_mod_eq [of "unat sp - n" 4] mod_less_divisor [of 4 "unat sp - n"] by linarith+
  have top: "unat q + n \<le> 4096 * UPAGES" using q(1) Cons.prems(2) by (rule le_trans)
  have map: "fr (x div 4096) \<noteq> None" if "unat q \<le> x" "x < unat q + n" for x
    by (rule Cons.prems(5)) (use that q r in linarith)+
  obtain m1 where m1: "copyout d q (cstring a) (of_nat n) m = Inr (0, m1)" "uspace m1 d pt fr ps"
    "umem m1 fr q (map (cstring a) [0..<n])"
    "\<And>x. unat x < 4096 * UPAGES \<Longrightarrow> unat x < unat q \<or> unat q + n \<le> unat x \<Longrightarrow> ubyte m1 fr x = ubyte m fr x"
    using copyout_mem [OF Cons.prems(1) top map, of "cstring a"] by blast
  have s: "map (cstring a) [0..<n] = a @ [0]" by (intro nth_equalityI) (auto simp: n_def cstring_def nth_append)
  have "unat q \<le> 4096 * UPAGES" "lo + arg_room as \<le> unat q" "Suc argc + length as \<le> MAXARG"
    using q r Cons.prems(2,4) by auto
  moreover have "fr (x div 4096) \<noteq> None" if "lo \<le> x" "x < unat q" for x
    by (rule Cons.prems(5)) (use that q in linarith)+
  ultimately obtain sp' qs m' where ih: "push_args d (Suc argc) as q m1 = Inr (Some (sp', qs), m')" "uspace m' d pt fr ps"
    "length qs = length as" "unat sp' \<le> unat q" "unat q \<le> unat sp' + arg_room as"
    "\<forall>i < length as. unat sp' \<le> unat (qs ! i) \<and> unat (qs ! i) + length (as ! i) < unat q \<and> umem m' fr (qs ! i) (as ! i @ [0])"
    "\<forall>x. unat x < 4096 * UPAGES \<longrightarrow> unat x < unat sp' \<or> unat q \<le> unat x \<longrightarrow> ubyte m' fr x = ubyte m1 fr x"
    using Cons.IH [OF m1(2)] by blast
  have "umem m' fr q (a @ [0])"
    by (rule umem_cong [OF m1(3) [unfolded s]]) (use q Cons.prems(2) ih(7) n_def in auto)
  then have "\<forall>i < length (a # as). unat sp' \<le> unat ((q # qs) ! i) \<and> unat ((q # qs) ! i) + length ((a # as) ! i) < unat sp \<and>
      umem m' fr ((q # qs) ! i) ((a # as) ! i @ [0])"
    using ih(4,6) q n_def by (auto simp: nth_Cons split: nat.split)
  moreover have "push_args d argc (a # as) sp m = Inr (Some (sp', q # qs), m')"
    using Cons.prems(4) m1(1) ih(1) unfolding q_def n_def by (simp add: Let_def algebra_simps)
  moreover have "ubyte m' fr x = ubyte m fr x" if "unat x < 4096 * UPAGES" "unat x < unat sp' \<or> unat sp \<le> unat x" for x
    using ih(4,7) m1(4) that q by auto
  ultimately show ?case using ih(2,3,4,5) q n_def by (intro exI conjI) (auto simp: arg_room_def)
qed


definition put_words :: "u32 list \<Rightarrow> u8 list" where
  "put_words ws = map (word_bytes ws) [0..<4 * length ws]"

lemma push_stack_ok:
  assumes "uspace m d pt fr ps" "unat sz \<le> 4096 * UPAGES" "lo + arg_room argv + 4 * (length argv + 4) \<le> unat sz"
    and "length argv \<le> MAXARG" "\<forall>x. lo \<le> x \<longrightarrow> x < unat sz \<longrightarrow> fr (x div 4096) \<noteq> None"
  shows "\<exists>sp qs m'. push_stack d argv sz m = Inr (Some sp, m') \<and> uspace m' d pt fr ps \<and> lo \<le> unat sp \<and> length qs = length argv \<and>
    umem m' fr sp (put_words ([0xFFFFFFFF, of_nat (length argv), sp + 12] @ qs @ [0])) \<and>
    (\<forall>i < length argv. unat sp \<le> unat (qs ! i) \<and> unat (qs ! i) + length (argv ! i) < unat sz \<and> umem m' fr (qs ! i) (argv ! i @ [0])) \<and>
    (\<forall>a. unat a < 4096 * UPAGES \<longrightarrow> unat a < lo \<or> unat sz \<le> unat a \<longrightarrow> ubyte m' fr a = ubyte m fr a)"
proof -
  have "lo + arg_room argv \<le> unat sz" "0 + length argv \<le> MAXARG" using assms(3,4) by simp_all
  from push_args_ok [OF assms(1,2) this assms(5) [rule_format]] obtain sp1 qs m1 where a: "push_args d 0 argv sz m = Inr (Some (sp1, qs), m1)" "uspace m1 d pt fr ps"
    "length qs = length argv" "unat sp1 \<le> unat sz" "unat sz \<le> unat sp1 + arg_room argv"
    "\<forall>i < length argv. unat sp1 \<le> unat (qs ! i) \<and> unat (qs ! i) + length (argv ! i) < unat sz \<and> umem m1 fr (qs ! i) (argv ! i @ [0])"
    "\<forall>x. unat x < 4096 * UPAGES \<longrightarrow> unat x < unat sp1 \<or> unat sz \<le> unat x \<longrightarrow> ubyte m1 fr x = ubyte m fr x"
    by blast
  define n where "n = 4 * (length argv + 4)"
  define sp where "sp = sp1 - of_nat n"
  have n: "lo + n \<le> unat sp1" using a(5) assms(3) by (simp add: n_def)
  then have n32: "unat (of_nat n :: u32) = n" using a(4) assms(2) by (intro unat_u32) simp
  have sp: "unat sp = unat sp1 - n" unfolding sp_def using n n32 by (subst unat_sub) (simp_all add: word_le_nat_alt)
  define ws where "ws = ustack_words sp1 qs"
  have w: "ws = [0xFFFFFFFF, of_nat (length argv), sp + 12] @ qs @ [0]"
    by (simp add: ws_def ustack_words_def sp_def n_def a(3) algebra_simps)
  have "unat sp + n \<le> 4096 * UPAGES" using sp n a(4) assms(2) by simp
  moreover have "fr (x div 4096) \<noteq> None" if "unat sp \<le> x" "x < unat sp + n" for x
    by (rule assms(5) [rule_format]) (use that n sp a(4) in linarith)+
  ultimately obtain m' where m: "copyout d sp (word_bytes ws) (of_nat n) m1 = Inr (0, m')" "uspace m' d pt fr ps"
    "umem m' fr sp (map (word_bytes ws) [0..<n])"
    "\<And>a. unat a < 4096 * UPAGES \<Longrightarrow> unat a < unat sp \<or> unat sp + n \<le> unat a \<Longrightarrow> ubyte m' fr a = ubyte m1 fr a"
    using copyout_mem [OF a(2), of sp n "word_bytes ws"] by blast
  have len: "4 * length ws = n" by (simp add: w n_def a(3))
  have e: "(3 + of_nat (length qs) + 1) * 4 = (of_nat n :: u32)" by (simp add: n_def a(3))
  have p: "push_stack d argv sz m = Inr (Some sp, m')"
    unfolding push_stack_def a(1) kbind_simps prod.case option.case Let_def e using m(1) unfolding sp_def [symmetric] ws_def [symmetric]
    by simp
  have q: "umem m' fr (qs ! i) (argv ! i @ [0])" if i: "i < length argv" for i
  proof (rule umem_cong)
    show "umem m1 fr (qs ! i) (argv ! i @ [0])" "unat (qs ! i) + length (argv ! i @ [0]) \<le> 4096 * UPAGES"
      using a(6) i assms(2) by auto
    show "ubyte m' fr x = ubyte m1 fr x" if "unat (qs ! i) \<le> unat x" "unat x < unat (qs ! i) + length (argv ! i @ [0])" for x
    proof -
      have "unat sp1 \<le> unat (qs ! i)" "unat (qs ! i) + length (argv ! i) < unat sz" using a(6) i by blast+
      then show ?thesis using that sp n assms(2) by (intro m(4)) auto
    qed
  qed
  have "ubyte m' fr x = ubyte m fr x" if "unat x < 4096 * UPAGES" "unat x < lo \<or> unat sz \<le> unat x" for x
    using m(4) [OF that(1)] a(4,7) that sp n by auto
  moreover have "unat sp \<le> unat (qs ! i) \<and> unat (qs ! i) + length (argv ! i) < unat sz \<and> umem m' fr (qs ! i) (argv ! i @ [0])"
    if "i < length argv" for i
  proof -
    have "unat sp \<le> unat sp1" using sp by simp
    moreover have "unat sp1 \<le> unat (qs ! i) \<and> unat (qs ! i) + length (argv ! i) < unat sz" using a(6) that by blast
    ultimately show ?thesis using q [OF that] by auto
  qed
  moreover have "umem m' fr sp (put_words ([0xFFFFFFFF, of_nat (length argv), sp + 12] @ qs @ [0]))"
    using m(3) unfolding put_words_def w [symmetric] len .
  ultimately show ?thesis using p m(2) n sp a(3) by (intro exI [of _ sp] exI [of _ qs] exI [of _ m']) auto
qed




text \<open>
  Long arguments overwrite the program: the stack has one page, but \<open>exec\<close> does not stop at its lower end. When one
  argument has a page or more of characters and the pages below the stack are mapped (they hold the program that has just been loaded),
  \<open>push_stack\<close> succeeds and the string begins below the stack page.
\<close>

theorem exec_stack_overrun:
  assumes "uspace m d pt fr ps" "unat sz \<le> 4096 * UPAGES" "arg_room argv + 4 * (length argv + 4) \<le> unat sz"
    and "length argv \<le> MAXARG" "\<forall>x < unat sz. fr (x div 4096) \<noteq> None" "i < length argv" "4096 \<le> length (argv ! i)"
  shows "\<exists>sp q m'. push_stack d argv sz m = Inr (Some sp, m') \<and> unat q < unat sz - 4096 \<and> umem m' fr q (argv ! i @ [0])"
proof -
  have "0 + arg_room argv + 4 * (length argv + 4) \<le> unat sz" using assms(3) by simp
  moreover have f: "\<forall>x. 0 \<le> x \<longrightarrow> x < unat sz \<longrightarrow> fr (x div 4096) \<noteq> None" using assms(5) by blast
  note push_stack_ok [OF assms(1,2) calculation(1) assms(4) f]
  then obtain sp qs m' where
    p: "push_stack d argv sz m = Inr (Some sp, m')" "\<forall>i < length argv. unat sp \<le> unat (qs ! i) \<and>
      unat (qs ! i) + length (argv ! i) < unat sz \<and> umem m' fr (qs ! i) (argv ! i @ [0])"
    by blast
  have "unat (qs ! i) < unat sz - 4096" "umem m' fr (qs ! i) (argv ! i @ [0])" using p(2) assms(6,7) by auto
  then show ?thesis using p(1) by blast
qed

lemma exec_stack_overrun_witness:
  "\<exists>m fr sp q m'. push_stack 0x200000 [replicate 5000 97] 8192 m = Inr (Some sp, m') \<and> unat q < 4096 \<and>
    umem m' fr q (replicate 5000 97 @ [0])"
proof -
  obtain m where m: "uspace m 0x200000 0x201000 [0 \<mapsto> 0x202000, 1 \<mapsto> 0x203000] []"
    using allocuvm_ok [OF demo_vm_uspace, of 0 8192] by (auto simp: new_pages_def upt_rec)
  let ?a = "[replicate 5000 97] :: u8 list list"
  have f: "([0 \<mapsto> 0x202000, 1 \<mapsto> 0x203000] :: nat \<Rightarrow> u32 option) (x div 4096) \<noteq> None" if "x < 8192" for x
    using that by (cases "x < 4096") (auto simp: div_if)
  have "\<exists>sp q m'. push_stack 0x200000 ?a 8192 m = Inr (Some sp, m') \<and> unat q < unat (8192 :: u32) - 4096 \<and>
    umem m' [0 \<mapsto> 0x202000, 1 \<mapsto> 0x203000] q (?a ! 0 @ [0])"
    by (rule exec_stack_overrun [OF m]) (use f in \<open>auto simp: arg_room_def\<close>)
  then show ?thesis by (elim exE conjE) (intro exI conjI, assumption, simp, simp)
qed

end
