(* ===== verification/Sysfile.thy ===== *)
theory Sysfile imports Syscall Exec begin

text \<open>
  kernel/sysfile.c: the system calls on files. The descriptor table is the field \<open>ofile\<close> of the process. The calls on paths are first
  defined on the file system, where \<open>c\<close> is \<open>proc->cwd\<close>.
\<close>

section \<open>Descriptors\<close>

definition argfd :: "nat \<Rightarrow> u32 \<Rightarrow> kern \<Rightarrow> (nat \<times> nat) option res" where
  "argfd me n s = kbind (argint me n s) (\<lambda>r. Inr (case r of None \<Rightarrow> None
     | Some v \<Rightarrow> let fd = sint v in if fd < 0 \<or> fd \<ge> int NOFILE then None
         else map_option (Pair (nat fd)) (ofile (ptab s me) (nat fd))))"

definition set_fd :: "nat \<Rightarrow> nat \<Rightarrow> nat option \<Rightarrow> kern \<Rightarrow> kern" where
  "set_fd me fd f s = upd_proc me (\<lambda>k. k\<lparr>ofile := (ofile k)(fd := f)\<rparr>) s"

definition fdalloc :: "nat \<Rightarrow> nat \<Rightarrow> kern \<Rightarrow> nat option \<times> kern" where
  "fdalloc me f s = (case find (\<lambda>fd. ofile (ptab s me) fd = None) [0..<NOFILE] of
     Some fd \<Rightarrow> (Some fd, set_fd me fd (Some f) s) | None \<Rightarrow> (None, s))"

definition sys_dup :: "nat \<Rightarrow> kern \<Rightarrow> (sysres \<times> kern) res" where
  "sys_dup me s = with_arg (argfd me 0 s) s (\<lambda>(_, f).
     case fdalloc me f s of (None, s) \<Rightarrow> Inr (SRet (-1), s)
     | (Some fd, s) \<Rightarrow> kbind (filedup f s) (\<lambda>(_, s). Inr (SRet (int fd), s)))"

text \<open>How a transfer ends: with its count, or asleep on a channel of the pipe of file \<open>f\<close> with the resume point \<open>i\<close>.\<close>

definition transfer_end :: "nat \<Rightarrow> nat \<Rightarrow> nat outcome \<Rightarrow> kern \<Rightarrow> (sysres \<times> kern) res" where
  "transfer_end me f r s = (case r of
     Ret k \<Rightarrow> Inr (SRet k, deliver s)
   | Sleep c i \<Rightarrow> kbind (sleep (Some me) (CPipe (fpipe (ftable s f)) c) True (deliver s)) (\<lambda>s. Inr (SBlock i, s)))"

text \<open>The call of \<open>fileread\<close>, which a sleeping read makes again, and the copy to the user buffer.\<close>

definition read_file :: "devsw \<Rightarrow> nat \<Rightarrow> nat \<Rightarrow> u32 \<Rightarrow> int \<Rightarrow> kern \<Rightarrow> (sysres \<times> kern) res" where
  "read_file D me f p n s =
     kbind (fileread D f n (killed (ptab s me)) s) (\<lambda>(bs, r, s).
     kbind (ustore (pgdir (ptab s me)) p bs (kmx s)) (\<lambda>m.
       transfer_end me f (case r of Ret k \<Rightarrow> Ret k | Sleep c _ \<Rightarrow> Sleep c 0) (s\<lparr>kmx := m\<rparr>)))"

definition sys_read :: "devsw \<Rightarrow> nat \<Rightarrow> kern \<Rightarrow> (sysres \<times> kern) res" where
  "sys_read D me s = with_arg (argfd me 0 s) s (\<lambda>(_, f). with_arg (argint me 2 s) s (\<lambda>n.
     with_arg (argptr me 1 (sint n) s) s (\<lambda>p. read_file D me f p (sint n) s)))"

text \<open>
  The bytes of the user buffer, and the number of them that a write has fetched: an address among these that is not mapped traps
  in the kernel.
\<close>

definition user_bytes :: "nat \<Rightarrow> u32 \<Rightarrow> kern \<Rightarrow> cptr" where
  "user_bytes me p s = (\<lambda>i. case upa (pgdir (ptab s me)) (kmx s) (p + of_nat i) of None \<Rightarrow> 0 | Some a \<Rightarrow> mem (kmx s) a)"

definition fetched :: "nat \<Rightarrow> nat outcome \<Rightarrow> kern \<Rightarrow> kern \<Rightarrow> nat" where
  "fetched f r s s' = (case ftype (ftable s f) of
     FD_PIPE \<Rightarrow> unat (nwrite (pipes s' (fpipe (ftable s f))) - nwrite (pipes s (fpipe (ftable s f))))
   | _ \<Rightarrow> (case r of Ret k \<Rightarrow> nat k | Sleep _ i \<Rightarrow> i))"

definition write_end :: "nat \<Rightarrow> nat \<Rightarrow> u32 \<Rightarrow> nat outcome \<Rightarrow> kern \<Rightarrow> kern \<Rightarrow> (sysres \<times> kern) res" where
  "write_end me f p r s s' =
     kbind (uload (pgdir (ptab s me)) (kmx s) p (fetched f r s s')) (\<lambda>_. transfer_end me f r s')"

definition sys_write :: "devsw \<Rightarrow> nat \<Rightarrow> kern \<Rightarrow> (sysres \<times> kern) res" where
  "sys_write D me s = with_arg (argfd me 0 s) s (\<lambda>(_, f). with_arg (argint me 2 s) s (\<lambda>n.
     with_arg (argptr me 1 (sint n) s) s (\<lambda>p.
     kbind (filewrite D f (user_bytes me p s) (sint n) (killed (ptab s me)) s) (\<lambda>(r, s').
       write_end me f p r s s'))))"

text \<open>A write that slept on a full pipe at byte \<open>i\<close> and runs again.\<close>

definition resume_write :: "nat \<Rightarrow> nat \<Rightarrow> u32 \<Rightarrow> int \<Rightarrow> nat \<Rightarrow> kern \<Rightarrow> (sysres \<times> kern) res" where
  "resume_write me f p n i s =
     (let pg = fpipe (ftable s f);
          (q, w, r) = pipewrite_from (pipes s pg) (user_bytes me p s) n (killed (ptab s me)) i
      in write_end me f (p + of_nat i) r s (s\<lparr>pipes := (pipes s)(pg := q), wakes := wakes s @ map (Pair pg) w\<rparr>))"

definition sys_close :: "nat \<Rightarrow> kern \<Rightarrow> (sysres \<times> kern) res" where
  "sys_close me s = with_arg (argfd me 0 s) s (\<lambda>(fd, f).
     kbind (fileclose f (set_fd me fd None s)) (\<lambda>s. Inr (SRet 0, deliver s)))"

text \<open>The fields of \<open>struct stat\<close> (20 bytes) as \<open>stati\<close> stores them at a user address.\<close>

definition ustore_stat :: "u32 \<Rightarrow> u32 \<Rightarrow> stat \<Rightarrow> kmem \<Rightarrow> kmem res" where
  "ustore_stat d a st m =
     (let h = (\<lambda>v. map (st16 (\<lambda>_. 0) (0 :: nat) v) [0..<2]) in
      kbind (ustore32 d (a + 4) (st_dev st) m) (\<lambda>m.
      kbind (ustore32 d (a + 8) (st_ino st) m) (\<lambda>m.
      kbind (ustore d a (h (st_type st)) m) (\<lambda>m.
      kbind (ustore d (a + 12) (h (st_nlink st)) m) (\<lambda>m.
      ustore32 d (a + 16) (st_size st) m)))))"

definition sys_fstat :: "nat \<Rightarrow> kern \<Rightarrow> (sysres \<times> kern) res" where
  "sys_fstat me s = with_arg (argfd me 0 s) s (\<lambda>(_, f). with_arg (argptr me 1 20 s) s (\<lambda>p.
     kbind (filestat f s) (\<lambda>(r, st, s). case st of
       None \<Rightarrow> Inr (SRet r, s)
     | Some st \<Rightarrow> kbind (ustore_stat (pgdir (ptab s me)) p st (kmx s)) (\<lambda>m. Inr (SRet r, s\<lparr>kmx := m\<rparr>)))))"

section \<open>Links\<close>

text \<open>The label \<open>bad\<close> of \<open>sys_link\<close>.\<close>

definition link_bad :: "nat \<Rightarrow> fsys \<Rightarrow> (int \<times> fsys) res" where
  "link_bad ip x =
     kbind (ilock ip x) (\<lambda>x.
     kbind (iunlockput ip (iupdate ip (upd_inode ip (\<lambda>k. k\<lparr>inlink := inlink k - 1\<rparr>) x))) (\<lambda>x. Inr (-1, x)))"

definition link_path :: "devsw \<Rightarrow> nat \<Rightarrow> u8 list \<Rightarrow> u8 list \<Rightarrow> fsys \<Rightarrow> (int \<times> fsys) res" where
  "link_path D c old new x =
     kbind (namei c old x) (\<lambda>(ip, x). case ip of None \<Rightarrow> Inr (-1, x) | Some ip \<Rightarrow>
     kbind (ilock ip x) (\<lambda>x.
     if itype (icache x ip) = T_DIR then kbind (iunlockput ip x) (\<lambda>x. Inr (-1, x))
     else
     kbind (iunlock ip (iupdate ip (upd_inode ip (\<lambda>k. k\<lparr>inlink := inlink k + 1\<rparr>) x))) (\<lambda>x.
     kbind (nameiparent c new x) (\<lambda>(dp, name, x). case dp of None \<Rightarrow> link_bad ip x | Some dp \<Rightarrow>
     kbind (ilock dp x) (\<lambda>x.
     if idev (icache x dp) \<noteq> idev (icache x ip) then kbind (iunlockput dp x) (link_bad ip)
     else kbind (dirlink D dp name (inum (icache x ip)) x) (\<lambda>(r, x).
       if r < 0 then kbind (iunlockput dp x) (link_bad ip)
       else kbind (iunlockput dp x) (\<lambda>x. kbind (iput ip x) (\<lambda>x. Inr (0, x)))))))))"

fun isdirempty_from :: "devsw \<Rightarrow> nat \<Rightarrow> nat list \<Rightarrow> fsys \<Rightarrow> (bool \<times> fsys) res" where
  "isdirempty_from D dp [] x = Inr (True, x)"
| "isdirempty_from D dp (j # js) x =
     kbind (readi D dp (of_nat (16 * j)) 16 x) (\<lambda>(r, bs, x).
       if r \<noteq> 16 then Inl (Panic ''isdirempty: readi'')
       else if ld16 (\<lambda>i. bs ! i) (0 :: nat) \<noteq> 0 then Inr (False, x)
       else isdirempty_from D dp js x)"

definition isdirempty :: "devsw \<Rightarrow> nat \<Rightarrow> fsys \<Rightarrow> (bool \<times> fsys) res" where
  "isdirempty D dp x = isdirempty_from D dp [2..<(unat (isize (icache x dp)) + 15) div 16] x"

definition dot :: cptr where "dot = cstring [46]"
definition dotdot :: cptr where "dotdot = cstring [46, 46]"

definition unlink_path :: "devsw \<Rightarrow> nat \<Rightarrow> u8 list \<Rightarrow> fsys \<Rightarrow> (int \<times> fsys) res" where
  "unlink_path D c path x =
     kbind (nameiparent c path x) (\<lambda>(dp, name, x). case dp of None \<Rightarrow> Inr (-1, x) | Some dp \<Rightarrow>
     kbind (ilock dp x) (\<lambda>x.
     if namecmp name dot = 0 \<or> namecmp name dotdot = 0 then kbind (iunlockput dp x) (\<lambda>x. Inr (-1, x))
     else
     kbind (dirlookup dp name x) (\<lambda>(found, x). case found of
       None \<Rightarrow> kbind (iunlockput dp x) (\<lambda>x. Inr (-1, x))
     | Some (ip, off) \<Rightarrow>
     kbind (ilock ip x) (\<lambda>x.
     if sint (inlink (icache x ip)) < 1 then Inl (Panic ''unlink: nlink < 1'')
     else
     kbind (if itype (icache x ip) = T_DIR then isdirempty D ip x else Inr (True, x)) (\<lambda>(empty, x).
     if \<not> empty then kbind (iunlockput ip x) (\<lambda>x. kbind (iunlockput dp x) (\<lambda>x. Inr (-1, x)))
     else
     kbind (writei D dp (\<lambda>_. 0) off 16 x) (\<lambda>(r, x).
     if r \<noteq> 16 then Inl (Panic ''unlink: writei'')
     else let x = (if itype (icache x ip) = T_DIR
                   then iupdate dp (upd_inode dp (\<lambda>k. k\<lparr>inlink := inlink k - 1\<rparr>) x) else x) in
     kbind (iunlockput dp x) (\<lambda>x.
     kbind (iunlockput ip (iupdate ip (upd_inode ip (\<lambda>k. k\<lparr>inlink := inlink k - 1\<rparr>) x))) (\<lambda>x. Inr (0, x)))))))))"

section \<open>Creating and opening files\<close>

definition create :: "devsw \<Rightarrow> nat \<Rightarrow> u8 list \<Rightarrow> u16 \<Rightarrow> u16 \<Rightarrow> u16 \<Rightarrow> fsys \<Rightarrow> (nat option \<times> fsys) res" where
  "create D c path typ major minor x =
     kbind (nameiparent c path x) (\<lambda>(dp, name, x). case dp of None \<Rightarrow> Inr (None, x) | Some dp \<Rightarrow>
     kbind (ilock dp x) (\<lambda>x.
     kbind (dirlookup dp name x) (\<lambda>(found, x). case found of
       Some (ip, _) \<Rightarrow>
         kbind (iunlockput dp x) (\<lambda>x.
         kbind (ilock ip x) (\<lambda>x.
         if typ = T_FILE \<and> itype (icache x ip) = T_FILE then Inr (Some ip, x)
         else kbind (iunlockput ip x) (\<lambda>x. Inr (None, x))))
     | None \<Rightarrow>
         kbind (ialloc (idev (icache x dp)) typ x) (\<lambda>(ip, x).
         kbind (ilock ip x) (\<lambda>x.
         let x = iupdate ip (upd_inode ip (\<lambda>k. k\<lparr>imajor := major, iminor := minor, inlink := 1\<rparr>) x) in
         kbind (if typ = T_DIR then
             let x = iupdate dp (upd_inode dp (\<lambda>k. k\<lparr>inlink := inlink k + 1\<rparr>) x) in
             kbind (dirlink D ip dot (inum (icache x ip)) x) (\<lambda>(r, x).
             if r < 0 then Inl (Panic ''create dots'')
             else kbind (dirlink D ip dotdot (inum (icache x dp)) x) (\<lambda>(r, x).
               if r < 0 then Inl (Panic ''create dots'') else Inr x))
           else Inr x) (\<lambda>x.
         kbind (dirlink D dp name (inum (icache x ip)) x) (\<lambda>(r, x).
         if r < 0 then Inl (Panic ''create: dirlink'')
         else kbind (iunlockput dp x) (\<lambda>x. Inr (Some ip, x)))))))))"

text \<open>A call on the file system with the working directory of the process.\<close>

definition on_fs :: "nat \<Rightarrow> kern \<Rightarrow> (nat \<Rightarrow> fsys \<Rightarrow> ('a \<times> fsys) res) \<Rightarrow> ('a \<times> kern) res" where
  "on_fs me s f = (case cwd (ptab s me) of None \<Rightarrow> Inl (Fault ''null pointer'')
     | Some c \<Rightarrow> kbind (f c (fsx s)) (\<lambda>(a, x). Inr (a, s\<lparr>fsx := x\<rparr>)))"

definition sys_link :: "devsw \<Rightarrow> nat \<Rightarrow> kern \<Rightarrow> (sysres \<times> kern) res" where
  "sys_link D me s = with_arg (argstr me 0 s) s (\<lambda>old. with_arg (argstr me 1 s) s (\<lambda>new.
     kbind (on_fs me s (\<lambda>c. link_path D c old new)) (\<lambda>(r, s). Inr (SRet r, s))))"

definition sys_unlink :: "devsw \<Rightarrow> nat \<Rightarrow> kern \<Rightarrow> (sysres \<times> kern) res" where
  "sys_unlink D me s = with_arg (argstr me 0 s) s (\<lambda>path.
     kbind (on_fs me s (\<lambda>c. unlink_path D c path)) (\<lambda>(r, s). Inr (SRet r, s)))"

text \<open>The inode \<open>sys_open\<close> works on, locked, or none.\<close>

definition open_inode :: "devsw \<Rightarrow> u8 list \<Rightarrow> u32 \<Rightarrow> nat \<Rightarrow> fsys \<Rightarrow> (nat option \<times> fsys) res" where
  "open_inode D path omode c x =
     (if omode AND 0x200 \<noteq> 0 then create D c path T_FILE 0 0 x
      else kbind (namei c path x) (\<lambda>(ip, x). case ip of None \<Rightarrow> Inr (None, x) | Some ip \<Rightarrow>
        kbind (ilock ip x) (\<lambda>x.
        if itype (icache x ip) = T_DIR \<and> omode \<noteq> 0 then kbind (iunlockput ip x) (\<lambda>x. Inr (None, x))
        else Inr (Some ip, x))))"

definition open_fail :: "nat \<Rightarrow> kern \<Rightarrow> (sysres \<times> kern) res" where
  "open_fail ip s = kbind (iunlockput ip (fsx s)) (\<lambda>x. Inr (SRet (-1), s\<lparr>fsx := x\<rparr>))"

definition open_file :: "nat \<Rightarrow> nat \<Rightarrow> u32 \<Rightarrow> kern \<Rightarrow> (sysres \<times> kern) res" where
  "open_file me ip omode s =
     (case filealloc s of (None, s) \<Rightarrow> open_fail ip s
      | (Some f, s) \<Rightarrow> (case fdalloc me f s of
          (None, s) \<Rightarrow> kbind (fileclose f s) (open_fail ip)
        | (Some fd, s) \<Rightarrow> kbind (iunlock ip (fsx s)) (\<lambda>x.
            Inr (SRet (int fd), upd_file f (\<lambda>k. k\<lparr>ftype := FD_INODE, fip := ip, foff := 0,
              freadable := (omode AND 1 = 0), fwritable := (omode AND 1 \<noteq> 0 \<or> omode AND 2 \<noteq> 0)\<rparr>) (s\<lparr>fsx := x\<rparr>)))))"

definition sys_open :: "devsw \<Rightarrow> nat \<Rightarrow> kern \<Rightarrow> (sysres \<times> kern) res" where
  "sys_open D me s = with_arg (argstr me 0 s) s (\<lambda>path. with_arg (argint me 1 s) s (\<lambda>omode.
     kbind (on_fs me s (open_inode D path omode)) (\<lambda>(ip, s). case ip of
       None \<Rightarrow> Inr (SRet (-1), s) | Some ip \<Rightarrow> open_file me ip omode s)))"

text \<open>The end of \<open>sys_mkdir\<close> and \<open>sys_mknod\<close>.\<close>

definition create_put :: "nat option \<times> kern \<Rightarrow> (sysres \<times> kern) res" where
  "create_put r = (case r of (None, s) \<Rightarrow> Inr (SRet (-1), s)
     | (Some ip, s) \<Rightarrow> kbind (iunlockput ip (fsx s)) (\<lambda>x. Inr (SRet 0, s\<lparr>fsx := x\<rparr>)))"

definition sys_mkdir :: "devsw \<Rightarrow> nat \<Rightarrow> kern \<Rightarrow> (sysres \<times> kern) res" where
  "sys_mkdir D me s = with_arg (argstr me 0 s) s (\<lambda>path.
     kbind (on_fs me s (\<lambda>c. create D c path T_DIR 0 0)) create_put)"

definition sys_mknod :: "devsw \<Rightarrow> nat \<Rightarrow> kern \<Rightarrow> (sysres \<times> kern) res" where
  "sys_mknod D me s = with_arg (argstr me 0 s) s (\<lambda>path. with_arg (argint me 1 s) s (\<lambda>major. with_arg (argint me 2 s) s (\<lambda>minor.
     kbind (on_fs me s (\<lambda>c. create D c path T_DEV (ucast major) (ucast minor))) create_put)))"

definition sys_chdir :: "nat \<Rightarrow> kern \<Rightarrow> (sysres \<times> kern) res" where
  "sys_chdir me s = with_arg (argstr me 0 s) s (\<lambda>path.
     kbind (on_fs me s (\<lambda>c. namei c path)) (\<lambda>(ip, s). case ip of None \<Rightarrow> Inr (SRet (-1), s) | Some ip \<Rightarrow>
     kbind (ilock ip (fsx s)) (\<lambda>x.
     if itype (icache x ip) \<noteq> T_DIR then kbind (iunlockput ip x) (\<lambda>x. Inr (SRet (-1), s\<lparr>fsx := x\<rparr>))
     else kbind (iunlock ip x) (\<lambda>x.
       case cwd (ptab s me) of None \<Rightarrow> Inl (Fault ''null pointer'')
       | Some c \<Rightarrow> kbind (iput c x) (\<lambda>x.
           Inr (SRet 0, upd_proc me (\<lambda>k. k\<lparr>cwd := Some ip\<rparr>) (s\<lparr>fsx := x\<rparr>)))))))"

text \<open>The loop of \<open>sys_exec\<close> over the user's \<open>argv\<close>; the list of numbers is that of the array of the kernel.\<close>

fun fetch_argv :: "proc \<Rightarrow> u32 \<Rightarrow> nat list \<Rightarrow> kmem \<Rightarrow> u8 list list option res" where
  "fetch_argv p uargv [] m = Inr None"
| "fetch_argv p uargv (i # is) m =
     kbind (fetchint p (uargv + 4 * of_nat i) m) (\<lambda>r. case r of
       None \<Rightarrow> Inr None
     | Some uarg \<Rightarrow> if uarg = 0 then Inr (Some [])
         else kbind (fetchstr p uarg m) (\<lambda>r. case r of
           None \<Rightarrow> Inr None
         | Some a \<Rightarrow> kbind (fetch_argv p uargv is m) (\<lambda>r. Inr (map_option ((#) a) r))))"

definition sys_exec :: "devsw \<Rightarrow> nat \<Rightarrow> kern \<Rightarrow> (sysres \<times> kern) res" where
  "sys_exec D me s = with_arg (argstr me 0 s) s (\<lambda>path. with_arg (argint me 1 s) s (\<lambda>uargv.
     with_arg (fetch_argv (ptab s me) uargv [0..<MAXARG] (kmx s)) s (\<lambda>argv.
     kbind (exec D path argv me s) (\<lambda>(r, s). Inr (SRet r, s)))))"

definition close_both :: "nat \<Rightarrow> nat \<Rightarrow> kern \<Rightarrow> (sysres \<times> kern) res" where
  "close_both rd wr s = kbind (fileclose rd s) (\<lambda>s. kbind (fileclose wr s) (\<lambda>s. Inr (SRet (-1), deliver s)))"

definition sys_pipe :: "nat \<Rightarrow> kern \<Rightarrow> (sysres \<times> kern) res" where
  "sys_pipe me s = with_arg (argptr me 0 8 s) s (\<lambda>fd.
     kbind (pipealloc s) (\<lambda>(r, s). case r of None \<Rightarrow> Inr (SRet (-1), deliver s)
     | Some (rd, wr) \<Rightarrow> (case fdalloc me rd s of
         (None, s) \<Rightarrow> close_both rd wr s
       | (Some fd0, s) \<Rightarrow> (case fdalloc me wr s of
           (None, s) \<Rightarrow> close_both rd wr (set_fd me fd0 None s)
         | (Some fd1, s) \<Rightarrow>
             kbind (ustore32 (pgdir (ptab s me)) fd (of_nat fd0) (kmx s)) (\<lambda>m.
             kbind (ustore32 (pgdir (ptab s me)) (fd + 4) (of_nat fd1) m) (\<lambda>m. Inr (SRet 0, s\<lparr>kmx := m\<rparr>)))))))"

end
