(* ===== verification/Trap.thy ===== *)
theory Trap imports Sysfile begin

text \<open>
  kernel/trap.c and the dispatch of kernel/syscall.c: where the kernel is entered. \<open>me\<close> is the process on the CPU. The IDE, keyboard and serial handlers
  work on the state of their drivers (theories Ide and Console), so \<open>trap\<close> returns which of them it calls.
\<close>

section \<open>System call dispatch\<close>

text \<open>The table \<open>syscalls\<close>: \<open>D\<close> is \<open>devsw\<close>, \<open>PT\<close> the address of the process table and \<open>L\<close> that of \<open>forkret\<close>.\<close>

definition handler :: "devsw \<Rightarrow> u32 \<Rightarrow> u32 \<Rightarrow> int \<Rightarrow> (nat \<Rightarrow> kern \<Rightarrow> (sysres \<times> kern) res) option" where
  "handler D PT L num =
     (if num = 1 then Some (sys_fork L) else if num = 2 then Some sys_exit else if num = 3 then Some sys_wait
      else if num = 4 then Some sys_pipe else if num = 5 then Some (sys_write D) else if num = 6 then Some (sys_read D)
      else if num = 7 then Some sys_close else if num = 8 then Some sys_kill else if num = 9 then Some (sys_exec D)
      else if num = 10 then Some (sys_open D) else if num = 11 then Some (sys_mknod D) else if num = 12 then Some (sys_unlink D)
      else if num = 13 then Some sys_fstat else if num = 14 then Some (sys_link D) else if num = 15 then Some (sys_mkdir D)
      else if num = 16 then Some sys_chdir else if num = 17 then Some sys_dup else if num = 18 then Some sys_getpid
      else if num = 19 then Some sys_sbrk else if num = 20 then Some sys_sleep else if num = 21 then Some sys_uptime
      else if num = 22 then Some (sys_clone L) else if num = 23 then Some sys_join
      else if num = 26 then Some (sys_cond_wait PT) else if num = 27 then Some (sys_cond_signal PT)
      else if num = 28 then Some sys_cond_init else None)"

definition set_eax :: "nat \<Rightarrow> int \<Rightarrow> kern \<Rightarrow> kern" where
  "set_eax me r s = upd_proc me (\<lambda>k. k\<lparr>tf := (tf k)\<lparr>tf_eax := of_int r\<rparr>\<rparr>) s"

text \<open>\<open>syscall\<close> up to where the handler leaves; a call that returns has its result in \<open>eax\<close>.\<close>

definition syscall :: "devsw \<Rightarrow> u32 \<Rightarrow> u32 \<Rightarrow> nat \<Rightarrow> kern \<Rightarrow> (sysres \<times> kern) res" where
  "syscall D PT L me s = (case handler D PT L (sint (tf_eax (tf (ptab s me)))) of
     None \<Rightarrow> Inr (SRet (-1), set_eax me (-1) s)
   | Some h \<Rightarrow> kbind (h me s) (\<lambda>(r, s). Inr (r, case r of SRet v \<Rightarrow> set_eax me v s | _ \<Rightarrow> s)))"

section \<open>Traps\<close>

datatype driver = IdeIntr | KbdIntr | UartIntr

text \<open>How \<open>trap\<close> is left: back to the interrupted code, with the CPU given up, asleep, spinning, or with the process gone.\<close>

datatype tret = TReturn | TYield | TSleep nat | TSpin | TExit

text \<open>The end of a system call: a killed process exits.\<close>

definition trap_syscall :: "devsw \<Rightarrow> u32 \<Rightarrow> u32 \<Rightarrow> nat \<Rightarrow> trapframe \<Rightarrow> kern \<Rightarrow> (tret \<times> kern) res" where
  "trap_syscall D PT L me fr s =
     (if killed (ptab s me) then kbind (exit me s) (\<lambda>s. Inr (TExit, s))
      else kbind (syscall D PT L me (upd_proc me (\<lambda>k. k\<lparr>tf := fr\<rparr>) s)) (\<lambda>(r, s). case r of
        SGone \<Rightarrow> Inr (TExit, s)
      | SBlock i \<Rightarrow> Inr (TSleep i, s)
      | SSpin \<Rightarrow> Inr (TSpin, s)
      | SRet _ \<Rightarrow> if killed (ptab s me) then kbind (exit me s) (\<lambda>s. Inr (TExit, s)) else Inr (TReturn, s)))"

text \<open>The switch on the trap number; \<open>cid\<close> is \<open>cpu->id\<close> and \<open>me\<close> is none on an idle CPU. 0x20 is \<open>T_IRQ0\<close>.\<close>

definition trap_switch :: "nat \<Rightarrow> nat option \<Rightarrow> trapframe \<Rightarrow> kern \<Rightarrow> (driver list \<times> kern) res" where
  "trap_switch cid me fr s =
     (let n = tf_trapno fr in
      if n = 0x20 then Inr ([], if cid = 0 then wakeup (Some CTicks) (s\<lparr>kticks := kticks s + 1\<rparr>) else s)
      else if n = 0x2E then Inr ([IdeIntr], s)
      else if n = 0x2F then Inr ([], s)
      else if n = 0x21 then Inr ([KbdIntr], s)
      else if n = 0x24 then Inr ([UartIntr], s)
      else if n = 0x27 \<or> n = 0x3F then Inr ([], s)
      else case me of
        None \<Rightarrow> Inl (Panic ''trap'')
      | Some p \<Rightarrow> if tf_cs fr AND 3 = 0 then Inl (Panic ''trap'')
          else Inr ([], upd_proc p (\<lambda>k. k\<lparr>killed := True\<rparr>) s))"

text \<open>After the switch, up to the call of \<open>yield\<close>; \<open>trap_resumed\<close> is the check when the process runs again.\<close>

definition trap_resumed :: "nat \<Rightarrow> trapframe \<Rightarrow> kern \<Rightarrow> (tret \<times> kern) res" where
  "trap_resumed p fr s = (if killed (ptab s p) \<and> tf_cs fr AND 3 = 3 then kbind (exit p s) (\<lambda>s. Inr (TExit, s)) else Inr (TReturn, s))"

definition trap_tail :: "nat option \<Rightarrow> trapframe \<Rightarrow> kern \<Rightarrow> (tret \<times> kern) res" where
  "trap_tail me fr s = (case me of None \<Rightarrow> Inr (TReturn, s)
     | Some p \<Rightarrow>
         if killed (ptab s p) \<and> tf_cs fr AND 3 = 3 then kbind (exit p s) (\<lambda>s. Inr (TExit, s))
         else if pstate (ptab s p) = RUNNING \<and> tf_trapno fr = 0x20 then Inr (TYield, yield p s)
         else trap_resumed p fr s)"

definition trap :: "devsw \<Rightarrow> u32 \<Rightarrow> u32 \<Rightarrow> nat \<Rightarrow> nat option \<Rightarrow> trapframe \<Rightarrow> kern \<Rightarrow> (tret \<times> driver list \<times> kern) res" where
  "trap D PT L cid me fr s =
     (if tf_trapno fr = 64 then (case me of None \<Rightarrow> Inl (Fault ''null pointer'')
        | Some p \<Rightarrow> kbind (trap_syscall D PT L p fr s) (\<lambda>(r, s). Inr (r, [], s)))
      else kbind (trap_switch cid me fr s) (\<lambda>(ds, s). kbind (trap_tail me fr s) (\<lambda>(r, s). Inr (r, ds, s))))"

end
