(* ===== verification/Fdtable.thy ===== *)
theory Fdtable imports Trap
begin

text \<open>
  The reference counts of the open file table against the descriptor tables of the processes: \<open>fd_off\<close> is the
  invariant inside an operation that holds references of its own, \<open>fds_ok\<close> the one between operations.
\<close>

section \<open>Who refers to an open file\<close>

definition fd_refs :: "kern \<Rightarrow> nat \<Rightarrow> (nat \<times> nat) set" where
  "fd_refs s f = {(p, fd). p < NPROC \<and> fd < NOFILE \<and> ofile (ptab s p) fd = Some f}"

text \<open>The reference counts, but for \<open>d f\<close> references to file \<open>f\<close> that the running operation holds.\<close>

definition fd_off :: "kern \<Rightarrow> (nat \<Rightarrow> int) \<Rightarrow> bool" where
  "fd_off s d \<longleftrightarrow> (\<forall>f. fref (ftable s f) = int (card (fd_refs s f)) + d f)"

text \<open>An entry of the process table whose process does not live has no open files.\<close>

definition idle :: "proc \<Rightarrow> bool" where
  "idle k \<longleftrightarrow> pstate k = UNUSED \<or> pstate k = EMBRYO \<or> pstate k = ZOMBIE"

definition idle_closed :: "kern \<Rightarrow> bool" where
  "idle_closed s \<longleftrightarrow> (\<forall>p < NPROC. idle (ptab s p) \<longrightarrow> (\<forall>fd < NOFILE. ofile (ptab s p) fd = None))"

definition fds_ok :: "kern \<Rightarrow> bool" where
  "fds_ok s \<longleftrightarrow> fd_off s (\<lambda>_. 0) \<and> idle_closed s"

text \<open>Changes that do not touch references.\<close>

definition fsame :: "kern \<Rightarrow> kern \<Rightarrow> bool" where
  "fsame s s' \<longleftrightarrow> (\<forall>f. fref (ftable s' f) = fref (ftable s f)) \<and> (\<forall>p. ofile (ptab s' p) = ofile (ptab s p)) \<and>
     (\<forall>p. idle (ptab s' p) \<longrightarrow> idle (ptab s p))"

lemma fsame_refl [simp]: "fsame s s"
  by (simp add: fsame_def)

lemma fsame_trans [trans]: "fsame s t \<Longrightarrow> fsame t u \<Longrightarrow> fsame s u"
  by (simp add: fsame_def)

lemma fsame_off: "fsame s s' \<Longrightarrow> fd_off s' d = fd_off s d"
  by (simp add: fsame_def fd_off_def fd_refs_def)

lemma fsame_idle: "fsame s s' \<Longrightarrow> idle_closed s \<Longrightarrow> idle_closed s'"
  by (simp add: fsame_def idle_closed_def)

lemma fsame_ok: "fsame s s' \<Longrightarrow> fds_ok s \<Longrightarrow> fds_ok s'"
  using fsame_off fsame_idle unfolding fds_ok_def by blast

lemma fsame_below [simp]:
  "fsame s (s'\<lparr>kmx := m\<rparr>) = fsame s s'" "fsame s (s'\<lparr>fsx := x\<rparr>) = fsame s s'" "fsame s (s'\<lparr>pipes := g\<rparr>) = fsame s s'"
  "fsame s (s'\<lparr>wakes := v\<rparr>) = fsame s s'" "fsame s (s'\<lparr>nextpid := n\<rparr>) = fsame s s'" "fsame s (s'\<lparr>initproc := i\<rparr>) = fsame s s'"
  by (simp_all add: fsame_def)

lemma fsame_upd:
  "ofile (f (ptab s p)) = ofile (ptab s p) \<Longrightarrow> idle (f (ptab s p)) \<Longrightarrow> idle (ptab s p) \<Longrightarrow> fsame s (upd_proc p f s)"
  "ofile (f (ptab s p)) = ofile (ptab s p) \<Longrightarrow> \<not> idle (f (ptab s p)) \<Longrightarrow> fsame s (upd_proc p f s)"
  "ofile (f (ptab s p)) = ofile (ptab s p) \<Longrightarrow> pstate (f (ptab s p)) = pstate (ptab s p) \<Longrightarrow> fsame s (upd_proc p f s)"
  by (simp_all add: fsame_def idle_def)

lemma fsame_wakeup1 [simp]: "fsame s (wakeup1 c s)"
  by (simp add: fsame_def wakeup1_def idle_def)

lemma fsame_deliver [simp]: "fsame s (deliver s)"
proof -
  have "fsame t (fold (\<lambda>(p, c). wakeup (Some (CPipe p c))) ws t)" for ws t
  proof (induction ws arbitrary: t)
    case (Cons w ws)
    obtain p c where w: "w = (p, c)" by (rule prod.exhaust)
    have "fsame t (wakeup (Some (CPipe p c)) t)" by (simp add: wakeup_def)
    from fsame_trans [OF this Cons.IH] show ?case by (simp add: w)
  qed simp
  from this [of "s\<lparr>wakes := []\<rparr>" "wakes s"] show ?thesis
    unfolding deliver_def by (rule fsame_trans [rotated]) (simp add: fsame_def)
qed

lemma finite_fd_refs [simp]: "finite (fd_refs s f)"
  by (rule finite_subset [of _ "{..<NPROC} \<times> {..<NOFILE}"]) (auto simp: fd_refs_def)

lemma off_give:
  assumes "fd_off s d" "p < NPROC" "fd < NOFILE" "ofile (ptab s p) fd = None"
  shows "fd_off (set_fd p fd (Some f) s) (d(f := d f - 1))"
proof -
  have "fd_refs (set_fd p fd (Some f) s) g = (if g = f then insert (p, fd) (fd_refs s g) else fd_refs s g)" for g
    using assms(2-4) by (auto simp: fd_refs_def set_fd_def split: if_splits)
  moreover have "(p, fd) \<notin> fd_refs s f" using assms(4) by (simp add: fd_refs_def)
  ultimately show ?thesis using assms(1) by (auto simp: fd_off_def set_fd_def)
qed

lemma off_take:
  assumes "fd_off s d" "p < NPROC" "fd < NOFILE" "ofile (ptab s p) fd = Some f"
  shows "fd_off (set_fd p fd None s) (d(f := d f + 1))"
proof -
  have "fd_refs (set_fd p fd None s) g = (if g = f then fd_refs s g - {(p, fd)} else fd_refs s g)" for g
    using assms(2-4) by (auto simp: fd_refs_def set_fd_def split: if_splits)
  moreover have "(p, fd) \<in> fd_refs s f" using assms(2-4) by (simp add: fd_refs_def)
  then have "card (fd_refs s f) = Suc (card (fd_refs s f - {(p, fd)}))" by (rule card_Suc_Diff1 [OF finite_fd_refs, symmetric])
  ultimately show ?thesis using assms(1) by (auto simp: fd_off_def set_fd_def)
qed

text \<open>The operations on the file table.\<close>

lemma off_upd:
  assumes "ptab s' = ptab s" "\<And>g. fref (ftable s' g) = fref (ftable s g) + (if g = f then e else 0)" "fd_off s d"
  shows "fd_off s' (d(f := d f + e))"
  using assms(3) by (simp add: fd_off_def fd_refs_def assms(1,2))

lemma off_dup:
  assumes "filedup f s = Inr (r, s')" "fd_off s d"
  shows "fd_off s' (d(f := d f + 1))" "ptab s' = ptab s"
proof -
  show p: "ptab s' = ptab s" using assms(1) by (auto simp: filedup_def split: if_splits)
  show "fd_off s' (d(f := d f + 1))" using assms(1) by (intro off_upd [OF p _ assms(2)]) (auto simp: filedup_def split: if_splits)
qed

lemma close_pipe_ftable: "close_pipe p v s = Inr s' \<Longrightarrow> ftable s' = ftable s \<and> ptab s' = ptab s"
  by (auto simp: close_pipe_def Let_def kbind_Inr_iff split: if_splits prod.splits)

lemma off_close:
  assumes "fileclose f s = Inr s'" "fd_off s d"
  shows "fd_off s' (d(f := d f - 1))" "ptab s' = ptab s"
proof -
  have "ptab s' = ptab s \<and> (\<forall>g. fref (ftable s' g) = fref (ftable s g) + (if g = f then -1 else 0))"
  proof (cases "fref (ftable s f) = 1")
    case False
    then show ?thesis using assms(1) by (auto simp: fileclose_def Let_def split: if_splits)
  next
    case True
    then show ?thesis
      using assms(1) close_pipe_ftable [of _ _ "upd_file f (\<lambda>k. k\<lparr>fref := 0, ftype := FD_NONE\<rparr>) s" s']
      by (cases "ftype (ftable s f)") (auto simp: fileclose_def Let_def kbind_Inr_iff)
  qed
  then show "fd_off s' (d(f := d f - 1))" "ptab s' = ptab s" using off_upd [of s' s f "-1"] assms(2) by simp_all
qed

lemma off_alloc:
  assumes "filealloc s = (r, s')" "fd_off s d"
  shows "case r of None \<Rightarrow> s' = s | Some f \<Rightarrow> fd_off s' (d(f := d f + 1)) \<and> ptab s' = ptab s"
proof (cases "find (\<lambda>f. fref (ftable s f) = 0) [0..<NFILE]")
  case (Some f)
  then have "fref (ftable s f) = 0" by (auto simp: find_Some_iff)
  moreover have r: "r = Some f" "s' = upd_file f (\<lambda>k. k\<lparr>fref := 1\<rparr>) s" using assms(1) Some by (auto simp: filealloc_def)
  ultimately have "fd_off s' (d(f := d f + 1))" using off_upd [of s' s f 1 d] assms(2) by simp
  then show ?thesis using r by simp
qed (use assms in \<open>auto simp: filealloc_def\<close>)

lemma off_eq: "fd_off s d \<Longrightarrow> d = d' \<Longrightarrow> fd_off s d'"
  by simp

lemma off_pipealloc:
  assumes "pipealloc s = Inr (r, s')" "fd_off s d"
  shows "case r of None \<Rightarrow> fd_off s' d \<and> ptab s' = ptab s
    | Some (a, b) \<Rightarrow> fd_off s' ((d(a := d a + 1))(b := (d(a := d a + 1)) b + 1)) \<and> ptab s' = ptab s"
proof -
  obtain o1 s1 where s1: "filealloc s = (o1, s1)" by (rule prod.exhaust)
  note a1 = off_alloc [OF s1 assms(2)]
  show ?thesis
  proof (cases o1)
    case None
    then show ?thesis using assms s1 a1 by (simp add: pipealloc_def)
  next
    case (Some a)
    obtain o2 s2 where s2: "filealloc s1 = (o2, s2)" by (rule prod.exhaust)
    have d1: "fd_off s1 (d(a := d a + 1))" "ptab s1 = ptab s" using a1 Some by simp_all
    note a2 = off_alloc [OF s2 d1(1)]
    show ?thesis
    proof (cases o2)
      case None
      then have "fileclose a s1 = Inr s'" "r = None"
        using assms(1) s1 s2 Some a2 by (auto simp: pipealloc_def close_opt_def kbind_Inr_iff)
      with off_close [OF _ d1(1), of a s'] d1(2) show ?thesis by simp
    next
      case b: (Some b)
      have d2: "fd_off s2 ((d(a := d a + 1))(b := (d(a := d a + 1)) b + 1))" "ptab s2 = ptab s" using a2 b d1(2) by simp_all
      obtain v m where v: "kalloc (kmx s2) = (v, m)" by (rule prod.exhaust)
      have f2: "fd_off (s2\<lparr>kmx := m\<rparr>) ((d(a := d a + 1))(b := (d(a := d a + 1)) b + 1))" using d2(1) fsame_off [of s2 "s2\<lparr>kmx := m\<rparr>"] by simp
      show ?thesis
      proof (cases "v = 0")
        case True
        then obtain t where t: "fileclose a (s2\<lparr>kmx := m\<rparr>) = Inr t" "fileclose b t = Inr s'" "r = None"
          using assms(1) s1 s2 Some b v by (auto simp: pipealloc_def close_opt_def kbind_Inr_iff)
        note c1 = off_close [OF t(1) f2]
        note c2 = off_close [OF t(2) c1(1)]
        have "fd_off s' d" by (rule off_eq [OF c2(1)]) (auto simp: fun_eq_iff)
        then show ?thesis using t(3) c1(2) c2(2) d2(2) by simp
      next
        case False
        have "r = Some (a, b)" "fsame s2 s'" "ptab s' = ptab s2"
          using assms(1) s1 s2 Some b v False by (auto simp: pipealloc_def Let_def fsame_def)
        then show ?thesis using d2 fsame_off by simp
      qed
    qed
  qed
qed

lemma idle_closed_ptab: "ptab s' = ptab s \<Longrightarrow> idle_closed s' = idle_closed s"
  by (simp add: idle_closed_def)

lemma set_fd_ptab:
  "ptab (set_fd me fd f s) = (ptab s)(me := (ptab s me)\<lparr>ofile := (ofile (ptab s me))(fd := f)\<rparr>)"
  "ftable (set_fd me fd f s) = ftable s" "kmx (set_fd me fd f s) = kmx s" "fsx (set_fd me fd f s) = fsx s"
  by (simp_all add: set_fd_def)

lemma idle_set_fd: "idle_closed s \<Longrightarrow> \<not> idle (ptab s me) \<or> f = None \<Longrightarrow> idle_closed (set_fd me fd f s)"
  by (auto simp: idle_closed_def set_fd_ptab idle_def)

lemma fdalloc_off:
  assumes "fdalloc me f s = (r, s')" "fd_off s d" "me < NPROC"
  shows "case r of None \<Rightarrow> s' = s
    | Some fd \<Rightarrow> fd < NOFILE \<and> ofile (ptab s me) fd = None \<and> s' = set_fd me fd (Some f) s \<and> fd_off s' (d(f := d f - 1))"
proof (cases "find (\<lambda>fd. ofile (ptab s me) fd = None) [0..<NOFILE]")
  case (Some fd)
  then have "fd < NOFILE" "ofile (ptab s me) fd = None" by (auto simp: find_Some_iff)
  moreover have "r = Some fd" "s' = set_fd me fd (Some f) s" using assms(1) Some by (auto simp: fdalloc_def)
  ultimately show ?thesis using off_give [OF assms(2,3)] by simp
qed (use assms in \<open>auto simp: fdalloc_def\<close>)

lemma with_argE:
  assumes "with_arg r s f = Inr (q, s')"
  obtains "r = Inr None" "q = SRet (-1)" "s' = s" | a where "r = Inr (Some a)" "f a = Inr (q, s')"
proof -
  from assms obtain v where v: "r = Inr v" "(case v of None \<Rightarrow> Inr (SRet (-1), s) | Some a \<Rightarrow> f a) = Inr (q, s')"
    unfolding with_arg_def by (rule kbind_InrE)
  show ?thesis by (cases v) (use v that in auto)
qed

lemma argfd_open:
  assumes "argfd me n s = Inr (Some (fd, f))"
  shows "fd < NOFILE" "ofile (ptab s me) fd = Some f"
  using assms by (auto simp: argfd_def kbind_Inr_iff Let_def split: option.splits if_splits)

section \<open>The calls that move references\<close>

lemma sys_dup_fds:
  assumes "sys_dup me s = Inr (q, s')" "fds_ok s" "running s me"
  shows "fds_ok s'"
  using assms(1) unfolding sys_dup_def
proof (rule with_argE, goal_cases)
  case (2 a)
  obtain fd0 f where a: "a = (fd0, f)" by (rule prod.exhaust)
  obtain r t where r: "fdalloc me f s = (r, t)" by (rule prod.exhaust)
  have me: "me < NPROC" "\<not> idle (ptab s me)" using assms(3) by (auto simp: running_def idle_def)
  have o: "fd_off s (\<lambda>_. 0)" "idle_closed s" using assms(2) by (simp_all add: fds_ok_def)
  note f = fdalloc_off [OF r o(1) me(1)]
  show ?case
  proof (cases r)
    case None
    then show ?thesis using 2 a r f assms(2) by simp
  next
    case (Some fd)
    have t: "t = set_fd me fd (Some f) s" "fd_off t ((\<lambda>_. 0)(f := 0 - 1))" using f [unfolded Some option.case] by blast+
    obtain x where x: "filedup f t = Inr (x, s')" using 2 a r Some by (auto simp: kbind_Inr_iff)
    have "fd_off s' (\<lambda>_. 0)" by (rule off_eq [OF off_dup(1) [OF x t(2)]]) auto
    moreover have "idle_closed s'"
      using idle_set_fd [OF o(2), of me "Some f" fd] me(2) idle_closed_ptab [OF off_dup(2) [OF x t(2)]] t(1) by simp
    ultimately show ?thesis by (simp add: fds_ok_def)
  qed
qed (use assms in simp)

lemma sys_close_fds:
  assumes "sys_close me s = Inr (q, s')" "fds_ok s" "running s me"
  shows "fds_ok s'"
  using assms(1) unfolding sys_close_def
proof (rule with_argE, goal_cases)
  case (2 a)
  obtain fd f where a: "a = (fd, f)" by (rule prod.exhaust)
  note fd = argfd_open [OF 2(1) [unfolded a]]
  obtain t where t: "fileclose f (set_fd me fd None s) = Inr t" "s' = deliver t" using 2 a by (auto simp: kbind_Inr_iff)
  have o: "fd_off s (\<lambda>_. 0)" "idle_closed s" "me < NPROC" using assms(2,3) by (simp_all add: fds_ok_def running_def)
  note c = off_close [OF t(1) off_take [OF o(1,3) fd]]
  have "fd_off t (\<lambda>_. 0)" by (rule off_eq [OF c(1)]) auto
  moreover have "idle_closed t" using idle_set_fd [OF o(2), of me None fd] idle_closed_ptab [OF c(2)] by simp
  ultimately have "fds_ok t" by (simp add: fds_ok_def)
  then show ?case using fsame_ok [OF fsame_deliver] t(2) by simp
qed (use assms in simp)

lemma on_fs_kern: "on_fs me s f = Inr (r, s') \<Longrightarrow> \<exists>x. s' = s\<lparr>fsx := x\<rparr>"
  by (auto simp: on_fs_def kbind_Inr_iff split: option.splits)

lemma open_fail_kern: "open_fail ip s = Inr (q, s') \<Longrightarrow> \<exists>x. s' = s\<lparr>fsx := x\<rparr>"
  by (auto simp: open_fail_def kbind_Inr_iff)

lemma fsx_fds [simp]: "fds_ok (s\<lparr>fsx := x\<rparr>) = fds_ok s" "fds_ok (s\<lparr>kmx := m\<rparr>) = fds_ok s"
  "fd_off (s\<lparr>fsx := x\<rparr>) d = fd_off s d" "fd_off (s\<lparr>kmx := m\<rparr>) d = fd_off s d"
  "idle_closed (s\<lparr>fsx := x\<rparr>) = idle_closed s" "idle_closed (s\<lparr>kmx := m\<rparr>) = idle_closed s"
  by (simp_all add: fds_ok_def fd_off_def fd_refs_def idle_closed_def)

lemma open_file_fds:
  assumes "open_file me ip om s = Inr (q, s')" "fds_ok s" "running s me"
  shows "fds_ok s'"
proof -
  have me: "me < NPROC" "\<not> idle (ptab s me)" using assms(3) by (auto simp: running_def idle_def)
  have o: "fd_off s (\<lambda>_. 0)" "idle_closed s" using assms(2) by (simp_all add: fds_ok_def)
  obtain o1 s1 where s1: "filealloc s = (o1, s1)" by (rule prod.exhaust)
  note a1 = off_alloc [OF s1 o(1)]
  show ?thesis
  proof (cases o1)
    case None
    then show ?thesis using assms(1,2) s1 a1 by (auto simp: open_file_def dest: open_fail_kern)
  next
    case (Some f)
    have d1: "fd_off s1 ((\<lambda>_. 0)(f := 0 + 1))" "ptab s1 = ptab s" using a1 [unfolded Some option.case] by blast+
    obtain r t where r: "fdalloc me f s1 = (r, t)" by (rule prod.exhaust)
    note a2 = fdalloc_off [OF r d1(1) me(1)]
    show ?thesis
    proof (cases r)
      case None
      then have t: "t = s1" using a2 by simp
      then obtain u where u: "fileclose f s1 = Inr u" "open_fail ip u = Inr (q, s')"
        using assms(1) s1 Some r None by (auto simp: open_file_def kbind_Inr_iff)
      note c = off_close [OF u(1) d1(1)]
      have "fd_off u (\<lambda>_. 0)" by (rule off_eq [OF c(1)]) auto
      then have "fds_ok u" using idle_closed_ptab [of u s] c(2) d1(2) o(2) by (simp add: fds_ok_def)
      then show ?thesis using open_fail_kern [OF u(2)] by auto
    next
      case fd: (Some fd)
      have t: "t = set_fd me fd (Some f) s1" "fd_off t (((\<lambda>_. 0)(f := 0 + 1))(f := ((\<lambda>_. 0)(f := 0 + 1)) f - 1))"
        using a2 [unfolded fd option.case] by blast+
      have "fd_off t (\<lambda>_. 0)" by (rule off_eq [OF t(2)]) auto
      moreover have "idle_closed t"
        unfolding t(1) using idle_set_fd [of s1 me "Some f" fd] idle_closed_ptab [OF d1(2)] o(2) me(2) d1(2) by simp
      ultimately have "fds_ok t" by (simp add: fds_ok_def)
      moreover have "fsame t s'"
        using assms(1) s1 Some r fd by (auto simp: open_file_def kbind_Inr_iff fsame_def)
      ultimately show ?thesis by (rule fsame_ok [rotated])
    qed
  qed
qed

lemma sys_open_fds:
  assumes "sys_open D me s = Inr (q, s')" "fds_ok s" "running s me"
  shows "fds_ok s'"
  using assms(1) unfolding sys_open_def
proof (rule with_argE, goal_cases)
  case (2 path)
  from 2(2) show ?case
  proof (rule with_argE, goal_cases)
    case (2 om)
    then obtain ip t where t: "on_fs me s (open_inode D path om) = Inr (ip, t)"
      "(case ip of None \<Rightarrow> Inr (SRet (-1), t) | Some ip \<Rightarrow> open_file me ip om t) = Inr (q, s')"
      by (auto simp: kbind_Inr_iff)
    obtain x where "t = s\<lparr>fsx := x\<rparr>" using on_fs_kern [OF t(1)] by blast
    then show ?case using t(2) assms(2,3) open_file_fds [of me _ om t q s'] by (cases ip) (auto simp: running_def)
  qed (use assms in simp)
qed (use assms in simp)

lemma close_both_fds:
  assumes "close_both a b s = Inr (q, s')" "fd_off s (((\<lambda>_. 0)(a := 0 + 1))(b := ((\<lambda>_. 0)(a := 0 + 1)) b + 1))" "idle_closed s"
  shows "fds_ok s'"
proof -
  obtain t u where t: "fileclose a s = Inr t" "fileclose b t = Inr u" "s' = deliver u"
    using assms(1) by (auto simp: close_both_def kbind_Inr_iff)
  note c1 = off_close [OF t(1) assms(2)]
  note c2 = off_close [OF t(2) c1(1)]
  have "fd_off u (\<lambda>_. 0)" by (rule off_eq [OF c2(1)]) (auto simp: fun_eq_iff)
  moreover have "idle_closed u" using idle_closed_ptab [of u s] c1(2) c2(2) assms(3) by simp
  ultimately have "fds_ok u" by (simp add: fds_ok_def)
  then show ?thesis using fsame_ok [OF fsame_deliver] t(3) by simp
qed

lemma sys_pipe_fds:
  assumes "sys_pipe me s = Inr (q, s')" "fds_ok s" "running s me"
  shows "fds_ok s'"
  using assms(1) unfolding sys_pipe_def
proof (rule with_argE, goal_cases)
  case (2 addr)
  have me: "me < NPROC" "\<not> idle (ptab s me)" using assms(3) by (auto simp: running_def idle_def)
  have o: "fd_off s (\<lambda>_. 0)" "idle_closed s" using assms(2) by (simp_all add: fds_ok_def)
  obtain r s1 where s1: "pipealloc s = Inr (r, s1)" using 2(2) by (auto elim!: kbind_InrE)
  note p1 = off_pipealloc [OF s1 o(1)]
  show ?case
  proof (cases r)
    case None
    then have "fds_ok s1" using p1 o(2) idle_closed_ptab [of s1 s] by (simp add: fds_ok_def)
    then have "fds_ok (deliver s1)" by (rule fsame_ok [OF fsame_deliver])
    moreover have "s' = deliver s1" using 2(2) s1 None by simp
    ultimately show ?thesis by (simp only:)
  next
    case (Some ab)
    obtain a b where ab: "ab = (a, b)" by (rule prod.exhaust)
    let ?d = "((\<lambda>_. 0)(a := 0 + 1))(b := ((\<lambda>_. 0)(a := 0 + 1)) b + 1)"
    have d1: "fd_off s1 ?d" "ptab s1 = ptab s" using p1 [unfolded Some option.case ab prod.case] by blast+
    have i1: "idle_closed s1" "\<not> idle (ptab s1 me)" using idle_closed_ptab [OF d1(2)] o(2) d1(2) me(2) by simp_all
    obtain r1 s2 where s2: "fdalloc me a s1 = (r1, s2)" by (rule prod.exhaust)
    note f1 = fdalloc_off [OF s2 d1(1) me(1)]
    show ?thesis
    proof (cases r1)
      case None
      then have "close_both a b s1 = Inr (q, s')" using 2(2) s1 Some ab s2 f1 by simp
      then show ?thesis using close_both_fds d1(1) i1(1) by blast
    next
      case fd0: (Some fd0)
      let ?d2 = "?d(a := ?d a - 1)"
      have d2: "s2 = set_fd me fd0 (Some a) s1" "fd_off s2 ?d2" "fd0 < NOFILE" using f1 [unfolded fd0 option.case] by blast+
      have i2: "idle_closed s2" "\<not> idle (ptab s2 me)" using idle_set_fd [of s1 me "Some a" fd0] i1 unfolding d2(1) by (simp_all add: set_fd_ptab idle_def)
      obtain r2 s3 where s3: "fdalloc me b s2 = (r2, s3)" by (rule prod.exhaust)
      note f2 = fdalloc_off [OF s3 d2(2) me(1)]
      show ?thesis
      proof (cases r2)
        case None
        let ?t = "set_fd me fd0 None s2"
        have c: "close_both a b ?t = Inr (q, s')" using 2(2) s1 Some ab s2 fd0 s3 None f2 by simp
        have "ofile (ptab s2 me) fd0 = Some a" unfolding d2(1) by (simp add: set_fd_ptab)
        from off_take [OF d2(2) me(1) d2(3) this] have "fd_off ?t ?d" by (rule off_eq) (auto simp: fun_eq_iff)
        then show ?thesis using close_both_fds [OF c] idle_set_fd [OF i2(1)] by blast
      next
        case fd1: (Some fd1)
        have d3: "s3 = set_fd me fd1 (Some b) s2" "fd_off s3 (?d2(b := ?d2 b - 1))" using f2 [unfolded fd1 option.case] by blast+
        have "fd_off s3 (\<lambda>_. 0)" by (rule off_eq [OF d3(2)]) (auto simp: fun_eq_iff)
        moreover have "idle_closed s3" using idle_set_fd [OF i2(1)] i2(2) unfolding d3(1) by blast
        ultimately have "fds_ok s3" by (simp add: fds_ok_def)
        then show ?thesis using 2(2) s1 Some ab s2 fd0 s3 fd1 by (auto simp: kbind_Inr_iff)
      qed
    qed
  qed
qed (use assms in simp)

section \<open>Processes and their descriptors\<close>

lemma allocproc_fsame:
  assumes "allocproc L s = (r, s')"
  shows "fsame s s' \<and> (\<forall>p. r = Some p \<longrightarrow> p < NPROC \<and> pstate (ptab s p) = UNUSED \<and> pstate (ptab s' p) = EMBRYO)"
proof (cases "find (\<lambda>p. pstate (ptab s p) = UNUSED) [0..<NPROC]")
  case (Some p)
  then have p: "p < NPROC" "pstate (ptab s p) = UNUSED" by (auto simp: find_Some_iff)
  obtain v m where v: "kalloc (kmx s) = (v, m)" by (rule prod.exhaust)
  show ?thesis using assms p Some v by (auto simp: allocproc_def Let_def fsame_def idle_def split: if_splits)
qed (use assms in \<open>simp add: allocproc_def\<close>)

lemma dup_files_off:
  assumes "dup_files me np fds s = Inr s'" "fd_off s d" "np < NPROC" "me \<noteq> np" "distinct fds" "set fds \<subseteq> {..<NOFILE}"
    and "\<forall>fd \<in> set fds. ofile (ptab s np) fd = None"
  shows "fd_off s' d \<and> (\<forall>p. p \<noteq> np \<longrightarrow> ptab s' p = ptab s p) \<and> pstate (ptab s' np) = pstate (ptab s np)"
  using assms
proof (induction fds arbitrary: s)
  case (Cons fd fds)
  show ?case
  proof (cases "ofile (ptab s me) fd")
    case (Some f)
    obtain s1 where s1: "filedup f s = Inr (f, s1)" "dup_files me np fds (set_fd np fd (Some f) s1) = Inr s'"
      using Cons.prems(1) Some by (auto simp: kbind_Inr_iff filedup_def set_fd_def split: if_splits)
    note d = off_dup [OF s1(1) Cons.prems(2)]
    have fd: "fd < NOFILE" "ofile (ptab s1 np) fd = None" using Cons.prems(6,7) d(2) by auto
    have "fd_off (set_fd np fd (Some f) s1) d" by (rule off_eq [OF off_give [OF d(1) Cons.prems(3) fd]]) (auto simp: fun_eq_iff)
    moreover have "\<forall>fda \<in> set fds. ofile (ptab (set_fd np fd (Some f) s1) np) fda = None"
      using Cons.prems(5,7) d(2) by (auto simp: set_fd_ptab)
    moreover have "distinct fds" "set fds \<subseteq> {..<NOFILE}" using Cons.prems(5,6) by auto
    ultimately show ?thesis using Cons.IH [OF s1(2) _ Cons.prems(3,4)] d(2) by (simp add: set_fd_ptab)
  next
    case None
    then show ?thesis using Cons by simp
  qed
qed simp

lemma dup_cwd_fsame: "dup_cwd me np s = Inr s' \<Longrightarrow> fsame s s' \<and> (\<forall>p. pstate (ptab s' p) = pstate (ptab s p))"
  by (auto simp: dup_cwd_def idup_def Let_def fsame_def idle_def split: option.splits if_splits)

text \<open>The common end of \<open>fork\<close> and \<open>clone\<close>.\<close>

lemma finish_fds:
  assumes "fds_ok s" "dup_files me np [0..<NOFILE] s = Inr s1" "dup_cwd me np s1 = Inr s2"
    and "np < NPROC" "me \<noteq> np" "idle (ptab s np)" "ofile (f (ptab s2 np)) = ofile (ptab s2 np)" "\<not> idle (f (ptab s2 np))"
  shows "fds_ok (upd_proc np f s2)"
proof -
  have o: "fd_off s (\<lambda>_. 0)" "idle_closed s" using assms(1) by (simp_all add: fds_ok_def)
  have d: "fd_off s1 (\<lambda>_. 0) \<and> (\<forall>p. p \<noteq> np \<longrightarrow> ptab s1 p = ptab s p) \<and> pstate (ptab s1 np) = pstate (ptab s np)"
    by (rule dup_files_off [OF assms(2) o(1) assms(4,5)]) (use o(2) assms(4,6) in \<open>auto simp: idle_closed_def\<close>)
  have c: "fsame s1 s2" using dup_cwd_fsame [OF assms(3)] by blast
  have "fsame s2 (upd_proc np f s2)" using assms(7,8) by (intro fsame_upd(2))
  then have "fd_off (upd_proc np f s2) (\<lambda>_. 0)" using d fsame_off c by blast
  moreover have "idle_closed (upd_proc np f s2)"
    unfolding idle_closed_def
  proof (intro allI impI)
    fix p fd assume p: "p < NPROC" "idle (ptab (upd_proc np f s2) p)" "fd < NOFILE"
    then have "p \<noteq> np" using assms(8) by auto
    then have "idle (ptab s1 p)" "ofile (ptab s2 p) = ofile (ptab s1 p)" "ptab s1 p = ptab s p"
      using p(2) c d by (auto simp: fsame_def)
    then show "ofile (ptab (upd_proc np f s2) p) fd = None" using o(2) p(1,3) \<open>p \<noteq> np\<close> by (simp add: idle_closed_def)
  qed
  ultimately show ?thesis by (simp add: fds_ok_def)
qed

lemma fork_fds:
  assumes "fork L me s = Inr (r, s')" "fds_ok s" "running s me"
  shows "fds_ok s'"
proof -
  obtain o1 s1 where s1: "allocproc L s = (o1, s1)" by (rule prod.exhaust)
  have a: "fds_ok s1" "\<And>p. o1 = Some p \<Longrightarrow> p < NPROC \<and> p \<noteq> me \<and> pstate (ptab s1 p) = EMBRYO"
    using allocproc_fsame [OF s1] assms(2,3) fsame_ok by (auto simp: running_def)
  show ?thesis
  proof (cases o1)
    case None
    then show ?thesis using assms(1) s1 a(1) by (simp add: fork_def)
  next
    case (Some np)
    note np = a(2) [OF Some]
    obtain d m where d: "copyuvm (pgdir (ptab s1 me)) (psz (ptab s1 me)) (kmx s1) = Inr (d, m)"
      using assms(1) s1 Some by (auto simp: fork_def Let_def elim!: kbind_InrE)
    let ?t = "upd_proc np (\<lambda>k. k\<lparr>pgdir := d\<rparr>) (s1\<lparr>kmx := m\<rparr>)"
    have t: "fsame s1 ?t" "idle (ptab ?t np)" using np by (auto simp: fsame_def idle_def)
    show ?thesis
    proof (cases "d = 0")
      case True
      obtain m' where "kfree (kstack (ptab ?t np)) (kmx ?t) = Inr m'"
        "s' = upd_proc np (\<lambda>k. k\<lparr>kstack := 0, pstate := UNUSED\<rparr>) (?t\<lparr>kmx := m'\<rparr>)"
        using assms(1) s1 Some d True by (auto simp: fork_def Let_def kbind_Inr_iff)
      moreover have "fsame ?t (upd_proc np (\<lambda>k. k\<lparr>kstack := 0, pstate := UNUSED\<rparr>) (?t\<lparr>kmx := m'\<rparr>))" for m'
        using t(2) by (auto simp: fsame_def idle_def)
      ultimately show ?thesis using fsame_ok t(1) a(1) by blast
    next
      case False
      let ?g = "\<lambda>k :: proc. k\<lparr>psz := psz (ptab s1 me), parent := Some me, tf := (tf (ptab s1 me))\<lparr>tf_eax := 0\<rparr>\<rparr>"
      let ?u = "upd_proc np ?g ?t"
      have u: "fsame ?t ?u" "idle (ptab ?u np)" using t(2) by (auto simp: fsame_def idle_def)
      obtain s2 s3 where s2: "dup_files me np [0..<NOFILE] ?u = Inr s2" "dup_cwd me np s2 = Inr s3"
        "s' = upd_proc np (\<lambda>k. k\<lparr>pstate := RUNNABLE, count_thread := 0, pname := safestrcpy (pname k) (pname (ptab s3 me)) 16\<rparr>) s3"
        using assms(1) s1 Some d False unfolding fork_def Let_def by (auto simp: kbind_Inr_iff)
      have "fds_ok ?u" using a(1) fsame_ok t(1) u(1) by blast
      then show ?thesis unfolding s2(3)
        by (rule finish_fds [OF _ s2(1,2)]) (use np u(2) in \<open>auto simp: idle_def\<close>)
    qed
  qed
qed

lemma clone_fds:
  assumes "clone L me fcn arg stk s = Inr (r, s')" "fds_ok s" "running s me"
  shows "fds_ok s'"
proof -
  obtain o1 s1 where s1: "allocproc L s = (o1, s1)" by (rule prod.exhaust)
  have a: "fds_ok s1" "\<And>p. o1 = Some p \<Longrightarrow> p < NPROC \<and> p \<noteq> me \<and> pstate (ptab s1 p) = EMBRYO"
    using allocproc_fsame [OF s1] assms(2,3) fsame_ok by (auto simp: running_def)
  show ?thesis
  proof (cases o1)
    case None
    then show ?thesis using assms(1) s1 a(1) by (simp add: clone_def)
  next
    case (Some np)
    note np = a(2) [OF Some]
    let ?q = "ptab s1 me" and ?sp = "stk + 4096 - 8"
    define t where "t = upd_proc np (\<lambda>k. k\<lparr>pstack := stk, tf := (tf ?q)\<lparr>tf_esp := ?sp, tf_eip := fcn\<rparr>\<rparr>)
       (upd_proc me (\<lambda>k. k\<lparr>count_thread := count_thread k + 1\<rparr>) (upd_proc np (\<lambda>k. k\<lparr>pgdir := pgdir ?q, psz := psz ?q, parent := Some me\<rparr>) s1))"
    have t: "fsame s1 t" "idle (ptab t np)" using np by (auto simp: t_def fsame_def idle_def)
    obtain v m where c: "copyout (pgdir ?q) ?sp (clone_frame arg) 8 (kmx t) = Inr (v, m)"
      using assms(1) s1 Some unfolding clone_def Let_def t_def by (auto elim!: kbind_InrE)
    note st = assms(1) [unfolded clone_def s1 Some prod.case option.case Let_def, folded t_def, unfolded c kbind_simps prod.case]
    show ?thesis
    proof (cases "v < 0")
      case True
      then have "s' = t\<lparr>kmx := m\<rparr>" using st by simp
      then show ?thesis using fsame_ok [OF t(1) a(1)] by simp
    next
      case False
      let ?u = "upd_proc np (\<lambda>k. k\<lparr>tf := (tf k)\<lparr>tf_eax := 0\<rparr>\<rparr>) (t\<lparr>kmx := m\<rparr>)"
      have u: "fsame t ?u" "idle (ptab ?u np)" using t(2) by (auto simp: fsame_def idle_def)
      obtain s2 s3 where s2: "dup_files me np [0..<NOFILE] ?u = Inr s2" "dup_cwd me np s2 = Inr s3"
        "s' = upd_proc np (\<lambda>k. k\<lparr>pstate := RUNNABLE, pname := safestrcpy (pname k) (pname (ptab s3 me)) 16\<rparr>) s3"
        using st False by (auto simp: kbind_Inr_iff)
      have "fds_ok ?u" using a(1) fsame_ok t(1) u(1) by blast
      then show ?thesis unfolding s2(3)
        by (rule finish_fds [OF _ s2(1,2)]) (use np u(2) in \<open>auto simp: idle_def\<close>)
    qed
  qed
qed

lemma close_files_off:
  assumes "close_files me fds s = Inr s'" "fd_off s (\<lambda>_. 0)" "me < NPROC" "set fds \<subseteq> {..<NOFILE}"
  shows "fd_off s' (\<lambda>_. 0) \<and> (\<forall>p. p \<noteq> me \<longrightarrow> ptab s' p = ptab s p) \<and> pstate (ptab s' me) = pstate (ptab s me) \<and>
    (\<forall>fd. ofile (ptab s' me) fd = (if fd \<in> set fds then None else ofile (ptab s me) fd))"
  using assms
proof (induction fds arbitrary: s)
  case (Cons fd fds)
  show ?case
  proof (cases "ofile (ptab s me) fd")
    case (Some f)
    obtain s1 where s1: "fileclose f s = Inr s1" "close_files me fds (set_fd me fd None s1) = Inr s'"
      using Cons.prems(1) Some by (auto simp: kbind_Inr_iff set_fd_def)
    note d = off_close [OF s1(1) Cons.prems(2)]
    have fd: "fd < NOFILE" "ofile (ptab s1 me) fd = Some f" using Cons.prems(4) d(2) Some by auto
    have "fd_off (set_fd me fd None s1) (\<lambda>_. 0)" by (rule off_eq [OF off_take [OF d(1) Cons.prems(3) fd]]) (auto simp: fun_eq_iff)
    from Cons.IH [OF s1(2) this Cons.prems(3)] show ?thesis using Cons.prems(4) d(2) by (auto simp: set_fd_ptab)
  next
    case None
    then show ?thesis using Cons by auto
  qed
qed simp

lemma pass_children_fsame: "fsame s (pass_children me ps s)"
proof (induction ps arbitrary: s)
  case (Cons p ps)
  let ?s = "upd_proc p (\<lambda>k. k\<lparr>parent := initproc s\<rparr>) s"
  have "fsame s ?s" by (rule fsame_upd(3)) simp_all
  moreover have "fsame ?s (if pstate (ptab ?s p) = ZOMBIE then wakeup1 (map_option CProc (initproc ?s)) ?s else ?s)"
    (is "fsame _ ?t") by simp
  moreover have "fsame ?t (pass_children me ps ?t)" by (rule Cons.IH)
  ultimately have "fsame s (pass_children me ps ?t)" using fsame_trans by blast
  then show ?case using Cons.IH [of s] by (simp add: Let_def)
qed simp

lemma exit_fds:
  assumes "exit me s = Inr s'" "fds_ok s" "running s me"
  shows "fds_ok s'"
proof -
  have me: "me < NPROC" using assms(3) by (simp add: running_def)
  have o: "fd_off s (\<lambda>_. 0)" "idle_closed s" using assms(2) by (simp_all add: fds_ok_def)
  obtain s1 ip x where s1: "close_files me [0..<NOFILE] s = Inr s1" "cwd (ptab s1 me) = Some ip" "iput ip (fsx s1) = Inr x"
    and s': "s' = upd_proc me (\<lambda>k. k\<lparr>pstate := ZOMBIE\<rparr>) (pass_children me [0..<NPROC]
      (wakeup1 (map_option CProc (parent (ptab (upd_proc me (\<lambda>k. k\<lparr>cwd := None\<rparr>) (deliver (s1\<lparr>fsx := x\<rparr>))) me)))
        (upd_proc me (\<lambda>k. k\<lparr>cwd := None\<rparr>) (deliver (s1\<lparr>fsx := x\<rparr>)))))"
    using assms(1) unfolding exit_def Let_def by (auto simp: kbind_Inr_iff split: if_splits option.splits)
  have c: "fd_off s1 (\<lambda>_. 0) \<and> (\<forall>p. p \<noteq> me \<longrightarrow> ptab s1 p = ptab s p) \<and> pstate (ptab s1 me) = pstate (ptab s me) \<and>
    (\<forall>fd. ofile (ptab s1 me) fd = (if fd \<in> set [0..<NOFILE] then None else ofile (ptab s me) fd))"
    by (rule close_files_off [OF s1(1) o(1) me]) auto
  have "idle_closed s1" unfolding idle_closed_def
  proof (intro allI impI)
    fix p fd assume "p < NPROC" "idle (ptab s1 p)" "fd < NOFILE"
    then show "ofile (ptab s1 p) fd = None" using c o(2) by (cases "p = me") (auto simp: idle_closed_def)
  qed
  then have 1: "fds_ok (s1\<lparr>fsx := x\<rparr>)" using c by (simp add: fds_ok_def)
  define t where "t = upd_proc me (\<lambda>k. k\<lparr>cwd := None\<rparr>) (deliver (s1\<lparr>fsx := x\<rparr>))"
  define u where "u = pass_children me [0..<NPROC] (wakeup1 (map_option CProc (parent (ptab t me))) t)"
  have "fsame (s1\<lparr>fsx := x\<rparr>) (deliver (s1\<lparr>fsx := x\<rparr>))" by simp
  moreover have "fsame (deliver (s1\<lparr>fsx := x\<rparr>)) t" unfolding t_def by (rule fsame_upd(3)) simp_all
  moreover have "fsame t u" unfolding u_def using fsame_trans fsame_wakeup1 pass_children_fsame by blast
  ultimately have f: "fsame (s1\<lparr>fsx := x\<rparr>) u" using fsame_trans by blast
  then have u: "fds_ok u" using fsame_ok 1 by blast
  have e: "s' = upd_proc me (\<lambda>k. k\<lparr>pstate := ZOMBIE\<rparr>) u" unfolding s' u_def t_def ..
  have cl: "ofile (ptab u me) fd = None" if "fd < NOFILE" for fd using f c that by (simp add: fsame_def)
  have "fd_refs s' f = fd_refs u f" for f unfolding e by (auto simp: fd_refs_def split: if_splits)
  moreover have "ftable s' = ftable u" unfolding e by simp
  ultimately have "fd_off s' (\<lambda>_. 0)" using u by (simp add: fds_ok_def fd_off_def)
  moreover have "idle_closed s'" using u cl unfolding e fds_ok_def idle_closed_def by simp
  ultimately show ?thesis by (simp add: fds_ok_def)
qed

lemma clear_proc_fsame: "idle (ptab s p) \<Longrightarrow> fsame s (clear_proc p s)"
  by (simp add: clear_proc_def fsame_def idle_def)

lemma sleep_fsame: "sleep me c lk s = Inr s' \<Longrightarrow> fsame s s'"
  by (auto simp: sleep_def fsame_def idle_def split: option.splits if_splits)

lemma upd_kstack_fsame: "fsame s (upd_proc p (\<lambda>k. k\<lparr>kstack := v\<rparr>) (s\<lparr>kmx := m\<rparr>))"
  "idle (ptab (upd_proc p (\<lambda>k. k\<lparr>kstack := v\<rparr>) (s\<lparr>kmx := m\<rparr>)) p) = idle (ptab s p)"
  by (auto simp: fsame_def idle_def split: if_splits)

lemma wait_fds:
  assumes "wait me s = Inr (r, s')" "fds_ok s"
  shows "fds_ok s'"
proof (cases "child_scan False me s [0..<NPROC] False")
  case (Pair h o1)
  show ?thesis
  proof (cases o1)
    case None
    then have "fsame s s'" using assms(1) Pair sleep_fsame by (auto simp: wait_def kbind_Inr_iff split: if_splits)
    then show ?thesis using assms(2) fsame_ok by blast
  next
    case (Some p)
    then have z: "idle (ptab s p)" using child_scan_Some [of False me s "[0..<NPROC]" False h p] Pair by (simp add: idle_def)
    obtain m1 m2 where e: "s' = clear_proc p ((upd_proc p (\<lambda>k. k\<lparr>kstack := 0\<rparr>) (s\<lparr>kmx := m1\<rparr>))\<lparr>kmx := m2\<rparr>)"
      using assms(1) Pair Some unfolding wait_def by (auto simp: kbind_Inr_iff Let_def)
    let ?t = "upd_proc p (\<lambda>k. k\<lparr>kstack := 0\<rparr>) (s\<lparr>kmx := m1\<rparr>)"
    have "fds_ok (?t\<lparr>kmx := m2\<rparr>)" unfolding fsx_fds using fsame_ok [OF upd_kstack_fsame(1)] assms(2) by blast
    moreover have "fsame (?t\<lparr>kmx := m2\<rparr>) s'" unfolding e using z by (intro clear_proc_fsame) (simp add: idle_def)
    ultimately show ?thesis using fsame_ok by blast
  qed
qed

lemma join_fds:
  assumes "join me stk s = Inr (r, s')" "fds_ok s"
  shows "fds_ok s'"
proof (cases "stk + 4 > psz (ptab s me)")
  case True
  then show ?thesis using assms by (simp add: join_def)
next
  case False
  show ?thesis
  proof (cases "child_scan True me s [0..<NPROC] False")
    case (Pair h o1)
    show ?thesis
    proof (cases o1)
      case None
      then have "fsame s s'" using assms(1) False Pair sleep_fsame by (auto simp: join_def kbind_Inr_iff split: if_splits)
      then show ?thesis using assms(2) fsame_ok by blast
    next
      case (Some p)
      then have z: "idle (ptab s p)" using child_scan_Some [of True me s "[0..<NPROC]" False h p] Pair by (simp add: idle_def)
      obtain m1 v m2 where e: "s' = upd_proc me (\<lambda>k. k\<lparr>count_thread := count_thread k - 1\<rparr>)
          (clear_proc p ((upd_proc p (\<lambda>k. k\<lparr>kstack := 0\<rparr>) (s\<lparr>kmx := m1\<rparr>))\<lparr>kmx := m2\<rparr>))"
        using assms(1) False Pair Some unfolding join_def by (auto simp: kbind_Inr_iff Let_def split: if_splits)
      let ?t = "upd_proc p (\<lambda>k. k\<lparr>kstack := 0\<rparr>) (s\<lparr>kmx := m1\<rparr>)"
      have "fds_ok (?t\<lparr>kmx := m2\<rparr>)" unfolding fsx_fds using fsame_ok [OF upd_kstack_fsame(1)] assms(2) by blast
      moreover have "fsame (?t\<lparr>kmx := m2\<rparr>) (clear_proc p (?t\<lparr>kmx := m2\<rparr>))"
        using z by (intro clear_proc_fsame) (simp add: idle_def)
      moreover have "fsame (clear_proc p (?t\<lparr>kmx := m2\<rparr>)) s'" unfolding e by (rule fsame_upd(3)) simp_all
      ultimately show ?thesis using fsame_ok by blast
    qed
  qed
qed

end
