(* ===== verification/Sysrun.thy ===== *)
theory Sysrun imports Fdtable
begin

text \<open>
  The kernel as a whole: every system call and every trap keeps the reference counts of the file table exact and
  moves the process table only by steps of the process layer.  \<open>calm\<close> and \<open>okay\<close> are the two facts each call is shown
  to keep; \<open>sys_run\<close> is the step relation of the kernel from its entry points (scheduler, system call, interrupt).
\<close>

section \<open>Calls that leave processes and references alone\<close>

text \<open>\<open>calm\<close>: quiet for the process table, and no change of references.\<close>

definition calm :: "kern \<Rightarrow> kern \<Rightarrow> bool" where
  "calm s s' \<longleftrightarrow> quiet s s' \<and> fsame s s'"

lemma calm_refl [simp]: "calm s s"
  by (simp add: calm_def)

lemma calm_trans [trans]: "calm s t \<Longrightarrow> calm t u \<Longrightarrow> calm s u"
  using quiet_trans fsame_trans unfolding calm_def by blast

lemma calm_below [simp]:
  "calm s (s'\<lparr>kmx := m\<rparr>) = calm s s'" "calm s (s'\<lparr>fsx := x\<rparr>) = calm s s'" "calm s (s'\<lparr>pipes := g\<rparr>) = calm s s'"
  "calm s (s'\<lparr>wakes := v\<rparr>) = calm s s'"
  by (simp_all add: calm_def)

lemma calm_deliver [simp]: "calm s (deliver s)"
  by (simp add: calm_def)

lemma quiet_running: "quiet s s' \<Longrightarrow> running s me \<Longrightarrow> running s' me"
  using quietD(8) [of s s' me] by (auto simp: running_def)

text \<open>A process-layer state that some run reaches, for some record of waiting.\<close>

definition kr :: "u32 \<Rightarrow> kern \<Rightarrow> bool" where
  "kr L s \<longleftrightarrow> (\<exists>w. kern_run L s w)"

lemma kr_quiet: "kr L s \<Longrightarrow> quiet s s' \<Longrightarrow> kr L s'"
  using kern_run.others unfolding kr_def by blast

lemma fileread_calm:
  assumes "fileread D f n kld s = Inr (bs, r, s')"
  shows "calm s s'"
proof -
  have "ptab s' = ptab s \<and> nextpid s' = nextpid s \<and> initproc s' = initproc s"
    using assms by (auto simp: fileread_def Let_def kbind_Inr_iff split: if_splits ftype.splits prod.splits)
  moreover have "\<forall>f. fref (ftable s' f) = fref (ftable s f)" using fileread_io [OF assms] by (simp add: io_same_def)
  ultimately show ?thesis by (simp add: calm_def quiet_def fsame_def)
qed

lemma filewrite_calm:
  assumes "filewrite D f b n kld s = Inr (r, s')"
  shows "calm s s'"
proof -
  have "ptab s' = ptab s \<and> nextpid s' = nextpid s \<and> initproc s' = initproc s"
    using assms by (auto simp: filewrite_def Let_def kbind_Inr_iff split: if_splits ftype.splits prod.splits)
  moreover have "\<forall>f. fref (ftable s' f) = fref (ftable s f)" using filewrite_io [OF assms] by (simp add: io_same_def)
  ultimately show ?thesis by (simp add: calm_def quiet_def fsame_def)
qed

lemma filestat_calm: "filestat f s = Inr (r, st, s') \<Longrightarrow> calm s s'"
  by (auto simp: filestat_def Let_def kbind_Inr_iff split: if_splits)

text \<open>What a step has to keep: reachability of the process layer, and the descriptor invariant.\<close>

definition okay :: "u32 \<Rightarrow> kern \<Rightarrow> bool" where
  "okay L s \<longleftrightarrow> kr L s \<and> fds_ok s"

lemma okay_calm: "okay L s \<Longrightarrow> calm s s' \<Longrightarrow> okay L s'"
  using kr_quiet fsame_ok unfolding okay_def calm_def by blast

lemma okay_quiet: "okay L s \<Longrightarrow> quiet s s' \<Longrightarrow> fds_ok s' \<Longrightarrow> okay L s'"
  using kr_quiet unfolding okay_def by blast

lemma okay_sleep: "okay L s \<Longrightarrow> running s me \<Longrightarrow> sleep (Some me) c lk s = Inr s' \<Longrightarrow> okay L s'"
  using kern_run.sleep sleep_fsame fsame_ok unfolding okay_def kr_def by blast

lemma transfer_end_okay:
  assumes "okay L s" "running s me" "transfer_end me f r s = Inr (q, s')"
  shows "okay L s'"
proof -
  have d: "okay L (deliver s)" "running (deliver s) me"
    using okay_calm [OF assms(1) calm_deliver] quiet_running [OF quiet_deliver assms(2)] by blast+
  show ?thesis
    using assms(3) d okay_sleep [OF d] by (cases r) (auto simp: transfer_end_def kbind_Inr_iff)
qed

lemma read_file_okay:
  assumes "okay L s" "running s me" "read_file D me f p n s = Inr (q, s')"
  shows "okay L s'"
proof -
  obtain bs r t m where t: "fileread D f n (killed (ptab s me)) s = Inr (bs, r, t)"
    "transfer_end me f (case r of Ret k \<Rightarrow> Ret k | Sleep c _ \<Rightarrow> Sleep c 0) (t\<lparr>kmx := m\<rparr>) = Inr (q, s')"
    using assms(3) by (auto simp: read_file_def kbind_Inr_iff)
  have c: "calm s (t\<lparr>kmx := m\<rparr>)" using fileread_calm [OF t(1)] by simp
  show ?thesis
    by (rule transfer_end_okay [OF okay_calm [OF assms(1) c] quiet_running [OF _ assms(2)] t(2)]) (use c in \<open>simp add: calm_def\<close>)
qed

lemma write_end_okay:
  assumes "okay L s" "running s me" "calm s t" "write_end me f p r s0 t = Inr (q, s')"
  shows "okay L s'"
proof -
  have "transfer_end me f r t = Inr (q, s')" using assms(4) by (auto simp: write_end_def elim!: kbind_InrE)
  moreover have "running t me" using assms(2,3) quiet_running unfolding calm_def by blast
  ultimately show ?thesis using transfer_end_okay okay_calm [OF assms(1,3)] by blast
qed

lemma resume_write_okay:
  assumes "okay L s" "running s me" "resume_write me f p n i s = Inr (q, s')"
  shows "okay L s'"
  using assms(3) unfolding resume_write_def Let_def
  by (auto split: prod.splits intro: write_end_okay [OF assms(1,2), rotated])

lemma sleep_loop_okay: "okay L s \<Longrightarrow> running s me \<Longrightarrow> sleep_loop me n t0 s = Inr (q, s') \<Longrightarrow> okay L s'"
  using okay_sleep by (auto simp: sleep_loop_def kbind_Inr_iff split: if_splits)

text \<open>The rest of a call whose arguments are fetched.\<close>

lemma with_arg_okay:
  assumes "with_arg r s f = Inr (q, s')" "okay L s" "\<And>a. f a = Inr (q, s') \<Longrightarrow> okay L s'"
  shows "okay L s'"
  using assms(1) by (rule with_argE) (use assms(2,3) in auto)

lemma wait_okay: "okay L s \<Longrightarrow> running s me \<Longrightarrow> wait me s = Inr (o1, s') \<Longrightarrow> okay L s'"
  using kern_run.wait wait_fds unfolding okay_def kr_def by blast

lemma join_okay: "okay L s \<Longrightarrow> running s me \<Longrightarrow> join me stk s = Inr (o1, s') \<Longrightarrow> okay L s'"
  using kern_run.join join_fds unfolding okay_def kr_def by blast

lemma fork_okay: "okay L s \<Longrightarrow> running s me \<Longrightarrow> fork L me s = Inr (r, s') \<Longrightarrow> okay L s'"
  using kern_run.fork fork_fds unfolding okay_def kr_def by blast

lemma clone_okay: "okay L s \<Longrightarrow> running s me \<Longrightarrow> clone L me fcn arg stk s = Inr (r, s') \<Longrightarrow> okay L s'"
  using kern_run.clone clone_fds unfolding okay_def kr_def by blast

lemma exit_okay: "okay L s \<Longrightarrow> running s me \<Longrightarrow> exit me s = Inr s' \<Longrightarrow> okay L s'"
  using kern_run.exit exit_fds unfolding okay_def kr_def by blast

lemma kill_calm: "kill n s = (r, s') \<Longrightarrow> calm s s'"
  using kill_quiet [of n s r s'] unfolding calm_def
  by (auto simp: kill_def fsame_def idle_def split: option.splits if_splits)

lemma growproc_calm:
  assumes "growproc me n s = Inr (r, s')"
  shows "calm s s'"
proof -
  have "fsame s s'"
    using assms unfolding growproc_def Let_def
  proof (elim kbind_InrE)
    fix x assume "(case x of (sz, m) \<Rightarrow> if n \<noteq> 0 \<and> sz = 0 then Inr (-1, s\<lparr>kmx := m\<rparr>)
      else Inr (0, s\<lparr>kmx := m, ptab := (\<lambda>p. if p = me \<or> p < NPROC \<and> parent (ptab (s\<lparr>kmx := m\<rparr>) p) = Some me \<and>
          pgdir (ptab (s\<lparr>kmx := m\<rparr>) p) = pgdir (ptab s me)
          then (ptab (s\<lparr>kmx := m\<rparr>) p)\<lparr>psz := sz\<rparr> else ptab (s\<lparr>kmx := m\<rparr>) p)\<rparr>)) = (Inr (r, s') :: (int \<times> kern) res)"
    then show ?thesis by (cases x) (auto simp: fsame_def idle_def split: if_splits)
  qed
  then show ?thesis using growproc_quiet [OF assms] by (simp add: calm_def)
qed

lemma quiet_set_fd: "quiet s t \<Longrightarrow> quiet s (set_fd me fd f t)"
  by (rule quiet_trans) (auto simp: set_fd_def intro: quiet_upd)

lemma fdalloc_quiet: "fdalloc me f s = (r, s') \<Longrightarrow> quiet s s'"
  using quiet_set_fd [OF quiet_refl] by (auto simp: fdalloc_def split: option.splits)

lemma filealloc_quiet: "filealloc s = (r, s') \<Longrightarrow> quiet s s'"
  by (auto simp: filealloc_def split: option.splits)

lemma pipealloc_quiet:
  assumes "pipealloc s = Inr (r, s')"
  shows "quiet s s'"
proof -
  obtain o1 s1 where s1: "filealloc s = (o1, s1)" by (rule prod.exhaust)
  obtain o2 s2 where s2: "filealloc s1 = (o2, s2)" by (rule prod.exhaust)
  obtain v m where v: "kalloc (kmx s2) = (v, m)" by (rule prod.exhaust)
  have q: "quiet s s1" "quiet s s2" using filealloc_quiet [OF s1] filealloc_quiet [OF s2] quiet_trans by blast+
  have c: "quiet t u" if "close_opt a t = Inr u" for a t u
    using that fileclose_quiet by (auto simp: close_opt_def split: option.splits)
  show ?thesis
  proof (cases o1)
    case None
    then show ?thesis using assms s1 q by (simp add: pipealloc_def)
  next
    case a: (Some a)
    show ?thesis
    proof (cases o2)
      case None
      then have "close_opt (Some a) s2 = Inr s'" using assms s1 s2 a by (auto simp: pipealloc_def kbind_Inr_iff)
      then show ?thesis using c q quiet_trans by blast
    next
      case b: (Some b)
      show ?thesis
      proof (cases "v = 0")
        case True
        then obtain t where "close_opt (Some a) (s2\<lparr>kmx := m\<rparr>) = Inr t" "close_opt (Some b) t = Inr s'"
          using assms s1 s2 a b v by (auto simp: pipealloc_def kbind_Inr_iff)
        then have "quiet (s2\<lparr>kmx := m\<rparr>) s'" using c quiet_trans by blast
        moreover have "quiet s (s2\<lparr>kmx := m\<rparr>)" using q by simp
        ultimately show ?thesis using quiet_trans by blast
      next
        case False
        then show ?thesis using assms s1 s2 a b v q(2) by (auto simp: pipealloc_def Let_def)
      qed
    qed
  qed
qed

lemma sys_dup_quiet: "sys_dup me s = Inr (q, s') \<Longrightarrow> quiet s s'"
  unfolding sys_dup_def
proof (erule with_argE, goal_cases)
  case (2 a)
  obtain fd f where a: "a = (fd, f)" by (rule prod.exhaust)
  obtain r t where r: "fdalloc me f s = (r, t)" by (rule prod.exhaust)
  have "quiet t s'" using 2 r filedup_quiet by (auto simp: a kbind_Inr_iff split: option.splits)
  then show ?case using fdalloc_quiet [OF r] quiet_trans by blast
qed simp

lemma sys_close_quiet: "sys_close me s = Inr (q, s') \<Longrightarrow> quiet s s'"
  unfolding sys_close_def
proof (erule with_argE, goal_cases)
  case (2 a)
  obtain fd f where a: "a = (fd, f)" by (rule prod.exhaust)
  obtain t where t: "fileclose f (set_fd me fd None s) = Inr t" "s' = deliver t" using 2 by (auto simp: a kbind_Inr_iff)
  have "quiet s t" using quiet_set_fd [OF quiet_refl] fileclose_quiet [OF t(1)] quiet_trans by blast
  then show ?case unfolding t(2) using quiet_deliver quiet_trans by blast
qed simp

lemma open_file_quiet:
  assumes "open_file me ip om s = Inr (q, s')"
  shows "quiet s s'"
proof -
  obtain o1 s1 where s1: "filealloc s = (o1, s1)" by (rule prod.exhaust)
  note q1 = filealloc_quiet [OF s1]
  show ?thesis
  proof (cases o1)
    case None
    then have "open_fail ip s1 = Inr (q, s')" using assms s1 by (simp add: open_file_def)
    then show ?thesis using open_fail_kern q1 by fastforce
  next
    case (Some f)
    obtain r t where r: "fdalloc me f s1 = (r, t)" by (rule prod.exhaust)
    have q2: "quiet s t" using q1 fdalloc_quiet [OF r] quiet_trans by blast
    show ?thesis
    proof (cases r)
      case None
      then obtain u where u: "fileclose f t = Inr u" "open_fail ip u = Inr (q, s')"
        using assms s1 Some r by (auto simp: open_file_def kbind_Inr_iff)
      obtain x where "s' = u\<lparr>fsx := x\<rparr>" using open_fail_kern [OF u(2)] by blast
      then show ?thesis using q2 fileclose_quiet [OF u(1)] quiet_trans by auto
    next
      case (Some fd)
      then show ?thesis using assms s1 \<open>o1 = Some f\<close> r q2 by (auto simp: open_file_def kbind_Inr_iff)
    qed
  qed
qed

lemma sys_open_quiet: "sys_open D me s = Inr (q, s') \<Longrightarrow> quiet s s'"
  unfolding sys_open_def
proof (erule with_argE, goal_cases)
  case (2 path)
  then show ?case
  proof (elim with_argE, goal_cases)
    case (2 om)
    then obtain ip t where t: "on_fs me s (open_inode D path om) = Inr (ip, t)"
      "(case ip of None \<Rightarrow> Inr (SRet (-1), t) | Some ip \<Rightarrow> open_file me ip om t) = Inr (q, s')"
      by (auto simp: kbind_Inr_iff)
    obtain x where x: "t = s\<lparr>fsx := x\<rparr>" using on_fs_kern [OF t(1)] by blast
    have "quiet t s'" using t(2) open_file_quiet by (auto split: option.splits)
    moreover have "quiet s t" unfolding x by simp
    ultimately show ?case using quiet_trans by blast
  qed simp
qed simp

lemma close_both_quiet: "close_both a b s = Inr (q, s') \<Longrightarrow> quiet s s'"
proof -
  assume "close_both a b s = Inr (q, s')"
  then obtain t u where t: "fileclose a s = Inr t" "fileclose b t = Inr u" "s' = deliver u" by (auto simp: close_both_def kbind_Inr_iff)
  then show ?thesis using fileclose_quiet [OF t(1)] fileclose_quiet [OF t(2)] quiet_deliver quiet_trans by blast
qed

lemma sys_pipe_quiet: "sys_pipe me s = Inr (q, s') \<Longrightarrow> quiet s s'"
  unfolding sys_pipe_def
proof (erule with_argE, goal_cases)
  case (2 addr)
  obtain r s1 where s1: "pipealloc s = Inr (r, s1)" using 2(2) by (auto elim!: kbind_InrE)
  note q1 = pipealloc_quiet [OF s1]
  show ?case
  proof (cases r)
    case None
    then have "s' = deliver s1" using 2(2) s1 by simp
    then show ?thesis using q1 quiet_deliver quiet_trans by blast
  next
    case (Some ab)
    obtain a b where ab: "ab = (a, b)" by (rule prod.exhaust)
    obtain r1 s2 where s2: "fdalloc me a s1 = (r1, s2)" by (rule prod.exhaust)
    obtain r2 s3 where s3: "fdalloc me b s2 = (r2, s3)" by (rule prod.exhaust)
    have q2: "quiet s s2" using q1 fdalloc_quiet [OF s2] quiet_trans by blast
    have q3: "quiet s s3" using q2 fdalloc_quiet [OF s3] quiet_trans by blast
    show ?thesis
    proof (cases r1)
      case None
      then have "close_both a b s2 = Inr (q, s')" using 2(2) s1 Some ab s2 by simp
      then show ?thesis using close_both_quiet q2 quiet_trans by blast
    next
      case fd0: (Some fd0)
      show ?thesis
      proof (cases r2)
        case None
        then have "close_both a b (set_fd me fd0 None s3) = Inr (q, s')" using 2(2) s1 Some ab s2 fd0 s3 by simp
        then show ?thesis using close_both_quiet quiet_set_fd [OF q3] quiet_trans by blast
      next
        case (Some fd1)
        then show ?thesis using 2(2) s1 \<open>r = Some ab\<close> ab s2 fd0 s3 q3 by (auto simp: kbind_Inr_iff)
      qed
    qed
  qed
qed simp

section \<open>Every system call\<close>

text \<open>The change of image that \<open>exec\<close> makes.\<close>

definition image :: "nat \<Rightarrow> kern \<Rightarrow> kern \<Rightarrow> bool" where
  "image me s s' \<longleftrightarrow> ftable s' = ftable s \<and> nextpid s' = nextpid s \<and> initproc s' = initproc s \<and>
     (\<exists>d z t nm. ptab s' = (ptab s)(me := (ptab s me)\<lparr>pname := nm, pgdir := d, psz := z, tf := t\<rparr>))"

lemma image_refl: "image me s s"
proof -
  have "ptab s = (ptab s)(me := (ptab s me)\<lparr>pname := pname (ptab s me), pgdir := pgdir (ptab s me), psz := psz (ptab s me), tf := tf (ptab s me)\<rparr>)"
    by simp
  then show ?thesis unfolding image_def by blast
qed

lemma image_below [simp]: "image me s (s'\<lparr>fsx := x\<rparr>) = image me s s'" "image me s (s'\<lparr>kmx := m\<rparr>) = image me s s'"
  by (simp_all add: image_def)

lemma exec_bad_image: "exec_bad d ip t = Inr (r, s') \<Longrightarrow> image me s t \<Longrightarrow> image me s s'"
  by (auto simp: exec_bad_def free_image_def kbind_Inr_iff split: if_splits option.splits)

text \<open>A predicate on every state in which a computation can end, with one rule for each form of the code.\<close>

definition ends_in :: "('s \<Rightarrow> bool) \<Rightarrow> ('a \<times> 's) res \<Rightarrow> bool" where
  "ends_in P r \<longleftrightarrow> (\<forall>a s. r = Inr (a, s) \<longrightarrow> P s)"

named_theorems ends_rules \<open>rules for ends_in\<close>

lemma ends_Inl [ends_rules]: "ends_in P (Inl e)"
  by (simp add: ends_in_def)

lemma ends_Inr [ends_rules]: "P s \<Longrightarrow> ends_in P (Inr (a, s))"
  by (simp add: ends_in_def)

lemma ends_kbind [ends_rules]: "(\<And>x. r = Inr x \<Longrightarrow> ends_in P (f x)) \<Longrightarrow> ends_in P (kbind r f)"
  by (auto simp: ends_in_def kbind_Inr_iff)

lemma ends_prod [ends_rules]: "(\<And>a b. x = (a, b) \<Longrightarrow> ends_in P (f a b)) \<Longrightarrow> ends_in P (case x of (a, b) \<Rightarrow> f a b)"
  by (cases x) simp

lemma ends_option [ends_rules]:
  "(x = None \<Longrightarrow> ends_in P u) \<Longrightarrow> (\<And>a. x = Some a \<Longrightarrow> ends_in P (f a)) \<Longrightarrow> ends_in P (case x of None \<Rightarrow> u | Some a \<Rightarrow> f a)"
  by (cases x) simp_all

lemma ends_if [ends_rules]: "(c \<Longrightarrow> ends_in P a) \<Longrightarrow> (\<not> c \<Longrightarrow> ends_in P b) \<Longrightarrow> ends_in P (if c then a else b)"
  by simp

lemma ends_with_arg [ends_rules]: "P s \<Longrightarrow> (\<And>a. r = Inr (Some a) \<Longrightarrow> ends_in P (f a)) \<Longrightarrow> ends_in P (with_arg r s f)"
  unfolding ends_in_def by (auto elim!: with_argE)

lemma ends_exec_bad [ends_rules]: "image me s t \<Longrightarrow> ends_in (image me s) (exec_bad d ip t)"
  using exec_bad_image unfolding ends_in_def by blast

lemma exec_image: "ends_in (image me s) (exec D path argv me s)"
  unfolding exec_def Let_def
  by (intro ends_rules) (simp_all add: image_refl, auto simp: image_def)


lemma image_fsame: "image me s s' \<Longrightarrow> fsame s s'"
  by (auto simp: image_def fsame_def idle_def split: if_splits)

lemma okay_image:
  assumes "okay L s" "running s me" "image me s s'"
  shows "okay L s'"
proof -
  obtain d z t nm where i: "ptab s' = (ptab s)(me := (ptab s me)\<lparr>pname := nm, pgdir := d, psz := z, tf := t\<rparr>)"
    "nextpid s' = nextpid s" "initproc s' = initproc s" using assms(3) by (auto simp: image_def)
  let ?t = "upd_proc me (\<lambda>k. k\<lparr>pgdir := d, psz := z, tf := t, pname := nm\<rparr>) s"
  obtain w where "kern_run L s w" using assms(1) by (auto simp: okay_def kr_def)
  then have "kern_run L ?t w" using assms(2) by (rule kern_run.image)
  moreover have "quiet ?t s'" using i by (simp add: quiet_def)
  ultimately have "kr L s'" using kern_run.others unfolding kr_def by blast
  then show ?thesis using assms(1) fsame_ok [OF image_fsame [OF assms(3)]] by (simp add: okay_def)
qed

lemma okay_mem [simp]: "okay L s \<Longrightarrow> okay L (s\<lparr>kmx := m\<rparr>)" "okay L s \<Longrightarrow> okay L (s\<lparr>fsx := x\<rparr>)"
  by (erule okay_calm, simp)+

lemma okay_call:
  assumes "f s = Inr (r, s')" "ends_in (okay L) (f s)"
  shows "okay L s'"
  using assms by (auto simp: ends_in_def)

text \<open>The calls, by their parts.\<close>

lemma okay_on_fs: "on_fs me s f = Inr (r, t) \<Longrightarrow> okay L s \<Longrightarrow> okay L t"
  using on_fs_kern by fastforce

lemma okayI: "(\<And>r s'. x = Inr (r, s') \<Longrightarrow> okay L s') \<Longrightarrow> ends_in (okay L) x"
  by (simp add: ends_in_def)

lemma sys_fork_okay: "okay L s \<Longrightarrow> running s me \<Longrightarrow> ends_in (okay L) (sys_fork L me s)"
  unfolding sys_fork_def by (intro ends_rules) (rule fork_okay, assumption+, blast)

lemma sys_exit_okay: "okay L s \<Longrightarrow> running s me \<Longrightarrow> ends_in (okay L) (sys_exit me s)"
  unfolding sys_exit_def by (intro ends_rules) (rule exit_okay)

lemma sys_wait_okay: "okay L s \<Longrightarrow> running s me \<Longrightarrow> ends_in (okay L) (sys_wait me s)"
  unfolding sys_wait_def by (intro ends_rules) (rule wait_okay, assumption+, blast)


lemma okay_kill: "kill n s = (r, s') \<Longrightarrow> okay L s \<Longrightarrow> okay L s'"
  using kill_calm okay_calm by blast

lemma sys_kill_okay: "okay L s \<Longrightarrow> ends_in (okay L) (sys_kill me s)"
  unfolding sys_kill_def Let_def by (intro ends_rules) (assumption, erule okay_kill, assumption)

lemma sys_getpid_okay: "okay L s \<Longrightarrow> ends_in (okay L) (sys_getpid me s)"
  unfolding sys_getpid_def by (intro ends_rules)

lemma sys_uptime_okay: "okay L s \<Longrightarrow> ends_in (okay L) (sys_uptime me s)"
  unfolding sys_uptime_def by (intro ends_rules)

lemma sys_sbrk_okay: "okay L s \<Longrightarrow> ends_in (okay L) (sys_sbrk me s)"
  unfolding sys_sbrk_def Let_def
  by (intro ends_rules) (assumption, rule okay_calm, assumption, rule growproc_calm, simp)

lemma sys_sleep_okay: "okay L s \<Longrightarrow> running s me \<Longrightarrow> ends_in (okay L) (sys_sleep me s)"
  unfolding sys_sleep_def
  by (intro ends_rules) (assumption, rule okayI, rule sleep_loop_okay)

lemma sys_clone_okay: "okay L s \<Longrightarrow> running s me \<Longrightarrow> ends_in (okay L) (sys_clone L me s)"
  unfolding sys_clone_def
  by (intro ends_rules; (assumption | (rule clone_okay, assumption, assumption, simp)))

lemma sys_join_okay: "okay L s \<Longrightarrow> running s me \<Longrightarrow> ends_in (okay L) (sys_join me s)"
  unfolding sys_join_def
  by (intro ends_rules; (assumption | (rule join_okay, assumption, assumption, simp)))

lemma sys_dup_okay: "okay L s \<Longrightarrow> running s me \<Longrightarrow> ends_in (okay L) (sys_dup me s)"
  by (rule okayI) (metis okay_def okay_quiet sys_dup_quiet sys_dup_fds)

lemma sys_close_okay: "okay L s \<Longrightarrow> running s me \<Longrightarrow> ends_in (okay L) (sys_close me s)"
  by (rule okayI) (metis okay_def okay_quiet sys_close_quiet sys_close_fds)

lemma sys_open_okay: "okay L s \<Longrightarrow> running s me \<Longrightarrow> ends_in (okay L) (sys_open D me s)"
  by (rule okayI) (metis okay_def okay_quiet sys_open_quiet sys_open_fds)

lemma sys_pipe_okay: "okay L s \<Longrightarrow> running s me \<Longrightarrow> ends_in (okay L) (sys_pipe me s)"
  by (rule okayI) (metis okay_def okay_quiet sys_pipe_quiet sys_pipe_fds)

lemma sys_read_okay: "okay L s \<Longrightarrow> running s me \<Longrightarrow> ends_in (okay L) (sys_read D me s)"
  unfolding sys_read_def
  by (intro ends_rules; (assumption | (rule okayI, rule read_file_okay; assumption)))

lemma write_file_okay:
  assumes "okay L s" "running s me" "filewrite D f b n k s = Inr (r, t)"
  shows "ends_in (okay L) (write_end me f p r s t)"
  by (rule okayI) (rule write_end_okay [OF assms(1,2) filewrite_calm [OF assms(3)]])

lemma sys_write_okay: "okay L s \<Longrightarrow> running s me \<Longrightarrow> ends_in (okay L) (sys_write D me s)"
  unfolding sys_write_def
  by (intro ends_rules; (assumption | (rule write_file_okay, assumption, assumption, simp)))

lemma sys_fstat_okay: "okay L s \<Longrightarrow> ends_in (okay L) (sys_fstat me s)"
  unfolding sys_fstat_def
  by (intro ends_rules; (assumption | (rule okay_mem, rule okay_calm, assumption, rule filestat_calm, simp; fail) | (rule okay_calm, assumption, rule filestat_calm, simp; fail)))

lemma sys_link_okay: "okay L s \<Longrightarrow> ends_in (okay L) (sys_link D me s)"
  unfolding sys_link_def
  by (intro ends_rules; (assumption | (rule okay_on_fs; simp)))

lemma sys_unlink_okay: "okay L s \<Longrightarrow> ends_in (okay L) (sys_unlink D me s)"
  unfolding sys_unlink_def
  by (intro ends_rules; (assumption | (rule okay_on_fs; simp)))

lemma create_put_okay:
  assumes "on_fs me s f = Inr x" "okay L s"
  shows "ends_in (okay L) (create_put x)"
proof -
  obtain r t where x: "x = (r, t)" by (rule prod.exhaust)
  have "okay L t" by (rule okay_on_fs [OF _ assms(2)]) (use assms(1) x in simp)
  then show ?thesis unfolding x create_put_def prod.case by (intro ends_rules okay_mem)
qed

lemma sys_mkdir_okay: "okay L s \<Longrightarrow> ends_in (okay L) (sys_mkdir D me s)"
  unfolding sys_mkdir_def by (rule ends_with_arg, assumption, rule ends_kbind, rule create_put_okay)

lemma sys_mknod_okay: "okay L s \<Longrightarrow> ends_in (okay L) (sys_mknod D me s)"
  unfolding sys_mknod_def
  by (rule ends_with_arg, assumption, rule ends_with_arg, assumption, rule ends_with_arg, assumption, rule ends_kbind, rule create_put_okay)

lemma okay_cwd: "okay L s \<Longrightarrow> okay L (upd_proc me (\<lambda>k. k\<lparr>cwd := c\<rparr>) s)"
proof (erule okay_calm)
  have "quiet s (upd_proc me (\<lambda>k. k\<lparr>cwd := c\<rparr>) s)" by (rule quiet_upd) simp_all
  moreover have "fsame s (upd_proc me (\<lambda>k. k\<lparr>cwd := c\<rparr>) s)" by (rule fsame_upd(3)) simp_all
  ultimately show "calm s (upd_proc me (\<lambda>k. k\<lparr>cwd := c\<rparr>) s)" by (simp add: calm_def)
qed

lemma on_fs_okay:
  assumes "okay L s" "on_fs me s f = Inr (r, t)"
  shows "okay L (t\<lparr>fsx := x\<rparr>)" "okay L t"
  using okay_on_fs [OF assms(2,1)] by simp_all

lemma sys_chdir_okay: "okay L s \<Longrightarrow> ends_in (okay L) (sys_chdir me s)"
  unfolding sys_chdir_def
  by (intro ends_rules; (assumption | (rule on_fs_okay, assumption, simp; fail) | (rule okay_cwd, rule on_fs_okay, assumption, simp)))

lemma sys_exec_okay: "okay L s \<Longrightarrow> running s me \<Longrightarrow> ends_in (okay L) (sys_exec D me s)"
  unfolding sys_exec_def
  by (intro ends_rules; (assumption | (rule okay_image, assumption, assumption, use exec_image in \<open>simp add: ends_in_def\<close>)))

lemma cond_wait_okay:
  assumes "okay L s" "running s me" "cond_wait me c lk s = Inr (c', lk', s')"
  shows "okay L s'"
proof -
  have "s' = upd_proc me (\<lambda>k. k\<lparr>pstate := SLEEPING\<rparr>) s" using assms(3) by (auto simp: cond_wait_def split: if_splits)
  then have "fsame s s'" by (simp only:) (rule fsame_upd(2); simp add: idle_def)
  then show ?thesis using kern_run.cond_wait [OF _ assms(2,3)] assms(1) fsame_ok unfolding okay_def kr_def by blast
qed

lemma sys_cond_wait_okay: "okay L s \<Longrightarrow> running s me \<Longrightarrow> ends_in (okay L) (sys_cond_wait PT me s)"
  unfolding sys_cond_wait_def Let_def
  by (intro ends_rules; (assumption | (rule okay_mem, rule cond_wait_okay, assumption, assumption, simp)))

lemma sys_cond_init_okay: "okay L s \<Longrightarrow> ends_in (okay L) (sys_cond_init me s)"
  unfolding sys_cond_init_def by (intro ends_rules; (assumption | (rule okay_mem, assumption)))

text \<open>
  \<open>cond_signal\<close> makes the first process of its queue runnable whatever that does at the moment. The invariants survive if it sleeps.
\<close>

definition signals_sleeper :: "u32 \<Rightarrow> nat \<Rightarrow> kern \<Rightarrow> bool" where
  "signals_sleeper PT me s \<longleftrightarrow> (\<forall>cv c. argptr me 0 0 s = Inr (Some cv) \<longrightarrow>
     load_cond PT (pgdir (ptab s me)) (kmx s) cv = Inr c \<longrightarrow> ccount c \<noteq> 0 \<longrightarrow>
     pstate (ptab s (thqueue c (unat (chead c)))) = SLEEPING)"

lemma cond_signal_okay:
  assumes "okay L s" "ccount c \<noteq> 0 \<longrightarrow> pstate (ptab s (thqueue c (unat (chead c)))) = SLEEPING" "cond_signal c s = (c', s')"
  shows "okay L s'"
proof (cases "ccount c = 0")
  case True
  then show ?thesis using assms by (simp add: cond_signal_def)
next
  case False
  then have p: "pstate (ptab s (thqueue c (unat (chead c)))) = SLEEPING" using assms(2) by simp
  have "s' = upd_proc (thqueue c (unat (chead c))) (\<lambda>k. k\<lparr>pstate := RUNNABLE\<rparr>) s"
    using assms(3) False by (simp add: cond_signal_def)
  then have "fsame s s'" by (simp only:) (rule fsame_upd(2); simp add: idle_def)
  then show ?thesis using kern_run.cond_signal [OF _ p assms(3)] assms(1) fsame_ok unfolding okay_def kr_def by blast
qed

lemma sys_cond_signal_okay:
  assumes "okay L s" "signals_sleeper PT me s"
  shows "ends_in (okay L) (sys_cond_signal PT me s)"
  unfolding sys_cond_signal_def Let_def
proof (intro ends_rules)
  fix cv c x c' t m1 m2 m3
  assume a: "argptr me 0 0 s = Inr (Some cv)" "load_cond PT (pgdir (ptab s me)) (kmx s) cv = Inr c" "cond_signal c s = (c', t)"
  have "ccount c \<noteq> 0 \<longrightarrow> pstate (ptab s (thqueue c (unat (chead c)))) = SLEEPING"
    using assms(2) a(1,2) unfolding signals_sleeper_def by blast
  from cond_signal_okay [OF assms(1) this a(3)] show "okay L (t\<lparr>kmx := m3\<rparr>)" by simp
qed (use assms in auto)

text \<open>All of them.\<close>

lemma handler_okay:
  assumes "handler D PT L n = Some h" "okay L s" "running s me" "n = 27 \<longrightarrow> signals_sleeper PT me s"
  shows "ends_in (okay L) (h me s)"
  using assms(1) unfolding handler_def
  by (auto split: if_splits intro: sys_fork_okay [OF assms(2,3)] sys_exit_okay [OF assms(2,3)] sys_wait_okay [OF assms(2,3)]
    sys_kill_okay [OF assms(2)] sys_getpid_okay [OF assms(2)] sys_uptime_okay [OF assms(2)] sys_sbrk_okay [OF assms(2)]
    sys_sleep_okay [OF assms(2,3)] sys_clone_okay [OF assms(2,3)] sys_join_okay [OF assms(2,3)] sys_dup_okay [OF assms(2,3)]
    sys_close_okay [OF assms(2,3)] sys_open_okay [OF assms(2,3)] sys_pipe_okay [OF assms(2,3)] sys_read_okay [OF assms(2,3)]
    sys_write_okay [OF assms(2,3)] sys_fstat_okay [OF assms(2)] sys_link_okay [OF assms(2)] sys_unlink_okay [OF assms(2)]
    sys_mkdir_okay [OF assms(2)] sys_mknod_okay [OF assms(2)] sys_chdir_okay [OF assms(2)] sys_exec_okay [OF assms(2,3)]
    sys_cond_wait_okay [OF assms(2,3)] sys_cond_init_okay [OF assms(2)]
    sys_cond_signal_okay [OF assms(2) assms(4) [rule_format]])

section \<open>The kernel, from its entry points\<close>

lemma okay_tf: "okay L s \<Longrightarrow> okay L (s\<lparr>ptab := (ptab s)(me := (ptab s me)\<lparr>tf := v\<rparr>)\<rparr>)"
proof (erule okay_calm)
  have "quiet s (upd_proc me (\<lambda>k. k\<lparr>tf := v\<rparr>) s)" by (rule quiet_upd) simp_all
  moreover have "fsame s (upd_proc me (\<lambda>k. k\<lparr>tf := v\<rparr>) s)" by (rule fsame_upd(3)) simp_all
  ultimately show "calm s (s\<lparr>ptab := (ptab s)(me := (ptab s me)\<lparr>tf := v\<rparr>)\<rparr>)" by (simp add: calm_def)
qed

lemma okay_eax: "okay L s \<Longrightarrow> okay L (set_eax me v s)"
  unfolding set_eax_def by (rule okay_tf)

lemma okay_killed: "okay L s \<Longrightarrow> okay L (upd_proc me (\<lambda>k. k\<lparr>killed := True\<rparr>) s)"
proof (erule okay_calm)
  have "quiet s (upd_proc me (\<lambda>k. k\<lparr>killed := True\<rparr>) s)" by (rule quiet_upd) simp_all
  moreover have "fsame s (upd_proc me (\<lambda>k. k\<lparr>killed := True\<rparr>) s)" by (rule fsame_upd(3)) simp_all
  ultimately show "calm s (upd_proc me (\<lambda>k. k\<lparr>killed := True\<rparr>) s)" by (simp add: calm_def)
qed

lemma okay_wakeup: "okay L s \<Longrightarrow> okay L (wakeup c s)"
  by (erule okay_calm) (simp add: calm_def wakeup_def)

lemma okay_ticks: "okay L s \<Longrightarrow> okay L (s\<lparr>kticks := n\<rparr>)"
  by (erule okay_calm) (simp add: calm_def quiet_def fsame_def)

lemma okay_yield: "okay L s \<Longrightarrow> running s me \<Longrightarrow> okay L (yield me s)"
proof -
  assume o: "okay L s" "running s me"
  have "fsame s (yield me s)" unfolding yield_def by (rule fsame_upd(2)) (simp_all add: idle_def)
  then show ?thesis using o kern_run.yield [OF _ o(2)] fsame_ok unfolding okay_def kr_def by blast
qed

lemma okay_woken: "okay L s \<Longrightarrow> running s me \<Longrightarrow> okay L (sleep_return me s)"
proof -
  assume o: "okay L s" "running s me"
  have "fsame s (sleep_return me s)" unfolding sleep_return_def by (rule fsame_upd(3)) simp_all
  then show ?thesis using o kern_run.woken [OF _ o(2)] fsame_ok unfolding okay_def kr_def by blast
qed

lemma okay_sched: "okay L s \<Longrightarrow> sched_next i s = (p, i', s') \<Longrightarrow> okay L s'"
proof -
  assume o: "okay L s" "sched_next i s = (p, i', s')"
  have "fsame s s'" using o(2)
    by (auto simp: sched_next_def find_Some_iff fsame_def idle_def split: option.splits if_splits)
  then show ?thesis using o kern_run.sched [OF _ o(2)] fsame_ok unfolding okay_def kr_def by blast
qed

text \<open>The one step that needs care: a signal to a condition variable whose first process sleeps.\<close>

definition signal_ok :: "u32 \<Rightarrow> nat \<Rightarrow> trapframe \<Rightarrow> kern \<Rightarrow> bool" where
  "signal_ok PT me fr s \<longleftrightarrow> sint (tf_eax fr) = 27 \<longrightarrow> signals_sleeper PT me (upd_proc me (\<lambda>k. k\<lparr>tf := fr\<rparr>) s)"

lemma syscall_okay:
  assumes "okay L s" "running s me" "sint (tf_eax (tf (ptab s me))) = 27 \<longrightarrow> signals_sleeper PT me s"
  shows "ends_in (okay L) (syscall D PT L me s)"
proof (cases "handler D PT L (sint (tf_eax (tf (ptab s me))))")
  case None
  then show ?thesis unfolding syscall_def None option.case by (intro ends_rules okay_eax assms(1))
next
  case (Some h)
  have h: "ends_in (okay L) (h me s)" by (rule handler_okay [OF Some assms])
  show ?thesis unfolding syscall_def Some option.case
  proof (intro ends_rules)
    fix x r t assume x: "h me s = Inr x" "x = (r, t)"
    then have "okay L t" using h by (simp add: ends_in_def)
    then show "okay L (case r of SRet v \<Rightarrow> set_eax me v t | _ \<Rightarrow> t)"
      by (cases r) (simp_all add: okay_eax)
  qed
qed

lemma exit_ends: "okay L s \<Longrightarrow> running s me \<Longrightarrow> exit me s = Inr t \<Longrightarrow> okay L t"
  by (rule exit_okay)

lemma trap_switch_okay:
  assumes "okay L s" "trap_switch cid me fr s = Inr (ds, t)"
  shows "okay L t \<and> (\<forall>p. running s p \<longrightarrow> running t p)"
proof -
  have w: "okay L (wakeup c (s\<lparr>kticks := n\<rparr>))" "running s p \<longrightarrow> running (wakeup c (s\<lparr>kticks := n\<rparr>)) p" for c n p
    using okay_wakeup [OF okay_ticks [OF assms(1)]] quiet_running [of "s\<lparr>kticks := n\<rparr>" "wakeup c (s\<lparr>kticks := n\<rparr>)" p]
    by (simp_all add: wakeup_def running_def)
  have k: "okay L (upd_proc q (\<lambda>k. k\<lparr>killed := True\<rparr>) s)" "running s p \<longrightarrow> running (upd_proc q (\<lambda>k. k\<lparr>killed := True\<rparr>) s) p" for p q
    using okay_killed [OF assms(1)] by (simp_all add: running_def)
  show ?thesis
    using assms unfolding trap_switch_def Let_def
    by (auto simp: w(1) w(2) [rule_format] k(1) k(2) [rule_format] split: if_splits option.splits)
qed

lemma trap_resumed_okay:
  assumes "okay L s" "running s p"
  shows "ends_in (okay L) (trap_resumed p fr s)"
  unfolding trap_resumed_def by (intro ends_rules; (assumption | (rule exit_okay [OF assms], assumption) | rule assms))

lemma trap_tail_okay:
  assumes "okay L s" "\<And>p. me = Some p \<Longrightarrow> running s p"
  shows "ends_in (okay L) (trap_tail me fr s)"
proof (cases me)
  case None
  then show ?thesis using assms(1) by (simp add: trap_tail_def ends_in_def)
next
  case (Some p)
  note r = assms(2) [OF Some]
  show ?thesis unfolding trap_tail_def Some option.case
    by (intro ends_rules trap_resumed_okay [OF assms(1) r] okay_yield [OF assms(1) r] exit_okay [OF assms(1) r])
qed

lemma interrupt_okay:
  assumes "okay L s" "\<And>p. me = Some p \<Longrightarrow> running s p" "tf_trapno fr \<noteq> 64" "trap D PT L cid me fr s = Inr (r, ds, s')"
  shows "okay L s'"
proof -
  obtain t where t: "trap_switch cid me fr s = Inr (ds, t)" "trap_tail me fr t = Inr (r, s')"
    using assms(3,4) by (auto simp: trap_def kbind_Inr_iff)
  note w = trap_switch_okay [OF assms(1) t(1)]
  have "ends_in (okay L) (trap_tail me fr t)" using w assms(2) by (intro trap_tail_okay) blast+
  then show ?thesis using t(2) by (simp add: ends_in_def)
qed

text \<open>
  All runs of the kernel from the state that \<open>userinit\<close> leaves: system calls and interrupts on any CPU, in any order, calls that sleep
  and go on later, wakeups by drivers and switches by the scheduler. \<open>trap\<close> on a system call is \<open>exit\<close> of a killed process, or \<open>syscall\<close>
  and then perhaps \<open>exit\<close>.
\<close>

definition no_files :: "kern \<Rightarrow> bool" where
  "no_files s \<longleftrightarrow> (\<forall>f. fref (ftable s f) = 0) \<and> (\<forall>p < NPROC. \<forall>fd < NOFILE. ofile (ptab s p) fd = None)"

inductive sys_run :: "devsw \<Rightarrow> u32 \<Rightarrow> u32 \<Rightarrow> kern \<Rightarrow> bool" for D PT L where
  boot: "first_process s \<Longrightarrow> no_files s \<Longrightarrow> sys_run D PT L s"
| call: "sys_run D PT L s \<Longrightarrow> running s me \<Longrightarrow> signal_ok PT me fr s \<Longrightarrow>
    syscall D PT L me (upd_proc me (\<lambda>k. k\<lparr>tf := fr\<rparr>) s) = Inr (r, s') \<Longrightarrow> sys_run D PT L s'"
| exit: "sys_run D PT L s \<Longrightarrow> running s me \<Longrightarrow> exit me s = Inr s' \<Longrightarrow> sys_run D PT L s'"
| wait: "sys_run D PT L s \<Longrightarrow> running s me \<Longrightarrow> wait me s = Inr (o1, s') \<Longrightarrow> sys_run D PT L s'"
| join: "sys_run D PT L s \<Longrightarrow> running s me \<Longrightarrow> join me stk s = Inr (o1, s') \<Longrightarrow> sys_run D PT L s'"
| sleep_on: "sys_run D PT L s \<Longrightarrow> running s me \<Longrightarrow> sleep_loop me n t0 s = Inr (r, s') \<Longrightarrow> sys_run D PT L s'"
| read_on: "sys_run D PT L s \<Longrightarrow> running s me \<Longrightarrow> read_file D me f a n s = Inr (r, s') \<Longrightarrow> sys_run D PT L s'"
| write_on: "sys_run D PT L s \<Longrightarrow> running s me \<Longrightarrow> resume_write me f a n i s = Inr (r, s') \<Longrightarrow> sys_run D PT L s'"
| return: "sys_run D PT L s \<Longrightarrow> running s me \<Longrightarrow> sys_run D PT L (set_eax me v s)"
| interrupt: "sys_run D PT L s \<Longrightarrow> (\<And>p. me = Some p \<Longrightarrow> running s p) \<Longrightarrow> tf_trapno fr \<noteq> 64 \<Longrightarrow>
    trap D PT L cid me fr s = Inr (t, ds, s') \<Longrightarrow> sys_run D PT L s'"
| resumed: "sys_run D PT L s \<Longrightarrow> running s me \<Longrightarrow> trap_resumed me fr s = Inr (t, s') \<Longrightarrow> sys_run D PT L s'"
| woken: "sys_run D PT L s \<Longrightarrow> running s me \<Longrightarrow> sys_run D PT L (sleep_return me s)"
| wakeup: "sys_run D PT L s \<Longrightarrow> sys_run D PT L (wakeup c s)"
| sched: "sys_run D PT L s \<Longrightarrow> sched_next i s = (p, i', s') \<Longrightarrow> sys_run D PT L s'"

lemma boot_okay: "first_process s \<Longrightarrow> no_files s \<Longrightarrow> okay L s"
proof -
  assume a: "first_process s" "no_files s"
  have "fd_refs s f = {}" for f using a(2) by (auto simp: no_files_def fd_refs_def)
  then have "fds_ok s" using a(2) by (simp add: fds_ok_def fd_off_def idle_closed_def no_files_def)
  then show ?thesis using kern_run.boot [OF a(1)] unfolding okay_def kr_def by blast
qed

lemma sys_run_okay: "sys_run D PT L s \<Longrightarrow> okay L s"
proof (induction rule: sys_run.induct)
  case (boot s)
  then show ?case by (rule boot_okay)
next
  case (call s me fr r s')
  let ?t = "upd_proc me (\<lambda>k. k\<lparr>tf := fr\<rparr>) s"
  have "ends_in (okay L) (syscall D PT L me ?t)"
    by (rule syscall_okay [OF okay_tf [OF call.IH]]) (use call.hyps(2,3) in \<open>auto simp: running_def signal_ok_def\<close>)
  then show ?case using call.hyps(4) by (simp add: ends_in_def)
next
  case (resumed s me fr t s')
  then show ?case using trap_resumed_okay [of L s me fr] by (simp add: ends_in_def)
next
  case (interrupt s me fr cid t ds s')
  show ?case by (rule interrupt_okay [OF interrupt.IH interrupt.hyps(2-4)])
qed (blast intro: exit_okay wait_okay join_okay sleep_loop_okay read_file_okay resume_write_okay okay_eax okay_woken okay_wakeup okay_sched)+

section \<open>Properties\<close>



text \<open>The first process runs, and asks for its number.\<close>

definition demo_start :: kern where
  "demo_start = upd_proc 0 (\<lambda>k. k\<lparr>pstate := RUNNING\<rparr>) demo_kern"

definition getpid_frame :: trapframe where
  "getpid_frame = \<lparr>tf_edi = 0, tf_esi = 0, tf_ebp = 0, tf_ebx = 0, tf_edx = 0, tf_ecx = 0, tf_eax = 18, tf_es = 0x2B, tf_ds = 0x2B,
     tf_trapno = 64, tf_err = 0, tf_eip = 0, tf_cs = 0x23, tf_eflags = 0x200, tf_esp = 0, tf_ss = 0x2B\<rparr>"

lemma demo_start_run:
  obtains s where "sys_run no_devices PT L s" "tf_eax (tf (ptab s 0)) = 1" "running s 0"
proof -
  have "no_files demo_kern" by (simp add: no_files_def demo_kern_def boot_files_def demo_proc_def fkern.defs)
  with demo_first have r0: "sys_run no_devices PT L demo_kern" by (rule sys_run.boot)
  have "sched_next 0 demo_kern = (Some 0, 1, demo_start)"
    by (simp add: sched_next_def upt_rec [of 0] demo_kern_def demo_start_def fkern.defs)
  from sys_run.sched [OF r0 this] have r1: "sys_run no_devices PT L demo_start" .
  have r: "running demo_start 0" by (simp add: running_def demo_start_def)
  let ?s = "upd_proc 0 (\<lambda>k. k\<lparr>tf := getpid_frame\<rparr>) demo_start"
  have p: "pid (ptab ?s 0) = 1" by (simp add: demo_start_def demo_kern_def fkern.defs)
  have "sint (18 :: u32) = 18" by simp
  then have c: "syscall no_devices PT L 0 ?s = Inr (SRet 1, set_eax 0 1 ?s)"
    using p by (simp add: syscall_def handler_def getpid_frame_def sys_getpid_def)
  have "signal_ok PT 0 getpid_frame demo_start" by (simp add: signal_ok_def getpid_frame_def)
  from sys_run.call [OF r1 r this c] show ?thesis
    by (rule that) (simp_all add: set_eax_def running_def demo_start_def)
qed



end
