(* ===== verification/Sched.thy ===== *)
theory Sched imports Proctab Fifo
begin

text \<open>
  Two promises of kernel/proc.c to a waiting process: the scheduler reaches every runnable process within one turn of the table, and a condition
  variable wakes its waiters in the order in which they came.
\<close>

section \<open>Turns of the scheduler\<close>

text \<open>
  What may happen while \<open>me\<close> has the CPU, or nobody: the operations of \<open>kern_run\<close>, in any order.
\<close>

inductive acts :: "u32 \<Rightarrow> nat option \<Rightarrow> kern \<Rightarrow> kern \<Rightarrow> bool" for L me s where
  start: "acts L me s s"
| fork: "acts L me s t \<Longrightarrow> me = Some p \<Longrightarrow> fork L p t = Inr (r, u) \<Longrightarrow> acts L me s u"
| clone: "acts L me s t \<Longrightarrow> me = Some p \<Longrightarrow> clone L p fcn arg stk t = Inr (r, u) \<Longrightarrow> acts L me s u"
| exit: "acts L me s t \<Longrightarrow> me = Some p \<Longrightarrow> exit p t = Inr u \<Longrightarrow> acts L me s u"
| wait: "acts L me s t \<Longrightarrow> me = Some p \<Longrightarrow> wait p t = Inr (o1, u) \<Longrightarrow> acts L me s u"
| join: "acts L me s t \<Longrightarrow> me = Some p \<Longrightarrow> join p stk t = Inr (o1, u) \<Longrightarrow> acts L me s u"
| kill: "acts L me s t \<Longrightarrow> kill n t = (r, u) \<Longrightarrow> acts L me s u"
| sleep: "acts L me s t \<Longrightarrow> sleep me c lk t = Inr u \<Longrightarrow> acts L me s u"
| woken: "acts L me s t \<Longrightarrow> me = Some p \<Longrightarrow> acts L me s (sleep_return p t)"
| wakeup: "acts L me s t \<Longrightarrow> acts L me s (wakeup c t)"
| yield: "acts L me s t \<Longrightarrow> me = Some p \<Longrightarrow> acts L me s (yield p t)"
| growproc: "acts L me s t \<Longrightarrow> me = Some p \<Longrightarrow> growproc p n t = Inr (r, u) \<Longrightarrow> acts L me s u"
| cond_wait: "acts L me s t \<Longrightarrow> me = Some p \<Longrightarrow> cond_wait p c lk t = Inr (c', lk', u) \<Longrightarrow> acts L me s u"
| cond_signal: "acts L me s t \<Longrightarrow> cond_signal c t = (c', u) \<Longrightarrow> acts L me s u"
| others: "acts L me s t \<Longrightarrow> quiet t u \<Longrightarrow> acts L me s u"

text \<open>The scheduler's loop: \<open>i\<close> is its place in the table, \<open>None\<close> in the list of turns the end of the table.\<close>

inductive turns :: "u32 \<Rightarrow> nat \<Rightarrow> kern \<Rightarrow> nat option list \<Rightarrow> bool" for L where
  stop: "turns L i s []"
| turn: "sched_next i s = (q, j, t) \<Longrightarrow> acts L q t u \<Longrightarrow> turns L j u qs \<Longrightarrow> turns L i s (q # qs)"

inductive_cases turns_ConsE: "turns L i s (q # qs)"

text \<open>No operation takes another process out of the runnable ones.\<close>

definition keeps :: "nat option \<Rightarrow> kern \<Rightarrow> kern \<Rightarrow> bool" where
  "keeps me s t \<longleftrightarrow> (\<forall>q < NPROC. Some q \<noteq> me \<longrightarrow> pstate (ptab s q) = RUNNABLE \<longrightarrow> pstate (ptab t q) = RUNNABLE)"

lemma keeps_trans: "keeps me s t \<Longrightarrow> keeps me t u \<Longrightarrow> keeps me s u"
  by (simp add: keeps_def)

lemma keeps_refl [simp]: "keeps me s s"
  by (simp add: keeps_def)

lemma keeps_quiet:
  assumes "quiet s t"
  shows "keeps me s t"
  unfolding keeps_def
proof (intro allI impI)
  fix q assume "pstate (ptab s q) = RUNNABLE"
  then show "pstate (ptab t q) = RUNNABLE" using quietD(8) [OF assms, of q] by auto
qed

lemma keeps_upd: "me = Some p \<or> (pstate (ptab s p) = RUNNABLE \<longrightarrow> pstate (f (ptab s p)) = RUNNABLE) \<Longrightarrow> keeps me s (upd_proc p f s)"
  by (auto simp: keeps_def)

lemma keeps_below [simp]: "keeps me s (t\<lparr>kmx := m\<rparr>) = keeps me s t" "keeps me s (t\<lparr>fsx := x\<rparr>) = keeps me s t"
  by (simp_all add: keeps_def)

text \<open>A part that works on an entry which is not runnable.\<close>

lemma keeps_other: "keeps me s t \<Longrightarrow> pstate (ptab t np) \<noteq> RUNNABLE \<Longrightarrow> keeps (Some np) t u \<Longrightarrow> keeps me s u"
  unfolding keeps_def by blast

lemma keeps_allocproc:
  assumes "allocproc L s = (r, t)"
  shows "keeps me s t" "r = Some np \<Longrightarrow> pstate (ptab t np) = EMBRYO"
proof -
  obtain v m where v: "kalloc (kmx s) = (v, m)" by (rule prod.exhaust)
  have u: "pstate (ptab s np) = UNUSED" if "find (\<lambda>p. pstate (ptab s p) = UNUSED) [0..<NPROC] = Some np" for np
    using that by (auto simp: find_Some_iff)
  show "keeps me s t" using assms u v
    by (auto simp: allocproc_def Let_def keeps_def simp del: upt_Suc split: if_splits option.splits)
  show "r = Some np \<Longrightarrow> pstate (ptab t np) = EMBRYO" using assms v
    by (auto simp: allocproc_def Let_def simp del: upt_Suc split: if_splits option.splits)
qed

lemma keeps_child:
  assumes "dup_files me np fds s = Inr s1" "dup_cwd me np s1 = Inr s2"
  shows "keeps (Some np) s (upd_proc np f s2)"
  by (rule keeps_trans [OF keeps_quiet [OF quiet_trans [OF dup_files_quiet [OF assms(1)] dup_cwd_quiet [OF assms(2)]]] keeps_upd]) simp

lemma keeps_fork:
  assumes "fork L me s = Inr (r, s')"
  shows "keeps o1 s s'"
proof -
  obtain r1 s1 where a: "allocproc L s = (r1, s1)" by (rule prod.exhaust)
  note al = keeps_allocproc [OF a]
  show ?thesis
  proof (cases r1)
    case None
    then show ?thesis using assms a al(1) by (simp add: fork_def)
  next
    case (Some np)
    obtain d m where c: "copyuvm (pgdir (ptab s1 me)) (psz (ptab s1 me)) (kmx s1) = Inr (d, m)"
      using assms a Some by (auto simp: fork_def Let_def kbind_Inr_iff)
    define s2 where "s2 = upd_proc np (\<lambda>k. k\<lparr>pgdir := d\<rparr>) (s1\<lparr>kmx := m\<rparr>)"
    have k2: "keeps (Some np) s1 s2" unfolding s2_def by (rule keeps_trans [OF _ keeps_upd]) simp_all
    have "keeps (Some np) s1 s'"
    proof (cases "d = 0")
      case True
      obtain m' where s': "s' = upd_proc np (\<lambda>k. k\<lparr>kstack := 0, pstate := UNUSED\<rparr>) (s2\<lparr>kmx := m'\<rparr>)"
        using assms a Some c True by (auto simp: fork_def Let_def kbind_Inr_iff s2_def)
      show ?thesis unfolding s' by (rule keeps_trans [OF _ keeps_upd]) (use k2 in simp_all)
    next
      case False
      define s3 where "s3 = upd_proc np (\<lambda>k. k\<lparr>psz := psz (ptab s1 me), parent := Some me, tf := (tf (ptab s1 me))\<lparr>tf_eax := 0\<rparr>\<rparr>) s2"
      obtain s4 s5 where f: "dup_files me np [0..<NOFILE] s3 = Inr s4" "dup_cwd me np s4 = Inr s5"
        "s' = upd_proc np (\<lambda>k. k\<lparr>pstate := RUNNABLE, count_thread := 0, pname := safestrcpy (pname k) (pname (ptab s5 me)) 16\<rparr>) s5"
        using assms unfolding fork_def Let_def a prod.case Some option.case c kbind_simps s2_def [symmetric] if_not_P [OF False]
          s3_def [symmetric] by (auto simp: kbind_Inr_iff simp del: upt_Suc dup_files.simps)
      have "keeps (Some np) s2 s3" unfolding s3_def by (rule keeps_upd) simp
      from keeps_trans [OF k2 this] show ?thesis unfolding f(3) by (rule keeps_trans [OF _ keeps_child [OF f(1,2)]])
    qed
    moreover have "pstate (ptab s1 np) \<noteq> RUNNABLE" using al(2) [OF Some] by simp
    ultimately show ?thesis using keeps_other [OF al(1)] by blast
  qed
qed

lemma keeps_clone:
  assumes "clone L me fcn arg st s = Inr (r, s')"
  shows "keeps o1 s s'"
proof -
  obtain r1 s1 where a: "allocproc L s = (r1, s1)" by (rule prod.exhaust)
  note al = keeps_allocproc [OF a]
  show ?thesis
  proof (cases r1)
    case None
    then show ?thesis using assms a al(1) by (simp add: clone_def)
  next
    case (Some np)
    define q where "q = ptab s1 me"
    define s2 where "s2 = upd_proc np (\<lambda>k. k\<lparr>pgdir := pgdir q, psz := psz q, parent := Some me\<rparr>) s1"
    define s3 where "s3 = upd_proc me (\<lambda>k. k\<lparr>count_thread := count_thread k + 1\<rparr>) s2"
    define s4 where "s4 = upd_proc np (\<lambda>k. k\<lparr>pstack := st, tf := (tf q)\<lparr>tf_esp := st + 4096 - 8, tf_eip := fcn\<rparr>\<rparr>) s3"
    have "keeps (Some np) s1 s2" "keeps (Some np) s2 s3" "keeps (Some np) s3 s4"
      unfolding s2_def s3_def s4_def by (rule keeps_upd; simp)+
    then have k4: "keeps (Some np) s1 s4" using keeps_trans by blast
    obtain r2 m where c: "copyout (pgdir q) (st + 4096 - 8) (clone_frame arg) 8 (kmx s4) = Inr (r2, m)"
      using assms a Some unfolding clone_def Let_def
      by (auto simp: kbind_Inr_iff q_def s4_def s3_def s2_def)
    have cl: "clone L me fcn arg st s = (if r2 < 0 then Inr (-1, s4\<lparr>kmx := m\<rparr>)
      else kbind (dup_files me np [0..<NOFILE] (upd_proc np (\<lambda>k. k\<lparr>tf := (tf k)\<lparr>tf_eax := 0\<rparr>\<rparr>) (s4\<lparr>kmx := m\<rparr>))) (\<lambda>s.
        kbind (dup_cwd me np s) (\<lambda>s. Inr (pid (ptab (upd_proc np (\<lambda>k. k\<lparr>pstate := RUNNABLE, pname := safestrcpy (pname k) (pname (ptab s me)) 16\<rparr>) s) np),
          upd_proc np (\<lambda>k. k\<lparr>pstate := RUNNABLE, pname := safestrcpy (pname k) (pname (ptab s me)) 16\<rparr>) s))))"
      unfolding clone_def Let_def a prod.case Some option.case q_def [symmetric] s2_def [symmetric] s3_def [symmetric] s4_def [symmetric] c
        kbind_simps by (rule refl)
    have "keeps (Some np) s1 s'"
    proof (cases "r2 < 0")
      case True
      then show ?thesis using assms k4 unfolding cl by auto
    next
      case False
      define s5 where "s5 = upd_proc np (\<lambda>k. k\<lparr>tf := (tf k)\<lparr>tf_eax := 0\<rparr>\<rparr>) (s4\<lparr>kmx := m\<rparr>)"
      have k5: "keeps (Some np) s1 s5" unfolding s5_def by (rule keeps_trans [OF _ keeps_upd]) (use k4 in simp_all)
      obtain s6 s7 where f: "dup_files me np [0..<NOFILE] s5 = Inr s6" "dup_cwd me np s6 = Inr s7"
        "s' = upd_proc np (\<lambda>k. k\<lparr>pstate := RUNNABLE, pname := safestrcpy (pname k) (pname (ptab s7 me)) 16\<rparr>) s7"
        using assms False unfolding cl s5_def [symmetric] by (auto simp: kbind_Inr_iff simp del: upt_Suc dup_files.simps)
      show ?thesis unfolding f(3) by (rule keeps_trans [OF k5 keeps_child [OF f(1,2)]])
    qed
    moreover have "pstate (ptab s1 np) \<noteq> RUNNABLE" using al(2) [OF Some] by simp
    ultimately show ?thesis using keeps_other [OF al(1)] by blast
  qed
qed

lemma keeps_pass_children: "keeps o1 s (pass_children me ps s)"
proof (induction ps arbitrary: s)
  case (Cons p ps)
  define t where "t = upd_proc p (\<lambda>k. k\<lparr>parent := initproc s\<rparr>) s"
  define u where "u = (if pstate (ptab t p) = ZOMBIE then wakeup1 (map_option CProc (initproc t)) t else t)"
  have "keeps o1 s t" unfolding t_def by (rule keeps_upd) simp
  moreover have "keeps o1 t u" unfolding u_def by (rule keeps_quiet) simp
  ultimately have "keeps o1 s (pass_children me ps u)" using Cons.IH keeps_trans by blast
  moreover have "pass_children me (p # ps) s = pass_children me ps (if parent (ptab s p) = Some me then u else s)"
    by (simp add: t_def u_def Let_def)
  ultimately show ?case using Cons.IH [of s] by simp
qed simp

lemma keeps_exit:
  assumes "exit me s = Inr s'"
  shows "keeps (Some me) s s'"
proof -
  have ni: "initproc s \<noteq> Some me" using assms by (auto simp: exit_def split: if_splits)
  obtain s1 ip x where c: "close_files me [0..<NOFILE] s = Inr s1"
    "s' = (let s = upd_proc me (\<lambda>k. k\<lparr>cwd := None\<rparr>) (deliver (s1\<lparr>fsx := x\<rparr>));
              s = wakeup1 (map_option CProc (parent (ptab s me))) s;
              s = pass_children me [0..<NPROC] s
          in upd_proc me (\<lambda>k. k\<lparr>pstate := ZOMBIE\<rparr>) s)"
    using assms ni by (auto simp: exit_def kbind_Inr_iff Let_def simp del: upt_Suc close_files.simps pass_children.simps split: option.splits)
  define s2 where "s2 = deliver (s1\<lparr>fsx := x\<rparr>)"
  define s3 where "s3 = upd_proc me (\<lambda>k. k\<lparr>cwd := None\<rparr>) s2"
  define s4 where "s4 = wakeup1 (map_option CProc (parent (ptab s3 me))) s3"
  have "quiet s1 s2" unfolding s2_def by (rule quiet_trans [OF _ quiet_deliver]) simp
  then have "keeps (Some me) s s2" using keeps_quiet [OF quiet_trans [OF close_files_quiet [OF c(1)]]] by blast
  moreover have "keeps (Some me) s2 s3" unfolding s3_def by (rule keeps_upd) simp
  moreover have "keeps (Some me) s3 s4" unfolding s4_def by (rule keeps_quiet) simp
  moreover note keeps_pass_children [of "Some me" s4 me "[0..<NPROC]"]
  moreover have "keeps (Some me) (pass_children me [0..<NPROC] s4) s'"
    unfolding c(2) Let_def s2_def [symmetric] s3_def [symmetric] s4_def [symmetric] by (rule keeps_upd) simp
  ultimately show ?thesis using keeps_trans by blast
qed

lemma child_scan_zombie: "child_scan thr me s ps k = (r, Some p) \<Longrightarrow> pstate (ptab s p) = ZOMBIE"
  by (induction thr me s ps k rule: child_scan.induct) (auto split: if_splits)

lemma keeps_clear: "pstate (ptab s p) \<noteq> RUNNABLE \<Longrightarrow> keeps me s (clear_proc p s)"
  unfolding clear_proc_def by (rule keeps_upd) simp

lemma keeps_freed:
  assumes "pstate (ptab s p) = ZOMBIE"
  shows "keeps me s (clear_proc p (upd_proc p (\<lambda>k. k\<lparr>kstack := 0\<rparr>) (s\<lparr>kmx := m\<rparr>)\<lparr>kmx := m'\<rparr>))"
proof -
  have "keeps me s (upd_proc p (\<lambda>k. k\<lparr>kstack := 0\<rparr>) (s\<lparr>kmx := m\<rparr>)\<lparr>kmx := m'\<rparr>)"
    unfolding keeps_below by (rule keeps_trans [OF _ keeps_upd]) simp_all
  then show ?thesis by (rule keeps_trans [OF _ keeps_clear]) (use assms in simp)
qed

lemma keeps_sleep: "sleep me c lk s = Inr s' \<Longrightarrow> keeps me s s'"
  by (auto simp: sleep_def keeps_def split: option.splits if_splits)

lemma keeps_wait:
  assumes "wait me s = Inr (o1, s')"
  shows "keeps (Some me) s s'"
proof -
  obtain k r where c: "child_scan False me s [0..<NPROC] False = (k, r)" by (rule prod.exhaust)
  show ?thesis
  proof (cases r)
    case None
    then show ?thesis using assms c keeps_sleep by (auto simp: wait_def kbind_Inr_iff simp del: upt_Suc split: if_splits)
  next
    case (Some p)
    then have z: "pstate (ptab s p) = ZOMBIE" using c child_scan_zombie by blast
    obtain m m' where s': "s' = clear_proc p (upd_proc p (\<lambda>k. k\<lparr>kstack := 0\<rparr>) (s\<lparr>kmx := m\<rparr>)\<lparr>kmx := m'\<rparr>)"
      using assms c Some by (auto simp: wait_def kbind_Inr_iff Let_def simp del: upt_Suc)
    show ?thesis unfolding s' by (rule keeps_freed) (rule z)
  qed
qed

lemma keeps_join:
  assumes "join me stk s = Inr (o1, s')"
  shows "keeps (Some me) s s'"
proof (cases "stk + 4 > psz (ptab s me)")
  case True
  then show ?thesis using assms by (simp add: join_def)
next
  case False
  obtain k r where c: "child_scan True me s [0..<NPROC] False = (k, r)" by (rule prod.exhaust)
  show ?thesis
  proof (cases r)
    case None
    then show ?thesis using assms c False keeps_sleep by (auto simp: join_def kbind_Inr_iff simp del: upt_Suc split: if_splits)
  next
    case (Some p)
    then have z: "pstate (ptab s p) = ZOMBIE" using c child_scan_zombie by blast
    obtain m m' where s': "s' = upd_proc me (\<lambda>k. k\<lparr>count_thread := count_thread k - 1\<rparr>)
        (clear_proc p (upd_proc p (\<lambda>k. k\<lparr>kstack := 0\<rparr>) (s\<lparr>kmx := m\<rparr>)\<lparr>kmx := m'\<rparr>))"
      using assms c Some False by (auto simp: join_def kbind_Inr_iff Let_def simp del: upt_Suc split: if_splits)
    have "keeps (Some me) s (clear_proc p (upd_proc p (\<lambda>k. k\<lparr>kstack := 0\<rparr>) (s\<lparr>kmx := m\<rparr>)\<lparr>kmx := m'\<rparr>))"
      by (rule keeps_freed) (rule z)
    then show ?thesis unfolding s' by (rule keeps_trans [OF _ keeps_upd]) simp
  qed
qed

lemma acts_keeps: "acts L me s t \<Longrightarrow> keeps me s t"
proof (induction rule: acts.induct)
  case (fork t p r u) then show ?case using keeps_fork keeps_trans by blast
next
  case (clone t p fcn arg stk r u) then show ?case using keeps_clone keeps_trans by blast
next
  case (exit t p u) then show ?case using keeps_exit keeps_trans by blast
next
  case (wait t p o1 u) then show ?case using keeps_wait keeps_trans by blast
next
  case (join t p stk o1 u) then show ?case using keeps_join keeps_trans by blast
next
  case (kill t n r u) then show ?case using kill_quiet keeps_quiet keeps_trans by blast
next
  case (sleep t c lk u) then show ?case using keeps_sleep keeps_trans by blast
next
  case (woken t p) then show ?case using keeps_trans keeps_upd unfolding sleep_return_def by blast
next
  case (wakeup t c) then show ?case using keeps_trans keeps_quiet quiet_wakeup1 unfolding wakeup_def by blast
next
  case (yield t p) then show ?case using keeps_trans keeps_upd unfolding yield_def by blast
next
  case (growproc t p n r u) then show ?case using growproc_quiet keeps_quiet keeps_trans by blast
next
  case (cond_wait t p c lk c' lk' u)
  then have "keeps me t u" by (auto simp: cond_wait_def keeps_def split: if_splits)
  with cond_wait show ?case using keeps_trans by blast
next
  case (cond_signal t c c' u)
  then have "keeps me t u" by (auto simp: cond_signal_def keeps_def split: if_splits)
  with cond_signal show ?case using keeps_trans by blast
next
  case (others t u) then show ?case using keeps_quiet keeps_trans by blast
qed simp


text \<open>How many turns process \<open>p\<close> may have to wait from place \<open>i\<close>.\<close>

definition wait_turns :: "nat \<Rightarrow> nat \<Rightarrow> nat" where
  "wait_turns i p = (if i \<le> p then p - i + 1 else NPROC - i + 1 + (p + 1))"

lemma find_from:
  assumes "i \<le> p" "p < NPROC" "P p"
  obtains q where "find P [i..<NPROC] = Some q" "i \<le> q" "q \<le> p" "P q"
proof (cases "find P [i..<NPROC]")
  case None
  then show ?thesis using assms by (auto simp: find_None_iff)
next
  case (Some q)
  then obtain n where n: "n < length [i..<NPROC]" "P ([i..<NPROC] ! n)" "q = [i..<NPROC] ! n" "\<forall>m < n. \<not> P ([i..<NPROC] ! m)"
    by (auto simp: find_Some_iff simp del: upt_Suc)
  have "\<not> p - i < n" using n(4) assms n(1) by (auto simp del: upt_Suc)
  then show ?thesis using that [OF Some] n(1,2,3) assms by (auto simp del: upt_Suc)
qed

lemma turns_reach:
  assumes "turns L i s qs" "i \<le> NPROC" "p < NPROC" "pstate (ptab s p) = RUNNABLE" "wait_turns i p \<le> length qs"
  shows "Some p \<in> set (take (wait_turns i p) qs)"
  using assms(1,2,4,5)
proof (induction rule: turns.induct)
  case (stop i s)
  then show ?case by (simp add: wait_turns_def split: if_splits)
next
  case (turn i s q j t u qs)
  show ?case
  proof (cases "q = Some p")
    case True
    then show ?thesis by (simp add: wait_turns_def)
  next
    case False
    have t: "pstate (ptab t p) = RUNNABLE"
      using turn.hyps(1) turn.prems(2) False by (auto simp: sched_next_def simp del: upt_Suc split: option.splits)
    then have u: "pstate (ptab u p) = RUNNABLE"
      using acts_keeps [OF turn.hyps(2)] False assms(3) unfolding keeps_def by auto
    have w: "j \<le> NPROC \<and> wait_turns j p < wait_turns i p"
    proof (cases "i \<le> p")
      case True
      obtain r where r: "find (\<lambda>p. pstate (ptab s p) = RUNNABLE) [i..<NPROC] = Some r" "i \<le> r" "r \<le> p"
        using find_from [OF True assms(3), of "\<lambda>p. pstate (ptab s p) = RUNNABLE"] turn.prems(2) by blast
      then have "q = Some r" "j = Suc r" using turn.hyps(1) by (auto simp: sched_next_def)
      then show ?thesis using r False True assms(3) by (auto simp: wait_turns_def)
    next
      case below: False
      show ?thesis
      proof (cases q)
        case None
        then have "j = 0" using turn.hyps(1) by (auto simp: sched_next_def simp del: upt_Suc split: option.splits)
        then show ?thesis using below turn.prems(1) by (simp add: wait_turns_def)
      next
        case (Some r)
        then have f: "find (\<lambda>p. pstate (ptab s p) = RUNNABLE) [i..<NPROC] = Some r" "j = Suc r"
          using turn.hyps(1) by (auto simp: sched_next_def simp del: upt_Suc split: option.splits)
        then have "r \<in> set [i..<NPROC]" unfolding find_Some_iff using nth_mem by blast
        then show ?thesis using below f(2) by (auto simp: wait_turns_def simp del: upt_Suc)
      qed
    qed
    obtain k where k: "wait_turns i p = Suc k" "wait_turns j p \<le> k" using w by (cases "wait_turns i p") auto
    have "Some p \<in> set (take (wait_turns j p) qs)" using turn.IH w u turn.prems(3) k by simp
    then have "Some p \<in> set (take k qs)" using set_take_subset_set_take [OF k(2), of qs] by (rule subsetD [rotated])
    then show ?thesis by (simp add: k(1))
  qed
qed

lemma turns_extend: "turns L i s qs \<Longrightarrow> \<exists>q. turns L i s (qs @ [q])"
proof (induction rule: turns.induct)
  case (stop i s)
  obtain q j t where "sched_next i s = (q, j, t)" by (rule prod_cases3)
  then have "turns L i s [q]" by (rule turns.turn [OF _ acts.start turns.stop])
  then show ?case by auto
next
  case (turn i s q j t u qs)
  then show ?case using turns.turn by fastforce
qed

section \<open>Condition variables\<close>

text \<open>The queue of waiters of a condition variable, from its head.\<close>

definition waiters :: "cond \<Rightarrow> nat list" where
  "waiters c = map (\<lambda>i. thqueue c ((unat (chead c) + i) mod 8)) [0..<unat (ccount c)]"

definition cond_ok :: "cond \<Rightarrow> bool" where
  "cond_ok c \<longleftrightarrow> unat (ccount c) \<le> 8 \<and> unat (chead c) < 8 \<and> unat (ctail c) = (unat (chead c) + unat (ccount c)) mod 8"

definition cond_put :: "nat \<Rightarrow> cond \<Rightarrow> cond" where
  "cond_put p c = c\<lparr>thqueue := (thqueue c)(unat (ctail c) := p), ctail := (ctail c + 1) mod 8, ccount := ccount c + 1, cflag := 0\<rparr>"

definition cond_get :: "cond \<Rightarrow> nat \<times> cond" where
  "cond_get c = (thqueue c (unat (chead c)), c\<lparr>chead := (chead c + 1) mod 8, ccount := ccount c - 1, cflag := 0\<rparr>)"

lemma unat_next8: "unat (x :: u32) < 8 \<Longrightarrow> unat ((x + 1) mod 8) = (unat x + 1) mod 8"
  using unat_add_lt [of x 1] by (simp add: unat_mod)

interpretation queue: fifo cond_ok waiters 8 cond_put cond_get
proof
  show "cond_ok c \<Longrightarrow> length (waiters c) \<le> 8" for c by (simp add: cond_ok_def waiters_def)
next
  fix c p
  assume c: "cond_ok c" "length (waiters c) < 8"
  let ?h = "unat (chead c)" let ?n = "unat (ccount c)"
  have n: "?n < 8" using c(2) by (simp add: waiters_def)
  then have n1: "unat (ccount c + 1) = ?n + 1" using unat_add_lt [of "ccount c" 1] by simp
  have t: "unat (ctail c) = (?h + ?n) mod 8" "?h < 8" using c(1) by (simp_all add: cond_ok_def)
  then have t8: "unat (ctail c) < 8" by simp
  have ne: "(?h + i) mod 8 \<noteq> (?h + ?n) mod 8" if "i < ?n" for i
  proof
    assume "(?h + i) mod 8 = (?h + ?n) mod 8"
    then have "8 dvd (?h + ?n) - (?h + i)" using that by (metis add_le_cancel_left less_imp_le mod_eq_dvd_iff_nat)
    then have "8 dvd ?n - i" by simp
    then show False using that n by (auto dest!: dvd_imp_le)
  qed
  have "cond_ok (cond_put p c)"
    using t n n1 unat_next8 [OF t8] by (simp add: cond_ok_def cond_put_def mod_simps)
  moreover have "waiters (cond_put p c) = waiters c @ [p]"
    using n1 ne t by (simp add: waiters_def cond_put_def)
  ultimately show "cond_ok (cond_put p c) \<and> waiters (cond_put p c) = waiters c @ [p]" ..
next
  fix c p ps
  assume c: "cond_ok c" "waiters c = p # ps"
  let ?h = "unat (chead c)" let ?n = "unat (ccount c)"
  have n: "?n = Suc (length ps)" using arg_cong [OF c(2), of length] by (simp add: waiters_def)
  then have "ccount c \<noteq> 0" by auto
  then have n1: "unat (ccount c - 1) = length ps" using unat_minus_one [of "ccount c"] n by simp
  have h: "?h < 8" "unat (ctail c) = (?h + ?n) mod 8" "?n \<le> 8" using c(1) by (simp_all add: cond_ok_def)
  have u: "[0..<Suc (length ps)] = 0 # map Suc [0..<length ps]" by (simp add: upt_conv_Cons map_Suc_upt del: upt_Suc)
  have w: "thqueue c ?h = p" "map (\<lambda>i. thqueue c ((?h + Suc i) mod 8)) [0..<length ps] = ps"
    using c(2) h(1) unfolding waiters_def n u by (simp_all add: comp_def)
  have "cond_ok (snd (cond_get c))"
    using h n n1 unat_next8 [OF h(1)] by (simp add: cond_ok_def cond_get_def mod_simps)
  moreover have "waiters (snd (cond_get c)) = ps"
    using w(2) n1 unat_next8 [OF h(1)] by (simp add: waiters_def cond_get_def mod_simps add.commute add.left_commute)
  ultimately show "fst (cond_get c) = p \<and> cond_ok (snd (cond_get c)) \<and> waiters (snd (cond_get c)) = ps"
    using w(1) by (simp add: cond_get_def)
qed


lemma cond_wait_put:
  "cond_wait me c lk s = (if lk = 0 then Inl (Panic ''wait without lock'') else if ccount c = 8 then Inl (Panic ''cond_queue full'')
     else Inr (cond_put me c, 0, upd_proc me (\<lambda>k. k\<lparr>pstate := SLEEPING\<rparr>) s))"
  by (simp add: cond_wait_def cond_put_def)

lemma cond_signal_get:
  "cond_signal c s = (if ccount c = 0 then (c\<lparr>cflag := 0\<rparr>, s)
     else (snd (cond_get c), upd_proc (fst (cond_get c)) (\<lambda>k. k\<lparr>pstate := RUNNABLE\<rparr>) s))"
  by (simp add: cond_signal_def cond_get_def)

lemma waiters_empty: "waiters c = [] \<longleftrightarrow> ccount c = 0"
  by (simp add: waiters_def unat_eq_zero)

lemma waiters_flag: "waiters (c\<lparr>cflag := f\<rparr>) = waiters c" "cond_ok (c\<lparr>cflag := f\<rparr>) = cond_ok c"
  by (simp_all add: waiters_def cond_ok_def)

text \<open>
  The life of a condition variable: \<open>ins\<close> are the processes that waited, \<open>outs\<close> those that a signal woke, in order; the rest of the
  kernel may change between the calls.
\<close>

inductive cond_run :: "cond \<Rightarrow> nat list \<Rightarrow> nat list \<Rightarrow> cond \<Rightarrow> bool" for c0 where
  init: "cond_run c0 [] [] (cond_init c0)"
| wait: "cond_run c0 ins outs c \<Longrightarrow> cond_wait me c lk s = Inr (c', lk', s') \<Longrightarrow> cond_run c0 (ins @ [me]) outs c'"
| signal: "cond_run c0 ins outs c \<Longrightarrow> cond_signal c s = (c', s') \<Longrightarrow>
    cond_run c0 ins (outs @ take 1 (waiters c)) c'"

lemma cond_init_ok: "cond_ok (cond_init c)" "waiters (cond_init c) = []"
  by (simp_all add: cond_ok_def cond_init_def waiters_def)

lemma full_iff: "cond_ok c \<Longrightarrow> length (waiters c) < 8 \<longleftrightarrow> ccount c \<noteq> 8"
proof -
  assume "cond_ok c"
  then have "unat (ccount c) \<le> 8" by (simp add: cond_ok_def)
  moreover have "ccount c = 8 \<longleftrightarrow> unat (ccount c) = 8" using word_unat_eq_iff [of "ccount c" 8] by simp
  ultimately show ?thesis by (auto simp: waiters_def)
qed

lemma cond_run_ok: "cond_run c0 ins outs c \<Longrightarrow> cond_ok c \<and> ins = outs @ waiters c"
proof (induction rule: cond_run.induct)
  case init
  then show ?case using cond_init_ok by simp
next
  case (wait ins outs c me lk s c' lk' s')
  have "c' = cond_put me c" "ccount c \<noteq> 8" using wait.hyps(2) by (auto simp: cond_wait_put split: if_splits)
  then show ?case using wait.IH queue.put_cont [of c me] full_iff [of c] by simp
next
  case (signal ins outs c s c' s')
  show ?case
  proof (cases "waiters c")
    case Nil
    then have "c' = c\<lparr>cflag := 0\<rparr>" using signal.hyps(2) by (simp add: cond_signal_get waiters_empty)
    then show ?thesis using signal.IH Nil waiters_flag by simp
  next
    case (Cons p ps)
    then have "c' = snd (cond_get c)" using signal.hyps(2) waiters_empty [of c] by (simp add: cond_signal_get)
    then show ?thesis using signal.IH Cons queue.get_cont [of c p ps] by simp
  qed
qed

section \<open>Properties\<close>

text \<open>
  C30. No runnable process starves: from any place of the scheduler's loop and whatever the processes that it picks do (forking, exiting, sleeping,
  waking and signalling others, or giving the CPU back at once), a runnable process is picked within one turn of the table, that is
  within 65 turns, counting the end of the table as one; and the loop can always make another turn.
\<close>

lemma runnable_scheduled:
  assumes "turns L i s qs" "i \<le> NPROC" "p < NPROC" "pstate (ptab s p) = RUNNABLE"
  shows "(NPROC + 1 \<le> length qs \<longrightarrow> Some p \<in> set (take (NPROC + 1) qs)) \<and> (\<exists>q. turns L i s (qs @ [q]))"
proof (intro conjI impI turns_extend [OF assms(1)])
  assume l: "NPROC + 1 \<le> length qs"
  have w: "wait_turns i p \<le> NPROC + 1" using assms(2,3) by (auto simp: wait_turns_def)
  then have "Some p \<in> set (take (wait_turns i p) qs)" using turns_reach [OF assms] l by simp
  then show "Some p \<in> set (take (NPROC + 1) qs)" using set_take_subset_set_take [OF w, of qs] by (rule subsetD [rotated])
qed

text \<open>
  C31. A condition variable wakes its waiters in the order in which they came: after any sequence of waits and signals on an initialised
  variable, those who waited are those who were woken followed by those in the queue; the next signal makes exactly the first of the queue
  runnable, or does nothing when there is none; and the next wait puts the caller to sleep at the end of the queue unless eight
  processes wait, when the kernel panics.
\<close>

lemma cond_wakes_in_order:
  assumes "cond_run c0 ins outs c"
  shows "ins = outs @ waiters c \<and>
    snd (cond_signal c s) = (case waiters c of [] \<Rightarrow> s | p # ps \<Rightarrow> upd_proc p (\<lambda>k. k\<lparr>pstate := RUNNABLE\<rparr>) s) \<and>
    waiters (fst (cond_signal c s)) = drop 1 (waiters c) \<and>
    (if length (waiters c) = 8 then cond_wait me c 1 s = Inl (Panic ''cond_queue full'')
     else \<exists>c'. cond_wait me c 1 s = Inr (c', 0, upd_proc me (\<lambda>k. k\<lparr>pstate := SLEEPING\<rparr>) s) \<and> waiters c' = waiters c @ [me])"
proof -
  note ok = cond_run_ok [OF assms]
  have sig: "snd (cond_signal c s) = (case waiters c of [] \<Rightarrow> s | p # ps \<Rightarrow> upd_proc p (\<lambda>k. k\<lparr>pstate := RUNNABLE\<rparr>) s) \<and>
    waiters (fst (cond_signal c s)) = drop 1 (waiters c)"
  proof (cases "waiters c")
    case Nil
    moreover have "ccount c = 0" using Nil waiters_empty by blast
    ultimately show ?thesis by (simp add: cond_signal_get waiters_flag)
  next
    case (Cons p ps)
    then show ?thesis using ok queue.get_cont [of c p ps] waiters_empty [of c] by (simp add: cond_signal_get)
  qed
  have "length (waiters c) \<le> 8" using ok queue.bounded by blast
  then have "if length (waiters c) = 8 then cond_wait me c 1 s = Inl (Panic ''cond_queue full'')
     else \<exists>c'. cond_wait me c 1 s = Inr (c', 0, upd_proc me (\<lambda>k. k\<lparr>pstate := SLEEPING\<rparr>) s) \<and> waiters c' = waiters c @ [me]"
    using ok full_iff [of c] queue.put_cont [of c me] by (auto simp: cond_wait_put)
  then show ?thesis using ok sig by blast
qed

text \<open>
  \<open>kill\<close> of the number 0 finds a free slot, and the next process to be made in it is born killed.
\<close>

lemma kill_zero_hits_free_slot:
  assumes "find (\<lambda>p. pid (ptab s p) = 0) [0..<NPROC] = Some p" "find (\<lambda>p. pstate (ptab s p) = UNUSED) [0..<NPROC] = Some p"
    and "kalloc (kmx s) = (v, m)" "v \<noteq> 0"
  shows "\<exists>t. kill 0 s = (0, snd (kill 0 s)) \<and> allocproc L (snd (kill 0 s)) = (Some p, t) \<and> killed (ptab t p)"
proof -
  let ?s = "snd (kill 0 s)"
  have u: "pstate (ptab s p) = UNUSED" using assms(2) by (auto simp: find_Some_iff)
  have k: "?s = upd_proc p (\<lambda>k. k\<lparr>killed := True, pstate := UNUSED\<rparr>) s" using u by (simp add: kill_def assms(1))
  have "(\<lambda>q. pstate (ptab ?s q) = UNUSED) = (\<lambda>q. pstate (ptab s q) = UNUSED)" unfolding k using u by (intro ext) simp
  then have "find (\<lambda>q. pstate (ptab ?s q) = UNUSED) [0..<NPROC] = Some p" using assms(2) by simp
  then show ?thesis using assms(1,3,4) by (simp add: allocproc_def k kill_def Let_def)
qed

lemma runnable_scheduled_witness: "\<exists>qs. length qs = 65 \<and> Some 0 \<in> set (take 65 qs) \<and> turns 0 7 demo_kern qs"
proof -
  have ex: "\<exists>qs. length qs = n \<and> turns 0 7 demo_kern qs" for n
  proof (induction n)
    case 0
    show ?case using turns.stop by blast
  next
    case (Suc n)
    then obtain qs q where "length qs = n" "turns 0 7 demo_kern (qs @ [q])" using turns_extend by blast
    then show ?case by (intro exI [of _ "qs @ [q]"]) simp
  qed
  obtain qs where "length qs = 65" "turns 0 7 demo_kern qs" using ex by blast
  moreover have "pstate (ptab demo_kern 0) = RUNNABLE" using demo_first by (simp add: first_process_def)
  ultimately show ?thesis using runnable_scheduled [of 0 7 demo_kern qs 0] by auto
qed

lemma cond_wakes_in_order_witness:
  "\<exists>c0 c. cond_run c0 [3, 5] [3] c \<and> snd (cond_signal c demo_kern) = upd_proc 5 (\<lambda>k. k\<lparr>pstate := RUNNABLE\<rparr>) demo_kern"
proof -
  define c0 :: cond where "c0 = \<lparr>thqueue = \<lambda>_. 0, chead = 0, ctail = 0, cflag = 1, ccount = 0\<rparr>"
  obtain c1 t1 where 1: "cond_wait 3 (cond_init c0) 1 demo_kern = Inr (c1, 0, t1)"
    by (simp add: cond_wait_put cond_init_def c0_def)
  obtain c2 t2 where 2: "cond_wait 5 c1 1 demo_kern = Inr (c2, 0, t2)"
    using 1 by (auto simp: cond_wait_put cond_put_def cond_init_def c0_def)
  obtain c3 t3 where 3: "cond_signal c2 demo_kern = (c3, t3)" by (rule prod.exhaust)
  have r2: "cond_run c0 [3, 5] [] c2"
    using cond_run.wait [OF cond_run.wait [OF cond_run.init 1] 2] by simp
  from cond_run_ok [OF r2] have w: "waiters c2 = [3, 5]" by simp
  have r3: "cond_run c0 [3, 5] [3] c3" using cond_run.signal [OF r2 3] w by simp
  have "waiters c3 = [5]" using cond_run_ok [OF r3] by simp
  then show ?thesis using cond_wakes_in_order [OF r3, of demo_kern 0] r3 by auto
qed

end
