(* ===== verification/Console.thy ===== *)
theory Console imports Proctab Fifo
begin

text \<open>
  kernel/console.c: numbers and formatted output, the screen, and the input line with its editing keys.
  \<open>cons.lock\<close> and \<open>input.lock\<close> are hld over every access, so each call is atomic up to where it returns or sleeps.
  A CPU that writes after another one has panicked stops for good: its outcome is the panic without a message.
\<close>

abbreviation INPUT_BUF :: nat where "INPUT_BUF \<equiv> 128"
abbreviation BACKSPACE :: int where "BACKSPACE \<equiv> 256"
abbreviation EOT :: u8 where "EOT \<equiv> 4"
abbreviation NL :: u8 where "NL \<equiv> 10"

text \<open>The bytes of a string literal, without its end.\<close>

definition bytes :: "string \<Rightarrow> u8 list" where
  "bytes s = map of_char s"

text \<open>
  The static data of console.c and the devices it drives: what has been sent to the serial port (\<open>uart\<close> tells
  whether there is one), the cells of the screen and the cursor register of the display.  \<open>iwakes\<close> counts the calls
  of \<open>wakeup(&input.r)\<close>.
\<close>

record console =
  panicked :: bool
  locking :: bool
  uart :: bool
  serial :: "u8 list"
  crt :: "nat \<Rightarrow> u16"
  cursor :: u16
  ibuf :: "nat \<Rightarrow> u8"
  ird :: u32
  iwr :: u32
  ied :: u32
  iwakes :: nat

section \<open>Output\<close>

definition uartputc :: "int \<Rightarrow> console \<Rightarrow> console" where
  "uartputc c s = (if uart s then s\<lparr>serial := serial s @ [word_of_int c]\<rparr> else s)"

text \<open>Below the 24th row the screen scrolls up; the count passed to \<open>memset\<close> must not be negative.\<close>

definition cgaputc :: "int \<Rightarrow> console \<Rightarrow> console res" where
  "cgaputc c s =
    (let pos = unat (cursor s);
         (m, pos) =
           (if c = 10 then (crt s, pos + (80 - pos mod 80))
            else if c = BACKSPACE then (crt s, if pos > 0 then pos - 1 else pos)
            else ((crt s)(pos := word_of_int c AND 0xff OR 0x700), pos + 1))
     in if 24 \<le> pos div 80 \<and> 24 * 80 < pos - 80 then Inl (Fault ''memset'')
        else let (m, pos) =
           (if 24 \<le> pos div 80
            then let m = (\<lambda>i. if i < 23 * 80 then m (i + 80) else m i); pos = pos - 80
                 in ((\<lambda>i. if pos \<le> i \<and> i < 24 * 80 then 0 else m i), pos)
            else (m, pos))
        in Inr (s\<lparr>cursor := of_nat pos, crt := m(pos := 0x720)\<rparr>))"

definition consputc :: "int \<Rightarrow> console \<Rightarrow> console res" where
  "consputc c s =
    (if panicked s then Inl (Panic [])
     else cgaputc c
       (if c = BACKSPACE then uartputc 8 (uartputc 32 (uartputc 8 s)) else uartputc c s))"

fun consputs :: "u8 list \<Rightarrow> console \<Rightarrow> console res" where
  "consputs [] s = Inr s"
| "consputs (c # cs) s = kbind (consputc (sint c) s) (consputs cs)"

fun console_put :: "u8 list \<Rightarrow> console \<Rightarrow> console res" where
  "console_put [] s = Inr s"
| "console_put (c # cs) s = kbind (consputc (uint c) s) (console_put cs)"

definition consolewrite :: "u8 list \<Rightarrow> int \<Rightarrow> console \<Rightarrow> (int \<times> console) res" where
  "consolewrite cs n s =
    (if length cs < nat n then Inl (Fault ''buf'') else kbind (console_put (take (nat n) cs) s) (\<lambda>s. Inr (n, s)))"

text \<open>The digits of \<open>printint\<close>, least significant first: \<open>buf\<close> has 16 bytes, \<open>digits\<close> 16 characters.\<close>

definition digits :: "u8 list" where
  "digits = bytes ''0123456789abcdef''"

function print_digits :: "u8 list \<Rightarrow> u32 \<Rightarrow> u32 \<Rightarrow> u8 list \<Rightarrow> u8 list res" where
  "print_digits tab base x ds =
    (if base = 0 then Inl (Fault ''divide by zero'')
     else if 16 \<le> length ds then Inl (Fault ''buf'')
     else if length tab \<le> unat (x mod base) then Inl (Fault ''digits'')
     else let ds = ds @ [tab ! unat (x mod base)]; x = x div base
       in if x \<noteq> 0 then print_digits tab base x ds else Inr ds)"
  by pat_completeness auto
termination by (relation "measure (\<lambda>(_, _, _, ds). 16 - length ds)") auto

definition print_buf :: "u8 list \<Rightarrow> u32 \<Rightarrow> u32 \<Rightarrow> bool \<Rightarrow> u8 list res" where
  "print_buf tab xx base sg =
    (let neg = (sg \<and> sint xx < 0); x = (if neg then - xx else xx)
     in kbind (print_digits tab base x []) (\<lambda>ds.
          if neg then (if 16 \<le> length ds then Inl (Fault ''buf'') else Inr (ds @ bytes ''-'')) else Inr ds))"

definition printint :: "u32 \<Rightarrow> u32 \<Rightarrow> bool \<Rightarrow> console \<Rightarrow> console res" where
  "printint xx base sg s = kbind (print_buf digits xx base sg) (\<lambda>ds. consputs (rev ds) s)"

text \<open>
  \<open>cprintf\<close>: the bytes of the format up to its end, the words on the stack after it, and the string at an address.
\<close>

fun cprintf_loop :: "(u32 \<Rightarrow> u8 list) \<Rightarrow> u8 list \<Rightarrow> u32 list \<Rightarrow> console \<Rightarrow> console res" where
  "cprintf_loop str [] args s = Inr s"
| "cprintf_loop str [c] args s = (if c \<noteq> 37 then consputc (uint c) s else Inr s)"
| "cprintf_loop str (c # d # fmt) args s =
    (if c \<noteq> 37 then kbind (consputc (uint c) s) (cprintf_loop str (d # fmt) args)
     else if d = of_char CHR ''d'' then
       (case args of [] \<Rightarrow> Inl (Fault ''argp'')
        | a # args \<Rightarrow> kbind (printint a 10 True s) (cprintf_loop str fmt args))
     else if d = of_char CHR ''x'' \<or> d = of_char CHR ''p'' then
       (case args of [] \<Rightarrow> Inl (Fault ''argp'')
        | a # args \<Rightarrow> kbind (printint a 16 False s) (cprintf_loop str fmt args))
     else if d = of_char CHR ''s'' then
       (case args of [] \<Rightarrow> Inl (Fault ''argp'')
        | a # args \<Rightarrow> kbind (consputs (if a = 0 then bytes ''(null)'' else str a) s) (cprintf_loop str fmt args))
     else if d = 37 then kbind (consputc 37 s) (cprintf_loop str fmt args)
     else kbind (consputc 37 s) (\<lambda>s. kbind (consputc (uint d) s) (cprintf_loop str fmt args)))"

text \<open>
  The lock is taken when \<open>locking\<close> is set; \<open>hld\<close> tells that this CPU has it already, which \<open>acquire\<close> answers with a panic.
\<close>

definition cprintf :: "(u32 \<Rightarrow> u8 list) \<Rightarrow> bool \<Rightarrow> u8 list \<Rightarrow> u32 list \<Rightarrow> console \<Rightarrow> console res" where
  "cprintf str hld fmt args s =
    (if locking s \<and> hld then Inl (Panic ''acquire'') else cprintf_loop str fmt args s)"

text \<open>What \<open>panic\<close> prints before it stops: \<open>cid\<close> is \<open>cpu->id\<close>, \<open>chn\<close> the call chain that \<open>getcallerpcs\<close> finds.\<close>

fun print_pcs :: "(u32 \<Rightarrow> u8 list) \<Rightarrow> bool \<Rightarrow> u32 list \<Rightarrow> console \<Rightarrow> console res" where
  "print_pcs str hld [] s = Inr s"
| "print_pcs str hld (ra # chn) s = kbind (cprintf str hld (bytes '' %p'') [ra] s) (print_pcs str hld chn)"

definition panic :: "(u32 \<Rightarrow> u8 list) \<Rightarrow> bool \<Rightarrow> u32 \<Rightarrow> u32 list \<Rightarrow> u8 list \<Rightarrow> console \<Rightarrow> console res" where
  "panic str hld cid chn msg s =
    kbind (cprintf str hld (bytes ''cpu%d: panic: '') [cid] (s\<lparr>locking := False\<rparr>)) (\<lambda>s.
    kbind (cprintf str hld msg [] s) (\<lambda>s.
    kbind (cprintf str hld [NL] [] s) (\<lambda>s.
    kbind (print_pcs str hld (take 10 chn) s) (\<lambda>s. Inr (s\<lparr>panicked := True\<rparr>)))))"

fun state_name :: "procstate \<Rightarrow> string" where
  "state_name UNUSED = ''unused''"
| "state_name EMBRYO = ''embryo''"
| "state_name SLEEPING = ''sleep ''"
| "state_name RUNNABLE = ''runble''"
| "state_name RUNNING = ''run   ''"
| "state_name ZOMBIE = ''zombie''"

text \<open>
  \<open>procdump\<close> of kernel/proc.c from a process on; the two strings it passes to \<open>cprintf\<close> are at addresses 1 and 2 of \<open>str\<close>,
  \<open>chn\<close> gives the call chain of a sleeping process.
\<close>

fun procdump_from :: "(nat \<Rightarrow> u32 list) \<Rightarrow> kern \<Rightarrow> nat list \<Rightarrow> console \<Rightarrow> console res" where
  "procdump_from chn k [] s = Inr s"
| "procdump_from chn k (p # ps) s =
    (let q = ptab k p in
     if pstate q = UNUSED then procdump_from chn k ps s
     else let str = (\<lambda>a. if a = 1 then bytes (state_name (pstate q)) else cstr (pname q) 16)
       in kbind (cprintf str False (bytes ''%d %s %s'') [word_of_int (pid q), 1, 2] s) (\<lambda>s.
          kbind (if pstate q = SLEEPING then print_pcs str False (takeWhile (\<lambda>ra. ra \<noteq> 0) (take 10 (chn p))) s else Inr s) (\<lambda>s.
          kbind (cprintf str False [NL] [] s) (procdump_from chn k ps))))"

definition procdump :: "(nat \<Rightarrow> u32 list) \<Rightarrow> kern \<Rightarrow> console \<Rightarrow> console res" where
  "procdump chn k s = procdump_from chn k [0..<NPROC] s"

section \<open>Input\<close>

text \<open>A character added at the edit index, and the one at the read index.\<close>

definition input_put :: "u8 \<Rightarrow> console \<Rightarrow> console" where
  "input_put c s = s\<lparr>ibuf := (ibuf s)(unat (ied s) mod INPUT_BUF := c), ied := ied s + 1\<rparr>"

definition input_get :: "console \<Rightarrow> u8 \<times> console" where
  "input_get s = (ibuf s (unat (ird s) mod INPUT_BUF), s\<lparr>ird := ird s + 1\<rparr>)"

text \<open>The key \<open>Ctrl-U\<close>: back to the start of the line, or to the last newline.\<close>

fun kill_from :: "nat \<Rightarrow> console \<Rightarrow> console res" where
  "kill_from 0 s = Inr s"
| "kill_from (Suc n) s =
    (if ibuf s (unat (ied s - 1) mod INPUT_BUF) \<noteq> NL
     then kbind (consputc BACKSPACE (s\<lparr>ied := ied s - 1\<rparr>)) (kill_from n) else Inr s)"

definition kill_line :: "console \<Rightarrow> console res" where
  "kill_line s = kill_from (unat (ied s - iwr s)) s"

definition ctrl :: "char \<Rightarrow> int" where
  "ctrl x = of_char x - 64"

definition type_char :: "int \<Rightarrow> console \<Rightarrow> console res" where
  "type_char c s =
    (if c \<noteq> 0 \<and> ied s - ird s < of_nat INPUT_BUF then
       let c = (if c = 13 then 10 else c)
       in kbind (consputc c (input_put (word_of_int c) s)) (\<lambda>s.
            if c = 10 \<or> c = ctrl CHR ''D'' \<or> ied s = ird s + of_nat INPUT_BUF
            then Inr (s\<lparr>iwr := ied s, iwakes := iwakes s + 1\<rparr>) else Inr s)
     else Inr s)"

text \<open>One character of the loop of \<open>consoleintr\<close>; \<open>dump\<close> is the call of \<open>procdump\<close>.\<close>

definition console_char :: "(console \<Rightarrow> console res) \<Rightarrow> int \<Rightarrow> console \<Rightarrow> console res" where
  "console_char dump c s =
    (if c = ctrl CHR ''P'' then dump s
     else if c = ctrl CHR ''U'' then kill_line s
     else if c = ctrl CHR ''H'' \<or> c = 127 then
       (if ied s \<noteq> iwr s then consputc BACKSPACE (s\<lparr>ied := ied s - 1\<rparr>) else Inr s)
     else type_char c s)"

text \<open>The values \<open>getc\<close> returns, up to the first negative one.\<close>

fun consoleintr :: "(console \<Rightarrow> console res) \<Rightarrow> int list \<Rightarrow> console \<Rightarrow> console res" where
  "consoleintr dump [] s = Inr s"
| "consoleintr dump (c # cs) s =
    (if c < 0 then Inr s else kbind (console_char dump c s) (consoleintr dump cs))"

text \<open>
  \<open>consoleread\<close>: it returns, it fails because the process is killed, or it sleeps on \<open>input.r\<close> with \<open>n\<close> bytes still to
  read; when it runs again it goes on with these.  \<open>acc\<close> holds the bytes stored at \<open>dst\<close> so far.
\<close>

datatype cread = CRet int "u8 list" | CKilled "u8 list" | CSleep nat "u8 list"

fun consoleread_loop :: "bool \<Rightarrow> nat \<Rightarrow> nat \<Rightarrow> u8 list \<Rightarrow> console \<Rightarrow> cread \<times> console" where
  "consoleread_loop kld 0 target acc s = (CRet (int target) acc, s)"
| "consoleread_loop kld (Suc n) target acc s =
    (if ird s = iwr s then (if kld then CKilled acc else CSleep (Suc n) acc, s)
     else let (c, s') = input_get s in
       if c = EOT then (CRet (int target - int (Suc n)) acc, if Suc n < target then s'\<lparr>ird := ird s' - 1\<rparr> else s')
       else if c = NL then (CRet (int target - int n) (acc @ [c]), s')
       else consoleread_loop kld n target (acc @ [c]) s')"

definition consoleread :: "bool \<Rightarrow> int \<Rightarrow> console \<Rightarrow> cread \<times> console" where
  "consoleread kld n s = (if n \<le> 0 then (CRet 0 [], s) else consoleread_loop kld (nat n) (nat n) [] s)"

section \<open>Numbers\<close>

text \<open>The digits of a number in a base, least significant first, and the number that digits stand for.\<close>

function numeral_digits :: "nat \<Rightarrow> nat \<Rightarrow> nat list" where
  "numeral_digits b n = (if b < 2 \<or> n < b then [n] else n mod b # numeral_digits b (n div b))"
  by pat_completeness auto
termination by (relation "measure snd") (auto intro: div_less_dividend)

declare numeral_digits.simps [simp del]

definition digit_value :: "u8 \<Rightarrow> nat" where
  "digit_value c = (if 97 \<le> c then unat c - 87 else if 65 \<le> c then unat c - 55 else unat c - 48)"

definition read_digits :: "nat \<Rightarrow> u8 list \<Rightarrow> nat" where
  "read_digits b cs = foldl (\<lambda>n c. b * n + digit_value c) 0 cs"

definition read_number :: "nat \<Rightarrow> u8 list \<Rightarrow> int" where
  "read_number b cs = (case cs of [] \<Rightarrow> 0 | c # ds \<Rightarrow> if c = 45 then - int (read_digits b ds) else int (read_digits b cs))"

lemma digits_nonempty: "numeral_digits b n \<noteq> []"
  by (subst numeral_digits.simps) simp

lemma digits_bound: "2 \<le> b \<Longrightarrow> d \<in> set (numeral_digits b n) \<Longrightarrow> d < b"
proof (induction b n rule: numeral_digits.induct)
  case (1 b n)
  from 1(3) have "d \<in> set (if b < 2 \<or> n < b then [n] else n mod b # numeral_digits b (n div b))"
    by (subst (asm) numeral_digits.simps)
  with 1(1,2) show ?case by (auto split: if_splits)
qed

lemma digits_value: "2 \<le> b \<Longrightarrow> foldr (\<lambda>d n. b * n + d) (numeral_digits b n) 0 = n"
proof (induction b n rule: numeral_digits.induct)
  case (1 b n)
  then show ?case by (subst numeral_digits.simps) auto
qed

lemma digits_last: "2 \<le> b \<Longrightarrow> 0 < n \<Longrightarrow> 0 < last (numeral_digits b n)"
proof (induction b n rule: numeral_digits.induct)
  case (1 b n)
  show ?case
  proof (cases "n < b")
    case True
    then show ?thesis using 1(3) by (subst numeral_digits.simps) simp
  next
    case False
    then have "0 < last (numeral_digits b (n div b))" using 1 by (simp add: div_greater_zero_iff)
    then show ?thesis using False 1(2) by (subst numeral_digits.simps) (simp add: digits_nonempty)
  qed
qed

lemma digits_length: "2 \<le> b \<Longrightarrow> n < b ^ Suc k \<Longrightarrow> length (numeral_digits b n) \<le> Suc k"
proof (induction k arbitrary: n)
  case 0
  then show ?case by (subst numeral_digits.simps) simp
next
  case (Suc k)
  from Suc.prems have "n div b < b ^ Suc k" by (simp add: less_mult_imp_div_less mult.commute)
  with Suc.IH [OF Suc.prems(1)] show ?case by (subst numeral_digits.simps) auto
qed

text \<open>The loop of \<open>printint\<close> produces them, as long as they fit in the buffer.\<close>

declare print_digits.simps [simp del]

lemma print_digits_eq:
  assumes "2 \<le> b" "b \<le> length tab" "b < 2 ^ 32" "length ds + length (numeral_digits b (unat x)) \<le> 16"
  shows "print_digits tab (of_nat b) x ds = Inr (ds @ map (nth tab) (numeral_digits b (unat x)))"
  using assms(4)
proof (induction "unat x" arbitrary: x ds rule: less_induct)
  case less
  let ?B = "of_nat b :: u32"
  have B: "unat ?B = b" using assms(3) by (simp add: unat_u32)
  then have B0: "?B \<noteq> 0" using assms(1) by (metis not_numeral_le_zero unat_0)
  have m: "unat (x mod ?B) = unat x mod b" "unat (x div ?B) = unat x div b"
    using B by (simp_all add: unat_mod unat_div)
  have tab: "\<not> length tab \<le> unat x mod b" using assms(1,2) mod_less_divisor [of b "unat x"] by linarith
  have len: "\<not> 16 \<le> length ds" using less.prems digits_nonempty [of b "unat x"] by (cases "numeral_digits b (unat x)") auto
  have z: "x div ?B = 0 \<longleftrightarrow> unat x < b" using assms(1) m(2) unat_eq_zero [of "x div ?B"] by (auto simp: div_eq_0_iff)
  show ?case
  proof (cases "unat x < b")
    case True
    then show ?thesis using B0 m tab len z
      by (subst print_digits.simps, subst numeral_digits.simps) simp
  next
    case False
    then have n: "numeral_digits b (unat x) = unat x mod b # numeral_digits b (unat x div b)"
      using assms(1) by (subst numeral_digits.simps) simp
    have "unat (x div ?B) < unat x" using False assms(1) m(2) by (simp add: div_less_dividend)
    then have "print_digits tab ?B (x div ?B) (ds @ [tab ! (unat x mod b)]) =
      Inr ((ds @ [tab ! (unat x mod b)]) @ map ((!) tab) (numeral_digits b (unat (x div ?B))))"
      by (rule less.hyps) (use less.prems n m(2) in simp)
    then show ?thesis using B0 m tab len z n False
      by (subst print_digits.simps) simp
  qed
qed

lemma uint_of_sint:
  fixes x :: u32
  shows "0 \<le> sint x \<Longrightarrow> uint x = sint x" "sint x < 0 \<Longrightarrow> uint (- x) = - sint x"
proof -
  have b: "sint x < 2 ^ 31" "- (2 ^ 31) \<le> sint x" using sint_lt [of x] sint_ge [of x] by simp_all
  show "0 \<le> sint x \<Longrightarrow> uint x = sint x" using b by (simp add: uint_sint take_bit_int_eq_self)
  have "- x = word_of_int (- sint x)" by simp
  then have "uint (- x) = take_bit 32 (- sint x)" by (simp only: unsigned_of_int) simp
  then show "sint x < 0 \<Longrightarrow> uint (- x) = - sint x" using b by (simp add: take_bit_int_eq_self)
qed

lemma nth_digits: "d < 16 \<Longrightarrow> digit_value (digits ! d) = d \<and> digits ! d \<noteq> 45"
proof -
  have "list_all (\<lambda>d. digit_value (digits ! d) = d \<and> digits ! d \<noteq> 45) [0..<16]" by code_simp
  then show "d < 16 \<Longrightarrow> ?thesis" by (simp only: list_all_iff set_upt atLeastLessThan_iff) simp
qed

lemma length_digits [simp]: "length digits = 16"
  by (simp add: digits_def bytes_def)

lemma read_digits_rev:
  "\<forall>d \<in> set ds. digit_value (tab ! d) = d \<Longrightarrow> read_digits b (rev (map (nth tab) ds)) = foldr (\<lambda>d n. b * n + d) ds 0"
  by (induction ds) (simp_all add: read_digits_def)

lemma print_buf_eq:
  assumes "b = 10 \<or> b = 16" "length tab = 16" "\<forall>d < 16. digit_value (tab ! d) = d \<and> tab ! d \<noteq> 45"
  shows "\<exists>ds. print_buf tab xx (of_nat b) sg = Inr ds \<and> length ds \<le> 11 \<and>
    read_number b (rev ds) = (if sg then sint xx else uint xx) \<and>
    (xx \<noteq> 0 \<longrightarrow> hd (dropWhile (\<lambda>c. c = 45) (rev ds)) \<noteq> 48)"
proof -
  define neg where "neg = (sg \<and> sint xx < 0)"
  define x where "x = (if neg then - xx else xx)"
  let ?d = "numeral_digits b (unat x)"
  have b: "2 \<le> b" "b \<le> 16" "b < 2 ^ 32" "(2 :: nat) ^ 32 \<le> b ^ Suc 9" using assms(1) by auto
  have "unat x < b ^ Suc 9" using unat_lt32 [of x] b(4) by linarith
  then have len: "length ?d \<le> 10" using digits_length [OF b(1), of "unat x" 9] by simp
  have e: "print_digits tab (of_nat b) x [] = Inr (map (nth tab) ?d)"
    using print_digits_eq [of b tab "[]" x] b assms(2) len by simp
  have D: "\<forall>d \<in> set ?d. digit_value (tab ! d) = d" "\<forall>d \<in> set ?d. tab ! d \<noteq> 45"
    using digits_bound [OF b(1)] b(2) assms(3) by fastforce+
  have r: "read_digits b (rev (map (nth tab) ?d)) = unat x"
    by (simp add: read_digits_rev [OF D(1)] digits_value [OF b(1)])
  obtain c cs where c: "rev (map (nth tab) ?d) = c # cs" "c \<noteq> 45"
  proof (cases "rev (map (nth tab) ?d)")
    case Nil
    then show ?thesis using digits_nonempty by simp
  next
    case (Cons c cs)
    then have "c \<in> set (rev (map (nth tab) ?d))" by simp
    then show ?thesis using that [OF Cons] D(2) by auto
  qed
  have z: "c \<noteq> 48" if "xx \<noteq> 0"
  proof -
    have "x \<noteq> 0" using that by (simp add: x_def)
    then have "0 < last ?d" using digits_last [OF b(1), of "unat x"] by (simp add: unat_gt_0)
    moreover have "c = tab ! last ?d"
    proof -
      have "c = hd (rev (map (nth tab) ?d))" unfolding c(1) by simp
      then show ?thesis using digits_nonempty [of b "unat x"] by (simp add: hd_rev last_map)
    qed
    ultimately have "0 < digit_value c" using D(1) digits_nonempty [of b "unat x"] by simp
    then show ?thesis by (auto simp: digit_value_def)
  qed
  show ?thesis
  proof (cases neg)
    case False
    then have "print_buf tab xx (of_nat b) sg = Inr (map (nth tab) ?d)" using e by (auto simp: print_buf_def neg_def x_def)
    moreover have "read_number b (rev (map (nth tab) ?d)) = int (unat x)"
      using c r by (simp add: read_number_def)
    moreover have "int (unat x) = (if sg then sint xx else uint xx)"
      using False by (auto simp: neg_def x_def uint_of_sint(1))
    moreover have "xx \<noteq> 0 \<longrightarrow> hd (dropWhile (\<lambda>c. c = 45) (rev (map (nth tab) ?d))) \<noteq> 48" using c z by simp
    ultimately show ?thesis using len by (intro exI [of _ "map (nth tab) ?d"]) simp
  next
    case True
    let ?r = "map (nth tab) ?d @ bytes ''-''"
    have "print_buf tab xx (of_nat b) sg = Inr ?r" using True e len by (auto simp: print_buf_def neg_def x_def)
    moreover have "read_number b (rev ?r) = - int (unat x)"
      using r by (simp add: read_number_def bytes_def)
    moreover have "- int (unat x) = sint xx" using True uint_of_sint(2) [of xx] by (simp add: x_def neg_def)
    moreover have "xx \<noteq> 0 \<longrightarrow> hd (dropWhile (\<lambda>c. c = 45) (rev ?r)) \<noteq> 48" using c z by (simp add: bytes_def)
    ultimately show ?thesis using len True by (intro exI [of _ ?r]) (simp add: neg_def bytes_def)
  qed
qed

section \<open>The screen\<close>

text \<open>The CPU is not frozen and the cursor is on the screen, which has 25 rows of 80 columns.\<close>

definition screen_ok :: "console \<Rightarrow> bool" where
  "screen_ok s \<longleftrightarrow> \<not> panicked s \<and> unat (cursor s) < 25 * 80"

text \<open>Output leaves the input line alone and stays on the screen.\<close>

definition prints :: "console \<Rightarrow> console \<Rightarrow> bool" where
  "prints s t \<longleftrightarrow> screen_ok t \<and> locking t = locking s \<and> (\<forall>i \<ge> 25 * 80. crt t i = crt s i) \<and>
    (ibuf t, ird t, iwr t, ied t, iwakes t) = (ibuf s, ird s, iwr s, ied s, iwakes s)"

lemma prints_refl: "screen_ok s \<Longrightarrow> prints s s"
  by (simp add: prints_def)

lemma prints_trans: "prints s t \<Longrightarrow> prints t u \<Longrightarrow> prints s u"
  by (simp add: prints_def)

lemma prints_bind:
  assumes "\<exists>t. r = Inr t \<and> prints s t" "\<And>t. prints s t \<Longrightarrow> \<exists>u. f t = Inr u \<and> prints t u"
  shows "\<exists>u. kbind r f = Inr u \<and> prints s u"
proof -
  obtain t where t: "r = Inr t" "prints s t" using assms(1) by blast
  obtain u where "f t = Inr u" "prints t u" using assms(2) [OF t(2)] by blast
  then show ?thesis using t prints_trans by auto
qed

lemma prints_screen: "prints s t \<Longrightarrow> screen_ok t"
  by (simp add: prints_def)

lemma cgaputc_prints:
  assumes "screen_ok s"
  shows "\<exists>t. cgaputc c s = Inr t \<and> prints s t"
proof -
  define p where "p = unat (cursor s)"
  have p: "p < 2000" "p + (80 - p mod 80) \<le> 2000"
  proof -
    show "p < 2000" using assms by (simp add: screen_ok_def p_def)
    then have "p div 80 < 25" by (simp add: div_less_iff_less_mult)
    then show "p + (80 - p mod 80) \<le> 2000"
      using div_mult_mod_eq [of p 80] mod_less_divisor [of 80 p] by linarith
  qed
  have small: "unat (of_nat q :: u16) = q" if "q < 2000" for q
    by (rule unat_of_nat_lt) (use that in simp)
  define q where "q = (if c = 10 then p + (80 - p mod 80) else if c = BACKSPACE then if p > 0 then p - 1 else p else p + 1)"
  define m where "m = (if c = 10 \<or> c = BACKSPACE then crt s else (crt s)(p := word_of_int c AND 0xff OR 0x700))"
  define r where "r = (if 24 \<le> q div 80 then q - 80 else q)"
  define n where "n = (if 24 \<le> q div 80 then \<lambda>i. if r \<le> i \<and> i < 24 * 80 then 0 else if i < 23 * 80 then m (i + 80) else m i else m)"
  have q: "q \<le> 2000" using p by (auto simp: q_def)
  have r: "r < 2000" using q less_eq_div_iff_mult_less_eq [of 80 24 q] by (auto simp: r_def)
  have "cgaputc c s = Inr (s\<lparr>cursor := of_nat r, crt := n(r := 0x720)\<rparr>)"
  proof -
    have "cgaputc c s = (let (m, pos) = (m, q) in if 24 \<le> pos div 80 \<and> 24 * 80 < pos - 80 then Inl (Fault ''memset'')
        else let (m, pos) =
           (if 24 \<le> pos div 80
            then let m = (\<lambda>i. if i < 23 * 80 then m (i + 80) else m i); pos = pos - 80
                 in ((\<lambda>i. if pos \<le> i \<and> i < 24 * 80 then 0 else m i), pos)
            else (m, pos))
        in Inr (s\<lparr>cursor := of_nat pos, crt := m(pos := 0x720)\<rparr>))"
      unfolding cgaputc_def Let_def p_def [symmetric] q_def m_def by (cases "c = 10"; cases "c = BACKSPACE") (simp_all only: if_True if_False simp_thms split)
    also have "\<not> (24 \<le> q div 80 \<and> 24 * 80 < q - 80)" using q by linarith
    then have "(let (m, pos) = (m, q) in if 24 \<le> pos div 80 \<and> 24 * 80 < pos - 80 then Inl (Fault ''memset'')
        else let (m, pos) =
           (if 24 \<le> pos div 80
            then let m = (\<lambda>i. if i < 23 * 80 then m (i + 80) else m i); pos = pos - 80
                 in ((\<lambda>i. if pos \<le> i \<and> i < 24 * 80 then 0 else m i), pos)
            else (m, pos))
        in Inr (s\<lparr>cursor := of_nat pos, crt := m(pos := 0x720)\<rparr>)) = Inr (s\<lparr>cursor := of_nat r, crt := n(r := 0x720)\<rparr>)"
      unfolding n_def r_def by (cases "24 \<le> q div 80") (simp_all only: if_True if_False simp_thms split Let_def)
    finally show ?thesis .
  qed
  moreover have "prints s (s\<lparr>cursor := of_nat r, crt := n(r := 0x720)\<rparr>)"
    using r small [OF r] p(1) assms by (auto simp: prints_def screen_ok_def n_def m_def)
  ultimately show ?thesis by blast
qed

lemma prints_uartputc: "prints s t \<Longrightarrow> prints s (uartputc c t)"
  by (simp add: prints_def uartputc_def screen_ok_def)

lemma consputc_prints:
  assumes "screen_ok s"
  shows "\<exists>t. consputc c s = Inr t \<and> prints s t"
proof -
  let ?u = "if c = BACKSPACE then uartputc 8 (uartputc 32 (uartputc 8 s)) else uartputc c s"
  have u: "prints s ?u" using prints_refl [OF assms] by (auto intro: prints_uartputc)
  obtain t where t: "cgaputc c ?u = Inr t" "prints ?u t" using cgaputc_prints [OF prints_screen [OF u], of c] by blast
  have "consputc c s = cgaputc c ?u" using assms unfolding consputc_def screen_ok_def by (simp only: if_False)
  then show ?thesis using t(1) prints_trans [OF u t(2)] by auto
qed

lemma consputs_prints: "screen_ok s \<Longrightarrow> \<exists>t. consputs cs s = Inr t \<and> prints s t"
proof (induction cs arbitrary: s)
  case Nil
  then show ?case by (simp add: prints_refl)
next
  case (Cons c cs)
  show ?case unfolding consputs.simps
    by (rule prints_bind [OF consputc_prints [OF Cons.prems]]) (rule Cons.IH [OF prints_screen])
qed

lemma printint_prints:
  assumes "b = 10 \<or> b = 16" "screen_ok s"
  shows "\<exists>t. printint xx b sg s = Inr t \<and> prints s t"
proof -
  have b: "b = of_nat (unat b)" "unat b = 10 \<or> unat b = 16" using assms(1) by auto
  obtain ds where "print_buf digits xx b sg = Inr ds"
    using print_buf_eq [of "unat b" digits xx sg] b(2) nth_digits b(1) by auto
  then show ?thesis using consputs_prints [OF assms(2)] by (simp add: printint_def)
qed

text \<open>A format whose conversions have their arguments prints to the end.\<close>

fun conversions :: "u8 list \<Rightarrow> nat" where
  "conversions (c # d # fmt) = (if c \<noteq> 37 then conversions (d # fmt)
     else (if d \<in> set (bytes ''dxps'') then 1 else 0) + conversions fmt)"
| "conversions _ = 0"

lemma cprintf_loop_prints:
  "conversions fmt \<le> length args \<Longrightarrow> screen_ok s \<Longrightarrow> \<exists>t. cprintf_loop str fmt args s = Inr t \<and> prints s t"
proof (induction fmt arbitrary: args s rule: conversions.induct)
  case (1 c d fmt args s)
  have arg: "\<exists>u. kbind r (cprintf_loop str fmt args') = Inr u \<and> prints s u"
    if "\<exists>t. r = Inr t \<and> prints s t" "c = 37" "conversions fmt \<le> length args'" for r args'
    using that(1) by (rule prints_bind) (rule "1.IH"(2), use that(2,3) prints_screen in auto)
  consider "c \<noteq> 37" | "c = 37" "d = of_char CHR ''d''" | "c = 37" "d = of_char CHR ''x'' \<or> d = of_char CHR ''p''"
    | "c = 37" "d = of_char CHR ''s''" | "c = 37" "d = 37" | "c = 37" "d \<noteq> 37" "d \<notin> set (bytes ''dxps'')"
    by (auto simp: bytes_def)
  then show ?case
  proof cases
    case 1
    have "\<exists>u. kbind (consputc (uint c) s) (cprintf_loop str (d # fmt) args) = Inr u \<and> prints s u"
      using consputc_prints [OF "1.prems"(2)]
      by (rule prints_bind) (rule "1.IH"(1), use 1 "1.prems" prints_screen in auto)
    then show ?thesis using 1 by simp
  next
    case 2
    then obtain a as where a: "args = a # as" "conversions fmt \<le> length as" using "1.prems"(1) by (cases args) (auto simp: bytes_def)
    have "\<exists>t. printint a 10 True s = Inr t \<and> prints s t" using "1.prems"(2) by (intro printint_prints) simp_all
    from arg [OF this 2(1) a(2)] show ?thesis using 2 a(1) by simp
  next
    case 3
    then obtain a as where a: "args = a # as" "conversions fmt \<le> length as" using "1.prems"(1) by (cases args) (auto simp: bytes_def)
    have "\<exists>t. printint a 16 False s = Inr t \<and> prints s t" using "1.prems"(2) by (intro printint_prints) simp_all
    from arg [OF this 3(1) a(2)] show ?thesis using 3 a(1) by auto
  next
    case 4
    then obtain a as where a: "args = a # as" "conversions fmt \<le> length as" using "1.prems"(1) by (cases args) (auto simp: bytes_def)
    from arg [OF consputs_prints [OF "1.prems"(2)] 4(1) a(2)] show ?thesis using 4 a(1) by simp
  next
    case 5
    from arg [OF consputc_prints [OF "1.prems"(2)] 5(1), of args] show ?thesis using 5 "1.prems"(1) by (simp add: bytes_def)
  next
    case 6
    have "\<exists>u. kbind (consputc 37 s) (\<lambda>s. kbind (consputc (uint d) s) (cprintf_loop str fmt args)) = Inr u \<and> prints s u"
    proof (rule prints_bind [OF consputc_prints [OF "1.prems"(2)]])
      fix t assume t: "prints s t"
      show "\<exists>u. kbind (consputc (uint d) t) (cprintf_loop str fmt args) = Inr u \<and> prints t u"
        by (rule prints_bind [OF consputc_prints [OF prints_screen [OF t]]])
          (rule "1.IH"(2), use 6 "1.prems" prints_screen in auto)
    qed
    then show ?thesis using 6 by (simp add: bytes_def)
  qed
qed (simp_all add: prints_refl consputc_prints)

lemma cprintf_prints:
  "conversions fmt \<le> length args \<Longrightarrow> screen_ok s \<Longrightarrow> \<exists>t. cprintf str False fmt args s = Inr t \<and> prints s t"
  using cprintf_loop_prints by (simp add: cprintf_def)

lemma print_pcs_prints: "screen_ok s \<Longrightarrow> \<exists>t. print_pcs str False chn s = Inr t \<and> prints s t"
proof (induction chn arbitrary: s)
  case Nil
  then show ?case by (simp add: prints_refl)
next
  case (Cons a chn)
  have "\<exists>t. cprintf str False (bytes '' %p'') [a] s = Inr t \<and> prints s t"
    using Cons.prems by (intro cprintf_prints) (simp_all add: bytes_def)
  then show ?case unfolding print_pcs.simps by (rule prints_bind) (rule Cons.IH [OF prints_screen])
qed

lemma procdump_prints: "screen_ok s \<Longrightarrow> \<exists>t. procdump chn k s = Inr t \<and> prints s t"
proof -
  have "screen_ok s \<Longrightarrow> \<exists>t. procdump_from chn k ps s = Inr t \<and> prints s t" for ps
  proof (induction ps arbitrary: s)
    case Nil
    then show ?case by (simp add: prints_refl)
  next
    case (Cons p ps)
    show ?case
    proof (cases "pstate (ptab k p) = UNUSED")
      case False
      let ?str = "\<lambda>a. if a = 1 then bytes (state_name (pstate (ptab k p))) else cstr (pname (ptab k p)) 16"
      have 1: "\<exists>t. cprintf ?str False (bytes ''%d %s %s'') [word_of_int (pid (ptab k p)), 1, 2] s = Inr t \<and> prints s t"
        using Cons.prems by (intro cprintf_prints) (simp_all add: bytes_def)
      have 2: "\<exists>u. (if pstate (ptab k p) = SLEEPING then print_pcs ?str False (takeWhile (\<lambda>ra. ra \<noteq> 0) (take 10 (chn p))) t else Inr t)
          = Inr u \<and> prints t u" if "screen_ok t" for t
        using print_pcs_prints [OF that] prints_refl [OF that] by simp
      have 3: "\<exists>u. cprintf ?str False [NL] [] t = Inr u \<and> prints t u" if "screen_ok t" for t
        using that by (intro cprintf_prints) simp_all
      show ?thesis using False unfolding procdump_from.simps Let_def
        by (simp only: if_False)
          (intro prints_bind 1 2 [OF prints_screen] 3 [OF prints_screen] Cons.IH [OF prints_screen], assumption+)
    qed (use Cons in simp)
  qed
  then show "screen_ok s \<Longrightarrow> ?thesis" unfolding procdump_def .
qed

section \<open>The input line\<close>

text \<open>What the buffer holds from the read index to the edit index, and the invariant of the three indices.\<close>

definition typed :: "console \<Rightarrow> u8 list" where
  "typed s = ring_cont INPUT_BUF (ibuf s) (ird s) (ied s)"

interpretation input: fifo "\<lambda>s. length (typed s) \<le> INPUT_BUF" typed INPUT_BUF input_put input_get
proof
  show "length (typed s) \<le> INPUT_BUF \<Longrightarrow> length (typed s) \<le> INPUT_BUF" for s .
next
  fix s x
  assume "length (typed s) < INPUT_BUF"
  then have "typed (input_put x s) = typed s @ [x]"
    using ring_put [of INPUT_BUF "ied s" "ird s" "ibuf s" x] by (simp add: typed_def input_put_def)
  then show "length (typed (input_put x s)) \<le> INPUT_BUF \<and> typed (input_put x s) = typed s @ [x]"
    using \<open>length (typed s) < INPUT_BUF\<close> by simp
next
  fix s x xs
  assume a: "length (typed s) \<le> INPUT_BUF" "typed s = x # xs"
  have "length xs \<le> INPUT_BUF" using a(1) unfolding a(2) by simp
  with a show "fst (input_get s) = x \<and> length (typed (snd (input_get s))) \<le> INPUT_BUF \<and> typed (snd (input_get s)) = xs"
    using ring_get [of INPUT_BUF "ibuf s" "ird s" "ied s" x xs] by (simp add: typed_def input_get_def)
qed

definition complete :: "console \<Rightarrow> nat" where
  "complete s = unat (iwr s - ird s)"

definition input_ok :: "console \<Rightarrow> bool" where
  "input_ok s \<longleftrightarrow> complete s \<le> length (typed s) \<and> length (typed s) \<le> INPUT_BUF \<and>
    set (drop (complete s) (typed s)) \<inter> {NL, EOT} = {} \<and> (length (typed s) = INPUT_BUF \<longrightarrow> complete s = INPUT_BUF)"

text \<open>
  The terminal that the buffer implements: the bytes ready to be read, and those of the line being edited.
\<close>

type_synonym tty = "u8 list \<times> u8 list"

definition tty_of :: "console \<Rightarrow> tty" where
  "tty_of s = (take (complete s) (typed s), drop (complete s) (typed s))"

definition tty_key :: "int \<Rightarrow> tty \<Rightarrow> tty" where
  "tty_key c t = (case t of (ready, line) \<Rightarrow>
    if c = 16 then (ready, line)
    else if c = 21 then (ready, [])
    else if c = 8 \<or> c = 127 then (ready, butlast line)
    else if c = 0 \<or> INPUT_BUF \<le> length ready + length line then (ready, line)
    else let b = (if c = 13 then NL else word_of_int c); line = line @ [b]
      in if c = 13 \<or> c = 10 \<or> c = 4 \<or> length ready + length line = INPUT_BUF then (ready @ line, []) else (ready, line))"

text \<open>Reading \<open>n\<close> bytes after those of \<open>acc\<close>: up to a newline, or to an end of file that is left for the next call.\<close>

definition tty_read :: "bool \<Rightarrow> nat \<Rightarrow> u8 list \<Rightarrow> u8 list \<Rightarrow> cread \<times> u8 list" where
  "tty_read kld n acc ready =
    (let pre = takeWhile (\<lambda>c. c \<noteq> NL \<and> c \<noteq> EOT) ready; got = acc @ pre in
     if n \<le> length pre then (CRet (int (length acc + n)) (acc @ take n ready), drop n ready)
     else case drop (length pre) ready of
       [] \<Rightarrow> (if kld then CKilled got else CSleep (n - length pre) got, [])
     | c # cs \<Rightarrow> if c = NL then (CRet (int (length got) + 1) (got @ [NL]), cs)
         else (CRet (int (length got)) got, if got = [] then cs else c # cs))"

lemma typed_length: "length (typed s) = unat (ied s - ird s)"
  by (simp add: typed_def)

lemma input_gap:
  assumes "input_ok s"
  shows "unat (ied s - iwr s) = length (typed s) - complete s"
proof -
  have "iwr s - ird s \<le> ied s - ird s" using assms by (simp add: input_ok_def complete_def typed_length word_le_nat_alt)
  then have "unat ((ied s - ird s) - (iwr s - ird s)) = unat (ied s - ird s) - unat (iwr s - ird s)" by (rule unat_sub)
  then show ?thesis by (simp add: complete_def typed_length)
qed

lemma input_edit_iff: "input_ok s \<Longrightarrow> ied s \<noteq> iwr s \<longleftrightarrow> complete s < length (typed s)"
  using input_gap [of s] unat_eq_zero [of "ied s - iwr s"] by (simp flip: not_le)

lemma input_ready_iff: "ird s = iwr s \<longleftrightarrow> complete s = 0"
  by (auto simp: complete_def unat_eq_zero)

lemma prints_input:
  assumes "prints s t"
  shows "typed t = typed s" "complete t = complete s" "input_ok t = input_ok s" "tty_of t = tty_of s"
  using assms by (simp_all add: prints_def typed_def complete_def input_ok_def tty_of_def)

text \<open>Taking back the last character.\<close>

lemma typed_back:
  assumes "typed s \<noteq> []"
  shows "typed (s\<lparr>ied := ied s - 1\<rparr>) = butlast (typed s)"
    and "ibuf s (unat (ied s - 1) mod INPUT_BUF) = last (typed s)"
proof -
  let ?n = "unat (ied s - ird s)"
  have n: "?n \<noteq> 0" using assms by (simp add: typed_length flip: length_0_conv)
  then have "ied s - ird s \<noteq> 0" by auto
  then have e: "unat (ied s - 1 - ird s) = ?n - 1"
    using unat_minus_one [of "ied s - ird s"] by (simp add: algebra_simps)
  obtain k where k: "?n = Suc k" using n by (cases ?n) auto
  show "typed (s\<lparr>ied := ied s - 1\<rparr>) = butlast (typed s)"
    using e k by (simp add: typed_def ring_cont_def butlast_append)
  have "ird s + of_nat k = ied s - 1"
  proof -
    have "of_nat ?n = ied s - ird s" by simp
    then have "of_nat k + 1 = ied s - ird s" unfolding k by (simp add: add.commute)
    then show ?thesis by (simp add: algebra_simps)
  qed
  then show "ibuf s (unat (ied s - 1) mod INPUT_BUF) = last (typed s)"
    using k by (simp add: typed_def ring_cont_def)
qed

lemma erase_char:
  assumes "input_ok s" "screen_ok s" "complete s < length (typed s)"
  shows "\<exists>t. consputc BACKSPACE (s\<lparr>ied := ied s - 1\<rparr>) = Inr t \<and> input_ok t \<and> screen_ok t \<and>
    typed t = butlast (typed s) \<and> complete t = complete s"
proof -
  let ?s = "s\<lparr>ied := ied s - 1\<rparr>"
  obtain t where t: "consputc BACKSPACE ?s = Inr t" "prints ?s t"
    using consputc_prints [of ?s BACKSPACE] assms(2) by (auto simp: screen_ok_def)
  have b: "typed ?s = butlast (typed s)" "complete ?s = complete s"
    using typed_back(1) [of s] assms(3) by (fastforce, simp add: complete_def)
  have "input_ok ?s" using assms(1,3) unfolding input_ok_def b
    by (auto simp: butlast_conv_take drop_take dest!: in_set_takeD)
  then show ?thesis using t b prints_input [OF t(2)] prints_screen [OF t(2)] by auto
qed

lemma kill_line_tty:
  assumes "input_ok s" "screen_ok s"
  shows "\<exists>t. kill_line s = Inr t \<and> input_ok t \<and> screen_ok t \<and> tty_of t = (fst (tty_of s), [])"
proof -
  have "\<exists>t. kill_from n s = Inr t \<and> input_ok t \<and> screen_ok t \<and> tty_of t = (fst (tty_of s), [])"
    if "n = length (typed s) - complete s" "input_ok s" "screen_ok s" for n s
    using that
  proof (induction n arbitrary: s)
    case 0
    then show ?case by (simp add: tty_of_def)
  next
    case (Suc n)
    then have c: "complete s < length (typed s)" by simp
    then have "typed s \<noteq> []" by auto
    have "last (typed s) = last (drop (complete s) (typed s))" using c by simp
    also have "\<dots> \<in> set (drop (complete s) (typed s))" using c by (intro last_in_set) simp
    finally have nl: "ibuf s (unat (ied s - 1) mod INPUT_BUF) \<noteq> NL"
      using typed_back(2) [OF \<open>typed s \<noteq> []\<close>] Suc.prems(2) by (auto simp: input_ok_def)
    obtain t where t: "consputc BACKSPACE (s\<lparr>ied := ied s - 1\<rparr>) = Inr t" "input_ok t" "screen_ok t"
      "typed t = butlast (typed s)" "complete t = complete s" using erase_char [OF Suc.prems(2,3) c] by blast
    have "n = length (typed t) - complete t" using t(4,5) Suc.prems(1) by simp
    from Suc.IH [OF this t(2,3)] obtain u where u: "kill_from n t = Inr u" "input_ok u" "screen_ok u"
      "tty_of u = (fst (tty_of t), [])" by blast
    have "fst (tty_of t) = fst (tty_of s)" using t(4,5) c by (simp add: tty_of_def take_butlast)
    then show ?case using nl t(1) u by simp
  qed
  from this [OF refl assms] show ?thesis unfolding kill_line_def input_gap [OF assms(1)] .
qed


lemma complete_all: "complete (s\<lparr>iwr := ied s, iwakes := n\<rparr>) = length (typed s)"
  by (simp add: complete_def typed_length)

lemma typed_iwr [simp]: "typed (s\<lparr>iwr := w, iwakes := n\<rparr>) = typed s"
  by (simp add: typed_def)

lemma type_char_tty:
  assumes ok: "input_ok s" "screen_ok s" and c: "0 \<le> c" "c < 256" "c \<notin> {16, 21, 8, 127}"
  shows "\<exists>t. type_char c s = Inr t \<and> input_ok t \<and> screen_ok t \<and> tty_of t = tty_key c (tty_of s)"
proof -
  have len: "length (fst (tty_of s)) + length (snd (tty_of s)) = length (typed s)" by (simp add: tty_of_def)
  have le: "complete s \<le> length (typed s)" "length (typed s) \<le> INPUT_BUF" using ok(1) by (simp_all add: input_ok_def)
  have room: "ied s - ird s < of_nat INPUT_BUF \<longleftrightarrow> length (typed s) < INPUT_BUF"
    by (simp add: typed_length word_less_nat_alt)
  show ?thesis
  proof (cases "c \<noteq> 0 \<and> length (typed s) < INPUT_BUF")
    case False
    then have "tty_key c (tty_of s) = tty_of s" using c len by (auto simp: tty_key_def split: prod.split)
    moreover have "type_char c s = Inr s" using False room unfolding type_char_def by (simp only: if_False)
    ultimately show ?thesis using ok by simp
  next
    case True
    define b where "b = (if c = 13 then 10 else c)"
    define s1 where "s1 = input_put (word_of_int b) s"
    have s1: "typed s1 = typed s @ [word_of_int b]" "complete s1 = complete s"
      using True input.put_cont [of s "word_of_int b"] by (simp_all add: s1_def complete_def input_put_def)
    have "screen_ok s1" using ok(2) by (simp add: s1_def input_put_def screen_ok_def)
    from consputc_prints [OF this, of b] obtain t where t: "consputc b s1 = Inr t" "prints s1 t" by blast
    have T: "typed t = typed s1" "complete t = complete s1" "screen_ok t"
      using prints_input [OF t(2)] prints_screen [OF t(2)] by simp_all
    let ?fin = "b = 10 \<or> b = ctrl CHR ''D'' \<or> ied t = ird t + of_nat INPUT_BUF"
    have ctrl: "ctrl CHR ''D'' = 4" by (simp add: ctrl_def)
    have full: "ied t = ird t + of_nat INPUT_BUF \<longleftrightarrow> length (typed t) = INPUT_BUF"
    proof -
      have "ied t = ird t + of_nat INPUT_BUF \<longleftrightarrow> ied t - ird t = 128" by (auto simp: algebra_simps)
      also have "\<dots> \<longleftrightarrow> unat (ied t - ird t) = unat (128 :: u32)" by (rule word_unat_eq_iff)
      finally show ?thesis by (simp add: typed_length)
    qed
    have L: "length (typed t) = length (typed s) + 1" using T(1) s1(1) by simp
    have r: "type_char c s = (if ?fin then Inr (t\<lparr>iwr := ied t, iwakes := iwakes t + 1\<rparr>) else Inr t)"
      using True room t(1) unfolding type_char_def b_def s1_def by (simp add: Let_def)
    show ?thesis
    proof (cases ?fin)
      case e: True
      let ?t = "t\<lparr>iwr := ied t, iwakes := iwakes t + 1\<rparr>"
      have "complete ?t = length (typed t)" by (rule complete_all)
      then have "tty_of ?t = (typed s @ [word_of_int b], [])" "input_ok ?t"
        using T(1) s1(1) L True by (simp_all add: tty_of_def input_ok_def)
      moreover have "tty_key c (tty_of s) = (typed s @ [word_of_int b], [])"
        using e c True len L unfolding full ctrl by (auto simp: tty_key_def tty_of_def b_def)
      ultimately show ?thesis using r e T(3) by (simp add: screen_ok_def)
    next
      case e: False
      then have n: "b \<noteq> 10" "b \<noteq> 4" "length (typed s) + 1 < INPUT_BUF"
        using full ctrl L True by auto
      have "tty_of t = (fst (tty_of s), snd (tty_of s) @ [word_of_int b])"
        using T s1 le by (simp add: tty_of_def)
      moreover have "input_ok t"
      proof -
        have "word_of_int b \<noteq> NL" "word_of_int b \<noteq> EOT"
          using n(1,2) c(1,2) by (auto simp: b_def word_uint_eq_iff uint_word_of_int split: if_splits)
        then show ?thesis using ok(1) T(1,2) s1 le n(3) by (simp add: input_ok_def)
      qed
      moreover have "tty_key c (tty_of s) = (fst (tty_of s), snd (tty_of s) @ [word_of_int b])"
        using n c True len by (auto simp: tty_key_def b_def split: prod.split if_splits)
      ultimately show ?thesis using r e T(3) by simp
    qed
  qed
qed


lemma console_char_tty:
  assumes ok: "input_ok s" "screen_ok s" and c: "0 \<le> c" "c < 256"
  shows "\<exists>t. console_char (procdump chn k) c s = Inr t \<and> input_ok t \<and> screen_ok t \<and> tty_of t = tty_key c (tty_of s)"
proof -
  have ctrl: "ctrl CHR ''P'' = 16" "ctrl CHR ''U'' = 21" "ctrl CHR ''H'' = 8" by (simp_all add: ctrl_def)
  consider "c = 16" | "c = 21" | "c = 8 \<or> c = 127" | "c \<notin> {16, 21, 8, 127}" by auto
  then show ?thesis
  proof cases
    case 1
    obtain t where t: "procdump chn k s = Inr t" "prints s t" using procdump_prints [OF ok(2)] by blast
    then show ?thesis using 1 ctrl ok prints_input [OF t(2)] prints_screen [OF t(2)]
      by (simp add: console_char_def tty_key_def split: prod.split)
  next
    case 2
    then show ?thesis using kill_line_tty [OF ok] ctrl by (cases "tty_of s") (simp add: console_char_def tty_key_def)
  next
    case 3
    show ?thesis
    proof (cases "ied s \<noteq> iwr s")
      case True
      then have lt: "complete s < length (typed s)" using input_edit_iff [OF ok(1)] by simp
      obtain t where t: "consputc BACKSPACE (s\<lparr>ied := ied s - 1\<rparr>) = Inr t" "input_ok t" "screen_ok t"
        "typed t = butlast (typed s)" "complete t = complete s" using erase_char [OF ok lt] by blast
      have "tty_of t = (fst (tty_of s), butlast (snd (tty_of s)))"
        using t(4,5) lt by (simp add: tty_of_def take_butlast drop_butlast)
      moreover have "tty_key c (tty_of s) = (fst (tty_of s), butlast (snd (tty_of s)))"
        using 3 by (cases "tty_of s") (auto simp: tty_key_def)
      moreover have "console_char (procdump chn k) c s = Inr t"
        using 3 ctrl t(1) True unfolding console_char_def by (elim disjE) simp_all
      ultimately show ?thesis using t(2,3) by simp
    next
      case False
      then have "snd (tty_of s) = []" using input_edit_iff [OF ok(1)] by (simp add: tty_of_def)
      then have "tty_key c (tty_of s) = tty_of s" using 3 by (cases "tty_of s") (auto simp: tty_key_def)
      moreover have "console_char (procdump chn k) c s = Inr s"
        using 3 ctrl False unfolding console_char_def by (elim disjE) simp_all
      ultimately show ?thesis using ok by simp
    qed
  next
    case 4
    then show ?thesis using type_char_tty [OF ok c] ctrl by (simp add: console_char_def)
  qed
qed

lemma consoleintr_tty:
  assumes "input_ok s" "screen_ok s" "\<forall>c \<in> set cs. c < 256"
  shows "\<exists>t. consoleintr (procdump chn k) cs s = Inr t \<and> input_ok t \<and> screen_ok t \<and>
    tty_of t = fold tty_key (takeWhile (\<lambda>c. 0 \<le> c) cs) (tty_of s)"
  using assms
proof (induction cs arbitrary: s)
  case (Cons c cs)
  show ?case
  proof (cases "c < 0")
    case False
    then obtain t where t: "console_char (procdump chn k) c s = Inr t" "input_ok t" "screen_ok t" "tty_of t = tty_key c (tty_of s)"
      using console_char_tty [OF Cons.prems(1,2), of c chn k] Cons.prems(3) by auto
    from Cons.IH [OF t(2,3)] Cons.prems(3) show ?thesis using False t by auto
  qed (use Cons.prems in simp)
qed simp


text \<open>Reading: one byte, and the loop.\<close>

lemma input_get_step:
  assumes "input_ok s" "0 < complete s"
  obtains c where "fst (input_get s) = c" "typed s = c # typed (snd (input_get s))"
    "complete (snd (input_get s)) = complete s - 1" "input_ok (snd (input_get s))"
proof -
  have le: "complete s \<le> length (typed s)" "length (typed s) \<le> INPUT_BUF" using assms(1) by (simp_all add: input_ok_def)
  then obtain c xs where c: "typed s = c # xs" using assms(2) by (cases "typed s") auto
  have g: "fst (input_get s) = c" "typed (snd (input_get s)) = xs" using input.get_cont [OF le(2) c] by simp_all
  have "iwr s - ird s \<noteq> 0" using assms(2) by (auto simp: complete_def)
  then have k: "complete (snd (input_get s)) = complete s - 1"
    using unat_minus_one [of "iwr s - ird s"] by (simp add: complete_def input_get_def algebra_simps)
  have "drop (complete s - 1) xs = drop (complete s) (typed s)" using c assms(2) by (simp add: drop_Cons')
  then have "input_ok (snd (input_get s))"
    using assms c g(2) le unfolding input_ok_def k by auto
  then show ?thesis using that g c k by simp
qed

lemma tty_read_step:
  "c \<noteq> NL \<Longrightarrow> c \<noteq> EOT \<Longrightarrow> tty_read kld (Suc n) acc (c # cs) = tty_read kld n (acc @ [c]) cs"
  by (simp add: tty_read_def Let_def split: list.split)

lemma consoleread_loop_tty:
  assumes "input_ok s" "screen_ok s"
  shows "\<exists>t. consoleread_loop kld n (length acc + n) acc s = (fst (tty_read kld n acc (fst (tty_of s))), t) \<and>
    input_ok t \<and> screen_ok t \<and> tty_of t = (snd (tty_read kld n acc (fst (tty_of s))), snd (tty_of s))"
  using assms
proof (induction n arbitrary: acc s)
  case 0
  then show ?case by (simp add: tty_read_def)
next
  case (Suc n)
  show ?case
  proof (cases "complete s = 0")
    case True
    then show ?thesis using Suc.prems input_ready_iff [of s] by (simp add: tty_read_def tty_of_def)
  next
    case False
    then obtain c where c: "fst (input_get s) = c" "typed s = c # typed (snd (input_get s))"
      "complete (snd (input_get s)) = complete s - 1" "input_ok (snd (input_get s))"
      using input_get_step [OF Suc.prems(1)] by auto
    define s' where "s' = snd (input_get s)"
    have get: "input_get s = (c, s')" using c(1) by (simp add: s'_def prod_eq_iff)
    have s': "s' = s\<lparr>ird := ird s + 1\<rparr>" by (simp add: s'_def input_get_def)
    have ok: "input_ok s'" "screen_ok s'" using c(4) Suc.prems(2) by (simp_all add: s'_def input_get_def screen_ok_def)
    have tty: "tty_of s = (c # fst (tty_of s'), snd (tty_of s'))"
      using c(2,3) False by (simp add: tty_of_def s'_def [symmetric] take_Cons' drop_Cons')
    have ne: "ird s \<noteq> iwr s" using False input_ready_iff by simp
    consider "c = EOT" | "c = NL" | "c \<noteq> EOT" "c \<noteq> NL" by blast
    then show ?thesis
    proof cases
      case 1
      then show ?thesis using ne get tty ok Suc.prems s' by (simp add: tty_read_def)
    next
      case 2
      then show ?thesis using ne get tty ok by (simp add: tty_read_def)
    next
      case 3
      from Suc.IH [OF ok, of "acc @ [c]"] show ?thesis using ne get tty 3 by (simp add: tty_read_step)
    qed
  qed
qed

section \<open>Properties\<close>

definition demo_console :: console where
  "demo_console = \<lparr>panicked = False, locking = True, uart = True, serial = [], crt = \<lambda>_. 0x720, cursor = 0,
    ibuf = \<lambda>_. 0, ird = 0, iwr = 0, ied = 0, iwakes = 0\<rparr>"

text \<open>
  C28. Numbers on the console: \<open>printint\<close> in base 10 or 16 writes at most 11 characters, so it never leaves its buffer of 16; read
  back as a number they give the argument, as a signed number when asked so (the least integer included), and there is no leading zero.
\<close>

lemma printint_exact:
  assumes "b = 10 \<or> b = 16"
  shows "\<exists>cs. printint xx (of_nat b) sg s = consputs cs s \<and> length cs \<le> 11 \<and>
    read_number b cs = (if sg then sint xx else uint xx) \<and> (xx \<noteq> 0 \<longrightarrow> hd (dropWhile (\<lambda>c. c = 45) cs) \<noteq> 48)"
proof -
  obtain ds where ds: "print_buf digits xx (of_nat b) sg = Inr ds" "length ds \<le> 11"
    "read_number b (rev ds) = (if sg then sint xx else uint xx)" "xx \<noteq> 0 \<longrightarrow> hd (dropWhile (\<lambda>c. c = 45) (rev ds)) \<noteq> 48"
    using print_buf_eq [OF assms, of digits xx sg] nth_digits by auto
  then show ?thesis by (intro exI [of _ "rev ds"]) (simp add: printint_def)
qed

lemma printint_exact_witness:
  "\<exists>cs. printint (2 ^ 31) (of_nat 10) True demo_console = consputs cs demo_console \<and> length cs \<le> 11 \<and> read_number 10 cs = - (2 ^ 31)"
  using printint_exact [of 10 "2 ^ 31" True demo_console] by auto

text \<open>
  C29. The input line refines a terminal: whatever is typed (a process listing, line kill, backspace, characters and newlines, in a buffer
  that may be full), \<open>consoleintr\<close> never fails, keeps the invariant of the indices, and changes the bytes ready and the line being
  edited exactly as the keys say; and a read, fresh or resumed after a sleep, returns the ready bytes up to a newline, to an end of file,
  or to the length asked for, and leaves the others.
\<close>

lemma console_refines_terminal:
  assumes "input_ok s" "screen_ok s" "\<forall>c \<in> set cs. c < 256"
  shows "(\<exists>t. consoleintr (procdump chn k) cs s = Inr t \<and> input_ok t \<and> screen_ok t \<and>
      tty_of t = fold tty_key (takeWhile (\<lambda>c. 0 \<le> c) cs) (tty_of s)) \<and>
    (\<exists>t. consoleread kld n s = (fst (tty_read kld (nat n) [] (fst (tty_of s))), t) \<and> input_ok t \<and> screen_ok t \<and>
      tty_of t = (snd (tty_read kld (nat n) [] (fst (tty_of s))), snd (tty_of s))) \<and>
    (\<exists>t. consoleread_loop kld m (length acc + m) acc s = (fst (tty_read kld m acc (fst (tty_of s))), t) \<and> input_ok t \<and>
      screen_ok t \<and> tty_of t = (snd (tty_read kld m acc (fst (tty_of s))), snd (tty_of s)))"
proof (intro conjI consoleintr_tty [OF assms] consoleread_loop_tty [OF assms(1,2)])
  have "consoleread kld n s = consoleread_loop kld (nat n) (length [] + nat n) [] s" by (cases "n \<le> 0") (simp_all add: consoleread_def)
  then show "\<exists>t. consoleread kld n s = (fst (tty_read kld (nat n) [] (fst (tty_of s))), t) \<and> input_ok t \<and> screen_ok t \<and>
      tty_of t = (snd (tty_read kld (nat n) [] (fst (tty_of s))), snd (tty_of s))"
    using consoleread_loop_tty [OF assms(1,2), of kld "nat n" "[]"] by simp
qed

lemma console_refines_terminal_witness:
  "\<exists>t u. consoleintr (procdump (\<lambda>_. []) demo_kern) (map of_char ''lx'' @ [8, 115, 13]) demo_console = Inr t \<and>
    consoleread False 100 t = (CRet 3 (bytes ''ls'' @ [NL]), u) \<and> tty_of u = ([], [])"
proof -
  let ?k = "map of_char ''lx'' @ [8, 115, 13] :: int list"
  have ok: "input_ok demo_console" "screen_ok demo_console"
    by (simp_all add: demo_console_def input_ok_def screen_ok_def complete_def typed_def ring_cont_def)
  have t0: "tty_of demo_console = ([], [])" by (simp add: demo_console_def tty_of_def complete_def typed_def ring_cont_def)
  have "\<forall>c \<in> set ?k. c < 256" by simp
  then obtain t where t: "consoleintr (procdump (\<lambda>_. []) demo_kern) ?k demo_console = Inr t" "input_ok t" "screen_ok t"
    "tty_of t = fold tty_key (takeWhile (\<lambda>c. 0 \<le> c) ?k) ([], [])"
    using console_refines_terminal [OF ok, of ?k "\<lambda>_. []" demo_kern] unfolding t0 by blast
  have "fold tty_key (takeWhile (\<lambda>c. 0 \<le> c) ?k) ([], []) = (bytes ''ls'' @ [NL], [])" by code_simp
  then have r: "tty_of t = (bytes ''ls'' @ [NL], [])" using t(4) by (rule trans [rotated])
  have "tty_read False (nat 100) [] (bytes ''ls'' @ [NL]) = (CRet 3 (bytes ''ls'' @ [NL]), [])" by code_simp
  then show ?thesis using console_refines_terminal [OF t(2,3), of "[]" undefined undefined False 100] t(1) unfolding r by auto
qed

end
