(* ===== verification/Kbd.thy ===== *)
theory Kbd imports Console
begin

text \<open>
  kernel/kbd.c with the tables of kernel/kbd.h: from scan codes to characters; and the input side of kernel/uart.c.  The tables are the initial
  entries of the C arrays and the entries placed by index after them; the other entries are zero.
\<close>

definition table :: "u8 list \<Rightarrow> (u8 \<times> u8) list \<Rightarrow> u8 \<Rightarrow> u8" where
  "table first rest d = (case map_of rest d of Some c \<Rightarrow> c | None \<Rightarrow> if unat d < length first then first ! unat d else 0)"

abbreviation SHIFT :: u32 where "SHIFT \<equiv> 1"
abbreviation CTL :: u32 where "CTL \<equiv> 2"
abbreviation ALT :: u32 where "ALT \<equiv> 4"
abbreviation CAPSLOCK :: u32 where "CAPSLOCK \<equiv> 8"
abbreviation NUMLOCK :: u32 where "NUMLOCK \<equiv> 16"
abbreviation SCROLLLOCK :: u32 where "SCROLLLOCK \<equiv> 32"
abbreviation E0ESC :: u32 where "E0ESC \<equiv> 64"

definition shiftcode :: "u8 \<Rightarrow> u32" where
  "shiftcode = (\<lambda>_. 0)(0x1D := CTL, 0x2A := SHIFT, 0x36 := SHIFT, 0x38 := ALT, 0x9D := CTL, 0xB8 := ALT)"

definition togglecode :: "u8 \<Rightarrow> u32" where
  "togglecode = (\<lambda>_. 0)(0x3A := CAPSLOCK, 0x45 := NUMLOCK, 0x46 := SCROLLLOCK)"

text \<open>The keys of the extended part, the same in the three maps but for Enter and Div.\<close>

definition extended :: "u8 \<Rightarrow> u8 \<Rightarrow> (u8 \<times> u8) list" where
  "extended enter dv = [(0x9C, enter), (0xB5, dv), (0xC8, 0xE2), (0xD0, 0xE3), (0xC9, 0xE6), (0xD1, 0xE7), (0xCB, 0xE4),
    (0xCD, 0xE5), (0x97, 0xE0), (0xCF, 0xE1), (0xD2, 0xE8), (0xD3, 0xE9)]"

definition normalmap :: "u8 \<Rightarrow> u8" where
  "normalmap = table ([0, 0x1B] @ bytes ''1234567890-='' @ [8, 9] @ bytes ''qwertyuiop[]'' @ [10, 0] @ bytes ''asdfghjkl;'' @
     [39, 96, 0, 92] @ bytes ''zxcvbnm,./'' @ [0] @ bytes ''*'' @ [0] @ bytes '' '' @ replicate 13 0 @ bytes ''789-456+1230.'' @
     replicate 4 0) (extended 10 (of_char CHR ''/''))"

definition shiftmap :: "u8 \<Rightarrow> u8" where
  "shiftmap = table ([0, 27] @ bytes ''!@#$%^&*()_+'' @ [8, 9] @ bytes ''QWERTYUIOP{}'' @ [10, 0] @ bytes ''ASDFGHJKL:'' @
     [34, 126, 0, 124] @ bytes ''ZXCVBNM<>?'' @ [0] @ bytes ''*'' @ [0] @ bytes '' '' @ replicate 13 0 @ bytes ''789-456+1230.'' @
     replicate 4 0) (extended 10 (of_char CHR ''/''))"

text \<open>The control characters of a string; zero for a space.\<close>

definition ctrls :: "string \<Rightarrow> u8 list" where
  "ctrls s = map (\<lambda>c. if c = CHR '' '' then 0 else of_char c - 64) s"

definition ctlmap :: "u8 \<Rightarrow> u8" where
  "ctlmap = table (replicate 16 0 @ ctrls ''QWERTYUIOP  '' @ [13, 0] @ ctrls ''ASDFGHJKL    '' @ [of_char CHR 0x5C - 64] @
     ctrls ''ZXCVBNM  / '' @ [0]) (extended 13 (of_char CHR ''/'' - 64))"

definition charcode :: "u32 \<Rightarrow> u8 \<Rightarrow> u8" where
  "charcode n = (if n = 0 then normalmap else if n = 1 then shiftmap else ctlmap)"

text \<open>\<open>kbdgetc\<close>: the byte at the data port if the status port says there is one; \<open>shift\<close> is the static variable.\<close>

definition kbdgetc :: "u8 option \<Rightarrow> u32 \<Rightarrow> int \<times> u32" where
  "kbdgetc port shift = (case port of None \<Rightarrow> (-1, shift)
   | Some data \<Rightarrow>
     if data = 0xE0 then (0, shift OR E0ESC)
     else if data AND 0x80 \<noteq> 0 then
       let data = (if shift AND E0ESC \<noteq> 0 then data else data AND 0x7F)
       in (0, shift AND NOT (shiftcode data OR E0ESC))
     else
       let (data, shift) = (if shift AND E0ESC \<noteq> 0 then (data OR 0x80, shift AND NOT E0ESC) else (data, shift));
           shift = (shift OR shiftcode data) XOR togglecode data;
           c = uint (charcode (shift AND (CTL OR SHIFT)) data)
       in (if shift AND CAPSLOCK \<noteq> 0 then
             if 97 \<le> c \<and> c \<le> 122 then c - 32 else if 65 \<le> c \<and> c \<le> 90 then c + 32 else c
           else c, shift))"

text \<open>The values it returns while the controller has the bytes \<open>codes\<close>, and then the one that ends the loop of \<open>consoleintr\<close>.\<close>

fun kbd_chars :: "u8 list \<Rightarrow> u32 \<Rightarrow> int list \<times> u32" where
  "kbd_chars [] shift = (let (c, shift) = kbdgetc None shift in ([c], shift))"
| "kbd_chars (d # codes) shift =
    (let (c, shift) = kbdgetc (Some d) shift; (cs, shift) = kbd_chars codes shift in (c # cs, shift))"

definition kbdintr :: "(console \<Rightarrow> console res) \<Rightarrow> u8 list \<Rightarrow> u32 \<Rightarrow> console \<Rightarrow> (u32 \<times> console) res" where
  "kbdintr dump codes shift s =
    (let (cs, shift) = kbd_chars codes shift in kbind (consoleintr dump cs s) (\<lambda>s. Inr (shift, s)))"

text \<open>\<open>uartgetc\<close>: no port, or a status without its low bit, gives -1.\<close>

definition uartgetc :: "u8 \<Rightarrow> u8 \<Rightarrow> console \<Rightarrow> int" where
  "uartgetc status data s = (if \<not> uart s then -1 else if status AND 1 = 0 then -1 else uint data)"

definition uartintr :: "(console \<Rightarrow> console res) \<Rightarrow> (u8 \<times> u8) list \<Rightarrow> console \<Rightarrow> console res" where
  "uartintr dump regs s = consoleintr dump (map (\<lambda>(st, d). uartgetc st d s) regs) s"

section \<open>Keys and modifiers\<close>

lemma uint_u8: "uint (x :: u8) < 256" "0 \<le> uint x"
  using unsigned_less [of x, where ?'a = int] by simp_all

lemma kbdgetc_byte: "kbdgetc p sh = (c, sh') \<Longrightarrow> c < 256"
proof -
  have "uint (charcode n d) < 256" for n d by (rule uint_u8)
  then show "kbdgetc p sh = (c, sh') \<Longrightarrow> c < 256"
    by (auto simp: kbdgetc_def Let_def split: option.splits if_splits prod.splits)
qed

lemma kbd_chars_bytes: "\<forall>c \<in> set (fst (kbd_chars codes sh)). c < 256"
proof (induction codes arbitrary: sh)
  case Nil
  then show ?case by (simp add: kbdgetc_def)
next
  case (Cons d codes)
  obtain c sh' where c: "kbdgetc (Some d) sh = (c, sh')" by fastforce
  with Cons.IH [of sh'] kbdgetc_byte [OF c] show ?case by (simp split: prod.split)
qed

lemma mask_away:
  fixes a :: u32
  assumes "s AND t = 0" "s AND e = 0" "t AND e = 0" "a AND e = 0" "a AND s = 0"
  shows "((a OR s) XOR t) AND NOT (s OR e) = a XOR t"
proof (rule bit_word_eqI)
  fix n assume "n < LENGTH(32)"
  have "\<not> (bit s n \<and> bit t n)" "\<not> (bit s n \<and> bit e n)" "\<not> (bit t n \<and> bit e n)" "\<not> (bit a n \<and> bit e n)" "\<not> (bit a n \<and> bit s n)"
    using assms by (metis bit_and_iff bit_0_eq bot_apply bot_bool_def)+
  then show "bit (((a OR s) XOR t) AND NOT (s OR e)) n = bit (a XOR t) n"
    using \<open>n < LENGTH(32)\<close> by (auto simp: bit_and_iff bit_or_iff bit_xor_iff bit_not_iff)
qed

text \<open>
  A key that is pressed and released leaves the modifiers as they were, up to the lock that it toggles, when its
  modifier was not already down.
\<close>

lemma key_press_release:
  assumes "k < 0x80" "k \<noteq> 0x60" "sh AND E0ESC = 0" "sh AND shiftcode k = 0"
  shows "snd (kbdgetc (Some (k OR 0x80)) (snd (kbdgetc (Some k) sh))) = sh XOR togglecode k"
proof -
  have "list_all (\<lambda>n. let k = of_nat n :: u8 in k AND 0x80 = 0 \<and> (k OR 0x80) AND 0x7F = k \<and> (k OR 0x80) AND 0x80 \<noteq> 0 \<and>
      k \<noteq> 0xE0 \<and> (k \<noteq> 0x60 \<longrightarrow> k OR 0x80 \<noteq> 0xE0)) [0..<128]" by code_simp
  moreover have "unat k < 128" using assms(1) by (simp add: word_less_nat_alt)
  ultimately have k: "k AND 0x80 = 0" "(k OR 0x80) AND 0x7F = k" "(k OR 0x80) AND 0x80 \<noteq> 0" "k \<noteq> 0xE0" "k OR 0x80 \<noteq> 0xE0"
    using assms(2) by (auto simp: list_all_iff Let_def dest!: bspec [of _ _ "unat k"])
  define S where "S = shiftcode k" define T where "T = togglecode k"
  have d: "S AND T = 0" "S AND E0ESC = 0" "T AND E0ESC = 0"
    by (simp_all add: S_def T_def shiftcode_def togglecode_def)
  have press: "snd (kbdgetc (Some k) sh) = (sh OR S) XOR T"
    using k(1,4) assms(3) by (simp add: kbdgetc_def Let_def S_def T_def)
  have e: "((sh OR S) XOR T) AND E0ESC = 0"
    using d assms(3) by (simp add: word_bw_comms bit.conj_xor_distrib2 bit.conj_disj_distrib2)
  have "((sh OR S) XOR T) AND NOT (S OR E0ESC) = sh XOR T"
    by (rule mask_away) (use d assms(3,4) in \<open>simp_all add: S_def\<close>)
  then show ?thesis using k e unfolding press by (simp add: kbdgetc_def Let_def S_def T_def)
qed

text \<open>What is typed on the keyboard reaches the terminal.\<close>

lemma kbdintr_terminal:
  assumes "input_ok s" "screen_ok s"
  shows "\<exists>t. kbdintr (procdump chn k) codes sh s = Inr (snd (kbd_chars codes sh), t) \<and> input_ok t \<and> screen_ok t \<and>
    tty_of t = fold tty_key (takeWhile (\<lambda>c. 0 \<le> c) (fst (kbd_chars codes sh))) (tty_of s)"
proof -
  obtain cs sh' where c: "kbd_chars codes sh = (cs, sh')" by fastforce
  then have "\<forall>c \<in> set cs. c < 256" using kbd_chars_bytes [of codes sh] by simp
  from consoleintr_tty [OF assms this, of chn k] c show ?thesis by (auto simp: kbdintr_def)
qed

lemma uart_regs: "\<forall>c \<in> set (map (\<lambda>(st, d). uartgetc st d s) regs). c < 256"
  using uint_u8(1) by (auto simp: uartgetc_def)

end
