(* ===== verification/Grep.thy ===== *)
theory Grep imports Prelude
begin

text \<open>
  user/grep.c and user/wc.c: the matcher of regular expressions with its meaning, the loop over the lines of a file in a fixed buffer, and the
  word counter.  A C string is the list of its characters, without the terminator.
\<close>

abbreviation newline :: char where "newline \<equiv> CHR 0x0A"

section \<open>The matcher\<close>

function matchhere :: "string \<Rightarrow> string \<Rightarrow> bool" and matchstar :: "char \<Rightarrow> string \<Rightarrow> string \<Rightarrow> bool" where
  "matchhere [] xs = True"
| "matchhere [c] xs =
    (if c = CHR ''$'' then xs = []
     else case xs of [] \<Rightarrow> False | t # ts \<Rightarrow> (c = CHR ''.'' \<or> c = t) \<and> matchhere [] ts)"
| "matchhere (c # d # re) xs =
    (if d = CHR ''*'' then matchstar c re xs
     else case xs of [] \<Rightarrow> False | t # ts \<Rightarrow> (c = CHR ''.'' \<or> c = t) \<and> matchhere (d # re) ts)"
| "matchstar c re xs =
    (matchhere re xs \<or> (case xs of [] \<Rightarrow> False | t # ts \<Rightarrow> (t = c \<or> c = CHR ''.'') \<and> matchstar c re ts))"
  by pat_completeness auto
termination
  by (relation "measures [\<lambda>x. case x of Inl (re, _) \<Rightarrow> length re | Inr (_, re, _) \<Rightarrow> length re,
        \<lambda>x. case x of Inl (_, xs) \<Rightarrow> 2 * length xs | Inr (_, _, xs) \<Rightarrow> Suc (2 * length xs)]") auto

text \<open>The unanchored search tries every end of the text, the empty one too.\<close>

fun match_from :: "string \<Rightarrow> string \<Rightarrow> bool" where
  "match_from re [] = matchhere re []"
| "match_from re (t # ts) = (matchhere re (t # ts) \<or> match_from re ts)"

definition match :: "string \<Rightarrow> string \<Rightarrow> bool" where
  "match re xs = (case re of c # r \<Rightarrow> if c = CHR ''^'' then matchhere r xs else match_from re xs | [] \<Rightarrow> match_from re xs)"

section \<open>What expressions mean\<close>

text \<open>An expression is a sequence of items: one character, any number of characters, the end of the text.\<close>

datatype item = One char | Many char | Eol

fun items :: "string \<Rightarrow> item list" where
  "items [] = []"
| "items [c] = (if c = CHR ''$'' then [Eol] else [One c])"
| "items (c # d # re) = (if d = CHR ''*'' then Many c # items re else One c # items (d # re))"

definition accepts :: "char \<Rightarrow> char \<Rightarrow> bool" where
  "accepts c t \<longleftrightarrow> c = CHR ''.'' \<or> t = c"

text \<open>\<open>denotes its u v\<close>: the items describe \<open>u\<close>, when \<open>v\<close> follows it in the text.\<close>

fun denotes :: "item list \<Rightarrow> string \<Rightarrow> string \<Rightarrow> bool" where
  "denotes [] u v \<longleftrightarrow> u = []"
| "denotes (One c # its) u v \<longleftrightarrow> (\<exists>t w. u = t # w \<and> accepts c t \<and> denotes its w v)"
| "denotes (Many c # its) u v \<longleftrightarrow> (\<exists>s w. u = s @ w \<and> list_all (accepts c) s \<and> denotes its w v)"
| "denotes (Eol # its) u v \<longleftrightarrow> u = [] \<and> v = [] \<and> denotes its u v"

text \<open>A text that begins with what the items describe.\<close>

definition begins :: "item list \<Rightarrow> string \<Rightarrow> bool" where
  "begins its xs \<longleftrightarrow> (\<exists>u v. xs = u @ v \<and> denotes its u v)"

lemma begins_simps:
  "begins [] xs"
  "begins (One c # its) [] = False"
  "begins (One c # its) (t # ts) \<longleftrightarrow> accepts c t \<and> begins its ts"
  "begins [Eol] xs \<longleftrightarrow> xs = []"
  "begins (Many c # its) xs \<longleftrightarrow> (\<exists>s w. xs = s @ w \<and> list_all (accepts c) s \<and> begins its w)"
proof -
  show "begins (One c # its) (t # ts) \<longleftrightarrow> accepts c t \<and> begins its ts"
  proof
    assume "begins (One c # its) (t # ts)"
    then obtain u v t' w where "t # ts = u @ v" "u = t' # w" "accepts c t'" "denotes its w v" unfolding begins_def by auto
    then show "accepts c t \<and> begins its ts" unfolding begins_def by (intro conjI exI [of _ w] exI [of _ v]) simp_all
  next
    assume "accepts c t \<and> begins its ts"
    then obtain u v where "accepts c t" "ts = u @ v" "denotes its u v" by (auto simp: begins_def)
    then show "begins (One c # its) (t # ts)" unfolding begins_def by (intro exI [of _ "t # u"] exI [of _ v]) simp
  qed
  show "begins (Many c # its) xs \<longleftrightarrow> (\<exists>s w. xs = s @ w \<and> list_all (accepts c) s \<and> begins its w)"
  proof
    assume "begins (Many c # its) xs"
    then obtain s w v where "xs = (s @ w) @ v" "list_all (accepts c) s" "denotes its w v" by (auto simp: begins_def)
    then show "\<exists>s w. xs = s @ w \<and> list_all (accepts c) s \<and> begins its w"
      unfolding begins_def by (intro exI [of _ s] exI [of _ "w @ v"]) auto
  next
    assume "\<exists>s w. xs = s @ w \<and> list_all (accepts c) s \<and> begins its w"
    then obtain s u v where "xs = s @ u @ v" "list_all (accepts c) s" "denotes its u v" by (auto simp: begins_def)
    then show "begins (Many c # its) xs" unfolding begins_def by (intro exI [of _ "s @ u"] exI [of _ v]) auto
  qed
qed (auto simp: begins_def)

declare matchstar.simps [simp del]

lemma matchstar_iff:
  assumes "\<And>xs. matchhere re xs \<longleftrightarrow> begins its xs"
  shows "matchstar c re xs \<longleftrightarrow> begins (Many c # its) xs"
proof (induction xs)
  case Nil
  then show ?case by (simp add: matchstar.simps assms begins_simps(5))
next
  case (Cons t ts)
  have "begins (Many c # its) (t # ts) \<longleftrightarrow> begins its (t # ts) \<or> accepts c t \<and> begins (Many c # its) ts"
  proof
    assume "begins (Many c # its) (t # ts)"
    then obtain s w where "t # ts = s @ w" "list_all (accepts c) s" "begins its w" unfolding begins_simps(5) by auto
    then show "begins its (t # ts) \<or> accepts c t \<and> begins (Many c # its) ts"
      unfolding begins_simps(5) by (cases s) auto
  next
    assume "begins its (t # ts) \<or> accepts c t \<and> begins (Many c # its) ts"
    then show "begins (Many c # its) (t # ts)"
    proof
      assume "begins its (t # ts)"
      then show ?thesis unfolding begins_simps(5) by (intro exI [of _ "[]"] exI [of _ "t # ts"]) simp
    next
      assume a: "accepts c t \<and> begins (Many c # its) ts"
      then obtain s w where "ts = s @ w" "list_all (accepts c) s" "begins its w" unfolding begins_simps(5) by auto
      then show ?thesis using a unfolding begins_simps(5) by (intro exI [of _ "t # s"] exI [of _ w]) simp
    qed
  qed
  then show ?case using Cons by (subst matchstar.simps) (auto simp: assms accepts_def)
qed

lemma matchhere_iff: "matchhere re xs \<longleftrightarrow> begins (items re) xs"
proof (induction re arbitrary: xs rule: items.induct)
  case 1
  then show ?case by (simp add: begins_simps)
next
  case (2 c)
  show ?case by (cases xs) (auto simp: accepts_def begins_simps)
next
  case (3 c d re)
  show ?case
  proof (cases "d = CHR ''*''")
    case True
    then show ?thesis using matchstar_iff [OF "3.IH"(1) [OF True]] by simp
  next
    case False
    show ?thesis using "3.IH"(2) [OF False] False by (cases xs) (auto simp: accepts_def begins_simps)
  qed
qed

lemma match_from_iff: "match_from re xs \<longleftrightarrow> (\<exists>w z. xs = w @ z \<and> matchhere re z)"
  by (induction xs) (auto simp: Cons_eq_append_conv)

section \<open>The loop over the lines\<close>

text \<open>
  \<open>strchr(p, newline)\<close> from place \<open>p\<close> of the buffer: it stops at a zero; beyond the buffer the code reads other memory.
\<close>

definition find_newline :: "nat \<Rightarrow> string \<Rightarrow> nat option res" where
  "find_newline p buf = (case find (\<lambda>i. buf ! i = newline \<or> buf ! i = CHR 0x00) [p..<length buf] of
     None \<Rightarrow> Inl (Fault ''buf'') | Some q \<Rightarrow> Inr (if buf ! q = newline then Some q else None))"

function grep_lines :: "string \<Rightarrow> nat \<Rightarrow> string \<Rightarrow> string list \<Rightarrow> (nat \<times> string \<times> string list) res" where
  "grep_lines pat p buf out = (case find_newline p buf of Inl e \<Rightarrow> Inl e | Inr None \<Rightarrow> Inr (p, buf, out)
   | Inr (Some q) \<Rightarrow> if p \<le> q \<and> q < length buf then
       (let line = take (q - p) (drop p buf) in
        if match pat line then grep_lines pat (q + 1) buf (out @ [line @ [newline]])
        else grep_lines pat (q + 1) (buf[q := CHR 0x00]) out)
      else Inl (Fault ''buf''))"
  by pat_completeness auto
termination by (relation "measure (\<lambda>(_, p, buf, _). length buf - p)") auto

text \<open>The chunks are what the calls of \<open>read\<close> return, up to the end of the file.\<close>

fun grep :: "string \<Rightarrow> string list \<Rightarrow> int \<Rightarrow> string \<Rightarrow> string list \<Rightarrow> string list res" where
  "grep pat [] m buf out = Inr out"
| "grep pat (c # cs) m buf out =
    (if c = [] then Inr out
     else if m < 0 \<or> length buf < nat m + length c then Inl (Fault ''buf'')
     else let buf = take (nat m) buf @ c @ drop (nat m + length c) buf; m = m + int (length c)
       in kbind (grep_lines pat 0 buf out) (\<lambda>(p, buf, out).
            let m = (if p = 0 then 0 else m);
                (m, buf) = (if m > 0 then (m - int p, take (nat (m - int p)) (drop p buf) @ drop (nat (m - int p)) buf) else (m, buf))
            in grep pat cs m buf out))"


declare grep_lines.simps [simp del]

lemma find_at:
  "\<forall>y \<in> set l. \<not> P y \<Longrightarrow> P x \<Longrightarrow> find (\<lambda>i. P ((a @ l @ x # t) ! i)) [length a..<length (a @ l @ x # t)] = Some (length a + length l)"
proof (induction l arbitrary: a)
  case Nil
  then show ?case by (simp add: upt_conv_Cons del: upt_Suc)
next
  case (Cons y l)
  then show ?case using Cons.IH [of "a @ [y]"] by (simp add: upt_conv_Cons del: upt_Suc)
qed

lemma find_off: "\<forall>y \<in> set l. \<not> P y \<Longrightarrow> find (\<lambda>i. P ((a @ l) ! i)) [length a..<length (a @ l)] = None"
  by (auto simp: find_None_iff nth_append)

lemma find_newline_simps:
  assumes "newline \<notin> set l" "CHR 0x00 \<notin> set l"
  shows "find_newline (length a) (a @ l @ newline # t) = Inr (Some (length a + length l))"
    and "find_newline (length a) (a @ l @ CHR 0x00 # t) = Inr None"
    and "find_newline (length a) (a @ l) = Inl (Fault ''buf'')"
proof -
  let ?P = "\<lambda>c. c = newline \<or> c = CHR 0x00"
  have l: "\<forall>y \<in> set l. \<not> ?P y" using assms by auto
  show "find_newline (length a) (a @ l @ newline # t) = Inr (Some (length a + length l))"
    unfolding find_newline_def using find_at [of l ?P newline a t, OF l] by (simp add: nth_append)
  show "find_newline (length a) (a @ l @ CHR 0x00 # t) = Inr None"
    unfolding find_newline_def using find_at [of l ?P "CHR 0x00" a t, OF l] by (simp add: nth_append)
  show "find_newline (length a) (a @ l) = Inl (Fault ''buf'')"
    unfolding find_newline_def using find_off [of l ?P a, OF l] by simp
qed

text \<open>The lines of a text that end with a newline.\<close>

function full_lines :: "string \<Rightarrow> string list" where
  "full_lines cs = (if newline \<in> set cs then takeWhile (\<lambda>c. c \<noteq> newline) cs # full_lines (tl (dropWhile (\<lambda>c. c \<noteq> newline) cs)) else [])"
  by pat_completeness auto
termination
proof (relation "measure length")
  fix cs :: string assume "newline \<in> set cs"
  then have "cs \<noteq> []" by auto
  have "length (tl (dropWhile (\<lambda>c. c \<noteq> newline) cs)) \<le> length cs - 1" using length_dropWhile_le [of _ cs] by (simp add: diff_le_mono)
  then show "(tl (dropWhile (\<lambda>c. c \<noteq> newline) cs), cs) \<in> measure length" using \<open>cs \<noteq> []\<close> by (cases cs) auto
qed simp

declare full_lines.simps [simp del]

lemma full_lines_line: "newline \<notin> set l \<Longrightarrow> full_lines (l @ newline # t) = l # full_lines t"
proof -
  assume l: "newline \<notin> set l"
  then have "takeWhile (\<lambda>c. c \<noteq> newline) (l @ newline # t) = l" "dropWhile (\<lambda>c. c \<noteq> newline) (l @ newline # t) = newline # t"
    by (subst takeWhile_append2 dropWhile_append2; auto)+
  then show ?thesis by (subst full_lines.simps) simp
qed

lemma full_lines_end: "newline \<notin> set l \<Longrightarrow> full_lines l = []"
  by (subst full_lines.simps) simp

definition selected :: "string \<Rightarrow> string \<Rightarrow> string list" where
  "selected pat cs = map (\<lambda>l. l @ [newline]) (filter (match pat) (full_lines cs))"

lemma grep_lines_text:
  assumes "CHR 0x00 \<notin> set c"
  shows "(\<exists>p b. grep_lines pat (length a) (a @ c @ CHR 0x00 # t) out = Inr (p, b, out @ selected pat c)) \<and>
    grep_lines pat (length a) (a @ c) out = Inl (Fault ''buf'')"
  using assms
proof (induction c arbitrary: a out rule: measure_induct_rule [of length])
  case (less c)
  show ?case
  proof (cases "newline \<in> set c")
    case False
    then show ?thesis using less.prems find_newline_simps(2) [of c a t] find_newline_simps(3) [of c a]
      by (simp add: grep_lines.simps selected_def full_lines_end)
  next
    case True
    then obtain l d where c: "c = l @ newline # d" "newline \<notin> set l" using split_list_first by metis
    have z: "CHR 0x00 \<notin> set l" "CHR 0x00 \<notin> set d" using less.prems c(1) by auto
    have sel: "selected pat c = (if match pat l then [l @ [newline]] else []) @ selected pat d"
      using c(2) by (simp add: c(1) selected_def full_lines_line)
    have step: "grep_lines pat (length a) (a @ c @ r) out =
      (if match pat l then grep_lines pat (length (a @ l @ [newline])) ((a @ l @ [newline]) @ d @ r) (out @ [l @ [newline]])
       else grep_lines pat (length (a @ l @ [CHR 0x00])) ((a @ l @ [CHR 0x00]) @ d @ r) out)" for r
      using find_newline_simps(1) [OF c(2) z(1), of a "d @ r"]
      by (subst grep_lines.simps) (simp add: c(1) list_update_append)
    have d: "length d < length c" by (simp add: c(1))
    show ?thesis
    proof (cases "match pat l")
      case True
      then show ?thesis using less.IH [OF d z(2), of "a @ l @ [newline]" "out @ [l @ [newline]]"] step [of "CHR 0x00 # t"] step [of "[]"]
        by (simp add: sel)
    next
      case False
      then show ?thesis using less.IH [OF d z(2), of "a @ l @ [CHR 0x00]" out] step [of "CHR 0x00 # t"] step [of "[]"]
        by (simp add: sel)
    qed
  qed
qed

section \<open>Counting\<close>

text \<open>\<open>wc\<close>: lines, words, characters and whether the last character was in a word.\<close>

definition wc_char :: "char \<Rightarrow> nat \<times> nat \<times> nat \<times> bool \<Rightarrow> nat \<times> nat \<times> nat \<times> bool" where
  "wc_char ch st = (case st of (l, w, c, inword) \<Rightarrow>
    let c = c + 1; l = (if ch = newline then l + 1 else l)
    in if ch \<in> {CHR '' '', CHR 0x0D, CHR 0x09, CHR 0x0A, CHR 0x0B} then (l, w, c, False)
       else if \<not> inword then (l, w + 1, c, True) else (l, w, c, inword))"

fun wc :: "string list \<Rightarrow> nat \<times> nat \<times> nat \<times> bool \<Rightarrow> nat \<times> nat \<times> nat" where
  "wc [] (l, w, c, inword) = (l, w, c)"
| "wc (b # bs) st = (if b = [] then wc [] st else wc bs (fold wc_char b st))"

text \<open>The chunking of the file does not matter.\<close>

lemma wc_chunks: "[] \<notin> set bs \<Longrightarrow> wc bs st = wc [concat bs] st"
proof (induction bs arbitrary: st)
  case (Cons b bs)
  then have "concat bs = [] \<Longrightarrow> bs = []" by (cases bs) auto
  then show ?case using Cons by (cases "concat bs = []") (auto simp: fold_append)
qed (cases st; simp)

section \<open>Properties\<close>

definition anchored :: "string \<Rightarrow> bool" where
  "anchored re \<longleftrightarrow> re \<noteq> [] \<and> hd re = CHR ''^''"

text \<open>
  C32. The matcher of \<open>grep\<close> is exact: a text matches an expression when it begins, or without a caret some end of it begins, with what the items of
  the expression describe: single characters, a dot for any, runs of a starred character, and a final dollar for the end of the text.
\<close>

lemma match_exact:
  "match re xs = (if anchored re then begins (items (tl re)) xs else \<exists>w z. xs = w @ z \<and> begins (items re) z)"
  by (cases re) (simp_all add: match_def anchored_def match_from_iff matchhere_iff del: items.simps matchhere.simps)

text \<open>
  The buffer of \<open>grep\<close>: a file that one read fetches and that leaves room in the buffer has exactly its matching lines printed, in order;
  a read that fills the buffer of 1024 bytes makes \<open>strchr\<close> run past its end.
\<close>

lemma grep_one_read:
  assumes "CHR 0x00 \<notin> set c" "c \<noteq> []" "length c \<le> 1024"
  shows "grep pat [c] 0 (replicate 1024 (CHR 0x00)) [] =
    (if length c < 1024 then Inr (selected pat c) else Inl (Fault ''buf''))"
proof -
  let ?n = "1024 - length c"
  have b: "take (nat 0) (replicate 1024 (CHR 0x00)) @ c @ drop (nat 0 + length c) (replicate 1024 (CHR 0x00)) = c @ replicate ?n (CHR 0x00)"
    by (simp add: drop_replicate)
  show ?thesis
  proof (cases "length c < 1024")
    case True
    then obtain k where k: "?n = Suc k" by (cases ?n) auto
    obtain p u where "grep_lines pat 0 (c @ replicate ?n (CHR 0x00)) [] = Inr (p, u, selected pat c)"
      using grep_lines_text [OF assms(1), of pat "[]" "replicate k (CHR 0x00)" "[]"] k by auto
    then show ?thesis using assms(2) True b by (simp add: Let_def)
  next
    case False
    then have "length c = 1024" using assms(3) by simp
    then show ?thesis using assms(2) b grep_lines_text [OF assms(1), of pat "[]" _ "[]"] by (simp add: Let_def)
  qed
qed

lemma grep_one_read_witness:
  "grep ''a'' [''ab'' @ [newline] @ ''cd'' @ [newline]] 0 (replicate 1024 (CHR 0x00)) [] = Inr [''ab'' @ [newline]]"
proof -
  have "selected ''a'' (''ab'' @ [newline] @ ''cd'' @ [newline]) = [''ab'' @ [newline]]" by code_simp
  then show ?thesis using grep_one_read [of "''ab'' @ [newline] @ ''cd'' @ [newline]" "''a''"] by simp
qed

end
