(* ===== verification/Sh.thy ===== *)
theory Sh imports Prelude
begin

text \<open>
  user/sh.c: the parser of the shell.  The command line is the list of its characters; a pointer \<open>s\<close> into it is what is left of the line,
  and \<open>es\<close> its end, where the terminating zero is.  The words of a command are the strings between \<open>q\<close> and \<open>eq\<close>, which
  \<open>nulterminate\<close> cuts out once the line is parsed.  \<open>panic\<close> prints its message and ends the shell's child; it is the value \<open>Panic\<close>.
\<close>

abbreviation MAXARGS :: nat where "MAXARGS \<equiv> 10"
abbreviation O_RDONLY :: nat where "O_RDONLY \<equiv> 0"
abbreviation O_WRONLY :: nat where "O_WRONLY \<equiv> 1"
abbreviation O_CREATE :: nat where "O_CREATE \<equiv> 0x200"

datatype cmd = EXEC "string list" | REDIR cmd string nat nat | PIPE cmd cmd | LIST cmd cmd | BACK cmd

section \<open>Tokens\<close>

definition whitespace :: "char \<Rightarrow> bool" where
  "whitespace c \<longleftrightarrow> c \<in> {CHR '' '', CHR 0x09, CHR 0x0D, CHR 0x0A, CHR 0x0B}"

definition symbols :: "char \<Rightarrow> bool" where
  "symbols c \<longleftrightarrow> c \<in> set ''<|>&;()''"

definition skip :: "string \<Rightarrow> string" where
  "skip s = dropWhile whitespace s"

text \<open>The kind of a token: end of the line, a symbol (\<open>+\<close> for two \<open>>\<close>), or a word.\<close>

datatype token = End | Sym char | Word

definition gettoken :: "string \<Rightarrow> token \<times> string \<times> string" where
  "gettoken s = (case skip s of [] \<Rightarrow> (End, [], [])
     | c # r \<Rightarrow>
       if c \<in> set ''|();&<'' then (Sym c, [c], skip r)
       else if c = CHR ''>'' then
         (if r \<noteq> [] \<and> hd r = CHR ''>'' then (Sym CHR ''+'', ''>>'', skip (tl r)) else (Sym c, [c], skip r))
       else let plain = (\<lambda>c. \<not> whitespace c \<and> \<not> symbols c)
         in (Word, takeWhile plain (c # r), skip (dropWhile plain (c # r))))"

definition peek :: "string \<Rightarrow> string \<Rightarrow> bool" where
  "peek s toks \<longleftrightarrow> skip s \<noteq> [] \<and> hd (skip s) \<in> set toks"

lemma length_skip: "length (skip s) \<le> length s"
  by (simp add: skip_def length_dropWhile_le)

lemma skip_skip [simp]: "skip (skip s) = skip s"
  unfolding skip_def by (cases "dropWhile whitespace s") (auto dest!: dropWhile_eq_Cons_conv [THEN iffD1] simp: hd_dropWhile)

lemma skip_head: "skip s = c # r \<Longrightarrow> \<not> whitespace c"
  unfolding skip_def by (simp add: dropWhile_eq_Cons_conv)

lemma gettoken_less: "gettoken s = (t, w, r) \<Longrightarrow> skip s \<noteq> [] \<Longrightarrow> length r < length s"
proof -
  assume a: "gettoken s = (t, w, r)" "skip s \<noteq> []"
  then obtain c u where c: "skip s = c # u" by (cases "skip s") auto
  have l: "length u < length s" using length_skip [of s] c by simp
  have sk: "length (skip v) < length s" if "length v < length s" for v using length_skip [of v] that by simp
  have dw: "length (dropWhile P v) < length s" if "length v < length s" for P v using length_dropWhile_le [of P v] that by simp
  have tl: "length (tl u) < length s" using l by simp
  have plain: "\<not> symbols c" if "c \<notin> set ''|();&<''" "c \<noteq> CHR ''>''" using that by (auto simp: symbols_def)
  show ?thesis using a(1) c sk [OF l] sk [OF tl] sk [OF dw [OF l]] skip_head [OF c] plain
    by (auto simp: gettoken_def Let_def split: if_splits)
qed

lemma gettoken_le: "gettoken s = (t, w, r) \<Longrightarrow> length r \<le> length s"
  using gettoken_less [of s t w r] by (cases "skip s = []") (auto simp: gettoken_def)

lemma peek_token_less: "peek s toks \<Longrightarrow> (t, w, r) = gettoken (skip s) \<Longrightarrow> length r < length s"
proof -
  assume a: "peek s toks" "(t, w, r) = gettoken (skip s)"
  then have "skip (skip s) \<noteq> []" by (simp add: peek_def)
  then have "length r < length (skip s)" using gettoken_less a(2) by metis
  then show ?thesis using length_skip [of s] by simp
qed

lemma two_tokens_less:
  "peek s toks \<Longrightarrow> (t, w, r) = gettoken (skip s) \<Longrightarrow> (t2, w2, r2) = gettoken r \<Longrightarrow> length r2 < length s"
  using peek_token_less [of s toks t w r] gettoken_le [of r t2 w2 r2] by simp

section \<open>The parser\<close>

text \<open>Redirections in the order in which they are read; each one is wrapped around the command before it.\<close>

type_synonym redir = "string \<times> nat \<times> nat"

definition wrap :: "cmd \<Rightarrow> redir list \<Rightarrow> cmd" where
  "wrap c rs = foldl (\<lambda>c (f, m, d). REDIR c f m d) c rs"

function parseredirs :: "redir list \<Rightarrow> string \<Rightarrow> (redir list \<times> string) res" where
  "parseredirs rs s =
    (if peek s ''<>'' then
       (case gettoken (skip s) of (tok, _, s1) \<Rightarrow> case gettoken s1 of (tok2, w, s2) \<Rightarrow>
          if tok2 \<noteq> Word then Inl (Panic ''missing file for redirection'')
          else if tok = Sym CHR ''<'' then parseredirs (rs @ [(w, O_RDONLY, 0)]) s2
          else if tok = Sym CHR ''>'' \<or> tok = Sym CHR ''+'' then parseredirs (rs @ [(w, O_WRONLY + O_CREATE, 1)]) s2
          else parseredirs rs s2)
     else Inr (rs, skip s))"
  by pat_completeness auto
termination
  by (relation "measure (\<lambda>(_, s). length s)") (auto intro: two_tokens_less)

declare parseredirs.simps [simp del]

lemma parseredirs_le: "parseredirs rs s = Inr (rs', r) \<Longrightarrow> length r \<le> length s"
proof (induction rs s rule: parseredirs.induct)
  case (1 rs s)
  show ?case
  proof (cases "peek s ''<>''")
    case False
    then show ?thesis using 1(4) length_skip [of s] by (subst (asm) parseredirs.simps) simp
  next
    case True
    obtain tok w1 s1 where t1: "gettoken (skip s) = (tok, w1, s1)" by (rule prod_cases3)
    obtain tok2 w s2 where t2: "gettoken s1 = (tok2, w, s2)" by (rule prod_cases3)
    have W: "tok2 = Word" using 1(4) True t1 t2 by (subst (asm) parseredirs.simps) (auto split: if_splits)
    have l: "length s2 \<le> length s" using gettoken_le [OF t1] gettoken_le [OF t2] length_skip [of s] by simp
    have "length r \<le> length s2"
      using 1(4) True t1 t2 W "1.IH" [OF True t1 [symmetric] _ t2 [symmetric]]
      by (subst (asm) parseredirs.simps) (auto split: if_splits)
    then show ?thesis using l by simp
  qed
qed

text \<open>The arguments of a command: \<open>args\<close> are those read so far.\<close>

function exec_args :: "string list \<Rightarrow> redir list \<Rightarrow> string \<Rightarrow> (cmd \<times> string) res" where
  "exec_args args rs s =
    (if peek s ''|)&;'' then Inr (wrap (EXEC args) rs, skip s)
     else case gettoken (skip s) of (tok, w, s1) \<Rightarrow>
       if tok = End then Inr (wrap (EXEC args) rs, s1)
       else if tok \<noteq> Word then Inl (Panic ''syntax'')
       else if MAXARGS \<le> length args + 1 then Inl (Panic ''too many args'')
       else (case parseredirs rs s1 of Inl e \<Rightarrow> Inl e | Inr (rs, s2) \<Rightarrow> exec_args (args @ [w]) rs s2))"
  by pat_completeness auto
termination
proof (relation "measure (\<lambda>(_, _, s). length s)"; clarsimp)
  show "length s2 < length s"
    if "(Word, w, s1) = gettoken (skip s)" "parseredirs rs s1 = Inr (rs', s2)" for s w s1 rs rs' s2
  proof -
    have "skip (skip s) \<noteq> []" using that(1) by (auto simp: gettoken_def)
    then have "length s1 < length (skip s)" using gettoken_less that(1) by metis
    then show ?thesis using parseredirs_le [OF that(2)] length_skip [of s] by simp
  qed
qed

declare exec_args.simps [simp del]

text \<open>The \<open>&\<close> signs after a pipeline.\<close>

function parse_backs :: "cmd \<Rightarrow> string \<Rightarrow> cmd \<times> string" where
  "parse_backs c s = (if peek s ''&'' then (case gettoken (skip s) of (_, _, s1) \<Rightarrow> parse_backs (BACK c) s1) else (c, skip s))"
  by pat_completeness auto
termination
  by (relation "measure (\<lambda>(_, s). length s)") (auto intro: peek_token_less)

declare parse_backs.simps [simp del]

text \<open>
  The mutually recursive functions; the recursion may nest as deep as the line is long, so they take fuel and fail with \<open>Fault\<close> without.
\<close>

fun parseline :: "nat \<Rightarrow> string \<Rightarrow> (cmd \<times> string) res"
  and parsepipe :: "nat \<Rightarrow> string \<Rightarrow> (cmd \<times> string) res"
  and parseexec :: "nat \<Rightarrow> string \<Rightarrow> (cmd \<times> string) res"
  and parseblock :: "nat \<Rightarrow> string \<Rightarrow> (cmd \<times> string) res" where
  "parseline 0 s = Inl (Fault ''fuel'')"
| "parseline (Suc n) s = kbind (parsepipe n s) (\<lambda>(c, s).
     let (c, s) = parse_backs c s in
     if peek s '';'' then (case gettoken (skip s) of (_, _, s1) \<Rightarrow> kbind (parseline n s1) (\<lambda>(d, s). Inr (LIST c d, s)))
     else Inr (c, skip s))"
| "parsepipe 0 s = Inl (Fault ''fuel'')"
| "parsepipe (Suc n) s = kbind (parseexec n s) (\<lambda>(c, s).
     if peek s ''|'' then (case gettoken (skip s) of (_, _, s1) \<Rightarrow> kbind (parsepipe n s1) (\<lambda>(d, s). Inr (PIPE c d, s)))
     else Inr (c, skip s))"
| "parseexec 0 s = Inl (Fault ''fuel'')"
| "parseexec (Suc n) s =
     (if peek s ''('' then parseblock n (skip s)
      else kbind (parseredirs [] (skip s)) (\<lambda>(rs, s). exec_args [] rs s))"
| "parseblock 0 s = Inl (Fault ''fuel'')"
| "parseblock (Suc n) s =
     (if \<not> peek s ''('' then Inl (Panic ''parseblock'')
      else case gettoken (skip s) of (_, _, s1) \<Rightarrow> kbind (parseline n s1) (\<lambda>(c, s).
        if \<not> peek s '')'' then Inl (Panic ''syntax - missing )'')
        else case gettoken (skip s) of (_, _, s1) \<Rightarrow> kbind (parseredirs [] s1) (\<lambda>(rs, s). Inr (wrap c rs, s))))"

definition parsecmd :: "string \<Rightarrow> cmd res" where
  "parsecmd s = kbind (parseline (4 * length s + 4) s) (\<lambda>(c, s). if skip s \<noteq> [] then Inl (Panic ''syntax'') else Inr c)"

section \<open>Termination\<close>

lemma skip_le: "length s \<le> n \<Longrightarrow> length (skip s) \<le> n"
  using length_skip [of s] by simp

lemma exec_args_le: "exec_args args rs s = Inr (c, r) \<Longrightarrow> length r \<le> length s"
proof (induction args rs s rule: exec_args.induct)
  case (1 args rs s)
  obtain tok w s1 where t: "gettoken (skip s) = (tok, w, s1)" by (rule prod_cases3)
  have s1: "length s1 \<le> length s" using gettoken_le [OF t] length_skip [of s] by simp
  show ?case
  proof (cases "peek s ''|)&;'' \<or> tok = End")
    case True
    then show ?thesis using 1(2) t s1 length_skip [of s] by (subst (asm) exec_args.simps) (auto split: if_splits)
  next
    case False
    then obtain rs' s2 where r: "tok = Word" "\<not> MAXARGS \<le> length args + 1" "parseredirs rs s1 = Inr (rs', s2)"
      "exec_args (args @ [w]) rs' s2 = Inr (c, r)"
      using 1(2) t by (subst (asm) exec_args.simps) (auto split: if_splits sum.splits prod.splits)
    have "length r \<le> length s2" using "1.IH" [OF _ t [symmetric] refl _ _ _ r(3) refl r(4)] False r(1,2) by simp
    then show ?thesis using parseredirs_le [OF r(3)] s1 by simp
  qed
qed

lemma parse_backs_le: "length (snd (parse_backs c s)) \<le> length s"
proof (induction c s rule: parse_backs.induct)
  case (1 c s)
  obtain t w s1 where t: "gettoken (skip s) = (t, w, s1)" by (rule prod_cases3)
  show ?case
  proof (cases "peek s ''&''")
    case True
    have "length s1 \<le> length s" using gettoken_le [OF t] length_skip [of s] by simp
    then show ?thesis using "1.IH" [OF True t [symmetric] refl] True t by (subst parse_backs.simps) simp
  next
    case False
    then show ?thesis using length_skip [of s] by (subst parse_backs.simps) simp
  qed
qed

text \<open>No call returns more than it was given; a block returns less.\<close>

lemma parse_le:
  "parseline n s = Inr (c, r) \<Longrightarrow> length r \<le> length s"
  "parsepipe n s = Inr (c, r) \<Longrightarrow> length r \<le> length s"
  "parseexec n s = Inr (c, r) \<Longrightarrow> length r \<le> length s"
  "parseblock n s = Inr (c, r) \<Longrightarrow> length r \<le> length s"
proof (induction n arbitrary: s c r)
  case 0
  { case 1 then show ?case by simp next case 2 then show ?case by simp next case 3 then show ?case by simp next case 4 then show ?case by simp }
next
  case (Suc n)
  { case 1
    then obtain c1 s1 where p: "parsepipe n s = Inr (c1, s1)" by (auto elim!: kbind_InrE)
    obtain c2 s2 where b: "parse_backs c1 s1 = (c2, s2)" by (rule prod.exhaust)
    obtain t w s3 where t: "gettoken (skip s2) = (t, w, s3)" by (rule prod_cases3)
    have l: "length s2 \<le> length s" using Suc(2) [OF p] parse_backs_le [of c1 s1] b by simp
    show ?case
    proof (cases "peek s2 '';''")
      case True
      then obtain d where "parseline n s3 = Inr (d, r)" using 1 p b t by (auto elim!: kbind_InrE)
      then show ?thesis using Suc(1) [of s3 d r] gettoken_le [OF t] length_skip [of s2] l by simp
    next
      case False
      then show ?thesis using 1 p b l length_skip [of s2] by simp
    qed
  next
    case 2
    then obtain c1 s2 where p: "parseexec n s = Inr (c1, s2)" by (auto elim!: kbind_InrE)
    obtain t w s3 where t: "gettoken (skip s2) = (t, w, s3)" by (rule prod_cases3)
    have l: "length s2 \<le> length s" using Suc(3) [OF p] .
    show ?case
    proof (cases "peek s2 ''|''")
      case True
      then obtain d where "parsepipe n s3 = Inr (d, r)" using 2 p t by (auto elim!: kbind_InrE)
      then show ?thesis using Suc(2) [of s3 d r] gettoken_le [OF t] length_skip [of s2] l by simp
    next
      case False
      then show ?thesis using 2 p l length_skip [of s2] by simp
    qed
  next
    case 3
    show ?case
    proof (cases "peek s ''(''")
      case True
      then show ?thesis using 3 Suc(4) [of "skip s" c r] length_skip [of s] by simp
    next
      case False
      then obtain rs s1 where p: "parseredirs [] (skip s) = Inr (rs, s1)" "exec_args [] rs s1 = Inr (c, r)"
        using 3 by (auto elim!: kbind_InrE)
      then show ?thesis using parseredirs_le [OF p(1)] exec_args_le [OF p(2)] length_skip [of s] by simp
    qed
  next
    case 4
    obtain t w s1 where t: "gettoken (skip s) = (t, w, s1)" by (rule prod_cases3)
    from 4 t obtain c1 s2 where p: "parseline n s1 = Inr (c1, s2)" "peek s2 '')''" by (auto elim!: kbind_InrE split: if_splits)
    obtain t' w' s3 where t': "gettoken (skip s2) = (t', w', s3)" by (rule prod_cases3)
    from 4 t p t' obtain rs where r: "parseredirs [] s3 = Inr (rs, r)" by (auto elim!: kbind_InrE split: if_splits)
    show ?case using parseredirs_le [OF r] gettoken_le [OF t'] length_skip [of s2] Suc(1) [OF p(1)] gettoken_le [OF t] length_skip [of s]
      by simp
  }
qed

text \<open>With fuel for four calls a character the parser never runs out of it.\<close>

abbreviation no_fuel :: "'a res" where "no_fuel \<equiv> Inl (Fault ''fuel'')"

lemma kbind_no_fuel: "kbind r f = no_fuel \<Longrightarrow> r = no_fuel \<or> (\<exists>x. r = Inr x \<and> f x = no_fuel)"
  by (cases r) auto

lemma parseredirs_fuel: "parseredirs rs s \<noteq> no_fuel"
proof (induction rs s rule: parseredirs.induct)
  case (1 rs s)
  show ?case using 1 by (subst parseredirs.simps) (auto split: prod.split)
qed

lemma exec_args_fuel: "exec_args args rs s \<noteq> no_fuel"
proof (induction args rs s rule: exec_args.induct)
  case (1 args rs s)
  show ?case using 1 parseredirs_fuel by (subst exec_args.simps) (auto split: prod.split sum.split)
qed

lemma parse_fuel:
  "4 * length s + 4 \<le> n \<Longrightarrow> parseline n s \<noteq> no_fuel"
  "4 * length s + 3 \<le> n \<Longrightarrow> parsepipe n s \<noteq> no_fuel"
  "4 * length s + 2 \<le> n \<Longrightarrow> parseexec n s \<noteq> no_fuel"
  "4 * length s + 1 \<le> n \<Longrightarrow> parseblock n s \<noteq> no_fuel"
proof (induction n arbitrary: s)
  case (Suc n)
  { case 1
    show ?case
    proof
      assume "parseline (Suc n) s = no_fuel"
      moreover have "parsepipe n s \<noteq> no_fuel" using 1 by (intro Suc(2)) simp
      ultimately obtain c1 s1 where p: "parsepipe n s = Inr (c1, s1)"
        and k: "(let (c, s) = parse_backs c1 s1 in
          if peek s '';'' then (case gettoken (skip s) of (_, _, s1) \<Rightarrow> kbind (parseline n s1) (\<lambda>(d, s). Inr (LIST c d, s)))
          else Inr (c, skip s)) = no_fuel"
        by (auto dest!: kbind_no_fuel)
      obtain c2 s2 where b: "parse_backs c1 s1 = (c2, s2)" by (rule prod.exhaust)
      obtain t w s3 where t: "gettoken (skip s2) = (t, w, s3)" by (rule prod_cases3)
      have "peek s2 '';''" "parseline n s3 = no_fuel" using k b t by (auto split: if_splits dest!: kbind_no_fuel)
      moreover have "length s2 \<le> length s" using parse_le(2) [OF p] parse_backs_le [of c1 s1] b by simp
      ultimately show False using Suc(1) [of s3] peek_token_less [of s2 "'';''" t w s3] t 1 by simp
    qed
  next
    case 2
    show ?case
    proof
      assume "parsepipe (Suc n) s = no_fuel"
      moreover have "parseexec n s \<noteq> no_fuel" using 2 by (intro Suc(3)) simp
      ultimately obtain c1 s2 where p: "parseexec n s = Inr (c1, s2)"
        and k: "(if peek s2 ''|'' then (case gettoken (skip s2) of (_, _, s1) \<Rightarrow> kbind (parsepipe n s1) (\<lambda>(d, s). Inr (PIPE c1 d, s)))
          else Inr (c1, skip s2)) = no_fuel"
        by (auto dest!: kbind_no_fuel)
      obtain t w s3 where t: "gettoken (skip s2) = (t, w, s3)" by (rule prod_cases3)
      have "peek s2 ''|''" "parsepipe n s3 = no_fuel" using k t by (auto split: if_splits dest!: kbind_no_fuel)
      moreover have "length s2 \<le> length s" using parse_le(3) [OF p] by simp
      ultimately show False using Suc(2) [of s3] peek_token_less [of s2 "''|''" t w s3] t 2 by simp
    qed
  next
    case 3
    have "parseblock n (skip s) \<noteq> no_fuel" using 3 length_skip [of s] by (intro Suc(4)) simp
    then show ?case using parseredirs_fuel exec_args_fuel by (auto dest!: kbind_no_fuel)
  next
    case 4
    obtain t w s1 where t: "gettoken (skip s) = (t, w, s1)" by (rule prod_cases3)
    have "parseline n s1 \<noteq> no_fuel" if "peek s ''(''"
      using 4 peek_token_less [OF that t [symmetric]] by (intro Suc(1)) simp
    then show ?case using t parseredirs_fuel by (auto split: if_splits prod.splits dest!: kbind_no_fuel)
  }
qed simp_all

text \<open>More fuel changes nothing.\<close>

lemma kbind_more: "(r \<noteq> no_fuel \<Longrightarrow> r' = r) \<Longrightarrow> (\<And>x. r = Inr x \<Longrightarrow> f x \<noteq> no_fuel \<Longrightarrow> g x = f x) \<Longrightarrow> kbind r f \<noteq> no_fuel \<Longrightarrow> kbind r' g = kbind r f"
  by (cases r) auto

lemma parse_more:
  "parseline n s \<noteq> no_fuel \<Longrightarrow> parseline (Suc n) s = parseline n s"
  "parsepipe n s \<noteq> no_fuel \<Longrightarrow> parsepipe (Suc n) s = parsepipe n s"
  "parseexec n s \<noteq> no_fuel \<Longrightarrow> parseexec (Suc n) s = parseexec n s"
  "parseblock n s \<noteq> no_fuel \<Longrightarrow> parseblock (Suc n) s = parseblock n s"
proof (induction n arbitrary: s)
  case (Suc n)
  { case 1
    then show ?case unfolding parseline.simps(2) [of "Suc n" s] parseline.simps(2) [of n s]
      by (rule kbind_more [OF Suc(2), rotated 2]) (auto simp: Let_def simp del: parseline.simps split: prod.splits if_splits intro!: kbind_more Suc(1))
  next
    case 2
    then show ?case unfolding parsepipe.simps(2) [of "Suc n" s] parsepipe.simps(2) [of n s]
      by (rule kbind_more [OF Suc(3), rotated 2]) (auto simp del: parsepipe.simps split: prod.splits if_splits intro!: kbind_more Suc(2))
  next
    case 3
    then show ?case unfolding parseexec.simps(2) [of "Suc n" s] parseexec.simps(2) [of n s] using Suc(4) [of "skip s"] by (auto simp del: parseblock.simps split: if_splits)
  next
    case 4
    then show ?case unfolding parseblock.simps(2) [of "Suc n" s] parseblock.simps(2) [of n s]
      by (auto simp del: parseline.simps split: prod.splits if_splits intro!: kbind_more Suc(1))
  }
qed simp_all

lemma parse_fuel_mono:
  assumes "m \<le> n"
  shows "parseline m s \<noteq> no_fuel \<Longrightarrow> parseline n s = parseline m s"
    and "parsepipe m s \<noteq> no_fuel \<Longrightarrow> parsepipe n s = parsepipe m s"
    and "parseexec m s \<noteq> no_fuel \<Longrightarrow> parseexec n s = parseexec m s"
    and "parseblock m s \<noteq> no_fuel \<Longrightarrow> parseblock n s = parseblock m s"
proof -
  show "parseline m s \<noteq> no_fuel \<Longrightarrow> parseline n s = parseline m s" using assms by (induction rule: dec_induct) (simp_all add: parse_more del: parseline.simps)
  show "parsepipe m s \<noteq> no_fuel \<Longrightarrow> parsepipe n s = parsepipe m s" using assms by (induction rule: dec_induct) (simp_all add: parse_more del: parsepipe.simps)
  show "parseexec m s \<noteq> no_fuel \<Longrightarrow> parseexec n s = parseexec m s" using assms by (induction rule: dec_induct) (simp_all add: parse_more del: parseexec.simps)
  show "parseblock m s \<noteq> no_fuel \<Longrightarrow> parseblock n s = parseblock m s" using assms by (induction rule: dec_induct) (simp_all add: parse_more del: parseblock.simps)
qed

section \<open>Printing and parsing\<close>

text \<open>
  Commands written out as the parser reads them: \<open>k\<close> is the place of the command, in a line (0), before \<open>&\<close> (1), in a pipeline (2) or
  alone (3), and what does not fit in its place is put into parentheses.
\<close>

definition word :: "string \<Rightarrow> bool" where
  "word w \<longleftrightarrow> w \<noteq> [] \<and> (\<forall>c \<in> set w. \<not> whitespace c \<and> \<not> symbols c)"

definition show_redir :: "string \<Rightarrow> nat \<Rightarrow> string" where
  "show_redir f m = (if m = O_RDONLY then CHR ''<'' else CHR ''>'') # f @ '' ''"

fun show_cmd :: "nat \<Rightarrow> cmd \<Rightarrow> string" where
  "show_cmd k (EXEC args) = concat (map (\<lambda>a. a @ '' '') args)"
| "show_cmd k (REDIR c f m d) = show_cmd 3 c @ show_redir f m"
| "show_cmd k (PIPE a b) = (let s = show_cmd 3 a @ ''|'' @ show_cmd 2 b in if k \<le> 2 then s else ''('' @ s @ '')'')"
| "show_cmd k (BACK a) = (let s = show_cmd 1 a @ ''&'' in if k \<le> 1 then s else ''('' @ s @ '')'')"
| "show_cmd k (LIST a b) = (let s = show_cmd 1 a @ '';'' @ show_cmd 0 b in if k = 0 then s else ''('' @ s @ '')'')"

fun cmd_ok :: "cmd \<Rightarrow> bool" where
  "cmd_ok (EXEC args) \<longleftrightarrow> length args < MAXARGS \<and> (\<forall>a \<in> set args. word a)"
| "cmd_ok (REDIR c f m d) \<longleftrightarrow> cmd_ok c \<and> word f \<and> (m, d) \<in> {(O_RDONLY, 0), (O_WRONLY + O_CREATE, 1)}"
| "cmd_ok (PIPE a b) \<longleftrightarrow> cmd_ok a \<and> cmd_ok b"
| "cmd_ok (BACK a) \<longleftrightarrow> cmd_ok a"
| "cmd_ok (LIST a b) \<longleftrightarrow> cmd_ok a \<and> cmd_ok b"

definition show_redirs :: "redir list \<Rightarrow> string" where
  "show_redirs rs = concat (map (\<lambda>(f, m, d). show_redir f m) rs)"

definition redirs_ok :: "redir list \<Rightarrow> bool" where
  "redirs_ok rs \<longleftrightarrow> (\<forall>(f, m, d) \<in> set rs. word f \<and> (m, d) \<in> {(O_RDONLY, 0), (O_WRONLY + O_CREATE, 1)})"

text \<open>What may follow.\<close>

definition follows :: "string \<Rightarrow> string \<Rightarrow> bool" where
  "follows r toks \<longleftrightarrow> skip r = r \<and> (r = [] \<or> hd r \<in> set toks)"

lemma skip_Nil [simp]: "skip [] = []"
  by (simp add: skip_def)

lemma skip_Cons: "skip (c # r) = (if whitespace c then skip r else c # r)"
  by (simp add: skip_def)

lemma ws_symbols: "symbols c \<Longrightarrow> \<not> whitespace c"
  by (auto simp: symbols_def whitespace_def)

lemma skip_symbol: "symbols c \<Longrightarrow> skip (c # r) = c # r"
  by (simp add: skip_Cons ws_symbols)

lemma skip_word: "word w \<Longrightarrow> skip (w @ r) = w @ r"
  by (cases w) (auto simp: word_def skip_Cons)

lemma peek_Cons: "\<not> whitespace c \<Longrightarrow> peek (c # r) toks \<longleftrightarrow> c \<in> set toks"
  by (simp add: peek_def skip_Cons)

lemma peek_Nil [simp]: "peek [] toks = False"
  by (simp add: peek_def)

lemma peek_word: "word w \<Longrightarrow> \<forall>t \<in> set toks. symbols t \<Longrightarrow> \<not> peek (w @ r) toks"
  by (cases w) (auto simp: word_def peek_Cons)

lemma peek_follows: "follows r toks \<Longrightarrow> peek r ts \<longleftrightarrow> r \<noteq> [] \<and> hd r \<in> set ts"
  by (auto simp: follows_def peek_def)

lemma follows_sub: "follows r ts \<Longrightarrow> set ts \<subseteq> set us \<Longrightarrow> follows r us"
  by (auto simp: follows_def)

lemma follows_Cons: "symbols c \<Longrightarrow> c \<in> set ts \<Longrightarrow> follows (c # r) ts"
  by (simp add: follows_def skip_symbol)

lemma gettoken_word: "word w \<Longrightarrow> gettoken (w @ CHR '' '' # r) = (Word, w, skip r)"
proof -
  assume w: "word w"
  then obtain c u where c: "w = c # u" "\<not> whitespace c" "\<not> symbols c" by (cases w) (auto simp: word_def)
  let ?P = "\<lambda>c. \<not> whitespace c \<and> \<not> symbols c"
  have P: "\<forall>c \<in> set w. ?P c" "\<not> ?P CHR '' ''" using w by (auto simp: word_def whitespace_def)
  then have "takeWhile ?P (w @ CHR '' '' # r) = w" "dropWhile ?P (w @ CHR '' '' # r) = CHR '' '' # r"
    using P(2) by (auto simp: takeWhile_append2 dropWhile_append2)
  moreover have "c \<notin> set ''|();&<''" "c \<noteq> CHR ''>''" using c(3) by (auto simp: symbols_def)
  moreover have "skip (CHR '' '' # r) = skip r" by (simp add: skip_Cons whitespace_def)
  moreover have "skip (w @ CHR '' '' # r) = c # u @ CHR '' '' # r" using skip_word [OF w] c(1) by simp
  ultimately show ?thesis unfolding gettoken_def using c(1) by (simp add: Let_def)
qed

lemma gettoken_symbol: "c \<in> set ''|();&<'' \<Longrightarrow> gettoken (c # r) = (Sym c, [c], skip r)"
proof -
  assume c: "c \<in> set ''|();&<''"
  then have "symbols c" by (auto simp: symbols_def)
  then show ?thesis using c skip_symbol [of c r] by (simp add: gettoken_def)
qed

lemma gettoken_out: "r = [] \<or> hd r \<noteq> CHR ''>'' \<Longrightarrow> gettoken (CHR ''>'' # r) = (Sym CHR ''>'', ''>'', skip r)"
  using skip_symbol [of "CHR ''>''" r] by (auto simp: gettoken_def symbols_def)

lemma gettoken_redir:
  assumes "word f"
  shows "gettoken (show_redir f m @ r) = (Sym (if m = O_RDONLY then CHR ''<'' else CHR ''>''), [if m = O_RDONLY then CHR ''<'' else CHR ''>''], f @ CHR '' '' # r)"
proof -
  have "hd (f @ CHR '' '' # r) \<noteq> CHR ''>''" using assms by (cases f) (auto simp: word_def symbols_def)
  then show ?thesis using gettoken_symbol [of "CHR ''<''" "f @ CHR '' '' # r"] gettoken_out [of "f @ CHR '' '' # r"] skip_word [OF assms]
    by (simp add: show_redir_def)
qed

lemma parseredirs_show:
  assumes "redirs_ok rs" "skip r = r" "\<not> peek r ''<>''"
  shows "parseredirs rs0 (skip (show_redirs rs @ r)) = Inr (rs0 @ rs, r)"
  using assms(1)
proof (induction rs arbitrary: rs0)
  case Nil
  then show ?case using assms(2,3) by (subst parseredirs.simps) (simp add: show_redirs_def)
next
  case (Cons x rs)
  obtain f m d where x: "x = (f, m, d)" by (rule prod_cases3)
  have f: "word f" "(m = O_RDONLY \<and> d = 0) \<or> (m = O_WRONLY + O_CREATE \<and> d = 1)" "redirs_ok rs"
    using Cons.prems x by (auto simp: redirs_ok_def)
  let ?t = "show_redirs rs @ r"
  let ?c = "if m = O_RDONLY then CHR ''<'' else CHR ''>''"
  have s: "show_redirs (x # rs) @ r = show_redir f m @ ?t" by (simp add: show_redirs_def x)
  have sk: "skip (show_redir f m @ ?t) = show_redir f m @ ?t" by (simp add: show_redir_def skip_symbol symbols_def)
  have pk: "peek (show_redir f m @ ?t) ''<>''" by (simp add: show_redir_def peek_Cons ws_symbols symbols_def)
  have t1: "gettoken (show_redir f m @ ?t) = (Sym ?c, [?c], f @ CHR '' '' # ?t)" by (rule gettoken_redir [OF f(1)])
  have t2: "gettoken (f @ CHR '' '' # ?t) = (Word, f, skip ?t)" by (rule gettoken_word [OF f(1)])
  have "parseredirs rs0 (show_redir f m @ ?t) = parseredirs (rs0 @ [x]) (skip ?t)"
    using f(2) x pk t1 t2 sk by (subst parseredirs.simps) auto
  then show ?case using Cons.IH [OF f(3), of "rs0 @ [x]"] unfolding s sk by simp
qed

lemma exec_args_end:
  assumes "follows r ''|)&;''"
  shows "exec_args args rs r = Inr (wrap (EXEC args) rs, r)"
proof (cases r)
  case Nil
  then show ?thesis by (subst exec_args.simps) (simp add: gettoken_def)
next
  case (Cons c u)
  then show ?thesis using assms peek_follows [OF assms, of "''|)&;''"] by (subst exec_args.simps) (simp add: follows_def)
qed

lemma no_redir: "follows r ''|)&;'' \<Longrightarrow> \<not> peek r ''<>''"
  using peek_follows [of r "''|)&;''" "''<>''"] by (auto simp: follows_def)

lemma exec_args_show:
  assumes "follows r ''|)&;''" "redirs_ok rs" "\<forall>a \<in> set args. word a" "args \<noteq> []" "length args0 + length args < MAXARGS"
  shows "exec_args args0 [] (concat (map (\<lambda>a. a @ '' '') args) @ show_redirs rs @ r) = Inr (wrap (EXEC (args0 @ args)) rs, r)"
  using assms(3,4,5)
proof (induction args arbitrary: args0)
  case (Cons a args)
  let ?t = "concat (map (\<lambda>a. a @ '' '') args) @ show_redirs rs @ r"
  have a: "word a" using Cons.prems(1) by simp
  have pk: "\<not> peek (a @ CHR '' '' # ?t) ''|)&;''" by (rule peek_word [OF a]) (simp add: symbols_def)
  have t: "gettoken (a @ CHR '' '' # ?t) = (Word, a, skip ?t)" by (rule gettoken_word [OF a])
  have step: "exec_args args0 [] (a @ CHR '' '' # ?t) =
      (case parseredirs [] (skip ?t) of Inl e \<Rightarrow> Inl e | Inr (rs, s2) \<Rightarrow> exec_args (args0 @ [a]) rs s2)"
    using pk t Cons.prems(3) skip_word [OF a] by (subst exec_args.simps) simp
  have sk: "skip r = r" using assms(1) by (simp add: follows_def)
  show ?case
  proof (cases args)
    case Nil
    have "parseredirs [] (skip ?t) = Inr (rs, r)"
      using parseredirs_show [OF assms(2) sk no_redir [OF assms(1)], of "[]"] Nil by simp
    then show ?thesis using step exec_args_end [OF assms(1)] Nil by simp
  next
    case (Cons b bs)
    then have b: "word b" using Cons.prems(1) by simp
    have t': "?t = b @ CHR '' '' # concat (map (\<lambda>a. a @ '' '') bs) @ show_redirs rs @ r" using Cons by simp
    have "skip ?t = ?t" unfolding t' by (rule skip_word [OF b])
    moreover have "\<not> peek ?t ''<>''" unfolding t' by (rule peek_word [OF b]) (simp add: symbols_def)
    ultimately have "parseredirs [] (skip ?t) = Inr ([], ?t)" by (subst parseredirs.simps) simp
    then show ?thesis using step Cons.IH [of "args0 @ [a]"] Cons.prems Cons by simp
  qed
qed simp

lemma wrap_simps [simp]: "wrap c [] = c" "wrap c ((f, m, d) # rs) = wrap (REDIR c f m d) rs"
  by (simp_all add: wrap_def)

lemma skip_show: "cmd_ok c \<Longrightarrow> skip r = r \<Longrightarrow> skip (show_cmd k c @ r) = show_cmd k c @ r"
proof (induction c arbitrary: k r)
  case (EXEC args)
  then show ?case by (cases args) (auto simp: skip_word)
next
  case (REDIR c f m d)
  have "skip (show_redir f m @ r) = show_redir f m @ r" by (simp add: show_redir_def skip_symbol symbols_def)
  then show ?case using REDIR.IH [of "show_redir f m @ r" 3] REDIR.prems by simp
next
  case (PIPE a b)
  then show ?case using PIPE.IH(1) [of "CHR ''|'' # show_cmd 2 b @ r" 3] by (simp add: Let_def skip_symbol symbols_def)
next
  case (LIST a b)
  then show ?case using LIST.IH(1) [of "CHR '';'' # show_cmd 0 b @ r" 1] by (simp add: Let_def skip_symbol symbols_def)
next
  case (BACK a)
  then show ?case using BACK.IH(1) [of "CHR ''&'' # r" 1] by (simp add: Let_def skip_symbol symbols_def)
qed


text \<open>The four statements of the round trip, each for some amount of fuel.\<close>

definition rt_exec :: "cmd \<Rightarrow> bool" where
  "rt_exec c \<longleftrightarrow> (\<forall>rs r. redirs_ok rs \<longrightarrow> follows r ''|)&;'' \<longrightarrow>
    (\<exists>n. parseexec n (show_cmd 3 c @ show_redirs rs @ r) = Inr (wrap c rs, r)))"

definition rt_pipe :: "cmd \<Rightarrow> bool" where
  "rt_pipe c \<longleftrightarrow> (\<forall>r. follows r '')&;'' \<longrightarrow> (\<exists>n. parsepipe n (show_cmd 2 c @ r) = Inr (c, r)))"

definition rt_back :: "cmd \<Rightarrow> bool" where
  "rt_back c \<longleftrightarrow> (\<forall>r. follows r '')&;'' \<longrightarrow>
    (\<exists>n b s. parsepipe n (show_cmd 1 c @ r) = Inr (b, s) \<and> parse_backs b s = parse_backs c r))"

definition rt_line :: "cmd \<Rightarrow> bool" where
  "rt_line c \<longleftrightarrow> (\<forall>r. follows r '')'' \<longrightarrow> (\<exists>n. parseline n (show_cmd 0 c @ r) = Inr (c, r)))"

lemma fuel_pipe: "parsepipe m s = Inr x \<Longrightarrow> m \<le> n \<Longrightarrow> parsepipe n s = Inr x"
  using parse_fuel_mono(2) [of m n s] by simp

lemma fuel_line: "parseline m s = Inr x \<Longrightarrow> m \<le> n \<Longrightarrow> parseline n s = Inr x"
  using parse_fuel_mono(1) [of m n s] by simp

lemma fuel_exec: "parseexec m s = Inr x \<Longrightarrow> m \<le> n \<Longrightarrow> parseexec n s = Inr x"
  using parse_fuel_mono(3) [of m n s] by simp

lemma show_redirs_Nil [simp]: "show_redirs [] = []" "redirs_ok []"
  by (simp_all add: show_redirs_def redirs_ok_def)

lemma rt_exec_EXEC: "cmd_ok (EXEC args) \<Longrightarrow> rt_exec (EXEC args)"
  unfolding rt_exec_def
proof (intro allI impI)
  fix rs r assume a: "cmd_ok (EXEC args)" "redirs_ok rs" "follows r ''|)&;''"
  have sk: "skip r = r" using a(3) by (simp add: follows_def)
  let ?s = "show_cmd 3 (EXEC args) @ show_redirs rs @ r"
  have redirs: "\<not> peek (show_redirs rs @ r) ''(''" "skip (show_redirs rs @ r) = show_redirs rs @ r"
  proof -
    have "show_redirs rs @ r = r \<or> (\<exists>c t. show_redirs rs @ r = c # t \<and> c \<in> set ''<>'')"
      by (cases rs) (auto simp: show_redirs_def show_redir_def split: prod.split)
    then show "\<not> peek (show_redirs rs @ r) ''(''" "skip (show_redirs rs @ r) = show_redirs rs @ r"
      using peek_follows [OF a(3), of "''(''"] a(3) sk by (auto simp: peek_Cons skip_symbol symbols_def ws_symbols follows_def)
  qed
  have "parseexec 1 ?s = Inr (wrap (EXEC args) rs, r)"
  proof (cases args)
    case Nil
    have "parseredirs [] (skip (show_redirs rs @ r)) = Inr (rs, r)"
      using parseredirs_show [OF a(2) sk no_redir [OF a(3)], of "[]"] by simp
    then show ?thesis using Nil redirs(1) exec_args_end [OF a(3)] by simp
  next
    case (Cons b bs)
    then have b: "word b" using a(1) by simp
    have s: "?s = b @ CHR '' '' # concat (map (\<lambda>a. a @ '' '') bs) @ show_redirs rs @ r" using Cons by simp
    have "skip ?s = ?s" "\<not> peek ?s ''(''" "\<not> peek ?s ''<>''"
      unfolding s by (rule skip_word [OF b], (rule peek_word [OF b], simp add: symbols_def)+)
    moreover have "exec_args [] [] ?s = Inr (wrap (EXEC args) rs, r)"
      using exec_args_show [OF a(3,2), of args "[]"] a(1) Cons by simp
    moreover have "parseredirs [] ?s = Inr ([], ?s)" using calculation(1,3) by (subst parseredirs.simps) simp
    ultimately show ?thesis by simp
  qed
  then show "\<exists>n. parseexec n ?s = Inr (wrap (EXEC args) rs, r)" ..
qed

lemma rt_exec_block:
  assumes "rt_line c" "cmd_ok c" "show_cmd 3 c = ''('' @ show_cmd 0 c @ '')''"
  shows "rt_exec c"
  unfolding rt_exec_def
proof (intro allI impI)
  fix rs r assume a: "redirs_ok rs" "follows r ''|)&;''"
  let ?t = "CHR '')'' # show_redirs rs @ r"
  let ?s = "CHR ''('' # show_cmd 0 c @ ?t"
  have "follows ?t '')''" by (rule follows_Cons) (simp_all add: symbols_def)
  then obtain n where n: "parseline n (show_cmd 0 c @ ?t) = Inr (c, ?t)" using assms(1) by (auto simp: rt_line_def)
  have sk: "skip ?s = ?s" "skip ?t = ?t" by (rule skip_symbol, simp add: symbols_def)+
  have pk: "peek ?s ''(''" "peek ?t '')''" by (simp_all add: peek_Cons ws_symbols symbols_def)
  have t1: "gettoken ?s = (Sym CHR ''('', ''('', skip (show_cmd 0 c @ ?t))" by (rule gettoken_symbol) simp
  have t2: "gettoken ?t = (Sym CHR '')'', '')'', skip (show_redirs rs @ r))" by (rule gettoken_symbol) simp
  have r: "skip r = r" using a(2) by (simp add: follows_def)
  have "parseredirs [] (skip (show_redirs rs @ r)) = Inr (rs, r)"
    using parseredirs_show [OF a(1) r no_redir [OF a(2)], of "[]"] by simp
  then have "parseblock (Suc n) ?s = Inr (wrap c rs, r)"
    using n pk sk t1 t2 skip_show [OF assms(2) sk(2), of 0] by simp
  then have "parseexec (Suc (Suc n)) ?s = Inr (wrap c rs, r)" using pk(1) sk(1) by simp
  then show "\<exists>n. parseexec n (show_cmd 3 c @ show_redirs rs @ r) = Inr (wrap c rs, r)"
    unfolding assms(3) by (intro exI [of _ "Suc (Suc n)"]) (simp del: parseexec.simps)
qed

lemma rt_pipe_of_exec:
  assumes "rt_exec c" "show_cmd 2 c = show_cmd 3 c"
  shows "rt_pipe c"
  unfolding rt_pipe_def
proof (intro allI impI)
  fix r assume r: "follows r '')&;''"
  then have "follows r ''|)&;''" by (rule follows_sub) auto
  then obtain n where "parseexec n (show_cmd 3 c @ show_redirs [] @ r) = Inr (wrap c [], r)"
    using assms(1) [unfolded rt_exec_def, rule_format, of "[]" r] by auto
  then have n: "parseexec n (show_cmd 2 c @ r) = Inr (c, r)" by (simp add: assms(2))
  have "\<not> peek r ''|''" "skip r = r" using r peek_follows [OF r, of "''|''"] by (auto simp: follows_def)
  then have "parsepipe (Suc n) (show_cmd 2 c @ r) = Inr (c, r)" using n by simp
  then show "\<exists>n. parsepipe n (show_cmd 2 c @ r) = Inr (c, r)" ..
qed

lemma rt_back_of_pipe: "rt_pipe c \<Longrightarrow> show_cmd 1 c = show_cmd 2 c \<Longrightarrow> rt_back c"
  unfolding rt_pipe_def rt_back_def by metis

lemma parse_backs_stop: "follows r '');'' \<Longrightarrow> parse_backs c r = (c, r)"
  using peek_follows [of r "'');''" "''&''"] by (subst parse_backs.simps) (auto simp: follows_def)

lemma rt_line_of_back:
  assumes "rt_back c" "show_cmd 0 c = show_cmd 1 c"
  shows "rt_line c"
  unfolding rt_line_def
proof (intro allI impI)
  fix r assume r: "follows r '')''"
  have "follows r '')&;''" using r by (rule follows_sub) auto
  then obtain n b s where n: "parsepipe n (show_cmd 0 c @ r) = Inr (b, s)" "parse_backs b s = parse_backs c r"
    using assms by (auto simp: rt_back_def)
  have "parse_backs c r = (c, r)" by (rule parse_backs_stop [OF follows_sub [OF r]]) auto
  moreover have "\<not> peek r '';''" "skip r = r" using r peek_follows [OF r, of "'';''"] by (auto simp: follows_def)
  ultimately have "parseline (Suc n) (show_cmd 0 c @ r) = Inr (c, r)" using n by simp
  then show "\<exists>n. parseline n (show_cmd 0 c @ r) = Inr (c, r)" ..
qed

lemma rt_LIST:
  assumes "rt_back a" "rt_line b" "cmd_ok b"
  shows "rt_line (LIST a b)"
  unfolding rt_line_def
proof (intro allI impI)
  fix r assume r: "follows r '')''"
  let ?t = "CHR '';'' # show_cmd 0 b @ r"
  have t: "follows ?t '')&;''" "follows ?t '');''" by (rule follows_Cons, simp_all add: symbols_def)+
  obtain n d s where n: "parsepipe n (show_cmd 1 a @ ?t) = Inr (d, s)" "parse_backs d s = parse_backs a ?t"
    using assms(1) t(1) by (auto simp: rt_back_def)
  obtain m where m: "parseline m (show_cmd 0 b @ r) = Inr (b, r)" using assms(2) r by (auto simp: rt_line_def)
  let ?k = "max n m"
  have pb: "parse_backs d s = (a, ?t)" using n(2) parse_backs_stop [OF t(2)] by simp
  have pk: "peek ?t '';''" "skip ?t = ?t" by (simp_all add: peek_Cons ws_symbols symbols_def skip_symbol)
  have sk: "skip (show_cmd 0 b @ r) = show_cmd 0 b @ r" using skip_show [OF assms(3), of r 0] r by (simp add: follows_def)
  have g: "gettoken ?t = (Sym CHR '';'', '';'', show_cmd 0 b @ r)" using gettoken_symbol [of "CHR '';''" "show_cmd 0 b @ r"] sk by simp
  have "parseline (Suc ?k) (show_cmd 1 a @ ?t) = Inr (LIST a b, r)"
    using fuel_pipe [OF n(1), of ?k] fuel_line [OF m, of ?k] pb pk g by simp
  then show "\<exists>n. parseline n (show_cmd 0 (LIST a b) @ r) = Inr (LIST a b, r)" by (intro exI [of _ "Suc ?k"]) (simp add: Let_def)
qed

lemma rt_PIPE:
  assumes "rt_exec a" "rt_pipe b" "cmd_ok b"
  shows "rt_pipe (PIPE a b)"
  unfolding rt_pipe_def
proof (intro allI impI)
  fix r assume r: "follows r '')&;''"
  let ?t = "CHR ''|'' # show_cmd 2 b @ r"
  have t: "follows ?t ''|)&;''" by (rule follows_Cons) (simp_all add: symbols_def)
  obtain n where n: "parseexec n (show_cmd 3 a @ ?t) = Inr (a, ?t)"
    using assms(1) [unfolded rt_exec_def, rule_format, of "[]" ?t] t by auto
  obtain m where m: "parsepipe m (show_cmd 2 b @ r) = Inr (b, r)" using assms(2) r by (auto simp: rt_pipe_def)
  let ?k = "max n m"
  have pk: "peek ?t ''|''" "skip ?t = ?t" by (simp_all add: peek_Cons ws_symbols symbols_def skip_symbol)
  have sk: "skip (show_cmd 2 b @ r) = show_cmd 2 b @ r" using skip_show [OF assms(3), of r 2] r by (simp add: follows_def)
  have g: "gettoken ?t = (Sym CHR ''|'', ''|'', show_cmd 2 b @ r)" using gettoken_symbol [of "CHR ''|''" "show_cmd 2 b @ r"] sk by simp
  have "parsepipe (Suc ?k) (show_cmd 3 a @ ?t) = Inr (PIPE a b, r)"
    using fuel_exec [OF n, of ?k] fuel_pipe [OF m, of ?k] pk g by simp
  then show "\<exists>n. parsepipe n (show_cmd 2 (PIPE a b) @ r) = Inr (PIPE a b, r)" by (intro exI [of _ "Suc ?k"]) (simp add: Let_def)
qed

lemma rt_BACK:
  assumes "rt_back a"
  shows "rt_back (BACK a)"
  unfolding rt_back_def
proof (intro allI impI)
  fix r assume r: "follows r '')&;''"
  let ?t = "CHR ''&'' # r"
  have t: "follows ?t '')&;''" by (rule follows_Cons) (simp_all add: symbols_def)
  obtain n b s where n: "parsepipe n (show_cmd 1 a @ ?t) = Inr (b, s)" "parse_backs b s = parse_backs a ?t"
    using assms t by (auto simp: rt_back_def)
  have pk: "peek ?t ''&''" "skip ?t = ?t" by (simp_all add: peek_Cons ws_symbols symbols_def skip_symbol)
  have g: "gettoken ?t = (Sym CHR ''&'', ''&'', r)" using gettoken_symbol [of "CHR ''&''" r] r by (simp add: follows_def)
  have "parse_backs a ?t = parse_backs (BACK a) r" using pk g by (subst parse_backs.simps) simp
  then show "\<exists>n b s. parsepipe n (show_cmd 1 (BACK a) @ r) = Inr (b, s) \<and> parse_backs b s = parse_backs (BACK a) r"
    using n by (intro exI [of _ n]) (simp add: Let_def)
qed

lemma round_trip: "cmd_ok c \<Longrightarrow> rt_exec c \<and> rt_pipe c \<and> rt_back c \<and> rt_line c"
proof (induction c)
  case (EXEC args)
  have e: "rt_exec (EXEC args)" by (rule rt_exec_EXEC [OF EXEC])
  then have "rt_pipe (EXEC args)" by (rule rt_pipe_of_exec) simp
  moreover then have "rt_back (EXEC args)" by (rule rt_back_of_pipe) simp
  moreover then have "rt_line (EXEC args)" by (rule rt_line_of_back) simp
  ultimately show ?case using e by blast
next
  case (REDIR c f m d)
  have e: "rt_exec (REDIR c f m d)" unfolding rt_exec_def
  proof (intro allI impI)
    fix rs r assume a: "redirs_ok rs" "follows r ''|)&;''"
    have "redirs_ok ((f, m, d) # rs)" using a(1) REDIR.prems by (simp add: redirs_ok_def)
    then obtain n where "parseexec n (show_cmd 3 c @ show_redirs ((f, m, d) # rs) @ r) = Inr (wrap c ((f, m, d) # rs), r)"
      using REDIR a(2) by (auto simp only: rt_exec_def cmd_ok.simps)
    then show "\<exists>n. parseexec n (show_cmd 3 (REDIR c f m d) @ show_redirs rs @ r) = Inr (wrap (REDIR c f m d) rs, r)"
      by (intro exI [of _ n]) (simp add: show_redirs_def)
  qed
  then have "rt_pipe (REDIR c f m d)" by (rule rt_pipe_of_exec) simp
  moreover then have "rt_back (REDIR c f m d)" by (rule rt_back_of_pipe) simp
  moreover then have "rt_line (REDIR c f m d)" by (rule rt_line_of_back) simp
  ultimately show ?case using e by blast
next
  case (PIPE a b)
  then have p: "rt_pipe (PIPE a b)" by (intro rt_PIPE) simp_all
  then have q: "rt_back (PIPE a b)" by (rule rt_back_of_pipe) (simp add: Let_def)
  then have l: "rt_line (PIPE a b)" by (rule rt_line_of_back) (simp add: Let_def)
  then have "rt_exec (PIPE a b)" using PIPE.prems by (rule rt_exec_block) (simp add: Let_def)
  then show ?case using p q l by blast
next
  case (LIST a b)
  then have l: "rt_line (LIST a b)" by (intro rt_LIST) simp_all
  then have e: "rt_exec (LIST a b)" using LIST.prems by (rule rt_exec_block) (simp add: Let_def)
  then have p: "rt_pipe (LIST a b)" by (rule rt_pipe_of_exec) (simp add: Let_def)
  then have "rt_back (LIST a b)" by (rule rt_back_of_pipe) (simp add: Let_def)
  then show ?case using p e l by blast
next
  case (BACK a)
  then have q: "rt_back (BACK a)" by (intro rt_BACK) simp_all
  then have l: "rt_line (BACK a)" by (rule rt_line_of_back) (simp add: Let_def)
  then have e: "rt_exec (BACK a)" using BACK.prems by (rule rt_exec_block) (simp add: Let_def)
  then have "rt_pipe (BACK a)" by (rule rt_pipe_of_exec) (simp add: Let_def)
  then show ?case using q e l by blast
qed

section \<open>Properties\<close>

text \<open>
  C34. The shell's parser terminates: recursion no deeper than four calls a character reads every command line to the end or to one of the
  syntax errors (with more fuel the result is the same), so \<open>parsecmd\<close> never fails for lack of it.
\<close>

lemma parsecmd_terminates:
  "parsecmd s \<noteq> Inl (Fault ''fuel'') \<and> parseline (4 * length s + 4 + k) s = parseline (4 * length s + 4) s"
proof
  have f: "parseline (4 * length s + 4) s \<noteq> no_fuel" by (rule parse_fuel(1)) simp
  then show "parsecmd s \<noteq> Inl (Fault ''fuel'')" by (auto simp: parsecmd_def split: if_splits dest!: kbind_no_fuel simp del: parseline.simps)
  show "parseline (4 * length s + 4 + k) s = parseline (4 * length s + 4) s" by (rule parse_fuel_mono(1) [OF _ f]) simp
qed

text \<open>
  C35. Every command has a text that the shell parses back to it: words, redirections, pipelines, lists and background commands nested in any
  way, with parentheses where the grammar needs them, up to nine words a command.
\<close>

lemma parse_show:
  assumes "cmd_ok c"
  shows "parsecmd (show_cmd 0 c) = Inr c"
proof -
  let ?s = "show_cmd 0 c"
  have "follows [] '')''" by (simp add: follows_def)
  then obtain n where n: "parseline n ?s = Inr (c, [])" using round_trip [OF assms] unfolding rt_line_def by auto
  have f: "parseline (4 * length ?s + 4) ?s \<noteq> no_fuel" by (rule parse_fuel(1)) simp
  have "parseline (max n (4 * length ?s + 4)) ?s = Inr (c, [])" using fuel_line [OF n] by simp
  then have "parseline (4 * length ?s + 4) ?s = Inr (c, [])" using parse_fuel_mono(1) [OF _ f, of "max n (4 * length ?s + 4)"] by simp
  then show ?thesis unfolding parsecmd_def by simp
qed

lemma parse_show_witness:
  "parsecmd ''ls |(cat <f ;wc )&'' = Inr (BACK (PIPE (EXEC [''ls'']) (LIST (REDIR (EXEC [''cat'']) ''f'' 0 0) (EXEC [''wc'']))))"
proof -
  let ?c = "BACK (PIPE (EXEC [''ls'']) (LIST (REDIR (EXEC [''cat'']) ''f'' 0 0) (EXEC [''wc''])))"
  have "cmd_ok ?c" by (simp add: word_def whitespace_def symbols_def)
  moreover have "show_cmd 0 ?c = ''ls |(cat <f ;wc )&''" by (simp add: show_redir_def Let_def)
  ultimately show ?thesis using parse_show [of ?c] by simp
qed

end
