(* ===== verification/Server.thy ===== *)
theory Server imports Fifo
begin

text \<open>
  The web server of Project4-1. server.c: the buffer of accepted connections between the main thread and the worker threads.  The part of a
  thread between taking the mutex and releasing it, or waiting on a condition variable, is one step, since nothing else touches the shared variables;
  a signal wakes at least one of the waiting threads when there are any, and waiting threads may also wake by themselves, as POSIX
  allows.  request.c: how a URI selects a file.
\<close>

section \<open>The buffer\<close>

record shared =
  work :: "nat \<Rightarrow> int"
  front :: nat
  rear :: nat
  count :: nat

definition enqueue :: "nat \<Rightarrow> int \<Rightarrow> shared \<Rightarrow> shared" where
  "enqueue bufferlen connfd s =
     s\<lparr>work := (work s)(rear s := connfd), rear := (rear s + 1) mod bufferlen, count := count s + 1\<rparr>"

definition dequeue :: "nat \<Rightarrow> shared \<Rightarrow> int \<times> shared" where
  "dequeue bufferlen s = (work s (front s), s\<lparr>front := (front s + 1) mod bufferlen, count := count s - 1\<rparr>)"

definition requests :: "nat \<Rightarrow> shared \<Rightarrow> int list" where
  "requests n s = map (\<lambda>i. work s ((front s + i) mod n)) [0..<count s]"

definition shared_ok :: "nat \<Rightarrow> shared \<Rightarrow> bool" where
  "shared_ok n s \<longleftrightarrow> count s \<le> n \<and> front s < n \<and> rear s = (front s + count s) mod n"

lemma mod_add_ne:
  assumes "i < k" "k < (n :: nat)"
  shows "(f + i) mod n \<noteq> (f + k) mod n"
proof
  assume "(f + i) mod n = (f + k) mod n"
  then have "n dvd (f + k) - (f + i)" using assms(1) by (metis add_le_cancel_left less_imp_le mod_eq_dvd_iff_nat)
  then have "n dvd k - i" by simp
  then show False using assms by (auto dest!: dvd_imp_le)
qed

interpretation conn: fifo "shared_ok n" "requests n" n "enqueue n" "dequeue n" for n
proof
  show "shared_ok n s \<Longrightarrow> length (requests n s) \<le> n" for s by (simp add: shared_ok_def requests_def)
next
  fix s x
  assume a: "shared_ok n s" "length (requests n s) < n"
  then have c: "count s < n" by (simp add: requests_def)
  then have "requests n (enqueue n x s) = requests n s @ [x]"
    using a(1) mod_add_ne [OF _ c, of _ "front s"] by (simp add: requests_def enqueue_def shared_ok_def)
  then show "shared_ok n (enqueue n x s) \<and> requests n (enqueue n x s) = requests n s @ [x]"
    using a(1) c by (simp add: shared_ok_def enqueue_def mod_simps)
next
  fix s x xs
  assume a: "shared_ok n s" "requests n s = x # xs"
  have c: "count s = Suc (length xs)" using arg_cong [OF a(2), of length] by (simp add: requests_def)
  have u: "[0..<Suc (length xs)] = 0 # map Suc [0..<length xs]" by (simp add: upt_conv_Cons map_Suc_upt del: upt_Suc)
  have w: "work s (front s) = x" "map (\<lambda>i. work s ((front s + Suc i) mod n)) [0..<length xs] = xs"
    using a unfolding requests_def c u by (simp_all add: comp_def shared_ok_def)
  have "requests n (snd (dequeue n s)) = xs"
    using w(2) c by (simp add: requests_def dequeue_def mod_simps)
  moreover have "shared_ok n (snd (dequeue n s))" using a(1) c by (simp add: shared_ok_def dequeue_def mod_simps)
  ultimately show "fst (dequeue n s) = x \<and> shared_ok n (snd (dequeue n s)) \<and> requests n (snd (dequeue n s)) = xs"
    using w(1) by (simp add: dequeue_def)
qed

section \<open>The threads\<close>

text \<open>
  The main thread is in \<open>Accept\<close>, or holds a connection that it wants to enter, or waits on \<open>empty\<close> with it; a worker is about to take the
  mutex, waits on \<open>fill\<close>, or handles a connection.
\<close>

datatype main_pc = Accepting | Entering int | WaitEmpty int
datatype worker_pc = Fetching | WaitFill | Handling int

record server =
  sh :: shared
  main_at :: main_pc
  workers :: "nat \<Rightarrow> worker_pc"

text \<open>\<open>woken ws ws'\<close>: a signal on \<open>fill\<close>; \<open>k\<close> is the number of workers.\<close>

definition woken :: "nat \<Rightarrow> (nat \<Rightarrow> worker_pc) \<Rightarrow> (nat \<Rightarrow> worker_pc) \<Rightarrow> bool" where
  "woken k ws ws' \<longleftrightarrow> (\<forall>i. ws' i = ws i \<or> ws i = WaitFill \<and> ws' i = Fetching) \<and>
    ((\<exists>i < k. ws i = WaitFill) \<longrightarrow> (\<exists>i < k. ws i = WaitFill \<and> ws' i = Fetching))"

definition wake_main :: "main_pc \<Rightarrow> main_pc" where
  "wake_main p = (case p of WaitEmpty c \<Rightarrow> Entering c | _ \<Rightarrow> p)"

text \<open>
  The steps, with what they accept and hand out.  The loop test of the main thread and of a worker is repeated after every wait.
\<close>

datatype event = Quiet | Accepted int | Taken int

inductive main_step :: "nat \<Rightarrow> nat \<Rightarrow> server \<Rightarrow> event \<Rightarrow> server \<Rightarrow> bool" for n k where
  accept: "main_at s = Accepting \<Longrightarrow> main_step n k s (Accepted c) (s\<lparr>main_at := Entering c\<rparr>)"
| full: "main_at s = Entering c \<Longrightarrow> count (sh s) = n \<Longrightarrow> main_step n k s Quiet (s\<lparr>main_at := WaitEmpty c\<rparr>)"
| enter: "main_at s = Entering c \<Longrightarrow> count (sh s) \<noteq> n \<Longrightarrow> woken k (workers s) ws \<Longrightarrow>
    main_step n k s Quiet (s\<lparr>sh := enqueue n c (sh s), main_at := Accepting, workers := ws\<rparr>)"
| spurious: "main_step n k s Quiet (s\<lparr>main_at := wake_main (main_at s)\<rparr>)"

inductive processRequest_step :: "nat \<Rightarrow> nat \<Rightarrow> server \<Rightarrow> event \<Rightarrow> server \<Rightarrow> bool" for n i where
  none: "workers s i = Fetching \<Longrightarrow> count (sh s) = 0 \<Longrightarrow> processRequest_step n i s Quiet (s\<lparr>workers := (workers s)(i := WaitFill)\<rparr>)"
| fetch: "workers s i = Fetching \<Longrightarrow> count (sh s) \<noteq> 0 \<Longrightarrow> dequeue n (sh s) = (c, t) \<Longrightarrow>
    processRequest_step n i s (Taken c) (s\<lparr>sh := t, main_at := wake_main (main_at s), workers := (workers s)(i := Handling c)\<rparr>)"
| handled: "workers s i = Handling c \<Longrightarrow> processRequest_step n i s Quiet (s\<lparr>workers := (workers s)(i := Fetching)\<rparr>)"
| spurious: "workers s i = WaitFill \<Longrightarrow> processRequest_step n i s Quiet (s\<lparr>workers := (workers s)(i := Fetching)\<rparr>)"

definition server_step :: "nat \<Rightarrow> nat \<Rightarrow> server \<Rightarrow> event \<Rightarrow> server \<Rightarrow> bool" where
  "server_step n k s e t \<longleftrightarrow> main_step n k s e t \<or> (\<exists>i < k. processRequest_step n i s e t)"

definition server_start :: "(nat \<Rightarrow> int) \<Rightarrow> server" where
  "server_start w = \<lparr>sh = \<lparr>work = w, front = 0, rear = 0, count = 0\<rparr>, main_at = Accepting, workers = \<lambda>_. Fetching\<rparr>"

text \<open>A run: the connections accepted and those taken by workers, each in order.\<close>

inductive server_run :: "nat \<Rightarrow> nat \<Rightarrow> int list \<Rightarrow> int list \<Rightarrow> server \<Rightarrow> bool" for n k where
  start: "server_run n k [] [] (server_start w)"
| step: "server_run n k acc tak s \<Longrightarrow> server_step n k s e t \<Longrightarrow>
    server_run n k (acc @ (case e of Accepted c \<Rightarrow> [c] | _ \<Rightarrow> [])) (tak @ (case e of Taken c \<Rightarrow> [c] | _ \<Rightarrow> [])) t"

definition entering :: "main_pc \<Rightarrow> int list" where
  "entering p = (case p of Accepting \<Rightarrow> [] | Entering c \<Rightarrow> [c] | WaitEmpty c \<Rightarrow> [c])"

lemma wake_main_simps [simp]:
  "entering (wake_main p) = entering p" "wake_main p \<noteq> WaitEmpty c"
  by (cases p; simp add: wake_main_def entering_def)+

definition server_inv :: "nat \<Rightarrow> nat \<Rightarrow> int list \<Rightarrow> int list \<Rightarrow> server \<Rightarrow> bool" where
  "server_inv n k acc tak s \<longleftrightarrow> shared_ok n (sh s) \<and> acc = tak @ requests n (sh s) @ entering (main_at s) \<and>
    (\<forall>c. main_at s = WaitEmpty c \<longrightarrow> count (sh s) = n) \<and> ((\<forall>i < k. workers s i = WaitFill) \<longrightarrow> count (sh s) = 0)"

lemma length_requests [simp]: "length (requests n s) = count s"
  by (simp add: requests_def)

lemma main_step_inv:
  assumes "main_step n k s e t" "server_inv n k acc tak s" "0 < k"
  shows "server_inv n k (acc @ (case e of Accepted c \<Rightarrow> [c] | _ \<Rightarrow> [])) (tak @ (case e of Taken c \<Rightarrow> [c] | _ \<Rightarrow> [])) t"
  using assms(1)
proof cases
  case (enter c ws)
  have ok: "shared_ok n (sh s)" using assms(2) by (simp add: server_inv_def)
  then have "length (requests n (sh s)) < n" using enter(4) by (simp add: shared_ok_def)
  note p = conn.put_cont [OF ok this, of c]
  have "\<not> (\<forall>i < k. ws i = WaitFill)"
  proof
    assume a: "\<forall>i < k. ws i = WaitFill"
    then have "\<forall>i < k. workers s i = WaitFill" using enter(5) unfolding woken_def by (metis worker_pc.distinct(1))
    then show False using a enter(5) assms(3) unfolding woken_def by (metis worker_pc.distinct(1))
  qed
  then show ?thesis using assms(2) enter p by (auto simp: server_inv_def entering_def)
next
  case spurious
  then show ?thesis using assms(2) by (simp add: server_inv_def)
qed (use assms(2) in \<open>simp_all add: server_inv_def entering_def\<close>)

lemma processRequest_step_inv:
  assumes "processRequest_step n i s e t" "server_inv n k acc tak s" "i < k"
  shows "server_inv n k (acc @ (case e of Accepted c \<Rightarrow> [c] | _ \<Rightarrow> [])) (tak @ (case e of Taken c \<Rightarrow> [c] | _ \<Rightarrow> [])) t"
proof -
  have busy: "\<not> (\<forall>j < k. ((workers s)(i := p)) j = WaitFill)" if "p \<noteq> WaitFill" for p using that assms(3) by auto
  show ?thesis
    using assms(1)
  proof cases
    case none
    then show ?thesis using assms(2) by (simp add: server_inv_def)
  next
    case (fetch c t')
    have ok: "shared_ok n (sh s)" using assms(2) by (simp add: server_inv_def)
    obtain x xs where x: "requests n (sh s) = x # xs" using fetch(4) length_requests [of n "sh s"] by (cases "requests n (sh s)") auto
    note g = conn.get_cont [OF ok x]
    show ?thesis using assms(2) fetch g x busy [of "Handling c"] by (auto simp: server_inv_def)
  next
    case (handled c)
    then show ?thesis using assms(2) busy [of Fetching] by (auto simp: server_inv_def)
  next
    case spurious
    then show ?thesis using assms(2) busy [of Fetching] by (auto simp: server_inv_def)
  qed
qed

lemma server_inv_step:
  assumes "server_step n k s e t" "server_inv n k acc tak s" "0 < k"
  shows "server_inv n k (acc @ (case e of Accepted c \<Rightarrow> [c] | _ \<Rightarrow> [])) (tak @ (case e of Taken c \<Rightarrow> [c] | _ \<Rightarrow> [])) t"
  using assms(1) main_step_inv [OF _ assms(2,3)] processRequest_step_inv [OF _ assms(2)] unfolding server_step_def by blast

lemma server_run_inv: "server_run n k acc tak s \<Longrightarrow> 0 < n \<Longrightarrow> 0 < k \<Longrightarrow> server_inv n k acc tak s"
proof (induction rule: server_run.induct)
  case (start w)
  then show ?case by (simp add: server_inv_def server_start_def shared_ok_def requests_def entering_def)
next
  case (step acc tak s e t)
  then show ?case using server_inv_step by blast
qed

section \<open>Requests\<close>

text \<open>Whether a string occurs in another (\<open>strstr\<close>).\<close>

fun occurs :: "string \<Rightarrow> string \<Rightarrow> bool" where
  "occurs p [] = (p = [])"
| "occurs p (c # cs) = (take (length p) (c # cs) = p \<or> occurs p cs)"

text \<open>Whether the content is static, the name of the file, and the arguments of the program; the URI is not empty.\<close>

definition requestParseURI :: "string \<Rightarrow> bool \<times> string \<times> string" where
  "requestParseURI uri =
    (if occurs ''..'' uri then (True, ''./public/home.html'', [])
     else if \<not> occurs ''cgi'' uri then
       (True, ''./public'' @ uri @ (if last uri = CHR ''/'' then ''home.html'' else []), [])
     else let path = takeWhile (\<lambda>c. c \<noteq> CHR 0x3F) uri; rest = dropWhile (\<lambda>c. c \<noteq> CHR 0x3F) uri
       in (False, ''./public'' @ path, if rest \<noteq> [] then tl rest else []))"

definition requestGetFiletype :: "string \<Rightarrow> string" where
  "requestGetFiletype filename =
    (if occurs ''.html'' filename then ''text/html'' else if occurs ''.gif'' filename then ''image/gif''
     else if occurs ''.jpg'' filename then ''image/jpeg'' else ''text/plain'')"

lemma occurs_iff: "occurs p s \<longleftrightarrow> (\<exists>u v. s = u @ p @ v)"
proof (induction s)
  case Nil
  then show ?case by auto
next
  case (Cons c cs)
  have "take (length p) (c # cs) = p \<longleftrightarrow> (\<exists>v. c # cs = p @ v)" by (metis append_eq_conv_conj append_take_drop_id)
  then show ?case using Cons by (auto simp: Cons_eq_append_conv)
qed

lemma occurs_pair_append:
  "occurs [x, x] (a @ b) \<longleftrightarrow> occurs [x, x] a \<or> occurs [x, x] b \<or> a \<noteq> [] \<and> b \<noteq> [] \<and> last a = x \<and> hd b = x"
proof (induction a)
  case (Cons c a)
  then show ?case by (cases a; cases b) auto
qed simp

text \<open>A request for a path, which begins with a slash, never names a file outside the public directory by going up.\<close>

lemma uri_stays_public:
  assumes "uri = CHR ''/'' # u"
  shows "\<exists>path. fst (snd (requestParseURI uri)) = ''./public/'' @ path \<and> \<not> occurs ''..'' (''/'' @ path)"
proof (cases "occurs ''..'' uri")
  case True
  then have "fst (snd (requestParseURI uri)) = ''./public/'' @ ''home.html''" by (simp add: requestParseURI_def)
  moreover have "\<not> occurs ''..'' (''/'' @ ''home.html'')" by code_simp
  ultimately show ?thesis by blast
next
  case dots: False
  show ?thesis
  proof (cases "occurs ''cgi'' uri")
    case True
    let ?p = "takeWhile (\<lambda>c. c \<noteq> CHR 0x3F) uri"
    have "uri = ?p @ dropWhile (\<lambda>c. c \<noteq> CHR 0x3F) uri" by simp
    then have "\<not> occurs ''..'' ?p" using dots unfolding occurs_iff by (metis append_assoc)
    moreover have "?p = CHR ''/'' # takeWhile (\<lambda>c. c \<noteq> CHR 0x3F) u" by (simp add: assms)
    ultimately show ?thesis using True dots by (intro exI [of _ "takeWhile (\<lambda>c. c \<noteq> CHR 0x3F) u"]) (simp add: requestParseURI_def Let_def)
  next
    case False
    define h where "h = (if last uri = CHR ''/'' then ''home.html'' else [])"
    have "\<not> occurs ''..'' h" "h \<noteq> [] \<Longrightarrow> last uri = CHR ''/''" unfolding h_def by (simp, simp split: if_splits)
    then have "\<not> occurs ''..'' (uri @ h)" using dots unfolding occurs_pair_append by auto
    then show ?thesis using False dots unfolding h_def
      by (intro exI [of _ "u @ h"]) (simp add: requestParseURI_def assms h_def)
  qed
qed

section \<open>Properties\<close>

text \<open>
  C36. The thread pool of the web server: with a buffer of at least one place and at least one worker, over all interleavings and wake-ups the
  connections taken by the workers are those accepted, each once and in order, then those in the buffer, then the one the main thread holds; the
  buffer never overflows; the main thread waits only while the buffer is full, and when connections are in the buffer some worker is
  not waiting, so the server never deadlocks.
\<close>

lemma server_pool:
  assumes "server_run n k acc tak s" "0 < n" "0 < k"
  shows "acc = tak @ requests n (sh s) @ entering (main_at s) \<and> count (sh s) \<le> n \<and>
    ((\<exists>c. main_at s = WaitEmpty c) \<longrightarrow> count (sh s) = n) \<and> (count (sh s) \<noteq> 0 \<longrightarrow> (\<exists>i < k. workers s i \<noteq> WaitFill))"
  using server_run_inv [OF assms] by (auto simp: server_inv_def shared_ok_def)

lemma server_pool_witness:
  "\<exists>s. server_run 1 2 [7, 8] [] s \<and> count (sh s) = 1 \<and> main_at s = WaitEmpty 8 \<and> (\<exists>i < 2. workers s i \<noteq> WaitFill)"
proof -
  have main: "main_step n k s e t \<Longrightarrow> server_step n k s e t" for n k s e t by (simp add: server_step_def)
  define w :: "nat \<Rightarrow> int" where "w = (\<lambda>_. 0)"
  define s1 where "s1 = (server_start w)\<lparr>main_at := Entering 7\<rparr>"
  define s2 where "s2 = s1\<lparr>sh := enqueue 1 7 (sh s1), main_at := Accepting, workers := workers s1\<rparr>"
  define s3 where "s3 = s2\<lparr>main_at := Entering 8\<rparr>"
  define s4 where "s4 = s3\<lparr>main_at := WaitEmpty 8\<rparr>"
  have 1: "server_run 1 2 [7] [] s1"
    using server_run.step [OF server_run.start main [OF main_step.accept [of "server_start w" 1 2 7]]] by (simp add: s1_def server_start_def)
  have "woken 2 (workers s1) (workers s1)" by (simp add: woken_def s1_def server_start_def)
  from main_step.enter [OF _ _ this, of 7 1] have "main_step 1 2 s1 Quiet s2" by (simp add: s2_def s1_def server_start_def)
  from server_run.step [OF 1 main [OF this]] have 2: "server_run 1 2 [7] [] s2" by simp
  have "main_step 1 2 s2 (Accepted 8) s3" unfolding s3_def by (rule main_step.accept) (simp add: s2_def)
  from server_run.step [OF 2 main [OF this]] have 3: "server_run 1 2 [7, 8] [] s3" by simp
  have "main_step 1 2 s3 Quiet s4" unfolding s4_def by (rule main_step.full) (simp_all add: s3_def s2_def s1_def server_start_def enqueue_def)
  from server_run.step [OF 3 main [OF this]] have 4: "server_run 1 2 [7, 8] [] s4" by simp
  have "main_at s4 = WaitEmpty 8" by (simp add: s4_def)
  then show ?thesis using server_pool [OF 4] 4 by (intro exI [of _ s4]) simp
qed

end
