(* ===== verification/Umalloc.thy ===== *)
theory Umalloc imports Prelude
begin

text \<open>
  user/umalloc.c: the allocator of user programs.  A header is 8 bytes, a pointer to it its address; \<open>hptr\<close> and \<open>hsize\<close> are the two words of the
  headers in memory, sizes counted in units of a header.  \<open>B\<close> is the address of the static header \<open>base\<close>, below the heap; \<open>brk\<close> is the end of the
  process's memory, and \<open>grant\<close> tells whether the kernel gives \<open>sbrk\<close> the bytes it asks for at that moment (a call with a negative
  number is outside the model).  The walks around the circular free list are partial functions: \<open>None\<close> means that one never ends.
\<close>

record heap =
  hptr :: "nat \<Rightarrow> nat"
  hsize :: "nat \<Rightarrow> nat"
  freep :: nat
  brk :: nat

section \<open>The code\<close>

text \<open>The loop of \<open>free\<close>, which looks for the place of \<open>bp\<close>.\<close>

definition free_stop :: "heap \<Rightarrow> nat \<Rightarrow> nat \<Rightarrow> bool" where
  "free_stop s bp p \<longleftrightarrow> (bp > p \<and> bp < hptr s p) \<or> (p \<ge> hptr s p \<and> (bp > p \<or> bp < hptr s p))"

partial_function (option) free_search :: "heap \<Rightarrow> nat \<Rightarrow> nat \<Rightarrow> nat option" where
  "free_search s bp p = (if free_stop s bp p then Some p else free_search s bp (hptr s p))"

definition free_insert :: "nat \<Rightarrow> nat \<Rightarrow> heap \<Rightarrow> heap" where
  "free_insert bp p s =
     (let q = hptr s p;
          s = (if bp + 8 * hsize s bp = q
               then s\<lparr>hsize := (hsize s)(bp := hsize s bp + hsize s q), hptr := (hptr s)(bp := hptr s q)\<rparr>
               else s\<lparr>hptr := (hptr s)(bp := q)\<rparr>);
          s = (if p + 8 * hsize s p = bp
               then s\<lparr>hsize := (hsize s)(p := hsize s p + hsize s bp), hptr := (hptr s)(p := hptr s bp)\<rparr>
               else s\<lparr>hptr := (hptr s)(p := bp)\<rparr>)
      in s\<lparr>freep := p\<rparr>)"

definition free :: "nat \<Rightarrow> heap \<Rightarrow> heap option" where
  "free ap s = (let bp = ap - 8 in map_option (\<lambda>p. free_insert bp p s) (free_search s bp (freep s)))"

definition morecore :: "(nat \<Rightarrow> nat \<Rightarrow> bool) \<Rightarrow> nat \<Rightarrow> heap \<Rightarrow> (nat option \<times> heap) option" where
  "morecore grant nu s =
     (let nu = (if nu < 4096 then 4096 else nu); n = unat (of_nat nu * 8 :: u32); p = brk s in
      if \<not> grant p n then Some (None, s)
      else let s = s\<lparr>brk := p + n, hsize := (hsize s)(p := nu)\<rparr>
        in map_option (\<lambda>s. (Some (freep s), s)) (free (p + 8) s))"

text \<open>A block taken off the list, or the end of a larger one; \<open>r\<close> is its header.\<close>

definition take_block :: "nat \<Rightarrow> nat \<Rightarrow> nat \<Rightarrow> heap \<Rightarrow> nat option \<times> heap" where
  "take_block nunits prevp p s =
     (if hsize s p = nunits then (Some (p + 8), s\<lparr>hptr := (hptr s)(prevp := hptr s p), freep := prevp\<rparr>)
      else let z = hsize s p - nunits; r = p + 8 * z
        in (Some (r + 8), s\<lparr>hsize := (hsize s)(p := z, r := nunits), freep := prevp\<rparr>))"

partial_function (option) malloc_loop :: "(nat \<Rightarrow> nat \<Rightarrow> bool) \<Rightarrow> nat \<Rightarrow> nat \<Rightarrow> heap \<Rightarrow> (nat option \<times> heap) option" where
  "malloc_loop grant nunits prevp s =
     (let p = hptr s prevp in
      if nunits \<le> hsize s p then Some (take_block nunits prevp p s)
      else if p = freep s then Option.bind (morecore grant nunits s)
        (\<lambda>(r, t). case r of None \<Rightarrow> Some (None, t) | Some p \<Rightarrow> malloc_loop grant nunits p t)
      else malloc_loop grant nunits p s)"

definition nunits :: "u32 \<Rightarrow> nat" where
  "nunits nbytes = unat ((nbytes + 8 - 1) div 8 + 1)"

definition malloc :: "(nat \<Rightarrow> nat \<Rightarrow> bool) \<Rightarrow> nat \<Rightarrow> u32 \<Rightarrow> heap \<Rightarrow> (nat option \<times> heap) option" where
  "malloc grant B nbytes s =
     (let s = (if freep s = 0 then s\<lparr>hptr := (hptr s)(B := B), freep := B, hsize := (hsize s)(B := 0)\<rparr> else s)
      in malloc_loop grant (nunits nbytes) (freep s) s)"

section \<open>The free list\<close>

text \<open>\<open>links s xs q\<close>: the headers at \<open>xs\<close> point each to the next one and the last to \<open>q\<close>.\<close>

fun links :: "heap \<Rightarrow> nat list \<Rightarrow> nat \<Rightarrow> bool" where
  "links s [] q = True"
| "links s (x # xs) q = (hptr s x = hd (xs @ [q]) \<and> links s xs q)"

lemma links_append: "links s (xs @ ys) q \<longleftrightarrow> links s xs (hd (ys @ [q])) \<and> links s ys q"
proof (induction xs)
  case (Cons x xs)
  then show ?case by (cases xs) auto
qed simp

lemma links_cong: "(\<And>x. x \<in> set xs \<Longrightarrow> hptr t x = hptr s x) \<Longrightarrow> links t xs q = links s xs q"
  by (induction xs) auto

lemma links_frame: "links s xs q \<Longrightarrow> hptr t = (hptr s)(b := v) \<Longrightarrow> b \<notin> set xs \<Longrightarrow> links t xs q"
  by (induction xs) auto

lemma links_map: "xs \<noteq> [] \<Longrightarrow> links s xs q \<Longrightarrow> map (hptr s) xs = tl xs @ [q]"
proof (induction xs)
  case (Cons x xs)
  then show ?case by (cases xs) auto
qed simp

lemma links_inj:
  assumes "links s (x # xs) x" "distinct (x # xs)"
  shows "inj_on (hptr s) (set (x # xs))"
proof -
  have "map (hptr s) (x # xs) = xs @ [x]" using links_map [OF _ assms(1)] by simp
  then have "distinct (map (hptr s) (x # xs))" using assms(2) by simp
  then show ?thesis unfolding distinct_map by (rule conjunct2)
qed

lemma links_hptr_in: "links s (x # xs) x \<Longrightarrow> y \<in> set (x # xs) \<Longrightarrow> hptr s y \<in> set (x # xs)"
proof -
  assume a: "links s (x # xs) x" "y \<in> set (x # xs)"
  have "map (hptr s) (x # xs) = xs @ [x]" using links_map [OF _ a(1)] by simp
  then have "hptr s y \<in> set (xs @ [x])" using a(2) by (metis imageI set_map)
  then show ?thesis by auto
qed

text \<open>The list from any of its members on.\<close>

lemma links_rotate:
  assumes "links s (us @ f # vs) (hd (us @ [f]))"
  shows "links s (f # vs @ us) f"
proof -
  have "links s us f" "links s (f # vs) (hd (us @ [f]))" using assms unfolding links_append by simp_all
  then show ?thesis using links_append [of s "f # vs" us f] by simp
qed

text \<open>Blocks given by their headers \<open>R\<close> and sizes \<open>z\<close>, in units: they lie between \<open>lo\<close> and \<open>hi\<close> and do not overlap.\<close>

definition apart :: "(nat \<Rightarrow> nat) \<Rightarrow> nat \<Rightarrow> nat \<Rightarrow> bool" where
  "apart z a b \<longleftrightarrow> a + 8 * z a \<le> b \<or> b + 8 * z b \<le> a"

definition regions :: "nat \<Rightarrow> nat \<Rightarrow> (nat \<Rightarrow> nat) \<Rightarrow> nat set \<Rightarrow> bool" where
  "regions lo hi z R \<longleftrightarrow> (\<forall>a \<in> R. lo \<le> a \<and> 0 < z a \<and> a + 8 * z a \<le> hi) \<and> (\<forall>a \<in> R. \<forall>b \<in> R. a \<noteq> b \<longrightarrow> apart z a b)"

lemma regionsD:
  "regions lo hi z R \<Longrightarrow> a \<in> R \<Longrightarrow> lo \<le> a \<and> 0 < z a \<and> a + 8 * z a \<le> hi"
  "regions lo hi z R \<Longrightarrow> a \<in> R \<Longrightarrow> b \<in> R \<Longrightarrow> a \<noteq> b \<Longrightarrow> a + 8 * z a \<le> b \<or> b + 8 * z b \<le> a"
  by (simp_all add: regions_def apart_def)

lemma regionsI:
  assumes "\<And>a. a \<in> R \<Longrightarrow> lo \<le> a \<and> 0 < z a \<and> a + 8 * z a \<le> hi"
    and "\<And>a b. a \<in> R \<Longrightarrow> b \<in> R \<Longrightarrow> a \<noteq> b \<Longrightarrow> a + 8 * z a \<le> b \<or> b + 8 * z b \<le> a"
  shows "regions lo hi z R"
  using assms unfolding regions_def apart_def by blast

lemma regions_insert:
  assumes "regions lo hi z R" "lo \<le> r" "0 < z r" "r + 8 * z r \<le> hi"
    and "\<And>a. a \<in> R \<Longrightarrow> a \<noteq> r \<Longrightarrow> a + 8 * z a \<le> r \<or> r + 8 * z r \<le> a"
  shows "regions lo hi z (insert r R)"
proof (rule regionsI)
  show "lo \<le> a \<and> 0 < z a \<and> a + 8 * z a \<le> hi" if "a \<in> insert r R" for a using that assms(2-4) regionsD(1) [OF assms(1), of a] by blast
  show "a + 8 * z a \<le> b \<or> b + 8 * z b \<le> a" if "a \<in> insert r R" "b \<in> insert r R" "a \<noteq> b" for a b
    using that assms(5) [of a] assms(5) [of b] regionsD(2) [OF assms(1), of a b] by (elim insertE) (simp, blast, blast, blast)
qed

lemma regions_mono: "regions lo hi z R \<Longrightarrow> S \<subseteq> R \<Longrightarrow> hi \<le> hi' \<Longrightarrow> (\<And>a. a \<in> S \<Longrightarrow> z' a = z a) \<Longrightarrow> regions lo hi' z' S"
  by (rule regionsI) (auto dest: regionsD)

text \<open>Two adjacent blocks made one, and a block cut in two.\<close>

lemma regions_merge:
  assumes "regions lo hi z R" "a \<in> R" "b \<in> R" "a + 8 * z a = b" "z' = z(a := z a + z b)"
  shows "regions lo hi z' (R - {b})"
proof -
  have "0 < z a" using assms(1,2) by (simp add: regionsD)
  then have "regions lo hi z' (insert a (R - {a, b}))"
  proof (intro regions_insert)
    show "regions lo hi z' (R - {a, b})" by (rule regions_mono [OF assms(1)]) (use assms(5) in auto)
    show "lo \<le> a" "0 < z' a" "a + 8 * z' a \<le> hi" using regionsD(1) [OF assms(1,2)] regionsD(1) [OF assms(1,3)] assms(4,5) by simp_all
    fix c assume c: "c \<in> R - {a, b}"
    then have "a + 8 * z a \<le> c \<or> c + 8 * z c \<le> a" "b + 8 * z b \<le> c \<or> c + 8 * z c \<le> b" "0 < z c"
      using regionsD [OF assms(1)] assms(2,3) by (blast, blast, blast)
    then show "c + 8 * z' c \<le> a \<or> a + 8 * z' a \<le> c" using c assms(4,5) by auto
  qed
  moreover have "insert a (R - {a, b}) = R - {b}" using assms(2,4) \<open>0 < z a\<close> by auto
  ultimately show ?thesis by simp
qed

lemma regions_cut:
  assumes "regions lo hi z R" "a \<in> R" "0 < n" "n < z a" "r = a + 8 * (z a - n)" "z' = z(a := z a - n, r := n)"
  shows "r \<notin> R" "regions lo hi z' (insert r R)"
proof -
  show r: "r \<notin> R"
  proof
    assume "r \<in> R"
    then show False using regionsD(2) [OF assms(1,2), of r] regionsD(1) [OF assms(1), of r] assms(3-5) by auto
  qed
  have a: "lo \<le> a" "a + 8 * z a \<le> hi" "a \<noteq> r" using regionsD(1) [OF assms(1,2)] assms(4,5) by auto
  have "regions lo hi z' (insert a (R - {a}))"
  proof (intro regions_insert)
    show "regions lo hi z' (R - {a})" by (rule regions_mono [OF assms(1)]) (use assms(6) r in auto)
    show "lo \<le> a" "0 < z' a" "a + 8 * z' a \<le> hi" using a assms(3-6) by auto
    fix c assume c: "c \<in> R - {a}"
    then have "a + 8 * z a \<le> c \<or> c + 8 * z c \<le> a" using regionsD(2) [OF assms(1)] assms(2) by blast
    then show "c + 8 * z' c \<le> a \<or> a + 8 * z' a \<le> c" using c r a(3) assms(3-6) by auto
  qed
  then have "regions lo hi z' R" using assms(2) by (simp add: insert_absorb)
  then show "regions lo hi z' (insert r R)"
  proof (intro regions_insert)
    show "lo \<le> r" "0 < z' r" "r + 8 * z' r \<le> hi" using a assms(3-6) by auto
    fix c assume c: "c \<in> R" "c \<noteq> r"
    show "c + 8 * z' c \<le> r \<or> r + 8 * z' r \<le> c"
    proof (cases "c = a")
      case False
      then have "a + 8 * z a \<le> c \<or> c + 8 * z c \<le> a" using regionsD(2) [OF assms(1)] assms(2) c by blast
      then show ?thesis using c False assms(3-6) by auto
    qed (use c assms(5,6) in auto)
  qed
qed

text \<open>
  The invariant: \<open>bs\<close> are the headers of the free blocks in the order of their addresses, \<open>As\<close> those of the blocks in use; all of them are
  disjoint and inside the heap, and the free ones form the circular list through \<open>base\<close>.
\<close>

definition heap_ok :: "nat \<Rightarrow> heap \<Rightarrow> nat list \<Rightarrow> nat set \<Rightarrow> bool" where
  "heap_ok B s bs As \<longleftrightarrow> 0 < B \<and> hsize s B = 0 \<and> sorted (B # bs) \<and> distinct (B # bs) \<and> set bs \<inter> As = {} \<and> links s (B # bs) B \<and>
     freep s \<in> set (B # bs) \<and> B + 8 \<le> brk s \<and> regions (B + 8) (brk s) (hsize s) (set bs \<union> As)"

section \<open>Freeing\<close>

declare free_search.simps [code del]

lemma free_walk:
  "links s us d \<Longrightarrow> \<forall>u \<in> set us. \<not> free_stop s bp u \<Longrightarrow> free_stop s bp d \<Longrightarrow> free_search s bp (hd (us @ [d])) = Some d"
proof (induction us)
  case Nil
  then show ?case by (simp add: free_search.simps)
next
  case (Cons u us)
  then show ?case by (subst free_search.simps) simp
qed

text \<open>In a sorted circle the search stops at the predecessor, from wherever it starts.\<close>

lemma free_search_pred:
  assumes "links s (us @ p # vs) (hd (us @ [p]))" "sorted (us @ p # vs)" "distinct (us @ p # vs)"
    and "p < bp" "\<forall>v \<in> set vs. bp < v" "f \<in> set (us @ p # vs)"
  shows "free_search s bp f = Some p"
proof -
  have l: "links s us p" "links s (p # vs) (hd (us @ [p]))" using assms(1) unfolding links_append by simp_all
  have lt: "\<forall>u \<in> set us. u < p" using assms(2,3) by (auto simp: sorted_append less_le)
  have nxt: "hptr s p = hd (vs @ [hd (us @ [p])])" using l(2) by simp
  have stop: "free_stop s bp p"
  proof (cases vs)
    case Nil
    then have "hptr s p \<le> p" using nxt lt by (cases us) auto
    then show ?thesis using assms(4) by (simp add: free_stop_def)
  next
    case (Cons v vs')
    then show ?thesis using nxt assms(4,5) by (simp add: free_stop_def)
  qed
  have nus: "\<forall>u \<in> set us. \<not> free_stop s bp u"
  proof
    fix u assume "u \<in> set us"
    then obtain u1 u2 where u: "us = u1 @ u # u2" by (auto simp: in_set_conv_decomp)
    have "hptr s u = hd (u2 @ [p])" using l(1) unfolding u links_append by simp
    then have "u < hptr s u" "hptr s u \<le> p" using assms(2,3) unfolding u by (cases u2; auto simp: sorted_append)+
    then show "\<not> free_stop s bp u" using assms(4) by (auto simp: free_stop_def)
  qed
  have nvs: "\<forall>v \<in> set vs. \<not> free_stop s bp v"
  proof
    fix v assume "v \<in> set vs"
    then obtain v1 v2 where v: "vs = v1 @ v # v2" by (auto simp: in_set_conv_decomp)
    have "hptr s v = hd (v2 @ [hd (us @ [p])])" using l(2) links_append [of s "p # v1" "v # v2" "hd (us @ [p])"] by (simp add: v)
    moreover have "bp < v" using assms(5) v by simp
    moreover have "hd (us @ [p]) \<le> p" using lt by (cases us) auto
    moreover have "v2 \<noteq> [] \<Longrightarrow> v < hd v2" using assms(2,3) unfolding v by (cases v2) (auto simp: sorted_append)
    ultimately show "\<not> free_stop s bp v" using assms(4) by (cases v2) (auto simp: free_stop_def)
  qed
  consider (a) u1 u2 where "us = u1 @ f # u2" | (b) "f = p" | (c) v1 v2 where "vs = v1 @ f # v2"
    using assms(6) by (auto simp: in_set_conv_decomp)
  then show ?thesis
  proof cases
    case a
    have "links s (f # u2) p" using l(1) unfolding a links_append by simp
    from free_walk [OF this _ stop] nus show ?thesis by (simp add: a)
  next
    case b
    then show ?thesis using stop by (subst free_search.simps) simp
  next
    case c
    have "links s (f # v2) (hd (us @ [p]))" using l(2) links_append [of s "p # v1" "f # v2" "hd (us @ [p])"] by (simp add: c)
    then have "links s ((f # v2) @ us) p" unfolding links_append using l(1) by simp
    from free_walk [OF this _ stop] have "free_search s bp (hd (((f # v2) @ us) @ [p])) = Some p" using nus nvs by (auto simp: c)
    then show ?thesis by simp
  qed
qed

text \<open>
  The state half-way through an insertion: the block \<open>bp\<close> points to the free list after it, nothing points to it yet, and its predecessor is \<open>p\<close>.
\<close>

definition half_in :: "nat \<Rightarrow> heap \<Rightarrow> nat list \<Rightarrow> nat \<Rightarrow> nat \<Rightarrow> nat list \<Rightarrow> nat set \<Rightarrow> bool" where
  "half_in B s us p bp vs As \<longleftrightarrow> 0 < B \<and> hsize s B = 0 \<and> B = hd (us @ [p]) \<and> sorted (us @ p # bp # vs) \<and> distinct (us @ p # bp # vs) \<and>
     set (us @ p # bp # vs) \<inter> As = {} \<and> links s us p \<and> links s (bp # vs) B \<and> B + 8 \<le> brk s \<and>
     regions (B + 8) (brk s) (hsize s) (set (us @ p # bp # vs) - {B} \<union> As)"

lemma half_in_up:
  assumes "heap_ok B s bs (insert bp As)" "bp \<notin> As" "B # bs = us @ p # vs" "p < bp" "\<forall>v \<in> set vs. bp < v"
    and "q = hptr s p" "t = (if bp + 8 * hsize s bp = q
               then s\<lparr>hsize := (hsize s)(bp := hsize s bp + hsize s q), hptr := (hptr s)(bp := hptr s q)\<rparr>
               else s\<lparr>hptr := (hptr s)(bp := q)\<rparr>)"
  shows "\<exists>vs'. half_in B t us p bp vs' As \<and> brk t = brk s \<and> (\<forall>c. c \<noteq> bp \<longrightarrow> hsize t c = hsize s c) \<and>
    sum_list (map (hsize t) (bp # vs')) = sum_list (map (hsize s) (bp # vs)) \<and> hsize s bp \<le> hsize t bp"
proof -
  have ok: "0 < B" "hsize s B = 0" "sorted (us @ p # vs)" "distinct (us @ p # vs)" "set bs \<inter> insert bp As = {}" "links s (us @ p # vs) B"
    "B + 8 \<le> brk s" "regions (B + 8) (brk s) (hsize s) (set bs \<union> insert bp As)"
    using assms(1) unfolding heap_ok_def assms(3) by simp_all
  have B: "B = hd (us @ [p])" using assms(3) by (cases us) auto
  have bs: "set bs = set (us @ p # vs) - {B}" using assms(1,3) unfolding heap_ok_def by (metis Diff_insert_absorb distinct.simps(2) list.simps(15))
  have lt: "\<forall>u \<in> set us. u < bp" using ok(3) assms(4) by (auto simp: sorted_append)
  have l: "links s us p" "links s vs B" "q = hd (vs @ [B])" using ok(6) assms(6) unfolding links_append by simp_all
  have nb: "bp \<notin> set (us @ p # vs)" "bp \<noteq> B" using lt assms(4,5) B by (cases us; auto)+
  have NB: "B \<notin> As" using ok(8) regionsD(1) [OF ok(8), of B] by auto
  have nAs: "set (us @ p # vs) \<inter> As = {}" using ok(5) NB unfolding bs by blast
  show ?thesis
  proof (cases "bp + 8 * hsize s bp = q")
    case False
    then have t: "t = s\<lparr>hptr := (hptr s)(bp := q)\<rparr>" using assms(7) by simp
    have "links t us p" "links t vs B" using nb(1) links_frame [OF l(1)] links_frame [OF l(2)] by (simp_all add: t)
    moreover have "sorted (us @ p # bp # vs)" "distinct (us @ p # bp # vs)" "set (us @ p # bp # vs) \<inter> As = {}"
      using ok(3,4) lt assms(2,4,5) nb nAs by (auto simp: sorted_append less_imp_le)
    moreover have "set bs \<union> insert bp As = set (us @ p # bp # vs) - {B} \<union> As" using bs nb by auto
    moreover have "hsize t = hsize s" "brk t = brk s" "hptr t bp = q" by (simp_all add: t)
    ultimately have "half_in B t us p bp vs As" unfolding half_in_def using ok(1,2,7,8) B l(3) by simp
    then show ?thesis by (intro exI [of _ vs]) (simp add: t)
  next
    case True
    have ne: "vs \<noteq> []" using True l(3) nb lt assms(4) B by (cases us; cases vs) auto
    then obtain vs' where vs: "vs = q # vs'" using l(3) by (cases vs) auto
    have t: "t = s\<lparr>hsize := (hsize s)(bp := hsize s bp + hsize s q), hptr := (hptr s)(bp := hptr s q)\<rparr>" using assms(7) True by simp
    have qB: "q \<noteq> B" "q \<noteq> p" "q \<notin> As" "q \<noteq> bp" "q \<in> set bs" "q \<notin> set us" "q \<notin> set vs'" using ok(4) nb nAs B bs unfolding vs by (cases us; auto)+
    have "links t us p" "links t vs' B" using l(2) nb(1) links_frame [OF l(1)] links_frame [of s vs' B] by (simp_all add: t vs)
    moreover have "regions (B + 8) (brk s) (hsize t) ((set bs \<union> insert bp As) - {q})"
      using qB by (intro regions_merge [OF ok(8) _ _ True]) (auto simp: t)
    moreover have "(set bs \<union> insert bp As) - {q} = set (us @ p # bp # vs') - {B} \<union> As" using bs nb qB by (auto simp: vs)
    moreover have "sorted (us @ p # bp # vs')" "distinct (us @ p # bp # vs')" "set (us @ p # bp # vs') \<inter> As = {}"
      using ok(3,4) lt assms(2,4,5) nb nAs by (auto simp: sorted_append less_imp_le vs)
    moreover have "hsize t B = 0" "brk t = brk s" "hptr t bp = hd (vs' @ [B])" using ok(2) nb(2) l(2) by (simp_all add: t vs)
    ultimately have "half_in B t us p bp vs' As" unfolding half_in_def using ok(1,7) B by simp
    moreover have m: "map (hsize t) vs' = map (hsize s) vs'" using nb(1) by (simp add: t vs)
    moreover have "hsize t bp = hsize s bp + hsize s q" "\<forall>c. c \<noteq> bp \<longrightarrow> hsize t c = hsize s c" by (simp_all add: t)
    moreover have "brk t = brk s" by (simp add: t)
    ultimately show ?thesis by (intro exI [of _ vs']) (simp add: vs del: map_eq_conv)
  qed
qed

lemma half_in_down:
  assumes "half_in B s us p bp vs As"
    and "t = (if p + 8 * hsize s p = bp
               then s\<lparr>hsize := (hsize s)(p := hsize s p + hsize s bp), hptr := (hptr s)(p := hptr s bp)\<rparr>
               else s\<lparr>hptr := (hptr s)(p := bp)\<rparr>)\<lparr>freep := p\<rparr>"
  shows "\<exists>bs'. heap_ok B t bs' As \<and> brk t = brk s \<and> (\<forall>c. c \<noteq> p \<longrightarrow> hsize t c = hsize s c) \<and>
    sum_list (map (hsize t) bs') = sum_list (map (hsize s) (us @ p # bp # vs)) \<and> (\<exists>d \<in> set bs'. hsize s bp \<le> hsize t d)"
proof -
  have h: "0 < B" "hsize s B = 0" "B = hd (us @ [p])" "sorted (us @ p # bp # vs)" "distinct (us @ p # bp # vs)"
     "set (us @ p # bp # vs) \<inter> As = {}" "links s us p" "links s vs B" "hptr s bp = hd (vs @ [B])" "B + 8 \<le> brk s"
     "regions (B + 8) (brk s) (hsize s) (set (us @ p # bp # vs) - {B} \<union> As)"
    using assms(1) [unfolded half_in_def links.simps] by blast+
  have B: "B \<in> set (us @ [p])" unfolding h(3) by (cases us) auto
  then have NB: "bp \<noteq> B" "bp \<notin> As" "bp \<notin> set us" "bp \<noteq> p" using h(5,6) by auto
  show ?thesis
  proof (cases "p + 8 * hsize s p = bp")
    case False
    obtain bs' where bs': "us @ p # bp # vs = B # bs'" using h(3) by (cases us) auto
    have t: "t = s\<lparr>hptr := (hptr s)(p := bp), freep := p\<rparr>" using assms(2) False by simp
    have "links t us p" "links t vs B" using h(5) links_frame [OF h(7)] links_frame [OF h(8)] by (simp_all add: t)
    then have "links t (us @ p # bp # vs) B" unfolding links_append using h(9) NB by (simp add: t)
    moreover have "set (us @ p # bp # vs) - {B} = set bs'" using h(5) unfolding bs' by simp
    moreover have "hsize t = hsize s" "brk t = brk s" "freep t = p" by (simp_all add: t)
    moreover have "p \<in> set (B # bs')" unfolding bs' [symmetric] by simp
    moreover have "set bs' \<inter> As = {}" using h(6) unfolding bs' by simp
    ultimately have "heap_ok B t bs' As" unfolding heap_ok_def using h(1,2,4,5,10,11) unfolding bs' by simp
    moreover have "bp \<in> set bs'" using bs' NB(1) by (metis UnCI list.set_intros(1) list.set_intros(2) set_ConsD set_append)
    ultimately show ?thesis using h(2) unfolding bs' by (intro exI [of _ bs']) (auto simp: t)
  next
    case True
    have t: "t = s\<lparr>hsize := (hsize s)(p := hsize s p + hsize s bp), hptr := (hptr s)(p := hptr s bp), freep := p\<rparr>" using assms(2) True by simp
    have pB: "p \<noteq> B" using True h(2) NB by auto
    obtain us' where us': "us = B # us'" using h(3) pB by (cases us) auto
    define bs' where "bs' = us' @ p # vs"
    have "links t us p" "links t vs B" using h(5) links_frame [OF h(7)] links_frame [OF h(8)] by (simp_all add: t)
    then have "links t (us @ p # vs) B" unfolding links_append using h(9) by (simp add: t)
    moreover have "regions (B + 8) (brk s) (hsize t) (set (us @ p # bp # vs) - {B} \<union> As - {bp})"
      using NB pB by (intro regions_merge [OF h(11) _ _ True]) (auto simp: t)
    moreover have "set (us @ p # bp # vs) - {B} \<union> As - {bp} = set bs' \<union> As" using h(5,6) NB pB by (auto simp: bs'_def us')
    moreover have "hsize t B = 0" "brk t = brk s" "freep t = p" using pB h(2) by (simp_all add: t)
    moreover have "sorted (B # bs')" "distinct (B # bs')" "set bs' \<inter> As = {}" using h(4,5,6) by (auto simp: bs'_def us' sorted_append)
    ultimately have "heap_ok B t bs' As" unfolding heap_ok_def using h(1,10) by (simp add: bs'_def us')
    moreover have "map (hsize t) us' = map (hsize s) us'" "map (hsize t) vs = map (hsize s) vs" using h(5) by (simp_all add: t us')
    moreover have "hsize t p = hsize s p + hsize s bp" "p \<in> set bs'" "\<forall>c. c \<noteq> p \<longrightarrow> hsize t c = hsize s c" by (simp_all add: t bs'_def)
    ultimately show ?thesis using h(2) \<open>brk t = brk s\<close> by (intro exI [of _ bs']) (simp add: bs'_def us' del: map_eq_conv)
  qed
qed

lemma free_insert_ok:
  assumes "heap_ok B s bs (insert bp As)" "bp \<notin> As" "B # bs = us @ p # vs" "p < bp" "\<forall>v \<in> set vs. bp < v"
    and "t = free_insert bp p s"
  shows "\<exists>bs'. heap_ok B t bs' As \<and> sum_list (map (hsize t) bs') = sum_list (map (hsize s) bs) + hsize s bp \<and>
    brk t = brk s \<and> (\<forall>c \<in> As. hsize t c = hsize s c) \<and> (\<exists>d \<in> set bs'. hsize s bp \<le> hsize t d)"
proof -
  define t1 where "t1 = (if bp + 8 * hsize s bp = hptr s p
               then s\<lparr>hsize := (hsize s)(bp := hsize s bp + hsize s (hptr s p)), hptr := (hptr s)(bp := hptr s (hptr s p))\<rparr>
               else s\<lparr>hptr := (hptr s)(bp := hptr s p)\<rparr>)"
  obtain vs' where 1: "half_in B t1 us p bp vs' As" "brk t1 = brk s" "\<forall>c. c \<noteq> bp \<longrightarrow> hsize t1 c = hsize s c"
      "sum_list (map (hsize t1) (bp # vs')) = sum_list (map (hsize s) (bp # vs))" "hsize s bp \<le> hsize t1 bp"
    using half_in_up [OF assms(1-5) refl t1_def] by blast
  have "t = (if p + 8 * hsize t1 p = bp
               then t1\<lparr>hsize := (hsize t1)(p := hsize t1 p + hsize t1 bp), hptr := (hptr t1)(p := hptr t1 bp)\<rparr>
               else t1\<lparr>hptr := (hptr t1)(p := bp)\<rparr>)\<lparr>freep := p\<rparr>"
    unfolding assms(6) free_insert_def t1_def by (simp add: Let_def)
  from half_in_down [OF 1(1) this] obtain bs' where 2: "heap_ok B t bs' As" "brk t = brk t1" "\<forall>c. c \<noteq> p \<longrightarrow> hsize t c = hsize t1 c"
      "sum_list (map (hsize t) bs') = sum_list (map (hsize t1) (us @ p # bp # vs'))" "\<exists>d \<in> set bs'. hsize s bp \<le> hsize t d"
    using 1(5) order_trans by blast
  have "p \<notin> As" "bp \<notin> set (us @ [p])" using 1(1) unfolding half_in_def by auto
  then have "\<forall>c \<in> As. hsize t c = hsize s c" "map (hsize t1) (us @ [p]) = map (hsize s) (us @ [p])" using 1(3) 2(3) assms(2) by (metis, auto)
  moreover have "sum_list (map (hsize s) (B # bs)) = sum_list (map (hsize s) bs)" using assms(1) unfolding heap_ok_def by simp
  ultimately show ?thesis using 1(2,4) 2 unfolding assms(3) by (intro exI [of _ bs']) (simp del: map_eq_conv)
qed

lemma free_ok:
  assumes "heap_ok B s bs (insert a As)" "a \<notin> As"
  shows "\<exists>t bs'. free (a + 8) s = Some t \<and> heap_ok B t bs' As \<and> sum_list (map (hsize t) bs') = sum_list (map (hsize s) bs) + hsize s a \<and>
    brk t = brk s \<and> (\<forall>c \<in> As. hsize t c = hsize s c) \<and> (\<exists>d \<in> set bs'. hsize s a \<le> hsize t d)"
proof -
  have ok: "sorted (B # bs)" "distinct (B # bs)" "links s (B # bs) B" "freep s \<in> set (B # bs)" "B < a" "a \<notin> set bs"
    using assms(1) regionsD(1) [of "B + 8" "brk s" "hsize s" "set bs \<union> insert a As" a] unfolding heap_ok_def by auto
  define us where "us = takeWhile (\<lambda>x. x < a) (B # bs)"
  define vs where "vs = dropWhile (\<lambda>x. x < a) (B # bs)"
  have uv: "B # bs = us @ vs" "us \<noteq> []" using ok(5) by (simp_all add: us_def vs_def)
  have lt: "\<forall>u \<in> set us. u < a" by (auto simp: us_def dest: set_takeWhileD)
  have gt: "\<forall>v \<in> set vs. a < v"
  proof (cases vs)
    case (Cons v vs')
    then have "\<not> v < a" using hd_dropWhile [of "\<lambda>x. x < a" "B # bs"] by (simp add: vs_def)
    moreover have "v \<noteq> a" using ok(5,6) uv(1) Cons by (metis in_set_conv_decomp less_irrefl set_ConsD)
    moreover have "sorted (v # vs')" using ok(1) unfolding uv(1) Cons sorted_append by simp
    ultimately show ?thesis using Cons by auto
  qed simp
  obtain us' p where us: "us = us' @ [p]" using uv(2) by (metis rev_exhaust)
  have split: "B # bs = us' @ p # vs" using uv(1) us by simp
  have B: "B = hd (us' @ [p])" using split by (cases us') auto
  have "free_search s a (freep s) = Some p"
  proof (rule free_search_pred [of s us' p vs])
    show "links s (us' @ p # vs) (hd (us' @ [p]))" using ok(3) split B by metis
    show "sorted (us' @ p # vs)" using ok(1) unfolding split .
    show "distinct (us' @ p # vs)" using ok(2) unfolding split .
    show "freep s \<in> set (us' @ p # vs)" using ok(4) unfolding split .
    show "p < a" using lt us by simp
  qed (fact gt)
  then have "free (a + 8) s = Some (free_insert a p s)" by (simp add: free_def)
  then show ?thesis using free_insert_ok [OF assms split _ gt refl] lt us by auto
qed

section \<open>Allocating\<close>

lemma take_block_ok:
  assumes "heap_ok B s bs As" "hptr s w = d" "w \<in> set (B # bs)" "d \<in> set bs" "0 < n" "n \<le> hsize s d" "take_block n w d s = (r, t)"
  shows "\<exists>a bs'. r = Some (a + 8) \<and> a \<notin> As \<and> hsize t a = n \<and> heap_ok B t bs' (insert a As) \<and> brk t = brk s \<and>
    (\<forall>c \<in> As. hsize t c = hsize s c) \<and> sum_list (map (hsize s) bs) = sum_list (map (hsize t) bs') + n"
proof -
  have ok: "0 < B" "hsize s B = 0" "sorted (B # bs)" "distinct (B # bs)" "set bs \<inter> As = {}" "links s (B # bs) B"
    "freep s \<in> set (B # bs)" "B + 8 \<le> brk s" "regions (B + 8) (brk s) (hsize s) (set bs \<union> As)"
    using assms(1) unfolding heap_ok_def by blast+
  obtain us vs where bs: "bs = us @ d # vs" using assms(4) by (auto simp: in_set_conv_decomp)
  have dB: "d \<noteq> B" "d \<notin> As" using ok(4,5) bs by auto
  show ?thesis
  proof (cases "hsize s d = n")
    case True
    have t: "t = s\<lparr>hptr := (hptr s)(w := hptr s d), freep := w\<rparr>" "r = Some (d + 8)" using assms(7) True by (simp_all add: take_block_def)
    obtain xs y where xy: "B # us = xs @ [y]" by (metis append_butlast_last_id list.discI)
    have l: "links s (xs @ y # d # vs) B" using ok(6) xy unfolding bs by (metis append.assoc append_Cons append_Nil)
    then have l': "links s xs y" "hptr s y = d" "links s (d # vs) B" unfolding links_append by simp_all
    have "y \<in> set (B # bs)" using xy unfolding bs by (metis UnCI append_Cons in_set_conv_decomp set_append)
    then have yw: "y = w" using links_inj [OF ok(6,4)] l'(2) assms(2,3) by (metis inj_onD)
    have e: "B # us @ vs = xs @ w # vs" using xy yw by (metis append.assoc append_Cons append_Nil)
    have "B # bs = xs @ w # d # vs" using xy yw unfolding bs by (metis append.assoc append_Cons append_Nil)
    then have di: "distinct (xs @ w # d # vs)" using ok(4) by metis
    have "links t xs w" "links t vs B" using di links_frame [OF l'(1)] links_frame [of s vs B] l'(3) yw by (simp_all add: t)
    then have "links t (xs @ w # vs) B" using l'(3) unfolding links_append by (simp add: t)
    then have L: "links t (B # us @ vs) B" unfolding e .
    have R: "set (us @ vs) \<union> insert d As = set bs \<union> As" by (auto simp: bs)
    have "w \<in> set (B # us @ vs)" unfolding e by simp
    then have "heap_ok B t (us @ vs) (insert d As)"
      unfolding heap_ok_def R using ok L unfolding bs by (auto simp: t sorted_append)
    then show ?thesis using True dB by (intro exI [of _ d] exI [of _ "us @ vs"]) (simp add: t bs)
  next
    case False
    define a where "a = d + 8 * (hsize s d - n)"
    have lt: "n < hsize s d" using assms(6) False by simp
    have t: "t = s\<lparr>hsize := (hsize s)(d := hsize s d - n, a := n), freep := w\<rparr>" "r = Some (a + 8)" 
      using assms(7) False by (simp_all add: take_block_def Let_def a_def)
    have c: "a \<notin> set bs \<union> As" "regions (B + 8) (brk s) (hsize t) (insert a (set bs \<union> As))"
      using assms(4,5) lt regions_cut [OF ok(9) _ assms(5) lt a_def] by (simp_all add: t)
    have aB: "a \<noteq> B" "a \<noteq> d" using regionsD(1) [OF c(2), of a] c(1) assms(4) by auto
    have "links t (B # bs) B" using ok(6) links_cong [of "B # bs" t s B] by (simp add: t)
    then have "heap_ok B t bs (insert a As)" unfolding heap_ok_def using ok c aB dB assms(3) by (simp add: t)
    moreover have "map (hsize t) us = map (hsize s) us" "map (hsize t) vs = map (hsize s) vs" using ok(4) c(1) unfolding bs by (auto simp: t)
    moreover have "\<forall>x \<in> As. hsize t x = hsize s x" "brk t = brk s" "hsize t a = n" "hsize t d = hsize s d - n" using c(1) dB aB by (auto simp: t)
    ultimately show ?thesis using c(1) lt by (intro exI [of _ a] exI [of _ bs]) (simp add: t(2) bs del: map_eq_conv)
  qed
qed

lemma morecore_ok:
  assumes "heap_ok B s bs As" "nu < 536870912"
  shows "morecore grant nu s = Some (None, s) \<or>
    (\<exists>t bs'. morecore grant nu s = Some (Some (freep t), t) \<and> heap_ok B t bs' As \<and> (\<forall>c \<in> As. hsize t c = hsize s c) \<and> (\<exists>d \<in> set bs'. nu \<le> hsize t d))"
proof -
  define m where "m = (if nu < 4096 then 4096 else nu)"
  have "8 * m < 4294967296" using assms(2) by (simp add: m_def)
  then have n: "unat (of_nat m * 8 :: u32) = 8 * m" by (simp add: unat_word_ariths unat_of_nat mult.commute)
  have ok: "regions (B + 8) (brk s) (hsize s) (set bs \<union> As)" "B + 8 \<le> brk s" using assms(1) unfolding heap_ok_def by blast+
  define s1 where "s1 = s\<lparr>brk := brk s + 8 * m, hsize := (hsize s)(brk s := m)\<rparr>"
  have m: "0 < m" "nu \<le> m" by (simp_all add: m_def)
  have nin: "brk s \<notin> set bs \<union> As" using regionsD(1) [OF ok(1), of "brk s"] by auto
  have "regions (B + 8) (brk s1) (hsize s1) (insert (brk s) (set bs \<union> As))"
  proof (rule regions_insert)
    show "regions (B + 8) (brk s1) (hsize s1) (set bs \<union> As)" using nin by (intro regions_mono [OF ok(1)]) (auto simp: s1_def)
    show "a + 8 * hsize s1 a \<le> brk s \<or> brk s + 8 * hsize s1 (brk s) \<le> a" if "a \<in> set bs \<union> As" "a \<noteq> brk s" for a
      using regionsD(1) [OF ok(1) that(1)] that(2) by (simp add: s1_def)
  qed (use ok(2) m in \<open>simp_all add: s1_def\<close>)
  moreover have "links s1 (B # bs) B = links s (B # bs) B" by (rule links_cong) (simp add: s1_def)
  ultimately have "heap_ok B s1 bs (insert (brk s) As)" using assms(1) nin unfolding heap_ok_def by (simp add: s1_def)
  from free_ok [OF this] nin obtain t bs' where t: "free (brk s + 8) s1 = Some t" "heap_ok B t bs' As"
      "\<forall>c \<in> As. hsize t c = hsize s1 c" "\<exists>d \<in> set bs'. hsize s1 (brk s) \<le> hsize t d" by blast
  have "\<forall>c \<in> As. hsize t c = hsize s c" using t(3) nin by (auto simp: s1_def)
  moreover have "\<exists>d \<in> set bs'. nu \<le> hsize t d" using t(4) m(2) by (auto simp: s1_def intro: order_trans)
  moreover have "morecore grant nu s = (if grant (brk s) (8 * m) then Some (Some (freep t), t) else Some (None, s))"
    unfolding morecore_def m_def [symmetric] using t(1) n by (simp add: Let_def s1_def)
  ultimately show ?thesis using t(2) by auto
qed

text \<open>The walk of \<open>malloc\<close> around the circle: it stops before the first block that is large enough.\<close>

lemma malloc_hit:
  "links s (w # ws) d \<Longrightarrow> \<forall>x \<in> set ws. hsize s x < n \<and> x \<noteq> freep s \<Longrightarrow> n \<le> hsize s d \<Longrightarrow>
   malloc_loop grant n w s = Some (take_block n (last (w # ws)) d s)"
proof (induction ws arbitrary: w)
  case Nil
  then show ?case by (simp add: malloc_loop.simps [of grant n w])
next
  case (Cons x ws)
  then show ?case by (simp add: malloc_loop.simps [of grant n w] not_le)
qed

lemma malloc_miss:
  "links s (w # ws) d \<Longrightarrow> \<forall>x \<in> set ws. hsize s x < n \<and> x \<noteq> freep s \<Longrightarrow> hsize s d < n \<Longrightarrow> d = freep s \<Longrightarrow>
   malloc_loop grant n w s = Option.bind (morecore grant n s)
        (\<lambda>(r, t). case r of None \<Rightarrow> Some (None, t) | Some p \<Rightarrow> malloc_loop grant n p t)"
proof (induction ws arbitrary: w)
  case Nil
  then show ?case by (simp add: malloc_loop.simps [of grant n w] not_le)
next
  case (Cons x ws)
  then show ?case by (simp add: malloc_loop.simps [of grant n w] not_le)
qed

text \<open>The circle seen from \<open>freep\<close>.\<close>

lemma heap_circle:
  assumes "heap_ok B s bs As"
  obtains ws where "links s (freep s # ws) (freep s)" "distinct (freep s # ws)" "set (freep s # ws) = set (B # bs)"
proof -
  have "freep s \<in> set (B # bs)" using assms unfolding heap_ok_def by blast
  then obtain us vs where e: "B # bs = us @ freep s # vs" by (auto simp only: in_set_conv_decomp)
  have B: "B = hd (us @ [freep s])" using e by (cases us) auto
  have "links s (us @ freep s # vs) (hd (us @ [freep s]))" "distinct (us @ freep s # vs)"
    using assms unfolding heap_ok_def e B [symmetric] by blast+
  then have "links s (freep s # vs @ us) (freep s)" "distinct (freep s # vs @ us)"
    by (simp only: links_rotate, auto)
  moreover have "set (freep s # vs @ us) = set (B # bs)" unfolding e by auto
  ultimately show ?thesis by (rule that)
qed

text \<open>With a large enough block in the list, a block is found; without one, the kernel is asked.\<close>

lemma malloc_loop_found:
  assumes "heap_ok B s bs As" "d \<in> set bs" "n \<le> hsize s d" "0 < n"
  shows "\<exists>a t bs'. malloc_loop grant n (freep s) s = Some (Some (a + 8), t) \<and> a \<notin> As \<and> hsize t a = n \<and> heap_ok B t bs' (insert a As) \<and>
    brk t = brk s \<and> (\<forall>c \<in> As. hsize t c = hsize s c)"
proof -
  obtain ws where w: "links s (freep s # ws) (freep s)" "distinct (freep s # ws)" "set (freep s # ws) = set (B # bs)"
    using heap_circle [OF assms(1)] .
  have "d \<in> set (ws @ [freep s])" using assms(2) w(3) by auto
  then have "\<exists>x \<in> set (ws @ [freep s]). n \<le> hsize s x" using assms(3) by blast
  then obtain us e vs where e: "ws @ [freep s] = us @ e # vs" "n \<le> hsize s e" "\<forall>x \<in> set us. \<not> n \<le> hsize s x"
    using split_list_first_prop [of "ws @ [freep s]" "\<lambda>x. n \<le> hsize s x"] by blast
  have l: "links s (freep s # us) e"
  proof -
    have "\<exists>vs'. (freep s # ws) = (freep s # us) @ vs' \<and> hd (vs' @ [freep s]) = e"
      using e(1) by (cases vs rule: rev_cases) auto
    then show ?thesis using w(1) links_append by metis
  qed
  have "set us \<subseteq> set ws" using e(1) by (cases vs rule: rev_cases) auto
  then have hit: "malloc_loop grant n (freep s) s = Some (take_block n (last (freep s # us)) e s)"
    using e(3) w(2) by (intro malloc_hit [OF l _ e(2)]) (auto simp: not_le)
  have "e \<in> set (B # bs)" using e(1) w(3) by (metis in_set_conv_decomp insert_iff list.set(2) rotate1.simps(2) set_rotate1)
  moreover have "e \<noteq> B" using e(2) assms(1,4) unfolding heap_ok_def by auto
  ultimately have eb: "e \<in> set bs" by simp
  have "hptr s (last (freep s # us)) = e" 
    using l links_map [OF _ l] by (metis last_map last_snoc list.discI)
  moreover have "last (freep s # us) \<in> set (B # bs)" using \<open>set us \<subseteq> set ws\<close> w(3) by (metis last_in_set list.discI list.set(2) insert_mono subsetD)
  moreover obtain r t where rt: "take_block n (last (freep s # us)) e s = (r, t)" by (cases "take_block n (last (freep s # us)) e s")
  ultimately obtain a bs' where "r = Some (a + 8)" "a \<notin> As" "hsize t a = n" "heap_ok B t bs' (insert a As)" "brk t = brk s"
      "\<forall>c \<in> As. hsize t c = hsize s c"
    using take_block_ok [OF assms(1) _ _ eb assms(4) e(2)] by blast
  then show ?thesis using hit rt by (intro exI [of _ a] exI [of _ t] exI [of _ bs']) simp
qed

lemma malloc_loop_ok:
  assumes "heap_ok B s bs As" "0 < n" "n < 536870912"
  shows "\<exists>r t bs'. malloc_loop grant n (freep s) s = Some (r, t) \<and> (\<forall>c \<in> As. hsize t c = hsize s c) \<and>
    (case r of None \<Rightarrow> heap_ok B t bs' As \<and> (\<exists>p k. \<not> grant p k) | Some p \<Rightarrow> \<exists>a. p = a + 8 \<and> a \<notin> As \<and> hsize t a = n \<and> heap_ok B t bs' (insert a As))"
proof (cases "\<exists>d \<in> set bs. n \<le> hsize s d")
  case True
  then obtain d where "d \<in> set bs" "n \<le> hsize s d" by blast
  from malloc_loop_found [OF assms(1) this assms(2), of grant] obtain a t bs' where
    "malloc_loop grant n (freep s) s = Some (Some (a + 8), t)" "a \<notin> As" "hsize t a = n" "heap_ok B t bs' (insert a As)" "\<forall>c \<in> As. hsize t c = hsize s c"
    by blast
  then show ?thesis by (intro exI [of _ "Some (a + 8)"] exI [of _ t] exI [of _ bs']) simp
next
  case False
  obtain ws where w: "links s (freep s # ws) (freep s)" "distinct (freep s # ws)" "set (freep s # ws) = set (B # bs)"
    using heap_circle [OF assms(1)] .
  have "hsize s B < n" using assms(1,2) unfolding heap_ok_def by simp
  then have "\<forall>x \<in> set (freep s # ws). hsize s x < n" using False unfolding w(3) by (auto simp: not_le)
  then have miss: "malloc_loop grant n (freep s) s = Option.bind (morecore grant n s)
        (\<lambda>(r, t). case r of None \<Rightarrow> Some (None, t) | Some p \<Rightarrow> malloc_loop grant n p t)"
    using w(2) by (intro malloc_miss [OF w(1)]) auto
  from morecore_ok [OF assms(1,3), of grant] show ?thesis
  proof (elim disjE exE conjE)
    assume m: "morecore grant n s = Some (None, s)"
    then have "\<exists>p k. \<not> grant p k" unfolding morecore_def by (auto simp: Let_def split: if_splits)
    then show ?thesis using miss m assms(1) by (intro exI [of _ None] exI [of _ s] exI [of _ bs]) simp
  next
    fix t bs' assume m: "morecore grant n s = Some (Some (freep t), t)" "heap_ok B t bs' As" "\<forall>c \<in> As. hsize t c = hsize s c"
      "\<exists>d \<in> set bs'. n \<le> hsize t d"
    then obtain d where "d \<in> set bs'" "n \<le> hsize t d" by blast
    from malloc_loop_found [OF m(2) this assms(2), of grant] obtain a t' bs'' where
      "malloc_loop grant n (freep t) t = Some (Some (a + 8), t')" "a \<notin> As" "hsize t' a = n" "heap_ok B t' bs'' (insert a As)"
      "\<forall>c \<in> As. hsize t' c = hsize t c" by blast
    then show ?thesis using miss m(1,3) by (intro exI [of _ "Some (a + 8)"] exI [of _ t'] exI [of _ bs'']) simp
  qed
qed

text \<open>A heap between two calls: untouched, or with its list; \<open>As\<close> are the headers of the blocks in use.\<close>

definition heap_inv :: "nat \<Rightarrow> heap \<Rightarrow> nat set \<Rightarrow> bool" where
  "heap_inv B s As \<longleftrightarrow> (freep s = 0 \<and> As = {} \<and> 0 < B \<and> B + 8 \<le> brk s) \<or> (\<exists>bs. heap_ok B s bs As)"

definition extent :: "heap \<Rightarrow> nat \<Rightarrow> nat set" where
  "extent s a = {a ..< a + 8 * hsize s a}"

lemma nunits_exact:
  assumes "unat nbytes < 4294967280"
  shows "nunits nbytes = (unat nbytes + 7) div 8 + 1" "nunits nbytes < 536870912" "unat nbytes + 8 \<le> 8 * nunits nbytes"
proof -
  have "unat (nbytes + 8 - 1) = unat nbytes + 7" using assms by (simp add: unat_word_ariths)
  then have "unat ((nbytes + 8 - 1) div 8) = (unat nbytes + 7) div 8" unfolding unat_div by simp
  moreover have "(unat nbytes + 7) div 8 + 1 < 536870912" using assms by simp
  ultimately show n: "nunits nbytes = (unat nbytes + 7) div 8 + 1" "nunits nbytes < 536870912"
    unfolding nunits_def by (simp_all add: unat_word_ariths)
  show "unat nbytes + 8 \<le> 8 * nunits nbytes" unfolding n(1) by simp
qed

lemma heap_ok_disjoint:
  assumes "heap_ok B s bs As" "a \<in> As" "c \<in> As" "a \<noteq> c"
  shows "extent s a \<inter> extent s c = {}"
  using regionsD(2) [of "B + 8" "brk s" "hsize s" "set bs \<union> As" a c] assms unfolding heap_ok_def extent_def by auto

lemma heap_start:
  assumes "heap_inv B s As" "s' = (if freep s = 0 then s\<lparr>hptr := (hptr s)(B := B), freep := B, hsize := (hsize s)(B := 0)\<rparr> else s)"
  shows "\<exists>bs. heap_ok B s' bs As \<and> (\<forall>c \<in> As. hsize s' c = hsize s c)"
proof (cases "freep s = 0")
  case True
  have "\<not> heap_ok B s bs As" for bs using True regionsD(1) [of "B + 8" "brk s" "hsize s" "set bs \<union> As" 0] unfolding heap_ok_def by auto
  then have "As = {}" "0 < B" "B + 8 \<le> brk s" using assms(1) unfolding heap_inv_def by blast+
  then have "heap_ok B s' [] As" using assms(2) True by (simp add: heap_ok_def regions_def)
  then show ?thesis using \<open>As = {}\<close> by auto
next
  case False
  then show ?thesis using assms unfolding heap_inv_def by auto
qed

lemma malloc_ok:
  assumes "heap_inv B s As" "unat nbytes < 4294967280"
  shows "\<exists>r t. malloc grant B nbytes s = Some (r, t) \<and> (\<forall>c \<in> As. hsize t c = hsize s c) \<and>
      (case r of None \<Rightarrow> heap_inv B t As \<and> (\<exists>p k. \<not> grant p k)
       | Some p \<Rightarrow> \<exists>a. p = a + 8 \<and> a \<notin> As \<and> unat nbytes + 8 \<le> 8 * hsize t a \<and> (\<forall>c \<in> As. extent t a \<inter> extent t c = {}) \<and> heap_inv B t (insert a As))"
proof -
  define s' where "s' = (if freep s = 0 then s\<lparr>hptr := (hptr s)(B := B), freep := B, hsize := (hsize s)(B := 0)\<rparr> else s)"
  from heap_start [OF assms(1) s'_def] obtain bs where bs: "heap_ok B s' bs As" "\<forall>c \<in> As. hsize s' c = hsize s c" by blast
  note n = nunits_exact [OF assms(2)]
  have "0 < nunits nbytes" using n(1) by simp
  from malloc_loop_ok [OF bs(1) this n(2), of grant] obtain r t bs' where
    r: "malloc_loop grant (nunits nbytes) (freep s') s' = Some (r, t)" "\<forall>c \<in> As. hsize t c = hsize s' c"
      "case r of None \<Rightarrow> heap_ok B t bs' As \<and> (\<exists>p k. \<not> grant p k)
       | Some p \<Rightarrow> \<exists>a. p = a + 8 \<and> a \<notin> As \<and> hsize t a = nunits nbytes \<and> heap_ok B t bs' (insert a As)" by blast
  have "case r of None \<Rightarrow> heap_inv B t As \<and> (\<exists>p k. \<not> grant p k)
       | Some p \<Rightarrow> \<exists>a. p = a + 8 \<and> a \<notin> As \<and> unat nbytes + 8 \<le> 8 * hsize t a \<and> (\<forall>c \<in> As. extent t a \<inter> extent t c = {}) \<and> heap_inv B t (insert a As)"
  proof (cases r)
    case None
    then show ?thesis using r(3) by (auto simp: heap_inv_def)
  next
    case (Some p)
    then obtain a where a: "p = a + 8" "a \<notin> As" "hsize t a = nunits nbytes" "heap_ok B t bs' (insert a As)" using r(3) by auto
    then have "\<forall>c \<in> As. extent t a \<inter> extent t c = {}" using heap_ok_disjoint [OF a(4)] by auto
    then show ?thesis using a n(3) Some unfolding heap_inv_def by auto
  qed
  then show ?thesis
    using r(1,2) bs(2) unfolding malloc_def s'_def [symmetric] Let_def by (intro exI [of _ r] exI [of _ t]) simp
qed

lemma free_inv_ok:
  assumes "heap_inv B s As" "a \<in> As"
  shows "\<exists>t. free (a + 8) s = Some t \<and> heap_inv B t (As - {a}) \<and> (\<forall>c \<in> As - {a}. hsize t c = hsize s c)"
proof -
  obtain bs where "heap_ok B s bs (insert a (As - {a}))" using assms unfolding heap_inv_def by (auto simp: insert_absorb)
  from free_ok [OF this] show ?thesis unfolding heap_inv_def by blast
qed


definition heap_eg :: heap where
  "heap_eg = \<lparr>hptr = (\<lambda>a. if a = 16 then 4120 else 16), hsize = (\<lambda>a. if a = 4096 then 3 else if a = 4120 then 10 else 0), freep = 16, brk = 4200\<rparr>"


end
