(* ===== verification/Mlfq.thy ===== *)
theory Mlfq imports Proc
begin

text \<open>
  The scheduler of Project2-2 (kernel/proc.c there): four queues, 3 the highest. A process runs 8 ticks at level 3, 16 at 2, 32 at 1, and a process
  that waits long enough at a level moves up.  The table is the list of its entries, reduced to the fields the scheduler reads and writes; an entry's
  arrays have the levels as indices, and an index outside them is a fault.  The scheduler runs on one CPU; it is a coroutine, so a step
  goes from where a process gives the CPU back to the next \<open>swtch\<close>, or to the end of the pass over the table.
\<close>

record mproc =
  mstate :: procstate
  mpid :: int
  mprio :: int
  mticks :: "int list"
  mwait :: "int list"
  minuse :: int

section \<open>The code\<close>

definition clkPerPrio :: "int list" where
  "clkPerPrio = [1000, 32, 16, 8]"

definition clkWait :: "int list" where
  "clkWait = [500, 320, 160, 0]"

definition cell :: "int list \<Rightarrow> int \<Rightarrow> int res" where
  "cell xs i = (if 0 \<le> i \<and> i < int (length xs) then Inr (xs ! nat i) else Inl (Fault ''index out of the array''))"

definition set_cell :: "int list \<Rightarrow> int \<Rightarrow> int \<Rightarrow> int list res" where
  "set_cell xs i v = (if 0 \<le> i \<and> i < int (length xs) then Inr (xs[nat i := v]) else Inl (Fault ''index out of the array''))"

text \<open>The entry \<open>allocproc\<close> hands out.  When there is none it writes to the one after the last.\<close>

definition fresh_entry :: "int \<Rightarrow> mproc \<Rightarrow> mproc" where
  "fresh_entry n p = p\<lparr>mstate := EMBRYO, mpid := n, minuse := 0, mprio := 3, mticks := [0, 0, 0, 0], mwait := [0, 0, 0, 0]\<rparr>"

definition mlfq_alloc :: "int \<Rightarrow> mproc list \<Rightarrow> (nat \<times> mproc list) res" where
  "mlfq_alloc n tab = (case find (\<lambda>i. mstate (tab ! i) = UNUSED) [0..<length tab] of
     None \<Rightarrow> Inl (Fault ''entry after the table'')
   | Some i \<Rightarrow> Inr (i, tab[i := fresh_entry n (tab ! i)]))"

text \<open>One tick of waiting for the entry \<open>s\<close>, and the loop over the table.\<close>

definition age :: "mproc \<Rightarrow> mproc res" where
  "age s = kbind (cell (mwait s) (mprio s)) (\<lambda>w. kbind (set_cell (mwait s) (mprio s) (w + 1)) (\<lambda>ws.
     let s = s\<lparr>mwait := ws\<rparr> in
     if mprio s < 3 then kbind (cell clkWait (mprio s)) (\<lambda>c.
       if w + 1 \<ge> c then let s = s\<lparr>mprio := mprio s + 1\<rparr> in kbind (set_cell (mwait s) (mprio s) 0) (\<lambda>ws. Inr (s\<lparr>mwait := ws\<rparr>))
       else Inr s)
     else Inr s))"

fun age_all :: "mproc list \<Rightarrow> mproc list res" where
  "age_all [] = Inr []"
| "age_all (s # ss) = kbind (age s) (\<lambda>s. kbind (age_all ss) (\<lambda>ss. Inr (s # ss)))"

text \<open>What is done before the switch to the entry \<open>i\<close>.\<close>

definition dispatch :: "nat \<Rightarrow> mproc list \<Rightarrow> mproc list res" where
  "dispatch i tab = (let p = tab ! i in
     kbind (set_cell (mwait p) (mprio p) (- 1)) (\<lambda>ws. kbind (age_all (tab[i := p\<lparr>mwait := ws\<rparr>])) (\<lambda>tab. let p = tab ! i in
       kbind (cell (mticks p) (mprio p)) (\<lambda>t. kbind (set_cell (mticks p) (mprio p) (t + 1)) (\<lambda>ts.
         Inr (tab[i := p\<lparr>mticks := ts, minuse := 1, mstate := RUNNING\<rparr>]))))))"

text \<open>What is done after it, at the end of the body of the loop over \<open>cou\<close>.\<close>

definition demote :: "nat \<Rightarrow> mproc list \<Rightarrow> mproc list res" where
  "demote i tab = (let p = tab ! i in
     if mprio p > 0 then kbind (cell (mticks p) (mprio p)) (\<lambda>t. kbind (cell clkPerPrio (mprio p)) (\<lambda>c.
       if t \<ge> c then let p = p\<lparr>mprio := mprio p - 1\<rparr> in kbind (set_cell (mticks p) (mprio p) 0) (\<lambda>ts. Inr (tab[i := p\<lparr>mticks := ts\<rparr>]))
       else Inr tab))
     else Inr tab)"

text \<open>The loop over \<open>cou\<close> up to its next switch: \<open>None\<close> when it is over.\<close>

definition slice :: "nat \<Rightarrow> int \<Rightarrow> mproc list \<Rightarrow> mproc list option res" where
  "slice i cou tab = kbind (cell clkPerPrio (mprio (tab ! i))) (\<lambda>c.
     if cou < c \<and> mstate (tab ! i) = RUNNABLE then kbind (dispatch i tab) (\<lambda>tab. Inr (Some tab)) else Inr None)"

definition max_pri :: "mproc list \<Rightarrow> int" where
  "max_pri tab = fold (\<lambda>p m. if mstate p = RUNNABLE \<and> mprio p > m then mprio p else m) tab 0"

text \<open>
  Where a process gives the CPU back to: the start of a pass (when nobody had it), the loop over \<open>cou\<close>, or the branch of level 0; \<open>m\<close> is \<open>max_pri\<close>.
\<close>

datatype spos = Top | Slice int nat int | Zero int nat

definition enter :: "nat \<Rightarrow> mproc list \<Rightarrow> (int \<times> mproc list) res" where
  "enter i tab = (let p = tab ! i in
     kbind (cell (mticks p) (mprio p)) (\<lambda>t. kbind (cell clkPerPrio (mprio p)) (\<lambda>c.
       kbind (if t = c then set_cell (mticks p) (mprio p) 0 else Inr (mticks p)) (\<lambda>ts.
         kbind (cell ts (mprio p)) (\<lambda>cou. Inr (cou, tab[i := p\<lparr>mticks := ts\<rparr>]))))))"

function scan :: "int \<Rightarrow> nat \<Rightarrow> mproc list \<Rightarrow> (nat option \<times> spos \<times> mproc list) res" where
  "scan m i tab =
     (if i \<ge> NPROC then Inr (None, Top, tab)
      else if mstate (tab ! i) = RUNNABLE \<and> mprio (tab ! i) = m then
        (if mprio (tab ! i) > 0 then kbind (enter i tab) (\<lambda>(cou, tab). kbind (slice i cou tab) (\<lambda>r. case r of
            Some tab \<Rightarrow> Inr (Some i, Slice m i cou, tab)
          | None \<Rightarrow> scan m (Suc i) tab))
         else if mprio (tab ! i) = 0 then kbind (dispatch i tab) (\<lambda>tab. Inr (Some i, Zero m i, tab))
         else scan m (Suc i) tab)
      else scan m (Suc i) tab)"
  by pat_completeness auto
termination by (relation "measure (\<lambda>(m, i, tab). NPROC - i)") auto

declare scan.simps [simp del]

definition mlfq_step :: "spos \<Rightarrow> mproc list \<Rightarrow> (nat option \<times> spos \<times> mproc list) res" where
  "mlfq_step pos tab = (case pos of
     Top \<Rightarrow> scan (max_pri tab) 0 tab
   | Slice m i cou \<Rightarrow> kbind (demote i tab) (\<lambda>tab. kbind (slice i (cou + 1) tab) (\<lambda>r. case r of
        Some tab \<Rightarrow> Inr (Some i, Slice m i (cou + 1), tab)
      | None \<Rightarrow> scan m (Suc i) tab))
   | Zero m i \<Rightarrow> scan m (Suc i) tab)"

text \<open>\<open>helper\<close>, the body of the system call \<open>getpinfo\<close>.\<close>

record pstat =
  ps_inuse :: "int list"
  ps_pid :: "int list"
  ps_priority :: "int list"
  ps_state :: "procstate list"
  ps_ticks :: "int list list"
  ps_wait :: "int list list"

definition helper :: "mproc list \<Rightarrow> pstat" where
  "helper tab = \<lparr>ps_inuse = map minuse tab, ps_pid = map mpid tab, ps_priority = map mprio tab, ps_state = map mstate tab,
     ps_ticks = map (\<lambda>p. take 4 (mticks p)) tab, ps_wait = map (\<lambda>p. take 4 (mwait p)) tab\<rparr>"

section \<open>Levels and counters\<close>

definition entry_ok :: "mproc \<Rightarrow> bool" where
  "entry_ok p \<longleftrightarrow> 0 \<le> mprio p \<and> mprio p \<le> 3 \<and> length (mticks p) = 4 \<and> length (mwait p) = 4 \<and>
     (\<forall>l < 4. 0 \<le> mticks p ! l \<and> 0 \<le> mwait p ! l) \<and> (\<forall>l \<in> {1..<4}. mticks p ! l \<le> clkPerPrio ! l)"

definition mlfq_ok :: "mproc list \<Rightarrow> bool" where
  "mlfq_ok tab \<longleftrightarrow> length tab = NPROC \<and> (\<forall>p \<in> set tab. entry_ok p)"

text \<open>The process the scheduler has left the CPU to has used at most the ticks it counts.\<close>

definition pos_ok :: "spos \<Rightarrow> mproc list \<Rightarrow> bool" where
  "pos_ok pos tab = (case pos of Top \<Rightarrow> True
     | Slice m i cou \<Rightarrow> 0 < m \<and> m \<le> 3 \<and> i < NPROC \<and> 0 \<le> cou \<and> cou < 1000 \<and> mticks (tab ! i) ! nat (mprio (tab ! i)) \<le> cou + 1
     | Zero m i \<Rightarrow> m = 0 \<and> i < NPROC)"

lemma cell_ok [simp]: "length xs = 4 \<Longrightarrow> 0 \<le> i \<Longrightarrow> i \<le> 3 \<Longrightarrow> cell xs i = Inr (xs ! nat i)"
  "length xs = 4 \<Longrightarrow> 0 \<le> i \<Longrightarrow> i \<le> 3 \<Longrightarrow> set_cell xs i v = Inr (xs[nat i := v])"
  by (simp_all add: cell_def set_cell_def)

lemma clk_length [simp]: "length clkPerPrio = 4" "length clkWait = 4"
  by (simp_all add: clkPerPrio_def clkWait_def)

lemma level_cases:
  assumes "0 \<le> l" "l \<le> (3::int)"
  obtains "l = 0" | "l = 1" | "l = 2" | "l = 3"
  using assms by fastforce

text \<open>The tick of waiting as a function of a sound entry.\<close>

definition aged :: "mproc \<Rightarrow> mproc" where
  "aged s = (let l = nat (mprio s); w = mwait s ! l + 1; ws = (mwait s)[l := w] in
     if mprio s < 3 \<and> w \<ge> clkWait ! l then s\<lparr>mprio := mprio s + 1, mwait := ws[l + 1 := 0]\<rparr> else s\<lparr>mwait := ws\<rparr>)"

lemma age_aged:
  assumes "0 \<le> mprio s" "mprio s \<le> 3" "length (mwait s) = 4"
  shows "age s = Inr (aged s)"
  using assms by (auto simp: age_def aged_def Let_def nat_add_distrib)

lemma age_all_aged: "\<forall>s \<in> set ss. 0 \<le> mprio s \<and> mprio s \<le> 3 \<and> length (mwait s) = 4 \<Longrightarrow> age_all ss = Inr (map aged ss)"
  by (induction ss) (simp_all add: age_aged)

lemma aged_fields [simp]: "mstate (aged s) = mstate s" "mticks (aged s) = mticks s" "mpid (aged s) = mpid s" "minuse (aged s) = minuse s"
  by (simp_all add: aged_def Let_def)

definition ran :: "mproc \<Rightarrow> mproc" where
  "ran p = (let l = nat (mprio p) in p\<lparr>mwait := (mwait p)[l := 0], mticks := (mticks p)[l := mticks p ! l + 1], minuse := 1, mstate := RUNNING\<rparr>)"

lemma entry_okD:
  assumes "entry_ok p"
  shows "0 \<le> mprio p" "mprio p \<le> 3" "nat (mprio p) < 4" "length (mticks p) = 4" "length (mwait p) = 4"
    "l < 4 \<Longrightarrow> 0 \<le> mticks p ! l" "l < 4 \<Longrightarrow> 0 \<le> mwait p ! l" "0 < l \<Longrightarrow> l < 4 \<Longrightarrow> mticks p ! l \<le> clkPerPrio ! l"
  using assms by (auto simp: entry_ok_def)

lemma clkWait_pos: "0 \<le> l \<Longrightarrow> l < 3 \<Longrightarrow> 0 < clkWait ! nat l"
  by (elim level_cases [of l] | simp add: clkWait_def)+

lemma clkPerPrio_pos: "l < 4 \<Longrightarrow> 0 < clkPerPrio ! l"
  by (auto simp: clkPerPrio_def nth_Cons split: nat.splits)

lemma aged_ok: "entry_ok p \<Longrightarrow> entry_ok (aged p)"
  unfolding entry_ok_def aged_def Let_def by (auto simp: nth_list_update)

lemma aged_waited: "entry_ok p \<Longrightarrow> aged (p\<lparr>mwait := (mwait p)[nat (mprio p) := - 1]\<rparr>) = p\<lparr>mwait := (mwait p)[nat (mprio p) := 0]\<rparr>"
  using clkWait_pos [of "mprio p"] entry_okD [of p] by (auto simp: aged_def Let_def)

lemma dispatch_spec:
  assumes "mlfq_ok tab" "i < NPROC"
  shows "dispatch i tab = Inr ((map aged tab)[i := ran (tab ! i)])"
proof -
  have l: "length tab = NPROC" and e: "entry_ok (tab ! i)" using assms by (auto simp: mlfq_ok_def)
  note d = entry_okD [OF e]
  let ?p = "(tab ! i)\<lparr>mwait := (mwait (tab ! i))[nat (mprio (tab ! i)) := - 1]\<rparr>"
  have "age_all (tab[i := ?p]) = Inr (map aged (tab[i := ?p]))"
    using assms(1) d by (intro age_all_aged) (auto simp: mlfq_ok_def entry_ok_def dest!: set_update_subset_insert [THEN subsetD])
  moreover have "map aged (tab[i := ?p]) ! i = (tab ! i)\<lparr>mwait := (mwait (tab ! i))[nat (mprio (tab ! i)) := 0]\<rparr>"
    using aged_waited [OF e] assms(2) l by simp
  ultimately show ?thesis using d by (simp add: dispatch_def Let_def ran_def map_update)
qed

lemma ran_ok:
  assumes "entry_ok p" "0 < mprio p \<Longrightarrow> mticks p ! nat (mprio p) < clkPerPrio ! nat (mprio p)"
  shows "entry_ok (ran p)"
proof -
  have "Suc 0 \<le> nat (mprio p) \<Longrightarrow> mticks p ! nat (mprio p) + 1 \<le> clkPerPrio ! nat (mprio p)"
    by (cases "0 < mprio p") (use assms(2) in simp_all)
  then show ?thesis using assms(1) unfolding entry_ok_def ran_def Let_def by (auto simp: nth_list_update)
qed

lemma dispatched_ok:
  assumes "mlfq_ok tab" "i < NPROC" "0 < mprio (tab ! i) \<Longrightarrow> mticks (tab ! i) ! nat (mprio (tab ! i)) < clkPerPrio ! nat (mprio (tab ! i))"
  shows "mlfq_ok ((map aged tab)[i := ran (tab ! i)])"
  using assms ran_ok [of "tab ! i"] aged_ok unfolding mlfq_ok_def by (auto dest!: set_update_subset_insert [THEN subsetD])

text \<open>After a tick the running process is one level down when it has used its time there, and has time left where it is.\<close>

lemma demote_ok:
  assumes "mlfq_ok tab" "i < NPROC"
  shows "\<exists>p. demote i tab = Inr (tab[i := p]) \<and> entry_ok p \<and> (0 < mprio p \<longrightarrow> mticks p ! nat (mprio p) < clkPerPrio ! nat (mprio p)) \<and>
    mstate p = mstate (tab ! i) \<and> mticks p ! nat (mprio p) \<le> mticks (tab ! i) ! nat (mprio (tab ! i))"
proof -
  have l: "length tab = NPROC" and e: "entry_ok (tab ! i)" using assms by (auto simp: mlfq_ok_def)
  note d = entry_okD [OF e]
  let ?l = "nat (mprio (tab ! i))"
  show ?thesis
  proof (cases "0 < mprio (tab ! i) \<and> mticks (tab ! i) ! ?l \<ge> clkPerPrio ! ?l")
    case True
    define p where "p = (tab ! i)\<lparr>mprio := mprio (tab ! i) - 1, mticks := (mticks (tab ! i))[nat (mprio (tab ! i) - 1) := 0]\<rparr>"
    have "demote i tab = Inr (tab[i := p])" using True d by (simp add: demote_def Let_def p_def)
    moreover have "entry_ok p" using e True unfolding entry_ok_def p_def by (auto simp: nth_list_update less_imp_le clkPerPrio_pos)
    moreover have "mprio p = mprio (tab ! i) - 1" "mticks p ! nat (mprio p) = 0" using d True by (simp_all add: p_def)
    moreover have "0 < mprio p \<longrightarrow> 0 < clkPerPrio ! nat (mprio p)" using d(2) True calculation(3) by (intro impI clkPerPrio_pos) simp
    ultimately show ?thesis using d(3,6) by (intro exI [of _ p]) (simp add: p_def)
  next
    case False
    then show ?thesis using d e by (intro exI [of _ "tab ! i"]) (auto simp: demote_def Let_def)
  qed
qed

lemma mlfq_ok_upd: "mlfq_ok tab \<Longrightarrow> entry_ok p \<Longrightarrow> mlfq_ok (tab[i := p])"
  unfolding mlfq_ok_def by (auto dest!: set_update_subset_insert [THEN subsetD])

lemma mlfq_ok_nth: "mlfq_ok tab \<Longrightarrow> i < NPROC \<Longrightarrow> entry_ok (tab ! i)" "mlfq_ok tab \<Longrightarrow> length tab = NPROC"
  by (simp_all add: mlfq_ok_def)

text \<open>The table after a switch to \<open>j\<close>: everybody else has aged by a tick.\<close>

definition switched :: "nat \<Rightarrow> mproc list \<Rightarrow> mproc list \<Rightarrow> bool" where
  "switched j tab tab' \<longleftrightarrow> mlfq_ok tab' \<and> j < NPROC \<and> mstate (tab' ! j) = RUNNING \<and> (\<forall>q < NPROC. q \<noteq> j \<longrightarrow> tab' ! q = aged (tab ! q))"

lemma slice_spec:
  assumes "mlfq_ok tab" "i < NPROC" "mprio (tab ! i) = l" "0 < l \<longrightarrow> mticks (tab ! i) ! nat l < clkPerPrio ! nat l" "mticks (tab ! i) ! nat l \<le> cou" 
  shows "if cou < clkPerPrio ! nat l \<and> mstate (tab ! i) = RUNNABLE
    then \<exists>tab'. slice i cou tab = Inr (Some tab') \<and> switched i tab tab' \<and> cou < 1000 \<and> mticks (tab' ! i) ! nat (mprio (tab' ! i)) \<le> cou + 1
    else slice i cou tab = Inr None"
proof -
  note d = entry_okD [OF mlfq_ok_nth(1) [OF assms(1,2)]] mlfq_ok_nth(2) [OF assms(1)]
  have c: "slice i cou tab = (if cou < clkPerPrio ! nat l \<and> mstate (tab ! i) = RUNNABLE then Inr (Some ((map aged tab)[i := ran (tab ! i)])) else Inr None)"
    using d assms(3) dispatch_spec [OF assms(1,2)] by (simp add: slice_def)
  have m: "clkPerPrio ! nat l \<le> 1000" using d(1,2) unfolding assms(3) clkPerPrio_def by (elim level_cases) simp_all
  have "mlfq_ok ((map aged tab)[i := ran (tab ! i)])" using assms(3,4) by (intro dispatched_ok assms(1,2)) auto
  then show ?thesis using assms d m unfolding c switched_def by (auto simp: ran_def Let_def)
qed

lemma enter_spec:
  assumes "mlfq_ok tab" "i < NPROC" "0 < mprio (tab ! i)"
  shows "\<exists>cou p. enter i tab = Inr (cou, tab[i := p]) \<and> entry_ok p \<and> mprio p = mprio (tab ! i) \<and> mstate p = mstate (tab ! i) \<and>
    0 \<le> cou \<and> cou < clkPerPrio ! nat (mprio p) \<and> mticks p ! nat (mprio p) = cou"
proof -
  note e = mlfq_ok_nth(1) [OF assms(1,2)]
  note d = entry_okD [OF e]
  let ?l = "nat (mprio (tab ! i))"
  have l: "0 < ?l" "?l < 4" using assms(3) d(3) by simp_all
  show ?thesis
  proof (cases "mticks (tab ! i) ! ?l = clkPerPrio ! ?l")
    case True
    define p where "p = (tab ! i)\<lparr>mticks := (mticks (tab ! i))[?l := 0]\<rparr>"
    have "entry_ok p" using e unfolding entry_ok_def p_def by (auto simp: nth_list_update less_imp_le clkPerPrio_pos)
    then show ?thesis using True d l clkPerPrio_pos [OF l(2)] by (intro exI [of _ 0] exI [of _ p]) (simp add: enter_def Let_def p_def)
  next
    case False
    then show ?thesis using d(1-5) d(6) [of ?l] d(8) [of ?l] l e by (intro exI [of _ "mticks (tab ! i) ! ?l"] exI [of _ "tab ! i"]) (simp add: enter_def Let_def less_le)
  qed
qed

text \<open>The scan of the table finds the next runnable process of level \<open>m\<close>.\<close>

definition wanted :: "int \<Rightarrow> mproc \<Rightarrow> bool" where
  "wanted m p \<longleftrightarrow> mstate p = RUNNABLE \<and> mprio p = m"

lemma scan_skip: "\<not> wanted m (tab ! i) \<Longrightarrow> i < NPROC \<Longrightarrow> scan m i tab = scan m (Suc i) tab"
  by (subst scan.simps) (auto simp: wanted_def)

lemma scan_take:
  assumes "mlfq_ok tab" "i < NPROC" "wanted m (tab ! i)"
  shows "\<exists>pos tab'. scan m i tab = Inr (Some i, pos, tab') \<and> switched i tab tab' \<and> pos_ok pos tab' \<and> (if m = 0 then pos = Zero m i else \<exists>cou. pos = Slice m i cou)"
proof -
  note e = mlfq_ok_nth(1) [OF assms(1,2)]
  note d = entry_okD [OF e] mlfq_ok_nth(2) [OF assms(1)]
  have w: "mstate (tab ! i) = RUNNABLE" "mprio (tab ! i) = m" using assms(3) by (simp_all add: wanted_def)
  show ?thesis
  proof (cases "0 < m")
    case False
    then have "m = 0" using d(1) w by simp
    moreover have "switched i tab ((map aged tab)[i := ran (tab ! i)])"
      using dispatched_ok [OF assms(1,2)] w False assms(2) d by (simp add: switched_def ran_def Let_def)
    ultimately show ?thesis using dispatch_spec [OF assms(1,2)] w assms(2) by (subst scan.simps) (simp add: pos_ok_def)
  next
    case True
    obtain cou p where p: "enter i tab = Inr (cou, tab[i := p])" "entry_ok p" "mprio p = m" "mstate p = RUNNABLE"
        "0 \<le> cou" "cou < clkPerPrio ! nat m" "mticks p ! nat m = cou"
      using enter_spec [OF assms(1,2)] True w by auto
    have "mlfq_ok (tab[i := p])" using mlfq_ok_upd [OF assms(1) p(2)] .
    from slice_spec [OF this assms(2), of m cou] obtain tab' where t: "slice i cou (tab[i := p]) = Inr (Some tab')" "switched i (tab[i := p]) tab'" "cou < 1000"
        "mticks (tab' ! i) ! nat (mprio (tab' ! i)) \<le> cou + 1"
      using p assms(2) d by auto
    have "switched i tab tab'" using t(2) assms(2) by (simp add: switched_def)
    moreover have "scan m i tab = Inr (Some i, Slice m i cou, tab')" using w True p(1) t(1) assms(2) by (subst scan.simps) simp
    moreover have "pos_ok (Slice m i cou) tab'" using True t(3,4) p(5) assms(2) d(2) w(2) by (simp add: pos_ok_def)
    ultimately show ?thesis using True by auto
  qed
qed

lemma scan_spec:
  assumes "mlfq_ok tab"
  shows "(\<forall>j. i \<le> j \<and> j < NPROC \<longrightarrow> \<not> wanted m (tab ! j)) \<and> scan m i tab = Inr (None, Top, tab) \<or>
    (\<exists>j pos tab'. i \<le> j \<and> j < NPROC \<and> wanted m (tab ! j) \<and> (\<forall>k. i \<le> k \<and> k < j \<longrightarrow> \<not> wanted m (tab ! k)) \<and> scan m i tab = Inr (Some j, pos, tab') \<and>
       switched j tab tab' \<and> pos_ok pos tab' \<and> (if m = 0 then pos = Zero m j else \<exists>cou. pos = Slice m j cou))"
proof (induction "NPROC - i" arbitrary: i)
  case 0
  then have "NPROC \<le> i" by simp
  then show ?case by (intro disjI1) (auto simp: scan.simps [of m i])
next
  case (Suc n)
  then have i: "i < NPROC" "n = NPROC - Suc i" by simp_all
  show ?case
  proof (cases "wanted m (tab ! i)")
    case True
    from scan_take [OF assms i(1) this] show ?thesis using True i(1) by (intro disjI2 exI [of _ i]) auto
  next
    case False
    have R: "(\<forall>j. Suc i \<le> j \<and> j < n \<longrightarrow> \<not> wanted m (tab ! j)) \<longleftrightarrow> (\<forall>j. i \<le> j \<and> j < n \<longrightarrow> \<not> wanted m (tab ! j))" for n
      using False by (metis Suc_leD Suc_leI le_neq_implies_less)
    from Suc(1) [OF i(2), unfolded R] show ?thesis
    proof (elim disjE exE)
      fix j pos tab' assume "Suc i \<le> j \<and> j < NPROC \<and> wanted m (tab ! j) \<and> (\<forall>k. i \<le> k \<and> k < j \<longrightarrow> \<not> wanted m (tab ! k)) \<and>
        scan m (Suc i) tab = Inr (Some j, pos, tab') \<and> switched j tab tab' \<and> pos_ok pos tab' \<and> (if m = 0 then pos = Zero m j else \<exists>cou. pos = Slice m j cou)"
      then show ?thesis by (intro disjI2 exI [of _ j] exI [of _ pos] exI [of _ tab']) (simp add: scan_skip [OF False i(1)])
    qed (simp add: scan_skip [OF False i(1)])
  qed
qed

lemma max_pri_fold:
  "(\<forall>p \<in> set ps. mstate p = RUNNABLE \<longrightarrow> mprio p \<le> k) \<Longrightarrow> m \<le> k \<Longrightarrow>
   fold (\<lambda>p m. if mstate p = RUNNABLE \<and> mprio p > m then mprio p else m) ps m \<le> k"
  "m \<le> fold (\<lambda>p m. if mstate p = RUNNABLE \<and> mprio p > m then mprio p else m) ps m"
  "p \<in> set ps \<Longrightarrow> mstate p = RUNNABLE \<Longrightarrow> mprio p \<le> fold (\<lambda>p m. if mstate p = RUNNABLE \<and> mprio p > m then mprio p else m) ps m"
  "fold (\<lambda>p m. if mstate p = RUNNABLE \<and> mprio p > m then mprio p else m) ps m = m \<or>
   (\<exists>p \<in> set ps. wanted (fold (\<lambda>p m. if mstate p = RUNNABLE \<and> mprio p > m then mprio p else m) ps m) p)"
proof (induction ps arbitrary: m)
  case (Cons a ps)
  let ?f = "\<lambda>p m. if mstate p = RUNNABLE \<and> mprio p > m then mprio p else m"
  { case 1 then show ?case using Cons(1) by simp }
  { case 2 show ?case using Cons(2) [of "?f a m"] by (auto split: if_splits) }
  { case 3 then show ?case using Cons(2) [of "?f a m"] Cons(3) [of "?f a m"] by (auto split: if_splits) }
  { case 4 show ?case using Cons(4) [of "?f a m"] by (auto simp: wanted_def split: if_splits) }
qed simp_all

lemma max_pri_spec:
  assumes "mlfq_ok tab"
  shows "0 \<le> max_pri tab" "max_pri tab \<le> 3" "q < NPROC \<Longrightarrow> mstate (tab ! q) = RUNNABLE \<Longrightarrow> mprio (tab ! q) \<le> max_pri tab"
    "q < NPROC \<Longrightarrow> mstate (tab ! q) = RUNNABLE \<Longrightarrow> \<exists>j < NPROC. wanted (max_pri tab) (tab ! j)"
proof -
  note d = mlfq_ok_nth [OF assms]
  show "0 \<le> max_pri tab" unfolding max_pri_def by (rule max_pri_fold(2))
  show "max_pri tab \<le> 3" unfolding max_pri_def using assms by (intro max_pri_fold(1)) (auto simp: mlfq_ok_def entry_ok_def)
  show 3: "mprio (tab ! q) \<le> max_pri tab" if "q < NPROC" "mstate (tab ! q) = RUNNABLE" for q
    unfolding max_pri_def using that d(2) by (intro max_pri_fold(3)) simp_all
  show "\<exists>j < NPROC. wanted (max_pri tab) (tab ! j)" if q: "q < NPROC" "mstate (tab ! q) = RUNNABLE" for q
  proof -
    consider "max_pri tab = 0" | p where "p \<in> set tab" "wanted (max_pri tab) p"
      using max_pri_fold(4) [of tab 0] unfolding max_pri_def [symmetric] by blast
    then show ?thesis
    proof cases
      case 1
      then have "wanted (max_pri tab) (tab ! q)" using 3 [OF q] q entry_okD(1) [OF d(1) [OF q(1)]] by (simp add: wanted_def)
      then show ?thesis using q(1) by blast
    next
      case 2
      then show ?thesis using d(2) by (metis in_set_conv_nth)
    qed
  qed
qed

text \<open>One step of the scheduler: it goes on with the slice of the process that comes back, or scans the rest of the table, or starts a pass.\<close>

lemma slice_step:
  assumes "mlfq_ok tab" "pos_ok (Slice m i cou) tab"
  shows "\<exists>tab1. mlfq_ok tab1 \<and> (\<forall>q < NPROC. q \<noteq> i \<longrightarrow> tab1 ! q = tab ! q) \<and> (\<forall>q < NPROC. mstate (tab1 ! q) = mstate (tab ! q)) \<and>
    ((\<exists>tab'. mlfq_step (Slice m i cou) tab = Inr (Some i, Slice m i (cou + 1), tab') \<and> switched i tab1 tab' \<and> pos_ok (Slice m i (cou + 1)) tab') \<or>
     mlfq_step (Slice m i cou) tab = scan m (Suc i) tab1)"
proof -
  have i: "0 < m" "m \<le> 3" "i < NPROC" "0 \<le> cou" "mticks (tab ! i) ! nat (mprio (tab ! i)) \<le> cou + 1" using assms(2) by (simp_all add: pos_ok_def)
  obtain p where p: "demote i tab = Inr (tab[i := p])" "entry_ok p" "0 < mprio p \<longrightarrow> mticks p ! nat (mprio p) < clkPerPrio ! nat (mprio p)"
      "mticks p ! nat (mprio p) \<le> cou + 1" "mstate p = mstate (tab ! i)"
    using demote_ok [OF assms(1) i(3)] i(5) order_trans by blast
  let ?t = "tab[i := p]"
  have ok: "mlfq_ok ?t" using mlfq_ok_upd [OF assms(1) p(2)] .
  have n: "?t ! i = p" using i(3) mlfq_ok_nth(2) [OF assms(1)] by simp
  note sl = slice_spec [OF ok i(3), of "mprio p" "cou + 1"]
  have "(\<exists>tab'. mlfq_step (Slice m i cou) tab = Inr (Some i, Slice m i (cou + 1), tab') \<and> switched i ?t tab' \<and> pos_ok (Slice m i (cou + 1)) tab') \<or>
     mlfq_step (Slice m i cou) tab = scan m (Suc i) ?t"
  proof (cases "cou + 1 < clkPerPrio ! nat (mprio p) \<and> mstate p = RUNNABLE")
    case True
    then obtain tab' where "slice i (cou + 1) ?t = Inr (Some tab')" "switched i ?t tab'" "cou + 1 < 1000"
        "mticks (tab' ! i) ! nat (mprio (tab' ! i)) \<le> cou + 1 + 1"
      using sl p(3,4) n by auto
    then show ?thesis using p(1) i by (intro disjI1 exI [of _ tab']) (simp add: mlfq_step_def pos_ok_def)
  next
    case False
    then have "slice i (cou + 1) ?t = Inr None" using sl p(3,4) n by simp
    then show ?thesis using p(1) by (simp add: mlfq_step_def)
  qed
  moreover have "mstate (?t ! q) = mstate (tab ! q)" for q using n p(5) by (cases "q = i") simp_all
  ultimately show ?thesis using ok by (intro exI [of _ ?t]) auto
qed

lemma step_total:
  assumes "mlfq_ok tab" "pos_ok pos tab"
  shows "\<exists>d pos' tab'. mlfq_step pos tab = Inr (d, pos', tab') \<and> mlfq_ok tab' \<and> pos_ok pos' tab' \<and>
    (case d of None \<Rightarrow> pos' = Top | Some j \<Rightarrow> mstate (tab' ! j) = RUNNING \<and> ((\<exists>m cou. pos' = Slice m j cou) \<or> pos' = Zero 0 j))"
proof -
  have sc: "\<exists>d pos' tab'. scan m i t = Inr (d, pos', tab') \<and> mlfq_ok tab' \<and> pos_ok pos' tab' \<and>
    (case d of None \<Rightarrow> pos' = Top | Some j \<Rightarrow> mstate (tab' ! j) = RUNNING \<and> ((\<exists>m cou. pos' = Slice m j cou) \<or> pos' = Zero 0 j))" if "mlfq_ok t" for m i t
    using scan_spec [OF that, of i m]
  proof (elim disjE exE conjE)
    assume "scan m i t = Inr (None, Top, t)"
    then show ?thesis using that by (simp add: pos_ok_def)
  next
    fix j pos tab' assume "scan m i t = Inr (Some j, pos, tab')" "switched j t tab'" "pos_ok pos tab'" "if m = 0 then pos = Zero m j else \<exists>cou. pos = Slice m j cou"
    then show ?thesis by (intro exI [of _ "Some j"] exI [of _ pos] exI [of _ tab']) (auto simp: switched_def split: if_splits)
  qed
  show ?thesis
  proof (cases pos)
    case Top
    then show ?thesis using sc [OF assms(1)] by (simp add: mlfq_step_def)
  next
    case (Zero m i)
    then show ?thesis using sc [OF assms(1)] by (simp add: mlfq_step_def)
  next
    case (Slice m i cou)
    from slice_step [OF assms(1) assms(2) [unfolded Slice]] show ?thesis
    proof (elim exE conjE disjE)
      fix tab1 tab' assume "mlfq_step (Slice m i cou) tab = Inr (Some i, Slice m i (cou + 1), tab')" "switched i tab1 tab'" "pos_ok (Slice m i (cou + 1)) tab'"
      then show ?thesis by (intro exI [of _ "Some i"] exI [of _ "Slice m i (cou + 1)"] exI [of _ tab']) (simp add: switched_def Slice)
    next
      fix tab1 assume "mlfq_ok tab1" "mlfq_step (Slice m i cou) tab = scan m (Suc i) tab1"
      then show ?thesis using sc [of tab1 m "Suc i"] Slice by simp
    qed
  qed
qed

text \<open>
  What may happen to the table from a switch to \<open>d\<close> to the next step: every entry keeps its level and counters, or another one is handed out anew.
\<close>

definition same_counters :: "mproc \<Rightarrow> mproc \<Rightarrow> bool" where
  "same_counters p q \<longleftrightarrow> mprio q = mprio p \<and> mticks q = mticks p \<and> mwait q = mwait p"

definition allowed :: "nat option \<Rightarrow> mproc list \<Rightarrow> mproc list \<Rightarrow> bool" where
  "allowed d tab tab' \<longleftrightarrow> length tab' = length tab \<and>
     (\<forall>i < length tab. same_counters (tab ! i) (tab' ! i) \<or> (d \<noteq> Some i \<and> (\<exists>n. same_counters (fresh_entry n (tab ! i)) (tab' ! i))))"

lemma allowed_ok:
  assumes "allowed d tab tab'" "mlfq_ok tab"
  shows "mlfq_ok tab'"
proof -
  have "entry_ok (fresh_entry n p)" for n p by (auto simp: entry_ok_def fresh_entry_def clkPerPrio_def nth_Cons split: nat.splits)
  then have "\<forall>i < length tab'. entry_ok (tab' ! i)" using assms mlfq_ok_nth [OF assms(2)] unfolding allowed_def same_counters_def
    by (metis entry_ok_def)
  then show ?thesis using assms unfolding mlfq_ok_def allowed_def by (metis in_set_conv_nth)
qed

text \<open>The scheduler's run: \<open>env n\<close> is what the machine does after the \<open>n\<close>th step.\<close>

fun mlfq_run :: "(nat \<Rightarrow> nat option \<Rightarrow> mproc list \<Rightarrow> mproc list) \<Rightarrow> mproc list \<Rightarrow> nat \<Rightarrow> (nat option \<times> spos \<times> mproc list) res" where
  "mlfq_run env tab 0 = Inr (None, Top, tab)"
| "mlfq_run env tab (Suc n) = kbind (mlfq_run env tab n) (\<lambda>(d, pos, tab). mlfq_step pos (env n d tab))"

lemma run_total:
  assumes "mlfq_ok tab" "\<forall>n d tab. allowed d tab (env n d tab)"
  shows "\<exists>d pos tab'. mlfq_run env tab n = Inr (d, pos, tab') \<and> mlfq_ok tab' \<and> pos_ok pos tab' \<and> pos_ok pos (env n d tab') \<and>
    (case d of None \<Rightarrow> pos = Top | Some j \<Rightarrow> mstate (tab' ! j) = RUNNING \<and> ((\<exists>m cou. pos = Slice m j cou) \<or> pos = Zero 0 j))"
proof -
  have env: "pos_ok pos (env n d tab')" if "pos_ok pos tab'" "mlfq_ok tab'"
     "case d of None \<Rightarrow> pos = Top | Some j \<Rightarrow> mstate (tab' ! j) = RUNNING \<and> ((\<exists>m cou. pos = Slice m j cou) \<or> pos = Zero 0 j)" for n d pos tab'
  proof (cases pos)
    case (Slice m i cou)
    then have "d = Some i" using that(3) by (auto split: option.splits)
    moreover have "i < length tab'" using that(1) mlfq_ok_nth(2) [OF that(2)] Slice by (simp add: pos_ok_def)
    ultimately have "same_counters (tab' ! i) (env n d tab' ! i)" using assms(2) unfolding allowed_def by blast
    then show ?thesis using that(1) unfolding Slice pos_ok_def same_counters_def by simp
  qed (use that(1) in \<open>simp_all add: pos_ok_def\<close>)
  show ?thesis
  proof (induction n)
    case 0
    then show ?case using assms(1) by (simp add: pos_ok_def)
  next
    case (Suc n)
    then obtain d pos tab' where r: "mlfq_run env tab n = Inr (d, pos, tab')" "mlfq_ok tab'" "pos_ok pos (env n d tab')" by blast
    have "mlfq_ok (env n d tab')" using allowed_ok [OF _ r(2)] assms(2) by blast
    from step_total [OF this r(3)] obtain e pos' tab'' where "mlfq_step pos (env n d tab') = Inr (e, pos', tab'')" "mlfq_ok tab''" "pos_ok pos' tab''"
       "case e of None \<Rightarrow> pos' = Top | Some j \<Rightarrow> mstate (tab'' ! j) = RUNNING \<and> ((\<exists>m cou. pos' = Slice m j cou) \<or> pos' = Zero 0 j)" by blast
    then show ?case using r(1) env by simp
  qed
qed

section \<open>Which process runs\<close>

text \<open>
  C38. The multi-level scheduler of Project2-2 never leaves its arrays, and serves the highest level first. From a sound table and whatever the
  processes do, every step of the scheduler is defined; levels stay between 0 and 3 and the counters of levels 1 to 3 between 0 and their bounds;
  and a pass over the table starts with the first of the runnable processes of the highest level that is occupied, or ends at once when no
  process is runnable.
\<close>

theorem mlfq_highest_first:
  assumes "mlfq_ok t0" "\<forall>n d tab. allowed d tab (env n d tab)"
  shows "\<exists>d pos tab. mlfq_run env t0 n = Inr (d, pos, tab) \<and>
    (\<forall>p \<in> set tab. 0 \<le> mprio p \<and> mprio p \<le> 3 \<and> (\<forall>l \<in> {1..3}. 0 \<le> mticks p ! l \<and> mticks p ! l \<le> clkPerPrio ! l)) \<and>
    (\<exists>e pos' tab'. mlfq_step pos (env n d tab) = Inr (e, pos', tab') \<and> (pos = Top \<longrightarrow>
      (case e of None \<Rightarrow> \<forall>q < NPROC. mstate (env n d tab ! q) \<noteq> RUNNABLE
       | Some j \<Rightarrow> j < NPROC \<and> mstate (env n d tab ! j) = RUNNABLE \<and> mstate (tab' ! j) = RUNNING \<and>
           (\<forall>q < NPROC. mstate (env n d tab ! q) = RUNNABLE \<longrightarrow>
              mprio (env n d tab ! q) < mprio (env n d tab ! j) \<or> mprio (env n d tab ! q) = mprio (env n d tab ! j) \<and> j \<le> q))))"
proof -
  obtain d pos tab where r: "mlfq_run env t0 n = Inr (d, pos, tab)" "mlfq_ok tab" "pos_ok pos (env n d tab)"
    using run_total [OF assms] by blast
  define u where "u = env n d tab"
  have u: "mlfq_ok u" unfolding u_def using allowed_ok [OF _ r(2)] assms(2) by blast
  have c: "\<forall>p \<in> set tab. 0 \<le> mprio p \<and> mprio p \<le> 3 \<and> (\<forall>l \<in> {1..3}. 0 \<le> mticks p ! l \<and> mticks p ! l \<le> clkPerPrio ! l)"
    using r(2) unfolding mlfq_ok_def entry_ok_def by auto
  have "\<exists>e pos' tab'. mlfq_step pos u = Inr (e, pos', tab') \<and> (pos = Top \<longrightarrow>
      (case e of None \<Rightarrow> \<forall>q < NPROC. mstate (u ! q) \<noteq> RUNNABLE
       | Some j \<Rightarrow> j < NPROC \<and> mstate (u ! j) = RUNNABLE \<and> mstate (tab' ! j) = RUNNING \<and>
           (\<forall>q < NPROC. mstate (u ! q) = RUNNABLE \<longrightarrow> mprio (u ! q) < mprio (u ! j) \<or> mprio (u ! q) = mprio (u ! j) \<and> j \<le> q)))"
  proof (cases "pos = Top")
    case False
    then show ?thesis using step_total [OF u r(3) [folded u_def]] by blast
  next
    case True
    have s: "mlfq_step pos u = scan (max_pri u) 0 u" using True by (simp add: mlfq_step_def)
    from scan_spec [OF u, of 0 "max_pri u"] show ?thesis
    proof (elim disjE exE conjE)
      assume "\<forall>j. 0 \<le> j \<and> j < NPROC \<longrightarrow> \<not> wanted (max_pri u) (u ! j)" "scan (max_pri u) 0 u = Inr (None, Top, u)"
      then show ?thesis using max_pri_spec(4) [OF u] unfolding s by auto
    next
      fix j pos' tab' assume j: "j < NPROC" "wanted (max_pri u) (u ! j)" "\<forall>k. 0 \<le> k \<and> k < j \<longrightarrow> \<not> wanted (max_pri u) (u ! k)"
        "scan (max_pri u) 0 u = Inr (Some j, pos', tab')" "switched j u tab'"
      have "mprio (u ! q) < mprio (u ! j) \<or> mprio (u ! q) = mprio (u ! j) \<and> j \<le> q" if "q < NPROC" "mstate (u ! q) = RUNNABLE" for q
        using max_pri_spec(3) [OF u that] j(2,3) that(2) by (fastforce simp: wanted_def not_less [symmetric])
      then show ?thesis using j unfolding s by (simp add: wanted_def switched_def)
    qed
  qed
  then show ?thesis using r(1) c unfolding u_def by blast
qed

text \<open>A table with two processes, at levels 3 and 2, that yield when they are run.\<close>

definition mlfq_eg :: "mproc list" where
  "mlfq_eg = (let e = \<lparr>mstate = UNUSED, mpid = 0, mprio = 0, mticks = [0, 0, 0, 0], mwait = [0, 0, 0, 0], minuse = 0\<rparr> in
     e\<lparr>mstate := RUNNABLE, mpid := 1, mprio := 2\<rparr> # e\<lparr>mstate := RUNNABLE, mpid := 2, mprio := 3\<rparr> # replicate 62 e)"

definition all_yield :: "nat \<Rightarrow> nat option \<Rightarrow> mproc list \<Rightarrow> mproc list" where
  "all_yield n d tab = (case d of None \<Rightarrow> tab | Some i \<Rightarrow> tab[i := (tab ! i)\<lparr>mstate := RUNNABLE\<rparr>])"

lemma all_yield_allowed: "allowed d tab (all_yield n d tab)"
proof -
  have "same_counters (tab ! i) (all_yield n d tab ! i)" if "i < length tab" for i
    using that by (cases "d = Some i") (auto simp: all_yield_def same_counters_def split: option.splits)
  moreover have "length (all_yield n d tab) = length tab" by (cases d) (simp_all add: all_yield_def)
  ultimately show ?thesis by (simp add: allowed_def)
qed

lemma mlfq_eg_ok: "mlfq_ok mlfq_eg"
  by (auto simp: mlfq_ok_def mlfq_eg_def Let_def entry_ok_def clkPerPrio_def nth_Cons split: nat.splits)

theorem mlfq_highest_first_witness: "\<exists>pos' tab'. mlfq_step Top mlfq_eg = Inr (Some 1, pos', tab')"
proof -
  have y: "all_yield 0 None mlfq_eg = mlfq_eg" by (simp add: all_yield_def)
  have "\<forall>n d tab. allowed d tab (all_yield n d tab)" using all_yield_allowed by blast
  from mlfq_highest_first [OF mlfq_eg_ok this, of 0] obtain e pos' tab' where e: "mlfq_step Top mlfq_eg = Inr (e, pos', tab')"
    "case e of None \<Rightarrow> \<forall>q < NPROC. mstate (mlfq_eg ! q) \<noteq> RUNNABLE
       | Some j \<Rightarrow> j < NPROC \<and> mstate (mlfq_eg ! j) = RUNNABLE \<and> mstate (tab' ! j) = RUNNING \<and>
           (\<forall>q < NPROC. mstate (mlfq_eg ! q) = RUNNABLE \<longrightarrow>
              mprio (mlfq_eg ! q) < mprio (mlfq_eg ! j) \<or> mprio (mlfq_eg ! q) = mprio (mlfq_eg ! j) \<and> j \<le> q)"
    unfolding mlfq_run.simps sum.inject prod.inject by (elim exE conjE) (simp only: y)
  have m: "mstate (mlfq_eg ! 1) = RUNNABLE" "mprio (mlfq_eg ! 1) = 3" by (simp_all add: mlfq_eg_def Let_def)
  then obtain j where j: "e = Some j" using e(2) by (cases e) auto
  have "mprio (mlfq_eg ! j) \<le> 3" using e(2) mlfq_ok_nth(1) [OF mlfq_eg_ok, of j] unfolding j by (simp add: entry_ok_def)
  then have "j \<le> 1" "mprio (mlfq_eg ! j) \<ge> 3" using e(2) m unfolding j by (auto dest!: spec [of _ 1])
  then have "j = 1" by (cases j) (auto simp: mlfq_eg_def Let_def)
  then show ?thesis using e(1) j by blast
qed

section \<open>Nobody waits for ever\<close>

text \<open>The ticks an entry has to wait until it is at level 3, and the bound on the steps of the scheduler before the entry \<open>q\<close> is run.\<close>

definition to_go :: "mproc \<Rightarrow> nat" where
  "to_go p = (let l = nat (mprio p) in
     if mprio p < 3 then nat (max 1 (clkWait ! l - mwait p ! l)) + [480, 160, 0] ! l else 0)"

definition pos_left :: "nat \<Rightarrow> bool \<Rightarrow> spos \<Rightarrow> nat" where
  "pos_left q high pos = (case pos of Top \<Rightarrow> 70000
     | Slice m i cou \<Rightarrow> (if high \<and> m = 3 \<and> i < q then 0 else 100000) + (NPROC - i) * 1001 + nat (1000 - cou)
     | Zero m i \<Rightarrow> 100000 + (NPROC - i) * 1001)"

definition steps_left :: "nat \<Rightarrow> spos \<Rightarrow> mproc \<Rightarrow> nat" where
  "steps_left q pos p = to_go p * 200000 + pos_left q (mprio p = 3) pos"

lemma to_go_aged:
  assumes "entry_ok p"
  shows "mprio p < 3 \<Longrightarrow> to_go (aged p) < to_go p" "mprio p = 3 \<Longrightarrow> to_go (aged p) = 0 \<and> mprio (aged p) = 3"
proof -
  note d = entry_okD [OF assms]
  show "to_go (aged p) < to_go p" if "mprio p < 3"
    using d(1,2) that
  proof (elim level_cases)
    assume "mprio p = 0" then show ?thesis using d by (simp add: to_go_def aged_def Let_def clkWait_def)
  next
    assume "mprio p = 1" then show ?thesis using d by (simp add: to_go_def aged_def Let_def clkWait_def numeral_2_eq_2)
  next
    assume "mprio p = 2" then show ?thesis using d by (simp add: to_go_def aged_def Let_def clkWait_def numeral_eq_Suc)
  qed simp_all
  show "mprio p = 3 \<Longrightarrow> to_go (aged p) = 0 \<and> mprio (aged p) = 3" by (simp add: to_go_def aged_def Let_def)
qed

lemma pos_left_lt: "pos_ok pos tab \<Longrightarrow> pos_left q b pos < 200000"
  by (cases pos) (auto simp: pos_ok_def pos_left_def)

lemma scan_left:
  assumes "mlfq_ok t" "q < NPROC" "mstate (t ! q) = RUNNABLE" "scan m i t = Inr (d, pos', tab')" "d \<noteq> Some q"
  shows "d = None \<and> pos' = Top \<and> tab' = t \<and> (\<forall>j. i \<le> j \<and> j < NPROC \<longrightarrow> \<not> wanted m (t ! j)) \<or>
    (\<exists>j. d = Some j \<and> i \<le> j \<and> j < NPROC \<and> (i \<le> q \<and> mprio (t ! q) = m \<longrightarrow> j < q) \<and> tab' ! q = aged (t ! q) \<and> pos_ok pos' tab' \<and>
       (if m = 0 then pos' = Zero m j else \<exists>cou. pos' = Slice m j cou))"
  using scan_spec [OF assms(1), of i m]
proof (elim disjE exE conjE)
  fix j pos tab'' assume j: "i \<le> j" "j < NPROC" "wanted m (t ! j)" "\<forall>k. i \<le> k \<and> k < j \<longrightarrow> \<not> wanted m (t ! k)" "scan m i t = Inr (Some j, pos, tab'')"
    "switched j t tab''" "pos_ok pos tab''" "if m = 0 then pos = Zero m j else \<exists>cou. pos = Slice m j cou"
  have "i \<le> q \<and> mprio (t ! q) = m \<longrightarrow> j < q" using j(4,5) assms(3-5) by (auto simp: wanted_def intro: ccontr)
  then show ?thesis using j assms by (auto simp: switched_def)
qed (use assms(4) in simp)

lemma steps_left_scan:
  assumes "mlfq_ok t" "q < NPROC" "mstate (t ! q) = RUNNABLE" "scan m i t = Inr (d, pos', tab')" "d \<noteq> Some q" "0 \<le> m" "m \<le> 3"
    and "case pos of Top \<Rightarrow> i = 0 \<and> m = max_pri t | Slice m' i' cou \<Rightarrow> m' = m \<and> i = Suc i' \<and> i' < NPROC \<and> i' \<noteq> q | Zero m' i' \<Rightarrow> m' = 0 \<and> m = 0 \<and> i = Suc i' \<and> i' < NPROC"
  shows "mstate (tab' ! q) = RUNNABLE \<and> steps_left q pos' (tab' ! q) < steps_left q pos (t ! q)"
proof -
  note e = mlfq_ok_nth(1) [OF assms(1,2)]
  note mp = max_pri_spec [OF assms(1)]
  have top: "mprio (t ! q) = 3 \<Longrightarrow> pos = Top \<Longrightarrow> m = 3 \<and> i = 0" using mp(2,3) assms(2,3,8) by fastforce
  have wq: "mprio (t ! q) = m \<Longrightarrow> wanted m (t ! q)" using assms(3) by (simp add: wanted_def)
  from scan_left [OF assms(1-5)] show ?thesis
  proof (elim disjE exE conjE)
    assume n: "d = None" "pos' = Top" "tab' = t" "\<forall>j. i \<le> j \<and> j < NPROC \<longrightarrow> \<not> wanted m (t ! j)"
    have nt: "pos \<noteq> Top" using mp(4) [OF assms(2,3)] n(4) assms(8) by auto
    have "mprio (t ! q) = 3 \<Longrightarrow> m = 3 \<Longrightarrow> q < i" using n(4) wq assms(2) by (metis not_less)
    then have "pos_left q (mprio (t ! q) = 3) Top < pos_left q (mprio (t ! q) = 3) pos"
      using nt assms(8) by (cases pos) (auto simp: pos_left_def)
    then show ?thesis using n assms(3) by (simp add: steps_left_def)
  next
    fix j assume j: "d = Some j" "i \<le> j" "j < NPROC" "i \<le> q \<and> mprio (t ! q) = m \<longrightarrow> j < q" "tab' ! q = aged (t ! q)" "pos_ok pos' tab'"
       "if m = 0 then pos' = Zero m j else \<exists>cou. pos' = Slice m j cou"
    have lt: "pos_left q b pos' < 200000" for b using pos_left_lt [OF j(6)] .
    have "to_go (t ! q) * 200000 + pos_left q (mprio (t ! q) = 3) pos > to_go (aged (t ! q)) * 200000 + pos_left q (mprio (aged (t ! q)) = 3) pos'"
    proof (cases "mprio (t ! q) = 3")
      case False
      then have "to_go (aged (t ! q)) < to_go (t ! q)" using to_go_aged(1) [OF e] entry_okD(2) [OF e] by simp
      then show ?thesis using lt [of "mprio (aged (t ! q)) = 3"] by simp
    next
      case True
      have hq: "i \<le> q \<and> m = 3 \<Longrightarrow> j < q" using j(4) True by simp
      have pl: "pos_left q True pos' \<le> (if m = 3 \<and> j < q then 0 else 100000) + (NPROC - j) * 1001 + 1000"
        using j(6,7) by (auto simp: pos_left_def pos_ok_def split: if_splits)
      have "pos_left q True pos' < pos_left q True pos"
      proof (cases pos)
        case Top
        then show ?thesis using top [OF True Top] hq pl by (simp add: pos_left_def)
      next
        case (Zero m' i')
        then show ?thesis using j assms(8) by (auto simp: pos_left_def)
      next
        case (Slice m' i' cou)
        have "(NPROC - j) * 1001 + 1001 \<le> (NPROC - i') * 1001" using j(2,3) assms(8) Slice by simp
        moreover have "m' = m" "i' < q \<and> m = 3 \<Longrightarrow> j < q" using hq assms(8) Slice by simp_all
        ultimately show ?thesis using pl unfolding Slice pos_left_def by (cases "i' < q \<and> m = 3") (auto split: if_splits)
      qed
      then show ?thesis using to_go_aged(2) [OF e True] True by simp
    qed
    then show ?thesis using j(5) assms(3) by (simp add: steps_left_def)
  qed
qed

lemma steps_left_step:
  assumes "mlfq_ok tab" "pos_ok pos tab" "q < NPROC" "mstate (tab ! q) = RUNNABLE" "mlfq_step pos tab = Inr (d, pos', tab')" "d \<noteq> Some q"
  shows "mstate (tab' ! q) = RUNNABLE" "\<forall>m cou. pos \<noteq> Slice m q cou \<Longrightarrow> steps_left q pos' (tab' ! q) < steps_left q pos (tab ! q)"
proof -
  have "mstate (tab' ! q) = RUNNABLE \<and> ((\<forall>m cou. pos \<noteq> Slice m q cou) \<longrightarrow> steps_left q pos' (tab' ! q) < steps_left q pos (tab ! q))"
  proof (cases pos)
    case Top
    then show ?thesis using steps_left_scan [OF assms(1,3,4) _ assms(6), of "max_pri tab" 0 pos' tab' Top] max_pri_spec(1,2) [OF assms(1)] assms(5)
      by (simp add: mlfq_step_def)
  next
    case (Zero m i)
    then have "m = 0" "i < NPROC" using assms(2) by (simp_all add: pos_ok_def)
    then show ?thesis using steps_left_scan [OF assms(1,3,4) _ assms(6), of m "Suc i" pos' tab' pos] Zero assms(5) by (simp add: mlfq_step_def)
  next
    case (Slice m i cou)
    have pk: "0 < m" "m \<le> 3" "i < NPROC" "cou < 1000" using assms(2) by (simp_all add: Slice pos_ok_def)
    from slice_step [OF assms(1) assms(2) [unfolded Slice]] obtain tab1 where t: "mlfq_ok tab1" "\<forall>q < NPROC. q \<noteq> i \<longrightarrow> tab1 ! q = tab ! q"
      "\<forall>q < NPROC. mstate (tab1 ! q) = mstate (tab ! q)"
      "(\<exists>tab'. mlfq_step (Slice m i cou) tab = Inr (Some i, Slice m i (cou + 1), tab') \<and> switched i tab1 tab' \<and> pos_ok (Slice m i (cou + 1)) tab') \<or>
       mlfq_step (Slice m i cou) tab = scan m (Suc i) tab1" by blast
    have r1: "mstate (tab1 ! q) = RUNNABLE" using t(3) assms(3,4) by simp
    show ?thesis
    proof (cases "mlfq_step (Slice m i cou) tab = scan m (Suc i) tab1")
      case True
      then have sc: "scan m (Suc i) tab1 = Inr (d, pos', tab')" using assms(5) Slice by simp
      have "mstate (tab' ! q) = RUNNABLE" using scan_left [OF t(1) assms(3) r1 sc assms(6)] r1 by auto
      moreover have "steps_left q pos' (tab' ! q) < steps_left q pos (tab ! q)" if "i \<noteq> q"
        using steps_left_scan [OF t(1) assms(3) r1 sc assms(6), of pos] pk t(2) that Slice assms(3) by simp
      ultimately show ?thesis using Slice by auto
    next
      case False
      then have n: "d = Some i" "pos' = Slice m i (cou + 1)" "switched i tab1 tab'" using t(4) assms(5) Slice by auto
      have q: "tab' ! q = aged (tab ! q)" "i \<noteq> q" using n(1,3) assms(3,6) t(2) by (auto simp: switched_def)
      have "steps_left q pos' (tab' ! q) < steps_left q pos (tab ! q)"
      proof (cases "mprio (tab ! q) = 3")
        case True
        then show ?thesis using to_go_aged(2) [OF mlfq_ok_nth(1) [OF assms(1,3)] True] pk(4) q n(2) unfolding steps_left_def Slice by (simp add: pos_left_def)
      next
        case False
        then have "to_go (aged (tab ! q)) < to_go (tab ! q)"
          using to_go_aged(1) [OF mlfq_ok_nth(1) [OF assms(1,3)]] entry_okD(2) [OF mlfq_ok_nth(1) [OF assms(1,3)]] by simp
        moreover have "pos_ok pos' tab'" using step_total [OF assms(1,2)] assms(5) by auto
        then have "pos_left q (mprio (aged (tab ! q)) = 3) pos' < 200000" by (rule pos_left_lt)
        ultimately show ?thesis using q(1) by (simp add: steps_left_def)
      qed
      then show ?thesis using q(1) assms(4) by simp
    qed
  qed
  then show "mstate (tab' ! q) = RUNNABLE" "\<forall>m cou. pos \<noteq> Slice m q cou \<Longrightarrow> steps_left q pos' (tab' ! q) < steps_left q pos (tab ! q)" by simp_all
qed

text \<open>
  C39. No runnable process starves under the multi-level scheduler, whatever the other processes do: they may run, sleep, exit, be created, use up their time
  at every level. If an entry of the table is runnable when the scheduler takes its next step, and an entry that is not running is left
  alone by the rest of the kernel, the scheduler switches to it at some later step.
\<close>

theorem mlfq_no_starvation:
  assumes "mlfq_ok t0" "\<forall>n d tab. allowed d tab (env n d tab)" "q < NPROC" "\<forall>n d tab. d \<noteq> Some q \<longrightarrow> env n d tab ! q = tab ! q"
    and "mlfq_run env t0 n = Inr (d, pos, tab)" "mstate (env n d tab ! q) = RUNNABLE"
  shows "\<exists>k > n. \<exists>pos' tab'. mlfq_run env t0 k = Inr (Some q, pos', tab')"
  using assms(5,6)
proof (induction "if \<exists>m cou. pos = Slice m q cou then 1 + 982 * 200000 else steps_left q pos (env n d tab ! q)" arbitrary: n d pos tab rule: less_induct)
  case less
  have r: "mlfq_ok tab" "pos_ok pos (env n d tab)" using run_total [OF assms(1,2), of n] less(2) by auto
  have u: "mlfq_ok (env n d tab)" using allowed_ok [OF _ r(1)] assms(2) by blast
  from step_total [OF u r(2)] obtain e pos' tab' where s: "mlfq_step pos (env n d tab) = Inr (e, pos', tab')" "mlfq_ok tab'" "pos_ok pos' tab'"
    "case e of None \<Rightarrow> pos' = Top | Some j \<Rightarrow> mstate (tab' ! j) = RUNNING \<and> ((\<exists>m cou. pos' = Slice m j cou) \<or> pos' = Zero 0 j)" by blast
  have next1: "mlfq_run env t0 (Suc n) = Inr (e, pos', tab')" using less(2) s(1) by simp
  show ?case
  proof (cases "e = Some q")
    case True
    then show ?thesis using next1 by (intro exI [of _ "Suc n"]) auto
  next
    case False
    note st = steps_left_step [OF u r(2) assms(3) less(3) s(1) False]
    have k: "env (Suc n) e tab' ! q = tab' ! q" using assms(4) False by blast
    have nq: "\<not> (\<exists>m cou. pos' = Slice m q cou)" using s(4) False by (auto split: option.splits)
    have "to_go p \<le> 980" if "entry_ok p" for p
      using entry_okD(1,2,5) [OF that] entry_okD(7) [OF that, of 0] entry_okD(7) [OF that, of 1] entry_okD(7) [OF that, of 2]
      by (elim level_cases; simp add: to_go_def Let_def clkWait_def nth_Cons split: nat.splits)
    then have "to_go (tab' ! q) \<le> 980" using mlfq_ok_nth(1) [OF s(2) assms(3)] by blast
    then have "steps_left q pos' (tab' ! q) < 1 + 982 * 200000" using pos_left_lt [OF s(3), of q "mprio (tab' ! q) = 3"] by (simp add: steps_left_def)
    then have "(if \<exists>m cou. pos' = Slice m q cou then 1 + 982 * 200000 else steps_left q pos' (env (Suc n) e tab' ! q)) <
        (if \<exists>m cou. pos = Slice m q cou then 1 + 982 * 200000 else steps_left q pos (env n d tab ! q))"
      using st(2) nq k by (cases "\<exists>m cou. pos = Slice m q cou") simp_all
    from less(1) [OF this next1] st(1) k obtain k where "k > Suc n" "\<exists>pos' tab'. mlfq_run env t0 k = Inr (Some q, pos', tab')" by auto
    then show ?thesis by (intro exI [of _ k]) simp
  qed
qed

theorem mlfq_no_starvation_witness: "\<exists>k > 0. \<exists>pos' tab'. mlfq_run all_yield mlfq_eg k = Inr (Some 0, pos', tab')"
proof (rule mlfq_no_starvation [OF mlfq_eg_ok])
  show "\<forall>n d tab. allowed d tab (all_yield n d tab)" using all_yield_allowed by blast
  show "\<forall>n d tab. d \<noteq> Some 0 \<longrightarrow> all_yield n d tab ! 0 = tab ! 0"
  proof (intro allI impI)
    fix n d tab assume "d \<noteq> Some (0::nat)"
    then show "all_yield n d tab ! 0 = tab ! 0" by (cases d) (simp_all add: all_yield_def)
  qed
  show "mlfq_run all_yield mlfq_eg 0 = Inr (None, Top, mlfq_eg)" by simp
  show "mstate (all_yield 0 None mlfq_eg ! 0) = RUNNABLE" by (simp add: all_yield_def mlfq_eg_def Let_def)
qed simp

text \<open>
  The loop over \<open>cou\<close> does not end when the process it runs moves down a level: it goes on with the bound of the new level and the old count. A process that has used
  its 32 ticks at level 1 runs on at level 0, though others of a higher level are runnable.
\<close>

lemma demoted_runs_on:
  assumes "mlfq_ok tab" "i < NPROC" "mstate (tab ! i) = RUNNABLE" "mprio (tab ! i) = 1" "mticks (tab ! i) ! 1 = 32"
  shows "\<exists>tab'. mlfq_step (Slice 1 i 31) tab = Inr (Some i, Slice 1 i 32, tab') \<and> mprio (tab' ! i) = 0"
proof -
  note d = entry_okD [OF mlfq_ok_nth(1) [OF assms(1,2)]] mlfq_ok_nth(2) [OF assms(1)]
  define p where "p = (tab ! i)\<lparr>mprio := 0, mticks := (mticks (tab ! i))[0 := 0]\<rparr>"
  have "demote i tab = Inr (tab[i := p])" using d assms(4,5) by (simp add: demote_def Let_def p_def clkPerPrio_def)
  moreover have "entry_ok p" using mlfq_ok_nth(1) [OF assms(1,2)] unfolding entry_ok_def p_def by (auto simp: nth_list_update)
  then have "mlfq_ok (tab[i := p])" by (rule mlfq_ok_upd [OF assms(1)])
  from dispatch_spec [OF this assms(2)] have "slice i 32 (tab[i := p]) = Inr (Some ((map aged (tab[i := p]))[i := ran p]))"
    using assms(2,3) d by (simp add: slice_def p_def clkPerPrio_def)
  ultimately show ?thesis using assms(2) d by (simp add: mlfq_step_def ran_def Let_def p_def)
qed

text \<open>With no entry free, \<open>allocproc\<close> writes to the one after the last.\<close>

lemma alloc_full: "mlfq_alloc n tab = Inl (Fault ''entry after the table'') \<longleftrightarrow> (\<forall>i < length tab. mstate (tab ! i) \<noteq> UNUSED)"
proof (cases "find (\<lambda>i. mstate (tab ! i) = UNUSED) [0..<length tab]")
  case None
  moreover have "\<forall>i < length tab. mstate (tab ! i) \<noteq> UNUSED" using None unfolding find_None_iff by auto
  ultimately show ?thesis by (simp add: mlfq_alloc_def)
next
  case (Some i)
  moreover have "\<exists>i < length tab. mstate (tab ! i) = UNUSED" using Some unfolding find_Some_iff by auto
  ultimately show ?thesis by (auto simp: mlfq_alloc_def)
qed

end
