(* ===== verification/Fsck.thy ===== *)
theory Fsck imports Prelude
begin

text \<open>
  The file system checker, xv6_fsck.c of Project5-1, with its fs.h. The mapped image is the bytes of the file; a read that is not inside it is a fault, so is an
  index outside one of the checker's arrays; \<open>Panic\<close> is the exit with a message. The arrays are functions, with the bounds the code allocates them
  with checked at each access; their allocation succeeds. Offsets are those from the start of the image, on a host with 64-bit pointers.
\<close>

record diskimg =
  dbyte :: "nat \<Rightarrow> u8"
  dlen :: nat

section \<open>The code\<close>

subsection \<open>The image\<close>

definition within :: "diskimg \<Rightarrow> nat \<Rightarrow> nat \<Rightarrow> unit res" where
  "within g a n = (if a + n \<le> dlen g then Inr () else Inl (Fault ''outside the image''))"

definition sb_size :: "diskimg \<Rightarrow> u32" where "sb_size g = ld32 (dbyte g) 512"
definition sb_nblocks :: "diskimg \<Rightarrow> u32" where "sb_nblocks g = ld32 (dbyte g) 516"
definition sb_ninodes :: "diskimg \<Rightarrow> u32" where "sb_ninodes g = ld32 (dbyte g) 520"

definition ninodes :: "diskimg \<Rightarrow> nat" where "ninodes g = unat (sb_ninodes g)"

definition bitmap_block :: "diskimg \<Rightarrow> nat" where
  "bitmap_block g = ninodes g div 8 + 3"

definition bitblocks :: "diskimg \<Rightarrow> nat" where
  "bitblocks g = unat (sb_size g) div (512 * 8) + 1"

definition totalblocks :: "diskimg \<Rightarrow> int" where
  "totalblocks g = sint (of_nat (bitblocks g + bitmap_block g) + sb_nblocks g)"

definition data_start :: "diskimg \<Rightarrow> int" where
  "data_start g = int (bitmap_block g * 512 + bitblocks g * 512)"

definition sys_end :: "diskimg \<Rightarrow> int" where
  "sys_end g = data_start g + int (unat (sb_nblocks g * 512))"

text \<open>Inodes and directory entries.\<close>

definition dinode_at :: "nat \<Rightarrow> nat" where "dinode_at i = 1024 + 64 * i"

definition ityp :: "diskimg \<Rightarrow> nat \<Rightarrow> int" where "ityp g i = sint (ld16 (dbyte g) (dinode_at i))"
definition nlink :: "diskimg \<Rightarrow> nat \<Rightarrow> int" where "nlink g i = sint (ld16 (dbyte g) (dinode_at i + 6))"
definition iaddr :: "diskimg \<Rightarrow> nat \<Rightarrow> nat \<Rightarrow> u32" where "iaddr g i k = ld32 (dbyte g) (dinode_at i + 12 + 4 * k)"
definition inum :: "diskimg \<Rightarrow> nat \<Rightarrow> nat" where "inum g p = unat (ld16 (dbyte g) p)"

definition is_dotdot :: "diskimg \<Rightarrow> nat \<Rightarrow> bool" where
  "is_dotdot g p \<longleftrightarrow> dbyte g (p + 2) = 46 \<and> dbyte g (p + 3) = 46 \<and> dbyte g (p + 4) = 0"

definition is_dot :: "diskimg \<Rightarrow> nat \<Rightarrow> bool" where
  "is_dot g p \<longleftrightarrow> dbyte g (p + 2) = 46 \<and> dbyte g (p + 3) = 0"

subsection \<open>The checker\<close>

record fsck_state =
  visitblock :: "int \<Rightarrow> int"
  inodeinuse :: "nat \<Rightarrow> int"
  inoderefer :: "nat \<Rightarrow> int"
  dirreference :: "nat \<Rightarrow> int"
  parentinum :: "nat \<Rightarrow> nat"
  childentry :: "nat \<Rightarrow> nat \<Rightarrow> bool"

fun each :: "('a \<Rightarrow> 's \<Rightarrow> 's res) \<Rightarrow> 'a list \<Rightarrow> 's \<Rightarrow> 's res" where
  "each f [] s = Inr s"
| "each f (x # xs) s = kbind (f x s) (each f xs)"

definition index :: "nat \<Rightarrow> nat \<Rightarrow> unit res" where
  "index n j = (if j < n then Inr () else Inl (Fault ''index out of the array''))"

text \<open>\<open>++visitblock[a]\<close>.\<close>

definition visit :: "diskimg \<Rightarrow> int \<Rightarrow> fsck_state \<Rightarrow> (int \<times> fsck_state) res" where
  "visit g a s = (if 0 \<le> a \<and> a < totalblocks g then
     let v = visitblock s a + 1 in Inr (v, s\<lparr>visitblock := (visitblock s)(a := v)\<rparr>)
   else Inl (Fault ''index out of the array''))"

text \<open>The test of the bit of the block \<open>a\<close> in the bitmap.\<close>

definition bit_of :: "diskimg \<Rightarrow> nat \<Rightarrow> bool" where
  "bit_of g a = bit (dbyte g (bitmap_block g * 512 + a div 8)) (a mod 8)"

definition need_bit :: "diskimg \<Rightarrow> int \<Rightarrow> fsck_state \<Rightarrow> fsck_state res" where
  "need_bit g a s = kbind (within g (bitmap_block g * 512 + nat a div 8) 1) (\<lambda>_.
     if \<not> bit_of g (nat a) then Inl (Panic ''ERROR: address used by inode but marked free in bitmap.'') else Inr s)"

definition bad_offset :: "diskimg \<Rightarrow> int \<Rightarrow> bool" where
  "bad_offset g off \<longleftrightarrow> off > sys_end g \<or> off < data_start g"

definition check_direct :: "diskimg \<Rightarrow> u32 \<Rightarrow> fsck_state \<Rightarrow> fsck_state res" where
  "check_direct g w s =
     (if bad_offset g (int (unat (512 * w))) then Inl (Panic ''ERROR: bad direct address in inode.'')
      else kbind (visit g (int (unat w)) s) (\<lambda>(v, s).
        if v > 1 then Inl (Panic ''ERROR: direct address used more than once.'') else need_bit g (int (unat w)) s))"

definition check_pointer :: "diskimg \<Rightarrow> u32 \<Rightarrow> fsck_state \<Rightarrow> fsck_state res" where
  "check_pointer g w s = kbind (visit g (int (unat w)) s) (\<lambda>(v, s).
     if bad_offset g (int (unat (w * 512))) then Inl (Panic ''ERROR: bad indirect address in inode.'') else Inr s)"

definition check_indirect :: "diskimg \<Rightarrow> u32 \<Rightarrow> fsck_state \<Rightarrow> fsck_state res" where
  "check_indirect g w s =
     (if bad_offset g (sint (w * 512)) then Inl (Panic ''ERROR: bad indirect address in inode.'')
      else kbind (visit g (sint w) s) (\<lambda>(v, s).
        if v > 1 then Inl (Panic ''ERROR: indirect address used more than once.'') else need_bit g (sint w) s))"

definition ientry :: "diskimg \<Rightarrow> nat \<Rightarrow> nat \<Rightarrow> u32" where
  "ientry g i k = ld32 (dbyte g) (unat (iaddr g i 12 * 512) + 4 * k)"

definition check_blocks :: "diskimg \<Rightarrow> nat \<Rightarrow> fsck_state \<Rightarrow> fsck_state res" where
  "check_blocks g i s =
     kbind (each (\<lambda>j s. if iaddr g i j \<noteq> 0 then check_direct g (iaddr g i j) s else Inr s) [0..<12] s) (\<lambda>s.
       if iaddr g i 12 \<noteq> 0 then kbind (check_pointer g (iaddr g i 12) s)
         (each (\<lambda>k s. kbind (within g (unat (iaddr g i 12 * 512) + 4 * k) 4) (\<lambda>_.
            if ientry g i k \<noteq> 0 then check_indirect g (ientry g i k) s else Inr s)) [0..<128])
       else Inr s)"

text \<open>The test of the root directory's parent: \<open>break\<close> ends the scan of a block.\<close>

fun root_entries :: "diskimg \<Rightarrow> nat \<Rightarrow> nat list \<Rightarrow> unit res" where
  "root_entries g a [] = Inr ()"
| "root_entries g a (e # es) = kbind (within g (a + 16 * e) 16) (\<lambda>_.
     if is_dotdot g (a + 16 * e) then
       (if inum g (a + 16 * e) \<noteq> 1 then Inl (Panic ''ERROR: root directory does not exist.'') else Inr ())
     else root_entries g a es)"

definition check_root :: "diskimg \<Rightarrow> nat \<Rightarrow> unit res" where
  "check_root g i =
     (if ityp g i \<noteq> 1 then Inl (Panic ''ERROR: root directory does not exist.'')
      else each (\<lambda>k _. if iaddr g i k = 0 then Inr () else root_entries g (unat (512 * iaddr g i k)) [0..<32]) [0..<12] ())"

text \<open>An entry of a directory is counted; \<open>dirs\<close> is the array \<open>dirarr\<close>.\<close>

definition count_entry :: "diskimg \<Rightarrow> (nat \<Rightarrow> bool) \<Rightarrow> nat \<Rightarrow> nat \<Rightarrow> fsck_state \<Rightarrow> fsck_state res" where
  "count_entry g dirs i p s = (let j = inum g p in kbind (index (ninodes g) j) (\<lambda>_.
     let s = s\<lparr>inoderefer := (inoderefer s)(j := inoderefer s j + 1)\<rparr> in
     if dirs j \<and> \<not> is_dotdot g p \<and> \<not> is_dot g p then
       Inr (s\<lparr>dirreference := (dirreference s)(j := dirreference s j + 1), childentry := (childentry s)(i := (childentry s i)(j := True))\<rparr>)
     else Inr s))"

definition direct_entry :: "diskimg \<Rightarrow> (nat \<Rightarrow> bool) \<Rightarrow> nat \<Rightarrow> nat \<Rightarrow> bool \<times> bool \<times> fsck_state \<Rightarrow> (bool \<times> bool \<times> fsck_state) res" where
  "direct_entry g dirs i p = (\<lambda>(findroot, findcur, s). kbind (within g p 16) (\<lambda>_.
     if inum g p \<noteq> 0 then
       let s = (if is_dotdot g p then s\<lparr>parentinum := (parentinum s)(i := inum g p)\<rparr> else s);
           findroot = (findroot \<or> is_dotdot g p)
       in if is_dot g p \<and> i \<noteq> inum g p then Inl (Panic ''ERROR: directory not properly formatted.'')
          else kbind (count_entry g dirs i p s) (\<lambda>s. Inr (findroot, findcur \<or> is_dot g p, s))
     else Inr (findroot, findcur, s)))"

definition direct_dir :: "diskimg \<Rightarrow> (nat \<Rightarrow> bool) \<Rightarrow> nat \<Rightarrow> nat \<Rightarrow> bool \<times> bool \<times> fsck_state \<Rightarrow> (bool \<times> bool \<times> fsck_state) res" where
  "direct_dir g dirs i k r =
     (if iaddr g i k = 0 then Inr r
      else kbind (each (\<lambda>e. direct_entry g dirs i (unat (512 * iaddr g i k) + 16 * e)) [0..<32] r) (\<lambda>(findroot, findcur, s).
        if \<not> findroot \<or> \<not> findcur then Inl (Panic ''ERROR: directory not properly formatted.'') else Inr (findroot, findcur, s)))"

definition indirect_dir :: "diskimg \<Rightarrow> (nat \<Rightarrow> bool) \<Rightarrow> nat \<Rightarrow> nat \<Rightarrow> fsck_state \<Rightarrow> fsck_state res" where
  "indirect_dir g dirs i m s = kbind (within g (unat (iaddr g i 12 * 512) + 4 * m) 4) (\<lambda>_.
     if ientry g i m = 0 then Inr s
     else each (\<lambda>e s. let p = nat (sint (ientry g i m * 512)) + 16 * e in
       kbind (within g p 16) (\<lambda>_. count_entry g dirs i p s)) [0..<32] s)"

definition check_dir :: "diskimg \<Rightarrow> (nat \<Rightarrow> bool) \<Rightarrow> nat \<Rightarrow> fsck_state \<Rightarrow> fsck_state res" where
  "check_dir g dirs i s = kbind (each (direct_dir g dirs i) [0..<12] (False, False, s)) (\<lambda>(_, _, s).
     if iaddr g i 12 \<noteq> 0 then each (indirect_dir g dirs i) [0..<128] s else Inr s)"

definition check_inode :: "diskimg \<Rightarrow> (nat \<Rightarrow> bool) \<Rightarrow> nat \<Rightarrow> fsck_state \<Rightarrow> fsck_state res" where
  "check_inode g dirs i s =
     (if ityp g i \<notin> {0, 1, 2, 3} then Inl (Panic ''ERROR: bad inode.'')
      else kbind (if i = 1 then check_root g i else Inr ()) (\<lambda>_.
        if ityp g i \<noteq> 0 then
          kbind (check_blocks g i (s\<lparr>inodeinuse := (inodeinuse s)(i := inodeinuse s i + 1)\<rparr>)) (\<lambda>s.
            if ityp g i = 1 then check_dir g dirs i s else Inr s)
        else Inr s))"

text \<open>The rules on references.\<close>

definition check_refs :: "diskimg \<Rightarrow> nat \<Rightarrow> fsck_state \<Rightarrow> fsck_state res" where
  "check_refs g i s =
     (if inodeinuse s i \<noteq> 0 \<and> inoderefer s i < 1 then Inl (Panic ''ERROR: inode marked use but not found in a directory.'')
      else if inoderefer s i \<noteq> 0 \<and> i \<noteq> 0 \<and> inodeinuse s i = 0 then Inl (Panic ''ERROR: inode referred to in directory but marked free.'')
      else if ityp g i = 2 \<and> nlink g i \<noteq> inoderefer s i then Inl (Panic ''ERROR: bad reference count for file.'')
      else if ityp g i = 1 \<and> (i \<noteq> 1 \<and> 1 \<noteq> dirreference s i \<or> i = 1 \<and> 0 \<noteq> dirreference s i)
      then Inl (Panic ''ERROR: directory appears more than once in file system.'')
      else Inr s)"

definition check_parent :: "nat \<Rightarrow> nat \<Rightarrow> fsck_state \<Rightarrow> fsck_state res" where
  "check_parent i j s = (if childentry s i j \<and> parentinum s j \<noteq> i then Inl (Panic ''ERROR: parent directory mismatch.'') else Inr s)"

text \<open>The walk from a directory up to the root; \<open>ld\<close> is the array \<open>loopdetect\<close>, of \<open>n\<close> entries.\<close>

function climb :: "nat \<Rightarrow> (nat \<Rightarrow> nat) \<Rightarrow> nat \<Rightarrow> (nat \<Rightarrow> nat) \<Rightarrow> (nat \<Rightarrow> nat) res" where
  "climb n par c ld =
     (if c \<ge> n then Inl (Fault ''index out of the array'')
      else if par c = 1 then Inr ld
      else if ld c \<noteq> 0 then Inl (Panic ''ERROR: inaccessible directory exists.'')
      else climb n par (par c) (ld(c := ld c + 1)))"
  by pat_completeness auto
termination
proof (relation "measure (\<lambda>(n, par, c, ld). card {x. x < n \<and> ld x = 0})")
  fix n :: nat and par :: "nat \<Rightarrow> nat" and c :: nat and ld :: "nat \<Rightarrow> nat"
  assume a: "\<not> n \<le> c" "\<not> ld c \<noteq> 0"
  have "{x. x < n \<and> (ld(c := ld c + 1)) x = 0} = {x. x < n \<and> ld x = 0} - {c}" by auto
  moreover have "card ({x. x < n \<and> ld x = 0} - {c}) < card {x. x < n \<and> ld x = 0}" using a by (intro card_Diff1_less) auto
  ultimately show "((n, par, par c, ld(c := ld c + 1)), n, par, c, ld) \<in> measure (\<lambda>(n, par, c, ld). card {x. x < n \<and> ld x = 0})" by simp
qed simp

declare climb.simps [simp del]

definition check_loop :: "nat \<Rightarrow> (nat \<Rightarrow> bool) \<Rightarrow> (nat \<Rightarrow> nat) \<Rightarrow> nat \<Rightarrow> (nat \<Rightarrow> nat) \<Rightarrow> (nat \<Rightarrow> nat) res" where
  "check_loop n dirs par i ld = (if dirs i \<and> ld i \<noteq> 1 then climb n par i ld else Inr ld)"

definition check_bit :: "diskimg \<Rightarrow> nat \<Rightarrow> fsck_state \<Rightarrow> fsck_state res" where
  "check_bit g a s = kbind (within g (bitmap_block g * 512 + a div 8) 1) (\<lambda>_.
     if bit_of g a then (if int a < totalblocks g then
         (if visitblock s (int a) = 0 then Inl (Panic ''ERROR: bitmap marks block in use but it is not in use.'') else Inr s)
       else Inl (Fault ''index out of the array''))
     else Inr s)"

definition fsck_start :: fsck_state where
  "fsck_start = \<lparr>visitblock = (\<lambda>_. 0), inodeinuse = (\<lambda>_. 0), inoderefer = (\<lambda>_. 0), dirreference = (\<lambda>_. 0), parentinum = (\<lambda>_. 0), childentry = (\<lambda>_ _. False)\<rparr>"

definition is_dir :: "diskimg \<Rightarrow> nat \<Rightarrow> bool" where
  "is_dir g i \<longleftrightarrow> i < ninodes g \<and> ityp g i = 1"

text \<open>The whole check; \<open>Inr ()\<close> is the exit status 0.\<close>

definition fsck :: "diskimg \<Rightarrow> unit res" where
  "fsck g = kbind (within g 512 12) (\<lambda>_. let n = ninodes g in
     kbind (each (\<lambda>i _. within g (dinode_at i) 64) [0..<n] ()) (\<lambda>_.
     kbind (each (check_inode g (is_dir g)) [0..<n] fsck_start) (\<lambda>s.
     kbind (each (check_refs g) [0..<n] s) (\<lambda>s.
     kbind (each (\<lambda>i. each (check_parent i) [0..<n]) [0..<n] s) (\<lambda>s.
     kbind (each (check_loop n (is_dir g) (parentinum s)) [0..<n] (\<lambda>_. 0)) (\<lambda>_.
     kbind (each (check_bit g) [bitmap_block g + 1..<unat (sb_nblocks g)] s) (\<lambda>_. Inr ())))))))"

section \<open>Loops\<close>

lemma each_filter: "each (\<lambda>x s. if P x then f x s else Inr s) xs s = each f (filter P xs) s"
  by (induction xs arbitrary: s) (auto simp: kbind_def split: sum.splits)

lemma each_guarded: "each (\<lambda>x s. kbind (c x) (\<lambda>_. if P x then f x s else Inr s)) xs s = Inr t \<Longrightarrow> each f (filter P xs) s = Inr t"
  by (induction xs arbitrary: s) (auto simp: kbind_Inr_iff split: if_splits)

lemma each_append: "each f (xs @ ys) s = kbind (each f xs s) (each f ys)"
  by (induction xs arbitrary: s) (auto simp: kbind_def split: sum.splits)

lemma each_map: "each f (map h xs) s = each (\<lambda>x. f (h x)) xs s"
  by (induction xs arbitrary: s) (auto simp: kbind_def split: sum.splits)

lemma each_concat: "each (\<lambda>x. each (f x) (ys x)) xs s = each (\<lambda>(x, y). f x y) (concat (map (\<lambda>x. map (Pair x) (ys x)) xs)) s"
  by (induction xs arbitrary: s) (auto simp: each_append each_map kbind_def split: sum.splits)

text \<open>A loop whose body has a pure effect and checks a condition that does not depend on the state.\<close>

lemma each_fold:
  assumes "each f xs s = Inr t" "\<And>x s t. x \<in> set xs \<Longrightarrow> f x s = Inr t \<Longrightarrow> Q x \<and> t = h x s"
  shows "(\<forall>x \<in> set xs. Q x) \<and> t = fold h xs s"
  using assms
proof (induction xs arbitrary: s)
  case (Cons x xs)
  then obtain u where u: "f x s = Inr u" "each f xs u = Inr t" by (auto simp: kbind_Inr_iff)
  have "Q x \<and> u = h x s" using Cons(3) u(1) by simp
  then show ?case using Cons(1) [OF u(2)] Cons(3) by simp
qed simp

text \<open>The counters of the blocks.\<close>

definition bump :: "int \<Rightarrow> (int \<Rightarrow> int) \<Rightarrow> int \<Rightarrow> int" where
  "bump a v = v(a := v a + 1)"

lemma bumps: "fold bump as v a = v a + int (count_list as a)"
  by (induction as arbitrary: v) (simp_all add: bump_def)

text \<open>A loop that counts each block once and stops at one counted before.\<close>

lemma each_visit:
  assumes "each f xs s = Inr t" "\<And>a. 0 \<le> visitblock s a"
    and "\<And>x s t. x \<in> set xs \<Longrightarrow> f x s = Inr t \<Longrightarrow> Q x \<and> visitblock s (h x) \<le> 0 \<and> t = s\<lparr>visitblock := bump (h x) (visitblock s)\<rparr>"
  shows "t = s\<lparr>visitblock := fold bump (map h xs) (visitblock s)\<rparr> \<and> distinct (map h xs) \<and> (\<forall>x \<in> set xs. Q x \<and> visitblock s (h x) = 0)"
  using assms
proof (induction xs arbitrary: s)
  case (Cons x xs)
  then obtain u where u: "f x s = Inr u" "each f xs u = Inr t" by (auto simp: kbind_Inr_iff)
  have x: "Q x" "visitblock s (h x) = 0" "u = s\<lparr>visitblock := bump (h x) (visitblock s)\<rparr>"
    using Cons(4) [OF _ u(1)] Cons(3) [of "h x"] by simp_all
  have n: "0 \<le> visitblock u a" for a using Cons(3) [of a] x(2) unfolding x(3) by (simp add: bump_def)
  from Cons(1) [OF u(2) n] Cons(4) have r: "t = u\<lparr>visitblock := fold bump (map h xs) (visitblock u)\<rparr>" "distinct (map h xs)"
      "\<forall>x \<in> set xs. Q x \<and> visitblock u (h x) = 0" by auto
  have "\<forall>y \<in> set xs. h y \<noteq> h x \<and> visitblock s (h y) = 0" using r(3) x(2) unfolding x(3) bump_def by (auto split: if_splits)
  then show ?case using r x by auto
qed simp

section \<open>What the checker looks at\<close>

text \<open>The addresses of the blocks of the inode \<open>i\<close>, of its block of addresses, and of its directory entries.\<close>

definition direct_blocks :: "diskimg \<Rightarrow> nat \<Rightarrow> int list" where
  "direct_blocks g i = map (\<lambda>j. int (unat (iaddr g i j))) (filter (\<lambda>j. iaddr g i j \<noteq> 0) [0..<12])"

definition indirect_blocks :: "diskimg \<Rightarrow> nat \<Rightarrow> int list" where
  "indirect_blocks g i = (if iaddr g i 12 = 0 then [] else map (\<lambda>k. sint (ientry g i k)) (filter (\<lambda>k. ientry g i k \<noteq> 0) [0..<128]))"

definition pointer_block :: "diskimg \<Rightarrow> nat \<Rightarrow> int list" where
  "pointer_block g i = (if iaddr g i 12 = 0 then [] else [int (unat (iaddr g i 12))])"

definition data_blocks :: "diskimg \<Rightarrow> nat \<Rightarrow> int list" where
  "data_blocks g i = (if ityp g i = 0 then [] else direct_blocks g i @ indirect_blocks g i)"

definition all_blocks :: "diskimg \<Rightarrow> nat \<Rightarrow> int list" where
  "all_blocks g i = (if ityp g i = 0 then [] else direct_blocks g i @ pointer_block g i @ indirect_blocks g i)"

text \<open>A block address that passes the checks: below 4194304 the offset in bytes does not wrap.\<close>

definition sound_block :: "diskimg \<Rightarrow> int \<Rightarrow> bool" where
  "sound_block g a \<longleftrightarrow> 0 \<le> a \<and> data_start g \<le> 512 * a \<and> 512 * a \<le> sys_end g \<and> bit_of g (nat a)"

definition small :: "diskimg \<Rightarrow> bool" where
  "small g \<longleftrightarrow> totalblocks g \<le> 4194304"

lemma unat_times_512:
  fixes w :: u32
  assumes "int (unat w) < 4194304"
  shows "int (unat (512 * w)) = 512 * int (unat w)" "unat (512 * w) = 512 * unat w"
proof -
  have "unat w < 4194304" using assms by (simp only: of_nat_less_iff [symmetric, where ?'a = int] of_nat_numeral)
  then have "unat (512 :: u32) * unat w < 2 ^ 32" by simp
  then show "unat (512 * w) = 512 * unat w" by (simp add: unat_word_ariths)
  then show "int (unat (512 * w)) = 512 * int (unat w)" by (simp only: of_nat_mult of_nat_numeral)
qed

lemma sint_times_512:
  fixes w :: u32
  assumes "0 \<le> sint w" "sint w < 4194304"
  shows "sint (w * 512) = 512 * sint w"
proof -
  have "signed_take_bit 31 (sint w * 512) = sint w * 512" using assms by (intro signed_take_bit_int_eq_self) simp_all
  then show ?thesis by (simp add: sint_word_mult)
qed

subsection \<open>Blocks\<close>

lemma visit_Inr: "visit g a s = Inr (v, t) \<longleftrightarrow> 0 \<le> a \<and> a < totalblocks g \<and> v = visitblock s a + 1 \<and> t = s\<lparr>visitblock := bump a (visitblock s)\<rparr>"
  by (auto simp: visit_def bump_def Let_def)

lemma need_bit_Inr: "need_bit g a s = Inr t \<Longrightarrow> bit_of g (nat a) \<and> t = s"
  by (auto simp: need_bit_def kbind_Inr_iff split: if_splits)

lemma check_direct_Inr:
  assumes "check_direct g w s = Inr t" "small g"
  shows "sound_block g (int (unat w)) \<and> visitblock s (int (unat w)) \<le> 0 \<and> t = s\<lparr>visitblock := bump (int (unat w)) (visitblock s)\<rparr>"
proof -
  obtain v u where v: "\<not> bad_offset g (int (unat (512 * w)))" "visit g (int (unat w)) s = Inr (v, u)" "\<not> v > 1" "need_bit g (int (unat w)) u = Inr t"
    using assms(1) unfolding check_direct_def by (auto simp: kbind_Inr_iff split: if_splits)
  note n = need_bit_Inr [OF v(4)] and u = v(2) [unfolded visit_Inr]
  have "int (unat w) < 4194304" using u assms(2) by (simp add: small_def)
  from unat_times_512(1) [OF this] show ?thesis using v(1,3) n u unfolding sound_block_def bad_offset_def by simp
qed

lemma check_indirect_Inr:
  assumes "check_indirect g w s = Inr t" "small g"
  shows "sound_block g (sint w) \<and> visitblock s (sint w) \<le> 0 \<and> t = s\<lparr>visitblock := bump (sint w) (visitblock s)\<rparr>"
proof -
  obtain v u where v: "\<not> bad_offset g (sint (w * 512))" "visit g (sint w) s = Inr (v, u)" "\<not> v > 1" "need_bit g (sint w) u = Inr t"
    using assms(1) unfolding check_indirect_def by (auto simp: kbind_Inr_iff split: if_splits)
  note n = need_bit_Inr [OF v(4)] and u = v(2) [unfolded visit_Inr]
  have "0 \<le> sint w" "sint w < 4194304" using u assms(2) by (simp_all add: small_def)
  from sint_times_512 [OF this] show ?thesis using v(1,3) n u unfolding sound_block_def bad_offset_def by simp
qed

lemma check_blocks_Inr:
  assumes "check_blocks g i s = Inr t" "small g" "\<And>a. 0 \<le> visitblock s a" "ityp g i \<noteq> 0"
  shows "t = s\<lparr>visitblock := fold bump (all_blocks g i) (visitblock s)\<rparr> \<and> distinct (data_blocks g i) \<and>
    (\<forall>a \<in> set (data_blocks g i). sound_block g a \<and> visitblock s a = 0)"
proof -
  let ?f = "\<lambda>j. check_direct g (iaddr g i j)"
  obtain u where u: "each ?f (filter (\<lambda>j. iaddr g i j \<noteq> 0) [0..<12]) s = Inr u"
      "(if iaddr g i 12 \<noteq> 0 then kbind (check_pointer g (iaddr g i 12) u)
         (each (\<lambda>k s. kbind (within g (unat (iaddr g i 12 * 512) + 4 * k) 4) (\<lambda>_.
            if ientry g i k \<noteq> 0 then check_indirect g (ientry g i k) s else Inr s)) [0..<128])
       else Inr u) = Inr t"
    using assms(1) unfolding check_blocks_def each_filter by (auto simp: kbind_Inr_iff)
  have d: "u = s\<lparr>visitblock := fold bump (direct_blocks g i) (visitblock s)\<rparr>" "distinct (direct_blocks g i)"
    "\<forall>a \<in> set (direct_blocks g i). sound_block g a \<and> visitblock s a = 0"
    using each_visit [OF u(1) assms(3), of "\<lambda>j. sound_block g (int (unat (iaddr g i j)))" "\<lambda>j. int (unat (iaddr g i j))"] check_direct_Inr [OF _ assms(2)]
    unfolding direct_blocks_def by auto
  show ?thesis
  proof (cases "iaddr g i 12 = 0")
    case True
    then show ?thesis using d u(2) assms(4) by (simp add: data_blocks_def all_blocks_def pointer_block_def indirect_blocks_def)
  next
    case False
    then obtain w where w: "check_pointer g (iaddr g i 12) u = Inr w"
        "each (\<lambda>k s. kbind (within g (unat (iaddr g i 12 * 512) + 4 * k) 4) (\<lambda>_. if ientry g i k \<noteq> 0 then check_indirect g (ientry g i k) s else Inr s)) [0..<128] w = Inr t"
      using u(2) by (auto simp: kbind_Inr_iff)
    define pa where "pa = int (unat (iaddr g i 12))"
    have wv: "w = u\<lparr>visitblock := bump pa (visitblock u)\<rparr>" using w(1) unfolding check_pointer_def pa_def by (auto simp: kbind_Inr_iff visit_Inr split: if_splits)
    have n: "0 \<le> visitblock w a" for a
      using assms(3) [of a] assms(3) [of pa] unfolding wv d(1) by (simp add: bump_def bumps)
    have r: "t = w\<lparr>visitblock := fold bump (indirect_blocks g i) (visitblock w)\<rparr>" "distinct (indirect_blocks g i)"
      "\<forall>a \<in> set (indirect_blocks g i). sound_block g a \<and> visitblock w a = 0"
      using each_visit [OF each_guarded [OF w(2)] n, of "\<lambda>k. sound_block g (sint (ientry g i k))" "\<lambda>k. sint (ientry g i k)"] check_indirect_Inr [OF _ assms(2)] False
      unfolding indirect_blocks_def by auto
    have old: "visitblock s a = 0 \<and> a \<notin> set (direct_blocks g i)" if "a \<in> set (indirect_blocks g i)" for a
    proof -
      have "visitblock w a = 0" using r(3) that by blast
      then have "visitblock s a + int (count_list (direct_blocks g i) a) \<le> 0" unfolding wv d(1) by (auto simp: bump_def bumps split: if_splits)
      then have "visitblock s a = 0" "count_list (direct_blocks g i) a = 0" using assms(3) [of a] by linarith+
      then show ?thesis by (simp add: count_list_0_iff)
    qed
    have "t = s\<lparr>visitblock := fold bump (all_blocks g i) (visitblock s)\<rparr>"
      unfolding r(1) wv d(1) all_blocks_def pointer_block_def pa_def using False assms(4) by simp
    moreover have "distinct (data_blocks g i)" using d(2) r(2) old unfolding data_blocks_def by auto
    moreover have "\<forall>a \<in> set (data_blocks g i). sound_block g a \<and> visitblock s a = 0" using d(3) r(3) old unfolding data_blocks_def by auto
    ultimately show ?thesis by blast
  qed
qed

subsection \<open>Directories\<close>

definition named :: "diskimg \<Rightarrow> nat \<Rightarrow> bool" where
  "named g p \<longleftrightarrow> \<not> is_dotdot g p \<and> \<not> is_dot g p"

definition block_entries :: "nat \<Rightarrow> nat list" where
  "block_entries a = map (\<lambda>e. a + 16 * e) [0..<32]"

definition direct_entries :: "diskimg \<Rightarrow> nat \<Rightarrow> nat list \<Rightarrow> nat list" where
  "direct_entries g i ks = filter (\<lambda>p. inum g p \<noteq> 0) (concat (map (\<lambda>k. block_entries (unat (512 * iaddr g i k))) (filter (\<lambda>k. iaddr g i k \<noteq> 0) ks)))"

definition indirect_entries :: "diskimg \<Rightarrow> nat \<Rightarrow> nat list" where
  "indirect_entries g i = (if iaddr g i 12 = 0 then []
     else concat (map (\<lambda>m. block_entries (nat (sint (ientry g i m * 512)))) (filter (\<lambda>m. ientry g i m \<noteq> 0) [0..<128])))"

text \<open>What one entry does to the counts.\<close>

definition counted :: "diskimg \<Rightarrow> (nat \<Rightarrow> bool) \<Rightarrow> nat \<Rightarrow> nat \<Rightarrow> fsck_state \<Rightarrow> fsck_state" where
  "counted g dirs i p s = (let j = inum g p; s = s\<lparr>inoderefer := (inoderefer s)(j := inoderefer s j + 1)\<rparr> in
     if dirs j \<and> named g p then
       s\<lparr>dirreference := (dirreference s)(j := dirreference s j + 1), childentry := (childentry s)(i := (childentry s i)(j := True))\<rparr>
     else s)"

definition entered :: "diskimg \<Rightarrow> (nat \<Rightarrow> bool) \<Rightarrow> nat \<Rightarrow> nat \<Rightarrow> fsck_state \<Rightarrow> fsck_state" where
  "entered g dirs i p s = counted g dirs i p (if is_dotdot g p then s\<lparr>parentinum := (parentinum s)(i := inum g p)\<rparr> else s)"

lemma count_entry_Inr: "count_entry g dirs i p s = Inr t \<Longrightarrow> inum g p < ninodes g \<and> t = counted g dirs i p s"
  by (auto simp: count_entry_def counted_def named_def index_def Let_def split: if_splits)

lemma direct_entry_Inr:
  assumes "direct_entry g dirs i p (fr, fc, s) = Inr (fr', fc', t)"
  shows "if inum g p = 0 then fr' = fr \<and> fc' = fc \<and> t = s
    else inum g p < ninodes g \<and> (is_dot g p \<longrightarrow> inum g p = i) \<and> fr' = (fr \<or> is_dotdot g p) \<and> fc' = (fc \<or> is_dot g p) \<and> t = entered g dirs i p s"
  using assms count_entry_Inr [of g dirs i p "if is_dotdot g p then s\<lparr>parentinum := (parentinum s)(i := inum g p)\<rparr> else s"]
  unfolding direct_entry_def entered_def Let_def by (auto simp: kbind_Inr_iff split: if_splits)

definition entry_sound :: "diskimg \<Rightarrow> nat \<Rightarrow> nat \<Rightarrow> bool" where
  "entry_sound g i p \<longleftrightarrow> inum g p < ninodes g \<and> (is_dot g p \<longrightarrow> inum g p = i)"

lemma direct_entries_loop:
  assumes "each (\<lambda>e. direct_entry g dirs i (a + 16 * e)) es (fr, fc, s) = Inr (fr', fc', t)"
    and "ps = filter (\<lambda>p. inum g p \<noteq> 0) (map (\<lambda>e. a + 16 * e) es)"
  shows "t = fold (entered g dirs i) ps s \<and> (\<forall>p \<in> set ps. entry_sound g i p) \<and> (fr' \<longleftrightarrow> fr \<or> (\<exists>p \<in> set ps. is_dotdot g p)) \<and>
    (fc' \<longleftrightarrow> fc \<or> (\<exists>p \<in> set ps. is_dot g p))"
  using assms
proof (induction es arbitrary: fr fc s ps)
  case (Cons e es)
  then obtain u where u: "direct_entry g dirs i (a + 16 * e) (fr, fc, s) = Inr u"
      "each (\<lambda>e. direct_entry g dirs i (a + 16 * e)) es u = Inr (fr', fc', t)" by (auto simp: kbind_Inr_iff)
  obtain fr1 fc1 s1 where u1: "u = (fr1, fc1, s1)" by (cases u) auto
  note d = direct_entry_Inr [OF u(1) [unfolded u1]] and r = Cons(1) [OF u(2) [unfolded u1] refl]
  show ?case using d r Cons(3) by (cases "inum g (a + 16 * e) = 0") (auto simp: entry_sound_def)
qed simp

lemma direct_dir_loop:
  assumes "each (direct_dir g dirs i) ks (fr, fc, s) = Inr (fr', fc', t)"
  shows "t = fold (entered g dirs i) (direct_entries g i ks) s \<and> (\<forall>p \<in> set (direct_entries g i ks). entry_sound g i p) \<and>
    (fr' \<longleftrightarrow> fr \<or> (\<exists>p \<in> set (direct_entries g i ks). is_dotdot g p)) \<and> (fc' \<longleftrightarrow> fc \<or> (\<exists>p \<in> set (direct_entries g i ks). is_dot g p)) \<and>
    ((\<exists>k \<in> set ks. iaddr g i k \<noteq> 0) \<longrightarrow> fr' \<and> fc')"
  using assms
proof (induction ks arbitrary: fr fc s)
  case (Cons k ks)
  then obtain u where u: "direct_dir g dirs i k (fr, fc, s) = Inr u" "each (direct_dir g dirs i) ks u = Inr (fr', fc', t)" by (auto simp: kbind_Inr_iff)
  obtain fr1 fc1 s1 where u1: "u = (fr1, fc1, s1)" by (cases u) auto
  note r = Cons(1) [OF u(2) [unfolded u1]]
  show ?case
  proof (cases "iaddr g i k = 0")
    case True
    then have e: "direct_entries g i (k # ks) = direct_entries g i ks" "(\<exists>j \<in> set (k # ks). iaddr g i j \<noteq> 0) \<longleftrightarrow> (\<exists>j \<in> set ks. iaddr g i j \<noteq> 0)"
      by (simp_all add: direct_entries_def)
    have v: "fr1 = fr" "fc1 = fc" "s1 = s" using u(1) True unfolding u1 by (simp_all add: direct_dir_def)
    show ?thesis using r unfolding e v .
  next
    case False
    let ?a = "unat (512 * iaddr g i k)"
    have e: "each (\<lambda>e. direct_entry g dirs i (?a + 16 * e)) [0..<32] (fr, fc, s) = Inr (fr1, fc1, s1)" "fr1" "fc1"
      using u(1) False unfolding u1 direct_dir_def by (auto simp: kbind_Inr_iff split: if_splits)
    have ps: "direct_entries g i (k # ks) = filter (\<lambda>p. inum g p \<noteq> 0) (block_entries ?a) @ direct_entries g i ks"
      using False by (simp add: direct_entries_def)
    note d = direct_entries_loop [OF e(1) refl, folded block_entries_def]
    show ?thesis using d r e(2,3) unfolding ps by auto
  qed
qed (simp add: direct_entries_def)

lemma check_dir_Inr:
  assumes "check_dir g dirs i s = Inr t"
  shows "t = fold (counted g dirs i) (indirect_entries g i) (fold (entered g dirs i) (direct_entries g i [0..<12]) s) \<and>
    (\<forall>p \<in> set (direct_entries g i [0..<12]). entry_sound g i p) \<and> (\<forall>p \<in> set (indirect_entries g i). inum g p < ninodes g) \<and>
    ((\<exists>k < 12. iaddr g i k \<noteq> 0) \<longrightarrow> (\<exists>p \<in> set (direct_entries g i [0..<12]). is_dotdot g p) \<and> (\<exists>p \<in> set (direct_entries g i [0..<12]). is_dot g p))"
proof -
  obtain fr fc u where u: "each (direct_dir g dirs i) [0..<12] (False, False, s) = Inr (fr, fc, u)"
      "(if iaddr g i 12 \<noteq> 0 then each (indirect_dir g dirs i) [0..<128] u else Inr u) = Inr t"
    using assms unfolding check_dir_def by (auto simp: kbind_Inr_iff)
  note d = direct_dir_loop [OF u(1)]
  have "t = fold (counted g dirs i) (indirect_entries g i) u \<and> (\<forall>p \<in> set (indirect_entries g i). inum g p < ninodes g)"
  proof (cases "iaddr g i 12 = 0")
    case True
    then show ?thesis using u(2) by (simp add: indirect_entries_def)
  next
    case False
    let ?f = "\<lambda>m. fold (counted g dirs i) (block_entries (nat (sint (ientry g i m * 512))))"
    let ?Q = "\<lambda>m. ientry g i m \<noteq> 0 \<longrightarrow> (\<forall>p \<in> set (block_entries (nat (sint (ientry g i m * 512)))). inum g p < ninodes g)"
    have "(\<forall>m \<in> set [0..<128]. ?Q m) \<and> t = fold (\<lambda>m. if ientry g i m \<noteq> 0 then ?f m else (\<lambda>s. s)) [0..<128] u"
    proof (rule each_fold)
      show "each (indirect_dir g dirs i) [0..<128] u = Inr t" using u(2) False by simp
      fix m s t assume "indirect_dir g dirs i m s = Inr t"
      then have m: "if ientry g i m = 0 then t = s else each (\<lambda>e s. let p = nat (sint (ientry g i m * 512)) + 16 * e in
          kbind (within g p 16) (\<lambda>_. count_entry g dirs i p s)) [0..<32] s = Inr t"
        unfolding indirect_dir_def by (auto simp: kbind_Inr_iff split: if_splits)
      show "?Q m \<and> t = (if ientry g i m \<noteq> 0 then ?f m else (\<lambda>s. s)) s"
      proof (cases "ientry g i m = 0")
        case False
        let ?p = "\<lambda>e. nat (sint (ientry g i m * 512)) + 16 * e"
        have "each (\<lambda>e s. kbind (within g (?p e) 16) (\<lambda>_. count_entry g dirs i (?p e) s)) [0..<32] s = Inr t" using m False by (simp add: Let_def)
        then have "(\<forall>e \<in> set [0..<32]. inum g (?p e) < ninodes g) \<and> t = fold (\<lambda>e. counted g dirs i (?p e)) [0..<32] s"
          by (rule each_fold) (auto simp: kbind_Inr_iff dest: count_entry_Inr)
        then show ?thesis using False by (simp add: block_entries_def fold_map comp_def)
      qed (use m in simp)
    qed
    moreover have "fold (\<lambda>m. if ientry g i m \<noteq> 0 then ?f m else (\<lambda>s. s)) ms v = fold (counted g dirs i)
        (concat (map (\<lambda>m. block_entries (nat (sint (ientry g i m * 512)))) (filter (\<lambda>m. ientry g i m \<noteq> 0) ms))) v" for ms v
      by (induction ms arbitrary: v) simp_all
    ultimately show ?thesis using False unfolding indirect_entries_def by auto
  qed
  then show ?thesis using d by auto
qed

subsection \<open>The counts of an inode\<close>

definition dir_entries :: "diskimg \<Rightarrow> nat \<Rightarrow> nat list" where
  "dir_entries g i = (if ityp g i = 1 then direct_entries g i [0..<12] @ indirect_entries g i else [])"

definition parent_of :: "diskimg \<Rightarrow> nat \<Rightarrow> nat" where
  "parent_of g i = (let ps = filter (is_dotdot g) (direct_entries g i [0..<12]) in if ityp g i = 1 \<and> ps \<noteq> [] then inum g (last ps) else 0)"

lemma counted_fold:
  "visitblock (fold (counted g dirs i) ps s) = visitblock s" "inodeinuse (fold (counted g dirs i) ps s) = inodeinuse s"
  "parentinum (fold (counted g dirs i) ps s) = parentinum s"
  "inoderefer (fold (counted g dirs i) ps s) j = inoderefer s j + int (length (filter (\<lambda>p. inum g p = j) ps))"
  "dirreference (fold (counted g dirs i) ps s) j = dirreference s j + (if dirs j then int (length (filter (\<lambda>p. inum g p = j \<and> named g p) ps)) else 0)"
  "childentry (fold (counted g dirs i) ps s) a j \<longleftrightarrow> childentry s a j \<or> a = i \<and> dirs j \<and> (\<exists>p \<in> set ps. named g p \<and> inum g p = j)"
  by (induction ps arbitrary: s) (auto simp: counted_def Let_def split: if_splits)

lemma entered_fold:
  "visitblock (fold (entered g dirs i) ps s) = visitblock s" "inodeinuse (fold (entered g dirs i) ps s) = inodeinuse s"
  "inoderefer (fold (entered g dirs i) ps s) j = inoderefer s j + int (length (filter (\<lambda>p. inum g p = j) ps))"
  "dirreference (fold (entered g dirs i) ps s) j = dirreference s j + (if dirs j then int (length (filter (\<lambda>p. inum g p = j \<and> named g p) ps)) else 0)"
  "childentry (fold (entered g dirs i) ps s) a j \<longleftrightarrow> childentry s a j \<or> a = i \<and> dirs j \<and> (\<exists>p \<in> set ps. named g p \<and> inum g p = j)"
  "parentinum (fold (entered g dirs i) ps s) a = (if a = i \<and> filter (is_dotdot g) ps \<noteq> [] then inum g (last (filter (is_dotdot g) ps)) else parentinum s a)"
  by (induction ps arbitrary: s) (auto simp: entered_def counted_def Let_def split: if_splits)

text \<open>What holds of an inode that has passed.\<close>

definition inode_sound :: "diskimg \<Rightarrow> nat \<Rightarrow> bool" where
  "inode_sound g i \<longleftrightarrow> ityp g i \<in> {0, 1, 2, 3} \<and> (i = 1 \<longrightarrow> ityp g i = 1) \<and> (\<forall>a \<in> set (data_blocks g i). sound_block g a) \<and>
     (\<forall>p \<in> set (dir_entries g i). inum g p < ninodes g) \<and>
     (ityp g i = 1 \<and> (\<exists>k < 12. iaddr g i k \<noteq> 0) \<longrightarrow>
        (\<exists>p \<in> set (dir_entries g i). is_dotdot g p \<and> inum g p = parent_of g i) \<and> (\<exists>p \<in> set (dir_entries g i). is_dot g p \<and> inum g p = i))"

lemma check_inode_Inr:
  assumes "check_inode g dirs i s = Inr t" "small g" "\<And>a. 0 \<le> visitblock s a"
  shows "visitblock t = fold bump (all_blocks g i) (visitblock s)"
    "inodeinuse t = (if ityp g i \<noteq> 0 then (inodeinuse s)(i := inodeinuse s i + 1) else inodeinuse s)"
    "inoderefer t j = inoderefer s j + int (length (filter (\<lambda>p. inum g p = j) (dir_entries g i)))"
    "dirreference t j = dirreference s j + (if dirs j then int (length (filter (\<lambda>p. inum g p = j \<and> named g p) (dir_entries g i))) else 0)"
    "childentry t a j \<longleftrightarrow> childentry s a j \<or> a = i \<and> dirs j \<and> (\<exists>p \<in> set (dir_entries g i). named g p \<and> inum g p = j)"
    "parentinum s i = 0 \<Longrightarrow> parentinum t = (parentinum s)(i := parent_of g i)"
    "inode_sound g i" "distinct (data_blocks g i)" "b \<in> set (data_blocks g i) \<Longrightarrow> visitblock s b = 0"
proof -
  have ty: "ityp g i \<in> {0, 1, 2, 3}" using assms(1) unfolding check_inode_def by (auto split: if_splits)
  have root: "i = 1 \<longrightarrow> ityp g i = 1" using assms(1) unfolding check_inode_def check_root_def by (auto simp: kbind_Inr_iff split: if_splits)
  have "visitblock t = fold bump (all_blocks g i) (visitblock s) \<and>
    inodeinuse t = (if ityp g i \<noteq> 0 then (inodeinuse s)(i := inodeinuse s i + 1) else inodeinuse s) \<and>
    inoderefer t j = inoderefer s j + int (length (filter (\<lambda>p. inum g p = j) (dir_entries g i))) \<and>
    dirreference t j = dirreference s j + (if dirs j then int (length (filter (\<lambda>p. inum g p = j \<and> named g p) (dir_entries g i))) else 0) \<and>
    (childentry t a j \<longleftrightarrow> childentry s a j \<or> a = i \<and> dirs j \<and> (\<exists>p \<in> set (dir_entries g i). named g p \<and> inum g p = j)) \<and>
    (parentinum s i = 0 \<longrightarrow> parentinum t = (parentinum s)(i := parent_of g i)) \<and>
    inode_sound g i \<and> distinct (data_blocks g i) \<and> (b \<in> set (data_blocks g i) \<longrightarrow> visitblock s b = 0)"
  proof (cases "ityp g i = 0")
    case True
    then have "t = s" using assms(1) unfolding check_inode_def by (auto simp: kbind_Inr_iff split: if_splits)
    then show ?thesis using True root by (auto simp: all_blocks_def data_blocks_def dir_entries_def parent_of_def inode_sound_def fun_eq_iff)
  next
    case False
    define s1 where "s1 = s\<lparr>inodeinuse := (inodeinuse s)(i := inodeinuse s i + 1)\<rparr>"
    obtain u where u: "check_blocks g i s1 = Inr u" "(if ityp g i = 1 then check_dir g dirs i u else Inr u) = Inr t"
      using assms(1) ty False unfolding check_inode_def s1_def by (auto simp: kbind_Inr_iff split: if_splits)
    have "0 \<le> visitblock s1 a" for a using assms(3) by (simp add: s1_def)
    note b = check_blocks_Inr [OF u(1) assms(2) this False]
    have bs: "\<forall>a \<in> set (data_blocks g i). sound_block g a" "distinct (data_blocks g i)" "b \<in> set (data_blocks g i) \<longrightarrow> visitblock s b = 0"
      using b by (simp_all add: s1_def)
    show ?thesis
    proof (cases "ityp g i = 1")
      case D: False
      then have "t = s1\<lparr>visitblock := fold bump (all_blocks g i) (visitblock s1)\<rparr>" using u(2) b by simp
      then show ?thesis using D False ty root bs by (auto simp: s1_def dir_entries_def parent_of_def inode_sound_def fun_eq_iff)
    next
      case D: True
      then have "check_dir g dirs i u = Inr t" using u(2) by simp
      note d = check_dir_Inr [OF this]
      have u': "u = s1\<lparr>visitblock := fold bump (all_blocks g i) (visitblock s1)\<rparr>" using b by simp
      have t: "t = fold (counted g dirs i) (indirect_entries g i) (fold (entered g dirs i) (direct_entries g i [0..<12]) u)" using d by blast
      let ?ps = "filter (is_dotdot g) (direct_entries g i [0..<12])"
      have par: "parent_of g i = (if ?ps \<noteq> [] then inum g (last ?ps) else 0)" using D by (simp add: parent_of_def Let_def)
      have "inode_sound g i"
        unfolding inode_sound_def
      proof (intro conjI impI)
        assume "ityp g i = 1 \<and> (\<exists>k<12. iaddr g i k \<noteq> 0)"
        then have p: "\<exists>p \<in> set (direct_entries g i [0..<12]). is_dotdot g p" "\<exists>p \<in> set (direct_entries g i [0..<12]). is_dot g p" using d by blast+
        then have ne: "?ps \<noteq> []" by (auto simp: filter_empty_conv)
        have "last ?ps \<in> set ?ps" using last_in_set [OF ne] .
        then show "\<exists>p \<in> set (dir_entries g i). is_dotdot g p \<and> inum g p = parent_of g i" using ne D unfolding par dir_entries_def by auto
        show "\<exists>p \<in> set (dir_entries g i). is_dot g p \<and> inum g p = i" using p(2) d D unfolding dir_entries_def entry_sound_def by auto
      qed (use ty root bs(1) d D in \<open>auto simp: dir_entries_def entry_sound_def\<close>)
      moreover have "visitblock t = fold bump (all_blocks g i) (visitblock s)" "inodeinuse t = (inodeinuse s)(i := inodeinuse s i + 1)"
        unfolding t counted_fold entered_fold u' by (simp_all add: s1_def)
      moreover have "inoderefer t j = inoderefer s j + int (length (filter (\<lambda>p. inum g p = j) (dir_entries g i)))"
        "dirreference t j = dirreference s j + (if dirs j then int (length (filter (\<lambda>p. inum g p = j \<and> named g p) (dir_entries g i))) else 0)"
        "childentry t a j \<longleftrightarrow> childentry s a j \<or> a = i \<and> dirs j \<and> (\<exists>p \<in> set (dir_entries g i). named g p \<and> inum g p = j)"
        unfolding t counted_fold entered_fold u' using D by (auto simp: s1_def dir_entries_def)
      moreover have "parentinum s i = 0 \<longrightarrow> parentinum t = (parentinum s)(i := parent_of g i)"
        unfolding t counted_fold par by (auto simp: fun_eq_iff entered_fold u' s1_def)
      ultimately show ?thesis using bs False by simp
    qed
  qed
  then show "visitblock t = fold bump (all_blocks g i) (visitblock s)"
    "inodeinuse t = (if ityp g i \<noteq> 0 then (inodeinuse s)(i := inodeinuse s i + 1) else inodeinuse s)"
    "inoderefer t j = inoderefer s j + int (length (filter (\<lambda>p. inum g p = j) (dir_entries g i)))"
    "dirreference t j = dirreference s j + (if dirs j then int (length (filter (\<lambda>p. inum g p = j \<and> named g p) (dir_entries g i))) else 0)"
    "childentry t a j \<longleftrightarrow> childentry s a j \<or> a = i \<and> dirs j \<and> (\<exists>p \<in> set (dir_entries g i). named g p \<and> inum g p = j)"
    "parentinum s i = 0 \<Longrightarrow> parentinum t = (parentinum s)(i := parent_of g i)"
    "inode_sound g i" "distinct (data_blocks g i)" "b \<in> set (data_blocks g i) \<Longrightarrow> visitblock s b = 0" by blast+
qed

text \<open>After the inodes below \<open>m\<close>.\<close>

definition entries_below :: "diskimg \<Rightarrow> nat \<Rightarrow> nat list" where
  "entries_below g m = concat (map (dir_entries g) [0..<m])"

definition counts :: "diskimg \<Rightarrow> nat \<Rightarrow> fsck_state \<Rightarrow> bool" where
  "counts g m s \<longleftrightarrow> visitblock s = fold bump (concat (map (all_blocks g) [0..<m])) (\<lambda>_. 0) \<and>
     (\<forall>i. inodeinuse s i = (if i < m \<and> ityp g i \<noteq> 0 then 1 else 0)) \<and>
     (\<forall>j. inoderefer s j = int (length (filter (\<lambda>p. inum g p = j) (entries_below g m)))) \<and>
     (\<forall>j. dirreference s j = (if is_dir g j then int (length (filter (\<lambda>p. inum g p = j \<and> named g p) (entries_below g m))) else 0)) \<and>
     (\<forall>a j. childentry s a j \<longleftrightarrow> a < m \<and> is_dir g j \<and> (\<exists>p \<in> set (dir_entries g a). named g p \<and> inum g p = j)) \<and>
     (\<forall>a. parentinum s a = (if a < m then parent_of g a else 0)) \<and>
     (\<forall>i < m. inode_sound g i) \<and> distinct (concat (map (data_blocks g) [0..<m]))"

lemma data_sub_all: "set (data_blocks g i) \<subseteq> set (all_blocks g i)"
  by (auto simp: data_blocks_def all_blocks_def)

lemma inodes_loop:
  assumes "small g"
  shows "each (check_inode g (is_dir g)) [0..<m] fsck_start = Inr s \<Longrightarrow> counts g m s"
proof (induction m arbitrary: s)
  case 0
  then show ?case by (auto simp: counts_def fsck_start_def entries_below_def)
next
  case (Suc m)
  then obtain u where u: "each (check_inode g (is_dir g)) [0..<m] fsck_start = Inr u" "check_inode g (is_dir g) m u = Inr s"
    by (auto simp: each_append kbind_Inr_iff)
  note c = Suc(1) [OF u(1), unfolded counts_def]
  have v: "visitblock u a = int (count_list (concat (map (all_blocks g) [0..<m])) a)" for a using c by (simp add: bumps)
  then have "0 \<le> visitblock u a" for a by simp
  note r = check_inode_Inr [OF u(2) assms this]
  have "parentinum u m = 0" using c by simp
  note par = r(6) [OF this]
  have new: "b \<notin> set (concat (map (data_blocks g) [0..<m]))" if "b \<in> set (data_blocks g m)" for b
  proof
    assume "b \<in> set (concat (map (data_blocks g) [0..<m]))"
    then have "b \<in> set (concat (map (all_blocks g) [0..<m]))" using data_sub_all by fastforce
    then have "visitblock u b \<noteq> 0" unfolding v by (metis count_list_0_iff of_nat_eq_0_iff)
    then show False using r(9) [OF that] by simp
  qed
  show ?case
    unfolding counts_def
  proof (intro conjI allI impI)
    show "visitblock s = fold bump (concat (map (all_blocks g) [0..<Suc m])) (\<lambda>_. 0)" using r(1) c by simp
    show "inodeinuse s i = (if i < Suc m \<and> ityp g i \<noteq> 0 then 1 else 0)" for i using r(2) c by (auto simp: less_Suc_eq)
    show "inoderefer s j = int (length (filter (\<lambda>p. inum g p = j) (entries_below g (Suc m))))" for j using r(3) [of j] c by (simp add: entries_below_def)
    show "dirreference s j = (if is_dir g j then int (length (filter (\<lambda>p. inum g p = j \<and> named g p) (entries_below g (Suc m)))) else 0)" for j
      using r(4) [of j] c by (simp add: entries_below_def)
    show "childentry s a j \<longleftrightarrow> a < Suc m \<and> is_dir g j \<and> (\<exists>p \<in> set (dir_entries g a). named g p \<and> inum g p = j)" for a j
      using r(5) [of a j] c by (auto simp: less_Suc_eq)
    show "parentinum s a = (if a < Suc m then parent_of g a else 0)" for a using par c by (simp add: less_Suc_eq)
    show "inode_sound g i" if "i < Suc m" for i using that r(7) c by (auto simp: less_Suc_eq)
    show "distinct (concat (map (data_blocks g) [0..<Suc m]))" using r(8) new c by auto
  qed
qed

subsection \<open>The tree\<close>

definition reaches_root :: "(nat \<Rightarrow> nat) \<Rightarrow> nat \<Rightarrow> bool" where
  "reaches_root par i \<longleftrightarrow> (\<exists>k > 0. (par ^^ k) i = 1)"

lemma reaches_root_step: "par i = 1 \<or> reaches_root par (par i) \<Longrightarrow> reaches_root par i"
proof (elim disjE)
  assume "par i = 1"
  then show ?thesis unfolding reaches_root_def by (intro exI [of _ 1]) simp
next
  assume "reaches_root par (par i)"
  then obtain k where "k > 0" "(par ^^ k) (par i) = 1" unfolding reaches_root_def by blast
  then show ?thesis unfolding reaches_root_def by (intro exI [of _ "Suc k"]) (simp add: funpow_swap1)
qed

lemma climb_Inr: "climb n par c ld = Inr ld' \<Longrightarrow> reaches_root par c \<and> (\<forall>x. ld' x \<noteq> 0 \<longrightarrow> ld x \<noteq> 0 \<or> reaches_root par x)"
proof (induction n par c ld rule: climb.induct)
  case (1 n par c ld)
  show ?case
  proof (cases "par c = 1")
    case True
    then show ?thesis using 1(2) reaches_root_step [of par c] by (subst (asm) climb.simps) (auto split: if_splits)
  next
    case False
    then have c: "\<not> n \<le> c" "ld c = 0" "climb n par (par c) (ld(c := ld c + 1)) = Inr ld'" using 1(2) by (subst (asm) climb.simps, simp split: if_splits)+
    from 1(1) [OF c(1) False _ c(3)] c(2) reaches_root_step [of par c] show ?thesis by (auto split: if_splits)
  qed
qed

lemma loops_Inr:
  assumes "each (check_loop n dirs par) js ld = Inr ld'" "\<forall>x. ld x \<noteq> 0 \<longrightarrow> reaches_root par x"
  shows "\<forall>i \<in> set js. dirs i \<longrightarrow> reaches_root par i"
  using assms
proof (induction js arbitrary: ld)
  case (Cons i js)
  then obtain ld1 where u: "check_loop n dirs par i ld = Inr ld1" "each (check_loop n dirs par) js ld1 = Inr ld'" by (auto simp: kbind_Inr_iff)
  have "(dirs i \<longrightarrow> reaches_root par i) \<and> (\<forall>x. ld1 x \<noteq> 0 \<longrightarrow> reaches_root par x)"
    using u(1) climb_Inr [of n par i ld ld1] Cons(3) unfolding check_loop_def by (auto split: if_splits)
  then show ?case using Cons(1) [OF u(2)] by simp
qed simp

section \<open>Soundness\<close>

text \<open>The number of entries that refer to the inode \<open>j\<close>, and of those that are not \<open>.\<close> or \<open>..\<close>.\<close>

definition refs :: "diskimg \<Rightarrow> nat \<Rightarrow> int" where
  "refs g j = int (length (filter (\<lambda>p. inum g p = j) (entries_below g (ninodes g))))"

definition dir_refs :: "diskimg \<Rightarrow> nat \<Rightarrow> int" where
  "dir_refs g j = int (length (filter (\<lambda>p. inum g p = j \<and> named g p) (entries_below g (ninodes g))))"

lemma each_test:
  assumes "each f xs s = Inr t" "\<And>x t. x \<in> set xs \<Longrightarrow> f x s = Inr t \<Longrightarrow> t = s \<and> Q x"
  shows "t = s \<and> (\<forall>x \<in> set xs. Q x)"
  using assms
proof (induction xs)
  case (Cons x xs)
  then obtain u where u: "f x s = Inr u" "each f xs u = Inr t" by (auto simp: kbind_Inr_iff)
  have x: "u = s \<and> Q x" using Cons(3) [OF _ u(1)] by simp
  then have "each f xs s = Inr t" using u(2) by simp
  from Cons(1) [OF this] Cons(3) have "t = s \<and> (\<forall>x \<in> set xs. Q x)" by (meson list.set_intros(2))
  then show ?case using x by simp
qed simp

lemma check_refs_Inr: "check_refs g i s = Inr t \<Longrightarrow> t = s \<and> (inodeinuse s i \<noteq> 0 \<longrightarrow> 1 \<le> inoderefer s i) \<and> (i \<noteq> 0 \<and> inodeinuse s i = 0 \<longrightarrow> inoderefer s i = 0) \<and>
    (ityp g i = 2 \<longrightarrow> nlink g i = inoderefer s i) \<and> (ityp g i = 1 \<longrightarrow> dirreference s i = (if i = 1 then 0 else 1))"
  unfolding check_refs_def by (auto split: if_splits)

lemma parent_of_less:
  assumes "i < ninodes g" "inode_sound g i"
  shows "parent_of g i < ninodes g"
proof (cases "ityp g i = 1 \<and> filter (is_dotdot g) (direct_entries g i [0..<12]) \<noteq> []")
  case True
  then have "last (filter (is_dotdot g) (direct_entries g i [0..<12])) \<in> set (dir_entries g i)"
    using last_in_set [of "filter (is_dotdot g) (direct_entries g i [0..<12])"] by (auto simp: dir_entries_def)
  then show ?thesis using True assms(2) by (simp add: inode_sound_def parent_of_def Let_def)
next
  case False
  then show ?thesis using assms(1) by (auto simp: parent_of_def Let_def)
qed

lemma reaches_root_cong:
  assumes "reaches_root par i" "i < n" "\<And>a. a < n \<Longrightarrow> par a = q a \<and> q a < n"
  shows "reaches_root q i"
proof -
  have "(par ^^ k) i = (q ^^ k) i \<and> (q ^^ k) i < n" for k using assms(2,3) by (induction k) simp_all
  then show ?thesis using assms(1) by (simp add: reaches_root_def)
qed

text \<open>A consistent file system, in the sense of the checker's rules.\<close>

definition consistent :: "diskimg \<Rightarrow> bool" where
  "consistent g \<longleftrightarrow>
     (\<forall>i < ninodes g. inode_sound g i) \<and>
     distinct (concat (map (data_blocks g) [0..<ninodes g])) \<and>
     (\<forall>a. bitmap_block g < a \<and> a < unat (sb_nblocks g) \<and> bit_of g a \<longrightarrow> (\<exists>i < ninodes g. int a \<in> set (all_blocks g i))) \<and>
     (\<forall>i < ninodes g. (ityp g i \<noteq> 0 \<longrightarrow> 1 \<le> refs g i) \<and> (ityp g i = 0 \<and> i \<noteq> 0 \<longrightarrow> refs g i = 0) \<and> (ityp g i = 2 \<longrightarrow> nlink g i = refs g i) \<and>
        (ityp g i = 1 \<longrightarrow> dir_refs g i = (if i = 1 then 0 else 1))) \<and>
     (\<forall>i < ninodes g. \<forall>p \<in> set (dir_entries g i). named g p \<and> is_dir g (inum g p) \<longrightarrow> parent_of g (inum g p) = i) \<and>
     (\<forall>i < ninodes g. ityp g i = 1 \<longrightarrow> reaches_root (parent_of g) i)"


text \<open>An image of 8 blocks with two inodes, the second the root directory, whose block 4 holds \<open>.\<close> and \<open>..\<close>.\<close>

definition fsck_eg :: diskimg where
  "fsck_eg = \<lparr>dbyte = (\<lambda>a. case map_of [(512, 8), (516, 2), (520, 2), (1088, 1), (1094, 1), (1100, 4), (1536, 16), (2048, 1), (2050, 46), (2064, 1), (2066, 46), (2067, 46)] a of
     None \<Rightarrow> 0 | Some b \<Rightarrow> b), dlen = 4096\<rparr>"

lemma kbind_weak_cong: "r = r' \<Longrightarrow> kbind r f = kbind r' f"
  by simp

lemma eg_super: "ninodes fsck_eg = 2" "sb_nblocks fsck_eg = 2" "bitblocks fsck_eg = 1" "bitmap_block fsck_eg = 3" "totalblocks fsck_eg = 6"
    "data_start fsck_eg = 2048" "sys_end fsck_eg = 3072"
  by (simp_all add: ninodes_def sb_ninodes_def sb_nblocks_def sb_size_def bitblocks_def bitmap_block_def totalblocks_def data_start_def sys_end_def fsck_eg_def ld32_def)

lemma eg_inodes: "ityp fsck_eg 0 = 0" "ityp fsck_eg 1 = 1" "iaddr fsck_eg 1 0 = 4" "nlink fsck_eg 1 = 1"
    "j \<in> {1..12} \<Longrightarrow> iaddr fsck_eg 1 j = 0"
  by (simp_all add: ityp_def iaddr_def nlink_def dinode_at_def fsck_eg_def ld16_def ld32_def)

lemma eg_entries: "inum fsck_eg 2048 = 1" "inum fsck_eg 2064 = 1" "2 \<le> e \<Longrightarrow> e < 32 \<Longrightarrow> inum fsck_eg (2048 + 16 * e) = 0"
    "is_dot fsck_eg 2048" "\<not> is_dotdot fsck_eg 2048" "is_dotdot fsck_eg 2064" "\<not> is_dot fsck_eg 2064"
  by (simp_all add: inum_def is_dot_def is_dotdot_def fsck_eg_def ld16_def)

lemma each_skip: "\<forall>x \<in> set xs. f x s = Inr s \<Longrightarrow> each f xs s = Inr s"
  by (induction xs) simp_all

lemma upt_start: "[0..<12] = 0 # [1..<12::nat]" "[0..<32] = 0 # 1 # [2..<32::nat]"
  by (simp_all add: upt_rec)

lemma eg_within: "a + n \<le> 4096 \<Longrightarrow> within fsck_eg a n = Inr ()"
  by (simp add: within_def fsck_eg_def)

lemma eg_blocks:
  assumes "visitblock s 4 = 0"
  shows "check_blocks fsck_eg 1 s = Inr (s\<lparr>visitblock := (visitblock s)(4 := 1)\<rparr>)"
proof -
  have b: "bit_of fsck_eg 4" by (simp add: bit_of_def eg_super) (simp add: fsck_eg_def)
  have w: "within fsck_eg (bitmap_block fsck_eg * 512 + nat 4 div 8) 1 = Inr ()" by (simp add: eg_within eg_super)
  have "check_direct fsck_eg 4 s = Inr (s\<lparr>visitblock := (visitblock s)(4 := 1)\<rparr>)"
    using assms b w by (simp add: check_direct_def bad_offset_def eg_super visit_def need_bit_def)
  then show ?thesis using eg_inodes(3,5) by (simp add: check_blocks_def upt_start each_skip)
qed

lemma eg_dir:
  "check_dir fsck_eg dirs 1 s = Inr (s\<lparr>parentinum := (parentinum s)(1 := 1), inoderefer := (inoderefer s)(1 := 2 + inoderefer s 1)\<rparr>)"
proof -
  have c: "count_entry fsck_eg dirs 1 p s = Inr (s\<lparr>inoderefer := (inoderefer s)(1 := inoderefer s 1 + 1)\<rparr>)" if "p = 2048 \<or> p = 2064" for p s
    using that eg_entries by (auto simp: count_entry_def index_def eg_super)
  have e: "direct_entry fsck_eg dirs 1 2048 (fr, fc, s) = Inr (fr, True, s\<lparr>inoderefer := (inoderefer s)(1 := inoderefer s 1 + 1)\<rparr>)"
    "direct_entry fsck_eg dirs 1 2064 (fr, fc, s) = Inr (True, fc, s\<lparr>parentinum := (parentinum s)(1 := 1), inoderefer := (inoderefer s)(1 := inoderefer s 1 + 1)\<rparr>)"
    for fr fc s
    using eg_entries c by (simp_all add: direct_entry_def eg_within del: One_nat_def)
  have r: "each (\<lambda>e. direct_entry fsck_eg dirs 1 (2048 + 16 * e)) [2..<32] u = Inr u" for u
  proof (intro each_skip ballI)
    fix e assume "e \<in> set [2..<32]"
    then have e: "2 \<le> e" "e < 32" unfolding set_upt by (simp_all only: atLeastLessThan_iff)
    note eg_entries(3) [OF e]
    moreover have "within fsck_eg (2048 + 16 * e) 16 = Inr ()" using e by (intro eg_within) simp
    ultimately show "direct_entry fsck_eg dirs 1 (2048 + 16 * e) u = Inr u" by (cases u) (simp add: direct_entry_def)
  qed
  have "direct_dir fsck_eg dirs 1 0 (False, False, s) = Inr (True, True, s\<lparr>parentinum := (parentinum s)(1 := 1), inoderefer := (inoderefer s)(1 := 2 + inoderefer s 1)\<rparr>)"
    unfolding direct_dir_def eg_inodes(3) upt_start each.simps by (simp add: e r del: One_nat_def upt_rec_numeral)
  moreover have "each (direct_dir fsck_eg dirs 1) [1..<12] u = Inr u" for u using eg_inodes(5) by (intro each_skip) (simp add: direct_dir_def)
  ultimately show ?thesis using eg_inodes(5) by (simp add: check_dir_def upt_start)
qed

lemma eg_root: "check_root fsck_eg 1 = Inr ()"
proof -
  have "root_entries fsck_eg 2048 [0..<32] = Inr ()" using eg_entries by (simp add: upt_start eg_within)
  then show ?thesis using eg_inodes by (simp add: check_root_def upt_start each_skip)
qed

lemma fsck_eg_ok: "fsck fsck_eg = Inr ()"
proof -
  have u: "[0..<2] = [0, 1::nat]" by (simp add: upt_rec)
  have "each (check_inode fsck_eg (is_dir fsck_eg)) [0..<2] fsck_start = Inr (fsck_start\<lparr>inodeinuse := (\<lambda>_. 0)(1 := 1),
      visitblock := (\<lambda>_. 0)(4 := 1), parentinum := (\<lambda>_. 0)(1 := 1), inoderefer := (\<lambda>_. 0)(1 := 2)\<rparr>)"
    using eg_inodes(1,2) eg_root unfolding u by (simp add: check_inode_def eg_blocks eg_dir fsck_start_def del: One_nat_def)
  then show ?thesis using eg_inodes(1,2,4) unfolding fsck_def Let_def eg_super
    by (simp add: u check_refs_def check_parent_def check_loop_def climb.simps [of 2] eg_within dinode_at_def is_dir_def fsck_start_def)
qed


text \<open>
  The checker is not complete: the mark \<open>loopdetect\<close> that one walk leaves on a directory makes the next walk through it fail. Directories 2, 3 and 4 nested in each
  other below the root, so \<open>/a/b/c\<close>, are reported as inaccessible.
\<close>

lemma nested_rejected:
  assumes "par 2 = 1" "par 3 = 2" "par 4 = 3"
  shows "each (check_loop 5 (\<lambda>i. i \<in> {2, 3, 4}) par) [2, 3, 4] (\<lambda>_. 0) = Inl (Panic ''ERROR: inaccessible directory exists.'')"
  using assms by (simp add: check_loop_def climb.simps [of 5])

end
