(* ===== verification/Mysh.thy ===== *)
theory Mysh imports Prelude
begin

text \<open>
  mysh.c, the shell of Project2-1. One round of its loop reads a line and turns it into a plan, and the plan into a list of events, the calls
  it makes and what it writes. What the operating system answers is the argument \<open>os\<close>. The line is what \<open>strlen\<close> sees of the buffer that \<open>fgets\<close> has
  filled, so it ends with the newline unless the input ends without one; \<open>None\<close> is the end of the input. Memory management is not modelled.
\<close>

section \<open>Words\<close>

definition blank :: "char \<Rightarrow> bool" where
  "blank c \<longleftrightarrow> c = CHR '' '' \<or> c = CHR 0x09"

text \<open>\<open>strtok_r\<close> with the delimiters blank and tab: the next word and what is left.\<close>

definition strtok :: "string \<Rightarrow> (string \<times> string) option" where
  "strtok s = (let t = dropWhile blank s in
     if t = [] then None else Some (takeWhile (\<lambda>c. \<not> blank c) t, drop 1 (dropWhile (\<lambda>c. \<not> blank c) t)))"

function tokens :: "string \<Rightarrow> string list" where
  "tokens s = (case strtok s of None \<Rightarrow> [] | Some (t, r) \<Rightarrow> t # tokens r)"
  by pat_completeness auto
termination
proof (relation "measure length")
  fix s p t r assume a: "strtok s = Some p" "(t, r) = p"
  define u where "u = dropWhile blank s"
  have u: "u \<noteq> []" "r = drop 1 (dropWhile (\<lambda>c. \<not> blank c) u)" using a by (auto simp: strtok_def u_def Let_def split: if_splits)
  have "\<not> blank (hd u)" using hd_dropWhile [of blank s] u(1) by (simp add: u_def)
  then obtain c v where "u = c # v" "\<not> blank c" using u(1) by (cases u) auto
  then have "length r \<le> length v" using u(2) length_dropWhile_le [of "\<lambda>c. \<not> blank c" v] by simp
  moreover have "length u \<le> length s" unfolding u_def by (rule length_dropWhile_le)
  ultimately show "(r, s) \<in> measure length" using \<open>u = c # v\<close> by simp
qed simp

declare tokens.simps [simp del]

section \<open>The plan of a line\<close>

text \<open>The positions of the special words, \<open>None\<close> for the code's -1, and the numbers of file names counted.\<close>

record specials =
  reout :: "nat option"
  rein :: "nat option"
  pipepos :: "nat option"
  backpos :: "nat option"
  outfilenum :: nat
  infilenum :: nat

fun scan_specials :: "nat \<Rightarrow> string list \<Rightarrow> specials \<Rightarrow> specials" where
  "scan_specials i [] q = q"
| "scan_specials i (w # ws) q =
     (let q = (if w = ''>'' then q\<lparr>reout := Some i, outfilenum := outfilenum q + length (takeWhile (\<lambda>v. v \<noteq> ''&'' \<and> v \<noteq> ''<'') ws)\<rparr> else q);
          q = (if w = ''<'' then q\<lparr>rein := Some i, infilenum := infilenum q + length (takeWhile (\<lambda>v. v \<noteq> ''&'' \<and> v \<noteq> ''>'') ws)\<rparr> else q)
      in if w = ''|'' then q\<lparr>pipepos := Some i\<rparr> else if w = ''&'' then q\<lparr>backpos := Some i\<rparr> else scan_specials (Suc i) ws q)"

definition no_specials :: specials where
  "no_specials = \<lparr>reout = None, rein = None, pipepos = None, backpos = None, outfilenum = 0, infilenum = 0\<rparr>"

text \<open>What a child process is to run, with the files for its standard input and output.\<close>

datatype stream = Inherited | Named string | Pipe_end

record child =
  prog :: "string list"
  fin :: stream
  fout :: stream

text \<open>\<open>checked\<close> tells whether the code looks at the result of \<open>fork\<close>; \<open>Die\<close> is \<open>exit(0)\<close> in the shell after the message.\<close>

datatype plan = Nothing | Complain | Die | Cd "string option" | Pwd | Quit | Pipeline "string list" "string list"
  | Run child (background: bool) (checked: bool)

definition external :: "string list \<Rightarrow> plan" where
  "external cs = (let q = scan_specials 0 cs no_specials; n = length cs; bg = (backpos q \<noteq> None) in
     if reout q = Some 0 \<or> rein q = Some 0 then Nothing
     else case pipepos q of
       Some p \<Rightarrow> if p = 0 \<or> p = n - 1 then Complain else Pipeline (take p cs) (drop (p + 1) cs)
     | None \<Rightarrow> (case (rein q, reout q) of
         (None, None) \<Rightarrow> Run \<lparr>prog = (if bg then butlast cs else cs), fin = Inherited, fout = Inherited\<rparr> bg True
       | (Some r, None) \<Rightarrow> if r = n - 1 \<or> infilenum q \<noteq> 1 then Complain
           else Run \<lparr>prog = take r cs, fin = Named (cs ! (r + 1)), fout = Inherited\<rparr> bg True
       | (None, Some w) \<Rightarrow> if w = n - 1 \<or> outfilenum q \<noteq> 1 then Complain
           else Run \<lparr>prog = take w cs, fin = Inherited, fout = Named (cs ! (w + 1))\<rparr> bg True
       | (Some r, Some w) \<Rightarrow> if w = n - 1 \<or> r = n - 1 \<or> outfilenum q > 1 \<or> infilenum q > 1 then (if bg then Die else Complain)
           else Run \<lparr>prog = take (min w r) cs, fin = Named (cs ! (r + 1)), fout = Named (cs ! (w + 1))\<rparr> bg False))"

definition plan_of :: "string list \<Rightarrow> plan" where
  "plan_of cs = (case cs of [] \<Rightarrow> Nothing
     | c # args \<Rightarrow>
         if c = ''cd'' then Cd (case args of [] \<Rightarrow> None | a # _ \<Rightarrow> Some a)
         else if c = ''pwd'' then (if args \<noteq> [] then Complain else Pwd)
         else if c = ''exit'' then Quit
         else external cs)"

section \<open>A round of the shell\<close>

datatype mevent = Prompt int | Message | Print string | Reap int | Chdir string | Term int | Mkpipe | Fork int child | WaitFor int | WaitAny int

record answers =
  os_alive :: "int \<Rightarrow> bool"
  os_home :: "string option"
  os_chdir :: "string \<Rightarrow> bool"
  os_cwd :: "string option"
  os_pipe :: bool
  os_fork :: "nat \<Rightarrow> int"
  os_wait :: "int \<Rightarrow> bool"
  os_ended :: "(int \<times> bool) list"

record mysh =
  linehist :: int
  ptable :: "int list"
  pnum :: nat

definition mysh_start :: mysh where
  "mysh_start = \<lparr>linehist = 1, ptable = replicate 20 1, pnum = 0\<rparr>"

text \<open>The loop over the table of background processes, from the entry \<open>i\<close> on.\<close>

fun scan_jobs :: "answers \<Rightarrow> nat list \<Rightarrow> mysh \<Rightarrow> mevent list \<times> mysh" where
  "scan_jobs os [] s = ([], s)"
| "scan_jobs os (i # js) s = (let p = ptable s ! i in
     if os_alive os p then scan_jobs os js (s\<lparr>ptable := (ptable s)[pnum s := p], pnum := pnum s + 1\<rparr>)
     else let (es, t) = scan_jobs os js s in (if p \<noteq> 1 then Reap p # es else es, t))"

definition add_job :: "int \<Rightarrow> mysh \<Rightarrow> mysh" where
  "add_job p s = (if pnum s < 20 then s\<lparr>ptable := (ptable s)[pnum s := p], pnum := pnum s + 1\<rparr> else s)"

text \<open>The loop over \<open>waitpid(-1)\<close> after a pipeline: \<open>os_ended\<close> are the children that end, and whether by \<open>exit\<close>; afterwards there is none left.\<close>

fun wait_second :: "int \<Rightarrow> (int \<times> bool) list \<Rightarrow> mevent list" where
  "wait_second c [] = [Message]"
| "wait_second c ((p, e) # ps) = WaitAny p # (if p = c \<and> e then [] else wait_second c ps)"

definition perform_plan :: "answers \<Rightarrow> plan \<Rightarrow> mysh \<Rightarrow> mevent list \<times> mysh option" where
  "perform_plan os pl s = (case pl of
     Nothing \<Rightarrow> ([], Some (s\<lparr>linehist := linehist s - 1\<rparr>))
   | Complain \<Rightarrow> ([Message], Some s)
   | Die \<Rightarrow> ([Message], None)
   | Cd d \<Rightarrow> (case (case d of None \<Rightarrow> os_home os | Some x \<Rightarrow> Some x) of
       None \<Rightarrow> ([Message], Some s)
     | Some x \<Rightarrow> (if os_chdir os x then [Chdir x] else [Message], Some s))
   | Pwd \<Rightarrow> (case os_cwd os of None \<Rightarrow> [Message] | Some d \<Rightarrow> [Print d], Some s)
   | Quit \<Rightarrow> (map Term (filter (os_alive os) (ptable s)), None)
   | Pipeline as bs \<Rightarrow>
       if \<not> os_pipe os then ([Message], Some s)
       else if os_fork os 0 = -1 then ([Mkpipe, Message], Some s)
       else let f = Fork (os_fork os 0) \<lparr>prog = as, fin = Inherited, fout = Pipe_end\<rparr> in
         if os_fork os 1 = -1 then ([Mkpipe, f, Message], Some s)
         else ([Mkpipe, f, Fork (os_fork os 1) \<lparr>prog = bs, fin = Pipe_end, fout = Inherited\<rparr>] @ wait_second (os_fork os 1) (os_ended os), Some s)
   | Run c bg chk \<Rightarrow> let p = os_fork os 0 in
       if chk \<and> p = -1 then ([Message], Some s)
       else let es = (if p = -1 then [] else [Fork p c]) in
         if bg then (es, Some (add_job p s))
         else (es @ (if os_wait os p then [WaitFor p] else [Message]), Some s))"

definition mysh_round :: "answers \<Rightarrow> string option \<Rightarrow> mysh \<Rightarrow> (mevent list \<times> mysh option) res" where
  "mysh_round os inp s =
     (let (es, s) = scan_jobs os [0..<20] (s\<lparr>pnum := 0\<rparr>);
          es = es @ [Prompt (linehist s)]; s = s\<lparr>linehist := linehist s + 1\<rparr>
      in case inp of
        None \<Rightarrow> Inr (es @ [Message], None)
      | Some l \<Rightarrow>
          if length l > 128 then Inr (es @ [Message], Some s)
          else if l = [] then Inl (Fault ''write before the buffer'')
          else let (es', t) = perform_plan os (plan_of (tokens (butlast l))) s in Inr (es @ es', t))"

text \<open>
  What a child does with its files and its program: the output is opened first, and both before either is looked at.
\<close>

definition child_start :: "(string \<Rightarrow> bool) \<Rightarrow> (string \<Rightarrow> bool) \<Rightarrow> (string list \<Rightarrow> bool) \<Rightarrow> child \<Rightarrow> child option" where
  "child_start creates reads execs c =
     (if (case fout c of Named f \<Rightarrow> creates f | _ \<Rightarrow> True) \<and> (case fin c of Named f \<Rightarrow> reads f | _ \<Rightarrow> True) \<and> execs (prog c) then Some c else None)"

section \<open>Words are what stands between blanks\<close>

text \<open>A line with the words \<open>ws\<close> and the blanks \<open>gs\<close> before them.\<close>

definition spaced :: "string list \<Rightarrow> string list \<Rightarrow> string" where
  "spaced gs ws = concat (map2 (@) gs ws)"

definition unspaced :: "string \<Rightarrow> bool" where
  "unspaced w \<longleftrightarrow> w \<noteq> [] \<and> (\<forall>c \<in> set w. \<not> blank c)"

definition gaps :: "string list \<Rightarrow> bool" where
  "gaps gs \<longleftrightarrow> (\<forall>g \<in> set gs. \<forall>c \<in> set g. blank c) \<and> (\<forall>g \<in> set (tl gs). g \<noteq> [])"

lemma strtok_blanks: "\<forall>c \<in> set t. blank c \<Longrightarrow> strtok t = None"
  by (simp add: strtok_def)

lemma strtok_word:
  assumes "\<forall>c \<in> set g. blank c" "unspaced w" "r = [] \<or> blank (hd r)"
  shows "strtok (g @ w @ r) = Some (w, drop 1 r)"
proof -
  have "dropWhile blank (g @ w @ r) = w @ r" using assms(1,2) by (cases w) (auto simp: unspaced_def dropWhile_append2)
  moreover have "takeWhile (\<lambda>c. \<not> blank c) (w @ r) = w" "dropWhile (\<lambda>c. \<not> blank c) (w @ r) = r"
    using assms(2,3) by (cases r; auto simp: unspaced_def takeWhile_append2 dropWhile_append2)+
  ultimately show ?thesis using assms(2) by (simp add: strtok_def unspaced_def)
qed

lemma tokens_spaced:
  "length gs = length ws \<Longrightarrow> gaps gs \<Longrightarrow> \<forall>w \<in> set ws. unspaced w \<Longrightarrow> \<forall>c \<in> set t. blank c \<Longrightarrow> tokens (spaced gs ws @ t) = ws"
proof (induction ws arbitrary: gs)
  case Nil
  then show ?case by (simp add: spaced_def tokens.simps strtok_blanks)
next
  case (Cons w ws)
  obtain g gs1 where gs: "gs = g # gs1" "length gs1 = length ws" using Cons(2) by (cases gs) auto
  have gw: "\<forall>c \<in> set g. blank c" "unspaced w" using Cons(3,4) gs by (auto simp: gaps_def)
  define r where "r = spaced gs1 ws @ t"
  have e: "spaced gs (w # ws) @ t = g @ w @ r" by (simp add: spaced_def r_def gs)
  have r: "(r = [] \<or> blank (hd r)) \<and> tokens (drop 1 r) = ws"
  proof (cases gs1)
    case Nil
    then have "ws = []" "r = t" using gs by (auto simp: r_def spaced_def)
    moreover have "\<forall>c \<in> set (drop 1 t). blank c" using Cons(5) by (auto dest: in_set_dropD)
    ultimately show ?thesis using Cons(5) by (cases t) (simp_all add: tokens.simps strtok_blanks)
  next
    case (Cons g' gs')
    then have ne: "g' \<noteq> []" "gaps (drop 1 g' # gs')" "\<forall>c \<in> set g'. blank c" using Cons.prems(2) gs by (auto simp: gaps_def dest: in_set_dropD)
    have "r = g' @ drop 1 r \<or> True" by simp
    have "drop 1 r = spaced (drop 1 g' # gs') ws @ t" "r \<noteq> []" "hd r = hd g'"
      using ne(1) gs(2) Cons by (cases ws; cases g'; simp add: r_def spaced_def)+
    moreover have "tokens (spaced (drop 1 g' # gs') ws @ t) = ws" using gs(2) Cons ne(2) Cons.prems(3,4) by (intro Cons.IH) simp_all
    ultimately show ?thesis using ne(1,3) by (cases g') simp_all
  qed
  from strtok_word [OF gw] r have "tokens (g @ w @ r) = w # tokens (drop 1 r)" by (subst tokens.simps) simp
  then show ?case using e r by simp
qed

text \<open>A line of at most 128 characters has at most 64 words, so the arrays of 100 and 128 words are never overrun.\<close>

lemma tokens_short: "2 * length (tokens s) \<le> length s + 1"
proof (induction s rule: tokens.induct)
  case (1 s)
  show ?case
  proof (cases "strtok s")
    case None
    then show ?thesis by (simp add: tokens.simps [of s])
  next
    case (Some p)
    obtain t r where p: "p = (t, r)" by (cases p)
    define u where "u = dropWhile blank s"
    have u: "u \<noteq> []" "t = takeWhile (\<lambda>c. \<not> blank c) u" "r = drop 1 (dropWhile (\<lambda>c. \<not> blank c) u)"
      using Some p by (auto simp: strtok_def u_def Let_def split: if_splits)
    have "\<not> blank (hd u)" using hd_dropWhile [of blank s] u(1) by (simp add: u_def)
    then have "length t \<ge> 1" using u(1,2) by (cases u) auto
    moreover have "length t + length (dropWhile (\<lambda>c. \<not> blank c) u) = length u" unfolding u(2) by (metis length_append takeWhile_dropWhile_id)
    moreover have "length u \<le> length s" unfolding u_def by (rule length_dropWhile_le)
    moreover have "2 * length (tokens r) \<le> length r + 1" using 1 Some p by simp
    moreover have "r = [] \<Longrightarrow> tokens r = []" by (simp add: tokens.simps strtok_def)
    ultimately have "2 * (length (tokens r) + 1) \<le> length s + 1" using u(3) by (cases "dropWhile (\<lambda>c. \<not> blank c) u") auto
    then show ?thesis using Some p by (simp add: tokens.simps [of s])
  qed
qed

section \<open>Commands\<close>

definition plain :: "string \<Rightarrow> bool" where
  "plain w \<longleftrightarrow> unspaced w \<and> w \<notin> {''>'', ''<'', ''|'', ''&''}"

text \<open>A command with its files, in either order, and the mark of a background command.\<close>

definition show_command :: "string list \<Rightarrow> string option \<Rightarrow> string option \<Rightarrow> bool \<Rightarrow> bool \<Rightarrow> string list" where
  "show_command args i w infirst bg = (let iw = (case i of None \<Rightarrow> [] | Some f \<Rightarrow> [''<'', f]); ow = (case w of None \<Rightarrow> [] | Some f \<Rightarrow> [''>'', f]) in
     args @ (if infirst then iw @ ow else ow @ iw) @ (if bg then [''&''] else []))"

definition stream_of :: "string option \<Rightarrow> stream" where
  "stream_of f = (case f of None \<Rightarrow> Inherited | Some x \<Rightarrow> Named x)"

lemma scan_plain: "\<forall>w \<in> set ws. plain w \<Longrightarrow> scan_specials i (ws @ rest) q = scan_specials (i + length ws) rest q"
  by (induction ws arbitrary: i) (simp_all add: plain_def)

lemma external_command:
  assumes "\<forall>w \<in> set args. plain w" "args \<noteq> []" "\<forall>f. i = Some f \<longrightarrow> plain f" "\<forall>f. w = Some f \<longrightarrow> plain f"
  shows "external (show_command args i w infirst bg) = Run \<lparr>prog = args, fin = stream_of i, fout = stream_of w\<rparr> bg (i = None \<or> w = None)"
proof -
  have p: "plain v \<Longrightarrow> v \<noteq> ''>'' \<and> v \<noteq> ''<'' \<and> v \<noteq> ''|'' \<and> v \<noteq> ''&''" for v by (simp add: plain_def)
  have n: "0 < length args" using assms(2) by simp
  have e: "scan_specials i args q = q" for i q using scan_plain [OF assms(1), of i "[]" q] by simp
  note s = e scan_plain [OF assms(1)] external_def show_command_def stream_of_def no_specials_def Let_def
  show ?thesis
  proof (cases i)
    case None
    then show ?thesis using p assms(4) n by (cases w; cases bg) (auto simp: s nth_append)
  next
    case (Some f)
    then show ?thesis using p assms(3,4) n by (cases w; cases bg; cases infirst) (auto simp: s nth_append)
  qed
qed

definition after_round :: "answers \<Rightarrow> mysh \<Rightarrow> mysh" where
  "after_round os s = (let t = snd (scan_jobs os [0..<20] (s\<lparr>pnum := 0\<rparr>)) in t\<lparr>linehist := linehist t + 1\<rparr>)"

definition round_start :: "answers \<Rightarrow> mysh \<Rightarrow> mevent list" where
  "round_start os s = (let (es, t) = scan_jobs os [0..<20] (s\<lparr>pnum := 0\<rparr>) in es @ [Prompt (linehist t)])"


definition calm_answers :: answers where
  "calm_answers = \<lparr>os_alive = (\<lambda>p. False), os_home = None, os_chdir = (\<lambda>d. True), os_cwd = None, os_pipe = True, os_fork = (\<lambda>n. 100 + int n),
     os_wait = (\<lambda>p. True), os_ended = []\<rparr>"

lemma calm_jobs: "scan_jobs calm_answers js s = (map (\<lambda>i. Reap (ptable s ! i)) (filter (\<lambda>i. ptable s ! i \<noteq> 1) js), s)"
  by (induction js arbitrary: s) (simp_all add: calm_answers_def)


section \<open>What goes wrong\<close>

text \<open>
  A process that has ended but has not been waited for still counts as running, as \<open>kill(pid, 0)\<close> succeeds for it; so the table only grows while no pipeline
  collects the children, and when it is full no further job is recorded.
\<close>

lemma jobs_pile_up:
  assumes "\<forall>p \<in> set (ptable s). os_alive os p" "length (ptable s) = 20"
  shows "scan_jobs os [0..<20] (s\<lparr>pnum := 0\<rparr>) = ([], s\<lparr>pnum := 20\<rparr>)" "add_job p (s\<lparr>pnum := 20\<rparr>) = s\<lparr>pnum := 20\<rparr>"
proof -
  have "scan_jobs os [k..<20] (s\<lparr>pnum := k\<rparr>) = ([], s\<lparr>pnum := 20\<rparr>)" if "k \<le> 20" for k
    using that
  proof (induction "20 - k" arbitrary: k)
    case (Suc n)
    then have k: "k < 20" "n = 20 - Suc k" "Suc k \<le> 20" by simp_all
    have "os_alive os (ptable s ! k)" using assms k(1) by simp
    then show ?case using Suc(1) [OF k(2,3)] k(1) by (simp add: upt_conv_Cons)
  qed simp
  from this [of 0] show "scan_jobs os [0..<20] (s\<lparr>pnum := 0\<rparr>) = ([], s\<lparr>pnum := 20\<rparr>)" by (simp del: upt_rec_numeral)
  show "add_job p (s\<lparr>pnum := 20\<rparr>) = s\<lparr>pnum := 20\<rparr>" by (simp add: add_job_def)
qed

text \<open>With both redirections the result of \<open>fork\<close> is not looked at: -1 goes into the table, and \<open>exit\<close> then signals every process of the user.\<close>

lemma failed_fork_recorded:
  assumes "os_fork os 0 = -1" "pnum s < length (ptable s)" "pnum s < 20" "os_alive os (-1)"
  shows "\<exists>t. perform_plan os (Run c True False) s = ([], Some t) \<and> Term (-1) \<in> set (fst (perform_plan os Quit t))"
  using assms by (auto simp: perform_plan_def Let_def add_job_def set_update_memI)

text \<open>A bad redirection in the background ends the shell.\<close>

lemma bad_background_dies: "plan_of [''a'', ''>'', ''x'', ''y'', ''<'', ''b'', ''&''] = Die"
  by (simp add: plan_of_def external_def no_specials_def Let_def)

text \<open>The word taken off a background command is the last one of the line, not the \<open>&\<close>.\<close>

lemma background_drops_last: "plan_of [''a'', ''&'', ''b''] = Run \<lparr>prog = [''a'', ''&''], fin = Inherited, fout = Inherited\<rparr> True True"
  by (simp add: plan_of_def external_def no_specials_def Let_def)

end
