(* ===== verification/Stackrel.thy ===== *)
theory Stackrel imports Syscall Exec Copyuvm begin
text \<open>
  Shared memory/Stack relocation of xv6: the kernel whose processes have their stack at the top of user memory. Code and
  heap start at \<open>2 * PGSIZE\<close> and grow up to \<open>sz\<close>, the stack grows down from \<open>USERTOP\<close> to \<open>stack_head\<close>, and a page
  fault just below it adds a page. The files not modelled here (kernel/kalloc.c, kernel/fs.c, most of kernel/vm.c) are those of the
  other theories, line for line. An operation works on \<open>p\<close>, the entry of the running process, and on the memory.
\<close>

record rproc = proc +
  stack_head :: u32

section \<open>Growing the heap and the stack (kernel/proc.c, kernel/trap.c)\<close>

definition growproc_r :: "int \<Rightarrow> rproc \<Rightarrow> kmem \<Rightarrow> (int \<times> rproc \<times> kmem) res" where
  "growproc_r n p m =
     (if sint (stack_head p - psz p - of_int n) < 5 * 4096 then Inr (-1, p, m)
      else let sz = psz p in
        kbind (if n > 0 then allocuvm (pgdir p) sz (sz + of_int n) m
               else if n < 0 then deallocuvm (pgdir p) sz (sz + of_int n) m
               else Inr (sz, m)) (\<lambda>(sz, m).
          if n \<noteq> 0 \<and> sz = 0 then Inr (-1, p, m) else Inr (0, p\<lparr>psz := sz\<rparr>, m)))"

text \<open>\<open>cr2\<close> is the address that faulted.\<close>

definition growstack :: "u32 \<Rightarrow> rproc \<Rightarrow> kmem \<Rightarrow> (int \<times> rproc \<times> kmem) res" where
  "growstack cr2 p m =
     (if cr2 < 0x2000 \<or> cr2 \<ge> USERTOP \<or> cr2 < stack_head p - PGSIZE \<or> cr2 < psz p + 5 * PGSIZE \<and> cr2 > psz p
      then Inr (-1, p, m)
      else if stack_head p - psz p > 5 * PGSIZE then
        kbind (allocuvm (pgdir p) (stack_head p - PGSIZE) (stack_head p) m) (\<lambda>(r, m).
          if r \<noteq> 0 then Inr (0, p\<lparr>stack_head := stack_head p - PGSIZE\<rparr>, m) else Inr (-1, p, m))
      else Inr (-1, p, m))"

text \<open>The case \<open>T_PGFLT\<close> of \<open>trap\<close>: true when it returns at once, and false when it leaves the switch.\<close>

definition pgfault :: "u32 \<Rightarrow> rproc \<Rightarrow> kmem \<Rightarrow> (bool \<times> rproc \<times> kmem) res" where
  "pgfault cr2 p m = kbind (growstack cr2 p m) (\<lambda>(r, p, m).
     Inr (if r \<noteq> 0 then (False, p\<lparr>killed := True\<rparr>, m) else (True, p, m)))"

section \<open>Copying an address space (kernel/vm.c)\<close>

text \<open>The two loops of \<open>copyuvm\<close> have the same body.\<close>

definition copyuvm_r :: "u32 \<Rightarrow> u32 \<Rightarrow> u32 \<Rightarrow> kmem \<Rightarrow> (u32 \<times> kmem) res" where
  "copyuvm_r d sz stackaddr m = kbind (setupkvm m) (\<lambda>(c, m). if c = 0 then Inr (0, m)
     else copyuvm_loop d c (page_addrs (2 * PGSIZE) sz @ page_addrs stackaddr USERTOP) m)"

section \<open>Arguments of system calls (kernel/syscall.c)\<close>

text \<open>\<open>addr\<close> and \<open>len\<close> (\<open>size\<close> in the code) are of type \<open>int\<close>; the comparisons with fields of the process are of type \<open>uint\<close>.\<close>

definition checkbounds :: "rproc \<Rightarrow> int \<Rightarrow> int \<Rightarrow> int" where
  "checkbounds p addr len =
     (if addr > 0xA0000 \<or> addr + len > 0xA0000 \<or> addr < 2 * 4096 \<or> addr + len < 2 * 4096 \<or>
         (of_int addr \<ge> psz p \<and> of_int addr < stack_head p) \<or>
         (of_int (addr + len) > psz p \<and> of_int (addr + len) < stack_head p) then -1 else 0)"

definition fetchint_r :: "rproc \<Rightarrow> u32 \<Rightarrow> kmem \<Rightarrow> u32 option res" where
  "fetchint_r p addr m = (if checkbounds p (sint addr) 4 = -1 then Inr None
     else kbind (uload32 (pgdir p) m addr) (\<lambda>v. Inr (Some v)))"

definition fetchstr_r :: "rproc \<Rightarrow> u32 \<Rightarrow> kmem \<Rightarrow> u8 list option res" where
  "fetchstr_r p addr m = (if checkbounds p (sint addr) 1 = -1 then Inr None
     else if addr \<le> psz p then fetchstr_from (pgdir p) addr (psz p) m
     else fetchstr_from (pgdir p) addr USERTOP m)"

definition argint_r :: "u32 \<Rightarrow> rproc \<Rightarrow> kmem \<Rightarrow> u32 option res" where
  "argint_r n p m = fetchint_r p (tf_esp (tf p) + 4 + 4 * n) m"

definition argptr_r :: "u32 \<Rightarrow> int \<Rightarrow> rproc \<Rightarrow> kmem \<Rightarrow> u32 option res" where
  "argptr_r n len p m = kbind (argint_r n p m) (\<lambda>r. case r of
     None \<Rightarrow> Inr None
   | Some i \<Rightarrow>
       if (i \<ge> psz p \<and> i < stack_head p) \<or> (i + of_int len > psz p \<and> i + of_int len < stack_head p) then Inr None
       else if (i \<ge> psz p \<and> i > USERTOP) \<or> (i + of_int len > psz p \<and> i + of_int len > USERTOP) then Inr None
       else if i < 2 * PGSIZE then Inr None
       else Inr (Some i))"

definition argstr_r :: "u32 \<Rightarrow> rproc \<Rightarrow> kmem \<Rightarrow> u8 list option res" where
  "argstr_r n p m = kbind (argint_r n p m) (\<lambda>r. case r of
     None \<Rightarrow> Inr None | Some addr \<Rightarrow> fetchstr_r p addr m)"

section \<open>Loading a program (kernel/exec.c)\<close>

text \<open>The stack page; the memory for it is not tested for with \<open>bad\<close>, but with a panic.\<close>

definition exec_stack_page :: "u32 \<Rightarrow> kmem \<Rightarrow> (u32 \<times> kmem) res" where
  "exec_stack_page d m = kbind (allocuvm d (USERTOP - PGSIZE) USERTOP m) (\<lambda>(r, m).
     if r = 0 then Inl (Panic ''allocate new stack failed'') else Inr (r, m))"

text \<open>
  \<open>h\<close> is the \<open>stack_head\<close> of the process, and is returned with its new value. Everything up to the label \<open>bad\<close> is as
  in \<open>exec\<close> of theory Exec, but the program begins at \<open>2 * PGSIZE\<close>, its size is not rounded up and the stack page is
  the last one below \<open>USERTOP\<close>.
\<close>

definition exec_r :: "devsw \<Rightarrow> u8 list \<Rightarrow> u8 list list \<Rightarrow> nat \<Rightarrow> u32 \<Rightarrow> kern \<Rightarrow> (int \<times> u32 \<times> kern) res" where
  "exec_r D path argv me h s =
     (let ret = (\<lambda>x. kbind x (\<lambda>(r, s). Inr (r, h, s))) in
      case cwd (ptab s me) of None \<Rightarrow> Inl (Fault ''null pointer'')
      | Some c \<Rightarrow>
      kbind (namei c path (fsx s)) (\<lambda>(ip, x).
      let s = s\<lparr>fsx := x\<rparr> in
      case ip of None \<Rightarrow> Inr (-1, h, s)
      | Some ip \<Rightarrow>
      kbind (ilock ip x) (\<lambda>x.
      kbind (readi D ip 0 52 x) (\<lambda>(r, bs, x).
      let s = s\<lparr>fsx := x\<rparr>; w = (\<lambda>i. ld32 (\<lambda>j. bs ! j) (i :: nat)) in
      if (of_int r :: u32) < 52 then ret (exec_bad 0 (Some ip) s)
      else if r < 0 then Inl (Fault ''elf header not read'')
      else if w 0 \<noteq> ELF_MAGIC then ret (exec_bad 0 (Some ip) s)
      else
      kbind (setupkvm (kmx s)) (\<lambda>(d, m).
      if d = 0 then ret (exec_bad 0 (Some ip) (s\<lparr>kmx := m\<rparr>))
      else let phnum = unat (ld16 (\<lambda>j. bs ! j) (44 :: nat)) in
      kbind (load_segments D d ip (map (\<lambda>i. w 28 + 32 * of_nat i) [0..<phnum]) (2 * PGSIZE) x m) (\<lambda>(sz, x, m).
      let s = s\<lparr>fsx := x, kmx := m\<rparr> in
      case sz of None \<Rightarrow> ret (exec_bad d (Some ip) s)
      | Some sz \<Rightarrow>
      kbind (iunlockput ip x) (\<lambda>x.
      let s = s\<lparr>fsx := x\<rparr> in
      kbind (exec_stack_page d m) (\<lambda>(stackaddr, m).
      kbind (push_stack d argv stackaddr m) (\<lambda>(sp, m).
      let s = s\<lparr>kmx := m\<rparr> in
      case sp of None \<Rightarrow> ret (exec_bad d None s)
      | Some sp \<Rightarrow>
      let old = pgdir (ptab s me);
          s = upd_proc me (\<lambda>k. k\<lparr>pname := safestrcpy (pname k) (cstring (last_elem path path)) 16,
                pgdir := d, psz := sz, tf := (tf k)\<lparr>tf_eip := w 24, tf_esp := sp\<rparr>\<rparr>) s
      in kbind (freevm old (kmx s)) (\<lambda>m. Inr (0, USERTOP - PGSIZE, s\<lparr>kmx := m\<rparr>)))))))))))"

section \<open>The layout of an address space\<close>

text \<open>
  The heap pages from number 2 on and the stack pages are mapped, the pages between are not, and these are more than
  four pages.
\<close>

definition layout :: "rproc \<Rightarrow> kmem \<Rightarrow> u32 \<Rightarrow> (nat \<Rightarrow> u32 option) \<Rightarrow> u32 list \<Rightarrow> bool" where
  "layout p m pt fr ps \<longleftrightarrow> uspace m (pgdir p) pt fr ps \<and>
     unat (stack_head p) mod 4096 = 0 \<and> unat (stack_head p) \<le> 4096 * UPAGES \<and>
     unat (psz p) + 4 * 4096 < unat (stack_head p) \<and>
     (\<forall>k < UPAGES. 2 \<le> k \<and> 4096 * k < unat (psz p) \<or> unat (stack_head p) \<le> 4096 * k \<longrightarrow> fr k \<noteq> None) \<and>
     (\<forall>k. unat (psz p) \<le> 4096 * k \<and> 4096 * k < unat (stack_head p) \<longrightarrow> fr k = None)"

lemma layoutD:
  assumes "layout p m pt fr ps"
  shows "uspace m (pgdir p) pt fr ps" "unat (stack_head p) mod 4096 = 0" "unat (stack_head p) \<le> 4096 * UPAGES"
    "unat (psz p) + 4 * 4096 < unat (stack_head p)"
    "\<And>k. k < UPAGES \<Longrightarrow> 2 \<le> k \<Longrightarrow> 4096 * k < unat (psz p) \<Longrightarrow> fr k \<noteq> None"
    "\<And>k. k < UPAGES \<Longrightarrow> unat (stack_head p) \<le> 4096 * k \<Longrightarrow> fr k \<noteq> None"
    "\<And>k. unat (psz p) \<le> 4096 * k \<Longrightarrow> 4096 * k < unat (stack_head p) \<Longrightarrow> fr k = None"
  using assms unfolding layout_def by blast+

lemma in_new_pages: "k \<in> set (new_pages lo hi) \<longleftrightarrow> unat lo \<le> 4096 * k \<and> 4096 * k < unat hi"
  unfolding new_pages_def by auto

lemma upds_other: "k \<notin> set ks \<Longrightarrow> (fr(ks [\<mapsto>] ps)) k = fr k"
  by (rule map_upds_apply_nontin)

text \<open>The test of \<open>growproc\<close>, over the integers.\<close>

lemma gap_test:
  fixes h z :: u32 and n :: int
  assumes "unat z \<le> unat h" "unat h \<le> 655360" "-(2 ^ 31) \<le> n" "n < 2 ^ 31"
  defines "D \<equiv> int (unat h) - int (unat z)"
  shows "(sint (h - z - of_int n) < 5 * 4096) = (D - n < 5 * 4096 \<or> 2 ^ 31 \<le> D - n)"
proof -
  have "h - z - of_int n = of_int (D - n)" by (simp add: D_def)
  then have s: "sint (h - z - of_int n) = (D - n + 2 ^ 31) mod 2 ^ 32 - 2 ^ 31"
    by (simp only: signed_of_int) (simp add: signed_take_bit_eq_take_bit_shift take_bit_eq_mod)
  have D: "0 \<le> D" "D \<le> 655360" using assms(1,2) unfolding D_def by linarith+
  show ?thesis
  proof (cases "2 ^ 31 \<le> D - n")
    case True
    have "(D - n + 2 ^ 31) mod 2 ^ 32 = (D - n - 2 ^ 31 + 1 * 2 ^ 32) mod 2 ^ 32" by (rule arg_cong) simp
    also have "\<dots> = (D - n - 2 ^ 31) mod 2 ^ 32" by (rule mod_mult_self1)
    also have "\<dots> = D - n - 2 ^ 31" using True D assms(3) by (intro mod_pos_pos_trivial) simp_all
    finally show ?thesis using True D assms(3) s by simp
  next
    case False
    then have "(D - n + 2 ^ 31) mod 2 ^ 32 = D - n + 2 ^ 31" using D assms(4) by (intro mod_pos_pos_trivial) simp_all
    then show ?thesis using False s by simp
  qed
qed


lemma gap_grow:
  fixes h z :: u32
  assumes "unat z \<le> unat h" "unat h \<le> 655360" "k < 2147483648"
  shows "\<not> sint (h - z - of_int (int k)) < 5 * 4096 \<longleftrightarrow> unat z + k + 5 * 4096 \<le> unat h"
proof -
  have "- (2 ^ 31) \<le> int k" "int k < 2 ^ 31" using assms(3) by simp_all
  note g = gap_test [OF assms(1,2) this]
  have e: "(2 :: int) ^ 31 = 2147483648" by simp
  show ?thesis unfolding g e using assms(2) by linarith
qed

lemma gap_shrink:
  fixes h z :: u32
  assumes "unat z \<le> unat h" "unat h \<le> 655360" "k \<le> 2147483648"
  shows "\<not> sint (h - z - of_int (- int k)) < 5 * 4096 \<longleftrightarrow>
    unat z + 5 * 4096 \<le> unat h + k \<and> unat h + k < unat z + 2147483648"
proof -
  have "- (2 ^ 31) \<le> - int k" "- int k < 2 ^ 31" using assms(3) by simp_all
  note g = gap_test [OF assms(1,2) this]
  have e: "(2 :: int) ^ 31 = 2147483648" by simp
  show ?thesis unfolding g e by linarith
qed

section \<open>The operations keep the layout\<close>

lemma unat_add_small: "unat (z :: u32) + k < 4294967296 \<Longrightarrow> unat (z + of_nat k) = unat z + k"
  by (subst unat_add_lt) (simp_all add: unat_u32)

lemma grow_heap:
  assumes "layout p m pt fr ps" "0 < k" "unat (psz p) + k + 5 * 4096 \<le> unat (stack_head p)"
  defines "z \<equiv> psz p + of_nat k"
  defines "ks \<equiv> new_pages (psz p) z"
  shows "if length ks \<le> length ps
    then \<exists>m'. growproc_r (int k) p m = Inr (0, p\<lparr>psz := z\<rparr>, m') \<and>
      layout (p\<lparr>psz := z\<rparr>) m' pt (fr(ks [\<mapsto>] ps)) (drop (length ks) ps)
    else \<exists>m' ps'. growproc_r (int k) p m = Inr (-1, p, m') \<and> layout p m' pt fr ps' \<and> set ps' = set ps"
proof -
  note l = layoutD [OF assms(1)]
  have n: "unat z = unat (psz p) + k" unfolding z_def by (rule unat_add_small) (use assms(2,3) l(3) in linarith)
  have le: "psz p \<le> z" "z \<le> USERTOP" "z \<noteq> 0"
    using n assms(2,3) l(3) by (auto simp: word_le_nat_alt)
  have g: "\<not> sint (stack_head p - psz p - of_int (int k)) < 5 * 4096"
    by (subst gap_grow) (use l(3) assms(3) in linarith)+
  have new: "\<forall>k \<in> set ks. fr k = None"
    using l(7) n assms(3) by (auto simp: ks_def in_new_pages)
  show ?thesis
  proof (cases "length ks \<le> length ps")
    case True
    obtain m' where m: "allocuvm (pgdir p) (psz p) z m = Inr (z, m')"
      "uspace m' (pgdir p) pt (fr(ks [\<mapsto>] ps)) (drop (length ks) ps)"
      using allocuvm_ok [OF l(1) le(1,2) new [unfolded ks_def] True [unfolded ks_def]] unfolding ks_def by blast
    have r: "growproc_r (int k) p m = Inr (0, p\<lparr>psz := z\<rparr>, m')"
      using g m(1) assms(2) le(3) by (simp add: growproc_r_def Let_def z_def)
    have hp: "(fr(ks [\<mapsto>] ps)) k \<noteq> None" if "k < UPAGES" "2 \<le> k" "4096 * k < unat z" for k
    proof (cases "4096 * k < unat (psz p)")
      case True
      then have "k \<notin> set ks" by (simp add: ks_def in_new_pages)
      then show ?thesis using l(5) that True upds_other by simp
    next
      case f: False
      then have "k \<in> set ks" using that by (simp add: ks_def in_new_pages)
      then show ?thesis using True by (rule upds_in)
    qed
    have st: "(fr(ks [\<mapsto>] ps)) k \<noteq> None" if "k < UPAGES" "unat (stack_head p) \<le> 4096 * k" for k
    proof -
      have "k \<notin> set ks" using that n assms(3) by (simp add: ks_def in_new_pages)
      then show ?thesis using l(6) that upds_other by simp
    qed
    have ga: "(fr(ks [\<mapsto>] ps)) k = None" if "unat z \<le> 4096 * k" "4096 * k < unat (stack_head p)" for k
    proof -
      have "k \<notin> set ks" using that by (simp add: ks_def in_new_pages)
      moreover have "fr k = None" using that n assms(2) by (intro l(7)) simp_all
      ultimately show ?thesis using upds_other by simp
    qed
    have "layout (p\<lparr>psz := z\<rparr>) m' pt (fr(ks [\<mapsto>] ps)) (drop (length ks) ps)"
      unfolding layout_def using m(2) l(2,3) hp st ga n assms(3) by simp
    then show ?thesis using r True by simp
  next
    case False
    then have "length ps < length (new_pages (psz p) z)" by (simp add: ks_def)
    from allocuvm_fail [OF l(1) le(1,2) new [unfolded ks_def] this]
    obtain m' ps' where m: "allocuvm (pgdir p) (psz p) z m = Inr (0, m')"
      "uspace m' (pgdir p) pt fr ps'" "set ps' = set ps" by blast
    have "growproc_r (int k) p m = Inr (-1, p, m')" using g m(1) assms(2) by (simp add: growproc_r_def Let_def z_def)
    moreover have "layout p m' pt fr ps'" using assms(1) m(2) unfolding layout_def by blast
    ultimately show ?thesis using False m(3) by auto
  qed
qed

text \<open>Shrinking; a size of 0 looks like a failure to the code (lemma \<open>sbrk_to_nothing\<close> below).\<close>

lemma dealloc_heap:
  assumes "layout p m pt fr ps" "0 < k" "k \<le> unat (psz p)"
  defines "z \<equiv> psz p - of_nat k"
  defines "ks \<equiv> new_pages z (psz p)"
  shows "unat z = unat (psz p) - k"
    "\<exists>m'. deallocuvm (pgdir p) (psz p) z m = Inr (z, m') \<and> uspace m' (pgdir p) pt (fr |` (- set ks)) (unmap_list fr ks ps)"
    "\<not> sint (stack_head p - psz p - of_int (- int k)) < 5 * 4096 \<longleftrightarrow> unat (psz p) + 5 * 4096 \<le> unat (stack_head p) + k"
proof -
  note l = layoutD [OF assms(1)]
  have k: "unat (of_nat k :: u32) = k" using assms(3) l(3,4) by (intro unat_u32) simp
  show n: "unat z = unat (psz p) - k"
    unfolding z_def using k assms(3) by (subst unat_sub) (simp_all add: word_le_nat_alt)
  have "z < psz p" "psz p \<le> USERTOP"
    using n assms(2,3) l(3,4) by (simp_all add: word_less_nat_alt word_le_nat_alt)
  from deallocuvm_ok [OF l(1) this]
  show "\<exists>m'. deallocuvm (pgdir p) (psz p) z m = Inr (z, m') \<and> uspace m' (pgdir p) pt (fr |` (- set ks)) (unmap_list fr ks ps)"
    unfolding ks_def .
  show "\<not> sint (stack_head p - psz p - of_int (- int k)) < 5 * 4096 \<longleftrightarrow> unat (psz p) + 5 * 4096 \<le> unat (stack_head p) + k"
    by (subst gap_shrink) (use l(3,4) assms(3) in linarith)+
qed


lemma shrink_heap:
  assumes "layout p m pt fr ps" "0 < k" "k < unat (psz p)"
  defines "z \<equiv> psz p - of_nat k"
  defines "ks \<equiv> new_pages z (psz p)"
  shows "if unat (psz p) + 5 * 4096 \<le> unat (stack_head p) + k
    then \<exists>m'. growproc_r (- int k) p m = Inr (0, p\<lparr>psz := z\<rparr>, m') \<and>
      layout (p\<lparr>psz := z\<rparr>) m' pt (fr |` (- set ks)) (unmap_list fr ks ps)
    else growproc_r (- int k) p m = Inr (-1, p, m)"
proof (cases "unat (psz p) + 5 * 4096 \<le> unat (stack_head p) + k")
  case True
  note l = layoutD [OF assms(1)]
  note d = dealloc_heap [OF assms(1,2) less_imp_le [OF assms(3)], folded z_def, folded ks_def]
  obtain m' where m: "deallocuvm (pgdir p) (psz p) z m = Inr (z, m')" "uspace m' (pgdir p) pt (fr |` (- set ks)) (unmap_list fr ks ps)"
    using d(2) by blast
  have z: "z \<noteq> 0" using d(1) assms(3) by auto
  have e: "psz p + of_int (- int k) = z" by (simp add: z_def)
  have r: "growproc_r (- int k) p m = Inr (0, p\<lparr>psz := z\<rparr>, m')"
    using d(3) True m(1) z assms(2) unfolding growproc_r_def e Let_def by simp
  have "(fr |` (- set ks)) k \<noteq> None" if "k < UPAGES" "2 \<le> k" "4096 * k < unat z" for k
  proof -
    have "k \<notin> set ks" "fr k \<noteq> None" using that d(1) l(5) by (auto simp: ks_def in_new_pages)
    then show ?thesis by simp
  qed
  moreover have "(fr |` (- set ks)) k \<noteq> None" if "k < UPAGES" "unat (stack_head p) \<le> 4096 * k" for k
  proof -
    have "k \<notin> set ks" "fr k \<noteq> None" using that l(4,6) by (auto simp: ks_def in_new_pages)
    then show ?thesis by simp
  qed
  moreover have "(fr |` (- set ks)) k = None" if "unat z \<le> 4096 * k" "4096 * k < unat (stack_head p)" for k
    using that l(7) by (cases "k \<in> set ks") (auto simp: ks_def in_new_pages restrict_map_def)
  ultimately have "layout (p\<lparr>psz := z\<rparr>) m' pt (fr |` (- set ks)) (unmap_list fr ks ps)"
    unfolding layout_def using m(2) l(2-4) d(1) by simp
  then show ?thesis using r True by simp
next
  case False
  then show ?thesis using dealloc_heap(3) [OF assms(1,2) less_imp_le [OF assms(3)]]
    by (simp add: growproc_r_def del: of_int_minus)
qed

text \<open>An argument below \<open>- sz\<close> makes the new size wrap around, and the call succeeds without doing anything, or fails.\<close>

lemma shrink_wraps:
  assumes "layout p m pt fr ps" "unat (psz p) < k" "k \<le> 2147483648"
  shows "growproc_r (- int k) p m = Inr (0, p, m) \<or> growproc_r (- int k) p m = Inr (-1, p, m)"
proof -
  note l = layoutD [OF assms(1)]
  have "(of_nat (4294967296 - k) :: u32) = of_nat 4294967296 - of_nat k" using assms(3) by (intro of_nat_diff) simp
  moreover have "(of_nat 4294967296 :: u32) = 0" by simp
  ultimately have e: "psz p + of_int (- int k) = psz p + of_nat (4294967296 - k)" by simp
  have "unat (psz p) + (4294967296 - k) < 4294967296" using assms(2,3) by linarith
  then have "unat (psz p + of_int (- int k)) = unat (psz p) + (4294967296 - k)" unfolding e by (rule unat_add_small)
  then have "psz p \<le> psz p + of_int (- int k)" by (simp add: word_le_nat_alt)
  then have "deallocuvm (pgdir p) (psz p) (psz p + of_int (- int k)) m = Inr (psz p, m)" by (simp add: deallocuvm_def)
  then show ?thesis using assms(2) by (simp add: growproc_r_def Let_def del: of_int_minus)
qed

text \<open>Giving back all of the memory fails, but only after the pages have been freed: the size still covers them.\<close>

lemma sbrk_to_nothing:
  assumes "layout p m pt fr ps" "0 < unat (psz p)"
  shows "\<exists>m'. growproc_r (- int (unat (psz p))) p m = Inr (-1, p, m') \<and>
    uspace m' (pgdir p) pt (fr |` (- set (new_pages 0 (psz p)))) (unmap_list fr (new_pages 0 (psz p)) ps)"
proof -
  note l = layoutD [OF assms(1)]
  note d = dealloc_heap [OF assms order_refl]
  define i where "i = unat (psz p)"
  have i: "i = unat (psz p)" "psz p = of_nat i" by (simp_all add: i_def)
  obtain j where j: "unat (stack_head p) = 4096 * j" using l(2) by (auto simp: mod_eq_0_iff_dvd dvd_def)
  then have "5 * 4096 \<le> unat (stack_head p)" using l(4) by (cases "j < 5") simp_all
  then have g: "\<not> sint (stack_head p - psz p - of_int (- int i)) < 5 * 4096" using d(3) unfolding i(1) by linarith
  have z: "psz p - of_nat i = 0" "psz p + of_int (- int i) = 0" "0 < i" using i assms(2) by simp_all
  obtain m' where m: "deallocuvm (pgdir p) (psz p) 0 m = Inr (0, m')"
    "uspace m' (pgdir p) pt (fr |` (- set (new_pages 0 (psz p)))) (unmap_list fr (new_pages 0 (psz p)) ps)"
    using d(2) unfolding i(1) [symmetric] z(1) by blast
  have "growproc_r (- int i) p m = Inr (-1, p, m')"
    using g m(1) z(3) unfolding growproc_r_def Let_def z(2) by simp
  then show ?thesis using m(2) i(1) by blast
qed

lemma page_top:
  fixes h :: u32
  assumes "unat h mod 4096 = 0" "4096 \<le> unat h"
  shows "unat (h - PGSIZE) = unat h - 4096" "new_pages (h - PGSIZE) h = [unat h div 4096 - 1]"
proof -
  show u: "unat (h - PGSIZE) = unat h - 4096" using assms(2) by (subst unat_sub) (simp_all add: word_le_nat_alt)
  obtain k where k: "unat h = 4096 * k" using assms(1) by (auto simp: mod_eq_0_iff_dvd dvd_def)
  then have "0 < k" using assms(2) by auto
  then have "k - 1 < k" by simp
  have "(unat h - 4096 + 4095) div 4096 = k - 1" "(unat h + 4095) div 4096 = k" unfolding k using \<open>0 < k\<close> by (cases k; simp)+
  then show "new_pages (h - PGSIZE) h = [unat h div 4096 - 1]"
    unfolding new_pages_def u using \<open>0 < k\<close> k by (cases k) simp_all
qed

text \<open>A fault that the stack may grow for.\<close>

definition grows_stack :: "u32 \<Rightarrow> rproc \<Rightarrow> bool" where
  "grows_stack a p \<longleftrightarrow> unat (stack_head p) \<le> unat a + 4096 \<and> a < USERTOP \<and>
     unat (psz p) + 5 * 4096 \<le> unat a \<and> unat (psz p) + 5 * 4096 < unat (stack_head p)"

lemma if_guards: "\<not> (\<not> b \<and> c) \<Longrightarrow> (if b then x else if c then y else x) = x"
  by auto

lemma if_guards_not: "\<not> b \<and> c \<Longrightarrow> (if b then x else if c then y else x) = y"
  by auto

lemma growstack_cases:
  assumes "layout p m pt fr ps"
  defines "k \<equiv> unat (stack_head p) div 4096 - 1"
  shows "if grows_stack a p \<and> ps \<noteq> []
    then \<exists>m'. growstack a p m = Inr (0, p\<lparr>stack_head := stack_head p - PGSIZE\<rparr>, m') \<and>
      layout (p\<lparr>stack_head := stack_head p - PGSIZE\<rparr>) m' pt (fr(k \<mapsto> hd ps)) (tl ps) \<and>
      (\<forall>x. unat (x - hd ps) < 4096 \<longrightarrow> mem m' x = 0)
    else \<exists>m' ps'. growstack a p m = Inr (-1, p, m') \<and> layout p m' pt fr ps' \<and> set ps' = set ps"
proof -
  note l = layoutD [OF assms(1)]
  obtain j where j: "unat (stack_head p) = 4096 * j" using l(2) by (auto simp: mod_eq_0_iff_dvd dvd_def)
  then have j5: "5 \<le> j" "j \<le> UPAGES" "k = j - 1" using l(3,4) by (auto simp: k_def)
  have top: "4096 \<le> unat (stack_head p)" using j j5(1) by simp
  note pt = page_top [OF l(2) top, folded k_def]
  have five: "unat (psz p + 5 * PGSIZE) = unat (psz p) + 5 * 4096" using l(3,4) by (subst unat_add_lt) simp_all
  have gap: "unat (stack_head p - psz p) = unat (stack_head p) - unat (psz p)" using l(4) by (intro unat_sub) (simp add: word_le_nat_alt)
  have guard: "grows_stack a p \<longleftrightarrow> \<not> (a < 0x2000 \<or> a \<ge> USERTOP \<or> a < stack_head p - PGSIZE \<or> a < psz p + 5 * PGSIZE \<and> a > psz p) \<and>
      stack_head p - psz p > 5 * PGSIZE"
    unfolding grows_stack_def word_less_nat_alt word_le_nat_alt pt(1) five gap using j j5 l(4) top by auto
  have le: "stack_head p - PGSIZE \<le> stack_head p" "stack_head p \<le> USERTOP" "stack_head p \<noteq> 0"
    using pt(1) l(3) top by (auto simp: word_le_nat_alt)
  have k: "k < UPAGES" "unat (psz p) \<le> 4096 * k" "4096 * k < unat (stack_head p)" "4096 * k = unat (stack_head p) - 4096"
    using j j5 l(4) by auto
  have new: "\<forall>k \<in> set (new_pages (stack_head p - PGSIZE) (stack_head p)). fr k = None"
    unfolding pt(2) using l(7) k by simp
  show ?thesis
  proof (cases "grows_stack a p")
    case False
    then have "growstack a p m = Inr (-1, p, m)" unfolding guard growstack_def by (rule if_guards)
    then show ?thesis using False assms(1) by auto
  next
    case g: True
    show ?thesis
    proof (cases ps)
      case Nil
      then have "length ps < length (new_pages (stack_head p - PGSIZE) (stack_head p))" by (simp add: pt(2))
      from allocuvm_fail [OF l(1) le(1,2) new this]
      obtain m' ps' where m: "allocuvm (pgdir p) (stack_head p - PGSIZE) (stack_head p) m = Inr (0, m')"
        "uspace m' (pgdir p) pt fr ps'" "set ps' = set ps" by blast
      have "growstack a p m = Inr (-1, p, m')" 
        using m(1) unfolding growstack_def if_guards_not [OF g [unfolded guard]] by simp
      moreover have "layout p m' pt fr ps'" using assms(1) m(2) unfolding layout_def by blast
      ultimately show ?thesis using Nil m(3) by auto
    next
      case (Cons q qs)
      then have "length (new_pages (stack_head p - PGSIZE) (stack_head p)) \<le> length ps" by (simp add: pt(2))
      from allocuvm_ok [OF l(1) le(1,2) new this]
      obtain m' where m: "allocuvm (pgdir p) (stack_head p - PGSIZE) (stack_head p) m = Inr (stack_head p, m')"
        "uspace m' (pgdir p) pt (fr(k \<mapsto> q)) qs" "\<forall>x. unat (x - q) < 4096 \<longrightarrow> mem m' x = 0"
        by (auto simp: pt(2) Cons)
      let ?p = "p\<lparr>stack_head := stack_head p - PGSIZE\<rparr>"
      have r: "growstack a p m = Inr (0, ?p, m')" 
        using m(1) le(3) unfolding growstack_def if_guards_not [OF g [unfolded guard]] by simp
      have "unat (stack_head ?p) mod 4096 = 0" "unat (stack_head ?p) \<le> 4096 * UPAGES" "unat (psz ?p) + 4 * 4096 < unat (stack_head ?p)"
        using pt(1) j j5 g by (simp_all add: grows_stack_def mod_simps) (cases j, simp_all)
      moreover have "(fr(k \<mapsto> q)) i \<noteq> None" if "i < UPAGES" "2 \<le> i" "4096 * i < unat (psz p)" for i
        using l(5) that k by (cases "i = k") auto
      moreover have "(fr(k \<mapsto> q)) i \<noteq> None" if "i < UPAGES" "unat (stack_head ?p) \<le> 4096 * i" for i
        using l(6) [of i] that k pt(1) j j5 by (cases "i = k") auto
      moreover have "(fr(k \<mapsto> q)) i = None" if "unat (psz p) \<le> 4096 * i" "4096 * i < unat (stack_head ?p)" for i
        using l(7) [of i] that k pt(1) by (cases "i = k") auto
      ultimately have "layout ?p m' pt (fr(k \<mapsto> q)) qs" unfolding layout_def using m(2) by simp
      then show ?thesis using r g m(3) Cons by auto
    qed
  qed
qed

section \<open>Arguments\<close>

text \<open>The \<open>n\<close> bytes from \<open>a\<close> lie in the heap or in the stack.\<close>

definition in_user :: "rproc \<Rightarrow> nat \<Rightarrow> nat \<Rightarrow> bool" where
  "in_user p a n \<longleftrightarrow> 2 * 4096 \<le> a \<and> a + n \<le> unat (psz p) \<or> unat (stack_head p) \<le> a \<and> a + n \<le> 4096 * UPAGES"

lemma sint_small:
  fixes a :: u32
  assumes "unat a < 2147483648"
  shows "sint a = int (unat a)"
proof -
  have "int (unat a) < 2147483648" using assms by linarith
  then have "uint a < 2147483648" by simp
  then have "- (2 ^ 31) \<le> uint a" "uint a < 2 ^ 31" using order_trans [OF _ uint_ge_0 [of a], of "- 2147483648"] by simp_all
  then have "signed_take_bit 31 (uint a) = uint a" by (rule signed_take_bit_int_eq_self)
  then show ?thesis by (simp add: sint_uint)
qed

lemma sint_neg: "2147483648 \<le> unat (a :: u32) \<Longrightarrow> sint a < 0"
proof -
  assume "2147483648 \<le> unat a"
  then have u: "2147483648 \<le> int (unat a)" by linarith
  have "unat a < 4294967296" using unat_lt32 [of a] by simp
  then have b: "int (unat a) < 4294967296" by linarith
  have "sint a = (uint a + 2 ^ 31) mod 2 ^ 32 - 2 ^ 31"
    by (simp add: sint_uint signed_take_bit_eq_take_bit_shift take_bit_eq_mod)
  moreover have "(uint a + 2 ^ 31) mod 2 ^ 32 = (uint a - 2 ^ 31 + 1 * 2 ^ 32) mod 2 ^ 32" by (rule arg_cong) simp
  moreover have "(uint a - 2 ^ 31 + 1 * 2 ^ 32) mod 2 ^ 32 = (uint a - 2 ^ 31) mod 2 ^ 32" by (rule mod_mult_self1)
  moreover have "(uint a - 2 ^ 31) mod 2 ^ 32 = uint a - 2 ^ 31" using u b by (intro mod_pos_pos_trivial) simp_all
  ultimately show ?thesis using b by simp
qed

lemma checkbounds_exact:
  fixes a :: u32
  assumes "layout p m pt fr ps" "1 \<le> n" "n \<le> 16384"
  shows "checkbounds p (sint a) (int n) = (if in_user p (unat a) n then 0 else -1)"
proof (cases "unat a + n \<le> 4096 * UPAGES \<and> 2 * 4096 \<le> unat a")
  case False
  note l = layoutD [OF assms(1)]
  have "sint a > 0xA0000 \<or> sint a + int n > 0xA0000 \<or> sint a < 2 * 4096"
  proof (cases "unat a < 2147483648")
    case True
    show ?thesis using False sint_small [OF True] by linarith
  next
    case f: False
    then have "sint a < 0" by (intro sint_neg) simp
    then show ?thesis by simp
  qed
  then have "checkbounds p (sint a) (int n) = -1" unfolding checkbounds_def by auto
  moreover have "\<not> in_user p (unat a) n" using False l(3,4) by (auto simp: in_user_def)
  ultimately show ?thesis by simp
next
  case True
  note l = layoutD [OF assms(1)]
  have s: "sint a = int (unat a)" using True by (intro sint_small) simp
  have w: "(of_int (int (unat a)) :: u32) = a" by simp
  have "unat (a + of_nat n) = unat a + n" using True by (intro unat_add_small) simp
  moreover have "(of_int (int (unat a) + int n) :: u32) = a + of_nat n" by simp
  ultimately have v: "unat (of_int (int (unat a) + int n) :: u32) = unat a + n" by simp
  have "\<not> 0xA0000 < int (unat a)" "\<not> 0xA0000 < int (unat a) + int n" "\<not> int (unat a) < 2 * 4096" "\<not> int (unat a) + int n < 2 * 4096"
    using True by linarith+
  then have "checkbounds p (sint a) (int n) = (if unat (psz p) \<le> unat a \<and> unat a < unat (stack_head p) \<or>
      unat (psz p) < unat a + n \<and> unat a + n < unat (stack_head p) then -1 else 0)"
    unfolding checkbounds_def s w word_le_nat_alt word_less_nat_alt v by simp
  moreover have "in_user p (unat a) n \<longleftrightarrow> \<not> (unat (psz p) \<le> unat a \<and> unat a < unat (stack_head p) \<or>
      unat (psz p) < unat a + n \<and> unat a + n < unat (stack_head p))"
    using True l(4) assms(2,3) unfolding in_user_def by linarith
  ultimately show ?thesis by simp
qed

lemma layout_mapped:
  assumes "layout p m pt fr ps" "in_user p (unat a) n" "i < n"
  shows "unat (a + of_nat i) = unat a + i" "ubyte m fr (a + of_nat i) \<noteq> None"
    "upa (pgdir p) m (a + of_nat i) \<noteq> None" "mem m (the (upa (pgdir p) m (a + of_nat i))) = the (ubyte m fr (a + of_nat i))"
proof -
  note l = layoutD [OF assms(1)]
  let ?a = "a + of_nat i"
  have b: "unat a + i < 4096 * UPAGES" using assms(2,3) l(3,4) unfolding in_user_def by linarith
  show u: "unat ?a = unat a + i" using b by (intro unat_add_small) simp
  let ?k = "unat ?a div 4096"
  have m: "4096 * ?k \<le> unat ?a" by simp
  have m2: "unat ?a < 4096 * ?k + 4096" using mod_less_divisor [of 4096 "unat ?a"] div_mult_mod_eq [of "unat ?a" 4096] by linarith
  have k: "?k < UPAGES" using b u by simp
  have f: "fr ?k \<noteq> None" using assms(2) unfolding in_user_def
  proof
    assume h: "2 * 4096 \<le> unat a \<and> unat a + n \<le> unat (psz p)"
    show ?thesis by (rule l(5) [OF k]) (use h u m m2 assms(3) in linarith)+
  next
    assume h: "unat (stack_head p) \<le> unat a \<and> unat a + n \<le> 4096 * UPAGES"
    obtain j where j: "unat (stack_head p) = 4096 * j" using l(2) by (auto simp: mod_eq_0_iff_dvd dvd_def)
    have "j \<le> ?k" using h u j by (simp add: less_eq_div_iff_mult_less_eq)
    then show ?thesis using j by (intro l(6) [OF k]) simp
  qed
  let ?q = "proc.truncate p"
  have q: "pgdir ?q = pgdir p" by (simp add: proc.defs)
  have a: "unat ?a < 4096 * UPAGES" using b u by simp
  note g = uspace_uget [OF l(1) [folded q] a f, unfolded uget_def q]
  show "ubyte m fr ?a \<noteq> None" "mem m (the (upa (pgdir p) m ?a)) = the (ubyte m fr ?a)" using g by simp_all
  obtain y where "fr ?k = Some y" using f by blast
  then show "upa (pgdir p) m ?a \<noteq> None" using uspace_upa [OF l(1) a] by simp
qed

lemma fetchint_r_eq:
  assumes "layout p m pt fr ps"
  shows "fetchint_r p a m = Inr (if in_user p (unat a) 4 then Some (ld32 (\<lambda>i. the (ubyte m fr (a + of_nat i))) (0 :: nat)) else None)"
proof (cases "in_user p (unat a) 4")
  case True
  note u = layout_mapped [OF assms True]
  have "checkbounds p (sint a) 4 = 0" using checkbounds_exact [OF assms, of 4 a] True by simp
  moreover have "uload (pgdir p) m a 4 = Inr (map (\<lambda>i. mem m (the (upa (pgdir p) m (a + of_nat i)))) [0..<4])"
    using u(3) by (rule uload_ok)
  moreover have "map (\<lambda>i. mem m (the (upa (pgdir p) m (a + of_nat i)))) [0..<4] = map (\<lambda>i. the (ubyte m fr (a + of_nat i))) [0..<4]"
    using u(4) by (intro map_cong refl) (simp del: upt_rec_numeral)
  ultimately show ?thesis using True by (simp add: fetchint_r_def uload32_def ld32_def)
next
  case False
  have "checkbounds p (sint a) 4 = -1" using checkbounds_exact [OF assms, of 4 a] False by simp
  then show ?thesis using False by (simp add: fetchint_r_def)
qed

text \<open>The string at \<open>a\<close> when it is terminated before \<open>e\<close>.\<close>

definition string_to :: "kmem \<Rightarrow> (nat \<Rightarrow> u32 option) \<Rightarrow> u32 \<Rightarrow> nat \<Rightarrow> u8 list option" where
  "string_to m fr a n = (let bs = map (\<lambda>i. the (ubyte m fr (a + of_nat i))) [0..<n] in
     if 0 \<in> set bs then Some (takeWhile (\<lambda>c. c \<noteq> 0) bs) else None)"

lemma string_to_Suc:
  "string_to m fr a (Suc n) = (if the (ubyte m fr a) = 0 then Some [] else map_option ((#) (the (ubyte m fr a))) (string_to m fr (a + 1) n))"
proof -
  have "map (\<lambda>i. the (ubyte m fr (a + of_nat i))) [0..<Suc n] = the (ubyte m fr a) # map (\<lambda>i. the (ubyte m fr (a + 1 + of_nat i))) [0..<n]"
    by (simp add: upt_conv_Cons map_Suc_upt [symmetric] add.assoc del: upt_Suc)
  then show ?thesis unfolding string_to_def by (auto simp: Let_def)
qed

lemma fetchstr_from_user:
  assumes "layout p m pt fr ps" "in_user p (unat a) n" "unat e = unat a + n"
  shows "fetchstr_from (pgdir p) a e m = Inr (string_to m fr a n)"
  using assms(2,3)
proof (induction n arbitrary: a)
  case 0
  then have "\<not> a < e" by (simp add: word_less_nat_alt)
  then show ?case by (subst fetchstr_from.simps) (simp add: string_to_def)
next
  case (Suc n)
  note u = layout_mapped [OF assms(1) Suc.prems(1), of 0, simplified]
  have l: "a < e" using Suc.prems by (simp add: word_less_nat_alt)
  have "unat a + 1 < 4294967296" using Suc.prems(2) unat_lt32 [of e] by simp
  then have a1: "unat (a + 1) = unat a + 1" using unat_add_small [of a 1] by simp
  have "in_user p (unat (a + 1)) n" using Suc.prems(1) unfolding a1 in_user_def by linarith
  then have ih: "fetchstr_from (pgdir p) (a + 1) e m = Inr (string_to m fr (a + 1) n)"
    using Suc.prems a1 by (intro Suc.IH) simp_all
  obtain q where q: "upa (pgdir p) m a = Some q" using u by blast
  have v: "the (ubyte m fr a) = mem m q" using u q by simp
  show ?case unfolding string_to_Suc v by (subst fetchstr_from.simps) (simp add: l q ih)
qed

lemma fetchstr_r_eq:
  assumes "layout p m pt fr ps"
  shows "fetchstr_r p a m = Inr (if in_user p (unat a) 1
    then string_to m fr a ((if a < psz p then unat (psz p) else 4096 * UPAGES) - unat a) else None)"
proof (cases "in_user p (unat a) 1")
  case True
  note l = layoutD [OF assms(1)]
  have c: "checkbounds p (sint a) 1 = 0" using checkbounds_exact [OF assms, of 1 a] True by simp
  show ?thesis
  proof (cases "a < psz p")
    case h: True
    have r: "in_user p (unat a) (unat (psz p) - unat a)" using h True l(4) unfolding in_user_def word_less_nat_alt by linarith
    show ?thesis using fetchstr_from_user [OF assms r, of "psz p"] c h True less_imp_le [OF h]
      by (simp add: fetchstr_r_def word_less_nat_alt)
  next
    case f: False
    then have s: "in_user p (unat a) (4096 * UPAGES - unat a)" "unat (stack_head p) \<le> unat a" "unat a + (4096 * UPAGES - unat a) = 4096 * UPAGES"
      using True l(3,4) unfolding in_user_def word_less_nat_alt by linarith+
    have "\<not> a \<le> psz p" using s(2) l(4) unfolding word_le_nat_alt by linarith
    then show ?thesis using fetchstr_from_user [OF assms s(1), of USERTOP] s(3) c f True by (simp add: fetchstr_r_def)
  qed
next
  case False
  have "checkbounds p (sint a) 1 = -1" using checkbounds_exact [OF assms, of 1 a] False by simp
  then show ?thesis using False by (simp add: fetchstr_r_def)
qed

text \<open>
  \<open>argptr\<close> tests the two ends of a block and not whether both lie on the same side of the gap: a block that begins in the
  heap and ends in the stack is accepted, with the unmapped pages between.
\<close>

lemma argptr_spans_gap:
  assumes "layout p m pt fr ps" "argint_r n p m = Inr (Some i)" "2 * 4096 \<le> unat i" "unat i < unat (psz p)"
    and "unat (stack_head p) \<le> unat i + k" "unat i + k \<le> 4096 * UPAGES"
  shows "argptr_r n (int k) p m = Inr (Some i) \<and> (\<exists>x. unat i \<le> x \<and> x < unat i + k \<and> fr (x div 4096) = None)"
proof -
  note l = layoutD [OF assms(1)]
  have v: "unat (i + of_nat k) = unat i + k" using assms(6) by (intro unat_add_small) simp
  have "fr ((unat (stack_head p) - 4096) div 4096) = None"
  proof (rule l(7))
    obtain j where j: "unat (stack_head p) = 4096 * j" using l(2) by (auto simp: mod_eq_0_iff_dvd dvd_def)
    then have "(unat (stack_head p) - 4096) div 4096 = j - 1" by (cases j) simp_all
    then show "unat (psz p) \<le> 4096 * ((unat (stack_head p) - 4096) div 4096)"
      "4096 * ((unat (stack_head p) - 4096) div 4096) < unat (stack_head p)" using j l(4) by auto
  qed
  then have "\<exists>x. unat i \<le> x \<and> x < unat i + k \<and> fr (x div 4096) = None"
    using assms(4,5) l(4) by (intro exI [of _ "unat (stack_head p) - 4096"]) auto
  moreover have "argptr_r n (int k) p m = Inr (Some i)"
    using assms(2-6) l(3,4) v by (simp add: argptr_r_def word_le_nat_alt word_less_nat_alt)
  ultimately show ?thesis by blast
qed

section \<open>The stack page of exec\<close>

lemma exec_stack_page_ok:
  assumes "uspace m d pt fr (q # ps)" "fr 159 = None"
  shows "\<exists>m'. exec_stack_page d m = Inr (USERTOP, m') \<and> uspace m' d pt (fr(159 \<mapsto> q)) ps"
proof -
  have n: "new_pages (USERTOP - PGSIZE) USERTOP = [159]" by (simp add: new_pages_def upt_rec)
  show ?thesis using allocuvm_ok [OF assms(1), of "USERTOP - PGSIZE" USERTOP] assms(2) unfolding n by (auto simp: exec_stack_page_def)
qed

lemma map_mapped:
  assumes "uspace m d pt fr (q # ps)" "k < UPAGES" "fr k \<noteq> None"
  shows "allocuvm_loop d (page_at k # ks) lo hi m = Inl (Panic ''remap'')"
proof -
  obtain m1 where m1: "kalloc m = (q, m1)" "uspace m1 d pt fr ps" "page_ok m1 q" "q \<noteq> d" "q \<noteq> pt"
    "q \<notin> set ps" "mem m1 = mem m" by (rule kalloc_uspace [OF assms(1)])
  define m2 where "m2 = m1\<lparr>mem := memset (mem m1) q 0 PGSIZE\<rparr>"
  note u = uspaceD [OF m1(2)]
  have al: "aligned 4096 q" using m1(3) by (rule page_ok_aligned)
  have u2: "uspace m2 d pt fr ps"
  proof (rule uspace_cong [OF m1(2)])
    fix p a assume p: "p \<in> insert d (insert pt (set ps))" "unat (a - p) < 4096"
    then have "aligned 4096 p" using u by (auto simp: free_pages_def intro: page_ok_aligned)
    moreover have "p \<noteq> q" using p(1) m1(4-6) by auto
    ultimately show "mem m2 a = mem m1 a"
      using memset_page_out [OF page_bytes_disjoint [OF _ al _ p(2)]] by (simp add: m2_def)
  qed (simp_all add: m2_def)
  obtain f where "fr k = Some f" using assms(3) by blast
  then have e: "present (ld32 (mem m2) (pte_at pt k))" using u2 assms(2) unfolding uspace_def pte_maps_def by auto
  have "pte_at pt k \<noteq> 0" using assms(2) by (intro pte_at_nonnull [OF uspaceD(2,4) [OF u2]]) simp
  moreover have "PGROUNDDOWN (page_at k) = page_at k" using unat_page_at [of k] assms(2) by (simp add: page_of(1))
  ultimately have "mappages d (page_at k) PGSIZE q (PTE_W OR PTE_U) m2 = Inl (Panic ''remap'')"
    using e walk_user [OF u2 assms(2)] by (simp add: mappages_def Let_def)
  moreover have "q \<noteq> 0" using uspaceD(1,2) [OF assms(1)]
    by (auto simp: free_pages_def page_ok_def word_le_nat_alt word_less_nat_alt)
  ultimately show ?thesis using m1(1) by (simp add: Let_def m2_def)
qed

text \<open>A program file stops the kernel when no page is free at that point, and when a segment of it ends in the last page.\<close>

lemma exec_stack_page_panics:
  assumes "uspace m d pt fr ps" "ps = [] \<and> fr 159 = None \<or> ps \<noteq> [] \<and> fr 159 \<noteq> None"
  shows "exec_stack_page d m = Inl (Panic (if ps = [] then ''allocate new stack failed'' else ''remap''))"
proof -
  have n: "new_pages (USERTOP - PGSIZE) USERTOP = [159]" by (simp add: new_pages_def upt_rec)
  show ?thesis
  proof (cases ps)
    case Nil
    then show ?thesis using allocuvm_fail [OF assms(1), of "USERTOP - PGSIZE" USERTOP] assms(2) unfolding n
      by (auto simp: exec_stack_page_def)
  next
    case (Cons q qs)
    have "page_addrs (PGROUNDUP (USERTOP - PGSIZE)) USERTOP = [page_at 159]"
      using page_addrs_user [of "USERTOP - PGSIZE" USERTOP] unfolding n by simp
    then show ?thesis using map_mapped [OF assms(1) [unfolded Cons], of 159] assms(2) Cons
      by (simp add: exec_stack_page_def allocuvm_def del: allocuvm_loop.simps)
  qed
qed

section \<open>The child of a fork\<close>

text \<open>The page numbers that \<open>copyuvm\<close> copies.\<close>

definition fork_pages :: "rproc \<Rightarrow> nat list" where
  "fork_pages p = new_pages (2 * PGSIZE) (psz p) @ new_pages (stack_head p) USERTOP"

lemma fork_pages:
  assumes "layout p m pt fr ps"
  shows "k \<in> set (fork_pages p) \<longleftrightarrow> k < UPAGES \<and> (2 \<le> k \<and> 4096 * k < unat (psz p) \<or> unat (stack_head p) \<le> 4096 * k)"
    "distinct (fork_pages p)" "page_addrs (2 * PGSIZE) (psz p) @ page_addrs (stack_head p) USERTOP = map page_at (fork_pages p)"
proof -
  note l = layoutD [OF assms]
  have le: "2 * PGSIZE \<le> USERTOP" "psz p \<le> USERTOP" "stack_head p \<le> USERTOP" using l(3,4) by (simp_all add: word_le_nat_alt)
  have "PGROUNDUP (2 * PGSIZE) = 2 * PGSIZE" by (simp add: PGROUNDUP_def)
  moreover have "PGROUNDUP (stack_head p) = stack_head p"
  proof (rule word_eq_unatI)
    obtain j where j: "unat (stack_head p) = 4096 * j" using l(2) by (auto simp: mod_eq_0_iff_dvd dvd_def)
    then have "(unat (stack_head p) + 4095) div 4096 = j" by simp
    then show "unat (PGROUNDUP (stack_head p)) = unat (stack_head p)" using j l(3) by (simp add: unat_roundup)
  qed
  ultimately show "page_addrs (2 * PGSIZE) (psz p) @ page_addrs (stack_head p) USERTOP = map page_at (fork_pages p)"
    using page_addrs_user [OF le(1,2)] page_addrs_user [OF le(3) order_refl] by (simp add: fork_pages_def)
  show k: "k \<in> set (fork_pages p) \<longleftrightarrow> k < UPAGES \<and> (2 \<le> k \<and> 4096 * k < unat (psz p) \<or> unat (stack_head p) \<le> 4096 * k)" for k
    using l(3,4) by (auto simp: fork_pages_def in_new_pages)
  show "distinct (fork_pages p)" using l(4) by (auto simp: fork_pages_def in_new_pages) (simp_all add: new_pages_def)
qed

text \<open>With enough pages, the child has the layout of the parent and its bytes, in pages of its own.\<close>

lemma fork_layout:
  assumes "layout p m pt fr (c # ps)" "kdata_ok m" "12 + length (fork_pages p) \<le> length ps"
  shows "\<exists>m' ct cfr ps'. copyuvm_r (pgdir p) (psz p) (stack_head p) m = Inr (c, m') \<and>
    layout p m' pt fr ps' \<and> layout (p\<lparr>pgdir := c\<rparr>) m' ct cfr ps' \<and> user_frames fr \<inter> user_frames cfr = {} \<and>
    (\<forall>a. unat a < 4096 * UPAGES \<longrightarrow> ubyte m' fr a = ubyte m fr a \<and>
      ubyte m' cfr a = (if unat a div 4096 \<in> set (fork_pages p) then ubyte m fr a else None))"
proof -
  note l = layoutD [OF assms(1)] and f = fork_pages [OF assms(1)]
  have ks: "\<forall>k \<in> set (fork_pages p). k < UPAGES \<and> fr k \<noteq> None" using f(1) l(5,6) by blast
  obtain m' T cfr ps' where m: "copy_space (pgdir p) (map page_at (fork_pages p)) m = Inr (c, m')" "uspace m' (pgdir p) pt fr ps'"
    "aspace m' c T cfr ps'" "insert (pgdir p) (insert pt (user_frames fr)) \<inter> space_pages c T cfr = {}"
    "\<forall>a. unat a < 4096 * UPAGES \<longrightarrow> ubyte m' fr a = ubyte m fr a"
    "\<forall>a. unat a < 4096 * UPAGES \<longrightarrow> ubyte m' cfr a = (if unat a div 4096 \<in> set (fork_pages p) then ubyte m fr a else None)"
    using copy_space_enough [OF l(1) assms(2) ks f(2) assms(3)] by blast
  have run: "copyuvm_r (pgdir p) (psz p) (stack_head p) m = Inr (c, m')"
    using m(1) unfolding copyuvm_r_def copy_space_def f(3) .
  have U: "uspace m' c (the (T 0)) cfr ps'" using m(3) by (simp add: aspace_def)
  have dom: "cfr k \<noteq> None \<longleftrightarrow> k \<in> set (fork_pages p)" if "k < UPAGES" for k
  proof -
    have u: "unat (page_at k) = 4096 * k" using that by (intro unat_page_at) simp
    have e: "ubyte m' cfr (page_at k) = (if k \<in> set (fork_pages p) then ubyte m fr (page_at k) else None)"
      using m(6) [rule_format, of "page_at k"] that u by simp
    have "ubyte m' cfr (page_at k) = None \<longleftrightarrow> cfr k = None" "ubyte m fr (page_at k) = None \<longleftrightarrow> fr k = None"
      by (simp_all add: ubyte_def u)
    then have "cfr k = None \<longleftrightarrow> (k \<in> set (fork_pages p) \<longrightarrow> fr k = None)" unfolding e by (auto split: if_splits)
    moreover have "k \<in> set (fork_pages p) \<Longrightarrow> fr k \<noteq> None" using ks by blast
    ultimately show ?thesis by argo
  qed
  have "layout (p\<lparr>pgdir := c\<rparr>) m' (the (T 0)) cfr ps'" unfolding layout_def
  proof (intro conjI allI impI)
    show "uspace m' (pgdir (p\<lparr>pgdir := c\<rparr>)) (the (T 0)) cfr ps'" using U by simp
    show "cfr k \<noteq> None" if "k < UPAGES" "2 \<le> k \<and> 4096 * k < unat (psz (p\<lparr>pgdir := c\<rparr>)) \<or> unat (stack_head (p\<lparr>pgdir := c\<rparr>)) \<le> 4096 * k" for k
      using that dom f(1) by simp
    show "cfr k = None" if "unat (psz (p\<lparr>pgdir := c\<rparr>)) \<le> 4096 * k \<and> 4096 * k < unat (stack_head (p\<lparr>pgdir := c\<rparr>))" for k
    proof -
      have "k < UPAGES" "k \<notin> set (fork_pages p)" using that l(3) f(1) [of k] by auto
      then show ?thesis using dom by blast
    qed
  qed (use l(2-4) in simp_all)
  moreover have "layout p m' pt fr ps'" using assms(1) m(2) unfolding layout_def by blast
  moreover have "user_frames fr \<inter> user_frames cfr = {}" using m(4) by (auto simp: space_pages_def)
  ultimately show ?thesis using run m(5,6) by (intro exI [of _ m'] exI [of _ "the (T 0)"] exI [of _ cfr] exI [of _ ps']) simp
qed

section \<open>The life of an address space\<close>

text \<open>
  A process asks for memory with \<open>sbrk\<close> or faults. The request for the whole of its memory back is left out
  (lemma \<open>sbrk_to_nothing\<close>).
\<close>

definition sbrk_arg :: "int \<Rightarrow> rproc \<Rightarrow> bool" where
  "sbrk_arg n p \<longleftrightarrow> - 2147483648 \<le> n \<and> n < 2147483648 \<and> (n = 0 \<or> n \<noteq> - int (unat (psz p)))"

inductive vmstep :: "rproc \<times> kmem \<Rightarrow> rproc \<times> kmem \<Rightarrow> bool" where
  sbrk: "sbrk_arg n p \<Longrightarrow> growproc_r n p m = Inr (r, p', m') \<Longrightarrow> vmstep (p, m) (p', m')"
| fault: "pgfault a p m = Inr (b, p', m') \<Longrightarrow> vmstep (p, m) (p', m')"

inductive_cases vmstepE: "vmstep (p, m) (p', m')"

lemma layout_killed: "layout (p\<lparr>killed := b\<rparr>) m pt fr ps = layout p m pt fr ps"
  by (simp add: layout_def)

lemma growproc_r_keeps:
  assumes "layout p m pt fr ps" "sbrk_arg n p"
  shows "\<exists>r p' m' fr' ps'. growproc_r n p m = Inr (r, p', m') \<and> layout p' m' pt fr' ps'"
proof (cases n "0 :: int" rule: linorder_cases)
  case equal
  then show ?thesis using assms(1) by (auto simp: growproc_r_def Let_def)
next
  case less
  define k where "k = nat (- n)"
  have k: "n = - int k" "0 < k" "k \<le> 2147483648" using less assms(2) by (auto simp: k_def sbrk_arg_def)
  have ne: "k \<noteq> unat (psz p)" using assms(2) k(1,2) unfolding sbrk_arg_def by auto
  show ?thesis
  proof (cases "k < unat (psz p)")
    case True
    show ?thesis using shrink_heap [OF assms(1) k(2) True] assms(1) unfolding k(1) by (metis (no_types))
  next
    case False
    then have "unat (psz p) < k" using ne by simp
    from shrink_wraps [OF assms(1) this k(3)] show ?thesis using assms(1) unfolding k(1) by blast
  qed
next
  case greater
  define k where "k = nat n"
  have k: "n = int k" "0 < k" "k < 2147483648" using greater assms(2) by (auto simp: k_def sbrk_arg_def)
  note l = layoutD [OF assms(1)]
  show ?thesis
  proof (cases "unat (psz p) + k + 5 * 4096 \<le> unat (stack_head p)")
    case True
    show ?thesis using grow_heap [OF assms(1) k(2) True] unfolding k(1) by (metis (no_types))
  next
    case False
    have "sint (stack_head p - psz p - of_int (int k)) < 5 * 4096"
      using gap_grow [of "psz p" "stack_head p" k] l(3,4) k(3) False by linarith
    then have "growproc_r (int k) p m = Inr (-1, p, m)" by (simp add: growproc_r_def)
    then show ?thesis using assms(1) unfolding k(1) by blast
  qed
qed

lemma pgfault_cases:
  assumes "layout p m pt fr ps"
  defines "k \<equiv> unat (stack_head p) div 4096 - 1"
  shows "if grows_stack a p \<and> ps \<noteq> []
    then \<exists>m'. pgfault a p m = Inr (True, p\<lparr>stack_head := stack_head p - PGSIZE\<rparr>, m') \<and>
      layout (p\<lparr>stack_head := stack_head p - PGSIZE\<rparr>) m' pt (fr(k \<mapsto> hd ps)) (tl ps) \<and>
      (\<forall>x. unat (x - hd ps) < 4096 \<longrightarrow> mem m' x = 0)
    else \<exists>m' ps'. pgfault a p m = Inr (False, p\<lparr>killed := True\<rparr>, m') \<and> layout p m' pt fr ps' \<and> set ps' = set ps"
proof (cases "grows_stack a p \<and> ps \<noteq> []")
  case True
  then obtain m' where "growstack a p m = Inr (0, p\<lparr>stack_head := stack_head p - PGSIZE\<rparr>, m')"
    "layout (p\<lparr>stack_head := stack_head p - PGSIZE\<rparr>) m' pt (fr(k \<mapsto> hd ps)) (tl ps)"
    "\<forall>x. unat (x - hd ps) < 4096 \<longrightarrow> mem m' x = 0"
    using growstack_cases [OF assms(1), of a, unfolded if_P [OF True]] unfolding k_def by blast
  then show ?thesis using True by (simp add: pgfault_def)
next
  case False
  then obtain m' ps' where "growstack a p m = Inr (-1, p, m')" "layout p m' pt fr ps'" "set ps' = set ps"
    using growstack_cases [OF assms(1), of a, unfolded if_not_P [OF False]] by blast
  then show ?thesis using False by (simp add: pgfault_def) blast
qed

lemma vmstep_layout:
  assumes "vmstep s s'" "layout (fst s) (snd s) pt fr ps"
  shows "\<exists>fr' ps'. layout (fst s') (snd s') pt fr' ps'"
  using assms
proof (cases rule: vmstep.cases)
  case (sbrk n p m r p' m')
  then show ?thesis using growproc_r_keeps [of p m pt fr ps n] assms(2) by auto
next
  case (fault a p m b p' m')
  then have l: "layout p m pt fr ps" using assms(2) by simp
  show ?thesis
  proof (cases "grows_stack a p \<and> ps \<noteq> []")
    case True
    then show ?thesis using pgfault_cases [OF l, of a] fault by auto
  next
    case False
    then obtain m1 ps' where "pgfault a p m = Inr (False, p\<lparr>killed := True\<rparr>, m1)" "layout p m1 pt fr ps'"
      using pgfault_cases [OF l, of a, unfolded if_not_P [OF False]] by blast
    then show ?thesis using fault by (auto simp: layout_killed)
  qed
qed


text \<open>A process with an empty heap, one stack page and one page free grows its stack once; the next fault kills it.\<close>

definition demo_rproc :: rproc where
  "demo_rproc = proc.extend (demo_proc\<lparr>pgdir := 0x200000, psz := 0x2000\<rparr>) \<lparr>stack_head = 0x9F000\<rparr>"

lemma demo_layout:
  obtains m where "layout demo_rproc m 0x201000 [159 \<mapsto> 0x202000] [0x203000]"
proof -
  have n: "new_pages 0x9F000 0xA0000 = [159]" by (simp add: new_pages_def upt_rec)
  obtain m where "uspace m 0x200000 0x201000 [159 \<mapsto> 0x202000] [0x203000]"
    using allocuvm_ok [OF demo_vm_uspace, of "0x9F000" "0xA0000"] unfolding n by auto
  then have "layout demo_rproc m 0x201000 [159 \<mapsto> 0x202000] [0x203000]"
    by (simp add: layout_def demo_rproc_def proc.defs demo_proc_def)
  then show ?thesis by (rule that)
qed


end
