(* ===== verification/Shmstat.thy ===== *)
theory Shmstat imports Main begin

text \<open>
  Shared memory/Shared memory of client & server: clients that register in a page of shared memory, and the server that
  lists them. The page is divided into segments of 64 bytes; the first one holds a mutex and each of the others, from 1 to
  \<open>maxClient\<close>, the \<open>stats_t\<close> of a client. Each step of the model is an access to a segment or a change of the mutex, and the
  steps of any number of clients and the signals sent to them come in any order.
\<close>

section \<open>The page\<close>

record stats =
  spid :: int
  sbirth :: string
  sclient :: string
  selapsed_sec :: int
  selapsed_usec :: int

text \<open>
  Where a client is: before its first access; in the loop that looks for a segment; about to write its name, its time of birth, to
  unlock; about to install its signal handlers; in its endless loop; and in \<open>exit_handler\<close>, waiting for the mutex, clearing its segment,
  unlocking. \<open>CFull\<close> is the branch \<open>find == 0\<close>. A client that is killed by a signal it has no handler for leaves everything as it is.
\<close>

datatype cpc = CStart | CScan nat | CName nat | CBirth nat | CUnlock | CFull | CSetup | CRun
  | CWait | CClear nat | CLeave | CGone | CKilled

record shm =
  segs :: "nat \<Rightarrow> stats"
  mutex :: "int option"
  cpc :: "int \<Rightarrow> cpc"

definition maxClient :: "nat \<Rightarrow> nat" where
  "maxClient pagesize = pagesize div 64 - 1"

definition upd_seg :: "nat \<Rightarrow> (stats \<Rightarrow> stats) \<Rightarrow> shm \<Rightarrow> shm" where
  "upd_seg i f s = s\<lparr>segs := (segs s)(i := f (segs s i))\<rparr>"

definition goto :: "int \<Rightarrow> cpc \<Rightarrow> shm \<Rightarrow> shm" where
  "goto c p s = s\<lparr>cpc := (cpc s)(c := p)\<rparr>"

section \<open>The server (shm_server.c)\<close>

definition shm_init :: "nat \<Rightarrow> (nat \<Rightarrow> stats) \<Rightarrow> shm" where
  "shm_init n page = \<lparr>segs = (\<lambda>i. if 1 \<le> i \<and> i \<le> n then (page i)\<lparr>spid := -1\<rparr> else page i), mutex = None, cpc = (\<lambda>_. CStart)\<rparr>"

text \<open>The lines of one round of the server: pid, birth, elapsed time and string of the clients it finds.\<close>

definition report :: "nat \<Rightarrow> shm \<Rightarrow> stats list" where
  "report n s = filter (\<lambda>x. spid x \<noteq> -1) (map (segs s) [1..<Suc n])"

section \<open>The client (shm_client.c)\<close>

text \<open>The handler: it clears the first segment with the pid of the client; the stores to that segment are one step.\<close>

definition exit_handler :: "nat \<Rightarrow> int \<Rightarrow> shm \<Rightarrow> shm" where
  "exit_handler n c s = (case cpc s c of
     CWait \<Rightarrow> if mutex s = None then goto c (CClear 1) (s\<lparr>mutex := Some c\<rparr>) else s
   | CClear i \<Rightarrow>
       if i > n then goto c CLeave s
       else if spid (segs s i) = c then goto c CLeave (upd_seg i (\<lambda>_. \<lparr>spid = -1, sbirth = [], sclient = [], selapsed_sec = 0, selapsed_usec = 0\<rparr>) s)
       else goto c (CClear (Suc i)) s
   | CLeave \<Rightarrow> goto c CGone (s\<lparr>mutex := None\<rparr>)
   | _ \<Rightarrow> s)"

text \<open>
  \<open>arg\<close> is \<open>argv[1]\<close>, \<open>birth\<close> what \<open>strftime\<close> gives, and \<open>(sec, usec)\<close> the time since the start at this round of the loop.
\<close>

definition client_step :: "nat \<Rightarrow> int \<Rightarrow> string \<Rightarrow> string \<Rightarrow> int \<times> int \<Rightarrow> shm \<Rightarrow> shm" where
  "client_step n c arg birth time s = (case cpc s c of
     CStart \<Rightarrow>
       if length arg > 9 \<or> length arg = 0 then goto c CGone s
       else if mutex s = None then goto c (CScan 1) (s\<lparr>mutex := Some c\<rparr>) else s
   | CScan i \<Rightarrow>
       if i > n then goto c CFull s
       else if spid (segs s i) = -1 then goto c (CName i) (upd_seg i (\<lambda>x. x\<lparr>spid := c\<rparr>) s)
       else goto c (CScan (Suc i)) s
   | CName i \<Rightarrow> goto c (CBirth i) (upd_seg i (\<lambda>x. x\<lparr>sclient := arg\<rparr>) s)
   | CBirth i \<Rightarrow> goto c CUnlock (upd_seg i (\<lambda>x. x\<lparr>sbirth := birth\<rparr>) s)
   | CUnlock \<Rightarrow> goto c CSetup (s\<lparr>mutex := None\<rparr>)
   | CFull \<Rightarrow> goto c CGone (s\<lparr>mutex := None\<rparr>)
   | CSetup \<Rightarrow> goto c CRun s
   | CRun \<Rightarrow> s\<lparr>segs := (\<lambda>i. if 1 \<le> i \<and> i \<le> n \<and> spid (segs s i) = c
       then (segs s i)\<lparr>selapsed_sec := fst time, selapsed_usec := snd time\<rparr> else segs s i)\<rparr>
   | _ \<Rightarrow> exit_handler n c s)"

text \<open>
  SIGINT or SIGTERM. In the handler the signal is blocked; one of the other kind, whose handler would wait for a mutex that
  its own process may hold, is not modelled.
\<close>

definition client_signal :: "int \<Rightarrow> shm \<Rightarrow> shm" where
  "client_signal c s = (case cpc s c of
     CRun \<Rightarrow> goto c CWait s
   | CWait \<Rightarrow> s | CClear i \<Rightarrow> s | CLeave \<Rightarrow> s | CGone \<Rightarrow> s | CKilled \<Rightarrow> s
   | _ \<Rightarrow> goto c CKilled s)"

text \<open>The clients are numbered by their pids; \<open>args\<close> and \<open>births\<close> are their strings.\<close>

inductive shm_step :: "nat \<Rightarrow> (int \<Rightarrow> string) \<Rightarrow> (int \<Rightarrow> string) \<Rightarrow> shm \<Rightarrow> shm \<Rightarrow> bool" for n args births where
  run: "0 < c \<Longrightarrow> shm_step n args births s (client_step n c (args c) (births c) time s)"
| signal: "0 < c \<Longrightarrow> shm_step n args births s (client_signal c s)"

section \<open>The invariant\<close>

definition in_section :: "cpc \<Rightarrow> bool" where
  "in_section p \<longleftrightarrow> (case p of CScan i \<Rightarrow> True | CName i \<Rightarrow> True | CBirth i \<Rightarrow> True | CUnlock \<Rightarrow> True | CFull \<Rightarrow> True
     | CClear i \<Rightarrow> True | CLeave \<Rightarrow> True | _ \<Rightarrow> False)"

text \<open>The segments that a client at \<open>p\<close> may have, and whether it has one for certain.\<close>

definition may_own :: "cpc \<Rightarrow> nat \<Rightarrow> bool" where
  "may_own p i \<longleftrightarrow> (case p of CName j \<Rightarrow> i = j | CBirth j \<Rightarrow> i = j | CUnlock \<Rightarrow> True | CSetup \<Rightarrow> True | CRun \<Rightarrow> True | CWait \<Rightarrow> True
     | CClear j \<Rightarrow> j \<le> i | CKilled \<Rightarrow> True | _ \<Rightarrow> False)"

definition must_own :: "cpc \<Rightarrow> bool" where
  "must_own p \<longleftrightarrow> (case p of CName j \<Rightarrow> True | CBirth j \<Rightarrow> True | CUnlock \<Rightarrow> True | CSetup \<Rightarrow> True | CRun \<Rightarrow> True | CWait \<Rightarrow> True
     | CClear j \<Rightarrow> True | _ \<Rightarrow> False)"

definition has_name :: "cpc \<Rightarrow> bool" where
  "has_name p \<longleftrightarrow> (case p of CUnlock \<Rightarrow> True | CSetup \<Rightarrow> True | CRun \<Rightarrow> True | CWait \<Rightarrow> True | CClear j \<Rightarrow> True | _ \<Rightarrow> False)"

text \<open>What holds of a client \<open>c\<close> at \<open>p\<close>.\<close>

definition client_ok :: "nat \<Rightarrow> (int \<Rightarrow> string) \<Rightarrow> (int \<Rightarrow> string) \<Rightarrow> (nat \<Rightarrow> stats) \<Rightarrow> int option \<Rightarrow> int \<Rightarrow> cpc \<Rightarrow> bool" where
  "client_ok n args births sg mu c p \<longleftrightarrow>
     (in_section p \<longrightarrow> mu = Some c) \<and>
     (c \<noteq> -1 \<longrightarrow> (\<forall>i \<in> {1..n}. spid (sg i) = c \<longrightarrow> may_own p i)) \<and>
     (must_own p \<longrightarrow> (\<exists>i \<in> {1..n}. spid (sg i) = c)) \<and>
     (has_name p \<longrightarrow> (\<forall>i \<in> {1..n}. spid (sg i) = c \<longrightarrow> sclient (sg i) = args c \<and> sbirth (sg i) = births c)) \<and>
     (case p of CScan i \<Rightarrow> 1 \<le> i \<and> i \<le> Suc n \<and> (\<forall>j \<in> {1..<i}. spid (sg j) \<noteq> -1)
      | CName i \<Rightarrow> 1 \<le> i \<and> i \<le> n \<and> spid (sg i) = c
      | CBirth i \<Rightarrow> 1 \<le> i \<and> i \<le> n \<and> spid (sg i) = c \<and> sclient (sg i) = args c
      | CFull \<Rightarrow> \<forall>j \<in> {1..n}. spid (sg j) \<noteq> -1
      | CClear i \<Rightarrow> 1 \<le> i
      | _ \<Rightarrow> True) \<and>
     (p = CStart \<or> p = CGone \<or> p = CKilled \<or> 0 < c \<and> 1 \<le> length (args c) \<and> length (args c) \<le> 9)"

definition one_seg :: "nat \<Rightarrow> (nat \<Rightarrow> stats) \<Rightarrow> bool" where
  "one_seg n sg \<longleftrightarrow> (\<forall>i \<in> {1..n}. \<forall>j \<in> {1..n}. spid (sg i) = spid (sg j) \<and> spid (sg i) \<noteq> -1 \<longrightarrow> i = j)"

definition shm_inv :: "nat \<Rightarrow> (int \<Rightarrow> string) \<Rightarrow> (int \<Rightarrow> string) \<Rightarrow> shm \<Rightarrow> bool" where
  "shm_inv n args births s \<longleftrightarrow> one_seg n (segs s) \<and>
     (\<forall>c. mutex s = Some c \<longrightarrow> in_section (cpc s c) \<or> cpc s c = CKilled) \<and>
     (\<forall>c. client_ok n args births (segs s) (mutex s) c (cpc s c))"

lemma pc_simps [simp]:
  "in_section CStart = False" "in_section (CScan i) = True" "in_section (CName i) = True" "in_section (CBirth i) = True"
  "in_section CUnlock = True" "in_section CFull = True" "in_section CSetup = False" "in_section CRun = False"
  "in_section CWait = False" "in_section (CClear i) = True" "in_section CLeave = True" "in_section CGone = False" "in_section CKilled = False"
  "may_own CStart k = False" "may_own (CScan i) k = False" "may_own (CName i) k = (k = i)" "may_own (CBirth i) k = (k = i)"
  "may_own CUnlock k = True" "may_own CFull k = False" "may_own CSetup k = True" "may_own CRun k = True"
  "may_own CWait k = True" "may_own (CClear i) k = (i \<le> k)" "may_own CLeave k = False" "may_own CGone k = False" "may_own CKilled k = True"
  "must_own CStart = False" "must_own (CScan i) = False" "must_own (CName i) = True" "must_own (CBirth i) = True"
  "must_own CUnlock = True" "must_own CFull = False" "must_own CSetup = True" "must_own CRun = True"
  "must_own CWait = True" "must_own (CClear i) = True" "must_own CLeave = False" "must_own CGone = False" "must_own CKilled = False"
  "has_name CStart = False" "has_name (CScan i) = False" "has_name (CName i) = False" "has_name (CBirth i) = False"
  "has_name CUnlock = True" "has_name CFull = False" "has_name CSetup = True" "has_name CRun = True"
  "has_name CWait = True" "has_name (CClear i) = True" "has_name CLeave = False" "has_name CGone = False" "has_name CKilled = False"
  by (simp_all add: in_section_def may_own_def must_own_def has_name_def)

lemma shm_init_inv: "shm_inv n args births (shm_init n page)"
  by (simp add: shm_inv_def shm_init_def one_seg_def client_ok_def)

text \<open>A client that changes neither a segment nor the mutex.\<close>

lemma goto_inv:
  assumes "shm_inv n args births s" "client_ok n args births (segs s) (mutex s) c p"
    and "in_section (cpc s c) \<or> cpc s c = CKilled \<longrightarrow> in_section p \<or> p = CKilled"
  shows "shm_inv n args births (goto c p s)"
  using assms by (auto simp: shm_inv_def goto_def)

text \<open>One that changes them when no other is in the section.\<close>

lemma client_ok_other:
  assumes "client_ok n args births sg mu d p" "\<not> in_section p"
    and "\<forall>i \<in> {1..n}. (spid (sg' i) = d \<longleftrightarrow> spid (sg i) = d) \<and> (spid (sg i) = d \<longrightarrow> sclient (sg' i) = sclient (sg i) \<and> sbirth (sg' i) = sbirth (sg i))"
  shows "client_ok n args births sg' mu' d p"
  using assms by (cases p) (auto simp: client_ok_def)

lemma change_inv:
  assumes "shm_inv n args births s" "mutex s = None \<or> mutex s = Some c" "mu = None \<or> mu = Some c"
    and "client_ok n args births sg mu c p" "one_seg n sg" "mu = Some c \<longrightarrow> in_section p \<or> p = CKilled"
    and "\<forall>i \<in> {1..n}. \<forall>d. d \<noteq> c \<and> d \<noteq> -1 \<longrightarrow> (spid (sg i) = d \<longleftrightarrow> spid (segs s i) = d) \<and>
      (spid (segs s i) = d \<longrightarrow> sclient (sg i) = sclient (segs s i) \<and> sbirth (sg i) = sbirth (segs s i))"
  shows "shm_inv n args births (goto c p (s\<lparr>segs := sg, mutex := mu\<rparr>))"
proof -
  have "client_ok n args births sg mu d (cpc s d)" if d: "d \<noteq> c" for d
  proof -
    have ok: "client_ok n args births (segs s) (mutex s) d (cpc s d)" using assms(1) by (simp add: shm_inv_def)
    then have ns: "\<not> in_section (cpc s d)" using assms(2) d by (auto simp: client_ok_def)
    show ?thesis
    proof (cases "d = -1")
      case False
      then show ?thesis using assms(7) d by (intro client_ok_other [OF ok ns]) blast
    next
      case True
      then show ?thesis using ok ns by (cases "cpc s d") (auto simp: client_ok_def)
    qed
  qed
  then show ?thesis using assms(3-6) by (auto simp: shm_inv_def goto_def)
qed

lemma killed_inv: "shm_inv n args births s \<Longrightarrow> shm_inv n args births (goto c CKilled s)"
  by (rule goto_inv) (simp_all add: client_ok_def)

lemma signal_inv:
  assumes "shm_inv n args births s"
  shows "shm_inv n args births (client_signal c s)"
proof (cases "cpc s c = CRun")
  case True
  have "client_ok n args births (segs s) (mutex s) c (cpc s c)" using assms by (simp add: shm_inv_def)
  then have "client_ok n args births (segs s) (mutex s) c CWait" by (simp add: True client_ok_def)
  then have "shm_inv n args births (goto c CWait s)" by (rule goto_inv [OF assms]) (simp add: True)
  then show ?thesis by (simp add: client_signal_def True)
next
  case False
  then have "client_signal c s = s \<or> client_signal c s = goto c CKilled s" by (cases "cpc s c") (simp_all add: client_signal_def)
  then show ?thesis by (elim disjE) (simp_all add: assms killed_inv)
qed

lemma one_segD: "one_seg n sg \<Longrightarrow> i \<in> {1..n} \<Longrightarrow> j \<in> {1..n} \<Longrightarrow> spid (sg i) = spid (sg j) \<Longrightarrow> spid (sg i) \<noteq> -1 \<Longrightarrow> i = j"
  unfolding one_seg_def by blast

lemma lock_inv:
  assumes "shm_inv n args births s" "mutex s = None" "0 < c" "client_ok n args births (segs s) (Some c) c p" "in_section p"
  shows "shm_inv n args births (goto c p (s\<lparr>mutex := Some c\<rparr>))"
  using change_inv [OF assms(1), of c "Some c" "segs s" p] assms by (simp add: shm_inv_def)

lemma unlock_inv:
  assumes "shm_inv n args births s" "in_section (cpc s c)" "client_ok n args births (segs s) None c p"
  shows "shm_inv n args births (goto c p (s\<lparr>mutex := None\<rparr>))"
proof -
  have "mutex s = Some c" using assms(1,2) by (simp add: shm_inv_def client_ok_def)
  then show ?thesis using change_inv [OF assms(1), of c None "segs s" p] assms by (simp add: shm_inv_def)
qed

lemma seg_inv:
  assumes "shm_inv n args births s" "in_section (cpc s c)" "in_section p"
    and "client_ok n args births ((segs s)(i := x)) (mutex s) c p" "one_seg n ((segs s)(i := x))"
    and "spid (segs s i) \<in> {c, -1}" "spid x \<in> {c, -1}"
  shows "shm_inv n args births (goto c p (s\<lparr>segs := (segs s)(i := x)\<rparr>))"
proof -
  have m: "mutex s = Some c" using assms(1,2) by (simp add: shm_inv_def client_ok_def)
  then have "shm_inv n args births (goto c p (s\<lparr>segs := (segs s)(i := x), mutex := Some c\<rparr>))"
    using assms(3-7) by (intro change_inv [OF assms(1)]) auto
  moreover have "s\<lparr>segs := (segs s)(i := x), mutex := Some c\<rparr> = s\<lparr>segs := (segs s)(i := x)\<rparr>" using m by simp
  ultimately show ?thesis by simp
qed

lemma step_inv:
  assumes "shm_inv n args births s" "0 < c"
  shows "shm_inv n args births (client_step n c (args c) (births c) time s)"
proof -
  have ok: "client_ok n args births (segs s) (mutex s) c (cpc s c)" and one: "one_seg n (segs s)" using assms(1) by (simp_all add: shm_inv_def)
  show ?thesis
  proof (cases "cpc s c")
    case CStart
    then show ?thesis using ok assms
      by (cases "args c") (auto simp: client_step_def client_ok_def intro!: goto_inv [OF assms(1)] lock_inv [OF assms(1)])
  next
    case (CScan i)
    note k = ok [unfolded CScan]
    have in_s: "in_section (cpc s c)" by (simp add: CScan)
    show ?thesis
    proof (cases "i > n")
      case True
      have "client_ok n args births (segs s) (mutex s) c CFull" using k True by (auto simp: client_ok_def)
      from goto_inv [OF assms(1) this] show ?thesis by (simp add: client_step_def CScan True)
    next
      case False
      show ?thesis
      proof (cases "spid (segs s i) = -1")
        case True
        let ?x = "(segs s i)\<lparr>spid := c\<rparr>"
        have i: "1 \<le> i" "i \<le> n" using k False by (simp_all add: client_ok_def)
        have none: "\<forall>j \<in> {1..n}. spid (segs s j) \<noteq> c" using k assms(2) by (simp add: client_ok_def)
        have "client_ok n args births ((segs s)(i := ?x)) (mutex s) c (CName i)"
          using k i none unfolding client_ok_def by (simp del: atLeastAtMost_iff) (metis atLeastAtMost_iff)
        moreover have "one_seg n ((segs s)(i := ?x))" unfolding one_seg_def
        proof (intro ballI impI)
          fix a b assume ab: "a \<in> {1..n}" "b \<in> {1..n}"
            "spid (((segs s)(i := ?x)) a) = spid (((segs s)(i := ?x)) b) \<and> spid (((segs s)(i := ?x)) a) \<noteq> -1"
          have "spid (segs s a) \<noteq> c" "spid (segs s b) \<noteq> c" using none ab(1,2) by blast+
          then show "a = b" using ab(3) one_segD [OF one ab(1,2)] by (simp split: if_splits)
        qed
        ultimately have "shm_inv n args births (goto c (CName i) (s\<lparr>segs := (segs s)(i := ?x)\<rparr>))"
          using True by (intro seg_inv [OF assms(1) in_s]) simp_all
        then show ?thesis using True False by (simp add: client_step_def CScan upd_seg_def)
      next
        case f: False
        have "client_ok n args births (segs s) (mutex s) c (CScan (Suc i))"
          using k False f by (auto simp: client_ok_def less_Suc_eq)
        from goto_inv [OF assms(1) this] show ?thesis using False f by (simp add: client_step_def CScan)
      qed
    qed
  next
    case (CName i)
    note k = ok [unfolded CName]
    let ?x = "(segs s i)\<lparr>sclient := args c\<rparr>"
    have i: "spid (segs s i) = c" using k by (simp add: client_ok_def)
    have sp: "spid (((segs s)(i := ?x)) j) = spid (segs s j)" for j by simp
    have "sclient (((segs s)(i := ?x)) i) = args c" by simp
    then have "client_ok n args births ((segs s)(i := ?x)) (mutex s) c (CBirth i)"
      using k unfolding client_ok_def sp by simp
    moreover have "one_seg n ((segs s)(i := ?x))" using one unfolding one_seg_def sp .
    ultimately have "shm_inv n args births (goto c (CBirth i) (s\<lparr>segs := (segs s)(i := ?x)\<rparr>))"
      using i by (intro seg_inv [OF assms(1)]) (simp_all add: CName)
    then show ?thesis by (simp add: client_step_def CName upd_seg_def)
  next
    case (CBirth i)
    note k = ok [unfolded CBirth]
    let ?x = "(segs s i)\<lparr>sbirth := births c\<rparr>"
    have i: "spid (segs s i) = c" "sclient (segs s i) = args c" using k by (simp_all add: client_ok_def)
    have "\<forall>j \<in> {1..n}. spid (segs s j) = c \<longrightarrow> j = i" using k assms(2) by (simp add: client_ok_def)
    then have "\<forall>j \<in> {1..n}. spid (segs s j) = c \<longrightarrow> sclient (((segs s)(i := ?x)) j) = args c \<and> sbirth (((segs s)(i := ?x)) j) = births c"
    proof (intro ballI impI)
      fix j assume "j \<in> {1..n}" "spid (segs s j) = c"
      then have "j = i" using \<open>\<forall>j \<in> {1..n}. spid (segs s j) = c \<longrightarrow> j = i\<close> by blast
      then show "sclient (((segs s)(i := ?x)) j) = args c \<and> sbirth (((segs s)(i := ?x)) j) = births c" using i(2) by simp
    qed
    moreover have sp: "spid (((segs s)(i := ?x)) j) = spid (segs s j)" for j by simp
    ultimately have "client_ok n args births ((segs s)(i := ?x)) (mutex s) c CUnlock"
      using k unfolding client_ok_def sp by simp
    moreover have "one_seg n ((segs s)(i := ?x))" using one unfolding one_seg_def sp .
    ultimately have "shm_inv n args births (goto c CUnlock (s\<lparr>segs := (segs s)(i := ?x)\<rparr>))"
      using i by (intro seg_inv [OF assms(1)]) (simp_all add: CBirth)
    then show ?thesis by (simp add: client_step_def CBirth upd_seg_def)
  next
    case CUnlock
    have "client_ok n args births (segs s) None c CSetup" using ok [unfolded CUnlock] by (simp add: client_ok_def)
    from unlock_inv [OF assms(1) _ this] show ?thesis by (simp add: client_step_def CUnlock)
  next
    case CFull
    have "client_ok n args births (segs s) None c CGone" using ok [unfolded CFull] by (simp add: client_ok_def)
    from unlock_inv [OF assms(1) _ this] show ?thesis by (simp add: client_step_def CFull)
  next
    case CSetup
    have "client_ok n args births (segs s) (mutex s) c CRun" using ok [unfolded CSetup] by (simp add: client_ok_def)
    from goto_inv [OF assms(1) this] show ?thesis by (simp add: client_step_def CSetup)
  next
    case CRun
    let ?sg = "\<lambda>i. if 1 \<le> i \<and> i \<le> n \<and> spid (segs s i) = c
       then (segs s i)\<lparr>selapsed_sec := fst time, selapsed_usec := snd time\<rparr> else segs s i"
    have same: "spid (?sg i) = spid (segs s i)" "sclient (?sg i) = sclient (segs s i)" "sbirth (?sg i) = sbirth (segs s i)" for i by simp_all
    have "client_ok n args births ?sg mu d p = client_ok n args births (segs s) mu d p" for mu d p
      unfolding client_ok_def same ..
    moreover have "one_seg n ?sg = one_seg n (segs s)" unfolding one_seg_def same ..
    ultimately have "shm_inv n args births (s\<lparr>segs := ?sg\<rparr>)" using assms(1) unfolding shm_inv_def by simp
    then show ?thesis by (simp add: client_step_def CRun)
  next
    case CWait
    have "client_ok n args births (segs s) (Some c) c (CClear 1)" using ok [unfolded CWait] by (simp add: client_ok_def)
    from lock_inv [OF assms(1) _ assms(2) this] show ?thesis by (simp add: client_step_def exit_handler_def CWait assms(1))
  next
    case (CClear i)
    note k = ok [unfolded CClear]
    have in_s: "in_section (cpc s c)" by (simp add: CClear)
    obtain j where j: "j \<in> {1..n}" "spid (segs s j) = c" "i \<le> j" using k assms(2) by (auto simp: client_ok_def)
    have only: "l = j" if "l \<in> {1..n}" "spid (segs s l) = c" for l
      using one_segD [OF one that(1) j(1)] that(2) j(2) assms(2) by simp
    have ni: "\<not> i > n" using j by simp
    show ?thesis
    proof (cases "spid (segs s i) = c")
      case True
      let ?x = "\<lparr>spid = -1, sbirth = [], sclient = [], selapsed_sec = 0, selapsed_usec = 0\<rparr>"
      have "1 \<le> i" using k by (simp add: client_ok_def)
      then have "i = j" using only [of i] True ni by simp
      then have "\<forall>l \<in> {1..n}. spid (((segs s)(i := ?x)) l) \<noteq> c" using only assms(2) by auto
      then have "client_ok n args births ((segs s)(i := ?x)) (mutex s) c CLeave" using k by (simp add: client_ok_def)
      moreover have "one_seg n ((segs s)(i := ?x))" unfolding one_seg_def
      proof (intro ballI impI)
        fix a b assume ab: "a \<in> {1..n}" "b \<in> {1..n}"
          "spid (((segs s)(i := ?x)) a) = spid (((segs s)(i := ?x)) b) \<and> spid (((segs s)(i := ?x)) a) \<noteq> -1"
        then show "a = b" using one_segD [OF one ab(1,2)] by (simp split: if_splits)
      qed
      ultimately have "shm_inv n args births (goto c CLeave (s\<lparr>segs := (segs s)(i := ?x)\<rparr>))"
        using True by (intro seg_inv [OF assms(1) in_s]) simp_all
      then show ?thesis using True ni by (simp add: client_step_def exit_handler_def CClear upd_seg_def)
    next
      case False
      have "\<forall>l \<in> {1..n}. spid (segs s l) = c \<longrightarrow> Suc i \<le> l"
      proof (intro ballI impI)
        fix l assume "l \<in> {1..n}" "spid (segs s l) = c"
        then have "l = j" by (rule only)
        then show "Suc i \<le> l" using j(2,3) False by (cases "i = j") simp_all
      qed
      then have "client_ok n args births (segs s) (mutex s) c (CClear (Suc i))"
        using k unfolding client_ok_def by simp
      from goto_inv [OF assms(1) this] show ?thesis using False ni by (simp add: client_step_def exit_handler_def CClear)
    qed
  next
    case CLeave
    have "client_ok n args births (segs s) None c CGone" using ok [unfolded CLeave] by (simp add: client_ok_def)
    from unlock_inv [OF assms(1) _ this] show ?thesis by (simp add: client_step_def exit_handler_def CLeave)
  qed (simp_all add: client_step_def exit_handler_def assms(1))
qed

section \<open>Properties\<close>

lemma reachable_inv: "(shm_step n args births)\<^sup>*\<^sup>* (shm_init n page) s \<Longrightarrow> shm_inv n args births s"
proof (induction rule: rtranclp_induct)
  case base
  show ?case by (rule shm_init_inv)
next
  case (step s s')
  from step.hyps(2) show ?case using step_inv signal_inv step.IH by cases blast+
qed

text \<open>
  C5. The segments of the shared page, whatever the order of the steps of the clients and of the signals: two segments never
  have the same client; a client past its registration and not yet in \<open>exit_handler\<close>'s critical section has exactly one,
  with its own strings, which fit their fields; so the server lists every such client once, and lists no one else but clients that
  are registering, that a signal has killed before they had a handler, or that are about to clear their segment; two clients are never inside the
  critical section; and a client gives up only while every segment is taken.
\<close>

theorem shm_segments:
  assumes "(shm_step n args births)\<^sup>*\<^sup>* (shm_init n page) s"
  shows "(\<forall>i \<in> {1..n}. \<forall>j \<in> {1..n}. spid (segs s i) = spid (segs s j) \<and> spid (segs s i) \<noteq> -1 \<longrightarrow> i = j) \<and>
    (\<forall>c. cpc s c \<in> {CUnlock, CSetup, CRun, CWait} \<longrightarrow>
       (\<exists>!i. i \<in> {1..n} \<and> spid (segs s i) = c) \<and> length (args c) \<le> 9 \<and>
       (\<exists>x \<in> set (report n s). spid x = c \<and> sclient x = args c \<and> sbirth x = births c)) \<and>
    (\<forall>x \<in> set (report n s). cpc s (spid x) \<in> {CUnlock, CSetup, CRun, CWait, CKilled} \<or>
       (\<exists>i. cpc s (spid x) \<in> {CName i, CBirth i, CClear i})) \<and>
    (\<forall>c d. in_section (cpc s c) \<and> in_section (cpc s d) \<longrightarrow> c = d) \<and>
    (\<forall>c. cpc s c = CFull \<longrightarrow> (\<forall>i \<in> {1..n}. spid (segs s i) \<noteq> -1))"
proof -
  have inv: "shm_inv n args births s" by (rule reachable_inv [OF assms])
  have one: "one_seg n (segs s)" and ok: "client_ok n args births (segs s) (mutex s) c (cpc s c)" for c
    using inv by (simp_all add: shm_inv_def)
  have rep: "x \<in> set (report n s) \<longleftrightarrow> (\<exists>i \<in> {1..n}. x = segs s i \<and> spid x \<noteq> -1)" for x
  proof -
    have "set [1..<Suc n] = {1..n}" by auto
    then have "set (report n s) = {y \<in> segs s ` {1..n}. spid y \<noteq> -1}" unfolding report_def by (simp only: set_filter set_map)
    then show ?thesis by blast
  qed
  have registered: "(\<exists>!i. i \<in> {1..n} \<and> spid (segs s i) = c) \<and> length (args c) \<le> 9 \<and>
      (\<exists>x \<in> set (report n s). spid x = c \<and> sclient x = args c \<and> sbirth x = births c)"
    if p: "cpc s c \<in> {CUnlock, CSetup, CRun, CWait}" for c
  proof -
    have o: "must_own (cpc s c)" "has_name (cpc s c)" "cpc s c \<noteq> CStart" "cpc s c \<noteq> CGone" "cpc s c \<noteq> CKilled" using p by auto
    have c: "0 < c" "length (args c) \<le> 9" using ok [of c] o(3-5) unfolding client_ok_def by blast+
    obtain i where i: "i \<in> {1..n}" "spid (segs s i) = c" using ok [of c] o(1) unfolding client_ok_def by blast
    have n: "sclient (segs s i) = args c" "sbirth (segs s i) = births c" using ok [of c] o(2) i unfolding client_ok_def by blast+
    have "\<exists>!i. i \<in> {1..n} \<and> spid (segs s i) = c"
    proof (rule ex1I [of _ i])
      fix j assume j: "j \<in> {1..n} \<and> spid (segs s j) = c"
      show "j = i" by (rule one_segD [OF one]) (use i j c(1) in auto)
    qed (use i in blast)
    moreover have "segs s i \<in> set (report n s)" using rep i c(1) by fastforce
    ultimately show ?thesis using i(2) n c(2) by blast
  qed
  have listed: "cpc s (spid x) \<in> {CUnlock, CSetup, CRun, CWait, CKilled} \<or> (\<exists>i. cpc s (spid x) \<in> {CName i, CBirth i, CClear i})"
    if "x \<in> set (report n s)" for x
  proof -
    obtain i where i: "i \<in> {1..n}" "x = segs s i" "spid x \<noteq> -1" using rep \<open>x \<in> set (report n s)\<close> by blast
    have "may_own (cpc s (spid x)) i" using ok [of "spid x"] i unfolding client_ok_def by blast
    then show ?thesis by (cases "cpc s (spid x)") simp_all
  qed
  have excl: "c = d" if "in_section (cpc s c)" "in_section (cpc s d)" for c d
  proof -
    have "mutex s = Some c" "mutex s = Some d" using ok [of c] ok [of d] that unfolding client_ok_def by blast+
    then show ?thesis by simp
  qed
  have full: "\<forall>i \<in> {1..n}. spid (segs s i) \<noteq> -1" if "cpc s c = CFull" for c
    using ok [of c] unfolding that by (simp add: client_ok_def)
  show ?thesis using one registered listed excl full unfolding one_seg_def by blast
qed

lemma run_steps:
  assumes "(shm_step n args births)\<^sup>*\<^sup>* s0 s" "0 < c"
  shows "(shm_step n args births)\<^sup>*\<^sup>* s0 (client_step n c (args c) (births c) time s)"
  using assms(1) by (rule rtranclp.rtrancl_into_rtrancl) (rule shm_step.run [OF assms(2)])

text \<open>Client 7 registers in a page with one segment.\<close>

definition demo_page :: "nat \<Rightarrow> stats" where
  "demo_page i = \<lparr>spid = 0, sbirth = [], sclient = [], selapsed_sec = 0, selapsed_usec = 0\<rparr>"

fun client_steps :: "nat \<Rightarrow> int \<Rightarrow> string \<Rightarrow> string \<Rightarrow> nat \<Rightarrow> shm \<Rightarrow> shm" where
  "client_steps n c arg birth 0 s = s"
| "client_steps n c arg birth (Suc k) s = client_steps n c arg birth k (client_step n c arg birth (0, 0) s)"

lemma client_steps_reach:
  assumes "(shm_step n args births)\<^sup>*\<^sup>* s0 s" "0 < c"
  shows "(shm_step n args births)\<^sup>*\<^sup>* s0 (client_steps n c (args c) (births c) k s)"
  using assms(1) by (induction k arbitrary: s) (simp_all add: run_steps [OF _ assms(2)])

lemma shm_segments_witness:
  "report 1 (client_steps 1 7 ''alpha'' ''Mon'' 6 (shm_init 1 demo_page)) =
     [\<lparr>spid = 7, sbirth = ''Mon'', sclient = ''alpha'', selapsed_sec = 0, selapsed_usec = 0\<rparr>] \<and>
   (\<exists>!i. i \<in> {1..1} \<and> spid (segs (client_steps 1 7 ''alpha'' ''Mon'' 6 (shm_init 1 demo_page)) i) = 7)"
proof -
  let ?s = "client_steps 1 7 ''alpha'' ''Mon'' 6 (shm_init 1 demo_page)"
  have e: "report 1 ?s = [\<lparr>spid = 7, sbirth = ''Mon'', sclient = ''alpha'', selapsed_sec = 0, selapsed_usec = 0\<rparr>]" "cpc ?s 7 = CRun"
    by code_simp+
  have "(shm_step 1 (\<lambda>_. ''alpha'') (\<lambda>_. ''Mon''))\<^sup>*\<^sup>* (shm_init 1 demo_page) ?s"
    using client_steps_reach [OF rtranclp.rtrancl_refl, of 7 1 "\<lambda>_. ''alpha''" "\<lambda>_. ''Mon''"] by simp
  from shm_segments [OF this] e(2) have "\<exists>!i. i \<in> {1..1} \<and> spid (segs ?s i) = 7" by blast
  then show ?thesis using e(1) by blast
qed

text \<open>
  A client that is killed after it has entered its pid and before it has its signal handlers keeps the segment for ever; killed inside the
  critical section, it keeps the mutex too, and no client can register any more.
\<close>

lemma killed_client_blocks:
  assumes "shm_inv n args births s" "mutex s = Some c" "cpc s c = CKilled" "shm_step n args births s s'"
  shows "mutex s' = Some c \<and> cpc s' c = CKilled \<and> (\<forall>d. cpc s d = CStart \<longrightarrow> cpc s' d \<in> {CStart, CGone, CKilled})"
proof -
  have ns: "\<not> in_section (cpc s d)" for d
  proof
    assume "in_section (cpc s d)"
    moreover have "client_ok n args births (segs s) (mutex s) d (cpc s d)" using assms(1) by (simp add: shm_inv_def)
    ultimately have "mutex s = Some d" by (simp add: client_ok_def)
    then show False using \<open>in_section (cpc s d)\<close> assms(2,3) by simp
  qed
  from assms(4) show ?thesis
  proof cases
    case (run d time)
    then show ?thesis using ns [of d] assms(2,3) by (cases "cpc s d") (auto simp: client_step_def exit_handler_def goto_def)
  next
    case (signal d)
    then show ?thesis using ns [of d] assms(2,3) by (cases "cpc s d") (auto simp: client_signal_def goto_def)
  qed
qed

end
