(* ===== verification/Shuffle.thy ===== *)
theory Shuffle imports Prelude begin

text \<open>
  System call of xv6/problem1-1/shuffle.c: the lines of a file in the order first, last, second, last but one, and so on.
  \<open>rd\<close> is the memory from \<open>readtotal\<close> on, the bytes of the file and what follows the block in memory: the code measures the text
  with \<open>strlen\<close>, although nothing terminates it. An access outside of a block is a \<open>Fault\<close>.
\<close>

abbreviation newl :: char where "newl \<equiv> CHR 0x0A"
abbreviation nul :: char where "nul \<equiv> CHR 0x00"

definition strlen_in :: "string \<Rightarrow> nat res" where
  "strlen_in b = (if nul \<in> set b then Inr (length (takeWhile (\<lambda>c. c \<noteq> nul) b)) else Inl (Fault ''strlen''))"

text \<open>\<open>while(readtotal[curcount]!='\n')\<close>, upwards and downwards.\<close>

function scan_up :: "string \<Rightarrow> int \<Rightarrow> int res" where
  "scan_up rd k = (if k < 0 \<or> int (length rd) \<le> k then Inl (Fault ''readtotal'')
     else if rd ! nat k = newl then Inr k else scan_up rd (k + 1))"
  by pat_completeness auto
termination by (relation "measure (\<lambda>(rd, k). nat (int (length rd) - k))") auto

function scan_down :: "string \<Rightarrow> int \<Rightarrow> int res" where
  "scan_down rd k = (if k < 0 \<or> int (length rd) \<le> k then Inl (Fault ''readtotal'')
     else if rd ! nat k = newl then Inr k else scan_down rd (k - 1))"
  by pat_completeness auto
termination by (relation "measure (\<lambda>(rd, k). nat (k + 1))") auto

declare scan_up.simps [simp del] scan_down.simps [simp del]

lemma scan_up_le: "scan_up rd k = Inr m \<Longrightarrow> k \<le> m"
proof (induction rd k rule: scan_up.induct)
  case (1 rd k)
  then show ?case by (cases "rd ! nat k = newl") (auto simp: scan_up.simps [of rd k] split: if_splits)
qed

lemma scan_down_le: "scan_down rd k = Inr m \<Longrightarrow> m \<le> k"
proof (induction rd k rule: scan_down.induct)
  case (1 rd k)
  then show ?case by (cases "rd ! nat k = newl") (auto simp: scan_down.simps [of rd k] split: if_splits)
qed

text \<open>
  The block \<open>change\<close> of 512 bytes: the line \<open>rd[a..b]\<close> is copied to its start, written up to the first zero byte, and that part
  cleared. The result is what is written and the block; \<open>fwrite\<close> of nothing ends the program (none).
\<close>

definition write_line :: "string \<Rightarrow> int \<Rightarrow> int \<Rightarrow> string \<Rightarrow> (string \<times> string) option res" where
  "write_line rd a b change =
     (let n = nat (b - a + 1); change = take n (drop (nat a) rd) @ drop n change in
      if 512 < n then Inl (Fault ''change'')
      else kbind (strlen_in change) (\<lambda>m.
        if m = 0 then Inr None else Inr (Some (take m change, replicate m nul @ drop m change))))"

function shuffle :: "string \<Rightarrow> string \<Rightarrow> bool \<Rightarrow> int \<Rightarrow> int \<Rightarrow> string \<Rightarrow> string res" where
  "shuffle rd change turn i j out =
     (if j < i then Inr out
      else if turn then
        (case scan_up rd i of Inl e \<Rightarrow> Inl e
         | Inr cur \<Rightarrow> (case write_line rd i cur change of Inl e \<Rightarrow> Inl e
           | Inr None \<Rightarrow> Inr out
           | Inr (Some (w, change)) \<Rightarrow> shuffle rd change False (cur + 1) j (out @ w)))
      else
        (case scan_down rd (j - 1) of Inl e \<Rightarrow> Inl e
         | Inr p \<Rightarrow> (case write_line rd (p + 1) j change of Inl e \<Rightarrow> Inl e
           | Inr None \<Rightarrow> Inr out
           | Inr (Some (w, change)) \<Rightarrow> shuffle rd change True i (p + 1 - 1) (out @ w))))"
  by pat_completeness auto
termination
  by (relation "measure (\<lambda>(rd, change, turn, i, j, out). nat (j + 1 - i))") (auto dest!: scan_up_le scan_down_le)

declare shuffle.simps [simp del]

text \<open>The output file for the text of an input file; \<open>after\<close> and \<open>change\<close> are the contents of memory that nothing has initialised.\<close>

definition shuffle_main :: "string \<Rightarrow> string \<Rightarrow> string \<Rightarrow> string res" where
  "shuffle_main txt after change = kbind (strlen_in (txt @ after)) (\<lambda>n. shuffle (txt @ after) change True 0 (int n - 1) [])"

section \<open>The order of the lines\<close>

function alternate :: "'a list \<Rightarrow> 'a list" where
  "alternate [] = []"
| "alternate (x # xs) = x # alternate (rev xs)"
  by pat_completeness auto
termination by (relation "measure length") auto

definition unlines :: "string list \<Rightarrow> string" where
  "unlines ls = concat (map (\<lambda>l. l @ [newl]) ls)"

definition text_line :: "string \<Rightarrow> bool" where
  "text_line l \<longleftrightarrow> newl \<notin> set l \<and> nul \<notin> set l \<and> length l < 511"


section \<open>The walks find the ends of lines\<close>

lemma scan_up_line:
  "newl \<notin> set l \<Longrightarrow> scan_up (p @ l @ newl # q) (int (length p)) = Inr (int (length p + length l))"
proof (induction l arbitrary: p)
  case Nil
  then show ?case by (simp add: scan_up.simps)
next
  case (Cons c l)
  have "scan_up (p @ (c # l) @ newl # q) (int (length p)) = scan_up ((p @ [c]) @ l @ newl # q) (int (length (p @ [c])))"
    using Cons.prems by (subst scan_up.simps) (auto simp: algebra_simps)
  also have "\<dots> = Inr (int (length (p @ [c]) + length l))" using Cons by (intro Cons.IH) simp
  finally show ?case by simp
qed

lemma scan_down_line:
  "newl \<notin> set l \<Longrightarrow> scan_down (p @ newl # l @ q) (int (length p + length l)) = Inr (int (length p))"
proof (induction l arbitrary: q rule: rev_induct)
  case Nil
  then show ?case by (simp add: scan_down.simps)
next
  case (snoc c l)
  have "scan_down (p @ newl # (l @ [c]) @ q) (int (length p + length (l @ [c]))) = scan_down (p @ newl # l @ (c # q)) (int (length p + length l))"
    using snoc.prems by (subst scan_down.simps) (auto simp: nth_append nat_add_distrib)
  then show ?case using snoc by simp
qed

lemma unlines_simps [simp]:
  "unlines [] = []" "unlines (l # ls) = l @ newl # unlines ls" "unlines (ls @ ks) = unlines ls @ unlines ks"
  by (simp_all add: unlines_def)

lemma strlen_in_text: "nul \<notin> set t \<Longrightarrow> strlen_in (t @ nul # q) = Inr (length t)"
proof -
  assume "nul \<notin> set t"
  then have "takeWhile (\<lambda>c. c \<noteq> nul) (t @ nul # q) = t" by (induction t) auto
  then show ?thesis by (simp add: strlen_in_def)
qed

lemma write_line_text:
  assumes "text_line l" "a = int (length p)" "b = int (length p + length l)"
  shows "write_line (p @ l @ newl # q) a b (replicate 512 nul) = Inr (Some (l @ [newl], replicate 512 nul))"
proof -
  have n: "nat (b - a + 1) = Suc (length l)" using assms by simp
  have t: "take (Suc (length l)) (drop (nat a) (p @ l @ newl # q)) = l @ [newl]" using assms by simp
  have "replicate (512 - Suc (length l)) nul = nul # replicate (511 - Suc (length l)) nul"
  proof -
    have "512 - Suc (length l) = Suc (511 - Suc (length l))" using assms(1) by (auto simp: text_line_def)
    then show ?thesis by simp
  qed
  then have "strlen_in ((l @ [newl]) @ drop (Suc (length l)) (replicate 512 nul)) = Inr (Suc (length l))"
    using assms(1) strlen_in_text [of "l @ [newl]"] by (simp add: text_line_def)
  then show ?thesis unfolding write_line_def Let_def n t kbind_def
    using assms(1) replicate_Suc [of 511 nul] by (simp add: text_line_def flip: replicate_add)
qed

lemma shuffle_lines:
  assumes "list_all text_line ls" "turn \<or> (\<exists>p'. p = p' @ [newl])" "j = int (length p + length (unlines ls)) - 1"
  shows "shuffle (p @ unlines ls @ q) (replicate 512 nul) turn (int (length p)) j out =
    Inr (out @ unlines (alternate (if turn then ls else rev ls)))"
  using assms
proof (induction ls arbitrary: p q turn j out rule: length_induct)
  case (1 ls)
  show ?case
  proof (cases "ls = []")
    case True
    then show ?thesis using 1 by (subst shuffle.simps) simp
  next
    case ne: False
    show ?thesis
    proof (cases turn)
      case True
      obtain l ks where ls: "ls = l # ks" using ne by (cases ls) auto
      let ?rd = "p @ unlines ls @ q"
      have rd: "?rd = p @ l @ newl # (unlines ks @ q)" "?rd = (p @ l @ [newl]) @ unlines ks @ q" by (simp_all add: ls)
      have l: "text_line l" "list_all text_line ks" using 1(2) by (simp_all add: ls)
      then have nl: "newl \<notin> set l" by (simp add: text_line_def)
      have up: "scan_up ?rd (int (length p)) = Inr (int (length p + length l))"
        unfolding rd(1) by (rule scan_up_line [OF nl])
      have w: "write_line ?rd (int (length p)) (int (length p + length l)) (replicate 512 nul) =
          Inr (Some (l @ [newl], replicate 512 nul))"
        unfolding rd(1) by (rule write_line_text [OF l(1) refl refl])
      have "shuffle ?rd (replicate 512 nul) False (int (length (p @ l @ [newl]))) j (out @ l @ [newl]) =
          Inr ((out @ l @ [newl]) @ unlines (alternate (rev ks)))"
        unfolding rd(2) using 1(1) [rule_format, of ks False "p @ l @ [newl]" j q "out @ l @ [newl]"] l(2) 1(4)
        by (simp add: ls)
      moreover have "\<not> j < int (length p)" using 1(4) by (simp add: ls)
      ultimately show ?thesis using True up w
        by (subst shuffle.simps) (simp add: ls algebra_simps)
    next
      case False
      obtain l ks where ls: "ls = ks @ [l]" using ne by (cases ls rule: rev_cases) auto
      obtain p' where p: "p = p' @ [newl]" using 1(3) False by auto
      let ?rd = "p @ unlines ls @ q"
      obtain h where h: "p @ unlines ks = h @ [newl]"
      proof (cases ks rule: rev_cases)
        case Nil
        then show thesis using that p by simp
      next
        case (snoc xs x)
        then show thesis using that [of "p @ unlines xs @ x"] by simp
      qed
      have rd: "?rd = h @ newl # l @ newl # q" "?rd = (h @ [newl]) @ l @ newl # q" "?rd = p @ unlines ks @ (l @ newl # q)"
        using h by (simp_all add: ls flip: append_assoc)
      have l: "text_line l" "list_all text_line ks" using 1(2) by (simp_all add: ls)
      then have nl: "newl \<notin> set l" by (simp add: text_line_def)
      have hl: "length p + length (unlines ks) = Suc (length h)" using h by (metis length_append length_append_singleton)
      have j: "j = int (length (h @ [newl]) + length l)" "j - 1 = int (length h + length l)"
        using 1(4) hl by (simp_all add: ls)
      have dn: "scan_down ?rd (j - 1) = Inr (int (length h))"
        unfolding rd(1) j(2) by (rule scan_down_line [OF nl])
      have w: "write_line ?rd (int (length h) + 1) j (replicate 512 nul) = Inr (Some (l @ [newl], replicate 512 nul))"
        unfolding rd(2) by (rule write_line_text [OF l(1) _ j(1)]) simp
      have "shuffle ?rd (replicate 512 nul) True (int (length p)) (int (length h)) (out @ l @ [newl]) =
          Inr ((out @ l @ [newl]) @ unlines (alternate ks))"
        unfolding rd(3) using 1(1) [rule_format, of ks True p "int (length h)" "l @ newl # q" "out @ l @ [newl]"] l(2) hl
        by (simp add: ls)
      moreover have "\<not> j < int (length p)" using 1(4) by (simp add: ls)
      ultimately show ?thesis using False dn w
        by (subst shuffle.simps) (simp add: ls)
    qed
  qed
qed

theorem shuffle_correct:
  assumes "list_all text_line ls"
  shows "shuffle_main (unlines ls) (nul # junk) (replicate 512 nul) = Inr (unlines (alternate ls))"
proof -
  have "nul \<notin> set (unlines ls)" using assms by (induction ls) (auto simp: text_line_def)
  then have "strlen_in (unlines ls @ nul # junk) = Inr (length (unlines ls))" by (rule strlen_in_text)
  then show ?thesis using shuffle_lines [OF assms, of True "[]" _ "nul # junk" "[]"]
    by (simp add: shuffle_main_def kbind_def)
qed


section \<open>Where the program leaves its blocks\<close>

text \<open>A first line of 512 bytes and more is copied over the end of \<open>change\<close>.\<close>

lemma shuffle_long_line:
  assumes "newl \<notin> set l" "nul \<notin> set l" "512 \<le> length l" "nul \<notin> set t"
  shows "shuffle_main (l @ newl # t) (nul # junk) change = Inl (Fault ''change'')"
proof -
  have "strlen_in ((l @ newl # t) @ nul # junk) = Inr (length (l @ newl # t))" using assms by (intro strlen_in_text) simp
  moreover have "scan_up ((l @ newl # t) @ nul # junk) 0 = Inr (int (length l))"
    using scan_up_line [OF assms(1), of "[]"] by simp
  moreover have "512 < nat (int (length l) + 1)" using assms(3) by simp
  ultimately show ?thesis
    by (simp add: shuffle_main_def kbind_def shuffle.simps [of _ change True] write_line_def Let_def)
qed

text \<open>
  A last line without a newline makes the walk leave the block, and so does \<open>strlen\<close> when no zero byte follows the text: in the last
  example the two bytes behind the text come out in the middle of it.
\<close>

lemma shuffle_unterminated:
  "shuffle_main ''ab'' [nul] (replicate 512 nul) = Inl (Fault ''readtotal'')"
  "shuffle_main (unlines [''ab'']) ''zz'' (replicate 512 nul) = Inl (Fault ''strlen'')"
  "shuffle_main (unlines [''ab'', ''c'']) (''zz'' @ [newl, nul]) (replicate 512 nul) = Inr (unlines [''ab'', ''zz'', ''c''])"
  by code_simp+

end
