(* ===== verification/Userlib.thy ===== *)
theory Userlib imports Console
begin

text \<open>
  user/ulib.c and user/printf.c: the library of user programs.  A C string that is only read is the list of its bytes before the zero; what
  a program writes to a descriptor is the list of the bytes, and \<open>read\<close> takes them one by one from the list of those to come.
\<close>

section \<open>Strings and memory\<close>

text \<open>\<open>strcpy\<close> stores what it reads, so it may not come to an end.\<close>

partial_function (option) strcpy :: "pmem \<Rightarrow> u32 \<Rightarrow> u32 \<Rightarrow> pmem option" where
  "strcpy m s t = (if m t = 0 then Some (m(s := m t)) else strcpy (m(s := m t)) (s + 1) (t + 1))"

fun strcmp :: "u8 list \<Rightarrow> u8 list \<Rightarrow> int" where
  "strcmp [] [] = 0"
| "strcmp [] (d # q) = 0 - int (unat d)"
| "strcmp (c # p) [] = int (unat c) - 0"
| "strcmp (c # p) (d # q) = (if c = d then strcmp p q else int (unat c) - int (unat d))"

text \<open>The part of the string from the character on, or a null pointer.\<close>

fun strchr :: "u8 list \<Rightarrow> u8 \<Rightarrow> u8 list option" where
  "strchr [] c = None"
| "strchr (d # s) c = (if d = c then Some (d # s) else strchr s c)"

text \<open>The \<open>memmove\<close> of user programs, which only goes upwards.\<close>

definition umemmove :: "pmem \<Rightarrow> u32 \<Rightarrow> u32 \<Rightarrow> int \<Rightarrow> pmem" where
  "umemmove m vdst vsrc n = copy_up m vdst vsrc (nat n)"

text \<open>\<open>gets\<close>: the bytes before the zero it stores at \<open>buf[i]\<close>, and those still to come.\<close>

fun gets_loop :: "int \<Rightarrow> u8 list \<Rightarrow> u8 list \<Rightarrow> u8 list \<times> u8 list" where
  "gets_loop mx bf [] = (bf, [])"
| "gets_loop mx bf (c # inp) =
     (if int (length bf) + 1 < mx then
        if c = 10 \<or> c = 13 then (bf @ [c], inp) else gets_loop mx (bf @ [c]) inp
      else (bf, c # inp))"

definition gets :: "int \<Rightarrow> u8 list \<Rightarrow> (u8 list \<times> u8 list) res" where
  "gets mx inp = (if mx \<le> 0 then Inl (Fault ''buf'') else Inr (gets_loop mx [] inp))"

fun atoi_from :: "u32 \<Rightarrow> u8 list \<Rightarrow> u32" where
  "atoi_from n [] = n"
| "atoi_from n (c # s) = (if 48 \<le> c \<and> c \<le> 57 then atoi_from (n * 10 + ucast c - 48) s else n)"

definition atoi :: "u8 list \<Rightarrow> int" where
  "atoi s = sint (atoi_from 0 s)"

section \<open>Formatted output\<close>

text \<open>\<open>printint\<close> fills its buffer as that of the kernel does, from digits in upper case.\<close>

definition udigits :: "u8 list" where
  "udigits = bytes ''0123456789ABCDEF''"

definition uprintint :: "u32 \<Rightarrow> u32 \<Rightarrow> bool \<Rightarrow> u8 list res" where
  "uprintint xx base sg = kbind (print_buf udigits xx base sg) (\<lambda>bf. Inr (rev bf))"

text \<open>\<open>state\<close> is whether the last character was a percent sign; \<open>str\<close> gives the string at an address.\<close>

fun printf_loop :: "(u32 \<Rightarrow> u8 list) \<Rightarrow> bool \<Rightarrow> u8 list \<Rightarrow> u32 list \<Rightarrow> u8 list \<Rightarrow> u8 list res" where
  "printf_loop str state [] ap out = Inr out"
| "printf_loop str False (c # fmt) ap out =
     (if c = 37 then printf_loop str True fmt ap out else printf_loop str False fmt ap (out @ [c]))"
| "printf_loop str True (c # fmt) ap out =
     (if c \<in> set (bytes ''dxpsc'') then
        (case ap of [] \<Rightarrow> Inl (Fault ''ap'')
         | a # ap \<Rightarrow>
             if c = of_char CHR ''d'' then kbind (uprintint a 10 True) (\<lambda>w. printf_loop str False fmt ap (out @ w))
             else if c = of_char CHR ''s'' then
               printf_loop str False fmt ap (out @ (if a = 0 then bytes ''(null)'' else str a))
             else if c = of_char CHR ''c'' then printf_loop str False fmt ap (out @ [ucast a])
             else kbind (uprintint a 16 False) (\<lambda>w. printf_loop str False fmt ap (out @ w)))
      else if c = 37 then printf_loop str False fmt ap (out @ [c])
      else printf_loop str False fmt ap (out @ [37, c]))"

definition printf :: "(u32 \<Rightarrow> u8 list) \<Rightarrow> u8 list \<Rightarrow> u32 list \<Rightarrow> u8 list res" where
  "printf str fmt ap = printf_loop str False fmt ap []"

section \<open>What the routines compute\<close>

lemma strcmp_eq_0: "0 \<notin> set p \<Longrightarrow> 0 \<notin> set q \<Longrightarrow> strcmp p q = 0 \<longleftrightarrow> p = q"
  by (induction p q rule: strcmp.induct) (auto simp: word_unat_eq_iff simp del: of_nat_unat)

lemma strchr_Some: "strchr s c = Some r \<longleftrightarrow> (\<exists>p q. s = p @ c # q \<and> c \<notin> set p \<and> r = c # q)"
proof (induction s)
  case (Cons d s)
  show ?case
  proof (cases "d = c")
    case True
    have "(\<exists>p q. d # s = p @ c # q \<and> c \<notin> set p \<and> r = c # q) \<longleftrightarrow> r = d # s"
      using True by (metis append_Nil list.inject list.set_intros(1) list.set_cases neq_Nil_conv append_Cons empty_iff list.set(1))
    then show ?thesis using True by auto
  next
    case False
    have "(\<exists>p q. d # s = p @ c # q \<and> c \<notin> set p \<and> r = c # q) \<longleftrightarrow> (\<exists>p q. s = p @ c # q \<and> c \<notin> set p \<and> r = c # q)" (is "?A \<longleftrightarrow> ?B")
    proof
      assume ?A
      then obtain p q where p: "d # s = p @ c # q" "c \<notin> set p" "r = c # q" by blast
      then show ?B using False by (cases p) auto
    next
      assume ?B
      then obtain p q where p: "s = p @ c # q" "c \<notin> set p" "r = c # q" by blast
      then show ?A using False by (intro exI [of _ "d # p"] exI [of _ q]) auto
    qed
    then show ?thesis using False Cons by simp
  qed
qed simp

lemma strcpy_copy_up:
  assumes "\<And>i. i < n \<Longrightarrow> m (t + of_nat i) \<noteq> 0" "m (t + of_nat n) = 0"
    and "\<And>i j. i \<le> n \<Longrightarrow> j \<le> n \<Longrightarrow> s + of_nat i \<noteq> t + of_nat j"
  shows "strcpy m s t = Some (copy_up m s t (Suc n))"
  using assms
proof (induction n arbitrary: m s t)
  case 0
  then show ?case by (simp add: strcpy.simps [of m] fun_upd_def)
next
  case (Suc n)
  have ne: "t + 1 + of_nat i \<noteq> s" if "i \<le> n" for i
    using Suc.prems(3) [of 0 "Suc i"] that by (auto simp: add.assoc)
  have "strcpy (m(s := m t)) (s + 1) (t + 1) = Some (copy_up (m(s := m t)) (s + 1) (t + 1) (Suc n))"
  proof (rule Suc.IH)
    show "(m(s := m t)) (t + 1 + of_nat i) \<noteq> 0" if "i < n" for i
      using Suc.prems(1) [of "Suc i"] ne [of i] that by (simp add: add.assoc)
    show "(m(s := m t)) (t + 1 + of_nat n) = 0" using Suc.prems(2) ne [of n] by (simp add: add.assoc)
    show "s + 1 + of_nat i \<noteq> t + 1 + of_nat j" if "i \<le> n" "j \<le> n" for i j
      using Suc.prems(3) [of "Suc i" "Suc j"] that by (simp add: add.assoc)
  qed
  then show ?case using Suc.prems(1) [of 0] by (simp add: strcpy.simps [of m])
qed

text \<open>\<open>memmove\<close> of user programs loses bytes when it moves a block upwards by less than its length.\<close>

lemma umemmove_overlap: "umemmove ucast 101 100 2 102 = 100" "memmove ucast 101 100 2 102 = 101"
  by code_simp+

lemma gets_loop_spec:
  assumes "gets_loop mx bf inp = (b, rest)" "int (length bf) < mx"
  shows "\<exists>l. b = bf @ l \<and> l @ rest = inp \<and> int (length b) < mx \<and> (\<forall>c \<in> set (butlast l). c \<noteq> 10 \<and> c \<noteq> 13) \<and>
    (rest = [] \<or> int (length b) + 1 = mx \<or> l \<noteq> [] \<and> last l \<in> {10, 13})"
  using assms
proof (induction mx bf inp rule: gets_loop.induct)
  case (2 mx bf c inp)
  show ?case
  proof (cases "int (length bf) + 1 < mx \<and> c \<noteq> 10 \<and> c \<noteq> 13")
    case True
    then obtain l where l: "b = (bf @ [c]) @ l" "l @ rest = inp" "int (length b) < mx" "\<forall>c \<in> set (butlast l). c \<noteq> 10 \<and> c \<noteq> 13"
        "rest = [] \<or> int (length b) + 1 = mx \<or> l \<noteq> [] \<and> last l \<in> {10, 13}"
      using 2 by (auto split: if_splits)
    then show ?thesis using True by (intro exI [of _ "c # l"]) auto
  next
    case False
    then show ?thesis using 2(2,3) by (auto split: if_splits)
  qed
qed auto

text \<open>A line is read whole, with its end, when it fits; what follows it stays.\<close>

lemma gets_line:
  assumes "gets mx inp = Inr (b, rest)"
  shows "b @ rest = inp \<and> int (length b) < mx \<and> (\<forall>c \<in> set (butlast b). c \<noteq> 10 \<and> c \<noteq> 13) \<and>
    (rest = [] \<or> int (length b) + 1 = mx \<or> b \<noteq> [] \<and> last b \<in> {10, 13})"
  using gets_loop_spec [of mx "[]" inp b rest] assms by (auto simp: gets_def split: if_splits)

lemma udigits_decimal: "d < 10 \<Longrightarrow> 48 \<le> udigits ! d \<and> udigits ! d \<le> 57 \<and> (ucast (udigits ! d) :: u32) - 48 = of_nat d"
proof -
  have "list_all (\<lambda>d. 48 \<le> udigits ! d \<and> udigits ! d \<le> 57 \<and> (ucast (udigits ! d) :: u32) - 48 = of_nat d) [0..<10]" by code_simp
  then show "d < 10 \<Longrightarrow> ?thesis" by (simp only: list_all_iff set_upt atLeastLessThan_iff) simp
qed

lemma atoi_digits:
  "\<forall>d \<in> set ds. d < 10 \<Longrightarrow> atoi_from n (map (nth udigits) ds) = foldl (\<lambda>n d. n * 10 + of_nat d) n ds"
proof (induction ds arbitrary: n)
  case (Cons d ds)
  note dg = udigits_decimal [of d]
  have d: "d < 10" "\<forall>d \<in> set ds. d < 10" using Cons.prems by simp_all
  then have e: "n * 10 + ucast (udigits ! d) - 48 = n * 10 + of_nat d" using dg by (metis add_diff_eq)
  have "atoi_from n (map (nth udigits) (d # ds)) = atoi_from (n * 10 + ucast (udigits ! d) - 48) (map (nth udigits) ds)"
    using dg d by simp
  also have "\<dots> = foldl (\<lambda>n d. n * 10 + of_nat d) n (d # ds)" unfolding e Cons.IH [OF d(2)] by simp
  finally show ?case .
qed simp

lemma foldl_digits: "foldl (\<lambda>n d. n * 10 + of_nat d) (0 :: u32) (rev ds) = of_nat (foldr (\<lambda>d n. 10 * n + d) ds 0)"
  by (induction ds) (simp_all add: algebra_simps)

text \<open>
  Numbers survive: what \<open>printf\<close> writes for \<open>%d\<close> of a number that is not negative, \<open>atoi\<close> reads back; of a negative one it
  reads nothing, for it stops at the sign.
\<close>

lemma atoi_printint: "\<exists>w. uprintint x 10 True = Inr w \<and> atoi w = (if sint x < 0 then 0 else sint x)"
proof (cases "sint x < 0")
  case True
  obtain ds where "print_digits udigits 10 (- x) [] = Inr ds" "length ds \<le> 10"
  proof -
    have "unat (- x) < 10 ^ Suc 9" using unat_lt32 [of "- x"] by simp
    then have "length (numeral_digits 10 (unat (- x))) \<le> 10" using digits_length [of 10 "unat (- x)" 9] by simp
    then show thesis using that print_digits_eq [of 10 udigits "[]" "- x"] by (simp add: udigits_def bytes_def)
  qed
  then have "uprintint x 10 True = Inr (45 # rev ds)" using True by (simp add: uprintint_def print_buf_def bytes_def)
  then show ?thesis using True by (intro exI [of _ "45 # rev ds"]) (simp add: atoi_def)
next
  case False
  let ?d = "numeral_digits 10 (unat x)"
  have "unat x < 10 ^ Suc 9" using unat_lt32 [of x] by simp
  then have "length ?d \<le> 10" using digits_length [of 10 "unat x" 9] by simp
  then have "uprintint x 10 True = Inr (map (nth udigits) (rev ?d))"
    using print_digits_eq [of 10 udigits "[]" x] False by (simp add: uprintint_def print_buf_def rev_map udigits_def bytes_def)
  moreover have "atoi_from 0 (map (nth udigits) (rev ?d)) = x"
    using digits_bound [of 10 _ "unat x"] digits_value [of 10 "unat x"] by (subst atoi_digits) (auto simp: foldl_digits)
  ultimately show ?thesis using False by (simp add: atoi_def)
qed

text \<open>A conversion that \<open>printf\<close> does not know is written as it stands, a percent sign at the end not at all.\<close>

lemma printf_unknown:
  "printf str (bytes ''%d of %q%%'') [12] = Inr (bytes ''12 of %q%'')" "printf str (bytes ''%s%'') [0] = Inr (bytes ''(null)'')"
  by code_simp+

end
