(* ===== verification/Threadlib.thy ===== *)
theory Threadlib imports Syscall Umalloc Copyuvm
begin

text \<open>
  user/threadlib.c: the spin lock of user programs, \<open>thread_create\<close> and \<open>thread_join\<close>.  The locks are modelled down to the single
  \<open>xchg\<close>, over all interleavings of the threads of a process; a lock is its address.  Creating and joining are given over the heap of
  the process (user/umalloc.c) and the kernel that carries out \<open>clone\<close> and \<open>join\<close>.
\<close>

section \<open>Locks\<close>

text \<open>A thread is outside of the locks, in the loop of \<open>lock_acquire\<close>, or between \<open>lock_acquire\<close> and \<open>lock_release\<close>.\<close>

datatype tpc = Outside | Spinning nat | Inside nat

record threads =
  lflag :: "nat \<Rightarrow> u32"
  tat :: "nat \<Rightarrow> tpc"

definition uxchg :: "nat \<Rightarrow> u32 \<Rightarrow> threads \<Rightarrow> u32 \<times> threads" where
  "uxchg a v m = (lflag m a, m\<lparr>lflag := (lflag m)(a := v)\<rparr>)"

definition lock_init :: "nat \<Rightarrow> threads \<Rightarrow> threads" where
  "lock_init l m = m\<lparr>lflag := (lflag m)(l := 0)\<rparr>"

definition lock_acquire :: "nat \<Rightarrow> nat \<Rightarrow> threads \<Rightarrow> threads" where
  "lock_acquire t l m = (let (old, m) = uxchg l 1 m in if old \<noteq> 0 then m else m\<lparr>tat := (tat m)(t := Inside l)\<rparr>)"

definition lock_release :: "nat \<Rightarrow> nat \<Rightarrow> threads \<Rightarrow> threads" where
  "lock_release t l m = (snd (uxchg l 0 m))\<lparr>tat := (tat m)(t := Outside)\<rparr>"

text \<open>Threads that take locks initialised before: the start of \<open>lock_acquire\<close>, each turn of its loop, and \<open>lock_release\<close>.\<close>

inductive lock_run :: "threads \<Rightarrow> bool" where
  start: "(\<And>l. lflag m l = 0) \<Longrightarrow> (\<And>t. tat m t = Outside) \<Longrightarrow> lock_run m"
| enter: "lock_run m \<Longrightarrow> tat m t = Outside \<Longrightarrow> lock_run (m\<lparr>tat := (tat m)(t := Spinning l)\<rparr>)"
| turn: "lock_run m \<Longrightarrow> tat m t = Spinning l \<Longrightarrow> lock_run (lock_acquire t l m)"
| leave: "lock_run m \<Longrightarrow> tat m t = Inside l \<Longrightarrow> lock_run (lock_release t l m)"

text \<open>
  Threads that call \<open>thread_create\<close> and \<open>thread_join\<close>: \<open>lk t\<close> is the address of the variable \<open>lock\<close> of the function, on the stack of
  thread \<open>t\<close>, which each call initialises before it acquires it; inside are the calls of \<open>malloc\<close> and \<open>free\<close>.
\<close>

inductive create_run :: "(nat \<Rightarrow> nat) \<Rightarrow> threads \<Rightarrow> bool" for lk where
  cstart: "(\<And>t. tat m t = Outside) \<Longrightarrow> create_run lk m"
| center: "create_run lk m \<Longrightarrow> tat m t = Outside \<Longrightarrow> create_run lk ((lock_init (lk t) m)\<lparr>tat := (tat m)(t := Spinning (lk t))\<rparr>)"
| cturn: "create_run lk m \<Longrightarrow> tat m t = Spinning l \<Longrightarrow> create_run lk (lock_acquire t l m)"
| cleave: "create_run lk m \<Longrightarrow> tat m t = Inside l \<Longrightarrow> create_run lk (lock_release t l m)"

lemma lock_run_inv:
  "lock_run m \<Longrightarrow> (\<forall>t l. tat m t = Inside l \<longrightarrow> lflag m l \<noteq> 0) \<and> (\<forall>t u l. tat m t = Inside l \<longrightarrow> tat m u = Inside l \<longrightarrow> t = u)"
proof (induction rule: lock_run.induct)
  case (turn m t l)
  then show ?case by (auto simp: lock_acquire_def uxchg_def)
next
  case (leave m t l)
  then show ?case by (auto simp: lock_release_def uxchg_def)
qed auto

lemma all_inside: "\<exists>m. create_run lk m \<and> (\<forall>t. tat m t = (if t < n then Inside (lk t) else Outside))"
proof (induction n)
  case 0
  show ?case by (intro exI [of _ "\<lparr>lflag = \<lambda>_. 0, tat = \<lambda>_. Outside\<rparr>"]) (simp add: cstart)
next
  case (Suc n)
  then obtain m where m: "create_run lk m" "\<forall>t. tat m t = (if t < n then Inside (lk t) else Outside)" by blast
  define u where "u = (lock_init (lk n) m)\<lparr>tat := (tat m)(n := Spinning (lk n))\<rparr>"
  have "create_run lk u" unfolding u_def using m by (intro center) simp_all
  then have "create_run lk (lock_acquire n (lk n) u)" by (rule cturn) (simp add: u_def)
  moreover have "tat (lock_acquire n (lk n) u) t = (if t < Suc n then Inside (lk t) else Outside)" for t
    using m(2) by (simp add: u_def lock_acquire_def lock_init_def uxchg_def)
  ultimately show ?case by blast
qed

text \<open>
  The locks of user programs exclude: in every interleaving of threads that acquire and release locks initialised beforehand, no two of
  them are inside the same lock.  The lock around \<open>malloc\<close> in \<open>thread_create\<close> does not, as each call makes and initialises its own: any
  number of threads can be inside at once, wherever their variables \<open>lock\<close> lie.
\<close>

theorem user_locks:
  "(lock_run m \<longrightarrow> tat m t = Inside l \<longrightarrow> tat m u = Inside l \<longrightarrow> t = u) \<and>
   (\<exists>m'. create_run lk m' \<and> (\<forall>t < n. tat m' t = Inside (lk t)))"
  using lock_run_inv [of m] all_inside [of lk n] by auto

section \<open>Threads and their stacks\<close>

text \<open>
  \<open>thread_create\<close> without its message.  A walk of the free list that does not end is none; a null pointer from \<open>malloc\<close> is handed on
  to \<open>clone\<close>.
\<close>

definition thread_create ::
    "(nat \<Rightarrow> nat \<Rightarrow> bool) \<Rightarrow> nat \<Rightarrow> u32 \<Rightarrow> nat \<Rightarrow> u32 \<Rightarrow> u32 \<Rightarrow> heap \<Rightarrow> kern \<Rightarrow> (int \<times> heap \<times> kern) res option" where
  "thread_create grant B forkret me start arg s k = map_option (\<lambda>(r, s).
     let stack = (case r of None \<Rightarrow> 0 | Some p \<Rightarrow> of_nat p) in
     kbind (clone forkret me start arg stack k) (\<lambda>(n, k). Inr (n, s, k))) (malloc grant B 4096 s)"

text \<open>\<open>thread_join\<close>, with the variable \<open>stack\<close> at the address \<open>sp\<close>; a call that sleeps in \<open>join\<close> has no result yet.\<close>

definition thread_join :: "nat \<Rightarrow> u32 \<Rightarrow> heap \<Rightarrow> kern \<Rightarrow> (pout \<times> heap \<times> kern) res option" where
  "thread_join me sp s k = (case join me sp k of
     Inl e \<Rightarrow> Some (Inl e)
   | Inr (PSleep, k) \<Rightarrow> Some (Inr (PSleep, s, k))
   | Inr (PRet n, k) \<Rightarrow>
       if n = -1 then Some (Inr (PRet n, s, k))
       else (case uload32 (pgdir (ptab k me)) (kmx k) sp of
         Inl e \<Rightarrow> Some (Inl e)
       | Inr v \<Rightarrow> map_option (\<lambda>s. Inr (PRet n, s, k)) (free (unat v) s)))"

text \<open>Two threads inside \<open>malloc\<close> that have found the same block of the right size both return it.\<close>

lemma malloc_race:
  assumes "hsize s p = n"
  shows "fst (take_block n v p s) = Some (p + 8)" "fst (take_block n v p (snd (take_block n v p s))) = Some (p + 8)"
  using assms by (simp_all add: take_block_def)

text \<open>What \<open>copyout\<close> stores at a user address, the program loads.\<close>

lemma copyout_word:
  assumes "uspace m d pt fr ps" "unat a + 4 \<le> 4096 * UPAGES" "\<And>x. unat a \<le> x \<Longrightarrow> x < unat a + 4 \<Longrightarrow> fr (x div 4096) \<noteq> None"
  shows "\<exists>m'. copyout d a (st32 (\<lambda>_. 0) 0 v) 4 m = Inr (0, m') \<and> uspace m' d pt fr ps \<and> uload32 d m' a = Inr v"
proof -
  have "unat a + unat (4 :: u32) \<le> 4096 * UPAGES" using assms(2) by simp
  from copyout_ok [OF assms(1) this, of "st32 (\<lambda>_. 0) 0 v"] assms(3) obtain m' where
    m: "copyout d a (st32 (\<lambda>_. 0) 0 v) 4 m = Inr (0, m')" "uspace m' d pt fr ps"
      "\<And>b. unat b < 4096 * UPAGES \<Longrightarrow> ubyte m' fr b =
        (if unat a \<le> unat b \<and> unat b < unat a + 4 then Some (st32 (\<lambda>_. 0) 0 v (unat b - unat a)) else ubyte m fr b)" by auto
  have b: "upa d m' (a + of_nat i) \<noteq> None \<and> mem m' (the (upa d m' (a + of_nat i))) = st32 (\<lambda>_. 0) 0 v i" if "i < 4" for i
  proof -
    let ?a = "a + of_nat i"
    have u: "unat ?a = unat a + i" using that assms(2) unat_u32 [of i] by (subst unat_add_lt) simp_all
    then have l: "unat ?a < 4096 * UPAGES" using that assms(2) by linarith
    have "fr (unat ?a div 4096) \<noteq> None" by (rule assms(3)) (use u that in simp_all)
    then obtain q where q: "fr (unat ?a div 4096) = Some q" by blast
    have "unat (?a - PGROUNDDOWN ?a) = unat (?a mod 4096)" unfolding page_of(2) by (simp add: unat_mod_distrib)
    then have "?a - PGROUNDDOWN ?a = ?a mod 4096" by (rule word_eq_unatI)
    then have "ubyte m' fr ?a = Some (mem m' (q + ?a mod 4096))" using q by (simp add: ubyte_def)
    moreover have "ubyte m' fr ?a = Some (st32 (\<lambda>_. 0) 0 v i)" using m(3) [OF l] u that by simp
    ultimately show ?thesis using uspace_upa [where fr = fr, OF m(2) l q] by simp
  qed
  have "uload d m' a 4 = Inr (map (\<lambda>i. mem m' (the (upa d m' (a + of_nat i)))) [0..<4])"
    using b by (intro uload_ok) blast
  moreover have "map (\<lambda>i. mem m' (the (upa d m' (a + of_nat i)))) [0..<4] = map (st32 (\<lambda>_. 0) 0 v) [0..<4]"
    using b by (intro map_cong refl) (simp del: upt_rec_numeral)
  ultimately have "uload32 d m' a = Inr (ld32 (\<lambda>i. map (st32 (\<lambda>_. 0) 0 v) [0..<4] ! i) (0 :: nat))" by (simp add: uload32_def)
  moreover have "ld32 (\<lambda>i. map (st32 (\<lambda>_. 0) 0 v) [0..<4] ! i) (0 :: nat) = ld32 (st32 (\<lambda>_. 0) 0 v) (0 :: nat)" by (rule ld32_cong) simp_all
  ultimately show ?thesis using m by (intro exI [of _ m']) simp
qed

text \<open>The kernel's part: a zombie thread is reaped, and the address of its stack stored for the caller.\<close>

lemma join_zombie:
  assumes "child_scan True me k [0..<NPROC] False = (h, Some q)" "sp + 4 \<le> psz (ptab k me)" "unat sp + 4 \<le> 4096 * UPAGES"
    and "uspace (kmx k) (pgdir (ptab k me)) pt fr ps" "\<And>x. unat sp \<le> x \<Longrightarrow> x < unat sp + 4 \<Longrightarrow> fr (x div 4096) \<noteq> None"
    and "page_ok (kmx k) (kstack (ptab k q))" "kstack (ptab k q) \<notin> set ps"
    and "kstack (ptab k q) \<notin> insert (pgdir (ptab k me)) (insert pt (user_frames fr))"
  shows "\<exists>k'. join me sp k = Inr (PRet (pid (ptab k q)), k') \<and> uload32 (pgdir (ptab k me)) (kmx k') sp = Inr (pstack (ptab k q)) \<and>
    uspace (kmx k') (pgdir (ptab k me)) pt fr (kstack (ptab k q) # ps) \<and> pgdir (ptab k' me) = pgdir (ptab k me) \<and>
    pstate (ptab k' q) = UNUSED \<and> (\<forall>r. r \<noteq> q \<longrightarrow> r \<noteq> me \<longrightarrow> ptab k' r = ptab k r)"
proof -
  let ?d = "pgdir (ptab k me)" and ?ks = "kstack (ptab k q)"
  note u = uspaceD [OF assms(4)]
  obtain m where m: "kfree ?ks (kmx k) = Inr m" using assms(6) kfree_Inr_iff by blast
  have al: "aligned 4096 z" if "z \<in> insert ?d (insert pt (user_frames fr))" for z
    using that u uspace_frame(2) [OF assms(4)] by (auto simp: user_frames_def)
  have U: "uspace m ?d pt fr (?ks # ps)"
  proof (rule uspace_transfer(1) [OF assms(4)])
    show "free_pages m (?ks # ps)" by (rule kfree_free_pages [OF u(1) m assms(7)])
    show "kend m = kend (kmx k)" using m by (simp add: kfree_ok)
    show "\<forall>z \<in> insert ?d (insert pt (user_frames fr)). z \<notin> set (?ks # ps)"
      using assms(8) uspace_own [OF assms(4)] by auto
    show "\<forall>z \<in> insert ?d (insert pt (user_frames fr)). \<forall>a. unat (a - z) < 4096 \<longrightarrow> mem m a = mem (kmx k) a"
      using kfree_other_page [OF m] al assms(8) by metis
  qed
  define k1 where "k1 = upd_proc q (\<lambda>k. k\<lparr>kstack := 0\<rparr>) (k\<lparr>kmx := m\<rparr>)"
  have k1: "pgdir (ptab k1 me) = ?d" "pstack (ptab k1 q) = pstack (ptab k q)" "kmx k1 = m" by (simp_all add: k1_def)
  from copyout_word [OF U assms(3,5), of "pstack (ptab k q)"] obtain m' where m':
    "copyout ?d sp (st32 (\<lambda>_. 0) 0 (pstack (ptab k q))) 4 m = Inr (0, m')" "uspace m' ?d pt fr (?ks # ps)"
      "uload32 ?d m' sp = Inr (pstack (ptab k q))" by blast
  define k' where "k' = (let s = clear_proc q (k1\<lparr>kmx := m'\<rparr>) in upd_proc me (\<lambda>k. k\<lparr>count_thread := count_thread k - 1\<rparr>) s)"
  have "join me sp k = Inr (PRet (pid (ptab k q)), k')"
  proof -
    have rng: "\<not> sp + 4 > psz (ptab k me)" using assms(2) by simp
    show ?thesis unfolding join_def if_not_P [OF rng] assms(1) prod.case option.case Let_def m kbind_simps k1_def [symmetric] k1 m'(1)
      by (simp add: k'_def k1_def clear_proc_def)
  qed
  moreover have "kmx k' = m'" "pgdir (ptab k' me) = ?d" "pstate (ptab k' q) = UNUSED" "\<forall>r. r \<noteq> q \<longrightarrow> r \<noteq> me \<longrightarrow> ptab k' r = ptab k r"
    by (simp_all add: k'_def clear_proc_def k1_def)
  ultimately show ?thesis using m' by blast
qed


definition demo_thread :: "kmem \<Rightarrow> kern" where
  "demo_thread u = upd_proc 1 (\<lambda>_. (ptab (demo_run u) 0)\<lparr>pstate := ZOMBIE, parent := Some 0, kstack := 0x204000, pid := 7, pstack := 4104\<rparr>) (demo_run u)"


end
