(* ===== verification/Spec2Isabelle.thy ===== *)
theory Spec2Isabelle imports Ide Bio Contents Dir File Pipe Spinlock Vm Copyuvm Proctab Syscall Exec Sysfile Trap Fdtable Sysrun Sched Console Kbd Grep Sh Server Umalloc Mlfq Fsck Mysh Stackrel Shmstat Shuffle Userlib Threadlib
begin

text \<open>
  A verification library for the xv6 kernel and user programs of the CS537 projects.
  The kernel modelled is the one of \<open>Kernel threads lib of xv6/Project4-2\<close>.

  Prelude: machine integers, errors as values, byte memory.
  KString (kernel/string.c), Kalloc (kernel/kalloc.c), Vm (kernel/vm.c), Pipe (kernel/pipe.c) over
  Fifo, Spinlock (kernel/spinlock.c), Ide (kernel/ide.c), Bio (kernel/bio.c), Fs, Bitmap and Dir
  (kernel/fs.c).
\<close>

end
